(* ===== verification/LF_Base.thy ===== *)
theory LF_Base
  imports Main "HOL-Library.Word" "HOL-Library.Multiset"
begin

text \<open>
  The shared vocabulary of the LightFlow development: the fixed-width integers and the
  constants of \<^verbatim>\<open>include/lightflow/core/types.hpp\<close>, null pointers as \<open>None\<close>, the address
  round-up that the memory components share, lists threaded through a \<open>next\<close> field, and
  the facts on words, lists and multisets that the component theories use.
\<close>

unbundle bit_operations_syntax

named_theorems lf_consts \<open>the compile-time constants of the library\<close>
named_theorems lf_word \<open>how the word operations read as natural numbers\<close>

section \<open>Integers, pointers, constants\<close>

type_synonym u8 = "8 word"
type_synonym u16 = "16 word"
type_synonym u32 = "32 word"
type_synonym u64 = "64 word"
type_synonym usize = "64 word"

text \<open>
  A \<open>TaskNode*\<close> is the number of the node in the arena, or \<open>None\<close> for \<open>nullptr\<close>.
\<close>

type_synonym node_id = nat
type_synonym node_ptr = "node_id option"

definition VERSION_MAJOR :: u32 where "VERSION_MAJOR = 0"
definition VERSION_MINOR :: u32 where "VERSION_MINOR = 1"
definition VERSION_PATCH :: u32 where "VERSION_PATCH = 0"

definition CACHELINE_SIZE :: usize where
  [lf_consts]: "CACHELINE_SIZE = 64"

definition SLAB_SIZE :: usize where
  [lf_consts]: "SLAB_SIZE = 64 * 1024"

definition INVALID_WORKER_INDEX :: u32 where
  [lf_consts]: "INVALID_WORKER_INDEX = - 1"

definition version :: string where
  "version = ''0.1.0''"

text \<open>
  \<open>(x + (a - 1)) & ~(a - 1)\<close>, the round-up to a power-of-two alignment written out at
  each use in \<^verbatim>\<open>slab_arena.cpp\<close> and \<^verbatim>\<open>memory_pool.cpp\<close>.
\<close>

definition align_up :: "u64 \<Rightarrow> u64 \<Rightarrow> u64" where
  "align_up x a = (x + (a - 1)) AND NOT (a - 1)"

text \<open>
  \<open>std::bit_ceil\<close>: the least power of two that is not below its argument.
\<close>

function bit_ceil_from :: "nat \<Rightarrow> nat \<Rightarrow> nat" where
  "bit_ceil_from p n = (if p = 0 \<or> n \<le> p then p else bit_ceil_from (2 * p) n)"
  by pat_completeness auto
termination
  by (relation "measure (\<lambda>(p, n). n - p)") auto

declare bit_ceil_from.simps [simp del]

definition bit_ceil :: "nat \<Rightarrow> nat" where
  "bit_ceil n = bit_ceil_from 1 n"

text \<open>
  \<open>chain nx p xs\<close>: following the \<open>next\<close> field \<open>nx\<close> from pointer \<open>p\<close> visits exactly the
  addresses \<open>xs\<close> and ends at the null address 0.
\<close>

fun chain :: "(u64 \<Rightarrow> u64) \<Rightarrow> u64 \<Rightarrow> u64 list \<Rightarrow> bool" where
  "chain nx p [] = (p = 0)"
| "chain nx p (x # xs) = (p = x \<and> x \<noteq> 0 \<and> chain nx (nx x) xs)"

section \<open>Words read as natural numbers\<close>

lemma unat_add_lt [lf_word]:
  fixes a b :: "'a::len word"
  assumes "unat a + unat b < 2 ^ LENGTH('a)"
  shows "unat (a + b) = unat a + unat b"
  using assms by (simp add: unat_word_ariths)

lemma unat_Suc_lt:
  fixes a :: "'a::len word"
  assumes "unat a + 1 < 2 ^ LENGTH('a)"
  shows "unat (a + 1) = unat a + 1"
  using assms unat_add_lt [of a 1] by simp

lemma unat_diff_le [lf_word]:
  fixes a b :: "'a::len word"
  assumes "b \<le> a"
  shows "unat (a - b) = unat a - unat b"
  using assms by (simp add: unat_sub word_le_nat_alt)

lemma unat_pred_gt:
  fixes a b :: "'a::len word"
  assumes "b < a"
  shows "unat (a - 1) = unat a - 1"
proof -
  have "unat (1 :: 'a word) \<le> unat a"
    using assms by (simp add: word_less_nat_alt)
  then show ?thesis by (simp add: unat_diff_le word_le_nat_alt)
qed

lemma word_add_diff_nat:
  fixes a b :: "'a::len word"
  assumes "a \<le> b"
  shows "b = a + of_nat (unat b - unat a)"
proof -
  have "of_nat (unat b - unat a) = b - a"
    using assms by (simp add: unat_sub [symmetric] word_le_nat_alt)
  then show ?thesis by simp
qed

lemmas word_nat_order = word_less_nat_alt word_le_nat_alt


section \<open>Alignment\<close>

lemma unat_pow2:
  "k < LENGTH('a) \<Longrightarrow> unat (2 ^ k :: 'a::len word) = 2 ^ k"
  by (metis of_nat_numeral of_nat_power unat_of_nat mod_less one_less_numeral_iff
      power_strict_increasing semiring_norm(76) unsigned_of_nat take_bit_nat_eq_self)

lemma unat_mask_lt:
  assumes k: "k < LENGTH('a)"
  shows "unat (mask k :: 'a::len word) = 2 ^ k - 1"
proof -
  have "(2 ^ k :: 'a word) \<noteq> 0"
    using unat_pow2 [where 'a = 'a, OF k] by (metis unat_0 power_not_zero zero_neq_numeral)
  then have "unat (2 ^ k - 1 :: 'a word) = 2 ^ k - 1"
    by (simp add: unat_minus_one unat_pow2 [OF k])
  then show ?thesis by (simp add: mask_eq_exp_minus_1)
qed

lemma unat_and_mask:
  fixes x :: "'a::len word"
  shows "unat (x AND mask k) = unat x mod 2 ^ k"
  by (metis take_bit_eq_mask unsigned_take_bit_eq take_bit_eq_mod)

lemma unat_and_not_mask:
  fixes x :: "'a::len word"
  shows "unat (x AND NOT (mask k)) = unat x div 2 ^ k * 2 ^ k"
proof -
  have "x AND NOT (mask k) = push_bit k (drop_bit k x)"
    by (rule bit_word_eqI) (auto simp: bit_simps)
  then have "x AND NOT (mask k) = x - take_bit k x"
    using bits_ident [of k x] by (simp add: eq_diff_eq)
  then have "unat (x AND NOT (mask k)) = unat x - unat (take_bit k x)"
    by (metis unat_sub word_le_nat_alt unsigned_take_bit_eq take_bit_nat_less_eq_self)
  then show ?thesis
    by (metis unsigned_take_bit_eq take_bit_eq_mod minus_mod_eq_div_mult)
qed

lemma align_up_nat:
  assumes "k < 64" and "unat x + 2 ^ k \<le> 2 ^ 64"
  shows "unat (align_up x (2 ^ k)) = (unat x + (2 ^ k - 1)) div 2 ^ k * 2 ^ k"
proof -
  have m: "(2 ^ k - 1 :: u64) = mask k" by (simp add: mask_eq_exp_minus_1)
  have u: "unat (mask k :: u64) = 2 ^ k - 1"
    using assms(1) unat_mask_lt [where 'a = 64, of k] by simp
  have "unat (x + mask k) = unat x + (2 ^ k - 1)"
    using assms u by (subst unat_word_ariths) simp
  then show ?thesis by (simp add: align_up_def m unat_and_not_mask)
qed

text \<open>The three facts every caller needs: not below, less than one unit above, aligned.\<close>

lemma round_up_bounds:
  fixes n a :: nat
  assumes "0 < a"
  shows "n \<le> (n + (a - 1)) div a * a" and "(n + (a - 1)) div a * a < n + a"
proof -
  have e: "(n + (a - 1)) div a * a + (n + (a - 1)) mod a = n + (a - 1)" by simp
  moreover have "(n + (a - 1)) mod a < a" using assms by simp
  ultimately show "n \<le> (n + (a - 1)) div a * a" using assms by linarith
  from e assms show "(n + (a - 1)) div a * a < n + a" by linarith
qed

lemma align_up_bounds:
  assumes "k < 64" and "unat x + 2 ^ k \<le> 2 ^ 64"
  shows "unat x \<le> unat (align_up x (2 ^ k))"
    and "unat (align_up x (2 ^ k)) < unat x + 2 ^ k"
    and "2 ^ k dvd unat (align_up x (2 ^ k))"
  using round_up_bounds [of "2 ^ k" "unat x"] align_up_nat [OF assms] by simp_all

lemma align_up_aligned:
  assumes "k < 64" and "unat x + 2 ^ k \<le> 2 ^ 64" and "2 ^ k dvd unat x"
  shows "align_up x (2 ^ k) = x"
proof -
  from assms(3) obtain m where m: "unat x = m * 2 ^ k" by (auto elim: dvdE simp: mult.commute)
  have "(m * 2 ^ k + (2 ^ k - 1)) div 2 ^ k = m"
    by (metis add.commute div_mult_self3 div_less add_0_right diff_less power_not_zero
        zero_less_one zero_less_numeral zero_less_power zero_neq_numeral)
  then have "unat (align_up x (2 ^ k)) = unat x"
    using align_up_nat [OF assms(1,2)] m by simp
  then show ?thesis by (simp add: word_unat_eq_iff)
qed

section \<open>Powers of two\<close>

lemma bit_ceil_from_ge: "0 < p \<Longrightarrow> n \<le> bit_ceil_from p n"
proof (induction p n rule: bit_ceil_from.induct)
  case (1 p n)
  then show ?case by (cases "n \<le> p") (auto simp: bit_ceil_from.simps [of p n])
qed

lemma bit_ceil_from_pow2: "\<exists>k. bit_ceil_from p n = 2 ^ k * p"
proof (induction p n rule: bit_ceil_from.induct)
  case (1 p n)
  show ?case
  proof (cases "p = 0 \<or> n \<le> p")
    case True
    then show ?thesis by (auto simp: bit_ceil_from.simps [of p n] intro: exI [of _ 0])
  next
    case False
    with "1.IH" obtain k where "bit_ceil_from (2 * p) n = 2 ^ k * (2 * p)" by auto
    then have "bit_ceil_from p n = 2 ^ Suc k * p"
      using False by (simp add: bit_ceil_from.simps [of p n])
    then show ?thesis by blast
  qed
qed

lemma bit_ceil_from_least:
  "0 < p \<Longrightarrow> n \<le> m \<Longrightarrow> m = 2 ^ j * p \<Longrightarrow> bit_ceil_from p n \<le> m"
proof (induction p n arbitrary: j rule: bit_ceil_from.induct)
  case (1 p n)
  show ?case
  proof (cases "n \<le> p")
    case True
    then show ?thesis using "1.prems" by (simp add: bit_ceil_from.simps [of p n])
  next
    case False
    then obtain i where "j = Suc i" using "1.prems" by (cases j) auto
    with False "1.prems" "1.IH" [of i] have "bit_ceil_from (2 * p) n \<le> m" by auto
    then show ?thesis using False "1.prems" by (simp add: bit_ceil_from.simps [of p n])
  qed
qed

lemma bit_ceil_ge: "n \<le> bit_ceil n"
  by (simp add: bit_ceil_def bit_ceil_from_ge)

lemma bit_ceil_pow2: "\<exists>k. bit_ceil n = 2 ^ k"
  using bit_ceil_from_pow2 [of 1 n] by (simp add: bit_ceil_def)

lemma bit_ceil_le: "n \<le> 2 ^ j \<Longrightarrow> bit_ceil n \<le> 2 ^ j"
  using bit_ceil_from_least [of 1 n "2 ^ j" j] by (simp add: bit_ceil_def)

section \<open>Lists threaded through a next field\<close>

lemma chain_upd_other [simp]:
  "a \<notin> set xs \<Longrightarrow> chain (nx(a := b)) p xs = chain nx p xs"
  by (induction xs arbitrary: p) auto

lemma chain_nonzero: "chain nx p xs \<Longrightarrow> 0 \<notin> set xs"
  by (induction xs arbitrary: p) auto

lemma chain_null [simp]: "chain nx 0 xs = (xs = [])"
  by (cases xs) auto

lemma chain_unique: "chain nx p xs \<Longrightarrow> chain nx p ys \<Longrightarrow> xs = ys"
proof (induction xs arbitrary: p ys)
  case Nil
  then show ?case by simp
next
  case (Cons x xs)
  then show ?case by (cases ys) auto
qed

lemma chain_nonnull:
  "p \<noteq> 0 \<Longrightarrow> chain nx p xs \<Longrightarrow> \<exists>ys. xs = p # ys \<and> chain nx (nx p) ys"
  by (cases xs) auto

text \<open>
  Storing the head of one list into the \<open>next\<close> field of the last cell of another joins them.
\<close>

lemma chain_append:
  assumes "chain nx p (xs @ [t])" and "distinct (xs @ [t])"
    and "chain nx q ys" and "set (xs @ [t]) \<inter> set ys = {}"
  shows "chain (nx(t := q)) p (xs @ t # ys)"
  using assms
proof (induction xs arbitrary: p)
  case Nil
  then show ?case by (auto simp del: fun_upd_apply) auto
next
  case (Cons x xs)
  then show ?case by auto
qed

section \<open>Lists and multisets\<close>

lemma map_upt_shift: "map f [a..<a + n] = map (\<lambda>i. f (a + i)) [0..<n]"
  by (rule nth_equalityI) auto

lemma map_upt_Suc_hd: "map f [0..<Suc n] = f 0 # map (\<lambda>i. f (Suc i)) [0..<n]"
  by (rule nth_equalityI) (auto simp: nth_Cons split: nat.split simp del: upt_Suc)

section \<open>Ring positions\<close>

text \<open>Positions closer than the capacity use different slots.\<close>

lemma window_slots_distinct:
  fixes c :: nat
  assumes "m mod c = n mod c" and "a \<le> m" and "m < a + c" and "a \<le> n" and "n < a + c"
  shows "m = n"
proof -
  have *: "x = y" if "x mod c = y mod c" "x \<le> y" "a \<le> x" "y < a + c" for x y
  proof -
    from that(1,2) have "c dvd y - x" by (metis mod_eq_dvd_iff_nat)
    moreover have "y - x < c" using that by linarith
    ultimately have "y - x = 0" by (metis dvd_imp_le not_less zero_less_iff_neq_zero)
    with that(2) show ?thesis by simp
  qed
  show ?thesis
    using *[of m n] *[of n m] assms by (cases "m \<le> n") auto
qed

text \<open>A word below half its range reads the same signed and unsigned.\<close>

lemma sint_small:
  fixes w :: u64
  assumes "unat w < 2 ^ 63"
  shows "sint w = int (unat w)"
proof -
  have u: "uint w = int (unat w)" by simp
  have "int (unat w) < int (2 ^ 63)" using assms by (simp only: of_nat_less_iff)
  with u have "uint w < 2 ^ 63" by simp
  then have "take_bit 63 (uint w) = uint w" by (simp add: take_bit_int_eq_self_iff)
  moreover have "\<not> bit (uint w) 63" using \<open>uint w < 2 ^ 63\<close> by (metis calculation bit_take_bit_iff less_irrefl)
  moreover have "take_bit (Suc 63) (uint w) = uint w"
    using \<open>uint w < 2 ^ 63\<close> by (simp add: take_bit_int_eq_self_iff)
  ultimately have "signed_take_bit 63 (uint w) = uint w"
    by (simp only: signed_take_bit_eq_take_bit_minus) simp
  moreover have "sint w = signed_take_bit (LENGTH(64) - 1) (uint w)" by (simp only: sint_uint One_nat_def)
  moreover have "LENGTH(64) - 1 = 63" by simp
  ultimately show ?thesis using u by (simp only:)
qed

section \<open>Workers\<close>

text \<open>What the workers of a list hold, seen from worker \<open>i\<close>: its own part and that of the others.\<close>

definition gather :: "('a \<Rightarrow> 'b list) \<Rightarrow> 'a list \<Rightarrow> 'b multiset" where
  "gather f ws = mset (concat (map f ws))"

definition rest_of :: "nat \<Rightarrow> 'a list \<Rightarrow> 'a list" where
  "rest_of i ws = take i ws @ drop (Suc i) ws"

lemma gather_update: "i < length ws \<Longrightarrow> gather f (ws[i := a]) = mset (f a) + gather f (rest_of i ws)"
  by (simp add: gather_def rest_of_def upd_conv_take_nth_drop ac_simps)

lemma gather_split: "i < length ws \<Longrightarrow> gather f ws = mset (f (ws ! i)) + gather f (rest_of i ws)"
  using gather_update [of i ws f "ws ! i"] by simp

lemma weights_update: "i < length ws \<Longrightarrow> sum_list (map f (ws[i := a])) = (f a :: nat) + sum_list (map f (rest_of i ws))"
  by (simp add: rest_of_def upd_conv_take_nth_drop)

lemma weights_split: "i < length ws \<Longrightarrow> sum_list (map f ws) = (f (ws ! i) :: nat) + sum_list (map f (rest_of i ws))"
  using weights_update [of i ws f "ws ! i"] by simp

lemma gather_mem: "a \<in> set ws \<Longrightarrow> n \<in> set (f a) \<Longrightarrow> n \<in># gather f ws"
  by (auto simp: gather_def)

lemma gather_rest: "i < length ws \<Longrightarrow> j < length ws \<Longrightarrow> i \<noteq> j \<Longrightarrow> n \<in> set (f (ws ! j)) \<Longrightarrow> n \<in># gather f (rest_of i ws)"
proof -
  assume a: "i < length ws" "j < length ws" "i \<noteq> j" and n: "n \<in> set (f (ws ! j))"
  have "ws ! j \<in> set (rest_of i ws)"
  proof (cases "j < i")
    case True
    then show ?thesis using a(1) by (auto simp: rest_of_def in_set_conv_nth intro!: disjI1 exI [of _ j])
  next
    case False
    then have "ws ! j = drop (Suc i) ws ! (j - Suc i)" "j - Suc i < length (drop (Suc i) ws)" using a by simp_all
    then show ?thesis by (metis Un_iff nth_mem rest_of_def set_append)
  qed
  then show ?thesis using n gather_mem by metis
qed

lemma mem_update: "i < length ws \<Longrightarrow> x \<in> set (ws[i := a]) \<longleftrightarrow> x = a \<or> (\<exists>j < length ws. j \<noteq> i \<and> ws ! j = x)"
  by (force simp: in_set_conv_nth nth_list_update)

lemma mem_split: "i < length ws \<Longrightarrow> x \<in> set ws \<longleftrightarrow> x = ws ! i \<or> (\<exists>j < length ws. j \<noteq> i \<and> ws ! j = x)"
  using mem_update [of i ws x "ws ! i"] by simp


text \<open>
  An order of calls: no call comes after one that depends on it, where \<open>tg v\<close> are the nodes that depend on \<open>v\<close>.
\<close>

definition log_ordered :: "('n \<Rightarrow> 'n list) \<Rightarrow> 'n set \<Rightarrow> 'n list \<Rightarrow> bool" where
  "log_ordered tg V l \<longleftrightarrow> (\<forall>l1 m l2. l = l1 @ m # l2 \<longrightarrow> (\<forall>v \<in> V. m \<in> set (tg v) \<longrightarrow> v \<notin> set (m # l2)))"

lemma log_ordered_snoc:
  assumes "log_ordered tg V l" and "n \<notin> D" and "\<And>m v. m \<in> set (l @ [n]) \<Longrightarrow> v \<in> V \<Longrightarrow> m \<in> set (tg v) \<Longrightarrow> v \<in> D"
  shows "log_ordered tg V (l @ [n])"
  unfolding log_ordered_def
proof (intro allI impI ballI)
  fix l1 m l2 v assume sp: "l @ [n] = l1 @ m # l2" and v: "v \<in> V" "m \<in> set (tg v)"
  have vD: "v \<in> D" using assms(3) [of m v] v sp by simp
  show "v \<notin> set (m # l2)"
  proof (cases l2 rule: rev_cases)
    case Nil
    then show ?thesis using sp vD assms(2) by auto
  next
    case (snoc l3 x)
    then have l: "l = l1 @ m # l3" "x = n" using sp by auto
    have "v \<notin> set (m # l3)" using assms(1) l(1) v unfolding log_ordered_def by blast
    moreover have "v \<noteq> n" using vD assms(2) by blast
    ultimately show ?thesis using l(2) snoc by simp
  qed
qed

end
