(* ===== verification/Task_Types.thy ===== *)
theory Task_Types
  imports LF_Base
begin

text \<open>
  The enumerations of \<^verbatim>\<open>include/lightflow/task/task_domain.hpp\<close>, with their underlying
  values, and the packed dependency counter of a task node: the atomic word \<open>inDegree\<close> of
  \<^verbatim>\<open>task_node.hpp\<close> with \<open>decrementActive\<close> and \<open>decrementSkipped\<close> of \<^verbatim>\<open>task_graph.cpp\<close>.
  The low 16 bits of the word count the predecessors still to report, the high 16 bits the
  predecessors that reported as executed. The locale \<open>dependency_counter\<close> is the contract
  the graph relies on; the packed word is its interpretation.
\<close>

section \<open>Enumerations\<close>

datatype TaskPriority = High | Normal

definition TASK_PRIORITY_COUNT :: usize where
  "TASK_PRIORITY_COUNT = 2"

datatype TaskDomain = Worker | MainThread | IO

datatype TaskType = Static | ParallelForChunk | SubflowTask | Condition | GpuSubmit

datatype TaskState = Pending | Executing | Completed | Skipped | Timeout

datatype Status = Success | GpuTimeout | Error

text \<open>The enumerators' underlying values; comparisons of scoped enumerators follow them.\<close>

fun TaskPriority_value :: "TaskPriority \<Rightarrow> u8" where
  "TaskPriority_value High = 0"
| "TaskPriority_value Normal = 1"

fun TaskDomain_value :: "TaskDomain \<Rightarrow> u8" where
  "TaskDomain_value Worker = 0"
| "TaskDomain_value MainThread = 1"
| "TaskDomain_value IO = 2"

fun TaskState_value :: "TaskState \<Rightarrow> u8" where
  "TaskState_value Pending = 0"
| "TaskState_value Executing = 1"
| "TaskState_value Completed = 2"
| "TaskState_value Skipped = 3"
| "TaskState_value Timeout = 4"

instantiation TaskPriority :: linorder
begin

definition less_eq_TaskPriority :: "TaskPriority \<Rightarrow> TaskPriority \<Rightarrow> bool" where
  "less_eq_TaskPriority p q \<longleftrightarrow> TaskPriority_value p \<le> TaskPriority_value q"

definition less_TaskPriority :: "TaskPriority \<Rightarrow> TaskPriority \<Rightarrow> bool" where
  "less_TaskPriority p q \<longleftrightarrow> TaskPriority_value p < TaskPriority_value q"

instance
proof
  fix x y z :: TaskPriority
  show "(x < y) = (x \<le> y \<and> \<not> y \<le> x)"
    by (auto simp: less_eq_TaskPriority_def less_TaskPriority_def)
  show "x \<le> x" by (simp add: less_eq_TaskPriority_def)
  show "x \<le> y \<Longrightarrow> y \<le> z \<Longrightarrow> x \<le> z" by (simp add: less_eq_TaskPriority_def)
  show "x \<le> y \<Longrightarrow> y \<le> x \<Longrightarrow> x = y" by (cases x; cases y) (auto simp: less_eq_TaskPriority_def)
  show "x \<le> y \<or> y \<le> x" by (auto simp: less_eq_TaskPriority_def)
qed

end

lemma High_before_Normal: "High < Normal"
  by (simp add: less_TaskPriority_def)

section \<open>The packed in-degree word\<close>

text \<open>What one report of a predecessor does to the node it reports to.\<close>

datatype counter_event = StillBlocked | BecameReady | AllSkipped

text \<open>
  \<open>TaskNode::decrementActive()\<close>: \<open>fetch_add(0x0000FFFF)\<close>, then the test of the low half
  of the previous value.
\<close>

definition decrementActive :: "u32 \<Rightarrow> u32 \<times> bool" where
  "decrementActive inDegree =
     (let prev = inDegree;
          inDegree' = prev + 0x0000FFFF;
          prevLower = (ucast (prev AND 0xFFFF) :: u16)
      in (inDegree', prevLower = 1))"

text \<open>
  The counter part of \<open>TaskNode::decrementSkipped\<close>: \<open>fetch_sub(1)\<close>, and on the last report
  the test of the high half, which chooses between scheduling the node and cascading the skip.
\<close>

definition decrementSkipped_counter :: "u32 \<Rightarrow> u32 \<times> counter_event" where
  "decrementSkipped_counter inDegree =
     (let prev = inDegree;
          inDegree' = prev - 1;
          prevLower = (ucast (prev AND 0xFFFF) :: u16)
      in if prevLower = 1
         then (let newVal = prev - 1; upper = (ucast (drop_bit 16 newVal) :: u16)
               in (inDegree', if 0 < upper then BecameReady else AllSkipped))
         else (inDegree', StillBlocked))"

definition decrementActive_counter :: "u32 \<Rightarrow> u32 \<times> counter_event" where
  "decrementActive_counter inDegree =
     (case decrementActive inDegree of (w, ready) \<Rightarrow>
        (w, if ready then BecameReady else StillBlocked))"

text \<open>The two halves as numbers, and the range in which neither half overflows.\<close>

definition pending_reports :: "u32 \<Rightarrow> nat" where
  "pending_reports w = unat w mod 65536"

definition active_reports :: "u32 \<Rightarrow> nat" where
  "active_reports w = unat w div 65536"

definition counter_ok :: "u32 \<Rightarrow> bool" where
  "counter_ok w \<longleftrightarrow> active_reports w + pending_reports w < 65536"

text \<open>A predecessor reports that it executed, or that it was skipped.\<close>

datatype report = RanReport | SkipReport

fun report_step :: "u32 \<Rightarrow> report \<Rightarrow> u32 \<times> counter_event" where
  "report_step w RanReport = decrementActive_counter w"
| "report_step w SkipReport = decrementSkipped_counter w"

fun report_run :: "u32 \<Rightarrow> report list \<Rightarrow> u32 \<times> counter_event list" where
  "report_run w [] = (w, [])"
| "report_run w (r # rs) =
     (let (w', e) = report_step w r; (w'', es) = report_run w' rs in (w'', e # es))"

section \<open>The contract of a dependency counter\<close>

locale dependency_counter =
  fixes init :: "nat \<Rightarrow> 'c"
    and limit :: nat
    and step :: "'c \<Rightarrow> report \<Rightarrow> 'c \<times> counter_event"
    and ok :: "'c \<Rightarrow> bool"
    and pend :: "'c \<Rightarrow> nat"
    and act :: "'c \<Rightarrow> nat"
  assumes init_ok: "n \<le> limit \<Longrightarrow> ok (init n)"
    and init_pend: "n \<le> limit \<Longrightarrow> pend (init n) = n"
    and init_act: "n \<le> limit \<Longrightarrow> act (init n) = 0"
    and step_ok: "ok c \<Longrightarrow> 0 < pend c \<Longrightarrow> ok (fst (step c r))"
    and step_pend: "ok c \<Longrightarrow> 0 < pend c \<Longrightarrow> pend (fst (step c r)) = pend c - 1"
    and step_act: "ok c \<Longrightarrow> 0 < pend c \<Longrightarrow>
      act (fst (step c r)) = (if r = RanReport then Suc (act c) else act c)"
    and step_event: "ok c \<Longrightarrow> 0 < pend c \<Longrightarrow>
      snd (step c r) = (if 1 < pend c then StillBlocked
        else if r = RanReport \<or> 0 < act c then BecameReady else AllSkipped)"
begin

text \<open>
  A counter that expects \<open>k\<close> more reports stays blocked for all but the last of them; the
  last one makes the node ready when some predecessor executed, and skips it otherwise.
\<close>

fun run :: "'c \<Rightarrow> report list \<Rightarrow> 'c \<times> counter_event list" where
  "run c [] = (c, [])"
| "run c (r # rs) = (let (c', e) = step c r; (c'', es) = run c' rs in (c'', e # es))"

lemma run_events:
  assumes "ok c" and "pend c = length rs" and "rs \<noteq> []"
  shows "snd (run c rs) = replicate (length rs - 1) StillBlocked @
    [if RanReport \<in> set rs \<or> 0 < act c then BecameReady else AllSkipped]"
  using assms
proof (induction rs arbitrary: c)
  case Nil
  then show ?case by simp
next
  case (Cons r rs)
  obtain c' e where st: "step c r = (c', e)" by (cases "step c r")
  have ok': "ok c'" and p': "pend c' = length rs"
    using Cons.prems step_ok [of c r] step_pend [of c r] st by auto
  have a': "act c' = (if r = RanReport then Suc (act c) else act c)"
    using Cons.prems step_act [of c r] st by auto
  have e: "e = (if 1 < pend c then StillBlocked
      else if r = RanReport \<or> 0 < act c then BecameReady else AllSkipped)"
    using Cons.prems step_event [of c r] st by auto
  show ?case
  proof (cases "rs = []")
    case True
    then show ?thesis using st e Cons.prems by (cases r) auto
  next
    case False
    then have "snd (run c' rs) = replicate (length rs - 1) StillBlocked @
        [if RanReport \<in> set rs \<or> 0 < act c' then BecameReady else AllSkipped]"
      using Cons.IH [OF ok' p'] by simp
    moreover have "replicate (length rs) StillBlocked = StillBlocked # replicate (length rs - 1) StillBlocked"
      using False by (cases rs) auto
    ultimately show ?thesis
      using st e a' False Cons.prems by (cases r) (auto simp: Let_def split: prod.splits)
  qed
qed

lemma run_init_events:
  assumes "n \<le> limit" and "length rs = n" and "0 < n"
  shows "snd (run (init n) rs) = replicate (n - 1) StillBlocked @
    [if RanReport \<in> set rs then BecameReady else AllSkipped]"
  using assms run_events [of "init n" rs] init_ok [of n] init_pend [of n] init_act [of n]
  by (cases rs) auto

end

section \<open>The packed word implements the contract\<close>

lemma lower_half_is:
  "(ucast (w AND 0xFFFF) :: u16) = 1 \<longleftrightarrow> pending_reports w = 1"
proof -
  have "(0xFFFF :: u32) = mask 16" by (simp add: mask_eq_exp_minus_1)
  then have "unat (w AND 0xFFFF) = unat w mod 2 ^ 16"
    by (simp only: unat_and_mask)
  then have "unat (w AND 0xFFFF) = pending_reports w"
    by (simp add: pending_reports_def)
  then have "unat (ucast (w AND 0xFFFF) :: u16) = pending_reports w"
    by (simp add: unsigned_ucast_eq take_bit_eq_mod pending_reports_def)
  then show ?thesis by (metis unat_1 word_unat_eq_iff)
qed

lemma upper_half_is: "unat (ucast (drop_bit 16 w) :: u16) = active_reports w"
proof -
  have "unat w < 2 ^ 32" using unsigned_less [of w, where 'a = nat] by simp
  then have "unat w div 65536 < 65536" by simp
  then show ?thesis
    by (simp add: unsigned_ucast_eq unat_div_distrib drop_bit_eq_div take_bit_eq_mod
        active_reports_def)
qed

lemma counter_split: "unat w = active_reports w * 65536 + pending_reports w"
  by (simp add: active_reports_def pending_reports_def)

lemma counter_halves:
  assumes "unat w = a * 65536 + p" and "p < 65536"
  shows "active_reports w = a" and "pending_reports w = p"
  using assms by (simp_all add: active_reports_def pending_reports_def)

lemma ran_report_word:
  assumes "counter_ok w" and "0 < pending_reports w"
  shows "active_reports (w + 0xFFFF) = Suc (active_reports w)"
    and "pending_reports (w + 0xFFFF) = pending_reports w - 1"
proof -
  have "unat w + 65535 = Suc (active_reports w) * 65536 + (pending_reports w - 1)"
    using counter_split [of w] assms(2) by simp
  moreover have "Suc (active_reports w) * 65536 + (pending_reports w - 1) < 2 ^ 32"
    using assms by (simp add: counter_ok_def)
  ultimately have "unat (w + 0xFFFF) = Suc (active_reports w) * 65536 + (pending_reports w - 1)"
    using unat_add_lt [of w "0xFFFF"] by simp
  moreover have "pending_reports w - 1 < 65536" using assms(1) by (simp add: counter_ok_def)
  ultimately show "active_reports (w + 0xFFFF) = Suc (active_reports w)"
    and "pending_reports (w + 0xFFFF) = pending_reports w - 1"
    by (blast intro: counter_halves)+
qed

lemma skip_report_word:
  assumes "counter_ok w" and "0 < pending_reports w"
  shows "active_reports (w - 1) = active_reports w"
    and "pending_reports (w - 1) = pending_reports w - 1"
proof -
  have "w \<noteq> 0" using assms(2) by (auto simp: pending_reports_def)
  then have "unat (w - 1) = active_reports w * 65536 + (pending_reports w - 1)"
    using counter_split [of w] assms(2) unat_minus_one [of w] by auto
  moreover have "pending_reports w - 1 < 65536" using assms(1) by (simp add: counter_ok_def)
  ultimately show "active_reports (w - 1) = active_reports w"
    and "pending_reports (w - 1) = pending_reports w - 1"
    by (blast intro: counter_halves)+
qed

lemma decrementActive_ready_iff:
  "snd (decrementActive w) \<longleftrightarrow> pending_reports w = 1"
  using lower_half_is [of w] by (simp add: decrementActive_def Let_def)

lemma report_step_word:
  "fst (report_step w r) = (if r = RanReport then w + 0xFFFF else w - 1)"
  by (cases r) (auto simp: decrementActive_counter_def decrementActive_def
      decrementSkipped_counter_def Let_def)

lemma report_step_event:
  assumes "counter_ok w" and "0 < pending_reports w"
  shows "snd (report_step w r) = (if 1 < pending_reports w then StillBlocked
      else if r = RanReport \<or> 0 < active_reports w then BecameReady else AllSkipped)"
proof (cases r)
  case RanReport
  then show ?thesis
    using assms lower_half_is [of w]
    by (auto simp: decrementActive_counter_def decrementActive_def Let_def)
next
  case SkipReport
  have "0 < (ucast (drop_bit 16 (w - 1)) :: u16) \<longleftrightarrow> 0 < active_reports w"
    using upper_half_is [of "w - 1"] skip_report_word(1) [OF assms]
    by (metis unat_0 word_less_nat_alt)
  then show ?thesis
    using assms SkipReport lower_half_is [of w]
    by (auto simp: decrementSkipped_counter_def Let_def)
qed

lemma report_step_counts:
  assumes "counter_ok w" and "0 < pending_reports w"
  shows "pending_reports (fst (report_step w r)) = pending_reports w - 1"
    and "active_reports (fst (report_step w r)) =
      (if r = RanReport then Suc (active_reports w) else active_reports w)"
    and "counter_ok (fst (report_step w r))"
  using assms ran_report_word [OF assms] skip_report_word [OF assms]
  by (auto simp: report_step_word counter_ok_def)

lemma counter_init:
  assumes "n < 65536"
  shows "pending_reports (of_nat n) = n" and "active_reports (of_nat n) = 0"
    and "counter_ok (of_nat n)"
proof -
  have "unat (of_nat n :: u32) = 0 * 65536 + n"
    using assms by (simp add: unat_of_nat)
  then show "pending_reports (of_nat n) = n" and "active_reports (of_nat n) = 0"
    using assms counter_halves by blast+
  then show "counter_ok (of_nat n)" using assms by (simp add: counter_ok_def)
qed

interpretation packed: dependency_counter "\<lambda>n. of_nat n :: u32" 65535 report_step counter_ok
  pending_reports active_reports
  by unfold_locales
    (simp_all add: counter_init report_step_counts report_step_event)

lemma packed_run_is: "packed.run w rs = report_run w rs"
  by (induction rs arbitrary: w) auto

section \<open>Properties\<close>

text \<open>
  C1: A node that waits for \<open>n\<close> predecessors, \<open>1 \<le> n \<le> 65535\<close>, stays blocked through the first
  \<open>n - 1\<close> reports, whatever mix of executed and skipped they are. The last report makes it
  ready when at least one predecessor executed and skips it when all were skipped: exactly one
  decision, never two and never none.
\<close>

theorem join_barrier:
  assumes "0 < n" and "n \<le> 65535" and "length rs = n"
  shows "snd (report_run (of_nat n) rs) = replicate (n - 1) StillBlocked @
    [if RanReport \<in> set rs then BecameReady else AllSkipped]"
  using packed.run_init_events [of n rs] assms by (simp add: packed_run_is)

theorem join_barrier_witness:
  "snd (report_run (of_nat 3) [SkipReport, RanReport, SkipReport]) = [StillBlocked, StillBlocked, BecameReady]"
  using join_barrier [of 3 "[SkipReport, RanReport, SkipReport]"] by (simp add: numeral_2_eq_2)

text \<open>
  The bound of the barrier is real. A node that waits for \<open>65536 + m\<close> predecessors, with
  \<open>0 < m < 65535\<close>, is released by the report of the \<open>m\<close>-th of them, 65536 predecessors too
  early, and it is released even when all \<open>m\<close> were skipped: the count runs into the half of the
  word that counts the executed predecessors.
\<close>

theorem join_barrier_overflow:
  assumes "0 < m" and "m < 65535" and "length rs = m"
  shows "snd (report_run (of_nat (65536 + m)) rs) = replicate (m - 1) StillBlocked @ [BecameReady]"
proof -
  have "unat (of_nat (65536 + m) :: u32) = 1 * 65536 + m" using assms(2)
    by (simp add: unat_of_nat del: of_nat_add)
  then have h: "active_reports (of_nat (65536 + m)) = 1" "pending_reports (of_nat (65536 + m)) = m"
    using assms(2) counter_halves by auto
  then have "counter_ok (of_nat (65536 + m))" using assms(2) by (simp add: counter_ok_def)
  then show ?thesis using packed.run_events [of "of_nat (65536 + m)" rs] h assms by (auto simp: packed_run_is)
qed

theorem join_barrier_overflow_witness:
  "snd (report_run (of_nat (65536 + 1)) [SkipReport]) = [BecameReady]"
  using join_barrier_overflow [of 1 "[SkipReport]"] by (simp del: report_run.simps)

end
