(* ===== verification/Chase_Lev.thy ===== *)
theory Chase_Lev
  imports LF_Base
begin

text \<open>
  The work-stealing deque of \<^verbatim>\<open>chase_lev_deque.hpp\<close> and \<^verbatim>\<open>chase_lev_deque.cpp\<close>:
  the ring buffer with its masked 32-bit indices, growth, the owner's \<open>pushBottom\<close> and
  \<open>popBottom\<close>, the thieves' \<open>stealTop\<close> and the two \<open>stealBatch\<close> overloads. Each operation
  is one function on the deque's fields; a compare-exchange of such a function sees the
  value the function itself loaded, so it succeeds. The interleavings of the operations'
  atomic accesses are the subject of the theories \<open>Concurrent_Deque\<close> and \<open>Deque_Runs\<close>.
\<close>

section \<open>The ring buffer\<close>

record ring_buffer =
  m_capacity :: usize
  m_mask :: usize
  m_tasks :: "node_ptr list"

definition RingBuffer_new :: "usize \<Rightarrow> ring_buffer" where
  "RingBuffer_new capacity =
     \<lparr>m_capacity = capacity, m_mask = capacity - 1, m_tasks = replicate (unat capacity) None\<rparr>"

definition rb_store :: "u32 \<Rightarrow> node_ptr \<Rightarrow> ring_buffer \<Rightarrow> ring_buffer" where
  "rb_store index task buf =
     buf\<lparr>m_tasks := (m_tasks buf)[unat (ucast index AND m_mask buf) := task]\<rparr>"

definition rb_load :: "u32 \<Rightarrow> ring_buffer \<Rightarrow> node_ptr" where
  "rb_load index buf = m_tasks buf ! unat (ucast index AND m_mask buf)"

text \<open>The copy loop \<open>for (u32 i = top; i != bottom; ++i)\<close> of \<open>RingBuffer::grow\<close>.\<close>

function rb_copy :: "ring_buffer \<Rightarrow> u32 \<Rightarrow> u32 \<Rightarrow> ring_buffer \<Rightarrow> ring_buffer" where
  "rb_copy src i bottom dst =
     (if i = bottom then dst
      else rb_copy src (i + 1) bottom (rb_store i (rb_load i src) dst))"
  by pat_completeness auto
termination
proof (relation "measure (\<lambda>(src, i, bottom, dst). unat (bottom - i))")
  show "wf (measure (\<lambda>(src, i :: u32, bottom, dst). unat (bottom - i)))" by simp
next
  fix src dst :: ring_buffer and i bottom :: u32
  assume "i \<noteq> bottom"
  then have nz: "bottom - i \<noteq> 0" by simp
  have "bottom - (i + 1) = (bottom - i) - 1" by (simp add: algebra_simps)
  then have "unat (bottom - (i + 1)) < unat (bottom - i)"
    using measure_unat [OF nz] by (simp only:)
  then show "((src, i + 1, bottom, rb_store i (rb_load i src) dst), src, i, bottom, dst)
      \<in> measure (\<lambda>(src, i, bottom, dst). unat (bottom - i))" by simp
qed

declare rb_copy.simps [simp del]

definition rb_grow :: "u32 \<Rightarrow> u32 \<Rightarrow> ring_buffer \<Rightarrow> ring_buffer" where
  "rb_grow t b buf =
     (let newBuf = RingBuffer_new (m_capacity buf * 2)
      in if t < b then rb_copy buf t b newBuf else newBuf)"

section \<open>The deque\<close>

text \<open>
  \<open>m_garbage\<close> is the intrusive list of retired buffers from \<open>m_garbageHead\<close>, newest first.
\<close>

record chase_lev =
  m_top :: u32
  m_bottom :: u32
  m_buffer :: ring_buffer
  m_garbage :: "ring_buffer list"

definition ChaseLevDeque_new :: "usize \<Rightarrow> chase_lev" where
  "ChaseLevDeque_new initialCapacity =
     (let cap = of_nat (bit_ceil (max (unat initialCapacity) 16))
      in \<lparr>m_top = 0, m_bottom = 0, m_buffer = RingBuffer_new cap, m_garbage = []\<rparr>)"

definition grow :: "u32 \<Rightarrow> u32 \<Rightarrow> chase_lev \<Rightarrow> chase_lev" where
  "grow b t d =
     (if b \<le> t then d
      else d\<lparr>m_buffer := rb_grow t b (m_buffer d),
             m_garbage := m_buffer d # m_garbage d\<rparr>)"

definition pushBottom :: "node_ptr \<Rightarrow> chase_lev \<Rightarrow> chase_lev" where
  "pushBottom task d =
     (let b = m_bottom d;
          t = m_top d;
          (b, d) = (if b < t then (t, d\<lparr>m_bottom := t\<rparr>) else (b, d));
          d = (if ucast (m_capacity (m_buffer d)) \<le> b - t then grow b t d else d);
          d = d\<lparr>m_buffer := rb_store b task (m_buffer d)\<rparr>
      in d\<lparr>m_bottom := b + 1\<rparr>)"

definition popBottom :: "chase_lev \<Rightarrow> node_ptr \<times> chase_lev" where
  "popBottom d =
     (let b = m_bottom d; buf = m_buffer d; t = m_top d
      in if b \<le> t then (None, d)
         else
           let b = b - 1;
               d = d\<lparr>m_bottom := b\<rparr>;
               t = m_top d
           in if t \<le> b then
                let task = rb_load b buf
                in if t = b
                   then (task, d\<lparr>m_top := t + 1, m_bottom := b + 1\<rparr>)
                   else (task, d)
              else (None, d\<lparr>m_bottom := b + 1\<rparr>))"

definition stealTop :: "chase_lev \<Rightarrow> node_ptr \<times> chase_lev" where
  "stealTop d =
     (let t = m_top d; b = m_bottom d
      in if b \<le> t then (None, d)
         else (rb_load t (m_buffer d), d\<lparr>m_top := t + 1\<rparr>))"

text \<open>
  \<open>stealBatch(std::span)\<close>: \<open>n\<close> is the size of the destination span; the result is the
  prefix of the span that was written.
\<close>

definition stealBatch_span :: "usize \<Rightarrow> chase_lev \<Rightarrow> node_ptr list \<times> chase_lev" where
  "stealBatch_span n d =
     (if n = 0 then ([], d)
      else
        let t = m_top d; b = m_bottom d
        in if b \<le> t then ([], d)
           else
             let available = b - t;
                 stealCount = (available + 1) div 2;
                 stealCount = (if ucast n < stealCount then ucast n else stealCount)
             in if stealCount = 0 then ([], d)
                else
                  let buf = m_buffer d;
                      d = d\<lparr>m_top := t + stealCount\<rparr>;
                      b = m_bottom d;
                      (stealCount, d) =
                        (if b < t + stealCount
                         then (let actualSteal = (if t < b then b - t else 0)
                               in (actualSteal, d\<lparr>m_top := t + actualSteal\<rparr>))
                         else (stealCount, d))
                  in (map (\<lambda>i. rb_load (t + of_nat i) buf) [0..<unat stealCount], d))"

text \<open>\<open>stealBatch(ChaseLevDeque&)\<close>: at most 128 tasks, pushed into the thief's deque.\<close>

definition stealBatch_into :: "chase_lev \<Rightarrow> chase_lev \<Rightarrow> usize \<times> chase_lev \<times> chase_lev" where
  "stealBatch_into d destination =
     (let (batch, d) = stealBatch_span 128 d
      in (of_nat (length batch), d, fold pushBottom batch destination))"

definition deque_size :: "chase_lev \<Rightarrow> usize" where
  "deque_size d =
     (let t = m_top d; b = m_bottom d in if t < b then ucast (b - t) else 0)"

definition deque_empty :: "chase_lev \<Rightarrow> bool" where
  "deque_empty d \<longleftrightarrow> m_bottom d \<le> m_top d"

definition deque_capacity :: "chase_lev \<Rightarrow> usize" where
  "deque_capacity d = m_capacity (m_buffer d)"

section \<open>Abstraction and invariant\<close>

text \<open>The deque as the list of its tasks, oldest (top) first.\<close>

definition deque_list :: "chase_lev \<Rightarrow> node_ptr list" where
  "deque_list d =
     map (\<lambda>i. rb_load (m_top d + of_nat i) (m_buffer d)) [0..<unat (m_bottom d) - unat (m_top d)]"

text \<open>A buffer whose capacity is a power of two that fits a 32-bit index difference.\<close>

definition rb_ok :: "ring_buffer \<Rightarrow> bool" where
  "rb_ok buf \<longleftrightarrow> (\<exists>k \<le> 31. m_capacity buf = 2 ^ k) \<and> m_mask buf = m_capacity buf - 1
     \<and> length (m_tasks buf) = unat (m_capacity buf)"

definition deque_ok :: "chase_lev \<Rightarrow> bool" where
  "deque_ok d \<longleftrightarrow> rb_ok (m_buffer d) \<and> m_top d \<le> m_bottom d
     \<and> unat (m_bottom d) - unat (m_top d) \<le> unat (m_capacity (m_buffer d))"

text \<open>
  Room for one more push: the index does not wrap, and a full buffer can still double.
\<close>

definition push_room :: "chase_lev \<Rightarrow> bool" where
  "push_room d \<longleftrightarrow> unat (m_bottom d) + 1 < 2 ^ 32
     \<and> (unat (m_bottom d) - unat (m_top d) < unat (m_capacity (m_buffer d))
        \<or> unat (m_capacity (m_buffer d)) < 2 ^ 31)"


section \<open>Slots as natural-number positions\<close>

definition rb_at :: "ring_buffer \<Rightarrow> nat \<Rightarrow> node_ptr" where
  "rb_at buf n = m_tasks buf ! (n mod unat (m_capacity buf))"

lemma rb_okE:
  assumes "rb_ok buf"
  obtains k where "k \<le> 31" and "m_capacity buf = 2 ^ k" and "unat (m_capacity buf) = 2 ^ k"
    and "m_mask buf = mask k" and "length (m_tasks buf) = 2 ^ k"
proof -
  from assms obtain k where k: "k \<le> 31" "m_capacity buf = 2 ^ k"
    by (auto simp: rb_ok_def)
  then have "unat (m_capacity buf) = 2 ^ k" by (simp add: unat_pow2)
  with assms k show ?thesis by (intro that) (auto simp: rb_ok_def mask_eq_exp_minus_1)
qed

lemma rb_cap_pos: "rb_ok buf \<Longrightarrow> 0 < unat (m_capacity buf)"
  by (erule rb_okE) simp

lemma rb_slot_nat:
  assumes "rb_ok buf"
  shows "unat (ucast (i :: u32) AND m_mask buf) = unat i mod unat (m_capacity buf)"
  using assms
proof (rule rb_okE)
  fix k assume "m_mask buf = mask k" and "unat (m_capacity buf) = 2 ^ k"
  moreover have "unat (ucast i :: u64) = unat i"
    by (simp add: unsigned_ucast_eq take_bit_nat_eq_self_iff order.strict_trans [OF unsigned_less])
  ultimately show ?thesis by (simp add: unat_and_mask)
qed

lemma rb_load_at: "rb_ok buf \<Longrightarrow> rb_load i buf = rb_at buf (unat i)"
  by (simp add: rb_load_def rb_at_def rb_slot_nat)

lemma rb_store_ok [simp]: "rb_ok (rb_store i x buf) = rb_ok buf"
  by (simp add: rb_store_def rb_ok_def)

lemma rb_store_capacity [simp]: "m_capacity (rb_store i x buf) = m_capacity buf"
  by (simp add: rb_store_def)

lemma rb_store_at:
  assumes "rb_ok buf"
  shows "rb_at (rb_store i x buf) n =
    (if n mod unat (m_capacity buf) = unat i mod unat (m_capacity buf) then x else rb_at buf n)"
proof -
  have "length (m_tasks buf) = unat (m_capacity buf)" using assms by (simp add: rb_ok_def)
  then show ?thesis
    using rb_cap_pos [OF assms] rb_slot_nat [OF assms, of i]
    by (simp add: rb_at_def rb_store_def nth_list_update)
qed

lemma RingBuffer_new_ok:
  assumes "k \<le> 31"
  shows "rb_ok (RingBuffer_new (2 ^ k))"
  using assms by (auto simp: rb_ok_def RingBuffer_new_def)

lemma rb_copy_done [simp]: "rb_copy src i i dst = dst"
  by (simp add: rb_copy.simps [of src i i dst])

lemma rb_copy_ok:
  "rb_ok (rb_copy src i b dst) = rb_ok dst \<and> m_capacity (rb_copy src i b dst) = m_capacity dst"
proof (induction src i b dst rule: rb_copy.induct)
  case (1 src i b dst)
  then show ?case by (cases "i = b") (auto simp: rb_copy.simps [of src i b dst])
qed

lemma rb_copy_at:
  assumes "rb_ok src" and "rb_ok dst" and "i \<le> b"
    and "unat b - unat i \<le> unat (m_capacity dst)"
  shows "(\<forall>n. unat i \<le> n \<and> n < unat b \<longrightarrow> rb_at (rb_copy src i b dst) n = rb_at src n)
    \<and> (\<forall>n. (\<forall>m. unat i \<le> m \<and> m < unat b \<longrightarrow>
          m mod unat (m_capacity dst) \<noteq> n mod unat (m_capacity dst)) \<longrightarrow>
        rb_at (rb_copy src i b dst) n = rb_at dst n)"
  using assms
proof (induction src i b dst rule: rb_copy.induct)
  case (1 src i b dst)
  show ?case
  proof (cases "i = b")
    case True
    then show ?thesis by auto
  next
    case False
    let ?dst = "rb_store i (rb_load i src) dst" and ?c = "unat (m_capacity dst)"
    from False "1.prems"(3) have lt: "unat i < unat b"
      by (simp add: word_le_nat_alt le_neq_implies_less word_unat_eq_iff)
    then have i1: "unat (i + 1) = unat i + 1"
      using unsigned_less [of b, where 'a = nat] by (intro unat_Suc_lt) simp
    with lt have le: "i + 1 \<le> b" by (simp add: word_le_nat_alt)
    have len: "unat b - unat (i + 1) \<le> unat (m_capacity ?dst)"
      using "1.prems"(4) i1 by simp
    note IH = "1.IH" [OF False "1.prems"(1) _ le len]
    have in_copy: "rb_at (rb_copy src (i + 1) b ?dst) n = rb_at src n"
      if "unat i + 1 \<le> n" "n < unat b" for n
      using IH "1.prems"(2) that i1 by simp
    have out_copy: "rb_at (rb_copy src (i + 1) b ?dst) n = rb_at ?dst n"
      if "\<forall>m. unat i + 1 \<le> m \<and> m < unat b \<longrightarrow> m mod ?c \<noteq> n mod ?c" for n
      using IH "1.prems"(2) that i1 by simp
    have first: "rb_at (rb_copy src (i + 1) b ?dst) (unat i) = rb_at src (unat i)"
    proof -
      have "m mod ?c \<noteq> unat i mod ?c" if "unat i + 1 \<le> m" "m < unat b" for m
      proof -
        have "m < unat i + ?c" using that "1.prems"(4) by linarith
        then show ?thesis using window_slots_distinct [of m ?c "unat i" "unat i"] that by auto
      qed
      then have "rb_at (rb_copy src (i + 1) b ?dst) (unat i) = rb_at ?dst (unat i)"
        using out_copy by blast
      then show ?thesis using "1.prems" by (simp add: rb_store_at rb_load_at)
    qed
    have eq: "rb_copy src i b dst = rb_copy src (i + 1) b ?dst"
      using False by (simp add: rb_copy.simps [of src i b dst])
    show ?thesis
    proof (intro conjI allI impI)
      fix n assume "unat i \<le> n \<and> n < unat b"
      then show "rb_at (rb_copy src i b dst) n = rb_at src n"
        using in_copy first eq by (cases "n = unat i") auto
    next
      fix n assume *: "\<forall>m. unat i \<le> m \<and> m < unat b \<longrightarrow> m mod ?c \<noteq> n mod ?c"
      then have "rb_at ?dst n = rb_at dst n"
        using lt "1.prems"(2) by (auto simp: rb_store_at dest: sym)
      then show "rb_at (rb_copy src i b dst) n = rb_at dst n"
        using out_copy * eq by simp
    qed
  qed
qed

lemma rb_grow_at:
  assumes "rb_ok buf" and "unat (m_capacity buf) < 2 ^ 31" and "t \<le> b"
    and "unat b - unat t \<le> unat (m_capacity buf)"
  shows "rb_ok (rb_grow t b buf)"
    and "unat (m_capacity (rb_grow t b buf)) = 2 * unat (m_capacity buf)"
    and "unat t \<le> n \<Longrightarrow> n < unat b \<Longrightarrow> rb_at (rb_grow t b buf) n = rb_at buf n"
proof -
  obtain k where k: "k \<le> 31" "m_capacity buf = 2 ^ k" "unat (m_capacity buf) = 2 ^ k"
    using assms(1) by (rule rb_okE)
  have k30: "Suc k \<le> 31"
    using assms(2) k(3) power_strict_increasing_iff [of "2::nat" k 31] by simp
  have cap: "m_capacity buf * 2 = 2 ^ Suc k" using k(2) by simp
  have new: "rb_ok (RingBuffer_new (m_capacity buf * 2))"
    unfolding cap by (rule RingBuffer_new_ok [OF k30])
  have newcap: "unat (m_capacity (RingBuffer_new (m_capacity buf * 2))) = 2 * unat (m_capacity buf)"
    using k30 k(3) cap unat_pow2 [of "Suc k", where 'a = 64] by (simp add: RingBuffer_new_def)
  show "rb_ok (rb_grow t b buf)"
    using new rb_copy_ok by (auto simp: rb_grow_def Let_def)
  show "unat (m_capacity (rb_grow t b buf)) = 2 * unat (m_capacity buf)"
    using newcap rb_copy_ok by (auto simp: rb_grow_def Let_def)
  assume n: "unat t \<le> n" "n < unat b"
  then have "t < b" by (simp add: word_less_nat_alt)
  then show "rb_at (rb_grow t b buf) n = rb_at buf n"
    using rb_copy_at [OF assms(1) new assms(3)] newcap assms(4) n
    by (simp add: rb_grow_def Let_def)
qed


section \<open>The operations on the list of tasks\<close>

lemma deque_list_at:
  assumes "deque_ok d"
  shows "deque_list d = map (rb_at (m_buffer d)) [unat (m_top d)..<unat (m_bottom d)]"
proof -
  let ?n = "unat (m_bottom d) - unat (m_top d)"
  have le: "unat (m_top d) \<le> unat (m_bottom d)" using assms by (simp add: deque_ok_def word_le_nat_alt)
  have "rb_load (m_top d + of_nat i) (m_buffer d) = rb_at (m_buffer d) (unat (m_top d) + i)"
    if "i < ?n" for i
  proof -
    have "unat (m_top d) + i < 2 ^ 32"
      using that unsigned_less [of "m_bottom d", where 'a = nat] by simp
    then have "unat (m_top d + of_nat i) = unat (m_top d) + i"
      by (simp add: unat_word_ariths unat_of_nat)
    then show ?thesis using assms by (simp add: rb_load_at deque_ok_def)
  qed
  then have "deque_list d = map (\<lambda>i. rb_at (m_buffer d) (unat (m_top d) + i)) [0..<?n]"
    by (simp add: deque_list_def)
  also have "\<dots> = map (rb_at (m_buffer d)) [unat (m_top d)..<unat (m_top d) + ?n]"
    by (rule map_upt_shift [symmetric])
  finally show ?thesis using le by simp
qed

lemma deque_list_length:
  "deque_ok d \<Longrightarrow> length (deque_list d) = unat (m_bottom d) - unat (m_top d)"
  by (simp add: deque_list_at)

lemma deque_list_Nil_iff: "deque_ok d \<Longrightarrow> deque_list d = [] \<longleftrightarrow> m_bottom d \<le> m_top d"
  by (auto simp: deque_list_at word_le_nat_alt)

lemma deque_listI:
  assumes "deque_ok d" and "m_top d' \<le> m_bottom d'" and "m_buffer d' = m_buffer d"
    and "unat (m_top d) \<le> unat (m_top d')" and "unat (m_bottom d') \<le> unat (m_bottom d)"
  shows "deque_ok d'"
    and "deque_list d' = map (rb_at (m_buffer d)) [unat (m_top d')..<unat (m_bottom d')]"
proof -
  show ok': "deque_ok d'" using assms by (auto simp: deque_ok_def)
  show "deque_list d' = map (rb_at (m_buffer d)) [unat (m_top d')..<unat (m_bottom d')]"
    using deque_list_at [OF ok'] assms(3) by simp
qed

lemma capacity_u32:
  assumes "rb_ok buf"
  shows "unat (ucast (m_capacity buf) :: u32) = unat (m_capacity buf)"
  using assms
proof (rule rb_okE)
  fix k :: nat assume "k \<le> 31" and c: "unat (m_capacity buf) = 2 ^ k"
  then have "(2::nat) ^ k < 2 ^ 32" by (intro power_strict_increasing) auto
  then show ?thesis using c by (simp add: unsigned_ucast_eq take_bit_eq_mod)
qed

text \<open>The buffer \<open>pushBottom\<close> stores into: the current one, or its doubled copy when full.\<close>

lemma pushBottom_parts:
  assumes ok: "deque_ok d" and room: "push_room d"
  obtains buf where "rb_ok buf"
    and "pushBottom x d = d\<lparr>m_buffer := rb_store (m_bottom d) x buf,
      m_garbage := m_garbage (pushBottom x d), m_bottom := m_bottom d + 1\<rparr>"
    and "unat (m_bottom d) - unat (m_top d) < unat (m_capacity buf)"
    and "\<And>n. unat (m_top d) \<le> n \<Longrightarrow> n < unat (m_bottom d) \<Longrightarrow> rb_at buf n = rb_at (m_buffer d) n"
proof -
  let ?b = "m_bottom d" and ?t = "m_top d" and ?buf = "m_buffer d"
  have le: "?t \<le> ?b" and rb: "rb_ok ?buf"
    and len: "unat ?b - unat ?t \<le> unat (m_capacity ?buf)"
    using ok by (auto simp: deque_ok_def)
  have nlt: "\<not> ?b < ?t" using le by simp
  have full: "(ucast (m_capacity ?buf) \<le> ?b - ?t) = (unat (m_capacity ?buf) \<le> unat ?b - unat ?t)"
    using capacity_u32 [OF rb] le by (simp add: word_le_nat_alt unat_sub)
  show ?thesis
  proof (cases "unat (m_capacity ?buf) \<le> unat ?b - unat ?t")
    case False
    then show ?thesis
      using that [of ?buf] rb nlt full by (simp add: pushBottom_def Let_def)
  next
    case True
    with rb_cap_pos [OF rb] have gt: "\<not> ?b \<le> ?t" by (simp add: word_le_nat_alt)
    have cap: "unat (m_capacity ?buf) < 2 ^ 31" using True room by (simp add: push_room_def)
    note g = rb_grow_at [OF rb cap le len]
    show ?thesis
    proof (rule that [of "rb_grow ?t ?b ?buf"])
      show "rb_ok (rb_grow ?t ?b ?buf)" by (rule g(1))
      show "pushBottom x d = d\<lparr>m_buffer := rb_store ?b x (rb_grow ?t ?b ?buf),
          m_garbage := m_garbage (pushBottom x d), m_bottom := ?b + 1\<rparr>"
        using True full nlt gt by (simp add: pushBottom_def grow_def Let_def)
      show "unat ?b - unat ?t < unat (m_capacity (rb_grow ?t ?b ?buf))"
        using g(2) len rb_cap_pos [OF rb] by simp
    qed (rule g(3))
  qed
qed

lemma pushBottom_list:
  assumes ok: "deque_ok d" and room: "push_room d"
  shows "deque_ok (pushBottom x d) \<and> deque_list (pushBottom x d) = deque_list d @ [x]
    \<and> m_top (pushBottom x d) = m_top d \<and> unat (m_bottom (pushBottom x d)) = unat (m_bottom d) + 1"
proof -
  obtain buf where rb: "rb_ok buf" and eq: "pushBottom x d = d\<lparr>m_buffer := rb_store (m_bottom d) x buf,
      m_garbage := m_garbage (pushBottom x d), m_bottom := m_bottom d + 1\<rparr>"
    and len: "unat (m_bottom d) - unat (m_top d) < unat (m_capacity buf)"
    and same: "\<And>n. unat (m_top d) \<le> n \<Longrightarrow> n < unat (m_bottom d) \<Longrightarrow> rb_at buf n = rb_at (m_buffer d) n"
    using pushBottom_parts [OF ok room] by metis
  let ?d = "pushBottom x d" and ?t = "unat (m_top d)" and ?b = "unat (m_bottom d)"
  have sel: "m_buffer ?d = rb_store (m_bottom d) x buf" "m_top ?d = m_top d"
    "m_bottom ?d = m_bottom d + 1"
    by (subst eq, simp)+
  have tb: "?t \<le> ?b" using ok by (simp add: deque_ok_def word_le_nat_alt)
  have b1: "unat (m_bottom ?d) = ?b + 1"
    using room sel by (simp add: push_room_def unat_Suc_lt)
  have ok': "deque_ok ?d"
    using rb sel b1 len tb by (simp add: deque_ok_def word_le_nat_alt)
  have win: "?b < ?t + unat (m_capacity buf)" using len tb by linarith
  have old: "rb_at (m_buffer ?d) n = rb_at (m_buffer d) n" if "?t \<le> n" "n < ?b" for n
    using window_slots_distinct [of n "unat (m_capacity buf)" ?b ?t] that win tb sel rb same
    by (auto simp: rb_store_at)
  have new: "rb_at (m_buffer ?d) ?b = x" using sel rb by (simp add: rb_store_at)
  have "deque_list ?d = map (rb_at (m_buffer ?d)) ([?t..<?b] @ [?b])"
    using deque_list_at [OF ok'] sel(2) b1 tb by simp
  also have "\<dots> = deque_list d @ [x]"
    using old new deque_list_at [OF ok] by simp
  finally show ?thesis using ok' sel b1 by simp
qed

lemma popBottom_list:
  assumes ok: "deque_ok d"
  shows "deque_ok (snd (popBottom d))"
    and "deque_list d = [] \<Longrightarrow> popBottom d = (None, d)"
    and "deque_list d \<noteq> [] \<Longrightarrow>
      fst (popBottom d) = last (deque_list d) \<and> deque_list (snd (popBottom d)) = butlast (deque_list d)"
proof -
  let ?b = "m_bottom d" and ?t = "m_top d"
  show empty: "popBottom d = (None, d)" if "deque_list d = []"
    using that deque_list_Nil_iff [OF ok] by (simp add: popBottom_def Let_def)
  have *: "deque_ok (snd (popBottom d)) \<and> fst (popBottom d) = last (deque_list d)
      \<and> deque_list (snd (popBottom d)) = butlast (deque_list d)" if ne: "deque_list d \<noteq> []"
  proof -
    have lt: "?t < ?b" using ne deque_list_Nil_iff [OF ok] by (simp add: not_le)
    have b1: "unat (?b - 1) = unat ?b - 1" by (rule unat_pred_gt [OF lt])
    have lt': "unat ?t < unat ?b" and nle: "\<not> ?b \<le> ?t" using lt by (auto simp: word_nat_order)
    have le: "?t \<le> ?b - 1" using lt' b1 by (simp add: word_le_nat_alt)
    have upt: "[unat ?t..<unat ?b] = [unat ?t..<unat ?b - 1] @ [unat ?b - 1]"
      using lt' by (metis Suc_diff_1 gr_implies_not0 not_gr_zero upt_Suc_append less_Suc_eq_le)
    have task: "rb_load (?b - 1) (m_buffer d) = rb_at (m_buffer d) (unat ?b - 1)"
      using ok b1 by (simp add: deque_ok_def rb_load_at)
    show ?thesis
    proof (cases "?t = ?b - 1")
      case True
      have pop: "popBottom d = (rb_load (?b - 1) (m_buffer d), d\<lparr>m_top := ?b, m_bottom := ?b\<rparr>)"
        using nle True by (simp add: popBottom_def Let_def)
      have "unat ?t = unat ?b - 1" using True b1 by simp
      then show ?thesis
        using deque_listI [OF ok, of "d\<lparr>m_top := ?b, m_bottom := ?b\<rparr>"] deque_list_at [OF ok] upt lt' task
        by (simp add: pop)
    next
      case False
      have pop: "popBottom d = (rb_load (?b - 1) (m_buffer d), d\<lparr>m_bottom := ?b - 1\<rparr>)"
        using nle le False by (simp add: popBottom_def Let_def)
      show ?thesis
        using deque_listI [OF ok, of "d\<lparr>m_bottom := ?b - 1\<rparr>"] deque_list_at [OF ok] upt le b1 task
        by (simp add: pop)
    qed
  qed
  show "deque_ok (snd (popBottom d))" using * empty ok by (cases "deque_list d = []") auto
  show "fst (popBottom d) = last (deque_list d) \<and> deque_list (snd (popBottom d)) = butlast (deque_list d)"
    if "deque_list d \<noteq> []" using * that by blast
qed

lemma stealTop_list:
  assumes ok: "deque_ok d"
  shows "deque_ok (snd (stealTop d))"
    and "deque_list d = [] \<Longrightarrow> stealTop d = (None, d)"
    and "deque_list d \<noteq> [] \<Longrightarrow>
      fst (stealTop d) = hd (deque_list d) \<and> deque_list (snd (stealTop d)) = tl (deque_list d)"
proof -
  let ?b = "m_bottom d" and ?t = "m_top d"
  show empty: "stealTop d = (None, d)" if "deque_list d = []"
    using that deque_list_Nil_iff [OF ok] by (simp add: stealTop_def Let_def)
  have *: "deque_ok (snd (stealTop d)) \<and> fst (stealTop d) = hd (deque_list d)
      \<and> deque_list (snd (stealTop d)) = tl (deque_list d)" if ne: "deque_list d \<noteq> []"
  proof -
    have lt: "?t < ?b" using ne deque_list_Nil_iff [OF ok] by (simp add: not_le)
    then have lt': "unat ?t < unat ?b" and nle: "\<not> ?b \<le> ?t" by (auto simp: word_nat_order)
    have t1: "unat (?t + 1) = unat ?t + 1"
      using lt' unsigned_less [of ?b, where 'a = nat] by (intro unat_Suc_lt) simp
    have st: "stealTop d = (rb_load ?t (m_buffer d), d\<lparr>m_top := ?t + 1\<rparr>)"
      using nle by (simp add: stealTop_def Let_def)
    have "rb_load ?t (m_buffer d) = rb_at (m_buffer d) (unat ?t)"
      using ok by (simp add: deque_ok_def rb_load_at)
    then show ?thesis
      using deque_listI [OF ok, of "d\<lparr>m_top := ?t + 1\<rparr>"] deque_list_at [OF ok] lt' t1
      by (simp add: st word_le_nat_alt upt_conv_Cons)
  qed
  show "deque_ok (snd (stealTop d))" using * empty ok by (cases "deque_list d = []") auto
  show "fst (stealTop d) = hd (deque_list d) \<and> deque_list (snd (stealTop d)) = tl (deque_list d)"
    if "deque_list d \<noteq> []" using * that by blast
qed


text \<open>Batch stealing takes the older half, rounded up, at most the size of the span.\<close>

definition batch_count :: "nat \<Rightarrow> nat \<Rightarrow> nat" where
  "batch_count n k = min n ((k + 1) div 2)"

lemma stealBatch_span_list:
  assumes ok: "deque_ok d" and n: "unat n < 2 ^ 32"
  shows "deque_ok (snd (stealBatch_span n d))
    \<and> fst (stealBatch_span n d) = take (batch_count (unat n) (length (deque_list d))) (deque_list d)
    \<and> deque_list (snd (stealBatch_span n d)) = drop (batch_count (unat n) (length (deque_list d))) (deque_list d)"
proof (cases "n = 0 \<or> deque_list d = []")
  case True
  then show ?thesis
    using ok deque_list_Nil_iff [OF ok]
    by (auto simp: stealBatch_span_def batch_count_def Let_def)
next
  case False
  let ?b = "m_bottom d" and ?t = "m_top d" and ?k = "length (deque_list d)"
  have rb: "rb_ok (m_buffer d)" using ok by (simp add: deque_ok_def)
  have nle: "\<not> ?b \<le> ?t" using False deque_list_Nil_iff [OF ok] by simp
  then have tb: "?t \<le> ?b" "unat ?t < unat ?b" by (auto simp: word_nat_order)
  have avail: "unat (?b - ?t) = ?k"
    using tb(1) deque_list_length [OF ok] by (simp add: unat_diff_le)
  obtain e where "e \<le> 31" and cap: "unat (m_capacity (m_buffer d)) = 2 ^ e"
    using rb by (rule rb_okE)
  then have "?k \<le> 2 ^ 31"
    using ok deque_list_length [OF ok] power_increasing [of e 31 "2::nat"]
    by (auto simp: deque_ok_def intro: le_trans)
  then have half: "unat ((?b - ?t + 1) div 2) = (?k + 1) div 2"
    using avail by (simp add: unat_div_distrib unat_Suc_lt)
  have n32: "unat (ucast n :: u32) = unat n"
    using n by (simp add: unsigned_ucast_eq take_bit_eq_mod)
  define c where "c = (if (ucast n :: u32) < (?b - ?t + 1) div 2 then ucast n else (?b - ?t + 1) div 2)"
  have c: "unat c = batch_count (unat n) ?k"
    using half n32 by (auto simp: c_def batch_count_def word_less_nat_alt)
  have "unat n \<noteq> 0" using False by (simp add: unat_eq_zero)
  moreover have "0 < ?k" using False by simp
  ultimately have cpos: "0 < unat c" and ck: "unat c \<le> ?k"
    using c by (auto simp: batch_count_def)
  have tc: "unat (?t + c) = unat ?t + unat c"
    using ck deque_list_length [OF ok] tb unsigned_less [of ?b, where 'a = nat]
    by (intro unat_add_lt) simp
  have notlt: "\<not> ?b < ?t + c"
    using tc ck deque_list_length [OF ok] tb by (simp add: word_less_nat_alt)
  have "c \<noteq> 0" using cpos by auto
  then have st: "stealBatch_span n d =
      (map (\<lambda>i. rb_load (?t + of_nat i) (m_buffer d)) [0..<unat c], d\<lparr>m_top := ?t + c\<rparr>)"
    using False nle notlt by (simp add: stealBatch_span_def Let_def c_def [symmetric])
  have d': "deque_ok (d\<lparr>m_top := ?t + c\<rparr>)"
    "deque_list (d\<lparr>m_top := ?t + c\<rparr>) = map (rb_at (m_buffer d)) [unat ?t + unat c..<unat ?b]"
    using deque_listI [OF ok, of "d\<lparr>m_top := ?t + c\<rparr>"] notlt tc by auto
  have "map (\<lambda>i. rb_load (?t + of_nat i) (m_buffer d)) [0..<unat c] = take (unat c) (deque_list d)"
    using ck deque_list_length [OF ok] by (simp add: deque_list_def take_map)
  moreover have "map (rb_at (m_buffer d)) [unat ?t + unat c..<unat ?b] = drop (unat c) (deque_list d)"
    by (simp add: deque_list_at [OF ok] drop_map)
  ultimately show ?thesis using st d' c by simp
qed

lemma ChaseLevDeque_new_ok:
  assumes "unat cap \<le> 2 ^ 31"
  shows "deque_ok (ChaseLevDeque_new cap)" and "deque_list (ChaseLevDeque_new cap) = []"
proof -
  obtain k where k: "bit_ceil (max (unat cap) 16) = 2 ^ k" using bit_ceil_pow2 by blast
  have "bit_ceil (max (unat cap) 16) \<le> 2 ^ 31" using assms by (intro bit_ceil_le) simp
  then have "k \<le> 31" using k power_increasing_iff [of "2::nat" k 31] by simp
  then have "rb_ok (m_buffer (ChaseLevDeque_new cap))"
    using k by (simp add: ChaseLevDeque_new_def Let_def RingBuffer_new_ok)
  then show "deque_ok (ChaseLevDeque_new cap)" by (simp add: deque_ok_def ChaseLevDeque_new_def Let_def)
  show "deque_list (ChaseLevDeque_new cap) = []"
    by (simp add: deque_list_def ChaseLevDeque_new_def Let_def)
qed

lemma deque_size_list: "deque_ok d \<Longrightarrow> unat (deque_size d) = length (deque_list d)"
proof -
  assume ok: "deque_ok d"
  have "unat (ucast (m_bottom d - m_top d) :: u64) = unat (m_bottom d - m_top d)"
    by (simp add: unsigned_ucast_eq take_bit_nat_eq_self_iff order.strict_trans [OF unsigned_less])
  then show ?thesis
    using ok deque_list_length [OF ok]
    by (auto simp: deque_size_def Let_def unat_diff_le word_nat_order)
qed

lemma deque_empty_list: "deque_ok d \<Longrightarrow> deque_empty d \<longleftrightarrow> deque_list d = []"
  by (simp add: deque_empty_def deque_list_Nil_iff)

section \<open>The contract of a work-stealing deque\<close>

text \<open>
  What the dual-priority queue and the scheduler rely on: the deque is a list of tasks; the
  owner works at its end, thieves at its front.
\<close>

locale work_deque =
  fixes push :: "'t \<Rightarrow> 'd \<Rightarrow> 'd"
    and pop :: "'d \<Rightarrow> 't option \<times> 'd"
    and steal :: "'d \<Rightarrow> 't option \<times> 'd"
    and contents :: "'d \<Rightarrow> 't list"
    and invar :: "'d \<Rightarrow> bool"
    and room :: "'d \<Rightarrow> bool"
  assumes push_invar: "invar d \<Longrightarrow> room d \<Longrightarrow> invar (push x d)"
    and push_contents: "invar d \<Longrightarrow> room d \<Longrightarrow> contents (push x d) = contents d @ [x]"
    and pop_invar: "invar d \<Longrightarrow> invar (snd (pop d))"
    and pop_empty: "invar d \<Longrightarrow> contents d = [] \<Longrightarrow> pop d = (None, d)"
    and pop_last: "invar d \<Longrightarrow> contents d \<noteq> [] \<Longrightarrow>
      fst (pop d) = Some (last (contents d)) \<and> contents (snd (pop d)) = butlast (contents d)"
    and steal_invar: "invar d \<Longrightarrow> invar (snd (steal d))"
    and steal_empty: "invar d \<Longrightarrow> contents d = [] \<Longrightarrow> steal d = (None, d)"
    and steal_first: "invar d \<Longrightarrow> contents d \<noteq> [] \<Longrightarrow>
      fst (steal d) = Some (hd (contents d)) \<and> contents (snd (steal d)) = tl (contents d)"
begin

text \<open>Neither end loses or invents a task.\<close>

lemma pop_mset:
  "invar d \<Longrightarrow> mset (contents (snd (pop d))) + mset (case fst (pop d) of None \<Rightarrow> [] | Some x \<Rightarrow> [x]) = mset (contents d)"
proof (cases "contents d = []")
  case True
  assume "invar d"
  then show ?thesis using True pop_empty by simp
next
  case False
  assume "invar d"
  then have "fst (pop d) = Some (last (contents d))" "contents (snd (pop d)) = butlast (contents d)"
    using False pop_last by auto
  then show ?thesis using False append_butlast_last_id [OF False]
    by (metis mset_append option.simps(5))
qed

lemma steal_mset:
  "invar d \<Longrightarrow> mset (contents (snd (steal d))) + mset (case fst (steal d) of None \<Rightarrow> [] | Some x \<Rightarrow> [x]) = mset (contents d)"
proof (cases "contents d = []")
  case True
  assume "invar d"
  then show ?thesis using True steal_empty by simp
next
  case False
  assume "invar d"
  then have "fst (steal d) = Some (hd (contents d))" "contents (snd (steal d)) = tl (contents d)"
    using False steal_first by auto
  then show ?thesis using False by (cases "contents d") auto
qed

lemma pop_None_iff: "invar d \<Longrightarrow> fst (pop d) = None \<longleftrightarrow> contents d = []"
  using pop_empty pop_last by (cases "contents d = []") auto

lemma steal_None_iff: "invar d \<Longrightarrow> fst (steal d) = None \<longleftrightarrow> contents d = []"
  using steal_empty steal_first by (cases "contents d = []") auto

lemma push_pop: "invar d \<Longrightarrow> room d \<Longrightarrow> fst (pop (push x d)) = Some x \<and> contents (snd (pop (push x d))) = contents d"
  using pop_last [of "push x d"] push_invar [of d x] push_contents [of d x] by simp

end


section \<open>The Chase-Lev deque provides the contract\<close>

text \<open>The tasks of a deque that holds no null pointer.\<close>

definition deque_tasks :: "chase_lev \<Rightarrow> node_id list" where
  "deque_tasks d = map the (deque_list d)"

definition deque_inv :: "chase_lev \<Rightarrow> bool" where
  "deque_inv d \<longleftrightarrow> deque_ok d \<and> None \<notin> set (deque_list d)"

lemma deque_list_tasks: "deque_inv d \<Longrightarrow> deque_list d = map Some (deque_tasks d)"
  by (rule nth_equalityI) (auto simp: deque_inv_def deque_tasks_def in_set_conv_nth)

lemma deque_tasksI:
  assumes "deque_ok d" and "deque_list d = map Some xs"
  shows "deque_inv d" and "deque_tasks d = xs"
  using assms by (auto simp: deque_inv_def deque_tasks_def o_def)

lemma deque_tasks_Nil_iff: "deque_tasks d = [] \<longleftrightarrow> deque_list d = []"
  by (simp add: deque_tasks_def)

lemma pushBottom_tasks:
  assumes "deque_inv d" and "push_room d"
  shows "deque_inv (pushBottom (Some x) d)" and "deque_tasks (pushBottom (Some x) d) = deque_tasks d @ [x]"
proof -
  have "deque_ok (pushBottom (Some x) d)"
    "deque_list (pushBottom (Some x) d) = map Some (deque_tasks d @ [x])"
    using assms pushBottom_list [of d "Some x"] deque_list_tasks by (auto simp: deque_inv_def)
  then show "deque_inv (pushBottom (Some x) d)" "deque_tasks (pushBottom (Some x) d) = deque_tasks d @ [x]"
    by (rule deque_tasksI)+
qed

lemma popBottom_tasks:
  assumes "deque_inv d" and "deque_tasks d \<noteq> []"
  shows "deque_inv (snd (popBottom d))" and "fst (popBottom d) = Some (last (deque_tasks d))"
    and "deque_tasks (snd (popBottom d)) = butlast (deque_tasks d)"
proof -
  have p: "fst (popBottom d) = last (deque_list d)" "deque_ok (snd (popBottom d))"
    "deque_list (snd (popBottom d)) = butlast (deque_list d)"
    using assms popBottom_list [of d] by (auto simp: deque_inv_def deque_tasks_Nil_iff)
  then have "deque_list (snd (popBottom d)) = map Some (butlast (deque_tasks d))"
    using assms(1) by (simp add: deque_list_tasks map_butlast)
  with p(2) show "deque_inv (snd (popBottom d))" "deque_tasks (snd (popBottom d)) = butlast (deque_tasks d)"
    by (rule deque_tasksI)+
  show "fst (popBottom d) = Some (last (deque_tasks d))"
    using p(1) assms by (simp add: deque_list_tasks last_map)
qed

lemma stealTop_tasks:
  assumes "deque_inv d" and "deque_tasks d \<noteq> []"
  shows "deque_inv (snd (stealTop d))" and "fst (stealTop d) = Some (hd (deque_tasks d))"
    and "deque_tasks (snd (stealTop d)) = tl (deque_tasks d)"
proof -
  have p: "fst (stealTop d) = hd (deque_list d)" "deque_ok (snd (stealTop d))"
    "deque_list (snd (stealTop d)) = tl (deque_list d)"
    using assms stealTop_list [of d] by (auto simp: deque_inv_def deque_tasks_Nil_iff)
  then have "deque_list (snd (stealTop d)) = map Some (tl (deque_tasks d))"
    using assms(1) by (simp add: deque_list_tasks map_tl)
  with p(2) show "deque_inv (snd (stealTop d))" "deque_tasks (snd (stealTop d)) = tl (deque_tasks d)"
    by (rule deque_tasksI)+
  show "fst (stealTop d) = Some (hd (deque_tasks d))"
    using p(1) assms by (simp add: deque_list_tasks hd_map)
qed

lemma empty_ends:
  assumes "deque_inv d" and "deque_tasks d = []"
  shows "popBottom d = (None, d)" and "stealTop d = (None, d)"
  using assms popBottom_list(2) stealTop_list(2) by (auto simp: deque_inv_def deque_tasks_Nil_iff)

interpretation cld: work_deque "\<lambda>n. pushBottom (Some n)" popBottom stealTop deque_tasks deque_inv push_room
proof unfold_locales
  fix d :: chase_lev and x :: node_id
  assume inv: "deque_inv d"
  show "push_room d \<Longrightarrow> deque_inv (pushBottom (Some x) d)"
    "push_room d \<Longrightarrow> deque_tasks (pushBottom (Some x) d) = deque_tasks d @ [x]"
    using inv pushBottom_tasks by blast+
  show "deque_inv (snd (popBottom d))" "deque_inv (snd (stealTop d))"
    using inv popBottom_tasks(1) stealTop_tasks(1) empty_ends by (cases "deque_tasks d = []"; auto)+
  show "deque_tasks d = [] \<Longrightarrow> popBottom d = (None, d)" "deque_tasks d = [] \<Longrightarrow> stealTop d = (None, d)"
    using inv empty_ends by blast+
  show "deque_tasks d \<noteq> [] \<Longrightarrow> fst (popBottom d) = Some (last (deque_tasks d))
      \<and> deque_tasks (snd (popBottom d)) = butlast (deque_tasks d)"
    "deque_tasks d \<noteq> [] \<Longrightarrow> fst (stealTop d) = Some (hd (deque_tasks d))
      \<and> deque_tasks (snd (stealTop d)) = tl (deque_tasks d)"
    using inv popBottom_tasks stealTop_tasks by blast+
qed

text \<open>Room for a batch of \<open>k\<close> pushes.\<close>

definition push_room_n :: "chase_lev \<Rightarrow> nat \<Rightarrow> bool" where
  "push_room_n d k \<longleftrightarrow> unat (m_bottom d) + k < 2 ^ 32 \<and> length (deque_list d) + k \<le> 2 ^ 31"

lemma push_room_n_Suc:
  assumes "deque_ok d" and "push_room_n d (Suc k)"
  shows "push_room d" and "push_room_n (pushBottom x d) k"
proof -
  have len: "length (deque_list d) = unat (m_bottom d) - unat (m_top d)"
    using assms(1) by (rule deque_list_length)
  show room: "push_room d"
    using assms len by (auto simp: push_room_def push_room_n_def deque_ok_def)
  show "push_room_n (pushBottom x d) k"
    using pushBottom_list [OF assms(1) room, of x] assms(2) by (simp add: push_room_n_def)
qed

lemma push_all_tasks:
  "deque_inv d \<Longrightarrow> push_room_n d (length xs) \<Longrightarrow>
     deque_inv (fold pushBottom (map Some xs) d)
     \<and> deque_tasks (fold pushBottom (map Some xs) d) = deque_tasks d @ xs"
proof (induction xs arbitrary: d)
  case Nil
  then show ?case by simp
next
  case (Cons x xs)
  have ok: "deque_ok d" using Cons.prems(1) by (simp add: deque_inv_def)
  have room: "push_room d" "push_room_n (pushBottom (Some x) d) (length xs)"
    using push_room_n_Suc [OF ok, of "length xs"] Cons.prems(2) by auto
  show ?case
    using Cons.IH [OF _ room(2)] pushBottom_tasks [OF Cons.prems(1) room(1), of x] by simp
qed

lemma stealBatch_into_tasks:
  assumes d: "deque_inv d" and dst: "deque_inv dst"
    and room: "push_room_n dst (batch_count 128 (length (deque_tasks d)))"
    and st: "stealBatch_into d dst = (n, d', dst')"
  shows "unat n = batch_count 128 (length (deque_tasks d))"
    and "deque_inv d'" and "deque_tasks d' = drop (unat n) (deque_tasks d)"
    and "deque_inv dst'" and "deque_tasks dst' = deque_tasks dst @ take (unat n) (deque_tasks d)"
proof -
  let ?c = "batch_count 128 (length (deque_tasks d))"
  obtain batch d1 where b: "stealBatch_span 128 d = (batch, d1)" by (cases "stealBatch_span 128 d")
  have ok: "deque_ok d" using d by (simp add: deque_inv_def)
  have len: "length (deque_list d) = length (deque_tasks d)" by (simp add: deque_tasks_def)
  have s: "deque_ok d1" "batch = map Some (take ?c (deque_tasks d))"
    "deque_list d1 = map Some (drop ?c (deque_tasks d))"
    using stealBatch_span_list [OF ok, of 128] b len deque_list_tasks [OF d]
    by (auto simp: take_map drop_map)
  have blen: "length batch = ?c" using s(2) by (auto simp: batch_count_def)
  have eqs: "n = of_nat ?c" "d' = d1" "dst' = fold pushBottom batch dst"
    using st b blen by (auto simp: stealBatch_into_def)
  have "?c \<le> 128" by (simp add: batch_count_def)
  then show n: "unat n = ?c" using eqs(1) by (simp add: unat_of_nat)
  show "deque_inv d'" "deque_tasks d' = drop (unat n) (deque_tasks d)"
    using deque_tasksI [OF s(1,3)] eqs(2) n by auto
  have "length (take ?c (deque_tasks d)) = ?c" by (auto simp: batch_count_def)
  then show "deque_inv dst'" "deque_tasks dst' = deque_tasks dst @ take (unat n) (deque_tasks d)"
    using push_all_tasks [OF dst, of "take ?c (deque_tasks d)"] room s(2) eqs(3) n by auto
qed

section \<open>Properties\<close>

lemma new_pushed:
  assumes "length xs \<le> 1000"
  shows "deque_inv (fold pushBottom (map Some xs) (ChaseLevDeque_new 16))"
    and "deque_tasks (fold pushBottom (map Some xs) (ChaseLevDeque_new 16)) = xs"
proof -
  have new: "deque_ok (ChaseLevDeque_new 16)" "deque_list (ChaseLevDeque_new 16) = []"
    using ChaseLevDeque_new_ok [of 16] by auto
  then have inv: "deque_inv (ChaseLevDeque_new 16)" "deque_tasks (ChaseLevDeque_new 16) = []"
    by (auto simp: deque_inv_def deque_tasks_def)
  have "push_room_n (ChaseLevDeque_new 16) (length xs)"
    using assms new(2) by (simp add: push_room_n_def ChaseLevDeque_new_def Let_def)
  then show "deque_inv (fold pushBottom (map Some xs) (ChaseLevDeque_new 16))"
    "deque_tasks (fold pushBottom (map Some xs) (ChaseLevDeque_new 16)) = xs"
    using push_all_tasks [OF inv(1)] inv(2) by auto
qed

text \<open>
  C2: The Chase-Lev deque implements a double-ended list. While the 32-bit index has room, a
  push appends at the bottom, across ring-buffer growth too; the owner's pop takes the last
  task, a thief's steal the first; both return null exactly on the empty deque and leave it
  unchanged; every operation keeps the invariant.
\<close>

theorem chase_lev_refines_deque:
  assumes "deque_inv d"
  shows "(push_room d \<longrightarrow> deque_inv (pushBottom (Some x) d)
           \<and> deque_tasks (pushBottom (Some x) d) = deque_tasks d @ [x])
    \<and> (case popBottom d of (None, d') \<Rightarrow> deque_tasks d = [] \<and> d' = d
       | (Some y, d') \<Rightarrow> deque_inv d' \<and> deque_tasks d = deque_tasks d' @ [y])
    \<and> (case stealTop d of (None, d') \<Rightarrow> deque_tasks d = [] \<and> d' = d
       | (Some y, d') \<Rightarrow> deque_inv d' \<and> deque_tasks d = y # deque_tasks d')"
proof (intro conjI impI)
  assume "push_room d"
  with assms show "deque_inv (pushBottom (Some x) d)" "deque_tasks (pushBottom (Some x) d) = deque_tasks d @ [x]"
    by (rule cld.push_invar cld.push_contents)+
next
  show "case popBottom d of (None, d') \<Rightarrow> deque_tasks d = [] \<and> d' = d
       | (Some y, d') \<Rightarrow> deque_inv d' \<and> deque_tasks d = deque_tasks d' @ [y]"
    using assms cld.pop_empty [of d] cld.pop_last [of d] cld.pop_invar [of d]
    by (cases "deque_tasks d = []") (auto split: prod.split option.split)
next
  show "case stealTop d of (None, d') \<Rightarrow> deque_tasks d = [] \<and> d' = d
       | (Some y, d') \<Rightarrow> deque_inv d' \<and> deque_tasks d = y # deque_tasks d'"
    using assms cld.steal_empty [of d] cld.steal_first [of d] cld.steal_invar [of d]
    by (cases "deque_tasks d") (auto split: prod.split option.split)
qed

theorem chase_lev_refines_deque_witness:
  "case stealTop (fold pushBottom (map Some [4, 5, 6]) (ChaseLevDeque_new 16)) of
     (None, d') \<Rightarrow> False | (Some y, d') \<Rightarrow> y = 4 \<and> deque_tasks d' = [5, 6]"
  using chase_lev_refines_deque [of "fold pushBottom (map Some [4, 5, 6]) (ChaseLevDeque_new 16)" 7]
    new_pushed [of "[4, 5, 6]"]
  by (auto split: prod.splits option.splits)

text \<open>
  C3: A batch steal into a span of \<open>n\<close> slots takes the oldest \<open>min n \<lceil>k / 2\<rceil>\<close> of the \<open>k\<close> tasks, in
  FIFO order, and leaves the rest in place.
\<close>

theorem stealBatch_takes_older_half:
  assumes "deque_inv d" and "unat n < 2 ^ 32" and "c = min (unat n) ((length (deque_tasks d) + 1) div 2)"
  shows "fst (stealBatch_span n d) = map Some (take c (deque_tasks d))
    \<and> deque_inv (snd (stealBatch_span n d))
    \<and> deque_tasks (snd (stealBatch_span n d)) = drop c (deque_tasks d)"
proof -
  have ok: "deque_ok d" using assms(1) by (simp add: deque_inv_def)
  have len: "length (deque_list d) = length (deque_tasks d)" by (simp add: deque_tasks_def)
  note s = stealBatch_span_list [OF ok assms(2)]
  have l: "deque_list (snd (stealBatch_span n d)) = map Some (drop c (deque_tasks d))"
    using s len assms(3) deque_list_tasks [OF assms(1)] by (simp add: batch_count_def drop_map)
  show ?thesis
    using s len assms(3) deque_list_tasks [OF assms(1)] deque_tasksI [OF _ l]
    by (simp add: batch_count_def take_map)
qed

theorem stealBatch_takes_older_half_witness:
  "fst (stealBatch_span 8 (fold pushBottom (map Some [4, 5, 6]) (ChaseLevDeque_new 16))) = [Some 4, Some 5]"
  using stealBatch_takes_older_half [of "fold pushBottom (map Some [4, 5, 6]) (ChaseLevDeque_new 16)" 8 2]
    new_pushed [of "[4, 5, 6]"] by simp

text \<open>
  The indices do not survive the end of the 32-bit range. When the bottom index is the
  largest 32-bit value, a push wraps it to zero, and the deque with the new task in it
  reports empty: neither pop nor steal finds that task or any other one.
\<close>

theorem push_wraps_index:
  assumes "m_bottom d = - 1"
  shows "deque_empty (pushBottom x d) \<and> fst (popBottom (pushBottom x d)) = None
    \<and> fst (stealTop (pushBottom x d)) = None"
proof -
  have "m_bottom (pushBottom x d) = 0"
    using assms by (simp add: pushBottom_def Let_def word_order.extremum not_less)
  then show ?thesis by (simp add: deque_empty_def popBottom_def stealTop_def Let_def)
qed

theorem push_wraps_index_witness:
  "fst (popBottom (pushBottom (Some 3) \<lparr>m_top = 0xFFFFFFFE, m_bottom = - 1, m_buffer = RingBuffer_new 16, m_garbage = []\<rparr>)) = None"
  by (rule push_wraps_index [THEN conjunct2, THEN conjunct1]) simp

end
