(* ===== verification/Mpmc_Queue.thy ===== *)
theory Mpmc_Queue
  imports LF_Base
begin

text \<open>
  The bounded multi-producer multi-consumer queue of \<^verbatim>\<open>task_scheduler.hpp\<close> and
  \<^verbatim>\<open>task_scheduler.cpp\<close> (\<open>MpmcTaskQueue\<close>): cells with sequence numbers, the two positions,
  \<open>tryEnqueue\<close>, \<open>tryDequeue\<close>, \<open>empty\<close> and \<open>size\<close>. The retry loops return \<open>None\<close> when a
  caller that runs alone would spin for ever. The locale \<open>bounded_fifo\<close> is the contract the
  scheduler relies on; the queue is its interpretation while the positions stay below
  \<open>2 ^ 63\<close>, where the signed difference of the sequence test is defined.
\<close>

section \<open>State and operations\<close>

record cell =
  sequence :: usize
  task :: node_ptr

record mpmc_queue =
  q_capacity :: usize
  q_mask :: usize
  q_buffer :: "cell list"
  m_enqueuePos :: usize
  m_dequeuePos :: usize

definition MpmcTaskQueue_new :: "usize \<Rightarrow> mpmc_queue" where
  "MpmcTaskQueue_new capacity =
     (let cap = of_nat (bit_ceil (max (unat capacity) 16))
      in \<lparr>q_capacity = cap, q_mask = cap - 1,
          q_buffer = map (\<lambda>i. \<lparr>sequence = of_nat i, task = None\<rparr>) [0..<unat cap],
          m_enqueuePos = 0, m_dequeuePos = 0\<rparr>)"

text \<open>
  One pass of the \<open>for (;;)\<close> loop decides: claim the cell, give up, or reload the position
  and try again. With no other thread the reload yields the same position, so the third
  case repeats for ever.
\<close>

definition tryEnqueue :: "node_ptr \<Rightarrow> mpmc_queue \<Rightarrow> (bool \<times> mpmc_queue) option" where
  "tryEnqueue x q =
     (let pos = m_enqueuePos q;
          i = unat (pos AND q_mask q);
          cell = q_buffer q ! i;
          seq = sequence cell;
          dif = sint seq - sint pos
      in if dif = 0 then
           Some (True, q\<lparr>m_enqueuePos := pos + 1,
                         q_buffer := (q_buffer q)[i := cell\<lparr>task := x, sequence := pos + 1\<rparr>]\<rparr>)
         else if dif < 0 then Some (False, q)
         else None)"

definition tryDequeue :: "mpmc_queue \<Rightarrow> (node_ptr \<times> mpmc_queue) option" where
  "tryDequeue q =
     (let pos = m_dequeuePos q;
          i = unat (pos AND q_mask q);
          cell = q_buffer q ! i;
          seq = sequence cell;
          dif = sint seq - sint (pos + 1)
      in if dif = 0 then
           Some (task cell, q\<lparr>m_dequeuePos := pos + 1,
                 q_buffer := (q_buffer q)[i := cell\<lparr>task := None, sequence := pos + q_mask q + 1\<rparr>]\<rparr>)
         else if dif < 0 then Some (None, q)
         else None)"

definition mpmc_empty :: "mpmc_queue \<Rightarrow> bool" where
  "mpmc_empty q \<longleftrightarrow> m_enqueuePos q \<le> m_dequeuePos q"

definition mpmc_size :: "mpmc_queue \<Rightarrow> usize" where
  "mpmc_size q =
     (let enq = m_enqueuePos q; deq = m_dequeuePos q in if deq < enq then enq - deq else 0)"

section \<open>Abstraction and invariant\<close>

definition cell_at :: "mpmc_queue \<Rightarrow> nat \<Rightarrow> cell" where
  "cell_at q p = q_buffer q ! (p mod unat (q_capacity q))"

text \<open>The queued tasks, oldest first.\<close>

definition mpmc_list :: "mpmc_queue \<Rightarrow> node_ptr list" where
  "mpmc_list q = map (\<lambda>p. task (cell_at q p)) [unat (m_dequeuePos q)..<unat (m_enqueuePos q)]"

definition mpmc_shape :: "mpmc_queue \<Rightarrow> bool" where
  "mpmc_shape q \<longleftrightarrow> (\<exists>k. 4 \<le> k \<and> k \<le> 62 \<and> q_capacity q = 2 ^ k)
     \<and> q_mask q = q_capacity q - 1 \<and> length (q_buffer q) = unat (q_capacity q)"

text \<open>
  A cell whose position holds a task carries the position plus one; a cell that is free for
  the coming position carries that position.
\<close>

definition mpmc_ok :: "mpmc_queue \<Rightarrow> bool" where
  "mpmc_ok q \<longleftrightarrow> mpmc_shape q
     \<and> unat (m_dequeuePos q) \<le> unat (m_enqueuePos q)
     \<and> unat (m_enqueuePos q) \<le> unat (m_dequeuePos q) + unat (q_capacity q)
     \<and> (\<forall>p. unat (m_dequeuePos q) \<le> p \<and> p < unat (m_enqueuePos q) \<longrightarrow>
            unat (sequence (cell_at q p)) = p + 1)
     \<and> (\<forall>p. unat (m_enqueuePos q) \<le> p \<and> p < unat (m_dequeuePos q) + unat (q_capacity q) \<longrightarrow>
            unat (sequence (cell_at q p)) = p)"

text \<open>Positions far enough below \<open>2 ^ 63\<close> for the next operation.\<close>

definition mpmc_fresh :: "mpmc_queue \<Rightarrow> bool" where
  "mpmc_fresh q \<longleftrightarrow> unat (m_enqueuePos q) + unat (q_capacity q) < 2 ^ 63 - 1"

section \<open>Cells by position\<close>

lemma mpmc_shapeE:
  assumes "mpmc_shape q"
  obtains k where "4 \<le> k" and "k \<le> 62" and "q_capacity q = 2 ^ k" and "unat (q_capacity q) = 2 ^ k"
    and "q_mask q = mask k" and "length (q_buffer q) = unat (q_capacity q)"
proof -
  from assms obtain k where k: "4 \<le> k" "k \<le> 62" "q_capacity q = 2 ^ k" by (auto simp: mpmc_shape_def)
  then have "unat (q_capacity q) = 2 ^ k" by (simp add: unat_pow2)
  with assms k show ?thesis by (intro that) (auto simp: mpmc_shape_def mask_eq_exp_minus_1)
qed

lemma mpmc_cap_bounds:
  assumes "mpmc_shape q"
  shows "16 \<le> unat (q_capacity q)" and "unat (q_capacity q) < 2 ^ 63"
proof -
  obtain k where k: "4 \<le> k" "k \<le> 62" "unat (q_capacity q) = 2 ^ k" using assms by (rule mpmc_shapeE)
  show "16 \<le> unat (q_capacity q)" using power_increasing [of 4 k "2::nat"] k by simp
  have "(2::nat) ^ k < 2 ^ 63" using k by (intro power_strict_increasing) auto
  then show "unat (q_capacity q) < 2 ^ 63" using k by simp
qed

lemma mpmc_slot:
  assumes "mpmc_shape q"
  shows "unat (pos AND q_mask q) = unat pos mod unat (q_capacity q)"
  using assms by (rule mpmc_shapeE) (simp add: unat_and_mask)

lemma mpmc_mask_Suc:
  assumes "mpmc_shape q"
  shows "q_mask q + 1 = q_capacity q"
  using assms by (simp add: mpmc_shape_def)

lemma cell_at_update:
  assumes "mpmc_shape q" and "q_buffer q' = (q_buffer q)[p mod unat (q_capacity q) := c]"
    and "q_capacity q' = q_capacity q"
  shows "cell_at q' n = (if n mod unat (q_capacity q) = p mod unat (q_capacity q) then c else cell_at q n)"
proof -
  have "n mod unat (q_capacity q) < length (q_buffer q)" "p mod unat (q_capacity q) < length (q_buffer q)"
    using assms(1) mpmc_cap_bounds(1) [OF assms(1)] by (auto simp: mpmc_shape_def)
  then show ?thesis using assms(2,3) by (auto simp: cell_at_def nth_list_update)
qed

section \<open>Enqueue and dequeue on the list\<close>

lemma mpmc_list_length:
  "length (mpmc_list q) = unat (m_enqueuePos q) - unat (m_dequeuePos q)"
  by (simp add: mpmc_list_def)

lemma mpmc_okE:
  assumes "mpmc_ok q" and "mpmc_fresh q"
  shows "mpmc_shape q" and "unat (m_dequeuePos q) \<le> unat (m_enqueuePos q)"
    and "unat (m_enqueuePos q) \<le> unat (m_dequeuePos q) + unat (q_capacity q)"
    and "unat (m_enqueuePos q + 1) = unat (m_enqueuePos q) + 1"
    and "unat (m_dequeuePos q + 1) = unat (m_dequeuePos q) + 1"
    and "unat (m_dequeuePos q + q_mask q + 1) = unat (m_dequeuePos q) + unat (q_capacity q)"
    and "sint (m_enqueuePos q) = int (unat (m_enqueuePos q))"
    and "sint (m_dequeuePos q + 1) = int (unat (m_dequeuePos q) + 1)"
proof -
  show sh: "mpmc_shape q" and le: "unat (m_dequeuePos q) \<le> unat (m_enqueuePos q)"
    and "unat (m_enqueuePos q) \<le> unat (m_dequeuePos q) + unat (q_capacity q)"
    using assms(1) by (auto simp: mpmc_ok_def)
  have fr: "unat (m_enqueuePos q) + unat (q_capacity q) < 2 ^ 63 - 1" using assms(2) by (simp add: mpmc_fresh_def)
  show "unat (m_enqueuePos q + 1) = unat (m_enqueuePos q) + 1" using fr by (intro unat_Suc_lt) simp
  show d1: "unat (m_dequeuePos q + 1) = unat (m_dequeuePos q) + 1" using fr le by (intro unat_Suc_lt) simp
  have "m_dequeuePos q + q_mask q + 1 = m_dequeuePos q + q_capacity q"
    using mpmc_mask_Suc [OF sh] by (simp add: add.assoc)
  then show "unat (m_dequeuePos q + q_mask q + 1) = unat (m_dequeuePos q) + unat (q_capacity q)"
    using fr le unat_add_lt [of "m_dequeuePos q" "q_capacity q"] by (simp only:) simp
  show "sint (m_enqueuePos q) = int (unat (m_enqueuePos q))" using fr by (intro sint_small) simp
  show "sint (m_dequeuePos q + 1) = int (unat (m_dequeuePos q) + 1)"
    using fr le d1 sint_small [of "m_dequeuePos q + 1"] by simp
qed

lemma mpmc_seq_sint:
  assumes "mpmc_ok q" and "mpmc_fresh q" and "unat (sequence c) \<le> unat (m_enqueuePos q) + unat (q_capacity q)"
  shows "sint (sequence c) = int (unat (sequence c))"
  using assms by (intro sint_small) (simp add: mpmc_fresh_def)

lemma tryEnqueue_full:
  assumes ok: "mpmc_ok q" and fr: "mpmc_fresh q" and full: "length (mpmc_list q) = unat (q_capacity q)"
  shows "tryEnqueue x q = Some (False, q)"
proof -
  note f = mpmc_okE [OF ok fr]
  let ?e = "unat (m_enqueuePos q)" and ?d = "unat (m_dequeuePos q)" and ?c = "unat (q_capacity q)"
  have cap: "16 \<le> ?c" using mpmc_cap_bounds(1) [OF f(1)] .
  have e: "?e = ?d + ?c" using full f(2,3) by (simp add: mpmc_list_length)
  have slot: "unat (m_enqueuePos q AND q_mask q) = ?d mod ?c" using mpmc_slot [OF f(1)] e by simp
  have seq: "unat (sequence (cell_at q ?d)) = ?d + 1" using ok e cap by (simp add: mpmc_ok_def)
  then have "sint (sequence (cell_at q ?d)) - sint (m_enqueuePos q) < 0"
    using mpmc_seq_sint [OF ok fr, of "cell_at q ?d"] e cap f(7) by linarith
  then show ?thesis using slot by (simp add: tryEnqueue_def Let_def cell_at_def)
qed

lemma tryEnqueue_room:
  assumes ok: "mpmc_ok q" and fr: "mpmc_fresh q" and room: "length (mpmc_list q) < unat (q_capacity q)"
  obtains q' where "tryEnqueue x q = Some (True, q')" and "mpmc_ok q'"
    and "mpmc_list q' = mpmc_list q @ [x]" and "q_capacity q' = q_capacity q"
    and "m_enqueuePos q' = m_enqueuePos q + 1"
proof -
  note f = mpmc_okE [OF ok fr]
  let ?e = "unat (m_enqueuePos q)" and ?d = "unat (m_dequeuePos q)" and ?c = "unat (q_capacity q)"
  let ?cell = "(cell_at q ?e)\<lparr>task := x, sequence := m_enqueuePos q + 1\<rparr>"
  let ?q = "q\<lparr>m_enqueuePos := m_enqueuePos q + 1, q_buffer := (q_buffer q)[?e mod ?c := ?cell]\<rparr>"
  have e: "?e < ?d + ?c" using room f(2,3) by (simp add: mpmc_list_length)
  have slot: "unat (m_enqueuePos q AND q_mask q) = ?e mod ?c" using mpmc_slot [OF f(1)] by simp
  have seq: "unat (sequence (cell_at q ?e)) = ?e" using ok e by (simp add: mpmc_ok_def)
  then have "sint (sequence (cell_at q ?e)) - sint (m_enqueuePos q) = 0"
    using mpmc_seq_sint [OF ok fr, of "cell_at q ?e"] f(7) by simp
  then have r: "tryEnqueue x q = Some (True, ?q)" using slot by (simp add: tryEnqueue_def Let_def cell_at_def)
  have at: "cell_at ?q n = (if n mod ?c = ?e mod ?c then ?cell else cell_at q n)" for n
    using cell_at_update [OF f(1), of ?q ?e ?cell n] by simp
  have win: "n mod ?c = ?e mod ?c \<longleftrightarrow> n = ?e" if "?d \<le> n" "n < ?d + ?c" for n
    using window_slots_distinct [of n ?c ?e ?d] that e f(2) by auto
  have ok': "mpmc_ok ?q"
    unfolding mpmc_ok_def
  proof (intro conjI allI impI)
    show "mpmc_shape ?q" using f(1) by (auto simp: mpmc_shape_def)
    show "unat (m_dequeuePos ?q) \<le> unat (m_enqueuePos ?q)" using f(2,4) by simp
    show "unat (m_enqueuePos ?q) \<le> unat (m_dequeuePos ?q) + unat (q_capacity ?q)" using e f(4) by simp
  next
    fix p assume "unat (m_dequeuePos ?q) \<le> p \<and> p < unat (m_enqueuePos ?q)"
    then show "unat (sequence (cell_at ?q p)) = p + 1"
      using at [of p] win [of p] f(4) e ok by (cases "p = ?e") (auto simp: mpmc_ok_def)
  next
    fix p assume "unat (m_enqueuePos ?q) \<le> p \<and> p < unat (m_dequeuePos ?q) + unat (q_capacity ?q)"
    then show "unat (sequence (cell_at ?q p)) = p"
      using at [of p] win [of p] f(2,4) ok by (auto simp: mpmc_ok_def)
  qed
  have l: "mpmc_list ?q = map (\<lambda>p. task (cell_at ?q p)) ([?d..<?e] @ [?e])"
    using f(2,4) by (simp add: mpmc_list_def)
  also have "\<dots> = mpmc_list q @ [x]"
  proof -
    have "task (cell_at ?q p) = task (cell_at q p)" if "p \<in> set [?d..<?e]" for p
      using that at [of p] win [of p] e by auto
    then show ?thesis using at [of ?e] by (simp add: mpmc_list_def)
  qed
  finally have "mpmc_list ?q = mpmc_list q @ [x]" .
  with r ok' show ?thesis by (intro that [of ?q]) simp_all
qed

lemma tryDequeue_empty:
  assumes ok: "mpmc_ok q" and fr: "mpmc_fresh q" and empty: "mpmc_list q = []"
  shows "tryDequeue q = Some (None, q)"
proof -
  note f = mpmc_okE [OF ok fr]
  let ?d = "unat (m_dequeuePos q)"
  have e: "unat (m_enqueuePos q) = ?d" using empty f(2) by (auto simp: mpmc_list_def)
  have "unat (sequence (cell_at q ?d)) = ?d"
    using ok e mpmc_cap_bounds(1) [OF f(1)] by (simp add: mpmc_ok_def)
  then have "sint (sequence (cell_at q ?d)) - sint (m_dequeuePos q + 1) < 0"
    using mpmc_seq_sint [OF ok fr, of "cell_at q ?d"] e f(8) by simp
  then show ?thesis using mpmc_slot [OF f(1)] by (simp add: tryDequeue_def Let_def cell_at_def)
qed

lemma tryDequeue_nonempty:
  assumes ok: "mpmc_ok q" and fr: "mpmc_fresh q" and ne: "mpmc_list q \<noteq> []"
  obtains q' where "tryDequeue q = Some (hd (mpmc_list q), q')" and "mpmc_ok q'"
    and "mpmc_list q' = tl (mpmc_list q)" and "q_capacity q' = q_capacity q"
    and "m_enqueuePos q' = m_enqueuePos q"
proof -
  note f = mpmc_okE [OF ok fr]
  let ?e = "unat (m_enqueuePos q)" and ?d = "unat (m_dequeuePos q)" and ?c = "unat (q_capacity q)"
  let ?cell = "(cell_at q ?d)\<lparr>task := None, sequence := m_dequeuePos q + q_mask q + 1\<rparr>"
  let ?q = "q\<lparr>m_dequeuePos := m_dequeuePos q + 1, q_buffer := (q_buffer q)[?d mod ?c := ?cell]\<rparr>"
  have de: "?d < ?e" using ne f(2) by (simp add: mpmc_list_def)
  have cap: "16 \<le> ?c" using mpmc_cap_bounds(1) [OF f(1)] .
  have "unat (sequence (cell_at q ?d)) = ?d + 1" using ok de by (simp add: mpmc_ok_def)
  then have "sint (sequence (cell_at q ?d)) - sint (m_dequeuePos q + 1) = 0"
    using mpmc_seq_sint [OF ok fr, of "cell_at q ?d"] de f(8) by simp
  then have r: "tryDequeue q = Some (task (cell_at q ?d), ?q)"
    using mpmc_slot [OF f(1)] by (simp add: tryDequeue_def Let_def cell_at_def)
  have at: "cell_at ?q n = (if n mod ?c = ?d mod ?c then ?cell else cell_at q n)" for n
    using cell_at_update [OF f(1), of ?q ?d ?cell n] by simp
  have win: "n mod ?c \<noteq> ?d mod ?c" if "?d < n" "n < ?d + ?c" for n
    using window_slots_distinct [of n ?c ?d ?d] that by auto
  have ok': "mpmc_ok ?q"
    unfolding mpmc_ok_def
  proof (intro conjI allI impI)
    show "mpmc_shape ?q" using f(1) by (auto simp: mpmc_shape_def)
    show "unat (m_dequeuePos ?q) \<le> unat (m_enqueuePos ?q)" using de f(5) by simp
    show "unat (m_enqueuePos ?q) \<le> unat (m_dequeuePos ?q) + unat (q_capacity ?q)" using f(3,5) by simp
  next
    fix p assume "unat (m_dequeuePos ?q) \<le> p \<and> p < unat (m_enqueuePos ?q)"
    then show "unat (sequence (cell_at ?q p)) = p + 1"
      using at [of p] win [of p] f(3,5) ok by (auto simp: mpmc_ok_def)
  next
    fix p assume p: "unat (m_enqueuePos ?q) \<le> p \<and> p < unat (m_dequeuePos ?q) + unat (q_capacity ?q)"
    then show "unat (sequence (cell_at ?q p)) = p"
      using at [of p] win [of p] f(5,6) de cap ok by (cases "p = ?d + ?c") (auto simp: mpmc_ok_def)
  qed
  have split: "[?d..<?e] = ?d # [?d + 1..<?e]" using de by (simp add: upt_conv_Cons)
  have "mpmc_list ?q = map (\<lambda>p. task (cell_at q p)) [?d + 1..<?e]"
  proof -
    have "task (cell_at ?q p) = task (cell_at q p)" if "p \<in> set [?d + 1..<?e]" for p
      using that at [of p] win [of p] f(3) by auto
    then show ?thesis using f(5) by (simp add: mpmc_list_def)
  qed
  then have "mpmc_list ?q = tl (mpmc_list q)" "task (cell_at q ?d) = hd (mpmc_list q)"
    using split by (simp_all add: mpmc_list_def)
  with r ok' show ?thesis by (intro that [of ?q]) simp_all
qed

lemma MpmcTaskQueue_new_ok:
  assumes "unat capacity \<le> 2 ^ 62"
  shows "mpmc_ok (MpmcTaskQueue_new capacity)" and "mpmc_list (MpmcTaskQueue_new capacity) = []"
    and "unat (q_capacity (MpmcTaskQueue_new capacity)) = bit_ceil (max (unat capacity) 16)"
    and "m_enqueuePos (MpmcTaskQueue_new capacity) = 0"
proof -
  let ?c = "bit_ceil (max (unat capacity) 16)" and ?q = "MpmcTaskQueue_new capacity"
  obtain k where k: "?c = 2 ^ k" using bit_ceil_pow2 by blast
  have "?c \<le> 2 ^ 62" using assms by (intro bit_ceil_le) simp
  then have k62: "k \<le> 62" using k power_increasing_iff [of "2::nat" k 62] by simp
  have "16 \<le> ?c" using bit_ceil_ge [of "max (unat capacity) 16"] by linarith
  then have "(2::nat) ^ 4 \<le> 2 ^ k" using k by simp
  then have k4: "4 \<le> k" using power_increasing_iff [of "2::nat" 4 k] by simp
  have ofc: "(of_nat ?c :: u64) = 2 ^ k" using k by simp
  then have uc: "unat (of_nat ?c :: u64) = 2 ^ k" using k62 by (simp add: unat_pow2)
  show cap: "unat (q_capacity ?q) = ?c" using uc k by (simp add: MpmcTaskQueue_new_def Let_def)
  show e0: "m_enqueuePos ?q = 0" by (simp add: MpmcTaskQueue_new_def Let_def)
  have d0: "m_dequeuePos ?q = 0" by (simp add: MpmcTaskQueue_new_def Let_def)
  show "mpmc_list ?q = []" using e0 d0 by (simp add: mpmc_list_def)
  have sh: "mpmc_shape ?q"
    using k4 k62 ofc uc by (auto simp: mpmc_shape_def MpmcTaskQueue_new_def Let_def)
  have "(2::nat) ^ k \<le> 2 ^ 62" using k62 by (intro power_increasing) auto
  then have "unat (sequence (cell_at ?q p)) = p" if "p < 2 ^ k" for p
    using that cap uc k by (simp add: cell_at_def MpmcTaskQueue_new_def Let_def unat_of_nat)
  then show "mpmc_ok ?q" using sh e0 d0 cap k by (simp add: mpmc_ok_def)
qed

section \<open>The contract of a bounded queue\<close>

text \<open>
  What the scheduler relies on: a queue either takes a task at its end or is full, and gives
  its tasks in the order it took them; no call spins. \<open>room q n\<close>: the queue can take part in
  \<open>n\<close> further enqueues before its positions leave the range of the sequence test.
\<close>

locale bounded_fifo =
  fixes enq :: "'t \<Rightarrow> 'q \<Rightarrow> (bool \<times> 'q) option"
    and deq :: "'q \<Rightarrow> ('t option \<times> 'q) option"
    and contents :: "'q \<Rightarrow> 't list"
    and cap :: "'q \<Rightarrow> nat"
    and invar :: "'q \<Rightarrow> bool"
    and room :: "'q \<Rightarrow> nat \<Rightarrow> bool"
  assumes enq_full: "invar q \<Longrightarrow> room q n \<Longrightarrow> length (contents q) = cap q \<Longrightarrow> enq x q = Some (False, q)"
    and enq_room: "invar q \<Longrightarrow> room q (Suc n) \<Longrightarrow> length (contents q) < cap q \<Longrightarrow>
      \<exists>q'. enq x q = Some (True, q') \<and> invar q' \<and> contents q' = contents q @ [x] \<and> cap q' = cap q
        \<and> room q' n"
    and deq_empty: "invar q \<Longrightarrow> room q n \<Longrightarrow> contents q = [] \<Longrightarrow> deq q = Some (None, q)"
    and deq_first: "invar q \<Longrightarrow> room q n \<Longrightarrow> contents q = x # xs \<Longrightarrow>
      \<exists>q'. deq q = Some (Some x, q') \<and> invar q' \<and> contents q' = xs \<and> cap q' = cap q \<and> room q' n"
    and bounded: "invar q \<Longrightarrow> length (contents q) \<le> cap q"
begin

fun enq_all :: "'t list \<Rightarrow> 'q \<Rightarrow> 'q option" where
  "enq_all [] q = Some q"
| "enq_all (x # xs) q = (case enq x q of Some (True, q') \<Rightarrow> enq_all xs q' | _ \<Rightarrow> None)"

text \<open>Dequeue until the queue reports empty, at most \<open>n\<close> times.\<close>

fun deq_all :: "nat \<Rightarrow> 'q \<Rightarrow> ('t list \<times> 'q) option" where
  "deq_all 0 q = None"
| "deq_all (Suc n) q =
     (case deq q of None \<Rightarrow> None
      | Some (None, q') \<Rightarrow> Some ([], q')
      | Some (Some x, q') \<Rightarrow> (case deq_all n q' of None \<Rightarrow> None | Some (xs, q'') \<Rightarrow> Some (x # xs, q'')))"

lemma enq_all_ok:
  "invar q \<Longrightarrow> room q (length xs + n) \<Longrightarrow> length (contents q) + length xs \<le> cap q \<Longrightarrow>
     \<exists>q'. enq_all xs q = Some q' \<and> invar q' \<and> contents q' = contents q @ xs \<and> cap q' = cap q \<and> room q' n"
proof (induction xs arbitrary: q)
  case Nil
  then show ?case by simp
next
  case (Cons x xs)
  then obtain q1 where q1: "enq x q = Some (True, q1)" "invar q1" "contents q1 = contents q @ [x]"
      "cap q1 = cap q" "room q1 (length xs + n)"
    using enq_room [of q "length xs + n" x] by auto
  then show ?case using Cons.IH [of q1] Cons.prems by auto
qed

lemma deq_all_ok:
  "invar q \<Longrightarrow> room q n \<Longrightarrow> length (contents q) < m \<Longrightarrow>
     \<exists>q'. deq_all m q = Some (contents q, q') \<and> invar q' \<and> contents q' = [] \<and> room q' n"
proof (induction m arbitrary: q)
  case 0
  then show ?case by simp
next
  case (Suc m)
  show ?case
  proof (cases "contents q")
    case Nil
    then show ?thesis using Suc.prems deq_empty by simp
  next
    case (Cons x xs)
    then obtain q1 where q1: "deq q = Some (Some x, q1)" "invar q1" "contents q1 = xs" "room q1 n"
      using Suc.prems deq_first by blast
    then show ?thesis using Suc.IH [of q1] Suc.prems Cons by auto
  qed
qed

text \<open>Full is refused and a refusal means full.\<close>

lemma enq_refused_iff:
  assumes "invar q" and "room q (Suc n)"
  shows "(\<exists>q'. enq x q = Some (False, q')) \<longleftrightarrow> length (contents q) = cap q"
  using assms enq_full [of q "Suc n" x] enq_room [of q n x] bounded [of q]
  by (cases "length (contents q) = cap q") auto

end

section \<open>The queue provides the contract\<close>

definition mpmc_inv :: "mpmc_queue \<Rightarrow> bool" where
  "mpmc_inv q \<longleftrightarrow> mpmc_ok q \<and> None \<notin> set (mpmc_list q)"

definition mpmc_tasks :: "mpmc_queue \<Rightarrow> node_id list" where
  "mpmc_tasks q = map the (mpmc_list q)"

definition mpmc_room :: "mpmc_queue \<Rightarrow> nat \<Rightarrow> bool" where
  "mpmc_room q n \<longleftrightarrow> unat (m_enqueuePos q) + n + unat (q_capacity q) < 2 ^ 63 - 1"

lemma mpmc_list_tasks: "mpmc_inv q \<Longrightarrow> mpmc_list q = map Some (mpmc_tasks q)"
  by (rule nth_equalityI) (auto simp: mpmc_inv_def mpmc_tasks_def in_set_conv_nth)

lemma mpmc_tasksI:
  assumes "mpmc_ok q" and "mpmc_list q = map Some xs"
  shows "mpmc_inv q" and "mpmc_tasks q = xs"
  using assms by (auto simp: mpmc_inv_def mpmc_tasks_def o_def)

lemma mpmc_room_fresh: "mpmc_room q n \<Longrightarrow> mpmc_fresh q"
  by (simp add: mpmc_room_def mpmc_fresh_def)

lemma mpmc_tasks_length [simp]: "length (mpmc_tasks q) = length (mpmc_list q)"
  by (simp add: mpmc_tasks_def)

lemma tryEnqueue_tasks:
  assumes inv: "mpmc_inv q" and room: "mpmc_room q (Suc n)" and "length (mpmc_tasks q) < unat (q_capacity q)"
  shows "\<exists>q'. tryEnqueue (Some x) q = Some (True, q') \<and> mpmc_inv q' \<and> mpmc_tasks q' = mpmc_tasks q @ [x]
      \<and> unat (q_capacity q') = unat (q_capacity q) \<and> mpmc_room q' n"
proof -
  have ok: "mpmc_ok q" using inv by (simp add: mpmc_inv_def)
  have fr: "mpmc_fresh q" using room by (rule mpmc_room_fresh)
  have len: "length (mpmc_list q) < unat (q_capacity q)" using assms(3) by simp
  obtain q' where q': "tryEnqueue (Some x) q = Some (True, q')" "mpmc_ok q'"
      "mpmc_list q' = mpmc_list q @ [Some x]" "q_capacity q' = q_capacity q"
      "m_enqueuePos q' = m_enqueuePos q + 1"
    by (rule tryEnqueue_room [OF ok fr len])
  have e: "unat (m_enqueuePos q') = unat (m_enqueuePos q) + 1" unfolding q'(5) by (rule mpmc_okE(4) [OF ok fr])
  have r: "mpmc_room q' n" using room unfolding mpmc_room_def e q'(4) by simp
  have "mpmc_list q' = map Some (mpmc_tasks q @ [x])" using q'(3) mpmc_list_tasks [OF inv] by simp
  note mpmc_tasksI [OF q'(2) this]
  then show ?thesis using q'(1,4) r by (intro exI [of _ q'] conjI) simp_all
qed

lemma tryDequeue_tasks:
  assumes inv: "mpmc_inv q" and room: "mpmc_room q n" and x: "mpmc_tasks q = x # xs"
  shows "\<exists>q'. tryDequeue q = Some (Some x, q') \<and> mpmc_inv q' \<and> mpmc_tasks q' = xs
      \<and> unat (q_capacity q') = unat (q_capacity q) \<and> mpmc_room q' n"
proof -
  have ok: "mpmc_ok q" using inv by (simp add: mpmc_inv_def)
  have l: "mpmc_list q = Some x # map Some xs" using x mpmc_list_tasks [OF inv] by simp
  then have ne: "mpmc_list q \<noteq> []" by simp
  obtain q' where q': "tryDequeue q = Some (hd (mpmc_list q), q')" "mpmc_ok q'"
      "mpmc_list q' = tl (mpmc_list q)" "q_capacity q' = q_capacity q" "m_enqueuePos q' = m_enqueuePos q"
    by (rule tryDequeue_nonempty [OF ok mpmc_room_fresh [OF room] ne])
  have r: "mpmc_room q' n" using room unfolding mpmc_room_def q'(4,5) .
  have "mpmc_list q' = map Some xs" using q'(3) l by simp
  note mpmc_tasksI [OF q'(2) this]
  then show ?thesis using q'(1,4) r l by (intro exI [of _ q'] conjI) simp_all
qed

interpretation mpmc: bounded_fifo "\<lambda>n. tryEnqueue (Some n)" tryDequeue mpmc_tasks
  "\<lambda>q. unat (q_capacity q)" mpmc_inv mpmc_room
proof (unfold_locales, goal_cases)
  case (1 q n x)
  then show ?case using tryEnqueue_full [of q "Some x"] mpmc_room_fresh [of q n] by (simp add: mpmc_inv_def)
next
  case (2 q n x)
  then show ?case by (rule tryEnqueue_tasks)
next
  case (3 q n)
  then show ?case using tryDequeue_empty [of q] mpmc_room_fresh [of q n] by (simp add: mpmc_inv_def mpmc_tasks_def)
next
  case (4 q n x xs)
  then show ?case by (rule tryDequeue_tasks)
next
  case (5 q)
  then show ?case by (auto simp: mpmc_list_length mpmc_inv_def mpmc_ok_def)
qed

lemma mpmc_size_list: "mpmc_ok q \<Longrightarrow> unat (mpmc_size q) = length (mpmc_list q)"
  by (auto simp: mpmc_size_def Let_def mpmc_list_length unat_diff_le word_nat_order)

lemma mpmc_empty_list: "mpmc_ok q \<Longrightarrow> mpmc_empty q \<longleftrightarrow> mpmc_list q = []"
  by (auto simp: mpmc_empty_def mpmc_list_def mpmc_ok_def word_nat_order)

lemma MpmcTaskQueue_new_inv:
  assumes "unat capacity \<le> 2 ^ 62"
  shows "mpmc_inv (MpmcTaskQueue_new capacity)" and "mpmc_tasks (MpmcTaskQueue_new capacity) = []"
  using MpmcTaskQueue_new_ok [OF assms] by (auto simp: mpmc_inv_def mpmc_tasks_def)

section \<open>Properties\<close>

text \<open>A producer that stops at the first refusal, and the loop that empties a queue.\<close>

fun enqueue_all :: "node_id list \<Rightarrow> mpmc_queue \<Rightarrow> mpmc_queue option" where
  "enqueue_all [] q = Some q"
| "enqueue_all (x # xs) q =
     (case tryEnqueue (Some x) q of Some (True, q') \<Rightarrow> enqueue_all xs q' | _ \<Rightarrow> None)"

fun drain_queue :: "nat \<Rightarrow> mpmc_queue \<Rightarrow> (node_id list \<times> mpmc_queue) option" where
  "drain_queue 0 q = None"
| "drain_queue (Suc n) q =
     (case tryDequeue q of None \<Rightarrow> None
      | Some (None, q') \<Rightarrow> Some ([], q')
      | Some (Some x, q') \<Rightarrow> (case drain_queue n q' of None \<Rightarrow> None | Some (xs, q'') \<Rightarrow> Some (x # xs, q'')))"

lemma enqueue_all_is: "enqueue_all xs q = mpmc.enq_all xs q"
  by (induction xs arbitrary: q) (auto split: option.split bool.split)

lemma drain_queue_is: "drain_queue n q = mpmc.deq_all n q"
  by (induction n arbitrary: q) (auto split: option.split)

lemmas enqueue_all_ok = mpmc.enq_all_ok [folded enqueue_all_is]
lemmas drain_queue_ok = mpmc.deq_all_ok [folded drain_queue_is]

text \<open>
  C8: The bounded queue is FIFO and loses nothing. From an empty queue, any list of tasks that
  fits the capacity is taken without a refusal, and dequeuing until the queue reports empty
  returns exactly that list, in that order; no call spins.
\<close>

theorem mpmc_fifo:
  assumes "mpmc_inv q" and "mpmc_tasks q = []" and "mpmc_room q (length xs)"
    and "length xs \<le> unat (q_capacity q)" and "length xs < fuel"
  shows "\<exists>q' q''. enqueue_all xs q = Some q' \<and> mpmc_tasks q' = xs
    \<and> drain_queue fuel q' = Some (xs, q'') \<and> mpmc_inv q'' \<and> mpmc_tasks q'' = []"
proof -
  obtain q' where q': "enqueue_all xs q = Some q'" "mpmc_inv q'" "mpmc_tasks q' = xs" "mpmc_room q' 0"
    using enqueue_all_ok [of q xs 0] assms by auto
  then show ?thesis using drain_queue_ok [of q' 0 fuel] assms(5) by auto
qed

theorem mpmc_fifo_witness:
  "\<exists>q' q''. enqueue_all [9, 2, 7] (MpmcTaskQueue_new 4) = Some q' \<and> mpmc_tasks q' = [9, 2, 7]
    \<and> drain_queue 4 q' = Some ([9, 2, 7], q'') \<and> mpmc_inv q'' \<and> mpmc_tasks q'' = []"
proof (rule mpmc_fifo)
  have c: "unat (q_capacity (MpmcTaskQueue_new 4)) = 16" "m_enqueuePos (MpmcTaskQueue_new 4) = 0"
    using MpmcTaskQueue_new_ok(3,4) [of 4] by (simp_all add: bit_ceil_def bit_ceil_from.simps)
  show "mpmc_inv (MpmcTaskQueue_new 4)" "mpmc_tasks (MpmcTaskQueue_new 4) = []"
    using MpmcTaskQueue_new_inv [of 4] by simp_all
  show "mpmc_room (MpmcTaskQueue_new 4) (length [9, 2, 7])" "length [9, 2, 7] \<le> unat (q_capacity (MpmcTaskQueue_new 4))"
    using c by (simp_all add: mpmc_room_def)
qed simp

text \<open>
  C9: \<open>tryEnqueue\<close> refuses exactly when the queue holds as many tasks as it has cells, and a
  refused call leaves the queue as it was; \<open>empty\<close> and \<open>size\<close> agree with the list of tasks.
\<close>

theorem mpmc_refuses_iff_full:
  assumes "mpmc_inv q" and "mpmc_room q 1"
  shows "(tryEnqueue (Some x) q = Some (False, q)) = (length (mpmc_tasks q) = unat (q_capacity q))
    \<and> length (mpmc_tasks q) \<le> unat (q_capacity q)
    \<and> mpmc_empty q = (mpmc_tasks q = []) \<and> unat (mpmc_size q) = length (mpmc_tasks q)"
  using assms mpmc.enq_refused_iff [of q 0 x] mpmc.enq_full [of q 1 x] mpmc.bounded [of q]
    mpmc_size_list [of q] mpmc_empty_list [of q]
  by (auto simp: mpmc_inv_def mpmc_tasks_def)

theorem mpmc_refuses_iff_full_witness:
  "tryEnqueue (Some 3) (MpmcTaskQueue_new 4) \<noteq> Some (False, MpmcTaskQueue_new 4)"
proof -
  have c: "unat (q_capacity (MpmcTaskQueue_new 4)) = 16" "m_enqueuePos (MpmcTaskQueue_new 4) = 0"
    using MpmcTaskQueue_new_ok(3,4) [of 4] by (simp_all add: bit_ceil_def bit_ceil_from.simps)
  then have "mpmc_room (MpmcTaskQueue_new 4) 1" by (simp add: mpmc_room_def)
  then show ?thesis
    using mpmc_refuses_iff_full [of "MpmcTaskQueue_new 4" 3] MpmcTaskQueue_new_inv [of 4] c by simp
qed

end
