(* ===== verification/Dual_Queue.thy ===== *)
theory Dual_Queue
  imports Chase_Lev Task_Types
begin

text \<open>
  The dual-priority queue of a worker (\<open>DualPriorityQueue\<close> of \<^verbatim>\<open>chase_lev_deque.hpp\<close> and
  \<^verbatim>\<open>chase_lev_deque.cpp\<close>): two Chase-Lev deques, the high one drained first by the owner and by
  thieves alike.
\<close>

section \<open>State and operations\<close>

record dual_queue =
  m_high :: chase_lev
  m_normal :: chase_lev

definition DualPriorityQueue_new :: "usize \<Rightarrow> dual_queue" where
  "DualPriorityQueue_new initialCapacity =
     \<lparr>m_high = ChaseLevDeque_new initialCapacity, m_normal = ChaseLevDeque_new initialCapacity\<rparr>"

definition dual_push :: "node_ptr \<Rightarrow> TaskPriority \<Rightarrow> dual_queue \<Rightarrow> dual_queue" where
  "dual_push task priority q =
     (if priority = High then q\<lparr>m_high := pushBottom task (m_high q)\<rparr>
      else q\<lparr>m_normal := pushBottom task (m_normal q)\<rparr>)"

definition dual_pop :: "dual_queue \<Rightarrow> node_ptr \<times> dual_queue" where
  "dual_pop q =
     (let (task, h) = popBottom (m_high q); q = q\<lparr>m_high := h\<rparr>
      in if task \<noteq> None then (task, q)
         else let (task, n) = popBottom (m_normal q) in (task, q\<lparr>m_normal := n\<rparr>))"

definition dual_steal :: "dual_queue \<Rightarrow> node_ptr \<times> dual_queue" where
  "dual_steal q =
     (let (task, h) = stealTop (m_high q); q = q\<lparr>m_high := h\<rparr>
      in if task \<noteq> None then (task, q)
         else let (task, n) = stealTop (m_normal q) in (task, q\<lparr>m_normal := n\<rparr>))"

definition dual_stealBatch_span :: "usize \<Rightarrow> dual_queue \<Rightarrow> node_ptr list \<times> dual_queue" where
  "dual_stealBatch_span n q =
     (let (stolen, h) = stealBatch_span n (m_high q); q = q\<lparr>m_high := h\<rparr>
      in if 0 < length stolen then (stolen, q)
         else let (stolen, l) = stealBatch_span n (m_normal q) in (stolen, q\<lparr>m_normal := l\<rparr>))"

definition dual_stealBatch_into :: "dual_queue \<Rightarrow> dual_queue \<Rightarrow> usize \<times> dual_queue \<times> dual_queue" where
  "dual_stealBatch_into q destination =
     (let (stolen, h, dh) = stealBatch_into (m_high q) (m_high destination);
          q = q\<lparr>m_high := h\<rparr>;
          destination = destination\<lparr>m_high := dh\<rparr>
      in if 0 < stolen then (stolen, q, destination)
         else
           let (stolen, l, dl) = stealBatch_into (m_normal q) (m_normal destination)
           in (stolen, q\<lparr>m_normal := l\<rparr>, destination\<lparr>m_normal := dl\<rparr>))"

definition dual_empty :: "dual_queue \<Rightarrow> bool" where
  "dual_empty q \<longleftrightarrow> deque_empty (m_high q) \<and> deque_empty (m_normal q)"

definition dual_size :: "dual_queue \<Rightarrow> usize" where
  "dual_size q = deque_size (m_high q) + deque_size (m_normal q)"

definition dual_deque :: "TaskPriority \<Rightarrow> dual_queue \<Rightarrow> chase_lev" where
  "dual_deque priority q = (if priority = High then m_high q else m_normal q)"

section \<open>Abstraction\<close>

definition dual_inv :: "dual_queue \<Rightarrow> bool" where
  "dual_inv q \<longleftrightarrow> deque_inv (m_high q) \<and> deque_inv (m_normal q)"

text \<open>All tasks of the queue.\<close>

definition dual_tasks :: "dual_queue \<Rightarrow> node_id list" where
  "dual_tasks q = deque_tasks (m_high q) @ deque_tasks (m_normal q)"

section \<open>High before Normal\<close>

lemma dual_push_tasks:
  assumes "dual_inv q" and "push_room (dual_deque p q)"
  shows "dual_inv (dual_push (Some x) p q)"
    and "deque_tasks (dual_deque p (dual_push (Some x) p q)) = deque_tasks (dual_deque p q) @ [x]"
    and "p' \<noteq> p \<Longrightarrow> dual_deque p' (dual_push (Some x) p q) = dual_deque p' q"
    and "mset (dual_tasks (dual_push (Some x) p q)) = add_mset x (mset (dual_tasks q))"
  using assms cld.push_invar cld.push_contents
  by (cases p; cases p'; simp add: dual_inv_def dual_push_def dual_deque_def dual_tasks_def)+

text \<open>What the owner's pop does, case by case.\<close>

lemma dual_pop_high:
  assumes "dual_inv q" and "deque_tasks (m_high q) \<noteq> []"
  shows "dual_pop q = (Some (last (deque_tasks (m_high q))), q\<lparr>m_high := snd (popBottom (m_high q))\<rparr>)"
  using assms cld.pop_last [of "m_high q"]
  by (simp add: dual_pop_def dual_inv_def split_beta Let_def)

lemma dual_pop_normal:
  assumes "dual_inv q" and "deque_tasks (m_high q) = []"
  shows "dual_pop q = (fst (popBottom (m_normal q)), q\<lparr>m_normal := snd (popBottom (m_normal q))\<rparr>)"
  using assms cld.pop_empty [of "m_high q"]
  by (simp add: dual_pop_def dual_inv_def split_beta Let_def)

lemma dual_steal_high:
  assumes "dual_inv q" and "deque_tasks (m_high q) \<noteq> []"
  shows "dual_steal q = (Some (hd (deque_tasks (m_high q))), q\<lparr>m_high := snd (stealTop (m_high q))\<rparr>)"
  using assms cld.steal_first [of "m_high q"]
  by (simp add: dual_steal_def dual_inv_def split_beta Let_def)

lemma dual_steal_normal:
  assumes "dual_inv q" and "deque_tasks (m_high q) = []"
  shows "dual_steal q = (fst (stealTop (m_normal q)), q\<lparr>m_normal := snd (stealTop (m_normal q))\<rparr>)"
  using assms cld.steal_empty [of "m_high q"]
  by (simp add: dual_steal_def dual_inv_def split_beta Let_def)

lemmas dual_pop_cases = dual_pop_high dual_pop_normal
lemmas dual_steal_cases = dual_steal_high dual_steal_normal

text \<open>The tasks a result pointer stands for.\<close>

abbreviation ptr_list :: "node_ptr \<Rightarrow> node_id list" where
  "ptr_list p \<equiv> (case p of None \<Rightarrow> [] | Some x \<Rightarrow> [x])"

lemma dual_pop_conserves:
  assumes "dual_inv q"
  shows "dual_inv (snd (dual_pop q))"
    and "mset (dual_tasks (snd (dual_pop q))) + mset (ptr_list (fst (dual_pop q))) = mset (dual_tasks q)"
    and "fst (dual_pop q) = None \<longleftrightarrow> dual_tasks q = []"
proof -
  have inv: "deque_inv (m_high q)" "deque_inv (m_normal q)" using assms by (auto simp: dual_inv_def)
  note h = cld.pop_mset [OF inv(1)] cld.pop_invar [OF inv(1)] cld.pop_last [OF inv(1)]
  note n = cld.pop_mset [OF inv(2)] cld.pop_invar [OF inv(2)] cld.pop_None_iff [OF inv(2)]
  show "dual_inv (snd (dual_pop q))"
    using assms inv h(2) n(2) dual_pop_cases by (cases "deque_tasks (m_high q) = []") (auto simp: dual_inv_def)
  show "mset (dual_tasks (snd (dual_pop q))) + mset (ptr_list (fst (dual_pop q))) = mset (dual_tasks q)"
  proof (cases "deque_tasks (m_high q) = []")
    case True
    then show ?thesis using n(1) dual_pop_normal [OF assms True] by (simp add: dual_tasks_def add_ac)
  next
    case False
    then show ?thesis using h(1,3) dual_pop_high [OF assms False] by (simp add: dual_tasks_def)
  qed
  show "fst (dual_pop q) = None \<longleftrightarrow> dual_tasks q = []"
    using assms n(3) dual_pop_cases by (cases "deque_tasks (m_high q) = []") (auto simp: dual_tasks_def)
qed

lemma dual_steal_conserves:
  assumes "dual_inv q"
  shows "dual_inv (snd (dual_steal q))"
    and "mset (dual_tasks (snd (dual_steal q))) + mset (ptr_list (fst (dual_steal q))) = mset (dual_tasks q)"
    and "fst (dual_steal q) = None \<longleftrightarrow> dual_tasks q = []"
proof -
  have inv: "deque_inv (m_high q)" "deque_inv (m_normal q)" using assms by (auto simp: dual_inv_def)
  note h = cld.steal_mset [OF inv(1)] cld.steal_invar [OF inv(1)] cld.steal_first [OF inv(1)]
  note n = cld.steal_mset [OF inv(2)] cld.steal_invar [OF inv(2)] cld.steal_None_iff [OF inv(2)]
  show "dual_inv (snd (dual_steal q))"
    using assms inv h(2) n(2) dual_steal_cases by (cases "deque_tasks (m_high q) = []") (auto simp: dual_inv_def)
  show "mset (dual_tasks (snd (dual_steal q))) + mset (ptr_list (fst (dual_steal q))) = mset (dual_tasks q)"
  proof (cases "deque_tasks (m_high q) = []")
    case True
    then show ?thesis using n(1) dual_steal_normal [OF assms True] by (simp add: dual_tasks_def add_ac)
  next
    case False
    then show ?thesis using h(1,3) dual_steal_high [OF assms False] by (simp add: dual_tasks_def)
  qed
  show "fst (dual_steal q) = None \<longleftrightarrow> dual_tasks q = []"
    using assms n(3) dual_steal_cases by (cases "deque_tasks (m_high q) = []") (auto simp: dual_tasks_def)
qed

section \<open>Batches between workers\<close>

text \<open>Room in both deques of the thief for a batch of at most 128 tasks.\<close>

definition dual_batch_room :: "dual_queue \<Rightarrow> bool" where
  "dual_batch_room q \<longleftrightarrow> push_room_n (m_high q) 128 \<and> push_room_n (m_normal q) 128"

lemma push_room_n_mono: "push_room_n d k \<Longrightarrow> j \<le> k \<Longrightarrow> push_room_n d j"
  by (auto simp: push_room_n_def)

lemma batch_count_bounds:
  "batch_count n k \<le> n" "batch_count n k \<le> k" "batch_count n k = 0 \<longleftrightarrow> n = 0 \<or> k = 0"
  by (auto simp: batch_count_def)

text \<open>
  One level of a batch steal: the count is zero exactly when the victim is empty, and tasks
  only move from the victim to the thief.
\<close>

lemma stealBatch_into_moves:
  assumes "deque_inv d" and "deque_inv dst" and "push_room_n dst 128"
    and st: "stealBatch_into d dst = (n, d', dst')"
  shows "deque_inv d'" and "deque_inv dst'" and "n = 0 \<longleftrightarrow> deque_tasks d = []"
    and "deque_tasks d = [] \<Longrightarrow> d' = d \<and> dst' = dst"
    and "deque_tasks d' = drop (unat n) (deque_tasks d)"
    and "deque_tasks dst' = deque_tasks dst @ take (unat n) (deque_tasks d)"
    and "unat n = batch_count 128 (length (deque_tasks d))"
proof -
  have room: "push_room_n dst (batch_count 128 (length (deque_tasks d)))"
    using assms(3) batch_count_bounds(1) by (rule push_room_n_mono)
  note r = stealBatch_into_tasks [OF assms(1,2) room st]
  show "deque_inv d'" "deque_inv dst'" "deque_tasks d' = drop (unat n) (deque_tasks d)"
    "deque_tasks dst' = deque_tasks dst @ take (unat n) (deque_tasks d)"
    "unat n = batch_count 128 (length (deque_tasks d))" using r by auto
  have "unat n = 0 \<longleftrightarrow> deque_tasks d = []" using r(1) batch_count_bounds(3) [of 128] by auto
  then show "n = 0 \<longleftrightarrow> deque_tasks d = []" by (simp add: unat_eq_zero)
  assume e: "deque_tasks d = []"
  then have "m_bottom d \<le> m_top d"
    using assms(1) deque_empty_list [of d] by (simp add: deque_tasks_Nil_iff deque_empty_def deque_inv_def)
  then have "stealBatch_span 128 d = ([], d)" by (simp add: stealBatch_span_def Let_def)
  then show "d' = d \<and> dst' = dst" using st by (simp add: stealBatch_into_def)
qed

lemma dual_stealBatch_into_moves:
  assumes inv: "dual_inv q" "dual_inv dst" and room: "dual_batch_room dst"
    and st: "dual_stealBatch_into q dst = (n, q', dst')"
  shows "dual_inv q'" and "dual_inv dst'"
    and "n = 0 \<longleftrightarrow> dual_tasks q = []"
    and "mset (dual_tasks q') + mset (dual_tasks dst') = mset (dual_tasks q) + mset (dual_tasks dst)"
    and "length (dual_tasks dst') = length (dual_tasks dst) + unat n"
    and "deque_tasks (m_high q) \<noteq> [] \<Longrightarrow> m_normal q' = m_normal q \<and> m_normal dst' = m_normal dst"
proof -
  obtain a h dh where H: "stealBatch_into (m_high q) (m_high dst) = (a, h, dh)" by (metis prod_cases3)
  obtain b l dl where L: "stealBatch_into (m_normal q) (m_normal dst) = (b, l, dl)" by (metis prod_cases3)
  have rooms: "push_room_n (m_high dst) 128" "push_room_n (m_normal dst) 128"
    using room by (auto simp: dual_batch_room_def)
  have invs: "deque_inv (m_high q)" "deque_inv (m_normal q)" "deque_inv (m_high dst)" "deque_inv (m_normal dst)"
    using inv by (auto simp: dual_inv_def)
  note h = stealBatch_into_moves [OF invs(1,3) rooms(1) H]
  note l = stealBatch_into_moves [OF invs(2,4) rooms(2) L]
  have cases: "(n, q', dst') = (if 0 < a then (a, q\<lparr>m_high := h\<rparr>, dst\<lparr>m_high := dh\<rparr>)
      else (b, q\<lparr>m_high := h, m_normal := l\<rparr>, dst\<lparr>m_high := dh, m_normal := dl\<rparr>))"
    using st H L by (cases "0 < a") (simp_all add: dual_stealBatch_into_def Let_def)
  have apos: "0 < a \<longleftrightarrow> deque_tasks (m_high q) \<noteq> []" using h(3) by (auto simp: word_gt_0)
  show "dual_inv q'" "dual_inv dst'"
    using cases invs h(1,2) l(1,2) by (auto simp: dual_inv_def split: if_splits)
  show "n = 0 \<longleftrightarrow> dual_tasks q = []"
    using cases apos h(3) l(3) by (auto simp: dual_tasks_def split: if_splits)
  have move: "mset (drop k xs) + mset (ys @ take k xs) = mset xs + mset ys" for k and xs ys :: "node_id list"
    by (metis append_take_drop_id mset_append union_commute union_lcomm)
  show "mset (dual_tasks q') + mset (dual_tasks dst') = mset (dual_tasks q) + mset (dual_tasks dst)"
    using cases apos h(4-6) l(5,6) move [of "unat a" "deque_tasks (m_high q)" "deque_tasks (m_high dst)"]
      move [of "unat b" "deque_tasks (m_normal q)" "deque_tasks (m_normal dst)"]
    by (auto simp: dual_tasks_def add_ac split: if_splits)
  show "length (dual_tasks dst') = length (dual_tasks dst) + unat n"
    using cases apos h(4,6,7) l(6,7) batch_count_bounds(2)
    by (auto simp: dual_tasks_def min_absorb2 split: if_splits)
  show "deque_tasks (m_high q) \<noteq> [] \<Longrightarrow> m_normal q' = m_normal q \<and> m_normal dst' = m_normal dst"
    using cases apos by auto
qed

lemma dual_empty_tasks: "dual_inv q \<Longrightarrow> dual_empty q \<longleftrightarrow> dual_tasks q = []"
  by (simp add: dual_empty_def dual_inv_def deque_inv_def deque_empty_list dual_tasks_def deque_tasks_Nil_iff)

lemma dual_size_tasks: "dual_inv q \<Longrightarrow> unat (dual_size q) = length (dual_tasks q)"
proof -
  assume inv: "dual_inv q"
  have small: "unat (deque_size d) = length (deque_tasks d) \<and> length (deque_tasks d) \<le> 2 ^ 32"
    if "deque_inv d" for d
    using that deque_size_list [of d] deque_list_length [of d] unsigned_less [of "m_bottom d", where 'a = nat]
    by (auto simp: deque_inv_def deque_tasks_def)
  show ?thesis
    using inv small [of "m_high q"] small [of "m_normal q"]
      unat_add_lt [of "deque_size (m_high q)" "deque_size (m_normal q)"]
    by (simp add: dual_size_def dual_tasks_def dual_inv_def)
qed

lemma DualPriorityQueue_new_inv:
  assumes "unat cap \<le> 2 ^ 31"
  shows "dual_inv (DualPriorityQueue_new cap)" and "dual_tasks (DualPriorityQueue_new cap) = []"
  using ChaseLevDeque_new_ok [OF assms]
  by (auto simp: DualPriorityQueue_new_def dual_inv_def deque_inv_def dual_tasks_def deque_tasks_def)

section \<open>Properties\<close>

text \<open>
  C12: Strict priority with no loss. The owner's pop returns the newest high task when there is
  one and the newest normal task otherwise, a thief's steal the oldest high task or else the
  oldest normal one; null means both deques are empty; and what is left with what is
  returned is what was there.
\<close>

theorem dual_strict_priority:
  assumes "dual_inv q"
  shows "fst (dual_pop q) = (if deque_tasks (m_high q) \<noteq> [] then Some (last (deque_tasks (m_high q)))
           else if deque_tasks (m_normal q) \<noteq> [] then Some (last (deque_tasks (m_normal q))) else None)
    \<and> mset (dual_tasks (snd (dual_pop q))) + mset (ptr_list (fst (dual_pop q))) = mset (dual_tasks q)
    \<and> fst (dual_steal q) = (if deque_tasks (m_high q) \<noteq> [] then Some (hd (deque_tasks (m_high q)))
           else if deque_tasks (m_normal q) \<noteq> [] then Some (hd (deque_tasks (m_normal q))) else None)
    \<and> mset (dual_tasks (snd (dual_steal q))) + mset (ptr_list (fst (dual_steal q))) = mset (dual_tasks q)
    \<and> dual_inv (snd (dual_pop q)) \<and> dual_inv (snd (dual_steal q))"
proof -
  have n: "deque_inv (m_normal q)" using assms by (simp add: dual_inv_def)
  show ?thesis
    using dual_pop_cases [OF assms] dual_steal_cases [OF assms] dual_pop_conserves [OF assms]
      dual_steal_conserves [OF assms] cld.pop_empty [OF n] cld.pop_last [OF n] cld.steal_empty [OF n]
      cld.steal_first [OF n]
    by auto
qed

theorem dual_strict_priority_witness:
  "fst (dual_pop \<lparr>m_high = fold pushBottom (map Some [1, 2]) (ChaseLevDeque_new 16),
                   m_normal = fold pushBottom (map Some [3]) (ChaseLevDeque_new 16)\<rparr>) = Some 2"
  using dual_strict_priority [of "\<lparr>m_high = fold pushBottom (map Some [1, 2]) (ChaseLevDeque_new 16),
                   m_normal = fold pushBottom (map Some [3]) (ChaseLevDeque_new 16)\<rparr>"]
    new_pushed [of "[1, 2]"] new_pushed [of "[3]"]
  by (simp add: dual_inv_def)

text \<open>
  A batch steal between two workers moves tasks and neither loses nor copies one: the
  victim's and the thief's tasks together are the same before and after. It reports the number
  it moved, zero exactly when the victim has no task, and touches the normal deques only when
  the victim has no high task.
\<close>

theorem dual_batch_conserves:
  assumes "dual_inv q" and "dual_inv dst" and "dual_batch_room dst"
    and "dual_stealBatch_into q dst = (n, q', dst')"
  shows "mset (dual_tasks q') + mset (dual_tasks dst') = mset (dual_tasks q) + mset (dual_tasks dst)
    \<and> length (dual_tasks dst') = length (dual_tasks dst) + unat n
    \<and> (n = 0 \<longleftrightarrow> dual_tasks q = [])
    \<and> (deque_tasks (m_high q) \<noteq> [] \<longrightarrow> m_normal q' = m_normal q \<and> m_normal dst' = m_normal dst)
    \<and> dual_inv q' \<and> dual_inv dst'"
  using dual_stealBatch_into_moves [OF assms] by blast

theorem dual_batch_conserves_witness:
  "case dual_stealBatch_into \<lparr>m_high = fold pushBottom (map Some [1, 2, 3]) (ChaseLevDeque_new 16),
            m_normal = ChaseLevDeque_new 16\<rparr> (DualPriorityQueue_new 16) of
     (n, q', dst') \<Rightarrow> n \<noteq> 0 \<and> mset (dual_tasks q') + mset (dual_tasks dst') = {#1, 2, 3#}"
proof -
  let ?q = "\<lparr>m_high = fold pushBottom (map Some [1, 2, 3]) (ChaseLevDeque_new 16), m_normal = ChaseLevDeque_new 16\<rparr>"
  have q: "dual_inv ?q" "dual_tasks ?q = [1, 2, 3]"
    using new_pushed [of "[1, 2, 3]"] new_pushed [of "[]"] by (simp_all add: dual_inv_def dual_tasks_def)
  have d: "dual_inv (DualPriorityQueue_new 16)" "dual_tasks (DualPriorityQueue_new 16) = []"
    using DualPriorityQueue_new_inv [of 16] by simp_all
  have "dual_batch_room (DualPriorityQueue_new 16)"
    using ChaseLevDeque_new_ok(2) [of 16]
    by (simp add: dual_batch_room_def push_room_n_def DualPriorityQueue_new_def)
      (simp add: ChaseLevDeque_new_def Let_def)
  then show ?thesis
    using dual_batch_conserves [OF q(1) d(1)] q(2) d(2) by (fastforce split: prod.split)
qed

end
