(* ===== verification/Block_Pool.thy ===== *)
theory Block_Pool
  imports LF_Base
begin

text \<open>
  The block pool of \<^verbatim>\<open>memory_pool.hpp\<close> and \<^verbatim>\<open>memory_pool.cpp\<close>: 64 KB slabs cut from chunks, the
  free list threaded through the slab headers, growth, the pool over a fixed buffer, move,
  destruction, and the process-wide pool.

  Memory is explicit: \<open>slab_next\<close> is the \<open>next\<close> field of the slab header at an address, and
  \<open>world\<close> is whatever the memory callbacks act on. The callbacks are not part of the library:
  they are fields of the callback record and the theorems name what they rely on.
  \<open>new (std::nothrow) Chunk\<close> may fail; the argument \<open>new_ok\<close> says whether it succeeds. The
  growth lock serialises concurrent growers only: a call that runs alone takes it and
  releases it on every path, so the sequential model leaves it out.
\<close>

section \<open>State\<close>

definition HEADER_SIZE :: usize where
  [lf_consts]: "HEADER_SIZE = CACHELINE_SIZE"

definition PAYLOAD_SIZE :: usize where
  [lf_consts]: "PAYLOAD_SIZE = SLAB_SIZE - HEADER_SIZE"

definition payload :: "u64 \<Rightarrow> u64" where
  "payload slab = slab + HEADER_SIZE"

definition DEFAULT_INITIAL_SLABS :: usize where
  [lf_consts]: "DEFAULT_INITIAL_SLABS = 256"

definition DEFAULT_CHUNK_SLABS :: usize where
  [lf_consts]: "DEFAULT_CHUNK_SLABS = 256"

record tagged_slab =
  ptr :: u64
  tag :: u64

record 'w memory_callbacks =
  cb_alloc :: "(usize \<Rightarrow> usize \<Rightarrow> 'w \<Rightarrow> u64 \<times> 'w) option"
  cb_free :: "(u64 \<Rightarrow> usize \<Rightarrow> usize \<Rightarrow> 'w \<Rightarrow> 'w) option"

definition null_callbacks :: "'w memory_callbacks" where
  "null_callbacks = \<lparr>cb_alloc = None, cb_free = None\<rparr>"

definition is_valid :: "'w memory_callbacks \<Rightarrow> bool" where
  "is_valid cb \<longleftrightarrow> \<not> Option.is_none (cb_alloc cb) \<and> \<not> Option.is_none (cb_free cb)"

record 'w memory =
  slab_next :: "u64 \<Rightarrow> u64"
  world :: 'w

record chunk =
  base_ptr :: u64
  slab_count :: usize
  is_owned :: bool

text \<open>\<open>m_chunks\<close> is the linked list of chunks, newest first.\<close>

record 'w block_pool =
  m_head :: tagged_slab
  m_available_slabs :: usize
  m_total_slabs :: usize
  m_chunk_count :: usize
  m_chunk_slabs :: usize
  m_allow_growth :: bool
  m_callbacks :: "'w memory_callbacks"
  m_chunks :: "chunk list"

section \<open>Operations\<close>

text \<open>Calls through the function pointers; the callers test them for null first.\<close>

definition call_alloc :: "'w memory_callbacks \<Rightarrow> usize \<Rightarrow> usize \<Rightarrow> 'w memory \<Rightarrow> u64 \<times> 'w memory" where
  "call_alloc cb bytes alignment m =
     (case cb_alloc cb of None \<Rightarrow> (0, m)
      | Some f \<Rightarrow> let (p, w) = f bytes alignment (world m) in (p, m\<lparr>world := w\<rparr>))"

definition call_free :: "'w memory_callbacks \<Rightarrow> u64 \<Rightarrow> usize \<Rightarrow> usize \<Rightarrow> 'w memory \<Rightarrow> 'w memory" where
  "call_free cb p bytes alignment m =
     (case cb_free cb of None \<Rightarrow> m | Some f \<Rightarrow> m\<lparr>world := f p bytes alignment (world m)\<rparr>)"

definition slab_addr :: "u64 \<Rightarrow> nat \<Rightarrow> u64" where
  "slab_addr base i = base + of_nat i * SLAB_SIZE"

definition partition_slab_chain :: "u64 \<Rightarrow> usize \<Rightarrow> (u64 \<Rightarrow> u64) \<Rightarrow> (u64 \<Rightarrow> u64)" where
  "partition_slab_chain base n_slabs nx =
     fold (\<lambda>i nx. nx(slab_addr base i := if i + 1 < unat n_slabs then slab_addr base (i + 1) else 0))
       [0..<unat n_slabs] nx"

definition empty_pool :: "usize \<Rightarrow> bool \<Rightarrow> 'w memory_callbacks \<Rightarrow> 'w block_pool" where
  "empty_pool chunk_slabs allow_growth cb =
     \<lparr>m_head = \<lparr>ptr = 0, tag = 0\<rparr>, m_available_slabs = 0, m_total_slabs = 0, m_chunk_count = 0,
      m_chunk_slabs = chunk_slabs, m_allow_growth = allow_growth, m_callbacks = cb, m_chunks = []\<rparr>"

definition BlockPool_new ::
  "bool \<Rightarrow> 'w memory_callbacks \<Rightarrow> usize \<Rightarrow> usize \<Rightarrow> bool \<Rightarrow> 'w memory \<Rightarrow> 'w block_pool \<times> 'w memory" where
  "BlockPool_new new_ok cb initial_slabs chunk_slabs allow_growth m =
     (let p = empty_pool (if 0 < chunk_slabs then chunk_slabs else DEFAULT_CHUNK_SLABS) allow_growth cb
      in if \<not> is_valid cb then (p\<lparr>m_allow_growth := False\<rparr>, m)
         else if 0 < initial_slabs then
           let total_bytes = initial_slabs * SLAB_SIZE;
               (raw_mem, m) = call_alloc cb total_bytes SLAB_SIZE m
           in if raw_mem \<noteq> 0 then
                if \<not> new_ok then (p, call_free cb raw_mem total_bytes SLAB_SIZE m)
                else (p\<lparr>m_chunks := [\<lparr>base_ptr = raw_mem, slab_count = initial_slabs, is_owned = True\<rparr>],
                         m_head := \<lparr>ptr = raw_mem, tag = 0\<rparr>,
                         m_available_slabs := initial_slabs,
                         m_total_slabs := initial_slabs,
                         m_chunk_count := 1\<rparr>,
                      m\<lparr>slab_next := partition_slab_chain raw_mem initial_slabs (slab_next m)\<rparr>)
              else (p, m)
         else (p, m))"

definition from_buffer :: "bool \<Rightarrow> u64 \<Rightarrow> usize \<Rightarrow> 'w memory \<Rightarrow> 'w block_pool \<times> 'w memory" where
  "from_buffer new_ok buffer bytes m =
     (let p = empty_pool 0 False null_callbacks;
          aligned_addr = (if buffer \<noteq> 0 then align_up buffer SLAB_SIZE else 0);
          offset = (if buffer \<noteq> 0 then aligned_addr - buffer else 0);
          usable_bytes = (if buffer \<noteq> 0 \<and> offset \<le> bytes then bytes - offset else 0);
          slab_count = usable_bytes div SLAB_SIZE
      in if slab_count = 0 then (p, m)
         else (p\<lparr>m_chunks := (if new_ok
                    then [\<lparr>base_ptr = aligned_addr, slab_count = slab_count, is_owned = False\<rparr>] else []),
                  m_head := \<lparr>ptr = aligned_addr, tag = 0\<rparr>,
                  m_available_slabs := slab_count,
                  m_total_slabs := slab_count,
                  m_chunk_count := 1\<rparr>,
               m\<lparr>slab_next := partition_slab_chain aligned_addr slab_count (slab_next m)\<rparr>))"

text \<open>The move constructor: the new pool and what is left of the old one.\<close>

definition BlockPool_move :: "'w block_pool \<Rightarrow> 'w block_pool \<times> 'w block_pool" where
  "BlockPool_move other =
     (other,
      other\<lparr>m_head := \<lparr>ptr = 0, tag = 0\<rparr>, m_available_slabs := 0, m_total_slabs := 0,
            m_chunk_count := 0, m_chunks := [], m_allow_growth := False\<rparr>)"

definition free_chunk :: "'w block_pool \<Rightarrow> chunk \<Rightarrow> 'w memory \<Rightarrow> 'w memory" where
  "free_chunk p c m =
     (if is_owned c \<and> \<not> Option.is_none (cb_free (m_callbacks p)) \<and> base_ptr c \<noteq> 0
      then call_free (m_callbacks p) (base_ptr c) (slab_count c * SLAB_SIZE) SLAB_SIZE m
      else m)"

definition BlockPool_destroy :: "'w block_pool \<Rightarrow> 'w memory \<Rightarrow> 'w memory" where
  "BlockPool_destroy p m = fold (free_chunk p) (m_chunks p) m"

text \<open>The compare-exchange loop of \<open>acquire_slab\<close> on a free list that is not empty.\<close>

definition pop_head :: "'w block_pool \<Rightarrow> 'w memory \<Rightarrow> u64 \<times> 'w block_pool \<times> 'w memory" where
  "pop_head p m =
     (let current = m_head p;
          next_ptr = slab_next m (ptr current);
          next_head = \<lparr>ptr = next_ptr, tag = tag current + 1\<rparr>
      in (ptr current,
          p\<lparr>m_head := next_head, m_available_slabs := m_available_slabs p - 1\<rparr>,
          m\<lparr>slab_next := (slab_next m)(ptr current := 0)\<rparr>))"

definition release_slab_chain :: "u64 \<Rightarrow> u64 \<Rightarrow> usize \<Rightarrow> 'w block_pool \<Rightarrow> 'w memory \<Rightarrow> 'w block_pool \<times> 'w memory" where
  "release_slab_chain head tail n_slabs p m =
     (if head = 0 \<or> tail = 0 \<or> n_slabs = 0 then (p, m)
      else
        let current = m_head p
        in (p\<lparr>m_head := \<lparr>ptr = head, tag = tag current + 1\<rparr>,
               m_available_slabs := m_available_slabs p + n_slabs\<rparr>,
            m\<lparr>slab_next := (slab_next m)(tail := ptr current)\<rparr>))"

definition release_slab :: "u64 \<Rightarrow> 'w block_pool \<Rightarrow> 'w memory \<Rightarrow> 'w block_pool \<times> 'w memory" where
  "release_slab slab p m = release_slab_chain slab slab 1 p m"

definition allocate_chunk_and_acquire ::
  "bool \<Rightarrow> 'w block_pool \<Rightarrow> 'w memory \<Rightarrow> u64 \<times> 'w block_pool \<times> 'w memory" where
  "allocate_chunk_and_acquire new_ok p m =
     (if \<not> is_valid (m_callbacks p) then (0, p, m)
      else if ptr (m_head p) \<noteq> 0 then pop_head p m
      else
        let count = m_chunk_slabs p;
            total_bytes = count * SLAB_SIZE;
            (raw_mem, m) = call_alloc (m_callbacks p) total_bytes SLAB_SIZE m
        in if raw_mem = 0 then (0, p, m)
           else if \<not> new_ok then (0, p, call_free (m_callbacks p) raw_mem total_bytes SLAB_SIZE m)
           else
             let p = p\<lparr>m_chunks := \<lparr>base_ptr = raw_mem, slab_count = count, is_owned = True\<rparr> # m_chunks p,
                       m_total_slabs := m_total_slabs p + count,
                       m_chunk_count := m_chunk_count p + 1\<rparr>;
                 m = m\<lparr>slab_next := (slab_next m)(raw_mem := 0)\<rparr>
             in if 1 < count then
                  let rest_count = count - 1;
                      rest_base = raw_mem + SLAB_SIZE;
                      m = m\<lparr>slab_next := partition_slab_chain rest_base rest_count (slab_next m)\<rparr>;
                      (p, m) = release_slab_chain rest_base (rest_base + (rest_count - 1) * SLAB_SIZE) rest_count p m
                  in (raw_mem, p, m)
                else (raw_mem, p, m))"

definition acquire_slab :: "bool \<Rightarrow> 'w block_pool \<Rightarrow> 'w memory \<Rightarrow> u64 \<times> 'w block_pool \<times> 'w memory" where
  "acquire_slab new_ok p m =
     (if ptr (m_head p) \<noteq> 0 then pop_head p m
      else if m_allow_growth p then allocate_chunk_and_acquire new_ok p m
      else (0, p, m))"

section \<open>The process-wide pool\<close>

record 'w global_pool =
  s_globalCallbacks :: "'w memory_callbacks"
  s_globalPoolInitialized :: bool
  s_globalPool :: "'w block_pool option"

definition resolve_default_callbacks :: "'w global_pool \<Rightarrow> 'w memory_callbacks" where
  "resolve_default_callbacks g =
     (if is_valid (s_globalCallbacks g) then s_globalCallbacks g else null_callbacks)"

definition BlockPool_default ::
  "bool \<Rightarrow> 'w global_pool \<Rightarrow> usize \<Rightarrow> usize \<Rightarrow> bool \<Rightarrow> 'w memory \<Rightarrow> 'w block_pool \<times> 'w memory" where
  "BlockPool_default new_ok g initial_slabs chunk_slabs allow_growth m =
     BlockPool_new new_ok (resolve_default_callbacks g) initial_slabs chunk_slabs allow_growth m"

definition set_global_callbacks :: "'w memory_callbacks \<Rightarrow> 'w global_pool \<Rightarrow> 'w global_pool" where
  "set_global_callbacks cb g =
     (if s_globalPoolInitialized g then g else g\<lparr>s_globalCallbacks := cb\<rparr>)"

definition global_callbacks :: "'w global_pool \<Rightarrow> 'w memory_callbacks" where
  "global_callbacks g = s_globalCallbacks g"

definition is_global_initialized :: "'w global_pool \<Rightarrow> bool" where
  "is_global_initialized g = s_globalPoolInitialized g"

definition global :: "bool \<Rightarrow> 'w global_pool \<Rightarrow> 'w memory \<Rightarrow> 'w block_pool \<times> 'w global_pool \<times> 'w memory" where
  "global new_ok g m =
     (case s_globalPool g of
        Some p \<Rightarrow> (p, g, m)
      | None \<Rightarrow>
          let (p, m) = BlockPool_new new_ok (s_globalCallbacks g) DEFAULT_INITIAL_SLABS DEFAULT_CHUNK_SLABS True m
          in (p, g\<lparr>s_globalPoolInitialized := True, s_globalPool := Some p\<rparr>, m))"

definition reset_global_for_testing :: "'w global_pool \<Rightarrow> 'w memory \<Rightarrow> 'w global_pool \<times> 'w memory" where
  "reset_global_for_testing g m =
     (let m = (case s_globalPool g of None \<Rightarrow> m | Some p \<Rightarrow> BlockPool_destroy p m)
      in (g\<lparr>s_globalPool := None, s_globalPoolInitialized := False, s_globalCallbacks := null_callbacks\<rparr>, m))"

section \<open>Invariant\<close>

definition chunk_slabs_of :: "chunk \<Rightarrow> u64 list" where
  "chunk_slabs_of c = map (slab_addr (base_ptr c)) [0..<unat (slab_count c)]"

definition pool_slabs :: "'w block_pool \<Rightarrow> u64 list" where
  "pool_slabs p = concat (map chunk_slabs_of (m_chunks p))"

text \<open>
  A chunk of whole slabs, aligned to a slab, whose one-past-the-end address is representable.
\<close>

definition region_ok :: "u64 \<Rightarrow> nat \<Rightarrow> bool" where
  "region_ok base n_slabs \<longleftrightarrow> base \<noteq> 0 \<and> 0 < n_slabs \<and> 65536 dvd unat base \<and> unat base + n_slabs * 65536 < 2 ^ 64"

text \<open>
  \<open>pool_inv p m fl out\<close>: the free list holds the slabs \<open>fl\<close>, the slabs \<open>out\<close> are with the pool's
  clients, and together they are the slabs of the chunks, each once.
\<close>

definition pool_inv :: "'w block_pool \<Rightarrow> 'w memory \<Rightarrow> u64 list \<Rightarrow> u64 list \<Rightarrow> bool" where
  "pool_inv p m fl out \<longleftrightarrow>
     chain (slab_next m) (ptr (m_head p)) fl
     \<and> distinct (fl @ out)
     \<and> mset fl + mset out = mset (pool_slabs p)
     \<and> (\<forall>c \<in> set (m_chunks p). region_ok (base_ptr c) (unat (slab_count c)))
     \<and> unat (m_available_slabs p) = length fl
     \<and> unat (m_total_slabs p) = length (pool_slabs p)
     \<and> unat (m_chunk_count p) = length (m_chunks p)
     \<and> (m_allow_growth p \<longrightarrow> 0 < m_chunk_slabs p \<and> unat (m_chunk_slabs p) < 2 ^ 48)"

section \<open>Slabs of a region\<close>

lemma slab_size_nat: "unat SLAB_SIZE = 65536"
  by (simp add: SLAB_SIZE_def)

lemma slab_addr_nat:
  assumes "region_ok base n" and "i < n"
  shows "unat (slab_addr base i) = unat base + i * 65536"
proof -
  have "i * 65536 < n * 65536" using assms(2) by simp
  then have lt: "unat base + i * 65536 < 2 ^ 64" using assms(1) by (simp add: region_ok_def)
  then have "unat (of_nat i * SLAB_SIZE :: u64) = i * 65536"
    by (simp add: unat_word_ariths unat_of_nat SLAB_SIZE_def)
  then show ?thesis using lt by (simp add: slab_addr_def unat_add_lt)
qed

lemma slab_addr_nonzero: "region_ok base n \<Longrightarrow> i < n \<Longrightarrow> slab_addr base i \<noteq> 0"
  using slab_addr_nat [of base n i] by (auto simp: region_ok_def unat_eq_zero)

lemma slab_addr_inj:
  assumes r: "region_ok base n"
  shows "inj_on (slab_addr base) {..<n}"
proof (rule inj_onI)
  fix i j assume i: "i \<in> {..<n}" and j: "j \<in> {..<n}" and eq: "slab_addr base i = slab_addr base j"
  have "unat base + i * 65536 = unat (slab_addr base i)" by (rule slab_addr_nat [OF r, symmetric]) (use i in simp)
  also have "\<dots> = unat base + j * 65536" unfolding eq by (rule slab_addr_nat [OF r]) (use j in simp)
  finally have "i * 65536 = j * 65536" by linarith
  then show "i = j" by simp
qed

lemma slab_addr_0 [simp]: "slab_addr base 0 = base"
  by (simp add: slab_addr_def)

lemma slab_addr_Suc: "slab_addr (base + SLAB_SIZE) i = slab_addr base (Suc i)"
  by (simp add: slab_addr_def algebra_simps)

lemma region_slabs_distinct: "region_ok base n \<Longrightarrow> distinct (map (slab_addr base) [0..<n])"
  using slab_addr_inj [of base n] by (simp add: distinct_map atLeast0LessThan)

text \<open>After partitioning, the headers of the region chain its slabs in address order.\<close>

lemma fold_upd_at:
  assumes "inj_on g (set xs)" and "distinct xs" and "i \<in> set xs"
  shows "fold (\<lambda>i f. f(g i := h i)) xs f (g i) = h i"
  using assms
proof (induction xs arbitrary: f rule: rev_induct)
  case Nil
  then show ?case by simp
next
  case (snoc x xs)
  then show ?case by (cases "i = x") (auto simp: inj_on_def)
qed

lemma fold_upd_other:
  "x \<notin> g ` set xs \<Longrightarrow> fold (\<lambda>i f. f(g i := h i)) xs f x = f x"
  by (induction xs arbitrary: f) auto

lemma partition_at:
  assumes "region_ok base (unat n)" and "i < unat n"
  shows "partition_slab_chain base n nx (slab_addr base i) = (if i + 1 < unat n then slab_addr base (i + 1) else 0)"
  unfolding partition_slab_chain_def
  using assms slab_addr_inj [OF assms(1)] by (subst fold_upd_at) (auto simp: atLeast0LessThan)

lemma partition_other:
  "x \<notin> set (map (slab_addr base) [0..<unat n]) \<Longrightarrow> partition_slab_chain base n nx x = nx x"
  unfolding partition_slab_chain_def by (rule fold_upd_other) simp

lemma partition_chain_from:
  assumes "region_ok base (unat n)"
  shows "k \<le> unat n \<Longrightarrow> chain (partition_slab_chain base n nx)
    (if k < unat n then slab_addr base k else 0) (map (slab_addr base) [k..<unat n])"
proof (induction "unat n - k" arbitrary: k)
  case 0
  then show ?case by simp
next
  case (Suc d)
  then have lt: "k < unat n" by simp
  have "chain (partition_slab_chain base n nx)
    (if Suc k < unat n then slab_addr base (Suc k) else 0) (map (slab_addr base) [Suc k..<unat n])"
    using Suc.hyps(1) [of "Suc k"] Suc.hyps(2) lt by simp
  moreover have "[k..<unat n] = k # [Suc k..<unat n]" using lt by (simp add: upt_conv_Cons)
  ultimately show ?case
    using lt slab_addr_nonzero [OF assms lt] partition_at [OF assms lt, of nx]
    by (simp only: if_True list.map chain.simps Suc_eq_plus1 simp_thms not_False_eq_True)
qed

lemma partition_chain:
  assumes "region_ok base (unat n)"
  shows "chain (partition_slab_chain base n nx) base (map (slab_addr base) [0..<unat n])"
  using partition_chain_from [OF assms, of 0 nx] assms by (auto simp: region_ok_def)

lemma chain_cong: "(\<And>x. x \<in> set xs \<Longrightarrow> nx x = nx' x) \<Longrightarrow> chain nx p xs = chain nx' p xs"
  by (induction xs arbitrary: p) auto

section \<open>The free list\<close>

lemma pool_invD:
  assumes "pool_inv p m fl out"
  shows "chain (slab_next m) (ptr (m_head p)) fl" and "distinct (fl @ out)"
    and "mset fl + mset out = mset (pool_slabs p)"
    and "\<And>c. c \<in> set (m_chunks p) \<Longrightarrow> region_ok (base_ptr c) (unat (slab_count c))"
    and "unat (m_available_slabs p) = length fl" and "unat (m_total_slabs p) = length (pool_slabs p)"
    and "unat (m_chunk_count p) = length (m_chunks p)"
  using assms by (auto simp: pool_inv_def)

text \<open>Every slab of the pool is a non-null, slab-aligned block inside the address space.\<close>

lemma pool_slab_region:
  assumes "pool_inv p m fl out" and "a \<in> set fl \<union> set out"
  shows "a \<noteq> 0" and "65536 dvd unat a" and "unat a + 65536 < 2 ^ 64"
proof -
  have "a \<in> set (pool_slabs p)"
    using assms pool_invD(3) [OF assms(1)] by (metis set_mset_mset set_mset_union)
  then obtain c i where c: "c \<in> set (m_chunks p)" and i: "i < unat (slab_count c)" and a: "a = slab_addr (base_ptr c) i"
    by (auto simp: pool_slabs_def chunk_slabs_of_def)
  have r: "region_ok (base_ptr c) (unat (slab_count c))" using pool_invD(4) [OF assms(1) c] .
  show "a \<noteq> 0" using slab_addr_nonzero [OF r i] a by simp
  have n: "unat a = unat (base_ptr c) + i * 65536" using slab_addr_nat [OF r i] a by simp
  then show "65536 dvd unat a" using r by (simp add: region_ok_def)
  have "Suc i * 65536 \<le> unat (slab_count c) * 65536" using i by (intro mult_right_mono) auto
  then show "unat a + 65536 < 2 ^ 64" using n r by (simp add: region_ok_def)
qed

lemma chain_last_null: "chain nx p (xs @ [t]) \<Longrightarrow> nx t = 0"
  by (induction xs arbitrary: p) auto

lemma chain_last_upd: "chain nx p (xs @ [t]) \<Longrightarrow> chain (nx(t := 0)) p (xs @ [t])"
  using chain_last_null [of nx p xs t] by (simp add: fun_upd_idem)

lemma pop_head_inv:
  assumes inv: "pool_inv p m fl out" and "ptr (m_head p) \<noteq> 0" and "pop_head p m = (a, p', m')"
  shows "\<exists>fl'. fl = a # fl' \<and> pool_inv p' m' fl' (a # out)"
proof -
  note d = pool_invD [OF inv]
  obtain fl' where fl: "fl = ptr (m_head p) # fl'" "chain (slab_next m) (slab_next m (ptr (m_head p))) fl'"
    using chain_nonnull [OF assms(2) d(1)] by blast
  have eqs: "a = ptr (m_head p)"
    "p' = p\<lparr>m_head := \<lparr>ptr = slab_next m (ptr (m_head p)), tag = tag (m_head p) + 1\<rparr>,
            m_available_slabs := m_available_slabs p - 1\<rparr>"
    "m' = m\<lparr>slab_next := (slab_next m)(ptr (m_head p) := 0)\<rparr>"
    using assms(3) by (auto simp: pop_head_def Let_def)
  have "a \<notin> set fl'" using d(2) fl(1) eqs(1) by simp
  then have ch: "chain (slab_next m') (ptr (m_head p')) fl'" using fl(2) eqs by simp
  have av: "unat (m_available_slabs p') = length fl'"
    using d(5) fl(1) eqs(2) unat_minus_one [of "m_available_slabs p"] by (cases "m_available_slabs p = 0") auto
  have "pool_inv p' m' fl' (a # out)"
    using inv ch av fl(1) eqs(1,2) by (auto simp: pool_inv_def pool_slabs_def)
  then show ?thesis using fl(1) eqs(1) by blast
qed

lemma release_chain_inv:
  assumes inv: "pool_inv p m fl out" and out: "mset out = mset rel + mset out'"
    and rel: "chain ((slab_next m)(tail := 0)) head (xs @ [tail])" "rel = xs @ [tail]"
    and cnt: "unat n = length rel"
    and res: "release_slab_chain head tail n p m = (p', m')"
  shows "pool_inv p' m' (rel @ fl) out'"
proof -
  note d = pool_invD [OF inv]
  have nz: "head \<noteq> 0" "tail \<noteq> 0" "n \<noteq> 0"
    using rel cnt chain_nonzero [OF rel(1)] by (cases xs; auto simp: unat_eq_zero)+
  have eqs: "p' = p\<lparr>m_head := \<lparr>ptr = head, tag = tag (m_head p) + 1\<rparr>,
        m_available_slabs := m_available_slabs p + n\<rparr>"
    "m' = m\<lparr>slab_next := (slab_next m)(tail := ptr (m_head p))\<rparr>"
    using res nz by (auto simp: release_slab_chain_def Let_def)
  have sub: "set out = set rel \<union> set out'" using out by (metis set_mset_mset set_mset_union)
  have dist: "distinct (rel @ fl @ out')"
  proof -
    have "mset (rel @ fl @ out') = mset (fl @ out)" using out by simp
    then show ?thesis using d(2) by (metis mset_eq_imp_distinct_iff)
  qed
  have ch: "chain (slab_next m') head (xs @ tail # fl)"
  proof -
    have "chain ((slab_next m)(tail := 0)) (ptr (m_head p)) fl" using d(1) dist rel(2) by simp
    then show ?thesis using chain_append [OF rel(1)] dist rel(2) eqs(2) by auto
  qed
  have len: "length fl + length rel \<le> length (pool_slabs p)"
  proof -
    have "length (fl @ out) = length (pool_slabs p)" using d(3) by (metis mset_append size_mset)
    moreover have "length out = length rel + length out'" using out by (metis size_mset size_union)
    ultimately show ?thesis by simp
  qed
  have "unat (m_available_slabs p + n) = length fl + length rel"
    using len d(5,6) cnt unsigned_less [of "m_total_slabs p", where 'a = nat]
    by (subst unat_add_lt) auto
  then show ?thesis
    using inv ch dist rel(2) eqs(1) out d(3) by (auto simp: pool_inv_def pool_slabs_def add_ac)
qed

lemma release_slab_inv:
  assumes "pool_inv p m fl out" and "a \<in> set out" and "release_slab a p m = (p', m')"
  shows "pool_inv p' m' (a # fl) (remove1 a out)"
proof -
  have "mset out = mset [a] + mset (remove1 a out)" using assms(2) by simp
  moreover have "chain ((slab_next m)(a := 0)) a ([] @ [a])"
    using assms(2) pool_slab_region(1) [OF assms(1)] by simp
  ultimately show ?thesis
    using release_chain_inv [OF assms(1), where rel = "[a]" and xs = "[]" and n = 1] assms(3)
    by (simp add: release_slab_def)
qed

section \<open>Growth\<close>

text \<open>Slab addresses are multiples of 64 KB, so there are at most \<open>2 ^ 48\<close> of them.\<close>

lemma slabs_bound:
  assumes "distinct xs" and "\<And>a. a \<in> set xs \<Longrightarrow> 65536 dvd unat (a :: u64)"
  shows "length xs \<le> 2 ^ 48"
proof -
  have "inj_on (\<lambda>a. unat a div 65536) (set xs)"
  proof (rule inj_onI)
    fix a b assume "a \<in> set xs" "b \<in> set xs" and eq: "unat a div 65536 = unat b div 65536"
    then have "65536 dvd unat a" "65536 dvd unat b" using assms(2) by blast+
    then have "unat a = unat b" using eq by (metis dvd_div_mult_self)
    then show "a = b" by (simp add: word_unat_eq_iff)
  qed
  moreover have "(\<lambda>a. unat a div 65536) ` set xs \<subseteq> {..<2 ^ 48}"
  proof (clarsimp)
    fix a :: u64
    have "unat a < 2 ^ 64" using unsigned_less [of a, where 'a = nat] by simp
    then show "unat a div 65536 < 281474976710656" by (simp add: less_mult_imp_div_less)
  qed
  ultimately have "card (set xs) \<le> card {..<2 ^ 48 :: nat}" by (metis card_image card_mono finite_lessThan)
  then show ?thesis using distinct_card [OF assms(1)] by simp
qed

lemma region_slabs_aligned:
  assumes "region_ok base n" and "a \<in> set (map (slab_addr base) [0..<n])"
  shows "65536 dvd unat a"
  using assms slab_addr_nat [OF assms(1)] by (auto simp: region_ok_def)

lemma chunks_le_slabs:
  "(\<And>c. c \<in> set cs \<Longrightarrow> 0 < unat (slab_count c)) \<Longrightarrow> length cs \<le> length (concat (map chunk_slabs_of cs))"
proof (induction cs)
  case Nil
  then show ?case by simp
next
  case (Cons c cs)
  then have "length cs \<le> length (concat (map chunk_slabs_of cs))" by simp
  moreover have "0 < length (chunk_slabs_of c)" using Cons.prems [of c] by (simp add: chunk_slabs_of_def)
  ultimately have "Suc (length cs) \<le> length (chunk_slabs_of c) + length (concat (map chunk_slabs_of cs))" by linarith
  then show ?case by simp
qed

text \<open>
  What the pool relies on of the allocation callback: the block of \<open>n\<close> slabs it returns is
  aligned as requested, lies in the address space, and shares no slab with the chunks the pool
  already has.
\<close>

definition fresh_alloc :: "'w block_pool \<Rightarrow> usize \<Rightarrow> 'w memory \<Rightarrow> bool" where
  "fresh_alloc p n m \<longleftrightarrow>
     (let raw = fst (call_alloc (m_callbacks p) (n * SLAB_SIZE) SLAB_SIZE m)
      in raw \<noteq> 0 \<longrightarrow> region_ok raw (unat n) \<and> set (map (slab_addr raw) [0..<unat n]) \<inter> set (pool_slabs p) = {})"

text \<open>A new chunk, all of whose slabs are still with the caller.\<close>

lemma attach_chunk:
  assumes inv: "pool_inv p m [] out" and r: "region_ok raw (unat n)"
    and fresh: "set (map (slab_addr raw) [0..<unat n]) \<inter> set (pool_slabs p) = {}"
    and p': "p' = p\<lparr>m_chunks := \<lparr>base_ptr = raw, slab_count = n, is_owned = b\<rparr> # m_chunks p,
      m_total_slabs := m_total_slabs p + n, m_chunk_count := m_chunk_count p + 1\<rparr>"
  shows "pool_inv p' m' [] (map (slab_addr raw) [0..<unat n] @ out)"
proof -
  let ?new = "map (slab_addr raw) [0..<unat n]"
  note d = pool_invD [OF inv]
  have slabs: "pool_slabs p' = ?new @ pool_slabs p" using p' by (simp add: pool_slabs_def chunk_slabs_of_def)
  have mout: "mset out = mset (pool_slabs p)" using d(3) by simp
  then have out: "set out = set (pool_slabs p)" "length out = length (pool_slabs p)"
    by (metis set_mset_mset, metis size_mset)
  have dist: "distinct (?new @ out)"
    using region_slabs_distinct [OF r] fresh out(1) d(2) by (auto simp del: set_map)
  have "length (?new @ out) \<le> 2 ^ 48"
  proof (rule slabs_bound [OF dist])
    fix a assume "a \<in> set (?new @ out)"
    then show "65536 dvd unat a"
      using region_slabs_aligned [OF r, of a] pool_slab_region(2) [OF inv, of a] by auto
  qed
  then have len: "unat n + length (pool_slabs p) \<le> 2 ^ 48" using out(2) by simp
  have "unat (m_total_slabs p + n) = unat n + length (pool_slabs p)"
    using len d(6) by (subst unat_add_lt) auto
  moreover have "length (m_chunks p) \<le> length (pool_slabs p)"
    using d(4) unfolding pool_slabs_def by (intro chunks_le_slabs) (simp add: region_ok_def)
  then have "unat (m_chunk_count p + 1) = Suc (length (m_chunks p))"
    using len d(7) by (subst unat_Suc_lt) auto
  ultimately show ?thesis
    using inv dist slabs mout r p' by (auto simp: pool_inv_def)
qed

lemma rest_region:
  assumes r: "region_ok raw (unat n)" and "1 < n"
  shows "unat (n - 1) = unat n - 1" and "region_ok (raw + SLAB_SIZE) (unat n - 1)"
    and "map (slab_addr raw) [0..<unat n] = raw # map (slab_addr (raw + SLAB_SIZE)) [0..<unat n - 1]"
    and "raw + SLAB_SIZE + (n - 1 - 1) * SLAB_SIZE = slab_addr (raw + SLAB_SIZE) (unat n - 2)"
proof -
  have n1: "1 < unat n" using assms(2) by (simp add: word_less_nat_alt)
  show n': "unat (n - 1) = unat n - 1" using assms(2) by (rule unat_pred_gt)
  have base: "unat (raw + SLAB_SIZE) = unat raw + 65536"
    using slab_addr_nat [OF r n1] by (simp add: slab_addr_def)
  have "(unat n - 1) * 65536 + 65536 = unat n * 65536" using n1 by (simp add: algebra_simps)
  then show "region_ok (raw + SLAB_SIZE) (unat n - 1)"
    using r n1 base unfolding region_ok_def by (auto simp: unat_eq_zero [symmetric])
  have "[0..<unat n] = 0 # map Suc [0..<unat n - 1]" using n1 by (metis Suc_diff_1 map_Suc_upt upt_conv_Cons less_trans zero_less_one)
  then show "map (slab_addr raw) [0..<unat n] = raw # map (slab_addr (raw + SLAB_SIZE)) [0..<unat n - 1]"
    by (simp add: slab_addr_Suc)
  have "n - 1 - 1 = of_nat (unat n - 2)"
  proof -
    have "unat (n - 1 - 1) = unat n - 2"
    proof (cases "n - 1 = 0")
      case True
      then show ?thesis using n' n1 by simp
    next
      case False
      then show ?thesis using n' unat_minus_one [of "n - 1"] by simp
    qed
    then have "(of_nat (unat (n - 1 - 1)) :: u64) = of_nat (unat n - 2)" by (simp only:)
    then show ?thesis by simp
  qed
  then show "raw + SLAB_SIZE + (n - 1 - 1) * SLAB_SIZE = slab_addr (raw + SLAB_SIZE) (unat n - 2)"
    by (simp add: slab_addr_def)
qed

lemma call_alloc_keeps_headers: "call_alloc cb n al m = (raw, m') \<Longrightarrow> slab_next m' = slab_next m"
  by (auto simp: call_alloc_def split: option.splits prod.splits)

lemma call_free_keeps_headers [simp]: "slab_next (call_free cb q n al m) = slab_next m"
  by (simp add: call_free_def split: option.split)

lemma pool_inv_world: "slab_next m' = slab_next m \<Longrightarrow> pool_inv p m' fl out = pool_inv p m fl out"
  by (simp add: pool_inv_def)

lemma grow_inv:
  assumes inv: "pool_inv p m [] out" and fresh: "fresh_alloc p (m_chunk_slabs p) m" and pos: "0 < m_chunk_slabs p"
    and res: "allocate_chunk_and_acquire new_ok p m = (a, p', m')"
  shows "(a = 0 \<and> p' = p \<and> slab_next m' = slab_next m)
    \<or> (a \<noteq> 0 \<and> (\<exists>fl'. pool_inv p' m' fl' (a # out) \<and> length fl' = unat (m_chunk_slabs p) - 1))"
proof -
  let ?n = "m_chunk_slabs p" and ?cb = "m_callbacks p"
  have head: "ptr (m_head p) = 0" using pool_invD(1) [OF inv] by simp
  obtain raw m1 where al: "call_alloc ?cb (?n * SLAB_SIZE) SLAB_SIZE m = (raw, m1)"
    by (cases "call_alloc ?cb (?n * SLAB_SIZE) SLAB_SIZE m")
  note h1 = call_alloc_keeps_headers [OF al]
  show ?thesis
  proof (cases "is_valid ?cb \<and> raw \<noteq> 0 \<and> new_ok")
    case False
    then show ?thesis using res head al h1 by (auto simp: allocate_chunk_and_acquire_def Let_def split: if_splits)
  next
    case True
    then have r: "region_ok raw (unat ?n)"
      and fr: "set (map (slab_addr raw) [0..<unat ?n]) \<inter> set (pool_slabs p) = {}"
      using fresh al by (auto simp: fresh_alloc_def)
    define p1 where "p1 = p\<lparr>m_chunks := \<lparr>base_ptr = raw, slab_count = ?n, is_owned = True\<rparr> # m_chunks p,
      m_total_slabs := m_total_slabs p + ?n, m_chunk_count := m_chunk_count p + 1\<rparr>"
    note at = attach_chunk [OF inv r fr p1_def]
    show ?thesis
    proof (cases "1 < ?n")
      case False
      with pos have n1: "?n = 1" by (simp add: word_less_nat_alt word_unat_eq_iff)
      have "a = raw" "p' = p1"
        using res head al True False by (auto simp: allocate_chunk_and_acquire_def p1_def Let_def)
      then show ?thesis using at [of m'] n1 True by auto
    next
      case False': True
      note rr = rest_region [OF r False']
      let ?rest = "map (slab_addr (raw + SLAB_SIZE)) [0..<unat ?n - 1]"
      define m2 where "m2 = m1\<lparr>slab_next := partition_slab_chain (raw + SLAB_SIZE) (?n - 1) ((slab_next m1)(raw := 0))\<rparr>"
      have rel: "release_slab_chain (raw + SLAB_SIZE) (slab_addr (raw + SLAB_SIZE) (unat ?n - 2)) (?n - 1) p1 m2 = (p', m')"
        and a: "a = raw"
        using res head al True False' rr(4)
        by (auto simp: allocate_chunk_and_acquire_def p1_def m2_def Let_def split: prod.splits)
      have "1 < unat ?n" using False' by (simp add: word_less_nat_alt)
      then have rest: "?rest = map (slab_addr (raw + SLAB_SIZE)) [0..<unat ?n - 2] @ [slab_addr (raw + SLAB_SIZE) (unat ?n - 2)]"
        by (metis (no_types, lifting) Suc_1 Suc_diff_Suc list.simps(8,9) map_append upt_Suc_append zero_le)
      have ch: "chain (slab_next m2) (raw + SLAB_SIZE) ?rest"
        using partition_chain [of "raw + SLAB_SIZE" "?n - 1"] rr(1,2) by (simp add: m2_def)
      have "pool_inv p' m' (?rest @ []) (raw # out)"
      proof (rule release_chain_inv [OF at [of m2] _ _ rest _ rel])
        show "mset (map (slab_addr raw) [0..<unat ?n] @ out) = mset ?rest + mset (raw # out)" using rr(3) by simp
        show "chain ((slab_next m2)(slab_addr (raw + SLAB_SIZE) (unat ?n - 2) := 0)) (raw + SLAB_SIZE)
            (map (slab_addr (raw + SLAB_SIZE)) [0..<unat ?n - 2] @ [slab_addr (raw + SLAB_SIZE) (unat ?n - 2)])"
          using chain_last_upd [OF ch [unfolded rest]] .
        show "unat (?n - 1) = length ?rest" using rr(1) by simp
      qed
      then show ?thesis using a True by (intro disjI2) (auto intro!: exI [of _ ?rest])
    qed
  qed
qed

section \<open>Acquiring a slab\<close>

lemma acquire_slab_inv:
  assumes inv: "pool_inv p m fl out" and fresh: "fresh_alloc p (m_chunk_slabs p) m"
    and res: "acquire_slab new_ok p m = (a, p', m')"
  shows "(a = 0 \<and> p' = p \<and> fl = [] \<and> slab_next m' = slab_next m)
    \<or> (a \<noteq> 0 \<and> (\<exists>fl'. pool_inv p' m' fl' (a # out) \<and> (fl \<noteq> [] \<longrightarrow> fl = a # fl')))"
proof (cases "ptr (m_head p) = 0")
  case False
  then obtain fl' where "fl = a # fl'" "pool_inv p' m' fl' (a # out)"
    using pop_head_inv [OF inv False, of a p' m'] res by (auto simp: acquire_slab_def)
  moreover have "a \<noteq> 0" using False res by (auto simp: acquire_slab_def pop_head_def Let_def)
  ultimately show ?thesis by blast
next
  case True
  then have fl: "fl = []" using pool_invD(1) [OF inv] by simp
  show ?thesis
  proof (cases "m_allow_growth p")
    case True': True
    then have "0 < m_chunk_slabs p" using inv by (simp add: pool_inv_def)
    then show ?thesis
      using grow_inv [OF inv [unfolded fl] fresh _, of new_ok a p' m'] res True True' fl
      by (auto simp: acquire_slab_def)
  next
    case False
    then show ?thesis using res True fl by (auto simp: acquire_slab_def)
  qed
qed

text \<open>A call touches no header of a slab that is with a client.\<close>

lemma grow_frame:
  assumes inv: "pool_inv p m [] out" and fresh: "fresh_alloc p (m_chunk_slabs p) m"
    and res: "allocate_chunk_and_acquire new_ok p m = (a, p', m')" and x: "x \<in> set out"
  shows "slab_next m' x = slab_next m x"
proof -
  let ?n = "m_chunk_slabs p" and ?cb = "m_callbacks p"
  have head: "ptr (m_head p) = 0" using pool_invD(1) [OF inv] by simp
  have xs: "x \<in> set (pool_slabs p)" using x pool_invD(3) [OF inv] by (metis add_0 mset.simps(1) set_mset_mset)
  obtain raw m1 where al: "call_alloc ?cb (?n * SLAB_SIZE) SLAB_SIZE m = (raw, m1)"
    by (cases "call_alloc ?cb (?n * SLAB_SIZE) SLAB_SIZE m")
  note h1 = call_alloc_keeps_headers [OF al]
  show ?thesis
  proof (cases "is_valid ?cb \<and> raw \<noteq> 0 \<and> new_ok")
    case False
    then show ?thesis using res head al h1 by (auto simp: allocate_chunk_and_acquire_def Let_def split: if_splits)
  next
    case True
    then have r: "region_ok raw (unat ?n)" and out: "x \<notin> set (map (slab_addr raw) [0..<unat ?n])"
      using fresh al xs by (auto simp: fresh_alloc_def)
    show ?thesis
    proof (cases "1 < ?n")
      case False
      have "0 < unat ?n" using r by (simp add: region_ok_def)
      then have "raw \<in> set (map (slab_addr raw) [0..<unat ?n])" by (force simp: image_iff)
      then have "x \<noteq> raw" using out by blast
      then show ?thesis
        using res head al h1 True False by (auto simp: allocate_chunk_and_acquire_def Let_def)
    next
      case gt: True
      note rr = rest_region [OF r gt]
      let ?rest = "map (slab_addr (raw + SLAB_SIZE)) [0..<unat (?n - 1)]"
      have nx: "x \<noteq> raw" "x \<notin> set ?rest" using out rr(1,3) by auto
      have "unat ?n - 2 < unat (?n - 1)" using gt rr(1) by (simp add: word_less_nat_alt)
      then have "slab_addr (raw + SLAB_SIZE) (unat ?n - 2) \<in> set ?rest" by simp
      then have "x \<noteq> slab_addr (raw + SLAB_SIZE) (unat ?n - 2)" using nx by blast
      then show ?thesis
        using res head al h1 True gt rr(4) nx partition_other [OF nx(2)]
        by (auto simp: allocate_chunk_and_acquire_def release_slab_chain_def Let_def split: if_splits)
    qed
  qed
qed

lemma acquire_slab_frame:
  assumes inv: "pool_inv p m fl out" and fresh: "fresh_alloc p (m_chunk_slabs p) m"
    and res: "acquire_slab new_ok p m = (a, p', m')" and x: "x \<in> set out"
  shows "slab_next m' x = slab_next m x"
proof (cases "ptr (m_head p) = 0")
  case True
  then have "fl = []" using pool_invD(1) [OF inv] by simp
  then show ?thesis
    using grow_frame [of p m out new_ok a p' m' x] inv fresh res x True by (auto simp: acquire_slab_def split: if_splits)
next
  case False
  then obtain fl' where "fl = ptr (m_head p) # fl'" using chain_nonnull [OF False pool_invD(1) [OF inv]] by blast
  then have "x \<noteq> ptr (m_head p)" using pool_invD(2) [OF inv] x by auto
  then show ?thesis using res False by (auto simp: acquire_slab_def pop_head_def Let_def)
qed

section \<open>The contract of a slab source\<close>

text \<open>
  What an arena relies on: a source hands out slabs it keeps no hold on, leaves the headers of
  handed-out slabs alone, and takes a chain of them back. \<open>ready\<close> is the caller's assumption
  on the memory behind the source.
\<close>

locale slab_source =
  fixes acquire :: "bool \<Rightarrow> 'p \<Rightarrow> 'h \<Rightarrow> u64 \<times> 'p \<times> 'h"
    and release :: "u64 \<Rightarrow> u64 \<Rightarrow> usize \<Rightarrow> 'p \<Rightarrow> 'h \<Rightarrow> 'p \<times> 'h"
    and header :: "'h \<Rightarrow> u64 \<Rightarrow> u64"
    and set_header :: "u64 \<Rightarrow> u64 \<Rightarrow> 'h \<Rightarrow> 'h"
    and invar :: "'p \<Rightarrow> 'h \<Rightarrow> u64 list \<Rightarrow> u64 list \<Rightarrow> bool"
    and ready :: "'p \<Rightarrow> 'h \<Rightarrow> bool"
  assumes header_set: "header (set_header a b h) = (header h)(a := b)"
    and invar_set_header: "invar p h fl out \<Longrightarrow> a \<in> set out \<Longrightarrow> invar p (set_header a b h) fl out"
    and invar_out: "invar p h fl out \<Longrightarrow> distinct out \<and> 0 \<notin> set out"
    and invar_perm: "invar p h fl out \<Longrightarrow> mset out = mset out' \<Longrightarrow> invar p h fl out'"
    and acquire_ok: "invar p h fl out \<Longrightarrow> ready p h \<Longrightarrow> acquire ok p h = (a, p', h') \<Longrightarrow> a \<noteq> 0 \<Longrightarrow>
      \<exists>fl'. invar p' h' fl' (a # out)"
    and acquire_null: "invar p h fl out \<Longrightarrow> ready p h \<Longrightarrow> acquire ok p h = (0, p', h') \<Longrightarrow>
      invar p' h' fl out \<and> fl = []"
    and acquire_frame: "invar p h fl out \<Longrightarrow> ready p h \<Longrightarrow> acquire ok p h = (a, p', h') \<Longrightarrow> x \<in> set out \<Longrightarrow>
      header h' x = header h x"
    and release_ok: "invar p h fl (xs @ t # out) \<Longrightarrow> chain (header h) first (xs @ [t]) \<Longrightarrow>
      unat n = Suc (length xs) \<Longrightarrow> release first t n p h = (p', h') \<Longrightarrow> invar p' h' (xs @ t # fl) out"
begin

text \<open>Prepending an acquired slab to a chain of slabs the client holds.\<close>

lemma acquire_and_link:
  assumes inv: "invar p h fl out" and "ready p h" and "acquire ok p h = (a, p', h')" and "a \<noteq> 0"
    and ch: "chain (header h) first xs" and sub: "set xs \<subseteq> set out"
  shows "\<exists>fl'. invar p' (set_header a first h') fl' (a # out) \<and> chain (header (set_header a first h')) a (a # xs)"
proof -
  obtain fl' where inv': "invar p' h' fl' (a # out)" using acquire_ok [OF assms(1-4)] by blast
  then have "a \<notin> set out" using invar_out by force
  then have "a \<notin> set xs" using sub by blast
  moreover have "chain (header h') first xs"
  proof -
    have "header h' x = header h x" if "x \<in> set xs" for x using acquire_frame [OF assms(1-3)] that sub by blast
    then show ?thesis using ch chain_cong [of xs "header h'" "header h" first] by simp
  qed
  ultimately have "chain (header (set_header a first h')) a (a # xs)"
    using \<open>a \<noteq> 0\<close> by (simp add: header_set)
  then show ?thesis using invar_set_header [OF inv', of a first] by auto
qed

text \<open>Giving the whole chain back.\<close>

lemma return_chain:
  assumes inv: "invar p h fl out" and mout: "mset out = mset xs + mset out'"
    and ch: "chain (header h) first xs" and ne: "xs \<noteq> []" and n: "unat n = length xs"
    and res: "release first (last xs) n p h = (p', h')"
  shows "invar p' h' (xs @ fl) out'"
proof -
  have "mset out = mset (butlast xs @ last xs # out')"
    using mout ne by (metis append_Cons append_Nil append_butlast_last_id append_assoc mset_append)
  then have "invar p h fl (butlast xs @ last xs # out')" using invar_perm [OF inv] by blast
  moreover have "chain (header h) first (butlast xs @ [last xs])" using ch ne by simp
  moreover have "unat n = Suc (length (butlast xs))" using n ne by simp
  ultimately have "invar p' h' (butlast xs @ last xs # fl) out'" using release_ok res by blast
  moreover have "butlast xs @ last xs # fl = xs @ fl"
    using ne by (metis append_Cons append_Nil append_assoc append_butlast_last_id)
  ultimately show ?thesis by simp
qed

end

definition set_slab_next :: "u64 \<Rightarrow> u64 \<Rightarrow> 'w memory \<Rightarrow> 'w memory" where
  "set_slab_next a b m = m\<lparr>slab_next := (slab_next m)(a := b)\<rparr>"

interpretation pool: slab_source acquire_slab release_slab_chain slab_next set_slab_next pool_inv
  "\<lambda>p m. fresh_alloc p (m_chunk_slabs p) m"
proof (unfold_locales, goal_cases)
  case (1 a b h)
  then show ?case by (simp add: set_slab_next_def)
next
  case (2 p h fl out a b)
  then have "a \<notin> set fl" by (auto simp: pool_inv_def)
  then show ?case using 2 by (simp add: pool_inv_def set_slab_next_def)
next
  case (3 p h fl out)
  then show ?case using pool_slab_region(1) [OF 3] pool_invD(2) [OF 3] by auto
next
  case (4 p h fl out out')
  then have "distinct (fl @ out')" by (metis mset_append mset_eq_imp_distinct_iff pool_invD(2))
  then show ?case using 4 by (simp add: pool_inv_def)
next
  case (5 p h fl out ok a p' h')
  then show ?case using acquire_slab_inv [OF 5(1-3)] by blast
next
  case (6 p h fl out ok p' h')
  then show ?case using acquire_slab_inv [OF 6(1-3)] pool_inv_world [of h' h] by auto
next
  case (7 p h fl out ok a p' h' x)
  then show ?case by (rule acquire_slab_frame)
next
  case (8 p h fl xs t out first n p' h')
  then show ?case
    using release_chain_inv [OF 8(1), where rel = "xs @ [t]" and out' = out and xs = xs and tail = t and head = first and n = n]
      chain_last_upd [OF 8(2)] by simp
qed

section \<open>Construction\<close>

lemma empty_pool_inv: "pool_inv (empty_pool n False cb) m [] []"
  by (simp add: pool_inv_def empty_pool_def pool_slabs_def)

lemma empty_pool_growth_inv:
  "0 < n \<Longrightarrow> unat n < 2 ^ 48 \<Longrightarrow> pool_inv (empty_pool n b cb) m [] []"
  by (simp add: pool_inv_def empty_pool_def pool_slabs_def)

text \<open>A pool whose only chunk is a freshly partitioned region.\<close>

lemma one_chunk_inv:
  assumes r: "region_ok base (unat n)"
    and p: "m_head p = \<lparr>ptr = base, tag = 0\<rparr>" "m_available_slabs p = n" "m_total_slabs p = n" "m_chunk_count p = 1"
      "m_chunks p = [\<lparr>base_ptr = base, slab_count = n, is_owned = b\<rparr>]"
    and g: "m_allow_growth p \<Longrightarrow> 0 < m_chunk_slabs p \<and> unat (m_chunk_slabs p) < 2 ^ 48"
    and m: "slab_next m = partition_slab_chain base n nx"
  shows "pool_inv p m (map (slab_addr base) [0..<unat n]) []"
  using r p g m partition_chain [OF r, of nx] region_slabs_distinct [OF r]
  by (simp add: pool_inv_def pool_slabs_def chunk_slabs_of_def)

lemma BlockPool_new_inv:
  assumes cs: "unat chunk_slabs < 2 ^ 48" and new: "BlockPool_new new_ok cb n chunk_slabs grow m = (p, m')"
    and fresh: "fresh_alloc (empty_pool chunk_slabs grow cb) n m"
  shows "\<exists>fl. pool_inv p m' fl [] \<and> length fl \<in> {0, unat n} \<and> m_callbacks p = cb
    \<and> m_allow_growth p = (grow \<and> is_valid cb)"
proof -
  let ?cs = "if 0 < chunk_slabs then chunk_slabs else DEFAULT_CHUNK_SLABS"
  obtain raw m1 where al: "call_alloc cb (n * SLAB_SIZE) SLAB_SIZE m = (raw, m1)"
    by (cases "call_alloc cb (n * SLAB_SIZE) SLAB_SIZE m")
  have cs': "0 < ?cs" "unat ?cs < 2 ^ 48" using cs by (auto simp: DEFAULT_CHUNK_SLABS_def)
  note e = empty_pool_growth_inv [OF cs', of grow cb]
  show ?thesis
  proof (cases "is_valid cb \<and> 0 < n \<and> raw \<noteq> 0 \<and> new_ok")
    case True
    then have r: "region_ok raw (unat n)" using fresh al by (auto simp: fresh_alloc_def empty_pool_def)
    have "pool_inv p m' (map (slab_addr raw) [0..<unat n]) []"
      using new True al cs' by (intro one_chunk_inv [OF r]) (auto simp: BlockPool_new_def Let_def empty_pool_def)
    moreover have "m_callbacks p = cb" "m_allow_growth p = (grow \<and> is_valid cb)"
      using new True al by (auto simp: BlockPool_new_def Let_def empty_pool_def)
    ultimately show ?thesis by force
  next
    case False
    then have "p = empty_pool ?cs grow cb \<and> is_valid cb \<or> p = (empty_pool ?cs grow cb)\<lparr>m_allow_growth := False\<rparr> \<and> \<not> is_valid cb"
      using new al by (auto simp: BlockPool_new_def Let_def split: if_splits)
    then show ?thesis
      using e [of m'] empty_pool_inv [of ?cs cb m'] by (auto simp: empty_pool_def)
  qed
qed

lemma from_buffer_region:
  assumes "buffer \<noteq> 0" and fit: "unat buffer + unat bytes < 2 ^ 64" and "65536 \<le> unat bytes"
    and a: "a = align_up buffer SLAB_SIZE" and n: "n = (bytes - (a - buffer)) div SLAB_SIZE"
    and off: "a - buffer \<le> bytes"
  shows "unat buffer \<le> unat a" and "unat a < unat buffer + 65536" and "65536 dvd unat a"
    and "unat n = (unat bytes - (unat a - unat buffer)) div 65536"
    and "unat a + unat n * 65536 \<le> unat buffer + unat bytes"
proof -
  have s: "SLAB_SIZE = 2 ^ 16" by (simp add: SLAB_SIZE_def)
  have "unat buffer + 2 ^ 16 \<le> 2 ^ 64" using fit assms(3) by simp
  note b = align_up_bounds [of 16 buffer, OF _ this]
  show le: "unat buffer \<le> unat a" and "unat a < unat buffer + 65536" and "65536 dvd unat a"
    using b by (simp_all add: a s)
  have d: "unat (a - buffer) = unat a - unat buffer" using le by (simp add: unat_diff_le word_le_nat_alt)
  then have "unat (bytes - (a - buffer)) = unat bytes - (unat a - unat buffer)" using off by (simp add: unat_diff_le)
  then show n': "unat n = (unat bytes - (unat a - unat buffer)) div 65536"
    by (simp add: n unat_div_distrib SLAB_SIZE_def)
  have "unat a - unat buffer \<le> unat bytes" using off d by (simp add: word_le_nat_alt)
  moreover have "unat n * 65536 \<le> unat bytes - (unat a - unat buffer)" using n' by simp
  ultimately show "unat a + unat n * 65536 \<le> unat buffer + unat bytes" using le by linarith
qed

lemma slab_addr_of_nat:
  assumes "region_ok base n" and "i < n" and "unat x = unat base + i * 65536"
  shows "x = slab_addr base i"
  using slab_addr_nat [OF assms(1,2)] assms(3) by (simp add: word_unat_eq_iff)

text \<open>An aligned block of the buffer is one of the blocks counted from the aligned start.\<close>

lemma aligned_in_region:
  fixes a b x y :: nat
  assumes "65536 dvd a" and "a < b + 65536" and "65536 dvd x" and "b \<le> x" and "b \<le> a" and "x + 65536 \<le> b + y"
  shows "\<exists>i < (y - (a - b)) div 65536. x = a + i * 65536"
proof -
  obtain j k where j: "a = 65536 * j" and k: "x = 65536 * k" using assms(1,3) by (auto elim!: dvdE)
  have jk: "j \<le> k" using assms(2,4) j k by simp
  have "(k - j + 1) * 65536 \<le> y - (a - b)" using assms(5,6) j k jk by (simp add: algebra_simps diff_mult_distrib2)
  then have "k - j + 1 \<le> (y - (a - b)) div 65536" by (simp add: less_eq_div_iff_mult_less_eq)
  then show ?thesis using j k jk by (intro exI [of _ "k - j"]) (simp add: algebra_simps)
qed

lemma from_buffer_inv:
  assumes "buffer \<noteq> 0" and "unat buffer + unat bytes < 2 ^ 64" and "65536 \<le> unat bytes"
    and "align_up buffer SLAB_SIZE - buffer + SLAB_SIZE \<le> bytes"
    and "from_buffer True buffer bytes m = (p, m')"
    and a_def: "a = align_up buffer SLAB_SIZE" and n_def: "n = (bytes - (a - buffer)) div SLAB_SIZE"
  shows "pool_inv p m' (map (slab_addr a) [0..<unat n]) []" and "region_ok a (unat n)" and "a - buffer \<le> bytes"
    and "\<not> m_allow_growth p" and "m_available_slabs p = n" and "m_callbacks p = null_callbacks"
proof -
  have s: "SLAB_SIZE = 2 ^ 16" by (simp add: SLAB_SIZE_def)
  have "unat buffer + 2 ^ 16 \<le> 2 ^ 64" using assms(2,3) by simp
  note b = align_up_bounds [of 16 buffer, OF _ this]
  have ab: "unat buffer \<le> unat a" "unat a < unat buffer + 65536" using b by (simp_all add: a_def s)
  have d: "unat (a - buffer) = unat a - unat buffer" using ab(1) by (simp add: unat_diff_le word_le_nat_alt)
  have "unat (a - buffer + SLAB_SIZE) = unat a - unat buffer + 65536"
    using d ab unsigned_less [of bytes, where 'a = nat] by (subst unat_add_lt) (auto simp: SLAB_SIZE_def)
  then have fit: "unat a - unat buffer + 65536 \<le> unat bytes" using assms(4) by (simp add: a_def word_le_nat_alt)
  then show off: "a - buffer \<le> bytes" using d by (simp add: word_le_nat_alt)
  note r = from_buffer_region [OF assms(1-3) a_def n_def off]
  have npos: "0 < unat n" using r(4) fit by (simp add: div_greater_zero_iff)
  have "a \<noteq> 0" using r(1) assms(1) by (auto simp: unat_eq_zero)
  then show reg: "region_ok a (unat n)" using r assms(2) npos by (simp add: region_ok_def)
  have n0: "n \<noteq> 0" using npos by auto
  have p: "m_head p = \<lparr>ptr = a, tag = 0\<rparr>" "m_available_slabs p = n" "m_total_slabs p = n" "m_chunk_count p = 1"
      "m_chunks p = [\<lparr>base_ptr = a, slab_count = n, is_owned = False\<rparr>]" "\<not> m_allow_growth p"
      "slab_next m' = partition_slab_chain a n (slab_next m)" "m_callbacks p = null_callbacks"
    using assms(5) assms(1) off n0 by (auto simp: from_buffer_def Let_def a_def [symmetric] n_def [symmetric] empty_pool_def)
  show "pool_inv p m' (map (slab_addr a) [0..<unat n]) []" using one_chunk_inv [OF reg p(1-5) _ p(7)] p(6) by blast
  show "\<not> m_allow_growth p" "m_available_slabs p = n" "m_callbacks p = null_callbacks" using p by auto
qed

section \<open>Accounting of the chunks\<close>

text \<open>The blocks a pool has to give back, as it asked for them.\<close>

definition pool_blocks :: "'w block_pool \<Rightarrow> (u64 \<times> usize \<times> usize) multiset" where
  "pool_blocks p = mset (map (\<lambda>c. (base_ptr c, slab_count c * SLAB_SIZE, SLAB_SIZE)) (filter is_owned (m_chunks p)))"

text \<open>
  What is relied on of the callbacks: \<open>live\<close> is the set of blocks in use; an allocation that
  does not return null adds its block, and freeing a block removes it.
\<close>

definition callbacks_track :: "'w memory_callbacks \<Rightarrow> ('w \<Rightarrow> (u64 \<times> usize \<times> usize) multiset) \<Rightarrow> bool" where
  "callbacks_track cb live \<longleftrightarrow>
     (\<forall>f n al w. cb_alloc cb = Some f \<longrightarrow>
        live (snd (f n al w)) = (if fst (f n al w) = 0 then live w else add_mset (fst (f n al w), n, al) (live w)))
     \<and> (\<forall>g p n al w. cb_free cb = Some g \<longrightarrow> live (g p n al w) = live w - {#(p, n, al)#})"

datatype pool_op = Acquire bool | Release u64 | ReleaseChain u64 u64 usize

fun pool_step :: "pool_op \<Rightarrow> 'w block_pool \<times> 'w memory \<Rightarrow> 'w block_pool \<times> 'w memory" where
  "pool_step (Acquire new_ok) (p, m) = snd (acquire_slab new_ok p m)"
| "pool_step (Release a) (p, m) = release_slab a p m"
| "pool_step (ReleaseChain h t n) (p, m) = release_slab_chain h t n p m"

definition accounted :: "'w memory_callbacks \<Rightarrow> ('w \<Rightarrow> (u64 \<times> usize \<times> usize) multiset) \<Rightarrow>
    (u64 \<times> usize \<times> usize) multiset \<Rightarrow> 'w block_pool \<times> 'w memory \<Rightarrow> bool" where
  "accounted cb live rest = (\<lambda>(p, m). m_callbacks p = cb \<and> live (world m) = rest + pool_blocks p
     \<and> (\<forall>c \<in> set (m_chunks p). is_owned c \<longrightarrow> base_ptr c \<noteq> 0) \<and> (m_chunks p \<noteq> [] \<longrightarrow> is_valid cb))"

lemma live_alloc:
  assumes tr: "callbacks_track cb live" and al: "call_alloc cb n al m = (raw, m')"
  shows "live (world m') = (if raw = 0 then live (world m) else add_mset (raw, n, al) (live (world m)))"
proof (cases "cb_alloc cb")
  case None
  then show ?thesis using al by (simp add: call_alloc_def)
next
  case (Some f)
  then have f: "live (snd (f n al (world m))) = (if fst (f n al (world m)) = 0 then live (world m)
      else add_mset (fst (f n al (world m)), n, al) (live (world m)))"
    using tr by (simp add: callbacks_track_def)
  have "raw = fst (f n al (world m))" "world m' = snd (f n al (world m))"
    using al Some by (auto simp: call_alloc_def Let_def split: prod.splits)
  then show ?thesis using f by simp
qed

lemma live_free:
  "callbacks_track cb live \<Longrightarrow> is_valid cb \<Longrightarrow> live (world (call_free cb a n al m)) = live (world m) - {#(a, n, al)#}"
  by (cases "cb_free cb") (auto simp: callbacks_track_def call_free_def is_valid_def)

lemma release_keeps:
  assumes "release_slab_chain h t n p m = (p', m')"
  shows "m_callbacks p' = m_callbacks p \<and> m_chunks p' = m_chunks p \<and> world m' = world m"
  using assms by (auto simp: release_slab_chain_def Let_def split: if_splits)

lemma accounted_keeps:
  assumes "accounted cb live rest (p, m)" and "m_callbacks p' = m_callbacks p" and "m_chunks p' = m_chunks p"
    and "world m' = world m"
  shows "accounted cb live rest (p', m')"
  using assms by (simp add: accounted_def pool_blocks_def)

lemma accounted_new_chunk:
  assumes "accounted cb live rest (p, m)" and "is_valid cb" and "raw \<noteq> 0"
    and "live (world m') = add_mset (raw, n * SLAB_SIZE, SLAB_SIZE) (live (world m))"
    and "m_callbacks p' = m_callbacks p"
    and "m_chunks p' = \<lparr>base_ptr = raw, slab_count = n, is_owned = True\<rparr> # m_chunks p"
  shows "accounted cb live rest (p', m')"
  using assms by (auto simp: accounted_def pool_blocks_def)

lemma grow_accounted:
  assumes tr: "callbacks_track cb live" and acc: "accounted cb live rest (p, m)"
    and hd: "ptr (m_head p) = 0" and res: "allocate_chunk_and_acquire new_ok p m = (a, p', m')"
  shows "accounted cb live rest (p', m')"
proof -
  let ?n = "m_chunk_slabs p"
  have cb: "m_callbacks p = cb" using acc by (simp add: accounted_def)
  obtain raw m1 where al: "call_alloc cb (?n * SLAB_SIZE) SLAB_SIZE m = (raw, m1)"
    by (cases "call_alloc cb (?n * SLAB_SIZE) SLAB_SIZE m")
  note lv = live_alloc [OF tr al]
  consider "\<not> is_valid cb" | "is_valid cb" "raw = 0" | "is_valid cb" "raw \<noteq> 0" "\<not> new_ok" | "is_valid cb" "raw \<noteq> 0" "new_ok"
    by blast
  then show ?thesis
  proof cases
    case 1
    then show ?thesis using res cb acc by (simp add: allocate_chunk_and_acquire_def)
  next
    case 2
    then have "p' = p" "m' = m1" using res cb al hd by (auto simp: allocate_chunk_and_acquire_def)
    then show ?thesis using acc lv 2 by (simp add: accounted_def)
  next
    case 3
    then have "p' = p" "m' = call_free cb raw (?n * SLAB_SIZE) SLAB_SIZE m1"
      using res cb al hd by (auto simp: allocate_chunk_and_acquire_def)
    then show ?thesis using acc lv 3 live_free [OF tr] by (simp add: accounted_def)
  next
    case 4
    define p1 where "p1 = p\<lparr>m_chunks := \<lparr>base_ptr = raw, slab_count = ?n, is_owned = True\<rparr> # m_chunks p,
      m_total_slabs := m_total_slabs p + ?n, m_chunk_count := m_chunk_count p + 1\<rparr>"
    have "m_callbacks p' = m_callbacks p1 \<and> m_chunks p' = m_chunks p1 \<and> world m' = world m1"
    proof (cases "1 < ?n")
      case True
      define m2 where "m2 = m1\<lparr>slab_next := partition_slab_chain (raw + SLAB_SIZE) (?n - 1) ((slab_next m1)(raw := 0))\<rparr>"
      have "release_slab_chain (raw + SLAB_SIZE) (raw + SLAB_SIZE + (?n - 1 - 1) * SLAB_SIZE) (?n - 1) p1 m2 = (p', m')"
        using res cb al hd 4 True
        by (auto simp: allocate_chunk_and_acquire_def p1_def m2_def Let_def split: prod.splits)
      from release_keeps [OF this] show ?thesis by (simp add: m2_def)
    next
      case False
      then show ?thesis
        using res cb al hd 4 by (auto simp: allocate_chunk_and_acquire_def p1_def Let_def)
    qed
    then have k: "m_callbacks p' = m_callbacks p" "world m' = world m1"
      "m_chunks p' = \<lparr>base_ptr = raw, slab_count = ?n, is_owned = True\<rparr> # m_chunks p"
      by (simp_all add: p1_def)
    have "live (world m') = add_mset (raw, ?n * SLAB_SIZE, SLAB_SIZE) (live (world m))" using lv 4(2) k(2) by simp
    then show ?thesis by (rule accounted_new_chunk [OF acc 4(1,2) _ k(1,3)])
  qed
qed

lemma pool_step_accounted:
  assumes tr: "callbacks_track cb live" and acc: "accounted cb live rest (p, m)"
  shows "accounted cb live rest (pool_step op (p, m))"
proof (cases op)
  case (Acquire new_ok)
  obtain a p' m' where r: "acquire_slab new_ok p m = (a, p', m')" by (metis prod_cases3)
  have "accounted cb live rest (p', m')"
  proof (cases "ptr (m_head p) = 0 \<and> m_allow_growth p")
    case True
    then show ?thesis using grow_accounted [OF tr acc] r by (auto simp: acquire_slab_def)
  next
    case False
    then have "m_callbacks p' = m_callbacks p" "m_chunks p' = m_chunks p" "world m' = world m"
      using r by (auto simp: acquire_slab_def pop_head_def Let_def split: if_splits)
    then show ?thesis using accounted_keeps [OF acc] by blast
  qed
  then show ?thesis using Acquire r by simp
next
  case (Release a)
  obtain p' m' where r: "release_slab a p m = (p', m')" by (cases "release_slab a p m")
  then show ?thesis using Release accounted_keeps [OF acc] release_keeps [of a a 1 p m p' m'] by (simp add: release_slab_def)
next
  case (ReleaseChain h t n)
  obtain p' m' where r: "release_slab_chain h t n p m = (p', m')" by (cases "release_slab_chain h t n p m")
  then show ?thesis using ReleaseChain accounted_keeps [OF acc] release_keeps [OF r] by simp
qed

lemma pool_run_accounted:
  "callbacks_track cb live \<Longrightarrow> accounted cb live rest s \<Longrightarrow> accounted cb live rest (fold pool_step ops s)"
proof (induction ops arbitrary: s)
  case Nil
  then show ?case by simp
next
  case (Cons op ops)
  then show ?case using pool_step_accounted [of cb live rest "fst s" "snd s" op] by simp
qed

lemma destroy_frees:
  assumes tr: "callbacks_track (m_callbacks p) live" and "cs \<noteq> [] \<Longrightarrow> is_valid (m_callbacks p)"
    and "\<And>c. c \<in> set cs \<Longrightarrow> is_owned c \<Longrightarrow> base_ptr c \<noteq> 0"
    and "live (world m) = rest + mset (map (\<lambda>c. (base_ptr c, slab_count c * SLAB_SIZE, SLAB_SIZE)) (filter is_owned cs))"
  shows "live (world (fold (free_chunk p) cs m)) = rest"
  using assms(2-4)
proof (induction cs arbitrary: m)
  case Nil
  then show ?case by simp
next
  case (Cons c cs)
  have v: "is_valid (m_callbacks p)" using Cons.prems(1) by simp
  then have "\<not> Option.is_none (cb_free (m_callbacks p))" by (simp add: is_valid_def)
  then have "live (world (free_chunk p c m)) =
      rest + mset (map (\<lambda>c. (base_ptr c, slab_count c * SLAB_SIZE, SLAB_SIZE)) (filter is_owned cs))"
    using Cons.prems(2,3) live_free [OF tr v] by (auto simp: free_chunk_def)
  then show ?case using Cons.IH [of "free_chunk p c m"] Cons.prems(2) v by simp
qed

lemma new_pool_accounted:
  assumes tr: "callbacks_track cb live"
  shows "accounted cb live (live (world m)) (BlockPool_new new_ok cb n chunk_slabs grow m)"
proof -
  obtain raw m1 where al: "call_alloc cb (n * SLAB_SIZE) SLAB_SIZE m = (raw, m1)"
    by (cases "call_alloc cb (n * SLAB_SIZE) SLAB_SIZE m")
  show ?thesis
    using live_alloc [OF tr al] live_free [OF tr] al
    by (auto simp: BlockPool_new_def accounted_def empty_pool_def pool_blocks_def Let_def)
qed

section \<open>Properties\<close>

text \<open>
  C18: Acquiring a slab. Under the pool invariant and a well-behaved allocation callback, a
  non-null result is a slab-aligned 64 KB block of the address space that no client holds, and
  it passes from the pool to the caller: the rest of the free list and the handed-out slabs
  are again exactly the slabs of the chunks, each once. A null result means the free list is
  empty, and nothing has changed.
\<close>

theorem acquire_slab_exclusive:
  assumes "pool_inv p m fl out" and "fresh_alloc p (m_chunk_slabs p) m"
    and "acquire_slab new_ok p m = (a, p', m')"
  shows "if a = 0 then fl = [] \<and> p' = p \<and> pool_inv p' m' [] out
    else a \<notin> set out \<and> 65536 dvd unat a \<and> unat a + 65536 < 2 ^ 64
      \<and> (\<exists>fl'. pool_inv p' m' fl' (a # out) \<and> (fl \<noteq> [] \<longrightarrow> fl = a # fl'))"
proof (cases "a = 0")
  case True
  then show ?thesis using acquire_slab_inv [OF assms] assms(1) pool_inv_world [of m' m] by auto
next
  case False
  then obtain fl' where f: "pool_inv p' m' fl' (a # out)" "fl \<noteq> [] \<longrightarrow> fl = a # fl'"
    using acquire_slab_inv [OF assms] by blast
  then show ?thesis using False pool_slab_region [OF f(1), of a] pool_invD(2) [OF f(1)] by auto
qed

definition demo_memory :: "unit memory" where
  "demo_memory = \<lparr>slab_next = (\<lambda>_. 0), world = ()\<rparr>"

text \<open>A pool over a buffer of two slabs at address 65536.\<close>

lemma demo_pool_inv:
  "case from_buffer True 0x10000 0x20000 demo_memory of (p, m) \<Rightarrow>
     pool_inv p m [0x10000, 0x20000] [] \<and> fresh_alloc p (m_chunk_slabs p) m"
proof -
  obtain p m where pm: "from_buffer True 0x10000 0x20000 demo_memory = (p, m)"
    by (cases "from_buffer True 0x10000 0x20000 demo_memory")
  have "0x10000 = align_up 0x10000 SLAB_SIZE" by (simp add: align_up_def SLAB_SIZE_def)
  moreover have "(2::usize) = (0x20000 - (0x10000 - 0x10000)) div SLAB_SIZE" by (simp add: SLAB_SIZE_def)
  ultimately have i: "pool_inv p m (map (slab_addr 0x10000) [0..<unat (2 :: usize)]) []" "m_callbacks p = null_callbacks"
    using from_buffer_inv(1,6) [OF _ _ _ _ pm] by (simp_all add: align_up_def SLAB_SIZE_def)
  moreover have "[0..<unat (2 :: usize)] = [0, 1]" by (simp add: upt_rec)
  moreover have "fresh_alloc p (m_chunk_slabs p) m" using i(2) by (simp add: fresh_alloc_def call_alloc_def null_callbacks_def)
  ultimately show ?thesis using pm by (simp add: slab_addr_def SLAB_SIZE_def)
qed

theorem acquire_slab_exclusive_witness:
  "case from_buffer True 0x10000 0x20000 demo_memory of (p, m) \<Rightarrow>
     (case acquire_slab True p m of (a, p', m') \<Rightarrow>
        if a = 0 then False else 65536 dvd unat a \<and> (\<exists>fl'. pool_inv p' m' fl' [a]))"
proof -
  obtain p m where pm: "from_buffer True 0x10000 0x20000 demo_memory = (p, m)"
    by (cases "from_buffer True 0x10000 0x20000 demo_memory")
  then have i: "pool_inv p m [0x10000, 0x20000] []" "fresh_alloc p (m_chunk_slabs p) m" using demo_pool_inv by auto
  obtain a p' m' where r: "acquire_slab True p m = (a, p', m')" by (metis prod_cases3)
  show ?thesis using acquire_slab_exclusive [OF i r] pm r by (auto split: if_splits)
qed

text \<open>
  Releasing a slab a client holds makes it the head of the free list and raises the tag of the
  head; the next acquire returns it, whatever the state of the callbacks, and restores the
  counters.
\<close>

theorem release_then_acquire:
  assumes "pool_inv p m fl out" and "a \<in> set out" and "release_slab a p m = (p1, m1)"
    and "acquire_slab new_ok p1 m1 = (b, p2, m2)"
  shows "b = a \<and> pool_inv p1 m1 (a # fl) (remove1 a out) \<and> pool_inv p2 m2 fl (a # remove1 a out)
    \<and> tag (m_head p2) = tag (m_head p) + 2 \<and> m_available_slabs p2 = m_available_slabs p"
proof -
  note i1 = release_slab_inv [OF assms(1-3)]
  have a0: "a \<noteq> 0" using pool_slab_region(1) [OF assms(1)] assms(2) by blast
  have h: "ptr (m_head p1) = a" "tag (m_head p1) = tag (m_head p) + 1" "m_available_slabs p1 = m_available_slabs p + 1"
    using assms(3) a0 by (auto simp: release_slab_def release_slab_chain_def Let_def)
  then have pop: "pop_head p1 m1 = (b, p2, m2)" using assms(4) a0 by (simp add: acquire_slab_def)
  then have "b = a" "tag (m_head p2) = tag (m_head p) + 2" "m_available_slabs p2 = m_available_slabs p"
    using h by (auto simp: pop_head_def Let_def)
  then show ?thesis using i1 pop_head_inv [OF i1 _ pop] h a0 by auto
qed

theorem release_then_acquire_witness:
  "case from_buffer True 0x10000 0x20000 demo_memory of (p0, m0) \<Rightarrow>
     (case acquire_slab True p0 m0 of (a, p, m) \<Rightarrow>
        (case release_slab a p m of (p1, m1) \<Rightarrow> fst (acquire_slab True p1 m1) = a \<and> a = 0x10000))"
proof -
  obtain p0 m0 where pm: "from_buffer True 0x10000 0x20000 demo_memory = (p0, m0)"
    by (cases "from_buffer True 0x10000 0x20000 demo_memory")
  then have i: "pool_inv p0 m0 [0x10000, 0x20000] []" "fresh_alloc p0 (m_chunk_slabs p0) m0" using demo_pool_inv by auto
  obtain a p m where r: "acquire_slab True p0 m0 = (a, p, m)" by (metis prod_cases3)
  then have a: "a = 0x10000" "pool_inv p m [0x20000] [0x10000]"
    using acquire_slab_inv [OF i r] by auto
  obtain p1 m1 where r1: "release_slab a p m = (p1, m1)" by (cases "release_slab a p m")
  obtain b p2 m2 where r2: "acquire_slab True p1 m1 = (b, p2, m2)" by (metis prod_cases3)
  show ?thesis using release_then_acquire [OF a(2) _ r1 r2] pm r r1 r2 a(1) by simp
qed

text \<open>
  A pool over a caller's buffer. When the buffer is non-null, fits the address space and is
  at least one slab long after alignment, the pool's free list is the slab-aligned 64 KB
  blocks of the buffer in address order: each lies inside the buffer, none is missing, and the
  counters say so; growth is off.
\<close>

theorem from_buffer_partition:
  assumes "buffer \<noteq> 0" and "unat buffer + unat bytes < 2 ^ 64" and "65536 \<le> unat bytes"
    and "align_up buffer SLAB_SIZE - buffer + SLAB_SIZE \<le> bytes"
    and "from_buffer True buffer bytes m = (p, m')"
  shows "\<exists>fl. pool_inv p m' fl []
    \<and> set fl = {a. 65536 dvd unat a \<and> unat buffer \<le> unat a \<and> unat a + 65536 \<le> unat buffer + unat bytes}
    \<and> sorted (map unat fl) \<and> \<not> m_allow_growth p \<and> unat (m_available_slabs p) = length fl"
proof -
  define a where "a = align_up buffer SLAB_SIZE"
  define n where "n = (bytes - (a - buffer)) div SLAB_SIZE"
  note f = from_buffer_inv [OF assms a_def n_def]
  note reg = f(2)
  note r = from_buffer_region [OF assms(1-3) a_def n_def f(3)]
  let ?fl = "map (slab_addr a) [0..<unat n]"
  have "map unat ?fl = map (\<lambda>i. unat a + i * 65536) [0..<unat n]" using slab_addr_nat [OF reg] by simp
  then have sorted: "sorted (map unat ?fl)" by (simp add: sorted_iff_nth_mono)
  have "x \<in> set ?fl" if x: "65536 dvd unat x" "unat buffer \<le> unat x" "unat x + 65536 \<le> unat buffer + unat bytes" for x
  proof -
    obtain i where "i < unat n" "unat x = unat a + i * 65536"
      using aligned_in_region [OF r(3,2) x(1,2) r(1) x(3)] r(4) by metis
    then have "i \<in> {0..<unat n}" "x = slab_addr a i" using slab_addr_of_nat [OF reg] by auto
    then show ?thesis by simp
  qed
  moreover have "65536 dvd unat x \<and> unat buffer \<le> unat x \<and> unat x + 65536 \<le> unat buffer + unat bytes"
    if x: "x \<in> set ?fl" for x
  proof -
    obtain i where i: "i < unat n" "x = slab_addr a i" using x by auto
    then have "unat x = unat a + i * 65536" "Suc i * 65536 \<le> unat n * 65536" using slab_addr_nat [OF reg] by (simp, simp)
    then show ?thesis using r(1,3,5) by simp
  qed
  ultimately show ?thesis using f(1,4,5) sorted by (intro exI [of _ ?fl]) (auto simp del: set_map)
qed

theorem from_buffer_partition_witness:
  "case from_buffer True 0x10001 0x30000 demo_memory of (p, m) \<Rightarrow> \<exists>fl. pool_inv p m fl [] \<and> \<not> m_allow_growth p"
proof -
  obtain p m where pm: "from_buffer True 0x10001 0x30000 demo_memory = (p, m)"
    by (cases "from_buffer True 0x10001 0x30000 demo_memory")
  show ?thesis using from_buffer_partition [OF _ _ _ _ pm] pm by (auto simp: align_up_def SLAB_SIZE_def)
qed

text \<open>
  C19: No leak. Whatever sequence of acquires and releases runs on a pool, and whether or not the
  chunk records can be allocated, destroying the pool gives back every block it obtained
  from the callbacks, with the size and alignment it was obtained with: the blocks in use are
  the ones in use before the pool was built.
\<close>

theorem pool_no_leak:
  assumes "callbacks_track cb live" and "fold pool_step ops (BlockPool_new new_ok cb n chunk_slabs grow m) = (p, m')"
  shows "live (world (BlockPool_destroy p m')) = live (world m)"
proof -
  have "accounted cb live (live (world m)) (fold pool_step ops (BlockPool_new new_ok cb n chunk_slabs grow m))"
    by (rule pool_run_accounted [OF assms(1) new_pool_accounted [OF assms(1)]])
  then have acc: "m_callbacks p = cb" "live (world m') = live (world m) + pool_blocks p"
    "\<forall>c \<in> set (m_chunks p). is_owned c \<longrightarrow> base_ptr c \<noteq> 0" "m_chunks p \<noteq> [] \<longrightarrow> is_valid cb"
    unfolding assms(2) by (simp_all add: accounted_def)
  show ?thesis
    unfolding BlockPool_destroy_def
  proof (rule destroy_frees)
    show "callbacks_track (m_callbacks p) live" using assms(1) acc(1) by simp
  qed (use acc in \<open>auto simp: pool_blocks_def\<close>)
qed

definition bump_callbacks :: "(u64 \<times> (u64 \<times> usize \<times> usize) list) memory_callbacks" where
  "bump_callbacks = \<lparr>cb_alloc = Some (\<lambda>n al (a, bs). (a, a + n, if a = 0 then bs else (a, n, al) # bs)),
     cb_free = Some (\<lambda>p n al (a, bs). (a, remove1 (p, n, al) bs))\<rparr>"

theorem pool_no_leak_witness:
  "case fold pool_step [Acquire True, Acquire True, Release 0x10000]
      (BlockPool_new True bump_callbacks 1 1 True \<lparr>slab_next = (\<lambda>_. 0), world = (0x10000, [])\<rparr>) of
     (p, m) \<Rightarrow> snd (world (BlockPool_destroy p m)) = [] \<and> length (m_chunks p) = 2"
proof -
  have tr: "callbacks_track bump_callbacks (mset \<circ> snd)"
    by (auto simp: callbacks_track_def bump_callbacks_def split: prod.splits)
  obtain p m where run: "fold pool_step [Acquire True, Acquire True, Release 0x10000]
      (BlockPool_new True bump_callbacks 1 1 True \<lparr>slab_next = (\<lambda>_. 0), world = (0x10000, [])\<rparr>) = (p, m)"
    by (metis surj_pair)
  have "length (m_chunks p) = 2"
    using run by (auto simp: BlockPool_new_def empty_pool_def is_valid_def bump_callbacks_def call_alloc_def SLAB_SIZE_def
        partition_slab_chain_def slab_addr_def upt_rec acquire_slab_def pop_head_def allocate_chunk_and_acquire_def
        release_slab_def release_slab_chain_def Let_def)
  then show ?thesis using pool_no_leak [OF tr run] run by simp
qed

text \<open>
  The global callbacks are frozen by the first use of the global pool: from then on
  \<open>set_global_callbacks\<close> has no effect and every call of \<open>global\<close> returns the pool the
  first one built, with the callbacks in force at that time.
\<close>

theorem global_pool_frozen:
  assumes "s_globalPool g = None" and "global new_ok g m = (p, g', m')"
  shows "set_global_callbacks cb g' = g' \<and> global new_ok' g' m'' = (p, g', m'')
    \<and> m_callbacks p = s_globalCallbacks g \<and> is_global_initialized g'"
  using assms
  by (auto simp: global_def set_global_callbacks_def is_global_initialized_def BlockPool_new_def Let_def
      empty_pool_def split: prod.splits if_splits)

theorem global_pool_frozen_witness:
  "case global True \<lparr>s_globalCallbacks = null_callbacks, s_globalPoolInitialized = False, s_globalPool = None\<rparr> demo_memory of
     (p, g, m) \<Rightarrow> set_global_callbacks \<lparr>cb_alloc = None, cb_free = Some (\<lambda>_ _ _ w. w)\<rparr> g = g"
  using global_pool_frozen [of "\<lparr>s_globalCallbacks = null_callbacks, s_globalPoolInitialized = False, s_globalPool = None\<rparr>"
      True demo_memory]
  by (auto split: prod.split)

end
