(* ===== verification/Slab_Arena.thy ===== *)
theory Slab_Arena
  imports Block_Pool
begin

text \<open>
  The bump-pointer arena of \<^verbatim>\<open>slab_arena.hpp\<close> and \<^verbatim>\<open>slab_arena.cpp\<close>: the fast path, the slow path
  that chains a slab of the pool or obtains an oversized block, reset, move, and the typed
  helpers. The arena works on the pool and the memory of the previous theory; that it holds
  its slabs apart from the pool's free list is proved from the contract \<open>slab_source\<close>.
\<close>

section \<open>State\<close>

text \<open>\<open>alignof(std::max_align_t)\<close> and \<open>sizeof(OversizedBlock)\<close> on the 64-bit targets.\<close>

definition MAX_ALIGN :: usize where
  [lf_consts]: "MAX_ALIGN = 16"

definition OVERSIZED_HEADER :: usize where
  [lf_consts]: "OVERSIZED_HEADER = 32"

record oversized_block =
  raw_ptr :: u64
  ob_total_bytes :: usize
  ob_alignment :: usize

text \<open>
  \<open>m_has_pool\<close> says whether the pool pointer is not null; the pool itself is threaded through the
  operations. \<open>m_oversized\<close> is the linked list from \<open>m_oversized_head\<close>.
\<close>

record slab_arena =
  m_has_pool :: bool
  m_head_slab :: u64
  m_tail_slab :: u64
  m_current_slab :: u64
  m_bump_ptr :: u64
  m_bump_end :: u64
  m_slab_count :: usize
  m_allocated_bytes :: usize
  m_oversized :: "oversized_block list"

section \<open>Operations\<close>

definition SlabArena_new :: "bool \<Rightarrow> slab_arena" where
  "SlabArena_new has_pool =
     \<lparr>m_has_pool = has_pool, m_head_slab = 0, m_tail_slab = 0, m_current_slab = 0, m_bump_ptr = 0, m_bump_end = 0,
      m_slab_count = 0, m_allocated_bytes = 0, m_oversized = []\<rparr>"

text \<open>The slab branch of \<open>allocate_slow\<close>.\<close>

definition allocate_from_new_slab ::
  "u64 \<Rightarrow> usize \<Rightarrow> usize \<Rightarrow> slab_arena \<Rightarrow> 'w memory \<Rightarrow> u64 \<times> slab_arena \<times> 'w memory" where
  "allocate_from_new_slab new_slab bytes alignment a m =
     (let m = set_slab_next new_slab (m_head_slab a) m;
          a = a\<lparr>m_head_slab := new_slab,
                m_tail_slab := (if m_tail_slab a = 0 then new_slab else m_tail_slab a),
                m_current_slab := new_slab,
                m_slab_count := m_slab_count a + 1,
                m_bump_ptr := payload new_slab,
                m_bump_end := new_slab + SLAB_SIZE\<rparr>;
          aligned_addr = align_up (m_bump_ptr a) alignment
      in (aligned_addr,
          a\<lparr>m_bump_ptr := aligned_addr + bytes, m_allocated_bytes := m_allocated_bytes a + bytes\<rparr>,
          m))"

definition allocate_oversized ::
  "usize \<Rightarrow> usize \<Rightarrow> slab_arena \<Rightarrow> 'w block_pool \<Rightarrow> 'w memory \<Rightarrow> u64 \<times> slab_arena \<times> 'w memory" where
  "allocate_oversized bytes alignment a p m =
     (let total_bytes = bytes + OVERSIZED_HEADER + alignment;
          alloc_align = (if CACHELINE_SIZE < alignment then alignment else CACHELINE_SIZE);
          (raw_mem, m) =
            (if m_has_pool a \<and> is_valid (m_callbacks p)
             then call_alloc (m_callbacks p) total_bytes alloc_align m else (0, m))
      in if raw_mem = 0 then (0, a, m)
         else
           let block = \<lparr>raw_ptr = raw_mem, ob_total_bytes = total_bytes, ob_alignment = alloc_align\<rparr>;
               raw_addr = raw_mem + OVERSIZED_HEADER
           in (align_up raw_addr alignment,
               a\<lparr>m_oversized := block # m_oversized a, m_allocated_bytes := m_allocated_bytes a + bytes\<rparr>,
               m))"

definition allocate_slow ::
  "bool \<Rightarrow> usize \<Rightarrow> usize \<Rightarrow> slab_arena \<Rightarrow> 'w block_pool \<Rightarrow> 'w memory \<Rightarrow> u64 \<times> slab_arena \<times> 'w block_pool \<times> 'w memory" where
  "allocate_slow new_ok bytes alignment a p m =
     (if bytes \<le> PAYLOAD_SIZE \<and> alignment \<le> CACHELINE_SIZE then
        if \<not> m_has_pool a then (0, a, p, m)
        else
          let (new_slab, p, m) = acquire_slab new_ok p m
          in if new_slab = 0 then (0, a, p, m)
             else let (addr, a, m) = allocate_from_new_slab new_slab bytes alignment a m in (addr, a, p, m)
      else let (addr, a, m) = allocate_oversized bytes alignment a p m in (addr, a, p, m))"

definition allocate ::
  "bool \<Rightarrow> usize \<Rightarrow> usize \<Rightarrow> slab_arena \<Rightarrow> 'w block_pool \<Rightarrow> 'w memory \<Rightarrow> u64 \<times> slab_arena \<times> 'w block_pool \<times> 'w memory" where
  "allocate new_ok bytes alignment a p m =
     (if bytes = 0 then (0, a, p, m)
      else
        let alignment = (if alignment < MAX_ALIGN then MAX_ALIGN else alignment);
            aligned_addr = align_up (m_bump_ptr a) alignment
        in if m_current_slab a \<noteq> 0 \<and> aligned_addr + bytes \<le> m_bump_end a
           then (aligned_addr,
                 a\<lparr>m_bump_ptr := aligned_addr + bytes, m_allocated_bytes := m_allocated_bytes a + bytes\<rparr>, p, m)
           else allocate_slow new_ok bytes alignment a p m)"

definition deallocate :: "u64 \<Rightarrow> usize \<Rightarrow> usize \<Rightarrow> slab_arena \<Rightarrow> slab_arena" where
  "deallocate addr bytes alignment a = a"

text \<open>\<open>create<T>\<close> and \<open>allocate_span<T>\<close>: the element size and alignment stand for the type.\<close>

definition create ::
  "bool \<Rightarrow> usize \<Rightarrow> usize \<Rightarrow> slab_arena \<Rightarrow> 'w block_pool \<Rightarrow> 'w memory \<Rightarrow> u64 \<times> slab_arena \<times> 'w block_pool \<times> 'w memory" where
  "create new_ok size_T align_T a p m = allocate new_ok size_T align_T a p m"

definition allocate_span ::
  "bool \<Rightarrow> usize \<Rightarrow> usize \<Rightarrow> usize \<Rightarrow> slab_arena \<Rightarrow> 'w block_pool \<Rightarrow> 'w memory \<Rightarrow>
     (u64 \<times> usize) \<times> slab_arena \<times> 'w block_pool \<times> 'w memory" where
  "allocate_span new_ok size_T align_T n a p m =
     (if n = 0 then ((0, 0), a, p, m)
      else
        let (mem, a, p, m) = allocate new_ok (size_T * n) align_T a p m
        in if mem = 0 then ((0, 0), a, p, m) else ((mem, n), a, p, m))"

definition free_oversized :: "'w block_pool \<Rightarrow> slab_arena \<Rightarrow> oversized_block \<Rightarrow> 'w memory \<Rightarrow> 'w memory" where
  "free_oversized p a b m =
     (if m_has_pool a \<and> is_valid (m_callbacks p)
      then call_free (m_callbacks p) (raw_ptr b) (ob_total_bytes b) (ob_alignment b) m else m)"

definition arena_reset :: "slab_arena \<Rightarrow> 'w block_pool \<Rightarrow> 'w memory \<Rightarrow> slab_arena \<times> 'w block_pool \<times> 'w memory" where
  "arena_reset a p m =
     (let (a', p, m) =
        (if m_head_slab a \<noteq> 0 \<and> m_has_pool a
         then let (p, m) = release_slab_chain (m_head_slab a) (m_tail_slab a) (m_slab_count a) p m
              in (a\<lparr>m_head_slab := 0, m_tail_slab := 0, m_current_slab := 0\<rparr>, p, m)
         else (a, p, m));
          a' = a'\<lparr>m_bump_ptr := 0, m_bump_end := 0, m_slab_count := 0, m_allocated_bytes := 0\<rparr>;
          m = fold (free_oversized p a) (m_oversized a) m
      in (a'\<lparr>m_oversized := []\<rparr>, p, m))"

definition SlabArena_destroy :: "slab_arena \<Rightarrow> 'w block_pool \<Rightarrow> 'w memory \<Rightarrow> 'w block_pool \<times> 'w memory" where
  "SlabArena_destroy a p m = snd (arena_reset a p m)"

text \<open>Move construction: the new arena and what is left of the other one.\<close>

definition SlabArena_move :: "slab_arena \<Rightarrow> slab_arena \<times> slab_arena" where
  "SlabArena_move other = (other, SlabArena_new False)"

definition SlabArena_move_assign ::
  "slab_arena \<Rightarrow> slab_arena \<Rightarrow> 'w block_pool \<Rightarrow> 'w memory \<Rightarrow> slab_arena \<times> slab_arena \<times> 'w block_pool \<times> 'w memory" where
  "SlabArena_move_assign a other p m =
     (let (a, p, m) = arena_reset a p m in (other, SlabArena_new False, p, m))"

text \<open>The polymorphic memory resource forwards to the arena.\<close>

definition do_allocate ::
  "bool \<Rightarrow> usize \<Rightarrow> usize \<Rightarrow> slab_arena \<Rightarrow> 'w block_pool \<Rightarrow> 'w memory \<Rightarrow> u64 \<times> slab_arena \<times> 'w block_pool \<times> 'w memory" where
  "do_allocate new_ok bytes alignment a p m = allocate new_ok bytes alignment a p m"

definition do_deallocate :: "u64 \<Rightarrow> usize \<Rightarrow> usize \<Rightarrow> slab_arena \<Rightarrow> slab_arena" where
  "do_deallocate addr bytes alignment a = deallocate addr bytes alignment a"

section \<open>Invariant\<close>

text \<open>Address ranges \<open>(start, length)\<close>.\<close>

type_synonym range = "nat \<times> nat"

fun apart :: "range \<Rightarrow> range \<Rightarrow> bool" where
  "apart (s, n) (s', n') \<longleftrightarrow> s + n \<le> s' \<or> s' + n' \<le> s"

fun ranges_apart :: "range list \<Rightarrow> bool" where
  "ranges_apart [] = True"
| "ranges_apart (r # rs) = ((\<forall>r' \<in> set rs. apart r r') \<and> ranges_apart rs)"

text \<open>A range inside the payload of a slab, below a limit.\<close>

definition in_slab :: "u64 \<Rightarrow> nat \<Rightarrow> range \<Rightarrow> bool" where
  "in_slab b limit r \<longleftrightarrow> unat b + 64 \<le> fst r \<and> fst r + snd r \<le> limit"

text \<open>
  \<open>arena_inv a p m fl out slabs live\<close>: the arena's chain of slabs is \<open>slabs\<close>, all of them held
  from the pool, the bump window lies in the newest slab, and the ranges \<open>live\<close> handed out since
  the last reset lie in the slabs, apart from each other, and in the newest slab below the bump
  pointer.
\<close>

definition arena_inv ::
  "slab_arena \<Rightarrow> 'w block_pool \<Rightarrow> 'w memory \<Rightarrow> u64 list \<Rightarrow> u64 list \<Rightarrow> u64 list \<Rightarrow> range list \<Rightarrow> bool" where
  "arena_inv a p m fl out slabs live \<longleftrightarrow>
     m_has_pool a \<and> pool_inv p m fl out
     \<and> chain (slab_next m) (m_head_slab a) slabs \<and> distinct slabs \<and> set slabs \<subseteq> set out
     \<and> m_current_slab a = m_head_slab a
     \<and> m_tail_slab a = (if slabs = [] then 0 else last slabs)
     \<and> unat (m_slab_count a) = length slabs
     \<and> (slabs \<noteq> [] \<longrightarrow> unat (hd slabs) + 64 \<le> unat (m_bump_ptr a)
          \<and> unat (m_bump_ptr a) \<le> unat (m_bump_end a) \<and> unat (m_bump_end a) = unat (hd slabs) + 65536)
     \<and> (\<forall>r \<in> set live. \<exists>b \<in> set slabs.
          in_slab b (if b = hd slabs then unat (m_bump_ptr a) else unat b + 65536) r)
     \<and> ranges_apart live"

section \<open>The bump window\<close>

lemma unat_le_imp_dvd:
  assumes "2 ^ j dvd (n :: nat)" and "i \<le> j"
  shows "2 ^ i dvd n"
  using assms by (meson dvd_trans le_imp_power_dvd)

lemma slab_window:
  assumes al: "65536 dvd unat s" and top: "unat s + 65536 < 2 ^ 64"
  shows "unat (payload s) = unat s + 64" and "unat (s + SLAB_SIZE) = unat s + 65536"
    and "k \<le> 6 \<Longrightarrow> align_up (payload s) (2 ^ k) = payload s"
    and "k \<le> 6 \<Longrightarrow> 2 ^ k dvd unat (payload s)"
proof -
  show p: "unat (payload s) = unat s + 64"
    using top by (simp add: payload_def HEADER_SIZE_def CACHELINE_SIZE_def unat_add_lt)
  show "unat (s + SLAB_SIZE) = unat s + 65536" using top by (simp add: SLAB_SIZE_def unat_add_lt)
  have dvd: "2 ^ k dvd unat (payload s)" if k: "k \<le> 6"
  proof -
    from al obtain j where "unat s = 65536 * j" by (rule dvdE)
    then have "unat (payload s) = 2 ^ 6 * (1024 * j + 1)" using p by simp
    then have "2 ^ 6 dvd unat (payload s)" by (rule dvdI)
    then show ?thesis using k by (rule unat_le_imp_dvd)
  qed
  then show "k \<le> 6 \<Longrightarrow> 2 ^ k dvd unat (payload s)" .
  assume k: "k \<le> 6"
  moreover have "(2::nat) ^ k \<le> 2 ^ 6" using k by (intro power_increasing) auto
  ultimately show "align_up (payload s) (2 ^ k) = payload s" using p top dvd by (intro align_up_aligned) auto
qed

lemma slab_end_room:
  assumes "65536 dvd unat (s :: u64)" and "unat s + 65536 < 2 ^ 64"
  shows "unat s + 65536 + 65536 \<le> 2 ^ 64"
proof -
  obtain j where "unat s = 65536 * j" using assms(1) by (rule dvdE)
  then show ?thesis using assms(2) by simp
qed

lemma window_end_room:
  assumes al: "65536 dvd unat (s :: u64)" and top: "unat s + 65536 < 2 ^ 64" and w: "unat w \<le> unat s + 65536" and k: "k \<le> 6"
  shows "unat (w :: u64) + 2 ^ k \<le> 2 ^ 64"
proof -
  have "(2::nat) ^ k \<le> 2 ^ 6" using k by (intro power_increasing) auto
  then show ?thesis using w slab_end_room [OF al top] by simp
qed

text \<open>The effective alignment: at least 16, and a power of two when the request is.\<close>

lemma effective_alignment:
  assumes "k < 64"
  shows "(if (2 ^ k :: usize) < MAX_ALIGN then MAX_ALIGN else 2 ^ k) = 2 ^ max k 4"
proof (cases "k < 4")
  case True
  then have "(2::nat) ^ k < 2 ^ 4" by (intro power_strict_increasing) auto
  then have "(2 ^ k :: usize) < MAX_ALIGN" using assms by (simp add: word_less_nat_alt unat_pow2 MAX_ALIGN_def)
  then show ?thesis using True by (simp add: MAX_ALIGN_def max_def)
next
  case False
  then have "(2::nat) ^ 4 \<le> 2 ^ k" by (intro power_increasing) auto
  then have "\<not> (2 ^ k :: usize) < MAX_ALIGN" using assms by (simp add: word_less_nat_alt unat_pow2 MAX_ALIGN_def)
  then show ?thesis using False by (simp add: max_def)
qed

lemma slabs_apart:
  assumes "65536 dvd unat s" and "65536 dvd unat t" and "s \<noteq> (t :: u64)"
  shows "unat s + 65536 \<le> unat t \<or> unat t + 65536 \<le> unat s"
proof -
  have "unat s \<noteq> unat t" using assms(3) by (simp add: word_unat_eq_iff)
  then show ?thesis using assms(1,2) by (auto elim!: dvdE)
qed

section \<open>Allocation keeps the invariant\<close>

lemma arena_invD:
  assumes "arena_inv a p m fl out slabs live"
  shows "m_has_pool a" and "pool_inv p m fl out" and "chain (slab_next m) (m_head_slab a) slabs"
    and "distinct slabs" and "set slabs \<subseteq> set out" and "m_current_slab a = m_head_slab a"
    and "m_tail_slab a = (if slabs = [] then 0 else last slabs)" and "unat (m_slab_count a) = length slabs"
    and "slabs \<noteq> [] \<Longrightarrow> unat (hd slabs) + 64 \<le> unat (m_bump_ptr a)
          \<and> unat (m_bump_ptr a) \<le> unat (m_bump_end a) \<and> unat (m_bump_end a) = unat (hd slabs) + 65536"
    and "\<And>r. r \<in> set live \<Longrightarrow> \<exists>b \<in> set slabs.
          in_slab b (if b = hd slabs then unat (m_bump_ptr a) else unat b + 65536) r"
    and "ranges_apart live"
  using assms by (auto simp: arena_inv_def)

lemma arena_slab:
  assumes "arena_inv a p m fl out slabs live" and "b \<in> set slabs"
  shows "65536 dvd unat b" and "unat b + 65536 < 2 ^ 64"
  using pool_slab_region(2,3) [OF arena_invD(2) [OF assms(1)], of b] arena_invD(5) [OF assms(1)] assms(2) by auto

text \<open>A range above the bump pointer of the newest slab is apart from everything handed out.\<close>

lemma above_bump_apart:
  assumes inv: "arena_inv a p m fl out slabs live" and ne: "slabs \<noteq> []"
    and s: "unat (m_bump_ptr a) \<le> s" and n: "s + n \<le> unat (m_bump_end a)" and r: "r \<in> set live"
  shows "apart (s, n) r"
proof -
  obtain b where b: "b \<in> set slabs" "in_slab b (if b = hd slabs then unat (m_bump_ptr a) else unat b + 65536) r"
    using arena_invD(10) [OF inv r] by blast
  note w = arena_invD(9) [OF inv ne]
  show ?thesis
  proof (cases "b = hd slabs")
    case True
    then show ?thesis using b(2) s by (cases r) (auto simp: in_slab_def)
  next
    case False
    then show ?thesis
      using b w s n slabs_apart [OF arena_slab(1) [OF inv b(1)] arena_slab(1) [OF inv, of "hd slabs"]] ne
      by (cases r) (auto simp: in_slab_def)
  qed
qed

lemma fast_path_inv:
  assumes inv: "arena_inv a p m fl out slabs live" and ne: "slabs \<noteq> []" and k: "k \<le> 6"
    and addr: "addr = align_up (m_bump_ptr a) (2 ^ k)" and small: "unat bytes \<le> 65472"
    and fit: "addr + bytes \<le> m_bump_end a"
    and a': "a' = a\<lparr>m_bump_ptr := addr + bytes, m_allocated_bytes := m_allocated_bytes a + bytes\<rparr>"
  shows "arena_inv a' p m fl out slabs ((unat addr, unat bytes) # live)" and "2 ^ k dvd unat addr" and "addr \<noteq> 0"
proof -
  note w = arena_invD(9) [OF inv ne]
  have hd: "hd slabs \<in> set slabs" using ne by simp
  note s = arena_slab [OF inv hd]
  have room: "unat (m_bump_ptr a) + 2 ^ k \<le> 2 ^ 64" using window_end_room [OF s _ k] w by simp
  note al = align_up_bounds [of k "m_bump_ptr a", OF _ room]
  have b: "unat (m_bump_ptr a) \<le> unat addr" "unat addr < unat (m_bump_ptr a) + 2 ^ k" "2 ^ k dvd unat addr"
    using al k by (auto simp: addr)
  have "(2::nat) ^ k \<le> 2 ^ 6" using k by (intro power_increasing) auto
  then have "unat addr + unat bytes < unat (hd slabs) + 65536 + 65536" using b(2) w small by simp
  also have "\<dots> \<le> 2 ^ 64" using s by (rule slab_end_room)
  finally have nowrap: "unat (addr + bytes) = unat addr + unat bytes" by (simp add: unat_add_lt)
  have le: "unat addr + unat bytes \<le> unat (m_bump_end a)" using fit nowrap by (simp add: word_le_nat_alt)
  show "2 ^ k dvd unat addr" by (rule b(3))
  show "addr \<noteq> 0" using b(1) w by auto
  have new: "\<forall>r \<in> set live. apart (unat addr, unat bytes) r" using above_bump_apart [OF inv ne b(1) le] by blast
  have "\<exists>b \<in> set slabs. in_slab b (if b = hd slabs then unat (m_bump_ptr a') else unat b + 65536) r"
    if r: "r \<in> set ((unat addr, unat bytes) # live)" for r
  proof (cases "r = (unat addr, unat bytes)")
    case True
    then show ?thesis using hd b(1) w nowrap by (intro bexI [of _ "hd slabs"]) (auto simp: in_slab_def a')
  next
    case False
    then obtain c where "c \<in> set slabs" "in_slab c (if c = hd slabs then unat (m_bump_ptr a) else unat c + 65536) r"
      using r arena_invD(10) [OF inv, of r] by auto
    then show ?thesis using b(1) nowrap by (intro bexI [of _ c]) (auto simp: in_slab_def a')
  qed
  then show "arena_inv a' p m fl out slabs ((unat addr, unat bytes) # live)"
    using inv new nowrap le b(1) w ne unfolding arena_inv_def by (auto simp: a')
qed

text \<open>The slow path: a new slab in front of the chain.\<close>

lemma new_slab_inv:
  assumes inv: "arena_inv a p m fl out slabs live" and fresh: "fresh_alloc p (m_chunk_slabs p) m"
    and acq: "acquire_slab new_ok p m = (s, p', m1)" and s0: "s \<noteq> 0"
    and k: "k \<le> 6" and bytes: "unat bytes \<le> 65472"
    and res: "allocate_from_new_slab s bytes (2 ^ k) a m1 = (addr, a', m')"
  shows "\<exists>fl'. arena_inv a' p' m' fl' (s # out) (s # slabs) ((unat addr, unat bytes) # live)"
    and "2 ^ k dvd unat addr" and "addr \<noteq> 0"
proof -
  note d = arena_invD [OF inv]
  obtain fl' where link: "pool_inv p' (set_slab_next s (m_head_slab a) m1) fl' (s # out)"
      "chain (slab_next (set_slab_next s (m_head_slab a) m1)) s (s # slabs)"
    using pool.acquire_and_link [OF d(2) fresh acq s0 d(3,5)] by blast
  have reg: "65536 dvd unat s" "unat s + 65536 < 2 ^ 64" using pool_slab_region(2,3) [OF link(1), of s] by auto
  note win = slab_window [OF reg]
  have addr: "addr = payload s" and m': "m' = set_slab_next s (m_head_slab a) m1"
    and a': "a' = a\<lparr>m_head_slab := s, m_tail_slab := (if m_tail_slab a = 0 then s else m_tail_slab a),
        m_current_slab := s, m_slab_count := m_slab_count a + 1, m_bump_ptr := payload s + bytes,
        m_bump_end := s + SLAB_SIZE, m_allocated_bytes := m_allocated_bytes a + bytes\<rparr>"
    using res win(3) [OF k] by (auto simp: allocate_from_new_slab_def Let_def)
  have end_nat: "unat (payload s + bytes) = unat s + 64 + unat bytes"
    using win(1) bytes reg(2) by (subst unat_add_lt) auto
  have "s \<notin> set out" using pool_invD(2) [OF link(1)] by simp
  then have sn: "s \<notin> set slabs" using d(5) by blast
  have dist: "distinct (s # slabs)" using sn d(4) by simp
  have tail: "m_tail_slab a' = last (s # slabs)"
  proof (cases "slabs = []")
    case True
    then show ?thesis using d(7) by (simp add: a')
  next
    case False
    have "last slabs \<noteq> 0" using chain_nonzero [OF d(3)] False by (metis last_in_set)
    then show ?thesis using d(7) False by (simp add: a')
  qed
  have "length (s # slabs) \<le> 2 ^ 48"
    using slabs_bound [OF dist] pool_slab_region(2) [OF link(1)] d(5) by auto
  then have cnt: "unat (m_slab_count a + 1) = length (s # slabs)" using d(8) by (subst unat_Suc_lt) auto
  have live: "\<exists>b \<in> set (s # slabs). in_slab b (if b = s then unat (payload s + bytes) else unat b + 65536) r"
    if r: "r \<in> set ((unat addr, unat bytes) # live)" for r
  proof (cases "r = (unat addr, unat bytes)")
    case True
    then show ?thesis using end_nat win(1) addr by (intro bexI [of _ s]) (auto simp: in_slab_def)
  next
    case False
    then obtain c where c: "c \<in> set slabs" "in_slab c (if c = hd slabs then unat (m_bump_ptr a) else unat c + 65536) r"
      using r d(10) [of r] by auto
    have "c \<noteq> s" using c(1) sn by blast
    moreover have "unat (m_bump_ptr a) \<le> unat (hd slabs) + 65536" using d(9) c(1) by (cases slabs) auto
    ultimately show ?thesis using c by (intro bexI [of _ c]) (auto simp: in_slab_def split: if_splits)
  qed
  have "apart (unat addr, unat bytes) r" if r: "r \<in> set live" for r
  proof -
    obtain c where c: "c \<in> set slabs" "in_slab c (if c = hd slabs then unat (m_bump_ptr a) else unat c + 65536) r"
      using d(10) [OF r] by blast
    have "unat (m_bump_ptr a) \<le> unat (hd slabs) + 65536" using d(9) c(1) by (cases slabs) auto
    then have "unat c + 64 \<le> fst r" "fst r + snd r \<le> unat c + 65536" using c by (auto simp: in_slab_def split: if_splits)
    moreover have "c \<noteq> s" using c(1) sn by blast
    ultimately show ?thesis
      using slabs_apart [OF arena_slab(1) [OF inv c(1)] reg(1)] addr win(1) bytes by (cases r) auto
  qed
  then have ap: "ranges_apart ((unat addr, unat bytes) # live)" using d(11) by simp
  have "arena_inv a' p' m' fl' (s # out) (s # slabs) ((unat addr, unat bytes) # live)"
    unfolding arena_inv_def
  proof (intro conjI ballI)
    show "m_has_pool a'" using d(1) by (simp add: a')
    show "pool_inv p' m' fl' (s # out)" using link(1) m' by simp
    show "chain (slab_next m') (m_head_slab a') (s # slabs)" using link(2) m' by (simp add: a')
    show "distinct (s # slabs)" by (rule dist)
    show "set (s # slabs) \<subseteq> set (s # out)" using d(5) by auto
    show "m_current_slab a' = m_head_slab a'" by (simp add: a')
    show "m_tail_slab a' = (if s # slabs = [] then 0 else last (s # slabs))" using tail by simp
    show "unat (m_slab_count a') = length (s # slabs)" using cnt by (simp add: a')
    show "s # slabs \<noteq> [] \<longrightarrow> unat (hd (s # slabs)) + 64 \<le> unat (m_bump_ptr a') \<and>
      unat (m_bump_ptr a') \<le> unat (m_bump_end a') \<and> unat (m_bump_end a') = unat (hd (s # slabs)) + 65536"
      using end_nat win(2) bytes by (simp add: a')
    show "ranges_apart ((unat addr, unat bytes) # live)" by (rule ap)
    fix r assume "r \<in> set ((unat addr, unat bytes) # live)"
    then show "\<exists>b\<in>set (s # slabs). in_slab b (if b = hd (s # slabs) then unat (m_bump_ptr a') else unat b + 65536) r"
      using live [of r] by (auto simp: a' split: if_splits)
  qed
  then show "\<exists>fl'. arena_inv a' p' m' fl' (s # out) (s # slabs) ((unat addr, unat bytes) # live)" by blast
  show "2 ^ k dvd unat addr"
    using win(4) [OF k] addr by simp
  show "addr \<noteq> 0" using addr win(1) by auto
qed

lemma acquire_null_keeps:
  assumes inv: "arena_inv a p m fl out slabs live" and fresh: "fresh_alloc p (m_chunk_slabs p) m"
    and acq: "acquire_slab new_ok p m = (0, p', m')"
  shows "arena_inv a p' m' fl out slabs live" and "fl = []"
proof -
  have "p' = p" "fl = []" "slab_next m' = slab_next m"
    using acquire_slab_inv [OF arena_invD(2) [OF inv] fresh acq] by auto
  then show "arena_inv a p' m' fl out slabs live" "fl = []"
    using inv pool_inv_world [of m' m p fl out] by (auto simp: arena_inv_def)
qed

lemma allocate_small:
  assumes inv: "arena_inv a p m fl out slabs live" and fresh: "fresh_alloc p (m_chunk_slabs p) m"
    and k: "k \<le> 6" and bytes: "bytes \<noteq> 0" "bytes \<le> PAYLOAD_SIZE"
    and res: "allocate new_ok bytes (2 ^ k) a p m = (addr, a', p', m')"
  shows "(addr = 0 \<and> fl = [] \<and> a' = a \<and> arena_inv a' p' m' fl out slabs live)
    \<or> (addr \<noteq> 0 \<and> 2 ^ max k 4 dvd unat addr
       \<and> (\<exists>fl' out' slabs'. arena_inv a' p' m' fl' out' slabs' ((unat addr, unat bytes) # live)))"
proof -
  let ?k = "max k 4" and ?al = "align_up (m_bump_ptr a) (2 ^ max k 4)"
  have k6: "?k \<le> 6" using k by simp
  have eff: "(if (2 ^ k :: usize) < MAX_ALIGN then MAX_ALIGN else 2 ^ k) = 2 ^ ?k" using k by (intro effective_alignment) simp
  have small: "unat bytes \<le> 65472"
    using bytes(2) by (simp add: word_le_nat_alt PAYLOAD_SIZE_def SLAB_SIZE_def HEADER_SIZE_def CACHELINE_SIZE_def)
  have cl: "(2 ^ ?k :: usize) \<le> CACHELINE_SIZE"
  proof -
    have "(2::nat) ^ ?k \<le> 2 ^ 6" using k6 by (intro power_increasing) auto
    then show ?thesis using k6 by (simp add: word_le_nat_alt unat_pow2 CACHELINE_SIZE_def)
  qed
  show ?thesis
  proof (cases "m_current_slab a \<noteq> 0 \<and> ?al + bytes \<le> m_bump_end a")
    case True
    then have r: "addr = ?al" "p' = p" "m' = m"
      "a' = a\<lparr>m_bump_ptr := addr + bytes, m_allocated_bytes := m_allocated_bytes a + bytes\<rparr>"
      using res bytes(1) unfolding allocate_def Let_def eff by auto
    have ne: "slabs \<noteq> []" using True arena_invD(3,6) [OF inv] by auto
    have fit: "addr + bytes \<le> m_bump_end a" using True r(1) by simp
    show ?thesis using fast_path_inv [OF inv ne k6 r(1) small fit r(4)] r(2,3) by blast
  next
    case False
    then have slow: "allocate_slow new_ok bytes (2 ^ ?k) a p m = (addr, a', p', m')"
      using res bytes(1) unfolding allocate_def Let_def eff by auto
    obtain s p1 m1 where acq: "acquire_slab new_ok p m = (s, p1, m1)" by (metis prod_cases3)
    show ?thesis
    proof (cases "s = 0")
      case True
      then have "addr = 0" "a' = a" "p' = p1" "m' = m1"
        using slow acq bytes(2) cl arena_invD(1) [OF inv] by (auto simp: allocate_slow_def)
      then show ?thesis using acquire_null_keeps [OF inv fresh] acq True by blast
    next
      case False
      obtain x b m2 where nw: "allocate_from_new_slab s bytes (2 ^ ?k) a m1 = (x, b, m2)" by (metis prod_cases3)
      then have "addr = x" "a' = b" "p' = p1" "m' = m2"
        using slow acq bytes(2) cl arena_invD(1) [OF inv] False by (auto simp: allocate_slow_def)
      then show ?thesis using new_slab_inv [OF inv fresh acq False k6 small nw] by blast
    qed
  qed
qed

section \<open>Reset and oversized blocks\<close>

lemma free_oversized_keeps [simp]: "slab_next (fold (free_oversized p a) bs m) = slab_next m"
  by (induction bs arbitrary: m) (auto simp: free_oversized_def)

definition oversized_blocks :: "slab_arena \<Rightarrow> (u64 \<times> usize \<times> usize) multiset" where
  "oversized_blocks a = mset (map (\<lambda>b. (raw_ptr b, ob_total_bytes b, ob_alignment b)) (m_oversized a))"

lemma free_oversized_live:
  assumes "callbacks_track (m_callbacks p) live" and "is_valid (m_callbacks p)" and "m_has_pool a"
  shows "live (world (fold (free_oversized p a) bs m)) =
    live (world m) - mset (map (\<lambda>b. (raw_ptr b, ob_total_bytes b, ob_alignment b)) bs)"
  using assms by (induction bs arbitrary: m) (auto simp: free_oversized_def live_free)

text \<open>The release step of a reset.\<close>

definition reset_release :: "slab_arena \<Rightarrow> 'w block_pool \<Rightarrow> 'w memory \<Rightarrow> 'w block_pool \<times> 'w memory" where
  "reset_release a p m = (if m_head_slab a \<noteq> 0
     then release_slab_chain (m_head_slab a) (m_tail_slab a) (m_slab_count a) p m else (p, m))"

lemma arena_reset_eq:
  assumes "m_has_pool a" and "reset_release a p m = (p1, m1)"
    and "m_head_slab a = 0 \<Longrightarrow> m_tail_slab a = 0 \<and> m_current_slab a = 0"
  shows "arena_reset a p m = (SlabArena_new True, p1, fold (free_oversized p1 a) (m_oversized a) m1)"
proof (cases "m_head_slab a = 0")
  case True
  then have "p1 = p" "m1 = m" using assms(2) by (simp_all add: reset_release_def)
  then show ?thesis using True assms(1,3) by (cases a) (simp add: arena_reset_def SlabArena_new_def)
next
  case False
  then have "release_slab_chain (m_head_slab a) (m_tail_slab a) (m_slab_count a) p m = (p1, m1)"
    using assms(2) by (simp add: reset_release_def)
  then show ?thesis using False assms(1) by (cases a) (simp add: arena_reset_def SlabArena_new_def)
qed

lemma reset_release_keeps:
  assumes "reset_release a p m = (p1, m1)"
  shows "m_callbacks p1 = m_callbacks p \<and> world m1 = world m"
  using assms release_keeps [of "m_head_slab a" "m_tail_slab a" "m_slab_count a" p m p1 m1]
  by (auto simp: reset_release_def split: if_splits)

lemma free_oversized_world:
  "m_callbacks q = m_callbacks p \<Longrightarrow> world k = world k' \<Longrightarrow>
     world (fold (free_oversized q a) bs k) = world (fold (free_oversized p a) bs k')"
proof (induction bs arbitrary: k k')
  case Nil
  then show ?case by simp
next
  case (Cons b bs)
  have "world (free_oversized q a b k) = world (free_oversized p a b k')"
    using Cons.prems by (simp add: free_oversized_def call_free_def split: option.split)
  then show ?case using Cons.IH Cons.prems(1) by simp
qed

lemma arena_reset_inv:
  assumes inv: "arena_inv a p m fl out slabs live" and out: "mset out = mset slabs + mset out'"
    and res: "arena_reset a p m = (a', p', m')"
  shows "a' = SlabArena_new True" and "pool_inv p' m' (slabs @ fl) out'" and "m_callbacks p' = m_callbacks p"
    and "world m' = world (fold (free_oversized p a) (m_oversized a) m)"
proof -
  note d = arena_invD [OF inv]
  obtain p1 m1 where rel: "reset_release a p m = (p1, m1)" by (cases "reset_release a p m")
  have head: "m_head_slab a = 0 \<longleftrightarrow> slabs = []" using d(3) chain_nonzero [OF d(3)] by (cases slabs) auto
  then have "arena_reset a p m = (SlabArena_new True, p1, fold (free_oversized p1 a) (m_oversized a) m1)"
    using d(6,7) by (intro arena_reset_eq [OF d(1) rel]) simp
  then have r: "a' = SlabArena_new True" "p' = p1" "m' = fold (free_oversized p1 a) (m_oversized a) m1" using res by simp_all
  show "a' = SlabArena_new True" by (rule r(1))
  note keep = reset_release_keeps [OF rel]
  show "m_callbacks p' = m_callbacks p" using keep r(2) by simp
  have "pool_inv p1 m1 (slabs @ fl) out'"
  proof (cases "slabs = []")
    case True
    then show ?thesis using rel head pool.invar_perm [OF d(2), of out'] out by (simp add: reset_release_def)
  next
    case False
    have "release_slab_chain (m_head_slab a) (last slabs) (m_slab_count a) p m = (p1, m1)"
      using rel head False d(7) by (simp add: reset_release_def)
    then show ?thesis by (rule pool.return_chain [OF d(2) out d(3) False d(8)])
  qed
  moreover have "slab_next m' = slab_next m1" using r(3) by simp
  ultimately show "pool_inv p' m' (slabs @ fl) out'" using r(2) pool_inv_world [of m' m1] by simp
  show "world m' = world (fold (free_oversized p a) (m_oversized a) m)"
    using keep r(3) free_oversized_world [of p1 p m1 m] by simp
qed

section \<open>Properties\<close>

text \<open>
  C20: An arena request of 1 to 65472 bytes with an alignment of at most 64. A non-null result is
  aligned to the request and to 16, lies with all its bytes in the payload of one of the arena's
  slabs, and is apart from every range handed out since the last reset; the invariant holds
  again with the new range. A null result means the pool is exhausted, and the arena is
  unchanged.
\<close>

theorem arena_allocate_apart:
  assumes "arena_inv a p m fl out slabs live" and "fresh_alloc p (m_chunk_slabs p) m"
    and "k \<le> 6" and "bytes \<noteq> 0" and "bytes \<le> PAYLOAD_SIZE"
    and "allocate new_ok bytes (2 ^ k) a p m = (addr, a', p', m')"
  shows "if addr = 0 then fl = [] \<and> a' = a \<and> arena_inv a' p' m' fl out slabs live
    else 2 ^ k dvd unat addr \<and> 16 dvd unat addr
      \<and> (\<forall>r \<in> set live. apart (unat addr, unat bytes) r)
      \<and> (\<exists>fl' out' slabs'. arena_inv a' p' m' fl' out' slabs' ((unat addr, unat bytes) # live))"
proof (cases "addr = 0")
  case True
  then show ?thesis using allocate_small [OF assms] by auto
next
  case False
  then obtain fl' out' slabs' where i: "arena_inv a' p' m' fl' out' slabs' ((unat addr, unat bytes) # live)"
    and d: "2 ^ max k 4 dvd unat addr" using allocate_small [OF assms] by blast
  have "2 ^ k dvd unat addr" "2 ^ 4 dvd unat addr" using d unat_le_imp_dvd by (meson max.cobounded1, meson max.cobounded2)
  moreover have "\<forall>r \<in> set live. apart (unat addr, unat bytes) r" using arena_invD(11) [OF i] by simp
  ultimately show ?thesis using i False by auto
qed

lemma new_arena_inv: "pool_inv p m fl out \<Longrightarrow> arena_inv (SlabArena_new True) p m fl out [] []"
  by (simp add: arena_inv_def SlabArena_new_def)

theorem arena_allocate_apart_witness:
  "case from_buffer True 0x10000 0x20000 demo_memory of (p, m) \<Rightarrow>
     (case allocate True 100 8 (SlabArena_new True) p m of (addr, a', p', m') \<Rightarrow> addr \<noteq> 0 \<and> 8 dvd unat addr)"
proof -
  obtain p m where pm: "from_buffer True 0x10000 0x20000 demo_memory = (p, m)"
    by (cases "from_buffer True 0x10000 0x20000 demo_memory")
  then have i: "pool_inv p m [0x10000, 0x20000] []" "fresh_alloc p (m_chunk_slabs p) m" using demo_pool_inv by auto
  obtain addr a' p' m' where r: "allocate True 100 8 (SlabArena_new True) p m = (addr, a', p', m')" by (metis prod_cases4)
  then have "allocate True 100 (2 ^ 3) (SlabArena_new True) p m = (addr, a', p', m')" by simp
  note arena_allocate_apart [OF new_arena_inv [OF i(1)] i(2) _ _ _ this]
  then show ?thesis
    using pm r by (auto simp: PAYLOAD_SIZE_def SLAB_SIZE_def HEADER_SIZE_def CACHELINE_SIZE_def split: if_splits)
qed

text \<open>
  C21: Reset gives everything back: the arena's slabs go to the front of the pool's free list, in
  the order of the chain, the slabs of other clients stay where they are, every oversized block
  is freed with the size and alignment it was obtained with, and the arena is as new.
\<close>

theorem arena_reset_returns:
  assumes "arena_inv a p m fl out slabs live" and "mset out = mset slabs + mset others"
    and "callbacks_track (m_callbacks p) blocks" and "is_valid (m_callbacks p)"
    and "arena_reset a p m = (a', p', m')"
  shows "a' = SlabArena_new True \<and> pool_inv p' m' (slabs @ fl) others
    \<and> blocks (world m') = blocks (world m) - oversized_blocks a"
  using arena_reset_inv [OF assms(1,2,5)] free_oversized_live [OF assms(3,4) arena_invD(1) [OF assms(1)]]
  by (simp add: oversized_blocks_def)

lemma bump_track: "callbacks_track bump_callbacks (mset \<circ> snd)"
  by (auto simp: callbacks_track_def bump_callbacks_def split: prod.splits)

theorem arena_reset_returns_witness:
  "case arena_reset ((SlabArena_new True)\<lparr>m_oversized := [\<lparr>raw_ptr = 0x50000, ob_total_bytes = 0x20060, ob_alignment = 64\<rparr>]\<rparr>)
      (empty_pool 1 True bump_callbacks) \<lparr>slab_next = (\<lambda>_. 0), world = (0x90000, [(0x50000, 0x20060, 64)])\<rparr> of
     (a', p', m') \<Rightarrow> a' = SlabArena_new True \<and> mset (snd (world m')) = {#}"
proof -
  let ?a = "(SlabArena_new True)\<lparr>m_oversized := [\<lparr>raw_ptr = 0x50000, ob_total_bytes = 0x20060, ob_alignment = 64\<rparr>]\<rparr>"
  let ?p = "empty_pool 1 True bump_callbacks" and ?m = "\<lparr>slab_next = (\<lambda>_. 0), world = (0x90000, [(0x50000, 0x20060, 64)])\<rparr>"
  obtain a' p' m' where r: "arena_reset ?a ?p ?m = (a', p', m')" by (metis prod_cases3)
  have "pool_inv ?p ?m [] []" by (rule empty_pool_growth_inv) simp_all
  then have i: "arena_inv ?a ?p ?m [] [] [] []" by (simp add: arena_inv_def SlabArena_new_def)
  have cb: "m_callbacks ?p = bump_callbacks" by (simp add: empty_pool_def)
  have "callbacks_track (m_callbacks ?p) (mset \<circ> snd)" "is_valid (m_callbacks ?p)"
    using bump_track cb by (simp_all add: is_valid_def bump_callbacks_def)
  from arena_reset_returns [OF i _ this r, of "[]"] show ?thesis using r by (simp add: oversized_blocks_def)
qed

text \<open>
  An oversized request, served by the callbacks. When the size with the block header and the
  alignment does not overflow and the block the callback returns lies in the address space, the
  result is aligned as requested and the requested bytes lie inside that block, behind its
  header.
\<close>

theorem oversized_inside_block:
  assumes "\<not> (bytes \<le> PAYLOAD_SIZE \<and> (2 ^ k :: usize) \<le> CACHELINE_SIZE)" and "k < 64"
    and "unat bytes + 32 + 2 ^ k < 2 ^ 64"
    and "allocate_slow new_ok bytes (2 ^ k) a p m = (addr, a', p', m')" and "m_oversized a' = b # m_oversized a"
    and "unat (raw_ptr b) + unat (ob_total_bytes b) < 2 ^ 64"
  shows "2 ^ k dvd unat addr \<and> unat (raw_ptr b) + 32 \<le> unat addr
    \<and> unat addr + unat bytes \<le> unat (raw_ptr b) + unat (ob_total_bytes b) \<and> p' = p"
proof -
  obtain raw m1 where raw: "(if m_has_pool a \<and> is_valid (m_callbacks p)
      then call_alloc (m_callbacks p) (bytes + OVERSIZED_HEADER + 2 ^ k)
        (if CACHELINE_SIZE < 2 ^ k then 2 ^ k else CACHELINE_SIZE) m else (0, m)) = (raw, m1)" by (metis surj_pair)
  have r: "raw \<noteq> 0" "addr = align_up (raw + OVERSIZED_HEADER) (2 ^ k)" "raw_ptr b = raw"
      "ob_total_bytes b = bytes + OVERSIZED_HEADER + 2 ^ k" "p' = p"
    using assms(1,4,5) raw by (auto simp: allocate_slow_def allocate_oversized_def Let_def split: prod.splits if_splits)
  have bh: "unat (bytes + OVERSIZED_HEADER) = unat bytes + 32"
    using assms(3) by (subst unat_add_lt) (auto simp: OVERSIZED_HEADER_def)
  have tot: "unat (bytes + OVERSIZED_HEADER + 2 ^ k) = unat bytes + 32 + 2 ^ k"
    using assms(2,3) bh by (subst unat_add_lt) (auto simp: unat_pow2)
  then have fit: "unat raw + (unat bytes + 32 + 2 ^ k) < 2 ^ 64" using assms(6) r(3,4) by simp
  have rh: "unat (raw + OVERSIZED_HEADER) = unat raw + 32" using fit by (subst unat_add_lt) (auto simp: OVERSIZED_HEADER_def)
  have "unat (raw + OVERSIZED_HEADER) + 2 ^ k \<le> 2 ^ 64" using fit rh by simp
  note al = align_up_bounds [OF assms(2) this]
  show ?thesis using al r tot rh by simp
qed

theorem oversized_inside_block_witness:
  "case allocate_slow True 0x20000 64 (SlabArena_new True) (empty_pool 1 True bump_callbacks)
      \<lparr>slab_next = (\<lambda>_. 0), world = (0x90000, [])\<rparr> of (addr, a', p', m') \<Rightarrow> 64 dvd unat addr \<and> addr \<noteq> 0"
proof -
  obtain addr a' p' m' where r: "allocate_slow True 0x20000 (2 ^ 6) (SlabArena_new True) (empty_pool 1 True bump_callbacks)
      \<lparr>slab_next = (\<lambda>_. 0), world = (0x90000, [])\<rparr> = (addr, a', p', m')" by (metis prod_cases4)
  have b: "m_oversized a' = \<lparr>raw_ptr = 0x90000, ob_total_bytes = 0x20060, ob_alignment = 64\<rparr> # m_oversized (SlabArena_new True)"
    using r by (auto simp: allocate_slow_def allocate_oversized_def SlabArena_new_def empty_pool_def is_valid_def
        bump_callbacks_def call_alloc_def OVERSIZED_HEADER_def CACHELINE_SIZE_def PAYLOAD_SIZE_def SLAB_SIZE_def
        HEADER_SIZE_def Let_def split: if_splits)
  have "2 ^ 6 dvd unat addr \<and> unat (0x90000 :: u64) + 32 \<le> unat addr"
    using oversized_inside_block [OF _ _ _ r b]
    by (simp add: PAYLOAD_SIZE_def SLAB_SIZE_def HEADER_SIZE_def CACHELINE_SIZE_def)
  then show ?thesis using r by (auto simp: unat_eq_zero)
qed

text \<open>
  The fast path does not guard its addition. A request of \<open>2 ^ 64 - 16\<close> bytes on an arena with
  a current slab succeeds, because the end of the range wraps to below the bump pointer, and it
  moves the bump pointer back by 16 bytes: the next 16-byte request is given the 16 bytes below
  the old bump pointer, which may be in use.
\<close>

theorem allocate_size_wraps:
  assumes "m_current_slab a \<noteq> 0" and "16 dvd unat (m_bump_ptr a)" and "16 \<le> unat (m_bump_ptr a)"
    and "m_bump_ptr a \<le> m_bump_end a"
  shows "\<exists>a1. allocate new_ok (- 16) 16 a p m = (m_bump_ptr a, a1, p, m)
    \<and> fst (allocate new_ok 16 16 a1 p m) = m_bump_ptr a - 16"
proof -
  let ?b = "m_bump_ptr a"
  have room: "unat x + 2 ^ 4 \<le> 2 ^ 64" if x: "16 dvd unat (x :: u64)" for x
  proof -
    obtain j where "unat x = 16 * j" using x by (rule dvdE)
    then show ?thesis using unsigned_less [of x, where 'a = nat] by simp
  qed
  have al: "align_up ?b 16 = ?b" using align_up_aligned [of 4 ?b, OF _ room [OF assms(2)]] assms(2) by simp
  have "unat (?b - 16) = unat ?b - 16" using assms(3) by (simp add: unat_diff_le word_le_nat_alt)
  moreover have "16 dvd unat ?b - 16" using assms(2) by simp
  ultimately have d: "16 dvd unat (?b - 16)" and le: "?b - 16 \<le> m_bump_end a"
    using assms(4) by (simp_all add: word_le_nat_alt)
  have al': "align_up (?b - 16) 16 = ?b - 16" using align_up_aligned [of 4 "?b - 16", OF _ room [OF d]] d by simp
  let ?a = "a\<lparr>m_bump_ptr := ?b - 16, m_allocated_bytes := m_allocated_bytes a + - 16\<rparr>"
  have "allocate new_ok (- 16) 16 a p m = (?b, ?a, p, m)"
    using assms(1) al le by (simp add: allocate_def MAX_ALIGN_def Let_def)
  moreover have "fst (allocate new_ok 16 16 ?a p m) = ?b - 16"
    using assms(1,4) al' by (simp add: allocate_def MAX_ALIGN_def Let_def)
  ultimately show ?thesis by blast
qed

theorem allocate_size_wraps_witness:
  "\<exists>a1. allocate True (- 16) 16 ((SlabArena_new True)\<lparr>m_current_slab := 0x10000, m_bump_ptr := 0x10050, m_bump_end := 0x20000\<rparr>)
      (empty_pool 1 True bump_callbacks) \<lparr>slab_next = (\<lambda>_. 0), world = (0x90000, [])\<rparr>
    = (0x10050, a1, empty_pool 1 True bump_callbacks, \<lparr>slab_next = (\<lambda>_. 0), world = (0x90000, [])\<rparr>)"
  using allocate_size_wraps [of "(SlabArena_new True)\<lparr>m_current_slab := 0x10000, m_bump_ptr := 0x10050, m_bump_end := 0x20000\<rparr>"
      True "empty_pool 1 True bump_callbacks" "\<lparr>slab_next = (\<lambda>_. 0), world = (0x90000, [])\<rparr>"]
  by auto

end
