(* ===== verification/Task_Graph.thy ===== *)
theory Task_Graph
  imports Task_Types
begin

text \<open>
  The task graph: \<^verbatim>\<open>task_node.hpp\<close>, \<^verbatim>\<open>task_graph.hpp\<close> and \<^verbatim>\<open>task_graph.cpp\<close>. Nodes live in a store
  from node numbers to records; an intrusive list is a list. The record \<open>engine\<close> holds one
  graph, the wait-set of the reactor, the two thread-local variables of the executing thread,
  and the program state \<open>user\<close> that the user's callables act on.

  The graph calls the scheduler in two ways only, \<open>schedule\<close> and \<open>notifyWorker\<close>, and reads nothing
  back, so both are appended to the list \<open>requests\<close> in call order; the scheduler theory says what
  they do to its queues. \<open>arena.create\<close> is taken to succeed, as the code does: it uses the result
  without a test.
\<close>

section \<open>Nodes and edges\<close>

record successor_edge =
  target :: node_ptr
  branch :: int
  isLoopBack :: bool

text \<open>
  What \<open>executeFn\<close> does: nothing when it is null, run a callable, or run a condition and keep its
  branch index.
\<close>

datatype 'u task_fn = NullFn | RunFn "'u \<Rightarrow> 'u" | CondFn "'u \<Rightarrow> int \<times> 'u"

record 'u task_node =
  node_index :: u32
  priority :: TaskPriority
  domain :: TaskDomain
  node_type :: TaskType
  node_state :: TaskState
  inDegree :: u32
  initialInDegree :: u32
  userData :: int
  executeFn :: "'u task_fn"
  successors :: "successor_edge list"
  has_graph :: bool
  node_name :: string

definition TaskNode_default :: "'u task_node" where
  "TaskNode_default =
     \<lparr>node_index = 0, priority = Normal, domain = Worker, node_type = Static, node_state = Pending,
      inDegree = 0, initialInDegree = 0, userData = 0, executeFn = NullFn, successors = [],
      has_graph = False, node_name = ''''\<rparr>"

definition setCallable :: "('u \<Rightarrow> 'u) \<Rightarrow> 'u task_node \<Rightarrow> 'u task_node" where
  "setCallable f n = n\<lparr>executeFn := RunFn f\<rparr>"

definition setConditionCallable :: "('u \<Rightarrow> int \<times> 'u) \<Rightarrow> 'u task_node \<Rightarrow> 'u task_node" where
  "setConditionCallable f n = n\<lparr>node_type := Condition, executeFn := CondFn f\<rparr>"

definition node_destroy :: "'u task_node \<Rightarrow> 'u task_node" where
  "node_destroy n = n\<lparr>executeFn := NullFn\<rparr>"

section \<open>The engine state\<close>

record timeline_sync_point =
  handle :: u64
  sync_value :: u64
  timeoutMs :: int

text \<open>A wait node; \<open>registeredTime\<close> is in nanoseconds of the steady clock.\<close>

record wait_node =
  wait_task :: node_ptr
  syncPoint :: timeline_sync_point
  registeredTime :: int
  satisfied :: bool

type_synonym wait_id = nat

datatype request = Schedule node_id bool | NotifyWorker u32

record 'u engine =
  nodes :: "node_id \<Rightarrow> 'u task_node"
  next_node :: node_id
  wait_nodes :: "wait_id \<Rightarrow> wait_node"
  next_wait :: wait_id
  m_nodeList :: "node_id list"
  m_waitList :: "wait_id list"
  m_nodeCount :: u32
  m_pendingTasks :: u32
  m_hasScheduler :: bool
  r_waitSet :: "wait_id list"
  r_pendingCount :: u32
  r_hasTimeout :: bool
  requests :: "request list"
  t_canInlineTask :: bool
  t_nextInlineTask :: node_ptr
  user :: 'u

definition upd_node :: "node_id \<Rightarrow> ('u task_node \<Rightarrow> 'u task_node) \<Rightarrow> 'u engine \<Rightarrow> 'u engine" where
  "upd_node n f g = g\<lparr>nodes := (nodes g)(n := f (nodes g n))\<rparr>"

definition TaskGraph_new :: "'u \<Rightarrow> 'u engine" where
  "TaskGraph_new u =
     \<lparr>nodes = (\<lambda>_. TaskNode_default), next_node = 0,
      wait_nodes = (\<lambda>_. \<lparr>wait_task = None, syncPoint = \<lparr>handle = 0, sync_value = 0, timeoutMs = 2000\<rparr>,
                          registeredTime = 0, satisfied = False\<rparr>),
      next_wait = 0, m_nodeList = [], m_waitList = [], m_nodeCount = 0, m_pendingTasks = 0,
      m_hasScheduler = False, r_waitSet = [], r_pendingCount = 0, r_hasTimeout = False,
      requests = [], t_canInlineTask = False, t_nextInlineTask = None, user = u\<rparr>"

section \<open>Building a graph\<close>

definition appendNode :: "node_id \<Rightarrow> 'u engine \<Rightarrow> 'u engine" where
  "appendNode n g = g\<lparr>m_nodeList := m_nodeList g @ [n]\<rparr>"

text \<open>\<open>m_arena.create<TaskNode>()\<close> with the fields every builder sets.\<close>

definition create_node ::
  "string \<Rightarrow> TaskDomain \<Rightarrow> TaskPriority \<Rightarrow> TaskType \<Rightarrow> 'u task_fn \<Rightarrow> 'u engine \<Rightarrow> node_id \<times> 'u engine" where
  "create_node name d p ty fn g =
     (let n = next_node g
      in (n, g\<lparr>nodes := (nodes g)(n := TaskNode_default\<lparr>node_index := m_nodeCount g, node_name := name, domain := d,
                    priority := p, has_graph := True, node_type := ty, executeFn := fn\<rparr>),
               next_node := n + 1, m_nodeCount := m_nodeCount g + 1\<rparr>))"

definition emplace ::
  "string \<Rightarrow> TaskDomain \<Rightarrow> TaskPriority \<Rightarrow> ('u \<Rightarrow> 'u) \<Rightarrow> 'u engine \<Rightarrow> node_id \<times> 'u engine" where
  "emplace name d p f g =
     (let (n, g) = create_node name d p Static NullFn g;
          g = upd_node n (setCallable f) g
      in (n, appendNode n g))"

definition emplaceCondition ::
  "string \<Rightarrow> TaskDomain \<Rightarrow> TaskPriority \<Rightarrow> ('u \<Rightarrow> int \<times> 'u) \<Rightarrow> 'u engine \<Rightarrow> node_id \<times> 'u engine" where
  "emplaceCondition name d p f g =
     (let (n, g) = create_node name d p Static NullFn g;
          g = upd_node n (setConditionCallable f) g
      in (n, appendNode n g))"

text \<open>
  \<open>reaches\<close>: breadth-first search with the two arrays of 128 entries. They grow together, so one
  list stands for both; \<open>head\<close> is the read position of the queue.
\<close>

definition MAX_VISITED :: nat where
  "MAX_VISITED = 128"

fun reaches_scan :: "node_id \<Rightarrow> successor_edge list \<Rightarrow> node_id list \<Rightarrow> bool \<times> node_id list" where
  "reaches_scan t [] visited = (False, visited)"
| "reaches_scan t (e # es) visited =
     (case target e of
        None \<Rightarrow> reaches_scan t es visited
      | Some succ \<Rightarrow>
          if succ = t then (True, visited)
          else if succ \<in> set visited \<or> \<not> length visited < MAX_VISITED then reaches_scan t es visited
          else reaches_scan t es (visited @ [succ]))"

text \<open>Every pass advances \<open>head\<close>, and \<open>head < tail \<le> 128\<close>, so 129 passes are enough.\<close>

fun reaches_loop :: "nat \<Rightarrow> (node_id \<Rightarrow> successor_edge list) \<Rightarrow> node_id \<Rightarrow> nat \<Rightarrow> node_id list \<Rightarrow> bool" where
  "reaches_loop 0 succs t head visited = False"
| "reaches_loop (Suc k) succs t head visited =
     (if head < length visited then
        let curr = visited ! head
        in if curr = t then True
           else let (found, visited) = reaches_scan t (succs curr) visited
                in if found then True else reaches_loop k succs t (head + 1) visited
      else False)"

definition reaches :: "node_ptr \<Rightarrow> node_ptr \<Rightarrow> 'u engine \<Rightarrow> bool" where
  "reaches start t g =
     (case (start, t) of
        (Some s, Some t) \<Rightarrow> if s = t then True
          else reaches_loop (MAX_VISITED + 1) (\<lambda>n. successors (nodes g n)) t 0 [s]
      | _ \<Rightarrow> False)"

definition addEdge :: "node_id \<Rightarrow> node_id \<Rightarrow> int \<Rightarrow> 'u engine \<Rightarrow> 'u engine" where
  "addEdge from to br g =
     (let g = upd_node from (\<lambda>n. n\<lparr>successors :=
                \<lparr>target = Some to, branch = br, isLoopBack = False\<rparr> # successors n\<rparr>) g;
          isLoop = ((node_type (nodes g from) = Condition \<or> 0 \<le> br) \<and> reaches (Some to) (Some from) g);
          g = upd_node from (\<lambda>n. n\<lparr>successors :=
                (hd (successors n))\<lparr>isLoopBack := isLoop\<rparr> # tl (successors n)\<rparr>) g
      in if isLoop then g
         else upd_node to (\<lambda>n. n\<lparr>initialInDegree := initialInDegree n + 1, inDegree := initialInDegree n + 1\<rparr>) g)"

definition registerWait :: "wait_id \<Rightarrow> 'u engine \<Rightarrow> 'u engine" where
  "registerWait w g = g\<lparr>r_waitSet := w # r_waitSet g, r_pendingCount := r_pendingCount g + 1\<rparr>"

definition addWaitPoint :: "int \<Rightarrow> node_id \<Rightarrow> timeline_sync_point \<Rightarrow> 'u engine \<Rightarrow> 'u engine" where
  "addWaitPoint now n sp g =
     (let w = next_wait g;
          wn = \<lparr>wait_task = Some n, syncPoint = sp, registeredTime = 0, satisfied = False\<rparr>;
          g = g\<lparr>wait_nodes := (wait_nodes g)(w := wn), next_wait := w + 1\<rparr>;
          g = upd_node n (\<lambda>n. n\<lparr>initialInDegree := initialInDegree n + 1, inDegree := initialInDegree n + 1\<rparr>) g
      in if m_hasScheduler g
         then registerWait w (g\<lparr>wait_nodes := (wait_nodes g)(w := wn\<lparr>registeredTime := now\<rparr>)\<rparr>)
         else g\<lparr>m_waitList := w # m_waitList g\<rparr>)"

definition waits :: "int \<Rightarrow> node_id \<Rightarrow> timeline_sync_point \<Rightarrow> 'u engine \<Rightarrow> 'u engine" where
  "waits now n sp g = (if has_graph (nodes g n) then addWaitPoint now n sp g else g)"

definition clear :: "'u engine \<Rightarrow> 'u engine" where
  "clear g =
     (let g = fold (\<lambda>n. upd_node n node_destroy) (m_nodeList g) g
      in g\<lparr>m_nodeList := [], m_waitList := [], m_nodeCount := 0, m_pendingTasks := 0, m_hasScheduler := False\<rparr>)"

definition isCompleted :: "'u engine \<Rightarrow> bool" where
  "isCompleted g \<longleftrightarrow> m_pendingTasks g = 0"

section \<open>Running a graph\<close>

definition scheduleNode :: "node_id \<Rightarrow> bool \<Rightarrow> 'u engine \<Rightarrow> 'u engine" where
  "scheduleNode n notify g = (if m_hasScheduler g then g\<lparr>requests := requests g @ [Schedule n notify]\<rparr> else g)"

definition graph_notify :: "u32 \<Rightarrow> 'u engine \<Rightarrow> 'u engine" where
  "graph_notify k g = (if m_hasScheduler g then g\<lparr>requests := requests g @ [NotifyWorker k]\<rparr> else g)"

definition onTaskCompleted :: "node_id \<Rightarrow> 'u engine \<Rightarrow> 'u engine" where
  "onTaskCompleted n g = g\<lparr>m_pendingTasks := m_pendingTasks g - 1\<rparr>"

definition addPendingTasks :: "u32 \<Rightarrow> 'u engine \<Rightarrow> 'u engine" where
  "addPendingTasks k g = g\<lparr>m_pendingTasks := m_pendingTasks g + k\<rparr>"

text \<open>\<open>decrementActive()\<close> on a node of the store, and its overload that schedules.\<close>

definition node_decrementActive :: "node_id \<Rightarrow> 'u engine \<Rightarrow> bool \<times> 'u engine" where
  "node_decrementActive n g =
     (let (w, ready) = decrementActive (inDegree (nodes g n))
      in (ready, upd_node n (\<lambda>x. x\<lparr>inDegree := w\<rparr>) g))"

definition decrementActive_graph :: "node_id \<Rightarrow> bool \<Rightarrow> 'u engine \<Rightarrow> 'u engine" where
  "decrementActive_graph n has_g g =
     (let (ready, g) = node_decrementActive n g
      in if ready \<and> has_g then scheduleNode n True g else g)"

text \<open>The targets of a node's edges, null ones left out, in list order.\<close>

definition succ_targets :: "'u task_node \<Rightarrow> node_id list" where
  "succ_targets x = List.map_filter target (successors x)"

text \<open>
  \<open>decrementSkipped\<close> and \<open>cascadeSkip\<close>, which call each other: \<open>ts\<close> are the nodes on which
  \<open>decrementSkipped\<close> is still to be called, the innermost call first. The fuel bounds the number
  of those calls; \<open>None\<close> means it ran out.
\<close>

fun decrementSkipped :: "nat \<Rightarrow> bool \<Rightarrow> node_id list \<Rightarrow> 'u engine \<Rightarrow> 'u engine option" where
  "decrementSkipped fuel has_g [] g = Some g"
| "decrementSkipped 0 has_g (n # ts) g = None"
| "decrementSkipped (Suc fuel) has_g (n # ts) g =
     (case decrementSkipped_counter (inDegree (nodes g n)) of
        (w, e) \<Rightarrow>
          let g = upd_node n (\<lambda>x. x\<lparr>inDegree := w\<rparr>) g
          in case e of
               StillBlocked \<Rightarrow> decrementSkipped fuel has_g ts g
             | BecameReady \<Rightarrow> decrementSkipped fuel has_g ts (if has_g then scheduleNode n True g else g)
             | AllSkipped \<Rightarrow>
                 let g = upd_node n (\<lambda>x. x\<lparr>node_state := Skipped\<rparr>) g;
                     g = (if has_g then onTaskCompleted n g else g)
                 in decrementSkipped fuel has_g (succ_targets (nodes g n) @ ts) g)"

definition handleGpuTimeout :: "nat \<Rightarrow> node_id \<Rightarrow> bool \<Rightarrow> 'u engine \<Rightarrow> 'u engine option" where
  "handleGpuTimeout fuel n has_g g =
     (let g = upd_node n (\<lambda>x. x\<lparr>node_state := Timeout\<rparr>) g;
          g = (if has_g then onTaskCompleted n g else g)
      in decrementSkipped fuel has_g (succ_targets (nodes g n)) g)"

text \<open>
  The body of the two successor loops for an edge that is taken: decrement, and on release keep
  the successor as the inline continuation or schedule it and count it for the batched wake-up.
\<close>

definition release_successor :: "bool \<Rightarrow> node_id \<Rightarrow> u32 \<times> 'u engine \<Rightarrow> u32 \<times> 'u engine" where
  "release_successor has_g succ = (\<lambda>(unblocked, g).
     let (ready, g) = node_decrementActive succ g
     in if \<not> ready then (unblocked, g)
        else if t_canInlineTask g \<and> t_nextInlineTask g = None \<and> domain (nodes g succ) = Worker
        then (unblocked, g\<lparr>t_nextInlineTask := Some succ\<rparr>)
        else if has_g then
          let g = scheduleNode succ False g
          in if domain (nodes g succ) = Worker then
               let unblocked = unblocked + 1
               in if 64 \<le> unblocked then (0, graph_notify unblocked g) else (unblocked, g)
             else (unblocked, g)
        else (unblocked, g))"

fun unblock_static :: "bool \<Rightarrow> successor_edge list \<Rightarrow> u32 \<times> 'u engine \<Rightarrow> u32 \<times> 'u engine" where
  "unblock_static has_g [] s = s"
| "unblock_static has_g (e # es) s =
     (case target e of
        None \<Rightarrow> unblock_static has_g es s
      | Some succ \<Rightarrow> unblock_static has_g es (release_successor has_g succ s))"

fun unblock_condition ::
  "nat \<Rightarrow> bool \<Rightarrow> int \<Rightarrow> successor_edge list \<Rightarrow> u32 \<times> 'u engine \<Rightarrow> (u32 \<times> 'u engine) option" where
  "unblock_condition fuel has_g chosen [] s = Some s"
| "unblock_condition fuel has_g chosen (e # es) (unblocked, g) =
     (case target e of
        None \<Rightarrow> unblock_condition fuel has_g chosen es (unblocked, g)
      | Some succ \<Rightarrow>
          if branch e = -1 \<or> branch e = chosen
          then unblock_condition fuel has_g chosen es (release_successor has_g succ (unblocked, g))
          else if \<not> isLoopBack e
          then (case decrementSkipped fuel has_g [succ] g of None \<Rightarrow> None
                | Some g \<Rightarrow> unblock_condition fuel has_g chosen es (unblocked, g))
          else unblock_condition fuel has_g chosen es (unblocked, g))"

text \<open>The nodes of the cycle closed by a loop-back edge: breadth-first, at most 64.\<close>

definition MAX_CYCLE :: nat where
  "MAX_CYCLE = 64"

fun cycle_scan :: "node_id \<Rightarrow> successor_edge list \<Rightarrow> 'u engine \<Rightarrow> node_id list \<Rightarrow> node_id list" where
  "cycle_scan this [] g cycle = cycle"
| "cycle_scan this (e # es) g cycle =
     (case target e of
        None \<Rightarrow> cycle_scan this es g cycle
      | Some succ \<Rightarrow>
          if \<not> isLoopBack e \<and> reaches (Some succ) (Some this) g
             \<and> succ \<notin> set cycle \<and> length cycle < MAX_CYCLE
          then cycle_scan this es g (cycle @ [succ])
          else cycle_scan this es g cycle)"

fun cycle_loop :: "nat \<Rightarrow> node_id \<Rightarrow> 'u engine \<Rightarrow> nat \<Rightarrow> node_id list \<Rightarrow> node_id list" where
  "cycle_loop 0 this g head cycle = cycle"
| "cycle_loop (Suc k) this g head cycle =
     (if head < length cycle
      then cycle_loop k this g (head + 1) (cycle_scan this (successors (nodes g (cycle ! head))) g cycle)
      else cycle)"

definition cycle_nodes :: "node_id \<Rightarrow> node_id \<Rightarrow> 'u engine \<Rightarrow> node_id list" where
  "cycle_nodes this t g = (if t = this then [this] else cycle_loop (MAX_CYCLE + 1) this g 0 [t])"

definition take_loop_back :: "node_id \<Rightarrow> node_id \<Rightarrow> 'u engine \<Rightarrow> 'u engine" where
  "take_loop_back this t g =
     (let cycle = cycle_nodes this t g;
          g = fold (\<lambda>n g. upd_node n (\<lambda>x. x\<lparr>inDegree := (if n \<noteq> t then initialInDegree x else inDegree x),
                                           node_state := Pending\<rparr>) g) cycle g
      in if has_graph (nodes g this)
         then scheduleNode t True (addPendingTasks (of_nat (length cycle)) g)
         else g)"

definition finish_unblock :: "bool \<Rightarrow> u32 \<times> 'u engine \<Rightarrow> 'u engine" where
  "finish_unblock has_g = (\<lambda>(unblocked, g). if 0 < unblocked \<and> has_g then graph_notify unblocked g else g)"

definition unblockSuccessors :: "nat \<Rightarrow> node_id \<Rightarrow> 'u engine \<Rightarrow> 'u engine option" where
  "unblockSuccessors fuel n g =
     (let x = nodes g n; has_g = has_graph x
      in if node_type x = Condition then
           let chosenBranch = userData x
           in case find (\<lambda>e. (branch e = -1 \<or> branch e = chosenBranch) \<and> isLoopBack e) (successors x) of
                Some e \<Rightarrow> (case target e of None \<Rightarrow> Some g | Some t \<Rightarrow> Some (take_loop_back n t g))
              | None \<Rightarrow>
                  (case unblock_condition fuel has_g chosenBranch (successors x) (0, g) of
                     None \<Rightarrow> None | Some s \<Rightarrow> Some (finish_unblock has_g s))
         else Some (finish_unblock has_g (unblock_static has_g (successors x) (0, g))))"

definition run_callable :: "node_id \<Rightarrow> 'u engine \<Rightarrow> 'u engine" where
  "run_callable n g =
     (case executeFn (nodes g n) of
        NullFn \<Rightarrow> g
      | RunFn f \<Rightarrow> g\<lparr>user := f (user g)\<rparr>
      | CondFn f \<Rightarrow> (case f (user g) of (b, u) \<Rightarrow> upd_node n (\<lambda>x. x\<lparr>userData := b\<rparr>) (g\<lparr>user := u\<rparr>)))"

definition execute :: "nat \<Rightarrow> node_id \<Rightarrow> 'u engine \<Rightarrow> 'u engine option" where
  "execute fuel n g =
     (let g = upd_node n (\<lambda>x. x\<lparr>node_state := Executing\<rparr>) g;
          g = run_callable n g;
          g = upd_node n (\<lambda>x. x\<lparr>node_state := Completed\<rparr>) g
      in case unblockSuccessors fuel n g of
           None \<Rightarrow> None
         | Some g \<Rightarrow> Some (if has_graph (nodes g n) then onTaskCompleted n g else g))"

text \<open>The three passes of \<open>prepareRun\<close>.\<close>

definition reset_node :: "node_id \<Rightarrow> 'u engine \<Rightarrow> 'u engine" where
  "reset_node n g = upd_node n (\<lambda>x. x\<lparr>inDegree := initialInDegree x, node_state := Pending\<rparr>) g"

definition rearm_wait :: "int \<Rightarrow> wait_id \<Rightarrow> 'u engine \<Rightarrow> 'u engine" where
  "rearm_wait now w g =
     registerWait w (g\<lparr>wait_nodes := (wait_nodes g)(w := (wait_nodes g w)\<lparr>satisfied := False, registeredTime := now\<rparr>)\<rparr>)"

definition schedule_root :: "node_id \<Rightarrow> u32 \<times> 'u engine \<Rightarrow> u32 \<times> 'u engine" where
  "schedule_root n = (\<lambda>(rootWorkerCount, g).
     if initialInDegree (nodes g n) = 0 then
       let g = scheduleNode n False g
       in if domain (nodes g n) = Worker then
            let rootWorkerCount = rootWorkerCount + 1
            in if 64 \<le> rootWorkerCount then (0, graph_notify rootWorkerCount g) else (rootWorkerCount, g)
          else (rootWorkerCount, g)
     else (rootWorkerCount, g))"

definition prepareRun :: "int \<Rightarrow> 'u engine \<Rightarrow> 'u engine" where
  "prepareRun now g =
     (let g = g\<lparr>m_hasScheduler := True, m_pendingTasks := m_nodeCount g\<rparr>
      in if m_nodeCount g = 0 then g
         else
           let g = fold reset_node (m_nodeList g) g;
               g = fold (rearm_wait now) (m_waitList g) g;
               (rootWorkerCount, g) = fold schedule_root (m_nodeList g) (0, g)
           in if 0 < rootWorkerCount then graph_notify rootWorkerCount g else g)"

end
