(* ===== verification/Graph_Run.thy ===== *)
theory Graph_Run
  imports Task_Graph
begin

text \<open>
  Executing an acyclic graph. A run executes scheduled nodes one at a time, in any order the
  scheduler may choose; each execution is the whole \<open>TaskNode::execute\<close>. The invariant relates
  the packed counters of the nodes to the reports still to come, and the theorems say that a run
  executes a node at most once and never before a predecessor, cannot get stuck, and ends with
  every node settled and no pending task.
\<close>

section \<open>Reports still to come\<close>

text \<open>
  The nodes a request or the inline slot releases. \<open>NotifyWorker\<close> releases none.
\<close>

fun scheduled_of :: "request list \<Rightarrow> node_id list" where
  "scheduled_of [] = []"
| "scheduled_of (Schedule n b # rs) = n # scheduled_of rs"
| "scheduled_of (NotifyWorker k # rs) = scheduled_of rs"

definition released :: "'u engine \<Rightarrow> node_id multiset" where
  "released g = mset (scheduled_of (requests g)) + (case t_nextInlineTask g of None \<Rightarrow> {#} | Some n \<Rightarrow> {#n#})"

lemma scheduled_of_append [simp]: "scheduled_of (rs @ rs') = scheduled_of rs @ scheduled_of rs'"
  by (induction rs rule: scheduled_of.induct) auto

text \<open>The targets of a list of edges without null targets.\<close>

definition targets :: "successor_edge list \<Rightarrow> node_id list" where
  "targets es = map (\<lambda>e. the (target e)) es"

text \<open>
  Reports outstanding when the nodes \<open>D\<close> of \<open>V\<close> are settled and the reports \<open>W\<close> of settled nodes
  are still to be delivered.
\<close>

definition outstanding ::
  "(node_id \<Rightarrow> successor_edge list) \<Rightarrow> node_id set \<Rightarrow> node_id set \<Rightarrow> node_id list \<Rightarrow> node_id multiset" where
  "outstanding es V D W = (\<Sum>v \<in> V - D. mset (targets (es v))) + mset W"

definition edges_ok :: "(node_id \<Rightarrow> successor_edge list) \<Rightarrow> node_id set \<Rightarrow> bool" where
  "edges_ok es V \<longleftrightarrow> (\<forall>v \<in> V. \<forall>e \<in> set (es v). \<not> isLoopBack e \<and> (\<exists>t \<in> V. target e = Some t))"

text \<open>
  \<open>R\<close> are the nodes scheduled earlier and not yet executed; together with the ones released in
  this state they are exactly the unsettled nodes without an outstanding report, each once.
  \<open>extra\<close> counts nodes that are settled but not yet reported to \<open>onTaskCompleted\<close>.
\<close>

definition run_inv ::
  "(node_id \<Rightarrow> successor_edge list) \<Rightarrow> node_id set \<Rightarrow> node_id multiset \<Rightarrow> nat \<Rightarrow> node_id set \<Rightarrow> node_id list \<Rightarrow> 'u engine \<Rightarrow> bool" where
  "run_inv es V R extra D W g \<longleftrightarrow>
     finite V \<and> edges_ok es V \<and> D \<subseteq> V \<and> set W \<subseteq> V \<and> m_hasScheduler g
     \<and> (\<forall>v \<in> V. has_graph (nodes g v) \<and> successors (nodes g v) = es v)
     \<and> (\<forall>t \<in> V. counter_ok (inDegree (nodes g t)) \<and> pending_reports (inDegree (nodes g t)) = count (outstanding es V D W) t)
     \<and> (\<forall>t. count (R + released g) t = (if t \<in> V - D \<and> count (outstanding es V D W) t = 0 then 1 else 0))
     \<and> (\<forall>t \<in> D. count (outstanding es V D W) t = 0)
     \<and> (\<forall>t \<in> V - D. node_state (nodes g t) = Pending)
     \<and> (\<forall>t \<in> D. node_state (nodes g t) = Completed \<or> node_state (nodes g t) = Skipped)
     \<and> m_pendingTasks g = of_nat (card (V - D) + extra)"

section \<open>One report\<close>

lemma outstanding_Cons: "outstanding es V D (w # W) = add_mset w (outstanding es V D W)"
  by (simp add: outstanding_def)

lemma outstanding_settle:
  assumes "finite V" and "w \<in> V - D"
  shows "outstanding es V (insert w D) (targets (es w) @ W) = outstanding es V D W"
proof -
  have "V - D = insert w (V - insert w D)" using assms(2) by auto
  then have "(\<Sum>v \<in> V - D. mset (targets (es v))) = mset (targets (es w)) + (\<Sum>v \<in> V - insert w D. mset (targets (es v)))"
    using assms(1) by (metis Diff_iff finite_Diff insertI1 sum.insert)
  then show ?thesis by (simp add: outstanding_def)
qed

lemma run_invD:
  assumes "run_inv es V R extra D W g"
  shows "finite V" and "edges_ok es V" and "D \<subseteq> V" and "set W \<subseteq> V" and "m_hasScheduler g"
    and "\<And>v. v \<in> V \<Longrightarrow> has_graph (nodes g v) \<and> successors (nodes g v) = es v"
    and "\<And>t. t \<in> V \<Longrightarrow> counter_ok (inDegree (nodes g t)) \<and> pending_reports (inDegree (nodes g t)) = count (outstanding es V D W) t"
    and "\<And>t. count (R + released g) t = (if t \<in> V - D \<and> count (outstanding es V D W) t = 0 then 1 else 0)"
    and "\<And>t. t \<in> D \<Longrightarrow> count (outstanding es V D W) t = 0"
    and "\<And>t. t \<in> V - D \<Longrightarrow> node_state (nodes g t) = Pending"
    and "\<And>t. t \<in> D \<Longrightarrow> node_state (nodes g t) = Completed \<or> node_state (nodes g t) = Skipped"
    and "m_pendingTasks g = of_nat (card (V - D) + extra)"
  using assms by (auto simp: run_inv_def)

lemma report_due:
  assumes "run_inv es V R extra D (w # W) g"
  shows "w \<in> V - D" and "counter_ok (inDegree (nodes g w))"
    and "pending_reports (inDegree (nodes g w)) = Suc (count (outstanding es V D W) w)"
    and "count (R + released g) w = 0"
proof -
  note d = run_invD [OF assms]
  have c: "count (outstanding es V D (w # W)) w = Suc (count (outstanding es V D W) w)"
    by (simp add: outstanding_Cons)
  then show w: "w \<in> V - D" using d(4) d(9) [of w] by auto
  show "counter_ok (inDegree (nodes g w))" using d(7) w by blast
  show "pending_reports (inDegree (nodes g w)) = Suc (count (outstanding es V D W) w)" using d(7) [of w] c w by simp
  show "count (R + released g) w = 0" using d(8) [of w] c by simp
qed

text \<open>A report that does not skip its node: it stays blocked, or it is released.\<close>

lemma report_delivered:
  assumes inv: "run_inv es V R extra D (w # W) g"
    and ev: "snd (report_step (inDegree (nodes g w)) r) \<noteq> AllSkipped"
    and nd: "nodes g' = (nodes g)(w := (nodes g w)\<lparr>inDegree := fst (report_step (inDegree (nodes g w)) r)\<rparr>)"
    and keep: "m_hasScheduler g' = m_hasScheduler g" "m_pendingTasks g' = m_pendingTasks g"
    and rel: "released g' = released g + (if snd (report_step (inDegree (nodes g w)) r) = BecameReady then {#w#} else {#})"
  shows "run_inv es V R extra D W g'"
proof -
  note d = run_invD [OF inv] and due = report_due [OF inv]
  have pos: "0 < pending_reports (inDegree (nodes g w))" using due(3) by simp
  note st = report_step_counts [OF due(2) pos, of r] and ev' = report_step_event [OF due(2) pos, of r]
  have ready: "snd (report_step (inDegree (nodes g w)) r) = BecameReady \<longleftrightarrow> count (outstanding es V D W) w = 0"
    using ev ev' due(3) by (auto simp: not_in_iff split: if_splits)
  have cnt: "count (outstanding es V D (w # W)) t = (if t = w then Suc (count (outstanding es V D W) w)
      else count (outstanding es V D W) t)" for t by (simp add: outstanding_Cons)
  show ?thesis
    unfolding run_inv_def
  proof (intro conjI ballI allI)
    show "finite V" "edges_ok es V" "D \<subseteq> V" "set W \<subseteq> V" "m_hasScheduler g'" using d(1-5) keep by auto
    show "m_pendingTasks g' = of_nat (card (V - D) + extra)" using d(12) keep by simp
    fix t
    show "t \<in> V \<Longrightarrow> has_graph (nodes g' t)" "t \<in> V \<Longrightarrow> successors (nodes g' t) = es t" using d(6) by (auto simp: nd)
    show "t \<in> V \<Longrightarrow> counter_ok (inDegree (nodes g' t))"
      using d(7) st(3) by (auto simp: nd)
    show "t \<in> V \<Longrightarrow> pending_reports (inDegree (nodes g' t)) = count (outstanding es V D W) t"
      using d(7) [of t] cnt [of t] st(1) due(3) by (auto simp: nd)
    show "count (R + released g') t = (if t \<in> V - D \<and> count (outstanding es V D W) t = 0 then 1 else 0)"
      using d(8) [of t] cnt [of t] due(1,4) ready
      by (cases "t = w") (simp_all add: rel count_eq_zero_iff split: if_splits)
    show "t \<in> D \<Longrightarrow> count (outstanding es V D W) t = 0" using d(9) [of t] cnt [of t] by (auto split: if_splits)
    show "t \<in> V - D \<Longrightarrow> node_state (nodes g' t) = Pending" using d(10) by (auto simp: nd)
    show "t \<in> D \<Longrightarrow> node_state (nodes g' t) = Completed \<or> node_state (nodes g' t) = Skipped"
      using d(11) [of t] by (auto simp: nd)
  qed
qed

text \<open>The last report of a node all of whose predecessors were skipped: the node is settled.\<close>

lemma report_skips:
  assumes inv: "run_inv es V R extra D (w # W) g"
    and ev: "snd (report_step (inDegree (nodes g w)) r) = AllSkipped"
    and nd: "nodes g' = (nodes g)(w := (nodes g w)\<lparr>inDegree := fst (report_step (inDegree (nodes g w)) r), node_state := Skipped\<rparr>)"
    and keep: "m_hasScheduler g' = m_hasScheduler g" "m_pendingTasks g' = m_pendingTasks g - 1" "released g' = released g"
  shows "run_inv es V R extra (insert w D) (targets (es w) @ W) g'"
proof -
  note d = run_invD [OF inv] and due = report_due [OF inv]
  have pos: "0 < pending_reports (inDegree (nodes g w))" using due(3) by simp
  note st = report_step_counts [OF due(2) pos, of r] and ev' = report_step_event [OF due(2) pos, of r]
  have last: "count (outstanding es V D W) w = 0" using ev ev' due(3) by (auto simp: not_in_iff split: if_splits)
  have out: "outstanding es V (insert w D) (targets (es w) @ W) = outstanding es V D W"
    by (rule outstanding_settle [OF d(1) due(1)])
  have cnt: "count (outstanding es V D (w # W)) t = (if t = w then Suc (count (outstanding es V D W) w)
      else count (outstanding es V D W) t)" for t by (simp add: outstanding_Cons)
  have card: "card (V - D) = Suc (card (V - insert w D))"
    using d(1) due(1) by (metis Diff_insert card_Suc_Diff1 finite_Diff)
  have tg: "set (targets (es w)) \<subseteq> V" using d(2) due(1) by (fastforce simp: edges_ok_def targets_def)
  show ?thesis
    unfolding run_inv_def out
  proof (intro conjI ballI allI)
    show "finite V" "edges_ok es V" "insert w D \<subseteq> V" "set (targets (es w) @ W) \<subseteq> V" "m_hasScheduler g'"
      using d(1-5) keep due(1) tg by auto
    show "m_pendingTasks g' = of_nat (card (V - insert w D) + extra)" using d(12) keep card by simp
    fix t
    show "t \<in> V \<Longrightarrow> has_graph (nodes g' t)" "t \<in> V \<Longrightarrow> successors (nodes g' t) = es t" using d(6) by (auto simp: nd)
    show "t \<in> V \<Longrightarrow> counter_ok (inDegree (nodes g' t))"
      using d(7) st(3) by (auto simp: nd)
    show "t \<in> V \<Longrightarrow> pending_reports (inDegree (nodes g' t)) = count (outstanding es V D W) t"
      using d(7) [of t] cnt [of t] st(1) due(3) by (auto simp: nd)
    show "count (R + released g') t = (if t \<in> V - insert w D \<and> count (outstanding es V D W) t = 0 then 1 else 0)"
      using d(8) [of t] cnt [of t] due(4) keep(3) by (cases "t = w") (simp_all add: count_eq_zero_iff)
    show "t \<in> insert w D \<Longrightarrow> count (outstanding es V D W) t = 0" using d(9) [of t] cnt [of t] last by (auto split: if_splits)
    show "t \<in> V - insert w D \<Longrightarrow> node_state (nodes g' t) = Pending" using d(10) by (auto simp: nd)
    show "t \<in> insert w D \<Longrightarrow> node_state (nodes g' t) = Completed \<or> node_state (nodes g' t) = Skipped"
      using d(11) [of t] by (auto simp: nd)
  qed
qed

section \<open>Delivering the reports of a node\<close>

lemma released_requests:
  "requests g' = requests g @ rs \<Longrightarrow> t_nextInlineTask g' = t_nextInlineTask g \<Longrightarrow>
     released g' = released g + mset (scheduled_of rs)"
  by (simp add: released_def)

lemma scheduleNode_released:
  "m_hasScheduler g \<Longrightarrow> released (scheduleNode n b g) = add_mset n (released g)"
  by (simp add: scheduleNode_def released_def)

lemma graph_notify_released [simp]: "released (graph_notify k g) = released g"
  by (simp add: graph_notify_def released_def)

lemma request_frame [simp]:
  "nodes (scheduleNode n b g) = nodes g" "m_hasScheduler (scheduleNode n b g) = m_hasScheduler g"
  "m_pendingTasks (scheduleNode n b g) = m_pendingTasks g"
  "nodes (graph_notify k g) = nodes g" "m_hasScheduler (graph_notify k g) = m_hasScheduler g"
  "m_pendingTasks (graph_notify k g) = m_pendingTasks g"
  "next_node (scheduleNode n b g) = next_node g" "next_node (graph_notify k g) = next_node g"
  by (simp_all add: scheduleNode_def graph_notify_def)

lemma upd_node_frame [simp]:
  "nodes (upd_node n f g) = (nodes g)(n := f (nodes g n))" "m_hasScheduler (upd_node n f g) = m_hasScheduler g"
  "m_pendingTasks (upd_node n f g) = m_pendingTasks g" "released (upd_node n f g) = released g"
  "requests (upd_node n f g) = requests g" "t_nextInlineTask (upd_node n f g) = t_nextInlineTask g"
  "t_canInlineTask (upd_node n f g) = t_canInlineTask g" "user (upd_node n f g) = user g"
  "r_hasTimeout (upd_node n f g) = r_hasTimeout g" "next_node (upd_node n f g) = next_node g"
  by (simp_all add: upd_node_def released_def)

lemma run_inv_same:
  assumes "run_inv es V R extra D W g" and "nodes g' = nodes g" and "m_hasScheduler g' = m_hasScheduler g"
    and "m_pendingTasks g' = m_pendingTasks g" and "released g' = released g"
  shows "run_inv es V R extra D W g'"
  using assms by (simp add: run_inv_def)

lemma ran_report_event:
  "report_step w RanReport = (w + 0xFFFF, if snd (decrementActive w) then BecameReady else StillBlocked)"
  by (simp add: decrementActive_counter_def decrementActive_def Let_def)

lemma release_successor_facts:
  assumes hs: "m_hasScheduler g" and r: "release_successor True w (u, g) = (u', g')"
  shows "nodes g' = (nodes g)(w := (nodes g w)\<lparr>inDegree := fst (report_step (inDegree (nodes g w)) RanReport)\<rparr>)"
    and "m_hasScheduler g' = m_hasScheduler g" and "m_pendingTasks g' = m_pendingTasks g"
    and "released g' = released g + (if snd (report_step (inDegree (nodes g w)) RanReport) = BecameReady then {#w#} else {#})"
proof -
  define ready where "ready = snd (decrementActive (inDegree (nodes g w)))"
  define g1 where "g1 = upd_node w (\<lambda>x. x\<lparr>inDegree := inDegree (nodes g w) + 0xFFFF\<rparr>) g"
  have nd: "node_decrementActive w g = (ready, g1)"
    by (simp add: node_decrementActive_def decrementActive_def ready_def g1_def Let_def)
  have g1: "m_hasScheduler g1 = m_hasScheduler g" "m_pendingTasks g1 = m_pendingTasks g" "released g1 = released g"
    "nodes g1 = (nodes g)(w := (nodes g w)\<lparr>inDegree := fst (report_step (inDegree (nodes g w)) RanReport)\<rparr>)"
    by (simp_all add: g1_def ran_report_event del: report_step.simps)
  have inl: "t_nextInlineTask g1 = None \<Longrightarrow> released (g1\<lparr>t_nextInlineTask := Some w\<rparr>) = add_mset w (released g1)"
    by (simp add: released_def)
  have sch: "released (scheduleNode w False g1) = add_mset w (released g1)"
    using hs g1(1) by (intro scheduleNode_released) simp
  have res: "nodes g' = nodes g1 \<and> m_hasScheduler g' = m_hasScheduler g1 \<and> m_pendingTasks g' = m_pendingTasks g1
      \<and> released g' = released g1 + (if ready then {#w#} else {#})"
    using r inl sch by (auto simp: release_successor_def nd Let_def split: if_splits)
  then show "nodes g' = (nodes g)(w := (nodes g w)\<lparr>inDegree := fst (report_step (inDegree (nodes g w)) RanReport)\<rparr>)"
    "m_hasScheduler g' = m_hasScheduler g" "m_pendingTasks g' = m_pendingTasks g" using g1 by simp_all
  show "released g' = released g + (if snd (report_step (inDegree (nodes g w)) RanReport) = BecameReady then {#w#} else {#})"
    using res g1(3) by (simp add: ran_report_event ready_def del: report_step.simps)
qed

lemma release_successor_inv:
  assumes inv: "run_inv es V R extra D (w # W) g" and r: "release_successor True w (u, g) = (u', g')"
  shows "run_inv es V R extra D W g'"
proof (rule report_delivered [OF inv])
  show "snd (report_step (inDegree (nodes g w)) RanReport) \<noteq> AllSkipped"
    by (simp add: ran_report_event del: report_step.simps)
qed (use release_successor_facts [OF run_invD(5) [OF inv] r] in auto)

lemma unblock_static_inv:
  assumes "run_inv es V R extra D (targets el @ W) g" and "\<forall>e \<in> set el. target e \<noteq> None"
    and "unblock_static True el (u, g) = (u', g')"
  shows "run_inv es V R extra D W g'"
  using assms
proof (induction el arbitrary: u g)
  case Nil
  then show ?case by (simp add: targets_def)
next
  case (Cons e el)
  then obtain w where w: "target e = Some w" by auto
  obtain u1 g1 where r: "release_successor True w (u, g) = (u1, g1)" by (cases "release_successor True w (u, g)")
  have "run_inv es V R extra D (w # (targets el @ W)) g" using Cons.prems(1) w by (simp add: targets_def)
  from release_successor_inv [OF this r] show ?case using Cons.IH [of g1 u1] Cons.prems(2,3) w r by simp
qed

lemma succ_targets_eq:
  assumes "run_inv es V R extra D W g" and "v \<in> V"
  shows "succ_targets (nodes g v) = targets (es v)"
proof -
  have "\<forall>e \<in> set (es v). target e \<noteq> None" using run_invD(2) [OF assms(1)] assms(2) by (auto simp: edges_ok_def)
  then have "List.map_filter target (es v) = targets (es v)"
    by (auto simp: List.map_filter_def targets_def filter_id_conv)
  then show ?thesis using run_invD(6) [OF assms] by (simp add: succ_targets_def)
qed

text \<open>
  The cascade of skips ends: each call takes one outstanding report, and settling a node moves its
  reports without adding any.
\<close>

lemma decrementSkipped_inv:
  assumes "run_inv es V R extra D (ts @ W) g" and "size (outstanding es V D (ts @ W)) \<le> fuel"
  shows "\<exists>D' g'. decrementSkipped fuel True ts g = Some g' \<and> run_inv es V R extra D' W g' \<and> D \<subseteq> D'
    \<and> size (outstanding es V D' W) \<le> size (outstanding es V D (ts @ W))"
  using assms
proof (induction fuel arbitrary: D ts g)
  case 0
  then have "ts = []" by (simp add: outstanding_def)
  then show ?case using 0 by auto
next
  case (Suc fuel)
  show ?case
  proof (cases ts)
    case Nil
    then show ?thesis using Suc.prems by auto
  next
    case (Cons n ts')
    then have inv: "run_inv es V R extra D (n # (ts' @ W)) g" using Suc.prems(1) by simp
    note hs = run_invD(5) [OF inv]
    have sz: "size (outstanding es V D (ts @ W)) = Suc (size (outstanding es V D (ts' @ W)))"
      using Cons by (simp add: outstanding_Cons)
    obtain w e where we: "report_step (inDegree (nodes g n)) SkipReport = (w, e)" by fastforce
    then have we': "decrementSkipped_counter (inDegree (nodes g n)) = (w, e)" by simp
    let ?g = "upd_node n (\<lambda>x. x\<lparr>inDegree := w\<rparr>) g"
    show ?thesis
    proof (cases e)
      case StillBlocked
      have "run_inv es V R extra D (ts' @ W) ?g"
        by (rule report_delivered [OF inv, where r = SkipReport]) (simp_all add: we StillBlocked del: report_step.simps)
      from Suc.IH [OF this] show ?thesis using sz Suc.prems(2) Cons we' StillBlocked by fastforce
    next
      case BecameReady
      have "run_inv es V R extra D (ts' @ W) (scheduleNode n True ?g)"
        by (rule report_delivered [OF inv, where r = SkipReport])
          (simp_all add: we BecameReady hs scheduleNode_released del: report_step.simps)
      from Suc.IH [OF this] show ?thesis using sz Suc.prems(2) Cons we' BecameReady by fastforce
    next
      case AllSkipped
      let ?g2 = "onTaskCompleted n (upd_node n (\<lambda>x. x\<lparr>node_state := Skipped\<rparr>) ?g)"
      have fr: "nodes ?g2 = (nodes g)(n := (nodes g n)\<lparr>inDegree := w, node_state := Skipped\<rparr>)"
        "m_hasScheduler ?g2 = m_hasScheduler g" "m_pendingTasks ?g2 = m_pendingTasks g - 1" "released ?g2 = released g"
        by (simp_all add: onTaskCompleted_def released_def)
      have inv2: "run_inv es V R extra (insert n D) (targets (es n) @ ts' @ W) ?g2"
        using fr we AllSkipped by (intro report_skips [OF inv, where r = SkipReport]) simp_all
      have n: "n \<in> V - D" by (rule report_due(1) [OF inv])
      have out: "outstanding es V (insert n D) ((targets (es n) @ ts') @ W) = outstanding es V D (ts' @ W)"
        using outstanding_settle [OF run_invD(1) [OF inv] n, of es "ts' @ W"] by simp
      have st: "succ_targets (nodes ?g2 n) = targets (es n)" using succ_targets_eq [OF inv2] n by simp
      have step: "decrementSkipped (Suc fuel) True ts g = decrementSkipped fuel True (targets (es n) @ ts') ?g2"
        using Cons we' AllSkipped st by (simp add: Let_def)
      have "\<exists>D' g'. decrementSkipped fuel True (targets (es n) @ ts') ?g2 = Some g' \<and> run_inv es V R extra D' W g'
          \<and> insert n D \<subseteq> D' \<and> size (outstanding es V D' W) \<le> size (outstanding es V D (ts' @ W))"
        using Suc.IH [of "insert n D" "targets (es n) @ ts'" ?g2] inv2 out sz Suc.prems(2) by simp
      then show ?thesis using step sz by fastforce
    qed
  qed
qed

lemma unblock_condition_inv:
  assumes "run_inv es V R extra D (targets el @ W) g" and "\<forall>e \<in> set el. target e \<noteq> None \<and> \<not> isLoopBack e"
    and "size (outstanding es V D (targets el @ W)) \<le> fuel"
  shows "\<exists>D' u' g'. unblock_condition fuel True c el (u, g) = Some (u', g') \<and> run_inv es V R extra D' W g' \<and> D \<subseteq> D'"
  using assms
proof (induction el arbitrary: u g D)
  case Nil
  then show ?case by (auto simp: targets_def)
next
  case (Cons e el)
  then obtain w where w: "target e = Some w" and nl: "\<not> isLoopBack e" by auto
  have inv: "run_inv es V R extra D (w # (targets el @ W)) g" using Cons.prems(1) w by (simp add: targets_def)
  have sz: "size (outstanding es V D (w # (targets el @ W))) \<le> fuel" using Cons.prems(3) w by (simp add: targets_def)
  show ?case
  proof (cases "branch e = -1 \<or> branch e = c")
    case True
    obtain u1 g1 where r: "release_successor True w (u, g) = (u1, g1)" by (cases "release_successor True w (u, g)")
    have "size (outstanding es V D (targets el @ W)) \<le> fuel" using sz by (simp add: outstanding_Cons)
    then have "\<exists>D' u' g'. unblock_condition fuel True c el (u1, g1) = Some (u', g') \<and> run_inv es V R extra D' W g' \<and> D \<subseteq> D'"
      using Cons.IH [OF release_successor_inv [OF inv r], of u1] Cons.prems(2) by simp
    then show ?thesis using w r True by simp
  next
    case False
    obtain D1 g1 where r: "decrementSkipped fuel True [w] g = Some g1" "run_inv es V R extra D1 (targets el @ W) g1" "D \<subseteq> D1"
        "size (outstanding es V D1 (targets el @ W)) \<le> fuel"
      using decrementSkipped_inv [of es V R extra D "[w]" "targets el @ W" g fuel] inv sz by auto
    have "\<exists>D' u' g'. unblock_condition fuel True c el (u, g1) = Some (u', g') \<and> run_inv es V R extra D' W g' \<and> D1 \<subseteq> D'"
      using Cons.IH [OF r(2), of u] Cons.prems(2) r(4) by simp
    then show ?thesis using w r(1,3) False nl by (fastforce split: option.split)
  qed
qed

section \<open>Executing one node\<close>

text \<open>Number of edges of the graph, a bound on the reports of a run.\<close>

definition edge_count :: "(node_id \<Rightarrow> successor_edge list) \<Rightarrow> node_id set \<Rightarrow> nat" where
  "edge_count es V = (\<Sum>v \<in> V. length (es v))"

lemma outstanding_bound:
  assumes "finite V"
  shows "size (outstanding es V D []) \<le> edge_count es V"
proof -
  have "size (outstanding es V D []) = (\<Sum>v \<in> V - D. length (es v))"
    by (simp add: outstanding_def size_multiset_sum targets_def)
  also have "\<dots> \<le> edge_count es V" unfolding edge_count_def using assms by (intro sum_mono2) auto
  finally show ?thesis .
qed

lemma run_callable_frame:
  "nodes (run_callable n g) = (nodes g)(n := (nodes g n)\<lparr>userData := userData (nodes (run_callable n g) n)\<rparr>)"
  "m_hasScheduler (run_callable n g) = m_hasScheduler g" "m_pendingTasks (run_callable n g) = m_pendingTasks g"
  "released (run_callable n g) = released g"
  by (auto simp: run_callable_def released_def split: task_fn.split prod.split)

text \<open>Taking a scheduled node: it counts as settled, with its reports to be delivered.\<close>

lemma start_node:
  assumes inv: "run_inv es V R extra D W g" and n: "n \<in># R" and rel: "released g = {#}"
    and nd: "\<forall>v. v \<noteq> n \<longrightarrow> nodes g' v = nodes g v" "nodes g' n = (nodes g n)\<lparr>node_state := Completed, userData := b\<rparr>"
    and keep: "m_hasScheduler g' = m_hasScheduler g" "m_pendingTasks g' = m_pendingTasks g" "released g' = {#}"
  shows "run_inv es V (R - {#n#}) (Suc extra) (insert n D) (targets (es n) @ W) g'" and "n \<in> V - D"
proof -
  note d = run_invD [OF inv]
  have "count R n = (if n \<in> V - D \<and> count (outstanding es V D W) n = 0 then 1 else 0)" using d(8) [of n] rel by simp
  moreover have "0 < count R n" using n by simp
  ultimately have nV: "n \<in> V - D" and n0: "count (outstanding es V D W) n = 0" and c1: "count R n = 1"
    by (auto simp: count_eq_zero_iff split: if_splits)
  show "n \<in> V - D" by (rule nV)
  have out: "outstanding es V (insert n D) (targets (es n) @ W) = outstanding es V D W"
    by (rule outstanding_settle [OF d(1) nV])
  have card: "card (V - D) = Suc (card (V - insert n D))"
    using d(1) nV by (metis Diff_insert card_Suc_Diff1 finite_Diff)
  have tg: "set (targets (es n)) \<subseteq> V" using d(2) nV by (fastforce simp: edges_ok_def targets_def)
  have same: "has_graph (nodes g' v) = has_graph (nodes g v)" "successors (nodes g' v) = successors (nodes g v)"
    "inDegree (nodes g' v) = inDegree (nodes g v)" for v
    using nd by (cases "v = n"; simp)+
  have state: "node_state (nodes g' v) = (if v = n then Completed else node_state (nodes g v))" for v
    using nd by (cases "v = n") simp_all
  show "run_inv es V (R - {#n#}) (Suc extra) (insert n D) (targets (es n) @ W) g'"
    unfolding run_inv_def out
  proof (intro conjI ballI allI)
    show "finite V" "edges_ok es V" "insert n D \<subseteq> V" "set (targets (es n) @ W) \<subseteq> V" "m_hasScheduler g'"
      using d(1-5) keep nV tg by auto
    show "m_pendingTasks g' = of_nat (card (V - insert n D) + Suc extra)" using d(12) keep card by simp
    fix t
    show "t \<in> V \<Longrightarrow> has_graph (nodes g' t)" "t \<in> V \<Longrightarrow> successors (nodes g' t) = es t"
      "t \<in> V \<Longrightarrow> counter_ok (inDegree (nodes g' t))"
      "t \<in> V \<Longrightarrow> pending_reports (inDegree (nodes g' t)) = count (outstanding es V D W) t"
      using d(6,7) [of t] by (simp_all add: same)
    show "count (R - {#n#} + released g') t = (if t \<in> V - insert n D \<and> count (outstanding es V D W) t = 0 then 1 else 0)"
      using d(8) [of t] rel keep(3) c1 by (cases "t = n") (simp_all add: count_eq_zero_iff)
    show "t \<in> insert n D \<Longrightarrow> count (outstanding es V D W) t = 0" using d(9) [of t] n0 by auto
    show "t \<in> V - insert n D \<Longrightarrow> node_state (nodes g' t) = Pending" using d(10) [of t] state by auto
    show "t \<in> insert n D \<Longrightarrow> node_state (nodes g' t) = Completed \<or> node_state (nodes g' t) = Skipped"
      using d(11) [of t] state by auto
  qed
qed

lemma finish_node:
  assumes "run_inv es V R (Suc extra) D W g"
  shows "run_inv es V R extra D W (onTaskCompleted n g)"
  using assms by (auto simp: run_inv_def onTaskCompleted_def released_def)

lemma execute_inv:
  assumes inv: "run_inv es V R 0 D [] g" and n: "n \<in># R" and rel: "released g = {#}"
    and fuel: "edge_count es V \<le> fuel"
  shows "\<exists>D' g'. execute fuel n g = Some g' \<and> run_inv es V (R - {#n#}) 0 D' [] g' \<and> insert n D \<subseteq> D'
    \<and> n \<notin> D \<and> (node_type (nodes g n) \<noteq> Condition \<longrightarrow> D' = insert n D)"
proof -
  define g1 where "g1 = upd_node n (\<lambda>x. x\<lparr>node_state := Completed\<rparr>) (run_callable n (upd_node n (\<lambda>x. x\<lparr>node_state := Executing\<rparr>) g))"
  let ?b = "userData (nodes (run_callable n (upd_node n (\<lambda>x. x\<lparr>node_state := Executing\<rparr>) g)) n)"
  note rc = run_callable_frame [of n "upd_node n (\<lambda>x. x\<lparr>node_state := Executing\<rparr>) g"]
  have nd: "\<forall>v. v \<noteq> n \<longrightarrow> nodes g1 v = nodes g v" by (simp add: g1_def, subst rc(1), simp)
  have ndn: "nodes g1 n = (nodes g n)\<lparr>node_state := Completed, userData := ?b\<rparr>" by (simp add: g1_def, subst rc(1), simp)
  have keep: "m_hasScheduler g1 = m_hasScheduler g" "m_pendingTasks g1 = m_pendingTasks g" "released g1 = {#}"
    using rc rel by (simp_all add: g1_def)
  note st = start_node [OF inv n rel nd ndn keep]
  let ?R = "R - {#n#}" and ?D = "insert n D"
  have inv1: "run_inv es V ?R 1 ?D (targets (es n) @ []) g1" using st(1) by simp
  note d = run_invD [OF st(1)]
  have nV: "n \<in> V" using st(2) by simp
  have edges: "\<forall>e \<in> set (es n). target e \<noteq> None \<and> \<not> isLoopBack e" using d(2) nV by (auto simp: edges_ok_def)
  have x: "has_graph (nodes g1 n)" "successors (nodes g1 n) = es n" using d(6) [OF nV] by auto
  have ty: "node_type (nodes g1 n) = node_type (nodes g n)" using ndn by simp
  have noloop: "find (\<lambda>e. (branch e = -1 \<or> branch e = userData (nodes g1 n)) \<and> isLoopBack e) (es n) = None"
    using edges by (auto simp: find_None_iff)
  have fin: "run_inv es V ?R 1 E [] h \<Longrightarrow> run_inv es V ?R 1 E [] (finish_unblock True (u, h))" for E u h
    by (auto simp: finish_unblock_def intro: run_inv_same)
  have "\<exists>D' g2. unblockSuccessors fuel n g1 = Some g2 \<and> run_inv es V ?R 1 D' [] g2 \<and> ?D \<subseteq> D'
      \<and> (node_type (nodes g n) \<noteq> Condition \<longrightarrow> D' = ?D)"
  proof (cases "node_type (nodes g n) = Condition")
    case True
    have "size (outstanding es V ?D (targets (es n) @ [])) \<le> fuel"
      using outstanding_settle [OF d(1) st(2), of es "[]"] outstanding_bound [OF d(1), of es D] fuel by simp
    then obtain D' u' g2 where "unblock_condition fuel True (userData (nodes g1 n)) (es n) (0, g1) = Some (u', g2)"
        "run_inv es V ?R 1 D' [] g2" "?D \<subseteq> D'"
      using unblock_condition_inv [OF inv1 edges, of fuel "userData (nodes g1 n)" 0] by blast
    then show ?thesis using True ty x noloop fin by (simp add: unblockSuccessors_def Let_def) blast
  next
    case False
    obtain u' g2 where r: "unblock_static True (es n) (0, g1) = (u', g2)" by (cases "unblock_static True (es n) (0, g1)")
    have "run_inv es V ?R 1 ?D [] g2" using unblock_static_inv [OF inv1 _ r] edges by blast
    then show ?thesis using False ty x r fin by (simp add: unblockSuccessors_def Let_def) blast
  qed
  then obtain D' g2 where u: "unblockSuccessors fuel n g1 = Some g2" "run_inv es V ?R 1 D' [] g2" "?D \<subseteq> D'"
      "node_type (nodes g n) \<noteq> Condition \<longrightarrow> D' = ?D" by blast
  have "has_graph (nodes g2 n)" using run_invD(6) [OF u(2) nV] by simp
  then have "execute fuel n g = Some (onTaskCompleted n g2)"
    using u(1) by (simp add: execute_def Let_def g1_def [symmetric])
  then show ?thesis using u finish_node [of es V ?R 0, OF u(2) [unfolded One_nat_def]] st(2) by blast
qed

section \<open>What an execution leaves alone\<close>

text \<open>
  Types, callables and domains never change in a run; delivering reports touches neither the user
  state nor the settings of the executing thread.
\<close>

definition same_types :: "'u engine \<Rightarrow> 'u engine \<Rightarrow> bool" where
  "same_types g g' \<longleftrightarrow> (\<forall>v. node_type (nodes g' v) = node_type (nodes g v) \<and> executeFn (nodes g' v) = executeFn (nodes g v)
     \<and> domain (nodes g' v) = domain (nodes g v)) \<and> next_node g' = next_node g"

definition quiet :: "'u engine \<Rightarrow> 'u engine \<Rightarrow> bool" where
  "quiet g g' \<longleftrightarrow> same_types g g' \<and> user g' = user g \<and> t_canInlineTask g' = t_canInlineTask g \<and> r_hasTimeout g' = r_hasTimeout g"

lemma quiet_refl [simp]: "quiet g g"
  by (simp add: quiet_def same_types_def)

lemma same_types_refl [simp]: "same_types g g"
  by (simp add: same_types_def)

lemma quiet_trans: "quiet g h \<Longrightarrow> quiet h k \<Longrightarrow> quiet g k"
  by (simp add: quiet_def same_types_def)

lemma quiet_upd:
  "(\<And>x. node_type (f x) = node_type x \<and> executeFn (f x) = executeFn x \<and> domain (f x) = domain x) \<Longrightarrow> quiet g (upd_node n f g)"
  by (simp add: quiet_def same_types_def)

lemma request_user [simp]: "user (scheduleNode n b g) = user g" "user (graph_notify k g) = user g"
  "t_canInlineTask (scheduleNode n b g) = t_canInlineTask g" "t_canInlineTask (graph_notify k g) = t_canInlineTask g"
  "r_hasTimeout (scheduleNode n b g) = r_hasTimeout g" "r_hasTimeout (graph_notify k g) = r_hasTimeout g"
  by (simp_all add: scheduleNode_def graph_notify_def)

lemmas quiet_defs = quiet_def same_types_def

lemma release_successor_types: "release_successor b w (u, g) = (u', g') \<Longrightarrow> quiet g g'"
  by (auto simp: release_successor_def node_decrementActive_def quiet_defs Let_def split: prod.splits if_splits)

lemma quiet_steps [simp]:
  "quiet g (onTaskCompleted n h) = quiet g h" "quiet g (scheduleNode n b h) = quiet g h" "quiet g (graph_notify k h) = quiet g h"
  by (simp_all add: quiet_defs onTaskCompleted_def)

lemma decrementSkipped_types: "decrementSkipped fuel b ts h = Some g' \<Longrightarrow> quiet g h \<Longrightarrow> quiet g g'"
proof (induction fuel b ts h rule: decrementSkipped.induct)
  case (3 fuel b n ts h)
  obtain w e where we: "decrementSkipped_counter (inDegree (nodes h n)) = (w, e)" by fastforce
  have "quiet g (upd_node n (\<lambda>x. x\<lparr>inDegree := w\<rparr>) h)"
    by (rule quiet_trans [OF 3(5) quiet_upd]) simp
  moreover have "quiet g k \<Longrightarrow> quiet g (upd_node n (\<lambda>x. x\<lparr>node_state := Skipped\<rparr>) k)" for k
    by (erule quiet_trans [OF _ quiet_upd]) simp
  ultimately show ?case using 3(1-4) we by (cases e) (auto simp: Let_def split: if_splits)
qed auto

lemma unblock_static_types: "unblock_static b el (u, g) = (u', g') \<Longrightarrow> quiet g g'"
proof (induction el arbitrary: u g)
  case (Cons e el)
  show ?case
  proof (cases "target e")
    case None
    then show ?thesis using Cons by simp
  next
    case (Some w)
    obtain u1 g1 where r: "release_successor b w (u, g) = (u1, g1)" by (cases "release_successor b w (u, g)")
    then show ?thesis using Cons Some release_successor_types quiet_trans by fastforce
  qed
qed simp

lemma unblock_condition_types: "unblock_condition fuel b c el (u, g) = Some (u', g') \<Longrightarrow> quiet g g'"
proof (induction el arbitrary: u g)
  case (Cons e el)
  show ?case
  proof (cases "target e")
    case None
    then show ?thesis using Cons by simp
  next
    case (Some w)
    obtain u1 g1 where r: "release_successor b w (u, g) = (u1, g1)" by (cases "release_successor b w (u, g)")
    show ?thesis
      using Cons Some r release_successor_types [OF r] decrementSkipped_types [of fuel b "[w]" g _ g] quiet_trans
      by (fastforce split: if_splits option.splits)
  qed
qed simp

lemma run_callable_types: "same_types g (run_callable n g)"
  by (auto simp: run_callable_def same_types_def split: task_fn.split prod.split)

lemma fold_types:
  assumes "\<And>n g. quiet g (f n g)"
  shows "quiet g (fold f ns g)"
proof (induction ns arbitrary: g)
  case (Cons n ns)
  then show ?case using assms [of g n] quiet_trans by fastforce
qed simp

lemma take_loop_back_types: "quiet g (take_loop_back n t g)"
proof -
  have "quiet g (fold (\<lambda>n g. upd_node n (\<lambda>x. x\<lparr>inDegree := (if n \<noteq> t then initialInDegree x else inDegree x),
      node_state := Pending\<rparr>) g) (cycle_nodes n t g) g)"
    by (rule fold_types) (rule quiet_upd, simp)
  then show ?thesis by (simp add: take_loop_back_def Let_def quiet_defs addPendingTasks_def)
qed

lemma finish_unblock_types: "quiet g h \<Longrightarrow> quiet g (finish_unblock b (u, h))"
  by (simp add: finish_unblock_def quiet_defs)

lemma unblockSuccessors_types:
  assumes "unblockSuccessors fuel n g = Some g'"
  shows "quiet g g'"
proof (cases "node_type (nodes g n) = Condition")
  case False
  obtain u h where uh: "unblock_static (has_graph (nodes g n)) (successors (nodes g n)) (0, g) = (u, h)"
    by (metis surj_pair)
  then have "g' = finish_unblock (has_graph (nodes g n)) (u, h)"
    using assms False by (simp add: unblockSuccessors_def Let_def)
  then show ?thesis using finish_unblock_types [OF unblock_static_types [OF uh]] by simp
next
  case True
  show ?thesis
  proof (cases "find (\<lambda>e. (branch e = -1 \<or> branch e = userData (nodes g n)) \<and> isLoopBack e) (successors (nodes g n))")
    case None
    then obtain u h where "unblock_condition fuel (has_graph (nodes g n)) (userData (nodes g n)) (successors (nodes g n)) (0, g) = Some (u, h)"
        "g' = finish_unblock (has_graph (nodes g n)) (u, h)"
      using assms True by (auto simp: unblockSuccessors_def Let_def split: option.splits)
    then show ?thesis using unblock_condition_types finish_unblock_types by metis
  next
    case (Some e)
    then show ?thesis
      using assms True take_loop_back_types by (auto simp: unblockSuccessors_def Let_def split: option.splits)
  qed
qed

lemma execute_types: "execute fuel n g = Some g' \<Longrightarrow> same_types g g'"
proof -
  assume ex: "execute fuel n g = Some g'"
  define g1 where "g1 = upd_node n (\<lambda>x. x\<lparr>node_state := Completed\<rparr>) (run_callable n (upd_node n (\<lambda>x. x\<lparr>node_state := Executing\<rparr>) g))"
  have "same_types g g1"
    using run_callable_types [of "upd_node n (\<lambda>x. x\<lparr>node_state := Executing\<rparr>) g" n] by (simp add: g1_def same_types_def)
  moreover obtain g2 where u: "unblockSuccessors fuel n g1 = Some g2" "nodes g' = nodes g2"
      "next_node g' = next_node g2"
    using ex by (auto simp: execute_def Let_def g1_def [symmetric] onTaskCompleted_def split: option.splits if_splits)
  have "same_types g1 g2" using unblockSuccessors_types [OF u(1)] by (simp add: quiet_def)
  ultimately show ?thesis using u(2,3) by (simp add: same_types_def)
qed

lemma execute_settings:
  assumes "execute fuel n g = Some g'"
  shows "t_canInlineTask g' = t_canInlineTask g" and "r_hasTimeout g' = r_hasTimeout g"
proof -
  define g1 where "g1 = upd_node n (\<lambda>x. x\<lparr>node_state := Completed\<rparr>) (run_callable n (upd_node n (\<lambda>x. x\<lparr>node_state := Executing\<rparr>) g))"
  have g1: "t_canInlineTask g1 = t_canInlineTask g" "r_hasTimeout g1 = r_hasTimeout g"
    by (simp_all add: g1_def run_callable_def upd_node_def split: task_fn.split prod.split)
  obtain g2 where u: "unblockSuccessors fuel n g1 = Some g2" "t_canInlineTask g' = t_canInlineTask g2" "r_hasTimeout g' = r_hasTimeout g2"
    using assms by (auto simp: execute_def Let_def g1_def [symmetric] onTaskCompleted_def split: option.splits if_splits)
  show "t_canInlineTask g' = t_canInlineTask g" "r_hasTimeout g' = r_hasTimeout g"
    using unblockSuccessors_types [OF u(1)] u(2,3) g1 by (simp_all add: quiet_def)
qed

definition run_fn :: "'u task_fn \<Rightarrow> 'u \<Rightarrow> 'u" where
  "run_fn f u = (case f of NullFn \<Rightarrow> u | RunFn h \<Rightarrow> h u | CondFn h \<Rightarrow> snd (h u))"

lemma execute_user:
  assumes "execute fuel n g = Some g'"
  shows "user g' = run_fn (executeFn (nodes g n)) (user g)"
proof -
  define g1 where "g1 = upd_node n (\<lambda>x. x\<lparr>node_state := Completed\<rparr>) (run_callable n (upd_node n (\<lambda>x. x\<lparr>node_state := Executing\<rparr>) g))"
  have "user g1 = run_fn (executeFn (nodes g n)) (user g)"
    by (simp add: g1_def run_callable_def run_fn_def split: task_fn.split prod.split)
  moreover obtain g2 where u: "unblockSuccessors fuel n g1 = Some g2" "user g' = user g2"
    using assms by (auto simp: execute_def Let_def g1_def [symmetric] onTaskCompleted_def split: option.splits if_splits)
  ultimately show ?thesis using unblockSuccessors_types [OF u(1)] by (simp add: quiet_def)
qed

section \<open>Starting a run\<close>

definition graph_edges :: "'u engine \<Rightarrow> node_id \<Rightarrow> successor_edge list" where
  "graph_edges g v = successors (nodes g v)"

definition in_edges :: "'u engine \<Rightarrow> node_id multiset" where
  "in_edges g = (\<Sum>v \<in> set (m_nodeList g). mset (targets (graph_edges g v)))"

text \<open>
  A built graph that is acyclic: every edge leads to a node of the graph and none is a loop-back
  edge, a node's initial in-degree is the number of its in-edges and at most 65535, there are no
  wait points, and the edges increase some rank.
\<close>

definition dag_ok :: "'u engine \<Rightarrow> bool" where
  "dag_ok g \<longleftrightarrow>
     distinct (m_nodeList g) \<and> m_nodeCount g = of_nat (length (m_nodeList g)) \<and> length (m_nodeList g) < 2 ^ 32
     \<and> m_waitList g = [] \<and> requests g = [] \<and> t_nextInlineTask g = None
     \<and> edges_ok (graph_edges g) (set (m_nodeList g))
     \<and> (\<forall>v \<in> set (m_nodeList g). has_graph (nodes g v))
     \<and> (\<forall>t \<in> set (m_nodeList g). count (in_edges g) t \<le> 65535
          \<and> initialInDegree (nodes g t) = of_nat (count (in_edges g) t))
     \<and> (\<exists>rank :: node_id \<Rightarrow> nat. \<forall>v \<in> set (m_nodeList g). \<forall>t \<in> set (targets (graph_edges g v)). rank v < rank t)"

lemma reset_all:
  "nodes (fold reset_node ns g) v = (if v \<in> set ns
     then (nodes g v)\<lparr>inDegree := initialInDegree (nodes g v), node_state := Pending\<rparr> else nodes g v)"
  by (induction ns arbitrary: g) (auto simp: reset_node_def)

lemma reset_all_frame [simp]:
  "m_hasScheduler (fold reset_node ns g) = m_hasScheduler g" "m_pendingTasks (fold reset_node ns g) = m_pendingTasks g"
  "released (fold reset_node ns g) = released g" "m_nodeList (fold reset_node ns g) = m_nodeList g"
  "m_waitList (fold reset_node ns g) = m_waitList g" "next_node (fold reset_node ns g) = next_node g"
  by (induction ns arbitrary: g) (simp_all add: reset_node_def upd_node_def released_def)

lemma schedule_roots:
  assumes "m_hasScheduler g" and "fold schedule_root ns (u, g) = (u', g')"
  shows "nodes g' = nodes g \<and> m_hasScheduler g' \<and> m_pendingTasks g' = m_pendingTasks g
    \<and> released g' = released g + mset (filter (\<lambda>n. initialInDegree (nodes g n) = 0) ns) \<and> next_node g' = next_node g"
  using assms
proof (induction ns arbitrary: u g)
  case Nil
  then show ?case by simp
next
  case (Cons n ns)
  obtain u1 g1 where r: "schedule_root n (u, g) = (u1, g1)" by (cases "schedule_root n (u, g)")
  have s: "nodes g1 = nodes g" "m_hasScheduler g1" "m_pendingTasks g1 = m_pendingTasks g"
    "released g1 = released g + (if initialInDegree (nodes g n) = 0 then {#n#} else {#})" "next_node g1 = next_node g"
    using r Cons.prems(1) by (auto simp: schedule_root_def Let_def scheduleNode_released split: if_splits)
  show ?case using Cons.IH [OF s(2), of u1] Cons.prems(2) r s by auto
qed

lemma count_filter_distinct:
  assumes "distinct xs"
  shows "count (mset (filter P xs)) t = (if t \<in> set xs \<and> P t then 1 else 0)"
  using distinct_filter [OF assms, of P] by (simp add: distinct_count_atmost_1)

lemma start_inv:
  assumes "edges_ok es (set ns)" and "distinct ns"
    and "\<forall>v \<in> set ns. has_graph (nodes g v) \<and> successors (nodes g v) = es v \<and> node_state (nodes g v) = Pending
      \<and> count (outstanding es (set ns) {} []) v \<le> 65535
      \<and> inDegree (nodes g v) = of_nat (count (outstanding es (set ns) {} []) v)"
    and "m_hasScheduler g" and "m_pendingTasks g = of_nat (length ns)"
    and "\<forall>t. count (released g) t = (if t \<in> set ns \<and> count (outstanding es (set ns) {} []) t = 0 then 1 else 0)"
  shows "run_inv es (set ns) {#} 0 {} [] g"
proof -
  have "counter_ok (inDegree (nodes g t)) \<and> pending_reports (inDegree (nodes g t)) = count (outstanding es (set ns) {} []) t"
    if "t \<in> set ns" for t
    using assms(3) that counter_init [of "count (outstanding es (set ns) {} []) t"] by auto
  then show ?thesis using assms by (simp add: run_inv_def distinct_card)
qed

text \<open>What \<open>prepareRun\<close> does to a graph with nodes and without wait points.\<close>

lemma prepareRun_facts:
  assumes "m_nodeCount g \<noteq> 0" and "m_waitList g = []" and "released g = {#}"
  shows "nodes (prepareRun now g) v = (if v \<in> set (m_nodeList g)
      then (nodes g v)\<lparr>inDegree := initialInDegree (nodes g v), node_state := Pending\<rparr> else nodes g v)"
    and "m_hasScheduler (prepareRun now g)" and "m_pendingTasks (prepareRun now g) = m_nodeCount g"
    and "released (prepareRun now g) = mset (filter (\<lambda>n. initialInDegree (nodes g n) = 0) (m_nodeList g))"
    and "next_node (prepareRun now g) = next_node g"
proof -
  define g1 where "g1 = fold reset_node (m_nodeList g) (g\<lparr>m_hasScheduler := True, m_pendingTasks := m_nodeCount g\<rparr>)"
  obtain u g2 where r: "fold schedule_root (m_nodeList g) (0, g1) = (u, g2)"
    by (cases "fold schedule_root (m_nodeList g) (0, g1)")
  have rel: "released (g\<lparr>m_hasScheduler := True, m_pendingTasks := m_nodeCount g\<rparr>) = {#}"
    using assms(3) by (simp add: released_def)
  have g1: "m_hasScheduler g1" "m_pendingTasks g1 = m_nodeCount g" "released g1 = {#}"
    using rel by (simp_all add: g1_def)
  have n1: "nodes g1 v = (if v \<in> set (m_nodeList g) then (nodes g v)\<lparr>inDegree := initialInDegree (nodes g v), node_state := Pending\<rparr>
      else nodes g v)" for v by (simp add: g1_def reset_all)
  have g2: "nodes g2 = nodes g1" "m_hasScheduler g2" "m_pendingTasks g2 = m_pendingTasks g1"
    "released g2 = released g1 + mset (filter (\<lambda>n. initialInDegree (nodes g1 n) = 0) (m_nodeList g))"
    "next_node g2 = next_node g"
    using schedule_roots [OF g1(1) r] by (auto simp: g1_def)
  have prep: "prepareRun now g = (if 0 < u then graph_notify u g2 else g2)"
    using assms(1,2) r by (simp add: prepareRun_def Let_def g1_def)
  have "initialInDegree (nodes g1 n) = initialInDegree (nodes g n)" for n using n1 [of n] by simp
  then show "released (prepareRun now g) = mset (filter (\<lambda>n. initialInDegree (nodes g n) = 0) (m_nodeList g))"
    using prep g2(4) g1(3) by simp
  show "nodes (prepareRun now g) v = (if v \<in> set (m_nodeList g)
      then (nodes g v)\<lparr>inDegree := initialInDegree (nodes g v), node_state := Pending\<rparr> else nodes g v)"
    using prep g2(1) n1 [of v] by simp
  show "m_hasScheduler (prepareRun now g)" "m_pendingTasks (prepareRun now g) = m_nodeCount g"
    "next_node (prepareRun now g) = next_node g"
    using prep g2(2,3,5) g1(2) by simp_all
qed

lemma dag_okD:
  assumes "dag_ok g"
  shows "distinct (m_nodeList g)" "m_nodeCount g = of_nat (length (m_nodeList g))" "length (m_nodeList g) < 2 ^ 32"
    "m_waitList g = []" "released g = {#}" "edges_ok (graph_edges g) (set (m_nodeList g))"
    "\<And>v. v \<in> set (m_nodeList g) \<Longrightarrow> has_graph (nodes g v)"
    "\<And>t. t \<in> set (m_nodeList g) \<Longrightarrow> count (in_edges g) t \<le> 65535"
    "\<And>t. t \<in> set (m_nodeList g) \<Longrightarrow> initialInDegree (nodes g t) = of_nat (count (in_edges g) t)"
  using assms by (auto simp: dag_ok_def released_def)

lemma of_nat_u32_zero:
  assumes "n < 2 ^ 32"
  shows "(of_nat n :: u32) = 0 \<longleftrightarrow> n = 0"
proof -
  have "unat (of_nat n :: u32) = n" using assms by (simp add: unat_of_nat)
  then show ?thesis by (simp add: unat_eq_zero [symmetric])
qed

lemma node_count_zero: "dag_ok g \<Longrightarrow> m_nodeCount g = 0 \<longleftrightarrow> m_nodeList g = []"
  using of_nat_u32_zero [of "length (m_nodeList g)"] dag_okD(2,3) [of g] by simp

lemma root_iff:
  assumes "dag_ok g" and "t \<in> set (m_nodeList g)"
  shows "initialInDegree (nodes g t) = 0 \<longleftrightarrow> count (in_edges g) t = 0"
  using of_nat_u32_zero [of "count (in_edges g) t"] dag_okD(8,9) [OF assms] by simp

lemma prepareRun_inv:
  assumes ok: "dag_ok g"
  shows "run_inv (graph_edges g) (set (m_nodeList g)) {#} 0 {} [] (prepareRun now g)"
proof (cases "m_nodeCount g = 0")
  case True
  then have "m_nodeList g = []" using node_count_zero [OF ok] by simp
  moreover have "prepareRun now g = g\<lparr>m_hasScheduler := True, m_pendingTasks := m_nodeCount g\<rparr>"
    using True by (simp add: prepareRun_def Let_def)
  moreover have "released (g\<lparr>m_hasScheduler := True, m_pendingTasks := m_nodeCount g\<rparr>) = {#}"
    using dag_okD(5) [OF ok] by (simp add: released_def)
  ultimately show ?thesis using True by (simp add: run_inv_def edges_ok_def outstanding_def)
next
  case False
  note f = prepareRun_facts [OF False dag_okD(4,5) [OF ok]]
  have out: "outstanding (graph_edges g) (set (m_nodeList g)) {} [] = in_edges g" by (simp add: outstanding_def in_edges_def)
  have rel: "count (released (prepareRun now g)) t = (if t \<in> set (m_nodeList g) \<and> count (in_edges g) t = 0 then 1 else 0)" for t
    unfolding f(4) count_filter_distinct [OF dag_okD(1) [OF ok]] using root_iff [OF ok, of t] by (cases "t \<in> set (m_nodeList g)") simp_all
  show ?thesis
  proof (rule start_inv [OF dag_okD(6,1) [OF ok] _ f(2)])
    show "m_pendingTasks (prepareRun now g) = of_nat (length (m_nodeList g))" using f(3) dag_okD(2) [OF ok] by simp
    show "\<forall>t. count (released (prepareRun now g)) t =
        (if t \<in> set (m_nodeList g) \<and> count (outstanding (graph_edges g) (set (m_nodeList g)) {} []) t = 0 then 1 else 0)"
      unfolding out using rel by blast
    show "\<forall>v \<in> set (m_nodeList g). has_graph (nodes (prepareRun now g) v)
        \<and> successors (nodes (prepareRun now g) v) = graph_edges g v \<and> node_state (nodes (prepareRun now g) v) = Pending
        \<and> count (outstanding (graph_edges g) (set (m_nodeList g)) {} []) v \<le> 65535
        \<and> inDegree (nodes (prepareRun now g) v) = of_nat (count (outstanding (graph_edges g) (set (m_nodeList g)) {} []) v)"
      unfolding out f(1) using dag_okD(7-9) [OF ok] by (simp add: graph_edges_def)
  qed
qed

lemma prepareRun_types:
  assumes "dag_ok g"
  shows "same_types g (prepareRun now g)"
proof (cases "m_nodeCount g = 0")
  case True
  then show ?thesis by (simp add: prepareRun_def Let_def same_types_def)
next
  case False
  then show ?thesis using prepareRun_facts(1,5) [OF False dag_okD(4,5) [OF assms]] by (simp add: same_types_def)
qed

section \<open>Runs\<close>

text \<open>
  The state in which a thread starts to execute a node: its request list and inline slot are
  empty, and it may or may not be one that takes inline continuations.
\<close>

definition begin_execute :: "bool \<Rightarrow> 'u engine \<Rightarrow> 'u engine" where
  "begin_execute b g = g\<lparr>requests := [], t_nextInlineTask := None, t_canInlineTask := b\<rparr>"

text \<open>
  \<open>graph_run fuel g R tr g' R'\<close>: from \<open>g\<close> with the nodes \<open>R\<close> scheduled, executing the nodes \<open>tr\<close> in
  this order leads to \<open>g'\<close> with \<open>R'\<close> scheduled.
\<close>

inductive graph_run ::
  "nat \<Rightarrow> 'u engine \<Rightarrow> node_id multiset \<Rightarrow> node_id list \<Rightarrow> 'u engine \<Rightarrow> node_id multiset \<Rightarrow> bool" for fuel where
  run_start: "graph_run fuel g R [] g R"
| run_next: "graph_run fuel g R tr g1 R1 \<Longrightarrow> n \<in># R1 \<Longrightarrow> execute fuel n (begin_execute b g1) = Some g2 \<Longrightarrow>
    graph_run fuel g R (tr @ [n]) g2 (R1 - {#n#} + released g2)"

inductive_cases graph_run_NilE: "graph_run fuel g R [] g' R'"

lemma begin_execute_nodes [simp]: "nodes (begin_execute b g) = nodes g" "next_node (begin_execute b g) = next_node g"
  by (simp_all add: begin_execute_def)

lemma begin_execute_inv:
  "run_inv es V R extra D W (begin_execute b g) \<Longrightarrow> run_inv es V R extra D W (begin_execute c g)"
  by (erule run_inv_same) (simp_all add: begin_execute_def released_def)

lemma run_inv_shift:
  assumes "run_inv es V R extra D W g"
  shows "run_inv es V (R + released g) extra D W (begin_execute b g)" and "released (begin_execute b g) = {#}"
proof -
  show "released (begin_execute b g) = {#}" by (simp add: begin_execute_def released_def)
  then show "run_inv es V (R + released g) extra D W (begin_execute b g)"
    using assms by (simp add: run_inv_def) (simp add: begin_execute_def)
qed

text \<open>What holds after every prefix of a run.\<close>

definition run_state ::
  "(node_id \<Rightarrow> successor_edge list) \<Rightarrow> node_id set \<Rightarrow> node_id list \<Rightarrow> node_id set \<Rightarrow> 'u engine \<Rightarrow> node_id multiset \<Rightarrow> bool" where
  "run_state es V tr D g R \<longleftrightarrow>
     run_inv es V R 0 D [] (begin_execute False g) \<and> distinct tr \<and> set tr \<subseteq> D
     \<and> (\<forall>m \<in> set tr. \<forall>v \<in> V. m \<in> set (targets (es v)) \<longrightarrow> v \<in> D)
     \<and> (\<forall>tr1 m tr2. tr = tr1 @ m # tr2 \<longrightarrow> (\<forall>v \<in> V. m \<in> set (targets (es v)) \<longrightarrow> v \<notin> set (m # tr2)))"

lemma no_pred_outstanding:
  assumes "finite V" and "count (outstanding es V D W) n = 0" and "v \<in> V" and "n \<in> set (targets (es v))"
  shows "v \<in> D"
proof (rule ccontr)
  assume "v \<notin> D"
  then have "(\<Sum>v \<in> V - D. mset (targets (es v))) = mset (targets (es v)) + (\<Sum>v \<in> V - D - {v}. mset (targets (es v)))"
    using assms(1,3) by (intro sum.remove) auto
  then have "n \<in># outstanding es V D W" using assms(4) by (simp add: outstanding_def)
  then show False using assms(2) by (simp add: count_eq_zero_iff)
qed

lemma run_step_state:
  assumes st: "run_state es V tr D g R" and n: "n \<in># R" and fuel: "edge_count es V \<le> fuel"
  shows "\<exists>D' g'. execute fuel n (begin_execute b g) = Some g' \<and> run_state es V (tr @ [n]) D' g' (R - {#n#} + released g')
    \<and> insert n D \<subseteq> D' \<and> (node_type (nodes g n) \<noteq> Condition \<longrightarrow> D' = insert n D)"
proof -
  have "run_inv es V R 0 D [] (begin_execute False g)" using st by (simp add: run_state_def)
  then have inv: "run_inv es V R 0 D [] (begin_execute b g)" by (rule begin_execute_inv)
  have rel: "released (begin_execute b g) = {#}" by (simp add: begin_execute_def released_def)
  obtain D' g' where ex: "execute fuel n (begin_execute b g) = Some g'" and inv': "run_inv es V (R - {#n#}) 0 D' [] g'"
    and D': "insert n D \<subseteq> D'" "n \<notin> D" "node_type (nodes g n) \<noteq> Condition \<longrightarrow> D' = insert n D"
    using execute_inv [OF inv n rel fuel] unfolding begin_execute_nodes by blast
  note d = run_invD [OF inv]
  have "0 < count R n" using n by simp
  then have n0: "count (outstanding es V D []) n = 0" using d(8) [of n] rel by (auto simp: count_eq_zero_iff split: if_splits)
  have preds: "v \<in> D" if "v \<in> V" "n \<in> set (targets (es v))" for v using no_pred_outstanding [OF d(1) n0 that] .
  have s: "distinct tr" "set tr \<subseteq> D"
    and s3: "\<And>m v. m \<in> set tr \<Longrightarrow> v \<in> V \<Longrightarrow> m \<in> set (targets (es v)) \<Longrightarrow> v \<in> D"
    and s4: "\<And>tr1 m tr2 v. tr = tr1 @ m # tr2 \<Longrightarrow> v \<in> V \<Longrightarrow> m \<in> set (targets (es v)) \<Longrightarrow> v \<notin> set (m # tr2)"
    using st unfolding run_state_def by blast+
  have "run_state es V (tr @ [n]) D' g' (R - {#n#} + released g')"
    unfolding run_state_def
  proof (intro conjI)
    show "run_inv es V (R - {#n#} + released g') 0 D' [] (begin_execute False g')" by (rule run_inv_shift(1) [OF inv'])
    show "distinct (tr @ [n])" using s D'(2) by auto
    show "set (tr @ [n]) \<subseteq> D'" using s D'(1) by auto
    show "\<forall>m \<in> set (tr @ [n]). \<forall>v \<in> V. m \<in> set (targets (es v)) \<longrightarrow> v \<in> D'"
      using s3 D'(1) preds by auto
    show "\<forall>tr1 m tr2. tr @ [n] = tr1 @ m # tr2 \<longrightarrow> (\<forall>v \<in> V. m \<in> set (targets (es v)) \<longrightarrow> v \<notin> set (m # tr2))"
    proof (intro allI impI ballI)
      fix tr1 m tr2 v assume sp: "tr @ [n] = tr1 @ m # tr2" and v: "v \<in> V" "m \<in> set (targets (es v))"
      show "v \<notin> set (m # tr2)"
      proof (cases tr2 rule: rev_cases)
        case Nil
        then show ?thesis using sp v preds D'(2) by auto
      next
        case (snoc tr3 x)
        then have "tr = tr1 @ m # tr3" "x = n" using sp by auto
        moreover have "v \<in> D" using s3 [of m v] v calculation(1) by simp
        moreover have "v \<notin> set (m # tr3)" using s4 [OF calculation(1) v] .
        ultimately show ?thesis using D'(2) snoc by auto
      qed
    qed
  qed
  then show ?thesis using ex D' by blast
qed

lemma graph_run_state_from:
  assumes "graph_run fuel g R tr g' R'" and "run_state es V [] D0 g R" and "edge_count es V \<le> fuel"
  shows "\<exists>D. run_state es V tr D g' R' \<and> same_types g g' \<and> D0 \<subseteq> D
    \<and> ((\<forall>v \<in> V. node_type (nodes g v) \<noteq> Condition) \<longrightarrow> D = D0 \<union> set tr)"
  using assms
proof (induction rule: graph_run.induct)
  case (run_start g R)
  then show ?case by (intro exI [of _ D0]) simp
next
  case (run_next g R tr g1 R1 n b g2)
  then obtain D where D: "run_state es V tr D g1 R1" "same_types g g1" "D0 \<subseteq> D"
      "(\<forall>v \<in> V. node_type (nodes g v) \<noteq> Condition) \<longrightarrow> D = D0 \<union> set tr" by blast
  obtain D' where D': "run_state es V (tr @ [n]) D' g2 (R1 - {#n#} + released g2)" "insert n D \<subseteq> D'"
      "node_type (nodes g1 n) \<noteq> Condition \<longrightarrow> D' = insert n D"
    using run_step_state [OF D(1) run_next.hyps(2) run_next.prems(2), of b] run_next.hyps(3) by auto
  have "n \<in> V" using D'(1) by (auto simp: run_state_def run_inv_def)
  moreover have "same_types g g2"
    using D(2) execute_types [OF run_next.hyps(3)] by (simp add: same_types_def begin_execute_def)
  ultimately show ?case using D D' by (intro exI [of _ D']) (auto simp: same_types_def)
qed

lemma graph_run_state:
  assumes "graph_run fuel g R tr g' R'" and "run_state es V [] {} g R" and "edge_count es V \<le> fuel"
  shows "\<exists>D. run_state es V tr D g' R' \<and> same_types g g'
    \<and> ((\<forall>v \<in> V. node_type (nodes g v) \<noteq> Condition) \<longrightarrow> D = set tr)"
  using graph_run_state_from [OF assms] by auto

lemma prepared_state:
  assumes "dag_ok g"
  shows "run_state (graph_edges g) (set (m_nodeList g)) [] {} (prepareRun now g) (released (prepareRun now g))"
  using run_inv_shift(1) [OF prepareRun_inv [OF assms], of now False] by (simp add: run_state_def)

text \<open>With nothing scheduled, nothing is left to do: a node of least rank would be scheduled.\<close>

lemma quiescent_settled:
  assumes inv: "run_inv es V {#} 0 D [] g" and rel: "released g = {#}"
    and rank: "\<forall>v \<in> V. \<forall>t \<in> set (targets (es v)). (rank v :: nat) < rank t"
  shows "D = V"
proof (rule ccontr)
  note d = run_invD [OF inv]
  assume "D \<noteq> V"
  then have "V - D \<noteq> {}" using d(3) by blast
  then obtain t where t: "t \<in> V - D" "\<forall>v \<in> V - D. rank t \<le> rank v"
    using arg_min_if_finite [of "V - D" rank] d(1) by (metis finite_Diff not_le)
  have "t \<notin># outstanding es V D []"
  proof
    assume "t \<in># outstanding es V D []"
    then obtain v where "v \<in> V - D" "t \<in> set (targets (es v))"
      using d(1) by (auto simp: outstanding_def set_mset_sum)
    then show False using rank t(2) by (meson DiffD1 not_le)
  qed
  then have "count ({#} + released g) t = 1" using d(8) [of t] t(1) by (simp add: count_eq_zero_iff)
  then show False using rel by simp
qed

lemma completed_iff_settled:
  assumes inv: "run_inv es V R 0 D [] g" and "card V < 2 ^ 32"
  shows "m_pendingTasks g = 0 \<longleftrightarrow> D = V"
proof -
  note d = run_invD [OF inv]
  have "card (V - D) \<le> card V" using d(1) by (intro card_mono) auto
  then have "m_pendingTasks g = 0 \<longleftrightarrow> card (V - D) = 0" using d(12) of_nat_u32_zero [of "card (V - D)"] assms(2) by simp
  then show ?thesis using d(1,3) by auto
qed

section \<open>Properties of a run\<close>

abbreviation graph_nodes :: "'u engine \<Rightarrow> node_id set" where
  "graph_nodes g \<equiv> set (m_nodeList g)"

abbreviation dag_run :: "nat \<Rightarrow> int \<Rightarrow> 'u engine \<Rightarrow> node_id list \<Rightarrow> 'u engine \<Rightarrow> node_id multiset \<Rightarrow> bool" where
  "dag_run fuel now g tr g' R' \<equiv> graph_run fuel (prepareRun now g) (released (prepareRun now g)) tr g' R'"

lemma dag_run_facts:
  assumes "dag_ok g" and "edge_count (graph_edges g) (graph_nodes g) \<le> fuel" and "dag_run fuel now g tr g' R'"
  shows "\<exists>D. run_state (graph_edges g) (graph_nodes g) tr D g' R' \<and> same_types g g'
    \<and> ((\<forall>v \<in> graph_nodes g. node_type (nodes g v) \<noteq> Condition) \<longrightarrow> D = set tr)"
  using graph_run_state [OF assms(3) prepared_state [OF assms(1)] assms(2)] prepareRun_types [OF assms(1), of now]
  by (auto simp: same_types_def)

lemma run_state_invD:
  assumes "run_state es V tr D g R"
  shows "run_inv es V R 0 D [] (begin_execute b g)" and "released (begin_execute b g) = {#}"
  using begin_execute_inv assms by (auto simp: run_state_def begin_execute_def released_def)

lemma scheduled_node:
  assumes "run_state es V tr D g R" and "m \<in># R"
  shows "m \<in> V" "m \<notin> D" "count R m = 1" "\<And>v. v \<in> V \<Longrightarrow> m \<in> set (targets (es v)) \<Longrightarrow> v \<in> D"
proof -
  note inv = run_state_invD [OF assms(1), of False]
  note d = run_invD [OF inv(1)]
  have "0 < count R m" using assms(2) by simp
  then have m: "m \<in> V - D" "count (outstanding es V D []) m = 0" "count R m = 1"
    using d(8) [of m] inv(2) by (auto simp: count_eq_zero_iff split: if_splits)
  then show "m \<in> V" "m \<notin> D" "count R m = 1" by auto
  show "\<And>v. v \<in> V \<Longrightarrow> m \<in> set (targets (es v)) \<Longrightarrow> v \<in> D" by (rule no_pred_outstanding [OF d(1) m(2)])
qed

text \<open>A diamond of four tasks; each appends its number to the program state.\<close>

definition demo_task :: "node_id \<Rightarrow> node_id list engine \<Rightarrow> node_id list engine" where
  "demo_task k g = snd (emplace ''t'' Worker Normal (\<lambda>u. u @ [k]) g)"

definition demo_graph :: "node_id list engine" where
  "demo_graph = addEdge 2 3 (-1) (addEdge 1 3 (-1) (addEdge 0 2 (-1) (addEdge 0 1 (-1)
     (demo_task 3 (demo_task 2 (demo_task 1 (demo_task 0 (TaskGraph_new []))))))))"

lemmas demo_graph_defs = demo_graph_def demo_task_def emplace_def create_node_def setCallable_def appendNode_def
  TaskGraph_new_def TaskNode_default_def addEdge_def upd_node_def Let_def

lemma demo_graph_nodes: "m_nodeList demo_graph = [0, 1, 2, 3]"
  by (simp add: demo_graph_defs)

lemma demo_graph_edges:
  "graph_edges demo_graph 0 = [\<lparr>target = Some 2, branch = -1, isLoopBack = False\<rparr>, \<lparr>target = Some 1, branch = -1, isLoopBack = False\<rparr>]"
  "graph_edges demo_graph (Suc 0) = [\<lparr>target = Some 3, branch = -1, isLoopBack = False\<rparr>]"
  "graph_edges demo_graph 2 = [\<lparr>target = Some 3, branch = -1, isLoopBack = False\<rparr>]"
  "graph_edges demo_graph 3 = []"
  by (simp_all add: demo_graph_defs graph_edges_def)

lemma demo_in_edges: "in_edges demo_graph = {#1, 2, 3, 3#}"
  by (simp add: in_edges_def demo_graph_nodes demo_graph_edges targets_def)

lemma demo_dag_ok: "dag_ok demo_graph"
proof -
  have "edges_ok (graph_edges demo_graph) (graph_nodes demo_graph)"
    by (simp add: edges_ok_def demo_graph_nodes demo_graph_edges)
  moreover have "\<forall>t \<in> graph_nodes demo_graph. initialInDegree (nodes demo_graph t) = of_nat (count {#1, 2, 3, 3#} t)"
    by (simp add: demo_graph_nodes) (simp add: demo_graph_defs)
  moreover have "\<forall>v \<in> graph_nodes demo_graph. \<forall>t \<in> set (targets (graph_edges demo_graph v)). id v < id t"
    by (simp add: demo_graph_nodes demo_graph_edges targets_def)
  moreover have "\<forall>v \<in> graph_nodes demo_graph. has_graph (nodes demo_graph v)"
    by (simp add: demo_graph_nodes) (simp add: demo_graph_defs)
  moreover have "m_nodeCount demo_graph = 4" "m_waitList demo_graph = []" "requests demo_graph = []" "t_nextInlineTask demo_graph = None"
    by (simp_all add: demo_graph_defs)
  ultimately show ?thesis unfolding dag_ok_def by (auto simp: demo_in_edges demo_graph_nodes)
qed

lemma demo_edge_count: "edge_count (graph_edges demo_graph) (graph_nodes demo_graph) = 4"
  by (simp add: edge_count_def demo_graph_nodes demo_graph_edges)

lemma demo_roots: "released (prepareRun 0 demo_graph) = {#0#}"
proof -
  have "m_nodeCount demo_graph \<noteq> 0" "m_waitList demo_graph = []" "released demo_graph = {#}"
    by (simp_all add: demo_graph_defs released_def)
  note f = prepareRun_facts(4) [OF this, of 0]
  have "filter (\<lambda>n. initialInDegree (nodes demo_graph n) = 0) [0, 1, 2, 3] = [0]" by (simp add: demo_graph_defs)
  then show ?thesis using f by (simp only: demo_graph_nodes) simp
qed

text \<open>
  In a run of an acyclic graph a scheduled node is scheduled once, has not run before, and all
  its predecessors are settled (completed or skipped) and no longer scheduled.
\<close>

theorem dag_run_order:
  assumes "dag_ok g" and "edge_count (graph_edges g) (graph_nodes g) \<le> fuel" and "dag_run fuel now g tr g' R'"
    and "m \<in># R'"
  shows "m \<in> graph_nodes g \<and> m \<notin> set tr \<and> count R' m = 1 \<and> node_state (nodes g' m) = Pending
    \<and> (\<forall>v \<in> graph_nodes g. m \<in> set (targets (graph_edges g v)) \<longrightarrow>
         v \<noteq> m \<and> v \<notin># R' \<and> (node_state (nodes g' v) = Completed \<or> node_state (nodes g' v) = Skipped))"
proof -
  obtain D where st: "run_state (graph_edges g) (graph_nodes g) tr D g' R'" using dag_run_facts [OF assms(1-3)] by blast
  note s = scheduled_node [OF st] and d = run_invD [OF run_state_invD(1) [OF st, of False]]
  have "set tr \<subseteq> D" using st by (simp add: run_state_def)
  moreover have "node_state (nodes g' m) = Pending" using d(10) [of m] s(1,2) [OF assms(4)] by simp
  moreover have "v \<noteq> m \<and> v \<notin># R' \<and> (node_state (nodes g' v) = Completed \<or> node_state (nodes g' v) = Skipped)"
    if v: "v \<in> graph_nodes g" "m \<in> set (targets (graph_edges g v))" for v
  proof -
    have "v \<in> D" using s(4) [OF assms(4) v] .
    then show ?thesis using s(2) [OF assms(4)] s(2) [of v] d(11) [of v] by auto
  qed
  ultimately show ?thesis using s(1-3) [OF assms(4)] by blast
qed

theorem dag_run_order_witness: "0 \<in># released (prepareRun 0 demo_graph) \<and> node_state (nodes (prepareRun 0 demo_graph) 0) = Pending"
proof -
  have "(0 :: node_id) \<in># released (prepareRun 0 demo_graph)" by (simp add: demo_roots)
  then show ?thesis
    using dag_run_order [OF demo_dag_ok, of 4 0 "[]" "prepareRun 0 demo_graph" "released (prepareRun 0 demo_graph)" 0]
      graph_run.run_start demo_edge_count by auto
qed

lemma run_completes:
  assumes "graph_run fuel g0 R0 tr g R" and "run_state es V tr D g R" and "edge_count es V \<le> fuel"
  shows "\<exists>tr' g'. graph_run fuel g0 R0 (tr @ tr') g' {#}"
  using assms(1,2)
proof (induction "card (V - D)" arbitrary: tr D g R rule: less_induct)
  case less
  show ?case
  proof (cases "R = {#}")
    case True
    then show ?thesis using less.prems(1) by (intro exI [of _ "[]"]) auto
  next
    case False
    then obtain n where n: "n \<in># R" by (meson multiset_nonemptyE)
    obtain D' g' where ex: "execute fuel n (begin_execute False g) = Some g'" 
      and st: "run_state es V (tr @ [n]) D' g' (R - {#n#} + released g')" and D': "insert n D \<subseteq> D'"
      using run_step_state [OF less.prems(2) n assms(3), of False] by blast
    have "graph_run fuel g0 R0 (tr @ [n]) g' (R - {#n#} + released g')"
      by (rule graph_run.run_next [OF less.prems(1) n ex])
    moreover have "card (V - D') < card (V - D)"
      using scheduled_node(1,2) [OF less.prems(2) n] D' run_invD(1) [OF run_state_invD(1) [OF st]]
      by (intro psubset_card_mono) auto
    ultimately show ?thesis using less.hyps [OF _ _ st] by force
  qed
qed

lemma run_length:
  assumes "run_state es V tr D g R"
  shows "length tr \<le> card V"
proof -
  have "length tr = card (set tr)" using assms by (simp add: run_state_def distinct_card)
  also have "\<dots> \<le> card V"
    using assms by (intro card_mono) (auto simp: run_state_def run_inv_def)
  finally show ?thesis .
qed

text \<open>
  C15: a run of an acyclic graph never gets stuck and ends. Every scheduled node can be executed, a
  run has at most as many executions as nodes, every run extends to one with nothing scheduled,
  and \<open>isCompleted\<close> holds exactly when nothing is scheduled, every node then being settled.
\<close>

theorem dag_run_completes:
  assumes "dag_ok g" and "edge_count (graph_edges g) (graph_nodes g) \<le> fuel" and "dag_run fuel now g tr g' R'"
  shows "(\<forall>n. n \<in># R' \<longrightarrow> (\<exists>g''. execute fuel n (begin_execute b g') = Some g''))
    \<and> length tr \<le> length (m_nodeList g)
    \<and> (\<exists>tr' g''. dag_run fuel now g (tr @ tr') g'' {#})
    \<and> (isCompleted g' \<longleftrightarrow> R' = {#})
    \<and> (isCompleted g' \<longrightarrow> (\<forall>v \<in> graph_nodes g. node_state (nodes g' v) = Completed \<or> node_state (nodes g' v) = Skipped))"
proof -
  let ?es = "graph_edges g" and ?V = "graph_nodes g"
  obtain D where st: "run_state ?es ?V tr D g' R'" using dag_run_facts [OF assms] by blast
  note inv = run_state_invD [OF st, of False]
  note d = run_invD [OF inv(1)]
  have card: "card ?V = length (m_nodeList g)" using dag_okD(1) [OF assms(1)] by (rule distinct_card)
  obtain rank :: "node_id \<Rightarrow> nat" where rank: "\<forall>v \<in> ?V. \<forall>t \<in> set (targets (?es v)). rank v < rank t"
    using assms(1) by (auto simp: dag_ok_def)
  have "card ?V < 2 ^ 32" using card dag_okD(3) [OF assms(1)] by simp
  then have done_iff: "isCompleted g' \<longleftrightarrow> D = ?V"
    using completed_iff_settled [OF inv(1)] by (simp add: isCompleted_def begin_execute_def)
  have "R' = {#} \<longrightarrow> D = ?V" using quiescent_settled [OF _ inv(2) rank] inv(1) by blast
  moreover have "D = ?V \<longrightarrow> R' = {#}" using scheduled_node(1,2) [OF st] by (metis multiset_nonemptyE)
  ultimately have "isCompleted g' \<longleftrightarrow> R' = {#}" using done_iff by blast
  moreover have "isCompleted g' \<longrightarrow> (\<forall>v \<in> ?V. node_state (nodes g' v) = Completed \<or> node_state (nodes g' v) = Skipped)"
    using d(11) done_iff by simp
  moreover have "\<forall>n. n \<in># R' \<longrightarrow> (\<exists>g''. execute fuel n (begin_execute b g') = Some g'')"
    using run_step_state [OF st _ assms(2), of _ b] by blast
  moreover have "\<exists>tr' g''. dag_run fuel now g (tr @ tr') g'' {#}" by (rule run_completes [OF assms(3) st assms(2)])
  ultimately show ?thesis using run_length [OF st] card by simp
qed

theorem dag_run_completes_witness:
  "\<exists>tr g'. dag_run 4 0 demo_graph tr g' {#} \<and> isCompleted g' \<and> length tr \<le> 4"
proof -
  have fuel: "edge_count (graph_edges demo_graph) (graph_nodes demo_graph) \<le> 4" by (simp add: demo_edge_count)
  obtain tr g' where run: "dag_run 4 0 demo_graph ([] @ tr) g' {#}"
    using dag_run_completes [OF demo_dag_ok fuel graph_run.run_start, of 0 False] by blast
  show ?thesis
    using run dag_run_completes [OF demo_dag_ok _ run, of False] demo_edge_count demo_graph_nodes
    by (intro exI [of _ tr] exI [of _ g']) simp
qed

text \<open>Executing a node that is no condition changes no other node's state.\<close>

lemma release_successor_states: "release_successor b w (u, g) = (u', g') \<Longrightarrow> node_state (nodes g' v) = node_state (nodes g v)"
  by (auto simp: release_successor_def node_decrementActive_def Let_def split: prod.splits if_splits)

lemma unblock_static_states: "unblock_static b el (u, g) = (u', g') \<Longrightarrow> node_state (nodes g' v) = node_state (nodes g v)"
proof (induction el arbitrary: u g)
  case (Cons e el)
  show ?case
  proof (cases "target e")
    case None
    then show ?thesis using Cons by simp
  next
    case (Some w)
    obtain u1 g1 where r: "release_successor b w (u, g) = (u1, g1)" by (cases "release_successor b w (u, g)")
    then show ?thesis using Cons.IH [of u1 g1] Cons.prems Some release_successor_states [OF r, of v] by simp
  qed
qed simp

lemma execute_states:
  assumes "execute fuel n g = Some g'" and "node_type (nodes g n) \<noteq> Condition"
  shows "node_state (nodes g' v) = (if v = n then Completed else node_state (nodes g v))"
proof -
  define g1 where "g1 = upd_node n (\<lambda>x. x\<lparr>node_state := Completed\<rparr>) (run_callable n (upd_node n (\<lambda>x. x\<lparr>node_state := Executing\<rparr>) g))"
  note rc = run_callable_frame(1) [of n "upd_node n (\<lambda>x. x\<lparr>node_state := Executing\<rparr>) g"]
  have g1: "node_state (nodes g1 v) = (if v = n then Completed else node_state (nodes g v))"
    by (simp add: g1_def) (subst rc, simp)
  have ty: "node_type (nodes g1 n) \<noteq> Condition" using assms(2) by (simp add: g1_def) (subst rc, simp)
  obtain u h where uh: "unblock_static (has_graph (nodes g1 n)) (successors (nodes g1 n)) (0, g1) = (u, h)"
    by (metis surj_pair)
  have "unblockSuccessors fuel n g1 = Some (finish_unblock (has_graph (nodes g1 n)) (u, h))"
    using uh ty by (simp add: unblockSuccessors_def Let_def)
  then have "nodes g' = nodes h"
    using assms(1) by (auto simp: execute_def Let_def g1_def [symmetric] finish_unblock_def onTaskCompleted_def split: if_splits)
  then show ?thesis using unblock_static_states [OF uh, of v] g1 by simp
qed

lemma graph_run_static:
  assumes "graph_run fuel g R tr g' R'" and "run_state es V [] {} g R" and "edge_count es V \<le> fuel"
    and "\<forall>v \<in> V. node_type (nodes g v) \<noteq> Condition"
  shows "(\<forall>v \<in> set tr. node_state (nodes g' v) = Completed)
    \<and> user g' = fold (\<lambda>n. run_fn (executeFn (nodes g n))) tr (user g)"
  using assms
proof (induction rule: graph_run.induct)
  case (run_start g R)
  then show ?case by simp
next
  case (run_next g R tr g1 R1 n b g2)
  obtain D where D: "run_state es V tr D g1 R1" "same_types g g1"
    using graph_run_state [OF run_next.hyps(1) run_next.prems(1,2)] by blast
  have "node_type (nodes (begin_execute b g1) n) \<noteq> Condition"
    using run_next.prems(3) D(2) scheduled_node(1) [OF D(1) run_next.hyps(2)] by (simp add: same_types_def)
  note st = execute_states [OF run_next.hyps(3) this]
  have "user g2 = run_fn (executeFn (nodes g n)) (user g1)"
    using execute_user [OF run_next.hyps(3)] D(2) by (simp add: same_types_def begin_execute_def)
  then show ?case using st run_next.IH [OF run_next.prems] by auto
qed

text \<open>What starting a run leaves alone.\<close>

definition settings :: "'u engine \<Rightarrow> 'u \<times> bool \<times> node_ptr \<times> bool" where
  "settings g = (user g, r_hasTimeout g, t_nextInlineTask g, t_canInlineTask g)"

lemma schedule_roots_settings: "settings (snd (fold schedule_root ns s)) = settings (snd s)"
proof (induction ns arbitrary: s)
  case (Cons n ns)
  have "settings (snd (schedule_root n s)) = settings (snd s)"
    by (cases s) (simp add: schedule_root_def settings_def scheduleNode_def graph_notify_def Let_def)
  then show ?case using Cons by simp
qed simp

lemma prepareRun_settings: "settings (prepareRun now g) = settings g"
proof -
  have r: "settings (fold reset_node ns g) = settings g" for ns and g :: "'a engine"
    by (induction ns arbitrary: g) (simp_all add: reset_node_def settings_def)
  have w: "settings (fold (rearm_wait now) ws g) = settings g" for ws and g :: "'a engine"
    by (induction ws arbitrary: g) (simp_all add: rearm_wait_def registerWait_def settings_def)
  have n: "settings (graph_notify k h) = settings h" and s: "settings (h\<lparr>m_hasScheduler := True, m_pendingTasks := c\<rparr>) = settings h"
    for k c and h :: "'a engine" by (simp_all add: settings_def graph_notify_def)
  show ?thesis by (simp add: prepareRun_def Let_def r w n s case_prod_unfold schedule_roots_settings)
qed

lemma prepareRun_frame [simp]:
  "user (prepareRun now g) = user g" "r_hasTimeout (prepareRun now g) = r_hasTimeout g"
  "t_nextInlineTask (prepareRun now g) = t_nextInlineTask g" "t_canInlineTask (prepareRun now g) = t_canInlineTask g"
  using prepareRun_settings [of now g] by (simp_all add: settings_def)

lemma complete_run:
  assumes "dag_ok g" and "edge_count (graph_edges g) (graph_nodes g) \<le> fuel"
    and "\<forall>v \<in> graph_nodes g. node_type (nodes g v) \<noteq> Condition"
    and "dag_run fuel now g tr g' {#}"
  shows "mset tr = mset (m_nodeList g)"
    and "\<forall>v \<in> graph_nodes g. node_state (nodes g' v) = Completed"
    and "user g' = fold (\<lambda>n. run_fn (executeFn (nodes g n))) tr (user g)"
    and "\<And>tr1 m tr2 v. tr = tr1 @ m # tr2 \<Longrightarrow> v \<in> graph_nodes g \<Longrightarrow> m \<in> set (targets (graph_edges g v)) \<Longrightarrow> v \<in> set tr1"
proof -
  let ?es = "graph_edges g" and ?V = "graph_nodes g"
  note ty = prepareRun_types [OF assms(1), of now]
  have static: "\<forall>v \<in> ?V. node_type (nodes (prepareRun now g) v) \<noteq> Condition" using assms(3) ty by (simp add: same_types_def)
  have fns: "executeFn (nodes (prepareRun now g) v) = executeFn (nodes g v)" for v using ty by (simp add: same_types_def)
  have st: "run_state ?es ?V tr (set tr) g' {#}" using dag_run_facts [OF assms(1,2,4)] assms(3) by auto
  obtain rank :: "node_id \<Rightarrow> nat" where rank: "\<forall>v \<in> ?V. \<forall>t \<in> set (targets (?es v)). rank v < rank t"
    using assms(1) by (auto simp: dag_ok_def)
  note inv = run_state_invD [OF st, of False]
  have all: "set tr = ?V" by (rule quiescent_settled [OF inv rank])
  have "distinct tr" using st by (simp add: run_state_def)
  then show "mset tr = mset (m_nodeList g)" using all dag_okD(1) [OF assms(1)] by (simp add: set_eq_iff_mset_eq_distinct)
  show "v \<in> set tr1" if "tr = tr1 @ m # tr2" "v \<in> ?V" "m \<in> set (targets (?es v))" for tr1 m tr2 v
  proof -
    have "v \<notin> set (m # tr2)" using st that unfolding run_state_def by blast
    then show ?thesis using all that by auto
  qed
  show "\<forall>v \<in> graph_nodes g. node_state (nodes g' v) = Completed"
    "user g' = fold (\<lambda>n. run_fn (executeFn (nodes g n))) tr (user g)"
    using graph_run_static [OF assms(4) prepared_state [OF assms(1)] assms(2) static] all fns by auto
qed

text \<open>
  Without condition nodes a run that has nothing left scheduled has executed every node exactly
  once and left each \<open>Completed\<close>, and the program state is what the callables give when they are
  called one after the other in that order.
\<close>

theorem dag_run_all:
  assumes "dag_ok g" and "edge_count (graph_edges g) (graph_nodes g) \<le> fuel"
    and "\<forall>v \<in> graph_nodes g. node_type (nodes g v) \<noteq> Condition"
    and "dag_run fuel now g tr g' {#}"
  shows "mset tr = mset (m_nodeList g) \<and> (\<forall>v \<in> graph_nodes g. node_state (nodes g' v) = Completed)
    \<and> user g' = fold (\<lambda>n. run_fn (executeFn (nodes g n))) tr (user g)
    \<and> (\<forall>tr1 m tr2 v. tr = tr1 @ m # tr2 \<and> v \<in> graph_nodes g \<and> m \<in> set (targets (graph_edges g v)) \<longrightarrow> v \<in> set tr1)"
  using complete_run [OF assms] by blast

theorem dag_run_all_witness:
  "\<exists>tr g'. dag_run 4 0 demo_graph tr g' {#} \<and> mset tr = {#0, 1, 2, 3#} \<and> user g' = tr"
proof -
  obtain tr g' where "dag_run 4 0 demo_graph ([] @ tr) g' {#}"
    using run_completes [OF graph_run.run_start prepared_state [OF demo_dag_ok]] demo_edge_count by (metis le_refl)
  then have run: "dag_run 4 0 demo_graph tr g' {#}" by simp
  have static: "\<forall>v \<in> graph_nodes demo_graph. node_type (nodes demo_graph v) \<noteq> Condition"
    by (simp add: demo_graph_nodes) (simp add: demo_graph_defs)
  note all = dag_run_all [OF demo_dag_ok _ static run]
  have tr: "mset tr = {#0, 1, 2, 3#}" using all demo_edge_count demo_graph_nodes by simp
  then have "set tr = {0, 1, 2, 3}" by (metis set_mset_mset set_mset_add_mset_insert set_mset_empty)
  then have fns: "run_fn (executeFn (nodes demo_graph n)) = (\<lambda>u. u @ [n])" if "n \<in> set tr" for n
    using that by (auto simp: run_fn_def demo_graph_defs)
  have "fold (\<lambda>n. run_fn (executeFn (nodes demo_graph n))) ts us = us @ ts" if "set ts \<subseteq> set tr" for ts us
    using that by (induction ts arbitrary: us) (simp_all add: fns)
  moreover have "user demo_graph = []" by (simp add: demo_graph_defs)
  ultimately show ?thesis using run all demo_edge_count tr by auto
qed

end
