(* ===== verification/Graph_Build.thy ===== *)
theory Graph_Build
  imports Graph_Run
begin

text \<open>
  Building a graph. A client calls \<open>emplace\<close>, \<open>emplaceCondition\<close> and \<open>addEdge\<close> in some order;
  when its edges increase a rank, the search for cycles in \<open>addEdge\<close> finds none, and what was built
  meets the conditions under which the run theorems hold.
\<close>

datatype 'u build_op =
    Emplace string TaskDomain TaskPriority "'u \<Rightarrow> 'u"
  | EmplaceCondition string TaskDomain TaskPriority "'u \<Rightarrow> int \<times> 'u"
  | AddEdge node_id node_id int

fun build_step :: "'u build_op \<Rightarrow> 'u engine \<Rightarrow> 'u engine" where
  "build_step (Emplace name d p f) g = snd (emplace name d p f g)"
| "build_step (EmplaceCondition name d p f) g = snd (emplaceCondition name d p f g)"
| "build_step (AddEdge a b br) g = addEdge a b br g"

definition build :: "'u \<Rightarrow> 'u build_op list \<Rightarrow> 'u engine" where
  "build u ops = fold build_step ops (TaskGraph_new u)"

text \<open>Edges join nodes created before and increase the rank; \<open>k\<close> counts the nodes.\<close>

fun ops_ok :: "(node_id \<Rightarrow> nat) \<Rightarrow> nat \<Rightarrow> 'u build_op list \<Rightarrow> bool" where
  "ops_ok rank k [] \<longleftrightarrow> True"
| "ops_ok rank k (AddEdge a b br # ops) \<longleftrightarrow> a < k \<and> b < k \<and> rank a < rank b \<and> ops_ok rank k ops"
| "ops_ok rank k (_ # ops) \<longleftrightarrow> ops_ok rank (Suc k) ops"

fun node_ops :: "'u build_op list \<Rightarrow> nat" where
  "node_ops [] = 0"
| "node_ops (AddEdge a b br # ops) = node_ops ops"
| "node_ops (_ # ops) = Suc (node_ops ops)"

fun edge_targets :: "'u build_op list \<Rightarrow> node_id list" where
  "edge_targets [] = []"
| "edge_targets (AddEdge a b br # ops) = b # edge_targets ops"
| "edge_targets (_ # ops) = edge_targets ops"

section \<open>The search for cycles\<close>

text \<open>Along edges that stay in a set and increase a rank, no node of smaller rank is reached.\<close>

definition ranked_on :: "node_id set \<Rightarrow> (node_id \<Rightarrow> nat) \<Rightarrow> (node_id \<Rightarrow> successor_edge list) \<Rightarrow> bool" where
  "ranked_on S rank succs \<longleftrightarrow> (\<forall>v \<in> S. \<forall>e \<in> set (succs v). \<forall>t. target e = Some t \<longrightarrow> t \<in> S \<and> rank v < rank t)"

lemma reaches_scan_ranked:
  assumes "\<forall>e \<in> set es. \<forall>w. target e = Some w \<longrightarrow> w \<in> S \<and> rank t < rank w" and "\<forall>v \<in> set vis. v \<in> S \<and> rank t < (rank v :: nat)"
  shows "\<not> fst (reaches_scan t es vis) \<and> (\<forall>v \<in> set (snd (reaches_scan t es vis)). v \<in> S \<and> rank t < rank v)"
  using assms
proof (induction es arbitrary: vis)
  case (Cons e es)
  have rest: "\<forall>e \<in> set es. \<forall>w. target e = Some w \<longrightarrow> w \<in> S \<and> rank t < rank w" using Cons.prems(1) by simp
  show ?case
  proof (cases "target e")
    case None
    then show ?thesis using Cons.IH [OF rest Cons.prems(2)] by simp
  next
    case (Some w)
    then have w: "w \<in> S" "rank t < rank w" using Cons.prems(1) by simp_all
    then have "\<forall>v \<in> set (vis @ [w]). v \<in> S \<and> rank t < rank v" using Cons.prems(2) by simp
    note ih = Cons.IH [OF rest this] Cons.IH [OF rest Cons.prems(2)]
    have "w \<noteq> t" using w by auto
    then show ?thesis using Some ih by simp
  qed
qed simp

lemma reaches_loop_ranked:
  assumes "ranked_on S rank succs" and "\<forall>v \<in> set vis. v \<in> S \<and> rank t < rank v"
  shows "\<not> reaches_loop k succs t head vis"
  using assms(2)
proof (induction k arbitrary: head vis)
  case (Suc k)
  have "\<not> fst (reaches_scan t (succs (vis ! head)) vis) \<and> (\<forall>v \<in> set (snd (reaches_scan t (succs (vis ! head)) vis)). v \<in> S \<and> rank t < rank v)"
    if "head < length vis"
  proof (rule reaches_scan_ranked [OF _ Suc.prems], intro ballI allI impI)
    fix e w assume "e \<in> set (succs (vis ! head))" "target e = Some w"
    moreover have "vis ! head \<in> S" "rank t < rank (vis ! head)" using Suc.prems that by simp_all
    ultimately show "w \<in> S \<and> rank t < rank w" using assms(1) unfolding ranked_on_def by (meson less_trans)
  qed
  moreover have "vis ! head \<noteq> t" if "head < length vis" using Suc.prems that by (metis less_irrefl nth_mem)
  ultimately show ?case using Suc.IH by (auto simp: Let_def case_prod_unfold)
qed simp

lemma reaches_ranked:
  assumes "ranked_on S rank (\<lambda>n. successors (nodes g n))" and "s \<in> S" and "rank t < rank s"
  shows "\<not> reaches (Some s) (Some t) g"
  using reaches_loop_ranked [OF assms(1), of "[s]" t] assms(2,3) by (auto simp: reaches_def)

lemma addEdge_forward:
  assumes "ranked_on S rank (\<lambda>n. successors (nodes g n))" and "a \<in> S" and "b \<in> S" and "rank a < rank b"
  shows "addEdge a b br g = upd_node b (\<lambda>n. n\<lparr>initialInDegree := initialInDegree n + 1, inDegree := initialInDegree n + 1\<rparr>)
    (upd_node a (\<lambda>n. n\<lparr>successors := \<lparr>target = Some b, branch = br, isLoopBack = False\<rparr> # successors n\<rparr>) g)"
proof -
  let ?g = "upd_node a (\<lambda>n. n\<lparr>successors := \<lparr>target = Some b, branch = br, isLoopBack = False\<rparr> # successors n\<rparr>) g"
  have "ranked_on S rank (\<lambda>n. successors (nodes ?g n))" using assms by (auto simp: ranked_on_def)
  then have "\<not> reaches (Some b) (Some a) ?g" using assms(3,4) by (rule reaches_ranked)
  then show ?thesis by (simp add: addEdge_def Let_def) (simp add: upd_node_def)
qed

section \<open>What the builders keep\<close>

text \<open>
  \<open>k\<close> nodes were created, those of \<open>J\<close> are not in the node list yet, and the edges have the
  targets \<open>E\<close>.
\<close>

definition built_inv :: "(node_id \<Rightarrow> nat) \<Rightarrow> nat \<Rightarrow> node_id set \<Rightarrow> node_id multiset \<Rightarrow> 'u engine \<Rightarrow> bool" where
  "built_inv rank k J E g \<longleftrightarrow>
     next_node g = k \<and> distinct (m_nodeList g) \<and> set (m_nodeList g) = {..<k} - J \<and> m_nodeCount g = of_nat k
     \<and> m_waitList g = [] \<and> requests g = [] \<and> t_nextInlineTask g = None
     \<and> (\<forall>v < k. has_graph (nodes g v))
     \<and> (\<forall>v. \<forall>e \<in> set (successors (nodes g v)). v < k \<and> \<not> isLoopBack e \<and> (\<exists>t < k. target e = Some t \<and> rank v < rank t))
     \<and> (\<forall>t. initialInDegree (nodes g t) = of_nat (count E t))
     \<and> (\<Sum>v < k. mset (targets (graph_edges g v))) = E"

lemma built_inv_ranked: "built_inv rank k J E g \<Longrightarrow> ranked_on UNIV rank (\<lambda>n. successors (nodes g n))"
  by (fastforce simp: built_inv_def ranked_on_def)

lemma built_new: "built_inv rank 0 {} {#} (TaskGraph_new u)"
  by (simp add: built_inv_def TaskGraph_new_def TaskNode_default_def)

lemma built_next: "built_inv rank k J E g \<Longrightarrow> next_node g = k"
  by (simp add: built_inv_def)

lemma built_create:
  assumes inv: "built_inv rank k J E g" and J: "J \<subseteq> {..<k}"
  shows "built_inv rank (Suc k) (insert k J) E (snd (create_node name d p ty fn g))"
proof -
  note i = inv [unfolded built_inv_def]
  let ?x = "TaskNode_default\<lparr>node_index := m_nodeCount g, node_name := name, domain := d, priority := p, has_graph := True,
      node_type := ty, executeFn := fn\<rparr>"
  define g' where "g' = g\<lparr>nodes := (nodes g)(k := ?x), next_node := Suc k, m_nodeCount := m_nodeCount g + 1\<rparr>"
  have eq: "snd (create_node name d p ty fn g) = g'" using i by (simp add: create_node_def g'_def Let_def)
  have x: "has_graph ?x" "successors ?x = []" "initialInDegree ?x = 0" by (simp_all add: TaskNode_default_def)
  have nd: "nodes g' = (nodes g)(k := ?x)" by (simp add: g'_def)
  have sk: "successors (nodes g k) = []" using i by (metis less_irrefl list.set_intros(1) list.exhaust)
  have succ: "successors (nodes g' v) = successors (nodes g v)" for v using nd x(2) sk by simp
  have ge: "graph_edges g' v = graph_edges g v" for v using succ by (simp add: graph_edges_def)
  have E: "(\<Sum>v < k. mset (targets (graph_edges g v))) = E" using i by blast
  have "k \<notin># E"
  proof
    assume "k \<in># E"
    then obtain v where "v < k" "k \<in> set (targets (graph_edges g v))" unfolding E [symmetric] by (auto simp: set_mset_sum)
    then show False using i by (fastforce simp: targets_def graph_edges_def)
  qed
  then have deg: "initialInDegree (nodes g' t) = of_nat (count E t)" for t using i nd x(3) by (simp add: not_in_iff)
  have nl: "distinct (m_nodeList g')" "set (m_nodeList g') = {..<Suc k} - insert k J" using i J by (auto simp: g'_def)
  have E': "(\<Sum>v < Suc k. mset (targets (graph_edges g' v))) = E" using E sk by (simp add: ge) (simp add: graph_edges_def targets_def)
  have nc: "m_nodeCount g' = of_nat (Suc k)" using i by (simp add: g'_def)
  show ?thesis unfolding built_inv_def eq
  proof (intro conjI allI ballI impI)
    show "distinct (m_nodeList g')" "set (m_nodeList g') = {..<Suc k} - insert k J" "m_nodeCount g' = of_nat (Suc k)"
      "(\<Sum>v < Suc k. mset (targets (graph_edges g' v))) = E" by (rule nl nc E')+
    show "initialInDegree (nodes g' t) = of_nat (count E t)" for t by (rule deg)
    show "has_graph (nodes g' v)" if "v < Suc k" for v using that i nd x(1) by (cases "v = k") auto
    show "next_node g' = Suc k" "m_waitList g' = []" "requests g' = []" "t_nextInlineTask g' = None" using i by (simp_all add: g'_def)
    fix v e assume "e \<in> set (successors (nodes g' v))"
    then have e: "e \<in> set (successors (nodes g v))" using succ by simp
    have "v < k \<and> \<not> isLoopBack e \<and> (\<exists>t < k. target e = Some t \<and> rank v < rank t)" using i e by blast
    then show "v < Suc k" "\<not> isLoopBack e" "\<exists>t < Suc k. target e = Some t \<and> rank v < rank t" using less_SucI by blast+
  qed
qed

lemma built_appendNode:
  assumes inv: "built_inv rank k J E g" and n: "n \<in> J" "J \<subseteq> {..<k}"
  shows "built_inv rank k (J - {n}) E (appendNode n g)"
proof -
  have "n \<notin> set (m_nodeList g)" "{..<k} - (J - {n}) = insert n ({..<k} - J)" using inv n by (auto simp: built_inv_def)
  then show ?thesis using inv by (simp add: built_inv_def appendNode_def graph_edges_def)
qed

lemma built_add_node:
  assumes "built_inv rank k J E g" and "J \<subseteq> {..<k}"
  shows "built_inv rank (Suc k) J E (appendNode k (snd (create_node name d p ty fn g)))"
proof -
  have "insert k J - {k} = J" using assms(2) by auto
  then show ?thesis using built_appendNode [OF built_create [OF assms], of k name d p ty fn] assms(2) by fastforce
qed

lemma emplace_eq:
  "snd (emplace name d p f g) = appendNode (next_node g) (snd (create_node name d p Static (RunFn f) g))"
  "snd (emplaceCondition name d p f' g) = appendNode (next_node g) (snd (create_node name d p Condition (CondFn f') g))"
  by (simp_all add: emplace_def emplaceCondition_def create_node_def setCallable_def setConditionCallable_def
      appendNode_def upd_node_def Let_def)

lemma built_emplace:
  assumes "built_inv rank k J E g" and "J \<subseteq> {..<k}"
  shows "built_inv rank (Suc k) J E (snd (emplace name d p f g))"
    and "built_inv rank (Suc k) J E (snd (emplaceCondition name d p f' g))"
  unfolding emplace_eq built_next [OF assms(1)] by (rule built_add_node [OF assms])+

lemma built_edge:
  assumes inv: "built_inv rank k J E g" and ab: "a < k" "b < k" "rank a < rank b"
  shows "built_inv rank k J (add_mset b E) (addEdge a b br g)"
proof -
  note i = inv [unfolded built_inv_def]
  let ?e = "\<lparr>target = Some b, branch = br, isLoopBack = False\<rparr>"
  define g' where "g' = addEdge a b br g"
  have g': "g' = upd_node b (\<lambda>n. n\<lparr>initialInDegree := initialInDegree n + 1, inDegree := initialInDegree n + 1\<rparr>)
      (upd_node a (\<lambda>n. n\<lparr>successors := ?e # successors n\<rparr>) g)"
    unfolding g'_def by (rule addEdge_forward [OF built_inv_ranked [OF inv] UNIV_I UNIV_I ab(3)])
  have "a \<noteq> b" using ab(3) by auto
  then have succ: "successors (nodes g' v) = (if v = a then ?e # successors (nodes g a) else successors (nodes g v))"
    and deg: "initialInDegree (nodes g' v) = initialInDegree (nodes g v) + (if v = b then 1 else 0)"
    and hg: "has_graph (nodes g' v) = has_graph (nodes g v)" for v by (auto simp: g')
  have keep: "next_node g' = next_node g" "m_nodeList g' = m_nodeList g" "m_nodeCount g' = m_nodeCount g"
    "m_waitList g' = m_waitList g" "requests g' = requests g" "t_nextInlineTask g' = t_nextInlineTask g"
    by (simp_all add: g' upd_node_def)
  have f: "mset (targets (graph_edges g' v)) = (if v = a then {#b#} else {#}) + mset (targets (graph_edges g v))" for v
    by (simp add: graph_edges_def succ targets_def)
  have "(\<Sum>v < k. if v = a then {#b#} else {#}) = {#b#}" using ab(1) by (simp add: sum.delta)
  then have E': "(\<Sum>v < k. mset (targets (graph_edges g' v))) = add_mset b E" using i by (simp add: f sum.distrib)
  show ?thesis unfolding built_inv_def g'_def [symmetric]
  proof (intro conjI allI ballI impI)
    show "(\<Sum>v < k. mset (targets (graph_edges g' v))) = add_mset b E" by (rule E')
    show "initialInDegree (nodes g' t) = of_nat (count (add_mset b E) t)" for t using deg [of t] i by simp
    show "v < k \<Longrightarrow> has_graph (nodes g' v)" for v using hg i by simp
    fix v e assume e: "e \<in> set (successors (nodes g' v))"
    have "v < k \<and> \<not> isLoopBack e \<and> (\<exists>t < k. target e = Some t \<and> rank v < rank t)"
    proof (cases "v = a \<and> e = ?e")
      case True
      then show ?thesis using ab by simp
    next
      case False
      then have "e \<in> set (successors (nodes g v))" using e succ [of v] by (auto split: if_splits)
      then show ?thesis using i by blast
    qed
    then show "v < k" "\<not> isLoopBack e" "\<exists>t < k. target e = Some t \<and> rank v < rank t" by blast+
  qed (use keep i in simp_all)
qed

lemma built_steps:
  assumes "built_inv rank k {} E g" and "ops_ok rank k ops"
  shows "built_inv rank (k + node_ops ops) {} (E + mset (edge_targets ops)) (fold build_step ops g)"
  using assms
proof (induction ops arbitrary: k E g)
  case (Cons op ops)
  show ?case
  proof (cases op)
    case (Emplace name d p f)
    then show ?thesis using Cons.IH [OF built_emplace(1) [OF Cons.prems(1)]] Cons.prems(2) by simp
  next
    case (EmplaceCondition name d p f)
    then show ?thesis using Cons.IH [OF built_emplace(2) [OF Cons.prems(1)]] Cons.prems(2) by simp
  next
    case (AddEdge a b br)
    then show ?thesis using Cons.IH [OF built_edge [OF Cons.prems(1), of a b br]] Cons.prems(2) by simp
  qed
qed simp

section \<open>Building an acyclic graph\<close>

lemma built_dag_ok:
  assumes inv: "built_inv rank k {} E g" and "k < 2 ^ 32" and "\<forall>t. count E t \<le> 65535"
  shows "dag_ok g" and "in_edges g = E" and "set (m_nodeList g) = {..<k}"
proof -
  note i = inv [unfolded built_inv_def]
  show set: "set (m_nodeList g) = {..<k}" using i by simp
  show in_edges: "in_edges g = E" using i by (simp add: in_edges_def)
  have len: "length (m_nodeList g) = k" using i set by (metis card_lessThan distinct_card)
  have e: "v < k \<and> \<not> isLoopBack e \<and> (\<exists>t < k. target e = Some t \<and> rank v < rank t)" if "e \<in> set (graph_edges g v)" for v e
    using i that by (simp add: graph_edges_def)
  have ok: "edges_ok (graph_edges g) {..<k}" unfolding edges_ok_def using e by fastforce
  have rank: "rank v < rank t" if "t \<in> set (targets (graph_edges g v))" for v t
    using e that by (fastforce simp: targets_def)
  show "dag_ok g" unfolding dag_ok_def
  proof (intro conjI)
    show "\<exists>rank :: node_id \<Rightarrow> nat. \<forall>v \<in> set (m_nodeList g). \<forall>t \<in> set (targets (graph_edges g v)). rank v < rank t"
      using rank by blast
    show "edges_ok (graph_edges g) (set (m_nodeList g))" using ok set by simp
    show "\<forall>t \<in> set (m_nodeList g). count (in_edges g) t \<le> 65535 \<and> initialInDegree (nodes g t) = of_nat (count (in_edges g) t)"
      using assms(3) i in_edges by simp
  qed (use i assms(2) set len in simp_all)
qed

text \<open>What the nodes of a built graph hold: the edges added from them and the callables given.\<close>

fun edges_from :: "'u build_op list \<Rightarrow> node_id \<Rightarrow> node_id list" where
  "edges_from [] v = []"
| "edges_from (AddEdge a b br # ops) v = (if a = v then b # edges_from ops v else edges_from ops v)"
| "edges_from (_ # ops) v = edges_from ops v"

fun node_specs :: "'u build_op list \<Rightarrow> (TaskType \<times> 'u task_fn) list" where
  "node_specs [] = []"
| "node_specs (AddEdge a b br # ops) = node_specs ops"
| "node_specs (Emplace name d p f # ops) = (Static, RunFn f) # node_specs ops"
| "node_specs (EmplaceCondition name d p f # ops) = (Condition, CondFn f) # node_specs ops"

definition spec_of :: "'u engine \<Rightarrow> node_id \<Rightarrow> TaskType \<times> 'u task_fn" where
  "spec_of g v = (node_type (nodes g v), executeFn (nodes g v))"

lemma create_spec:
  "next_node g = k \<Longrightarrow> spec_of (appendNode k (snd (create_node name d p ty fn g))) v = (if v = k then (ty, fn) else spec_of g v)"
  "next_node g = k \<Longrightarrow> graph_edges (appendNode k (snd (create_node name d p ty fn g))) v = (if v = k then [] else graph_edges g v)"
  by (simp_all add: spec_of_def graph_edges_def create_node_def appendNode_def TaskNode_default_def Let_def)

lemma addEdge_spec: "spec_of (addEdge a b br g) v = spec_of g v"
  by (simp add: addEdge_def spec_of_def Let_def)

lemma built_empty: "built_inv rank k J E g \<Longrightarrow> graph_edges g k = []"
  unfolding built_inv_def graph_edges_def by (metis less_irrefl list.set_intros(1) list.exhaust)

lemma built_edges_from:
  assumes "built_inv rank k {} E g" and "ops_ok rank k ops"
  shows "set (targets (graph_edges (fold build_step ops g) v)) = set (targets (graph_edges g v)) \<union> set (edges_from ops v)"
  using assms
proof (induction ops arbitrary: k E g)
  case (Cons op ops)
  note inv = Cons.prems(1)
  have node: "next_node g = k" by (rule built_next [OF inv])
  show ?case
  proof (cases op)
    case (AddEdge a b br)
    have ab: "a < k" "b < k" "rank a < rank b" using Cons.prems(2) AddEdge by simp_all
    have "set (targets (graph_edges (addEdge a b br g) v)) = set (targets (graph_edges g v)) \<union> (if a = v then {b} else {})"
      unfolding addEdge_forward [OF built_inv_ranked [OF inv] UNIV_I UNIV_I ab(3)] using ab(3) by (auto simp: graph_edges_def targets_def)
    then show ?thesis using Cons.IH [OF built_edge [OF inv ab, of br]] Cons.prems(2) AddEdge by auto
  next
    case (Emplace name d p f)
    then show ?thesis
      using Cons.IH [OF built_emplace(1) [OF inv], of name d p f] Cons.prems(2) built_empty [OF inv]
      by (auto simp: emplace_eq create_spec [OF node] node targets_def)
  next
    case (EmplaceCondition name d p f)
    then show ?thesis
      using Cons.IH [OF built_emplace(2) [OF inv], of name d p f] Cons.prems(2) built_empty [OF inv]
      by (auto simp: emplace_eq create_spec [OF node] node targets_def)
  qed
qed simp

lemma built_specs:
  assumes "next_node g = k"
  shows "spec_of (fold build_step ops g) v = (if v < k \<or> k + length (node_specs ops) \<le> v then spec_of g v else node_specs ops ! (v - k))"
  using assms
proof (induction ops arbitrary: k g)
  case (Cons op ops)
  note node = Cons.prems
  show ?case
  proof (cases op)
    case (AddEdge a b br)
    have "next_node (addEdge a b br g) = k" using node by (simp add: addEdge_def upd_node_def Let_def)
    then show ?thesis using Cons.IH [of "addEdge a b br g" k] AddEdge by (simp add: addEdge_spec)
  next
    case (Emplace name d p f)
    have "next_node (snd (emplace name d p f g)) = Suc k"
      using node by (simp add: emplace_eq create_node_def appendNode_def Let_def)
    then show ?thesis using Cons.IH [of _ "Suc k"] Emplace
      by (auto simp: emplace_eq create_spec [OF node] node nth_Cons' less_Suc_eq)
  next
    case (EmplaceCondition name d p f)
    have "next_node (snd (emplaceCondition name d p f g)) = Suc k"
      using node by (simp add: emplace_eq create_node_def appendNode_def Let_def)
    then show ?thesis using Cons.IH [of _ "Suc k"] EmplaceCondition
      by (auto simp: emplace_eq create_spec [OF node] node nth_Cons' less_Suc_eq)
  qed
qed auto

lemma build_ok:
  assumes "ops_ok rank 0 ops" and "node_ops ops < 2 ^ 32" and "\<forall>t. count_list (edge_targets ops) t \<le> 65535"
  shows "dag_ok (build u ops)" and "set (m_nodeList (build u ops)) = {..<node_ops ops}"
    and "in_edges (build u ops) = mset (edge_targets ops)"
    and "set (targets (graph_edges (build u ops) v)) = set (edges_from ops v)"
    and "v < node_ops ops \<Longrightarrow> spec_of (build u ops) v = node_specs ops ! v"
proof -
  have inv: "built_inv rank (node_ops ops) {} (mset (edge_targets ops)) (build u ops)"
    using built_steps [OF built_new assms(1), of u] by (simp add: build_def)
  show "dag_ok (build u ops)" "set (m_nodeList (build u ops)) = {..<node_ops ops}" "in_edges (build u ops) = mset (edge_targets ops)"
    using built_dag_ok [OF inv assms(2)] assms(3) by (simp_all add: count_mset)
  show "set (targets (graph_edges (build u ops) v)) = set (edges_from ops v)"
    using built_edges_from [OF built_new assms(1), of u v]
    by (simp add: build_def) (simp add: graph_edges_def targets_def TaskGraph_new_def TaskNode_default_def)
  have "length (node_specs ops) = node_ops ops" for ops :: "'a build_op list" by (induction ops rule: node_specs.induct) auto
  then show "v < node_ops ops \<Longrightarrow> spec_of (build u ops) v = node_specs ops ! v"
    using built_specs [of "TaskGraph_new u" 0 ops v] by (simp add: build_def) (simp add: TaskGraph_new_def)
qed

text \<open>
  C16: a graph built by \<open>emplace\<close>, \<open>emplaceCondition\<close> and \<open>addEdge\<close>, with edges along which some rank
  increases and at most 65535 of them into one node, is ready to run: its nodes are the created
  ones, no edge was taken for a loop, and every initial in-degree is the number of edges added to
  the node.
\<close>

theorem build_dag:
  assumes "ops_ok rank 0 ops" and "node_ops ops < 2 ^ 32" and "\<forall>t. count_list (edge_targets ops) t \<le> 65535"
  shows "dag_ok (build u ops) \<and> set (m_nodeList (build u ops)) = {..<node_ops ops}
    \<and> in_edges (build u ops) = mset (edge_targets ops)"
  using build_ok(1-3) [OF assms] by blast

theorem build_dag_witness:
  "dag_ok (build () [Emplace ''a'' Worker Normal id, EmplaceCondition ''b'' Worker High (\<lambda>u. (1, u)), AddEdge 1 0 1])"
  using build_dag [of "\<lambda>n. if n = 0 then 1 else 0" "[Emplace ''a'' Worker Normal id, EmplaceCondition ''b'' Worker High (\<lambda>u. (1, u)), AddEdge 1 0 1]" "()"]
  by simp

end
