(* ===== verification/Parallel_For.thy ===== *)
theory Parallel_For
  imports Graph_Build
begin

text \<open>
  Data-parallel loops: \<^verbatim>\<open>parallel_for.hpp\<close> and the \<open>parallelFor\<close> family of \<^verbatim>\<open>task_graph.hpp\<close>. The loop
  \<open>[0, count)\<close> is cut into chunks of \<open>batchSize\<close> indices; an entry node releases the chunk nodes and
  a join node waits for them. Index arithmetic is at the 64-bit width of \<open>usize\<close>.

  The node of the join barrier keeps a pointer to the shared callable only to destroy it; that
  pointer is never read by the scheduling code and is left out.
\<close>

section \<open>Ranges, callables, handles\<close>

record chunk_range =
  range_start :: usize
  range_end :: usize
  chunkIndex :: usize
  totalChunks :: usize

definition range_size :: "chunk_range \<Rightarrow> usize" where
  "range_size r = range_end r - range_start r"

definition range_empty :: "chunk_range \<Rightarrow> bool" where
  "range_empty r \<longleftrightarrow> range_end r \<le> range_start r"

text \<open>The invocation form that the concepts select at compile time.\<close>

datatype 'u loop_callable =
    ChunkRangeFn "chunk_range \<Rightarrow> 'u \<Rightarrow> 'u"
  | RangeWithChunkIdxFn "usize \<Rightarrow> usize \<Rightarrow> usize \<Rightarrow> 'u \<Rightarrow> 'u"
  | RangeFn "usize \<Rightarrow> usize \<Rightarrow> 'u \<Rightarrow> 'u"
  | ChunkIndexFn "usize \<Rightarrow> 'u \<Rightarrow> 'u"
  | ItemFn "usize \<Rightarrow> 'u \<Rightarrow> 'u"

text \<open>\<open>for (usize i = start; i < end; ++i) f(i);\<close>\<close>

function item_loop :: "(usize \<Rightarrow> 'u \<Rightarrow> 'u) \<Rightarrow> usize \<Rightarrow> usize \<Rightarrow> 'u \<Rightarrow> 'u" where
  "item_loop f i e u = (if i < e then item_loop f (i + 1) e (f i u) else u)"
  by pat_completeness auto
termination
proof (relation "measure (\<lambda>(f, i, e, u). unat e - unat i)")
  fix f :: "usize \<Rightarrow> 'u \<Rightarrow> 'u" and i e :: usize and u :: 'u
  assume "i < e"
  then have lt: "unat i < unat e" by (simp add: word_less_nat_alt)
  moreover have "unat e < 2 ^ 64" using unsigned_less [of e] by simp
  ultimately have "unat (i + 1) = unat i + 1" by (intro unat_Suc_lt) simp
  then show "((f, i + 1, e, f i u), (f, i, e, u)) \<in> measure (\<lambda>(f, i, e, u). unat e - unat i)" using lt by simp
qed simp

declare item_loop.simps [simp del]

definition chunk_body :: "'u loop_callable \<Rightarrow> chunk_range \<Rightarrow> 'u \<Rightarrow> 'u" where
  "chunk_body f r =
     (case f of
        ChunkRangeFn h \<Rightarrow> h r
      | RangeWithChunkIdxFn h \<Rightarrow> h (range_start r) (range_end r) (chunkIndex r)
      | RangeFn h \<Rightarrow> h (range_start r) (range_end r)
      | ChunkIndexFn h \<Rightarrow> h (chunkIndex r)
      | ItemFn h \<Rightarrow> item_loop h (range_start r) (range_end r))"

record parallel_for_handle =
  pf_entry :: node_ptr
  pf_exit :: node_ptr
  m_chunkCount :: usize
  m_chunkNodes :: "node_id list"

section \<open>Building the loop\<close>

definition chunk_count_of :: "usize \<Rightarrow> usize \<Rightarrow> usize" where
  "chunk_count_of cnt batchSize = (cnt + batchSize - 1) div batchSize"

definition chunk_range_of :: "usize \<Rightarrow> usize \<Rightarrow> usize \<Rightarrow> usize \<Rightarrow> chunk_range" where
  "chunk_range_of cnt batchSize numChunks c =
     (let start = c * batchSize
      in \<lparr>range_start = start, range_end = min cnt (start + batchSize), chunkIndex = c, totalChunks = numChunks\<rparr>)"

text \<open>The body of the chunk loop, for the node body \<open>body\<close>.\<close>

definition add_chunk ::
  "string \<Rightarrow> TaskDomain \<Rightarrow> TaskPriority \<Rightarrow> node_id \<Rightarrow> node_id \<Rightarrow> (usize \<Rightarrow> 'u \<Rightarrow> 'u) \<Rightarrow> nat
     \<Rightarrow> node_id list \<times> 'u engine \<Rightarrow> node_id list \<times> 'u engine" where
  "add_chunk name d p entryNode joinBarrierNode body c = (\<lambda>(chunks, g).
     let (chunkNode, g) = create_node name d p ParallelForChunk (RunFn (body (of_nat c))) g;
         g = appendNode chunkNode g;
         g = addEdge entryNode chunkNode (-1) g;
         g = addEdge chunkNode joinBarrierNode (-1) g
     in (chunks @ [chunkNode], g))"

text \<open>
  The part the two overloads share: a pass-through node for an empty range, a single node for one
  chunk, else entry, chunks and join barrier. \<open>single\<close> is the body of the single chunk and \<open>body c\<close>
  that of chunk \<open>c\<close>.
\<close>

definition build_loop ::
  "string \<Rightarrow> usize \<Rightarrow> usize \<Rightarrow> ('u \<Rightarrow> 'u) \<Rightarrow> (usize \<Rightarrow> 'u \<Rightarrow> 'u) \<Rightarrow> TaskDomain \<Rightarrow> TaskPriority
     \<Rightarrow> 'u engine \<Rightarrow> parallel_for_handle \<times> 'u engine" where
  "build_loop name cnt numChunks single body d p g =
     (if cnt = 0 then
        let (passThrough, g) = create_node name d p ParallelForChunk (RunFn (\<lambda>u. u)) g
        in (\<lparr>pf_entry = Some passThrough, pf_exit = Some passThrough, m_chunkCount = 0, m_chunkNodes = []\<rparr>,
            appendNode passThrough g)
      else if numChunks = 1 then
        let (chunkNode, g) = create_node name d p ParallelForChunk (RunFn single) g
        in (\<lparr>pf_entry = Some chunkNode, pf_exit = Some chunkNode, m_chunkCount = 1, m_chunkNodes = [chunkNode]\<rparr>,
            appendNode chunkNode g)
      else
        let (entryNode, g) = create_node name d p Static (RunFn (\<lambda>u. u)) g;
            g = appendNode entryNode g;
            (joinBarrierNode, g) = create_node name d p Static (RunFn (\<lambda>u. u)) g;
            (chunks, g) = fold (add_chunk name d p entryNode joinBarrierNode body) [0..<unat numChunks] ([], g)
        in (\<lparr>pf_entry = Some entryNode, pf_exit = Some joinBarrierNode, m_chunkCount = numChunks, m_chunkNodes = chunks\<rparr>,
            appendNode joinBarrierNode g))"

definition parallelFor ::
  "string \<Rightarrow> usize \<Rightarrow> usize \<Rightarrow> 'u loop_callable \<Rightarrow> TaskDomain \<Rightarrow> TaskPriority \<Rightarrow> 'u engine \<Rightarrow> parallel_for_handle \<times> 'u engine" where
  "parallelFor name cnt batchSize callable d p g =
     (let batchSize = (if batchSize = 0 then 1 else batchSize);
          numChunks = chunk_count_of cnt batchSize
      in build_loop name cnt numChunks
           (chunk_body callable \<lparr>range_start = 0, range_end = cnt, chunkIndex = 0, totalChunks = 1\<rparr>)
           (\<lambda>c. chunk_body callable (chunk_range_of cnt batchSize numChunks c)) d p g)"

text \<open>The overload taking \<open>ByChunk\<close>, which hands each chunk its index.\<close>

definition parallelForChunks ::
  "string \<Rightarrow> usize \<Rightarrow> usize \<Rightarrow> (usize \<Rightarrow> 'u \<Rightarrow> 'u) \<Rightarrow> TaskDomain \<Rightarrow> TaskPriority \<Rightarrow> 'u engine \<Rightarrow> parallel_for_handle \<times> 'u engine" where
  "parallelForChunks name cnt batchSize f d p g =
     (let batchSize = (if batchSize = 0 then 1 else batchSize)
      in build_loop name cnt (chunk_count_of cnt batchSize) (f 0) f d p g)"

text \<open>
  The overloads on a span of \<open>len\<close> elements. A reference to an element is its index, and a
  subspan is its offset and its length.
\<close>

datatype 'u span_callable =
    SpanChunkFn "usize \<times> usize \<Rightarrow> 'u \<Rightarrow> 'u"
  | SpanItemWithIndexFn "usize \<Rightarrow> usize \<Rightarrow> 'u \<Rightarrow> 'u"
  | SpanItemFn "usize \<Rightarrow> 'u \<Rightarrow> 'u"
  | OtherFn "'u loop_callable"

definition span_loop_callable :: "'u span_callable \<Rightarrow> 'u loop_callable" where
  "span_loop_callable f =
     (case f of
        SpanChunkFn h \<Rightarrow> RangeFn (\<lambda>s e. h (s, e - s))
      | SpanItemWithIndexFn h \<Rightarrow> RangeFn (item_loop (\<lambda>i. h i i))
      | SpanItemFn h \<Rightarrow> RangeFn (item_loop h)
      | OtherFn h \<Rightarrow> h)"

definition parallelFor_span ::
  "string \<Rightarrow> usize \<Rightarrow> usize \<Rightarrow> 'u span_callable \<Rightarrow> TaskDomain \<Rightarrow> TaskPriority \<Rightarrow> 'u engine \<Rightarrow> parallel_for_handle \<times> 'u engine" where
  "parallelFor_span name len batchSize f d p g = parallelFor name len batchSize (span_loop_callable f) d p g"

text \<open>The setters of the handle: entry, exit and every chunk.\<close>

definition pf_nodes :: "parallel_for_handle \<Rightarrow> node_id list" where
  "pf_nodes h = (case pf_entry h of None \<Rightarrow> [] | Some n \<Rightarrow> [n])
     @ (case pf_exit h of None \<Rightarrow> [] | Some n \<Rightarrow> if pf_exit h \<noteq> pf_entry h then [n] else []) @ m_chunkNodes h"

definition pf_set_domain :: "TaskDomain \<Rightarrow> parallel_for_handle \<Rightarrow> 'u engine \<Rightarrow> 'u engine" where
  "pf_set_domain d h g = fold (\<lambda>n. upd_node n (\<lambda>x. x\<lparr>domain := d\<rparr>)) (pf_nodes h) g"

definition pf_set_priority :: "TaskPriority \<Rightarrow> parallel_for_handle \<Rightarrow> 'u engine \<Rightarrow> 'u engine" where
  "pf_set_priority p h g = fold (\<lambda>n. upd_node n (\<lambda>x. x\<lparr>priority := p\<rparr>)) (pf_nodes h) g"

section \<open>The chunks partition the range\<close>

lemma item_loop_fold: "item_loop f i e u = fold (\<lambda>n. f (of_nat n)) [unat i..<unat e] u"
proof (induction f i e u rule: item_loop.induct)
  case (1 f i e u)
  show ?case
  proof (cases "i < e")
    case True
    then have lt: "unat i < unat e" by (simp add: word_less_nat_alt)
    moreover have "unat e < 2 ^ 64" using unsigned_less [of e] by simp
    ultimately have "unat (i + 1) = unat i + 1" by (intro unat_Suc_lt) simp
    then show ?thesis using 1 True lt by (subst item_loop.simps) (simp add: upt_rec [of "unat i"])
  next
    case False
    then show ?thesis by (subst item_loop.simps) (simp add: word_less_nat_alt)
  qed
qed

lemma ranges_concat: "concat (map (\<lambda>c. [c * b..<min n (c * b + b)]) [0..<m]) = [0..<min n (m * b)]" for n b m :: nat
proof (induction m)
  case (Suc m)
  show ?case
  proof (cases "m * b \<le> n")
    case True
    then have "[0..<m * b] @ [m * b..<min n (m * b + b)] = [0..<min n (m * b + b)]" 
      using upt_add_eq_append [of 0 "m * b" "min n (m * b + b) - m * b"] by simp
    moreover have "min n (m * b) = m * b" "min n (Suc m * b) = min n (m * b + b)" using True by (simp_all add: add.commute)
    ultimately show ?thesis using Suc by simp
  next
    case False
    then have "min n (m * b) = n" "min n (Suc m * b) = n" "[m * b..<min n (m * b + b)] = []" by simp_all
    then show ?thesis using Suc by simp
  qed
qed simp

lemma chunks_enough:
  fixes n b :: nat
  assumes "0 < b"
  shows "n \<le> (n + b - 1) div b * b"
proof -
  have "(n + b - 1) mod b < b" using assms by simp
  moreover have "(n + b - 1) div b * b + (n + b - 1) mod b = n + b - 1" by simp
  ultimately show ?thesis using assms by linarith
qed

definition batch_of :: "usize \<Rightarrow> usize" where
  "batch_of b = (if b = 0 then 1 else b)"

text \<open>The rounding-up sum does not exceed 64 bits.\<close>

definition loop_fits :: "usize \<Rightarrow> usize \<Rightarrow> bool" where
  "loop_fits cnt b \<longleftrightarrow> unat cnt + unat (batch_of b) - 1 < 2 ^ 64"

lemma batch_pos: "0 < unat (batch_of b)"
  by (simp add: batch_of_def unat_gt_0)

lemma chunk_count_nat:
  assumes "loop_fits cnt b"
  shows "unat (chunk_count_of cnt (batch_of b)) = (unat cnt + unat (batch_of b) - 1) div unat (batch_of b)"
proof -
  let ?b = "batch_of b"
  have pos: "0 < unat ?b" by (rule batch_pos)
  have one: "(1 :: usize) \<le> ?b" using pos by (simp add: word_le_nat_alt)
  have "cnt + ?b - 1 = cnt + (?b - 1)" by simp
  moreover have "unat (?b - 1) = unat ?b - 1" using one by (simp add: unat_diff_le)
  moreover have "unat (cnt + (?b - 1)) = unat cnt + unat (?b - 1)"
    using assms pos calculation(2) by (intro unat_add_lt) (simp add: loop_fits_def)
  ultimately have "unat (cnt + ?b - 1) = unat cnt + (unat ?b - 1)" by (simp only:)
  then have "unat (cnt + ?b - 1) = unat cnt + unat ?b - 1" using pos by linarith
  then show ?thesis by (simp add: chunk_count_of_def unat_div)
qed

lemma chunk_start_lt:
  fixes n b c :: nat
  assumes "c < (n + b - 1) div b" and "0 < b"
  shows "c * b < n"
proof -
  have "(c + 1) * b \<le> (n + b - 1) div b * b" using assms(1) by (intro mult_le_mono1) simp
  also have "\<dots> \<le> n + b - 1" by (simp add: div_times_less_eq_dividend)
  finally show ?thesis using assms(2) by simp
qed

lemma chunk_range_nat:
  assumes fits: "loop_fits cnt b" and c: "c < unat (chunk_count_of cnt (batch_of b))"
  shows "unat (range_start (chunk_range_of cnt (batch_of b) m (of_nat c))) = c * unat (batch_of b)"
    and "unat (range_end (chunk_range_of cnt (batch_of b) m (of_nat c))) = min (unat cnt) (c * unat (batch_of b) + unat (batch_of b))"
proof -
  let ?b = "batch_of b"
  note pos = batch_pos [of b]
  have lt: "c * unat ?b < unat cnt" using c chunk_count_nat [OF fits] chunk_start_lt pos by metis
  have cnt: "unat cnt < 2 ^ 64" using unsigned_less [of cnt] by simp
  have "c \<le> c * unat ?b" using pos by simp
  then have "c < 2 ^ 64" using lt cnt by linarith
  then have "unat (of_nat c :: usize) = c" by (simp add: unat_of_nat)
  then have st: "unat (of_nat c * ?b) = c * unat ?b" using lt cnt by (simp add: unat_word_ariths(2))
  have "unat (of_nat c * ?b + ?b) = c * unat ?b + unat ?b"
    using fits lt st by (subst unat_add_lt) (simp_all add: loop_fits_def)
  then show "unat (range_start (chunk_range_of cnt ?b m (of_nat c))) = c * unat ?b"
    "unat (range_end (chunk_range_of cnt ?b m (of_nat c))) = min (unat cnt) (c * unat ?b + unat ?b)"
    using st by (simp_all add: chunk_range_of_def Let_def min_def word_le_nat_alt)
qed

definition range_items :: "chunk_range \<Rightarrow> nat list" where
  "range_items r = [unat (range_start r)..<unat (range_end r)]"

lemma chunk_items_concat:
  assumes "loop_fits cnt b"
  shows "concat (map (\<lambda>c. range_items (chunk_range_of cnt (batch_of b) m (of_nat c))) [0..<unat (chunk_count_of cnt (batch_of b))])
    = [0..<unat cnt]"
proof -
  let ?b = "unat (batch_of b)" and ?m = "unat (chunk_count_of cnt (batch_of b))"
  have "map (\<lambda>c. range_items (chunk_range_of cnt (batch_of b) m (of_nat c))) [0..<?m]
      = map (\<lambda>c. [c * ?b..<min (unat cnt) (c * ?b + ?b)]) [0..<?m]"
    using chunk_range_nat [OF assms] by (simp add: range_items_def)
  moreover have "unat cnt \<le> ?m * ?b" using chunks_enough [OF batch_pos] chunk_count_nat [OF assms] by simp
  then have "min (unat cnt) (?m * ?b) = unat cnt" by simp
  ultimately show ?thesis using ranges_concat [of ?b "unat cnt" ?m] by (simp only:)
qed

text \<open>
  The chunk ranges of \<open>parallelFor\<close>, in chunk order, list every index of \<open>[0, count)\<close> exactly once
  and in order; no range is empty or longer than the batch, and only the last may be shorter. This
  needs the rounding-up sum \<open>count + batchSize - 1\<close> to fit in 64 bits.
\<close>

theorem chunk_partition:
  assumes "loop_fits cnt b"
  shows "concat (map (\<lambda>c. range_items (chunk_range_of cnt (batch_of b) m (of_nat c))) [0..<unat (chunk_count_of cnt (batch_of b))])
      = [0..<unat cnt]
    \<and> (\<forall>c < unat (chunk_count_of cnt (batch_of b)). let r = chunk_range_of cnt (batch_of b) m (of_nat c)
         in \<not> range_empty r \<and> range_size r \<le> batch_of b
          \<and> (Suc c < unat (chunk_count_of cnt (batch_of b)) \<longrightarrow> range_size r = batch_of b))"
proof -
  let ?b = "batch_of b" and ?m = "unat (chunk_count_of cnt (batch_of b))"
  have "\<not> range_empty r \<and> range_size r \<le> ?b \<and> (Suc c < ?m \<longrightarrow> range_size r = ?b)"
    if c: "c < ?m" and r: "r = chunk_range_of cnt ?b m (of_nat c)" for c r
  proof -
    note n = chunk_range_nat [OF assms c, of m, folded r]
    have lt: "c * unat ?b < unat cnt" using c chunk_count_nat [OF assms] chunk_start_lt batch_pos by metis
    then have ne: "range_start r < range_end r" using n batch_pos [of b] by (simp add: word_less_nat_alt)
    then have "unat (range_size r) = min (unat cnt) (c * unat ?b + unat ?b) - c * unat ?b"
      unfolding range_size_def using n by (simp add: unat_diff_le)
    moreover have "Suc c * unat ?b < unat cnt" if "Suc c < ?m"
      using that chunk_count_nat [OF assms] chunk_start_lt batch_pos by metis
    ultimately show ?thesis using ne by (auto simp: range_empty_def word_le_nat_alt word_unat_eq_iff word_less_nat_alt)
  qed
  then show ?thesis using chunk_items_concat [OF assms] by (simp add: Let_def)
qed

theorem chunk_partition_witness:
  "concat (map (\<lambda>c. range_items (chunk_range_of 10 (batch_of 4) 3 (of_nat c))) [0..<unat (chunk_count_of 10 (batch_of 4))])
    = [0..<10]"
proof -
  have "loop_fits 10 4" by (simp add: loop_fits_def batch_of_def)
  from chunk_partition [OF this, of 3] show ?thesis by simp
qed

section \<open>The graph of a loop\<close>

lemma create_node_next [simp]:
  "fst (create_node name d p ty fn g) = next_node g"
  by (simp add: create_node_def Let_def)

lemma create_node_pair: "create_node name d p ty fn g = (next_node g, snd (create_node name d p ty fn g))"
  by (simp add: create_node_def Let_def)

text \<open>What a node runs, as a property that later builder steps keep.\<close>

definition runs :: "'u engine \<Rightarrow> node_id \<Rightarrow> ('u \<Rightarrow> 'u) \<Rightarrow> bool" where
  "runs g n h \<longleftrightarrow> executeFn (nodes g n) = RunFn h \<and> node_type (nodes g n) \<noteq> Condition"

lemma runs_created: "ty \<noteq> Condition \<Longrightarrow> runs (snd (create_node name d p ty (RunFn h) g)) (next_node g) h"
  by (simp add: runs_def create_node_def Let_def)

lemma runs_create: "n \<noteq> next_node g \<Longrightarrow> runs (snd (create_node name d p ty fn g)) n h = runs g n h"
  by (simp add: runs_def create_node_def Let_def)

lemma runs_append [simp]: "runs (appendNode m g) n h = runs g n h"
  by (simp add: runs_def appendNode_def)

lemma runs_edge [simp]: "runs (addEdge a b br g) n h = runs g n h"
  by (simp add: runs_def addEdge_def upd_node_def Let_def)

lemma appendNode_next [simp]: "next_node (appendNode n g) = next_node g"
  by (simp add: appendNode_def)

text \<open>The \<open>m\<close> chunk nodes created after the entry node \<open>k\<close> and the join node \<open>k + 1\<close>.\<close>

definition chunk_ids :: "nat \<Rightarrow> nat \<Rightarrow> node_id list" where
  "chunk_ids k m = map (\<lambda>c. k + 2 + c) [0..<m]"

lemma chunk_ids_simps: "chunk_ids k 0 = []" "chunk_ids k (Suc m) = chunk_ids k m @ [k + 2 + m]"
  by (simp_all add: chunk_ids_def)

lemma set_chunk_ids: "set (chunk_ids k m) = {k + 2..<k + 2 + m}"
proof -
  have "x \<in> (\<lambda>c. k + 2 + c) ` {0..<m}" if "k + 2 \<le> x" "x < k + 2 + m" for x
    using that by (intro image_eqI [of _ _ "x - (k + 2)"]) auto
  then show ?thesis by (auto simp: chunk_ids_def)
qed

definition loop_edges :: "nat \<Rightarrow> nat \<Rightarrow> node_id multiset" where
  "loop_edges k m = mset (chunk_ids k m) + replicate_mset m (Suc k)"

lemma add_chunk_step:
  assumes inv: "built_inv rank (k + 2 + m) {Suc k} E g" and rank: "rank k < rank (k + 2 + m)" "rank (k + 2 + m) < rank (Suc k)"
  shows "\<exists>g'. add_chunk name d p k (Suc k) body m (ns, g) = (ns @ [k + 2 + m], g')
    \<and> built_inv rank (k + 2 + Suc m) {Suc k} (add_mset (Suc k) (add_mset (k + 2 + m) E)) g'
    \<and> runs g' (k + 2 + m) (body (of_nat m)) \<and> (\<forall>n. n \<noteq> k + 2 + m \<longrightarrow> (\<forall>h. runs g' n h = runs g n h))"
proof -
  define n where "n = k + 2 + m"
  define g1 where "g1 = snd (create_node name d p ParallelForChunk (RunFn (body (of_nat m))) g)"
  define g2 where "g2 = appendNode n g1"
  define g3 where "g3 = addEdge n (Suc k) (-1) (addEdge k n (-1) g2)"
  have nx: "next_node g = n" using built_next [OF inv] by (simp add: n_def)
  have "create_node name d p ParallelForChunk (RunFn (body (of_nat m))) g = (n, g1)"
    using create_node_pair nx unfolding g1_def by metis
  then have step: "add_chunk name d p k (Suc k) body m (ns, g) = (ns @ [n], g3)"
    by (simp add: add_chunk_def g2_def g3_def Let_def)
  have "built_inv rank (Suc n) {Suc k} E g2"
    unfolding g2_def g1_def using built_add_node [OF inv, of name d p ParallelForChunk] by (simp add: n_def)
  then have "built_inv rank (Suc n) {Suc k} (add_mset n E) (addEdge k n (-1) g2)"
    by (rule built_edge) (use rank in \<open>simp_all add: n_def\<close>)
  then have inv3: "built_inv rank (Suc n) {Suc k} (add_mset (Suc k) (add_mset n E)) g3"
    unfolding g3_def by (rule built_edge) (use rank in \<open>simp_all add: n_def\<close>)
  have r: "v \<noteq> n \<Longrightarrow> runs g3 v h = runs g v h" for v h by (simp add: g3_def g2_def g1_def runs_create nx)
  have "runs g3 n (body (of_nat m))"
    using runs_created [of ParallelForChunk name d p "body (of_nat m)" g] by (simp add: g3_def g2_def g1_def nx)
  then show ?thesis using step inv3 r unfolding n_def by (intro exI [of _ g3]) simp
qed

lemma add_chunks:
  assumes inv: "built_inv rank (k + 2) {Suc k} E g"
    and rank: "\<And>c. c < m \<Longrightarrow> rank k < rank (k + 2 + c)" "\<And>c. c < m \<Longrightarrow> rank (k + 2 + c) < rank (Suc k)"
  shows "\<exists>g'. fold (add_chunk name d p k (Suc k) body) [0..<m] ([], g) = (chunk_ids k m, g')
    \<and> built_inv rank (k + 2 + m) {Suc k} (E + loop_edges k m) g'
    \<and> (\<forall>c < m. runs g' (k + 2 + c) (body (of_nat c))) \<and> (\<forall>n < k + 2. \<forall>h. runs g' n h = runs g n h)"
  using rank
proof (induction m)
  case 0
  then show ?case using inv by (simp add: chunk_ids_simps loop_edges_def)
next
  case (Suc m)
  obtain g1 where g1: "fold (add_chunk name d p k (Suc k) body) [0..<m] ([], g) = (chunk_ids k m, g1)"
    "built_inv rank (k + 2 + m) {Suc k} (E + loop_edges k m) g1"
    "\<forall>c < m. runs g1 (k + 2 + c) (body (of_nat c))" "\<forall>n < k + 2. \<forall>h. runs g1 n h = runs g n h"
    using Suc.IH [OF Suc.prems] by fastforce
  obtain g3 where g3: "add_chunk name d p k (Suc k) body m (chunk_ids k m, g1) = (chunk_ids k m @ [k + 2 + m], g3)"
    "built_inv rank (k + 2 + Suc m) {Suc k} (add_mset (Suc k) (add_mset (k + 2 + m) (E + loop_edges k m))) g3"
    "runs g3 (k + 2 + m) (body (of_nat m))" "\<forall>n. n \<noteq> k + 2 + m \<longrightarrow> (\<forall>h. runs g3 n h = runs g1 n h)"
    using add_chunk_step [OF g1(2) Suc.prems(1) [of m] Suc.prems(2) [of m]] by blast
  have "add_mset (Suc k) (add_mset (k + 2 + m) (E + loop_edges k m)) = E + loop_edges k (Suc m)"
    by (simp add: loop_edges_def chunk_ids_simps)
  then have i3: "built_inv rank (k + 2 + Suc m) {Suc k} (E + loop_edges k (Suc m)) g3" using g3(2) by (simp only:)
  have "\<forall>c < Suc m. runs g3 (k + 2 + c) (body (of_nat c))" using g3(3,4) g1(3) by (auto simp: less_Suc_eq)
  moreover have "\<forall>n < k + 2. \<forall>h. runs g3 n h = runs g n h" using g3(4) g1(4) by simp
  moreover have "fold (add_chunk name d p k (Suc k) body) [0..<Suc m] ([], g) = (chunk_ids k (Suc m), g3)"
    using g1(1) g3(1) by (simp add: chunk_ids_simps)
  ultimately show ?case using i3 by blast
qed

text \<open>The graph that \<open>parallelFor\<close> adds when there is more than one chunk.\<close>

lemma build_loop_graph:
  assumes inv: "built_inv rank k {} E g" and many: "cnt \<noteq> 0" "numChunks \<noteq> 1"
    and rank: "\<And>c. c < unat numChunks \<Longrightarrow> rank k < rank (k + 2 + c)" "\<And>c. c < unat numChunks \<Longrightarrow> rank (k + 2 + c) < rank (Suc k)"
  shows "\<exists>g'. build_loop name cnt numChunks single body d p g =
      (\<lparr>pf_entry = Some k, pf_exit = Some (Suc k), m_chunkCount = numChunks, m_chunkNodes = chunk_ids k (unat numChunks)\<rparr>, g')
    \<and> built_inv rank (k + 2 + unat numChunks) {} (E + loop_edges k (unat numChunks)) g'
    \<and> (\<forall>c < unat numChunks. runs g' (k + 2 + c) (body (of_nat c)))
    \<and> runs g' k (\<lambda>u. u) \<and> runs g' (Suc k) (\<lambda>u. u)"
proof -
  let ?m = "unat numChunks"
  define g0 where "g0 = snd (create_node name d p Static (RunFn (\<lambda>u. u)) g)"
  define g1 where "g1 = appendNode k g0"
  define g2 where "g2 = snd (create_node name d p Static (RunFn (\<lambda>u. u)) g1)"
  have nx: "next_node g = k" by (rule built_next [OF inv])
  have i1: "built_inv rank (Suc k) {} E g1" unfolding g1_def g0_def by (rule built_add_node [OF inv]) simp
  have nx1: "next_node g1 = Suc k" by (rule built_next [OF i1])
  have i2: "built_inv rank (k + 2) {Suc k} E g2" using built_create [OF i1] by (simp add: g2_def)
  obtain g3 where g3: "fold (add_chunk name d p k (Suc k) body) [0..<?m] ([], g2) = (chunk_ids k ?m, g3)"
    "built_inv rank (k + 2 + ?m) {Suc k} (E + loop_edges k ?m) g3"
    "\<forall>c < ?m. runs g3 (k + 2 + c) (body (of_nat c))" "\<forall>n < k + 2. \<forall>h. runs g3 n h = runs g2 n h"
    using add_chunks [OF i2 rank] by blast
  have i4: "built_inv rank (k + 2 + ?m) {} (E + loop_edges k ?m) (appendNode (Suc k) g3)"
    using built_appendNode [OF g3(2), of "Suc k"] by simp
  have c1: "create_node name d p Static (RunFn (\<lambda>u. u)) g = (k, g0)" using create_node_pair nx unfolding g0_def by metis
  have c2: "create_node name d p Static (RunFn (\<lambda>u. u)) (appendNode k g0) = (Suc k, g2)"
    using create_node_pair nx1 unfolding g2_def g1_def by metis
  have eq: "build_loop name cnt numChunks single body d p g =
      (\<lparr>pf_entry = Some k, pf_exit = Some (Suc k), m_chunkCount = numChunks, m_chunkNodes = chunk_ids k ?m\<rparr>, appendNode (Suc k) g3)"
    using many g3(1) c1 c2 by (simp add: build_loop_def Let_def)
  have "runs g1 k (\<lambda>u. u)" using runs_created [of Static name d p "\<lambda>u. u" g] nx by (simp add: g1_def g0_def)
  then have "runs g2 k (\<lambda>u. u)" using nx1 by (simp add: g2_def runs_create)
  moreover have "runs g2 (Suc k) (\<lambda>u. u)" using runs_created [of Static name d p "\<lambda>u. u" g1] nx1 by (simp add: g2_def)
  ultimately show ?thesis using eq i4 g3(3,4) by (intro exI [of _ "appendNode (Suc k) g3"]) simp
qed

section \<open>Running a loop\<close>

text \<open>
  A graph that holds one loop over items. \<open>items v\<close> are the indices that node \<open>v\<close> handles.
\<close>

definition item_graph :: "string \<Rightarrow> usize \<Rightarrow> usize \<Rightarrow> (usize \<Rightarrow> 'u \<Rightarrow> 'u) \<Rightarrow> TaskDomain \<Rightarrow> TaskPriority \<Rightarrow> 'u \<Rightarrow> 'u engine" where
  "item_graph name cnt batchSize f d p u = snd (parallelFor name cnt batchSize (ItemFn f) d p (TaskGraph_new u))"

definition item_fold :: "(usize \<Rightarrow> 'u \<Rightarrow> 'u) \<Rightarrow> nat list \<Rightarrow> 'u \<Rightarrow> 'u" where
  "item_fold f is u = fold (\<lambda>i. f (of_nat i)) is u"

definition loop_items :: "usize \<Rightarrow> usize \<Rightarrow> node_id \<Rightarrow> nat list" where
  "loop_items cnt batchSize v =
     (let b = batch_of batchSize; m = chunk_count_of cnt b
      in if cnt = 0 then [] else if m = 1 then [0..<unat cnt]
         else if v < 2 then [] else range_items (chunk_range_of cnt b m (of_nat (v - 2))))"

definition loop_nodes :: "usize \<Rightarrow> usize \<Rightarrow> nat" where
  "loop_nodes cnt batchSize =
     (let m = chunk_count_of cnt (batch_of batchSize) in if cnt = 0 \<or> m = 1 then 1 else 2 + unat m)"

lemma chunk_body_item: "chunk_body (ItemFn f) r = item_fold f (range_items r)"
  by (rule ext) (simp add: chunk_body_def item_loop_fold item_fold_def range_items_def)

lemma parallelFor_batch:
  "parallelFor name cnt b callable d p g = build_loop name cnt (chunk_count_of cnt (batch_of b))
     (chunk_body callable \<lparr>range_start = 0, range_end = cnt, chunkIndex = 0, totalChunks = 1\<rparr>)
     (\<lambda>c. chunk_body callable (chunk_range_of cnt (batch_of b) (chunk_count_of cnt (batch_of b)) c)) d p g"
  by (simp add: parallelFor_def batch_of_def Let_def)

lemma item_graph_single:
  assumes "cnt = 0 \<or> chunk_count_of cnt (batch_of b) = 1"
  shows "built_inv (\<lambda>_. 0) 1 {} {#} (item_graph name cnt b f d p u)
    \<and> runs (item_graph name cnt b f d p u) 0 (item_fold f (loop_items cnt b 0))"
proof -
  define h where "h = item_fold f (loop_items cnt b 0)"
  let ?g = "snd (create_node name d p ParallelForChunk (RunFn h) (TaskGraph_new u))"
  have nx: "next_node (TaskGraph_new u) = 0" by (simp add: TaskGraph_new_def)
  have "cnt = 0 \<Longrightarrow> h = (\<lambda>u. u)" by (rule ext) (simp add: h_def loop_items_def item_fold_def)
  moreover have "cnt \<noteq> 0 \<Longrightarrow> h = chunk_body (ItemFn f) \<lparr>range_start = 0, range_end = cnt, chunkIndex = 0, totalChunks = 1\<rparr>"
    using assms by (simp add: h_def loop_items_def chunk_body_item range_items_def Let_def)
  ultimately have eq: "item_graph name cnt b f d p u = appendNode 0 ?g"
    using assms by (auto simp: item_graph_def parallelFor_batch build_loop_def Let_def case_prod_unfold nx)
  have "built_inv (\<lambda>_. 0) 1 {} {#} (appendNode 0 ?g)" using built_add_node [OF built_new] by simp
  moreover have "runs (appendNode 0 ?g) 0 h" using runs_created [of ParallelForChunk name d p h "TaskGraph_new u"] nx by simp
  ultimately show ?thesis using eq by (simp add: h_def)
qed

lemma item_graph_many:
  assumes "cnt \<noteq> 0" and "chunk_count_of cnt (batch_of b) \<noteq> 1"
  shows "\<exists>rank. built_inv rank (loop_nodes cnt b) {} (loop_edges 0 (unat (chunk_count_of cnt (batch_of b)))) (item_graph name cnt b f d p u)"
    and "\<forall>v < loop_nodes cnt b. runs (item_graph name cnt b f d p u) v (item_fold f (loop_items cnt b v))"
proof -
  let ?m = "chunk_count_of cnt (batch_of b)"
  define rank :: "node_id \<Rightarrow> nat" where "rank v = (if v = 0 then 0 else if v = 1 then 2 else 1)" for v
  let ?body = "\<lambda>c. chunk_body (ItemFn f) (chunk_range_of cnt (batch_of b) ?m c)"
  obtain g' h where g': "item_graph name cnt b f d p u = g'"
    and inv: "built_inv rank (2 + unat ?m) {} (loop_edges 0 (unat ?m)) g'"
    and r: "\<forall>c < unat ?m. runs g' (2 + c) (?body (of_nat c))" "runs g' 0 (\<lambda>u. u)" "runs g' (Suc 0) (\<lambda>u. u)"
    using build_loop_graph [OF built_new assms, of rank name
      "chunk_body (ItemFn f) \<lparr>range_start = 0, range_end = cnt, chunkIndex = 0, totalChunks = 1\<rparr>" ?body d p u]
    unfolding item_graph_def parallelFor_batch by (auto simp: rank_def)
  have n: "loop_nodes cnt b = 2 + unat ?m" using assms by (simp add: loop_nodes_def Let_def)
  then show "\<exists>rank. built_inv rank (loop_nodes cnt b) {} (loop_edges 0 (unat ?m)) (item_graph name cnt b f d p u)"
    using inv g' by (auto simp del: add_2_eq_Suc add_2_eq_Suc')
  have id: "v < 2 \<Longrightarrow> item_fold f (loop_items cnt b v) = (\<lambda>u. u)" for v
    using assms by (intro ext) (simp add: loop_items_def item_fold_def Let_def)
  have "runs g' v (item_fold f (loop_items cnt b v))" if v: "v < 2 + unat ?m" for v
  proof (cases "v < 2")
    case True
    then show ?thesis using r(2,3) id [OF True] by (cases "v = 0") (auto simp: less_2_cases_iff)
  next
    case False
    then obtain c where c: "v = 2 + c" "c < unat ?m" using v by (metis add_less_cancel_left le_Suc_ex not_less)
    then have "loop_items cnt b v = range_items (chunk_range_of cnt (batch_of b) ?m (of_nat c))"
      using assms by (simp add: loop_items_def Let_def)
    then show ?thesis using r(1) c by (simp add: chunk_body_item)
  qed
  then show "\<forall>v < loop_nodes cnt b. runs (item_graph name cnt b f d p u) v (item_fold f (loop_items cnt b v))"
    using n g' by simp
qed

lemma loop_items_all:
  assumes "loop_fits cnt b"
  shows "concat (map (loop_items cnt b) [0..<loop_nodes cnt b]) = [0..<unat cnt]"
proof (cases "cnt = 0 \<or> chunk_count_of cnt (batch_of b) = 1")
  case True
  then show ?thesis by (auto simp: loop_items_def loop_nodes_def Let_def)
next
  case False
  let ?m = "chunk_count_of cnt (batch_of b)"
  have "map (\<lambda>c. 2 + c) [0..<unat ?m] = [2..<2 + unat ?m]" using map_add_upt [of 2 "unat ?m"] by (simp add: add.commute)
  moreover have "[0..<2 + unat ?m] = [0, 1] @ [2..<2 + unat ?m]"
    using upt_conv_Cons [of 0 "2 + unat ?m"] upt_conv_Cons [of 1 "2 + unat ?m"] by (simp add: numeral_2_eq_2 del: upt_Suc)
  ultimately have "[0..<2 + unat ?m] = [0, 1] @ map (\<lambda>c. 2 + c) [0..<unat ?m]" by (simp only:)
  then show ?thesis
    using False chunk_items_concat [OF assms, of ?m] by (simp add: loop_nodes_def loop_items_def Let_def comp_def del: upt_Suc)
qed

lemma fold_items:
  assumes "\<forall>v \<in> set tr. run_fn (fn v) = item_fold f (items v)"
  shows "fold (\<lambda>n. run_fn (fn n)) tr u = item_fold f (concat (map items tr)) u"
  using assms by (induction tr arbitrary: u) (simp_all add: item_fold_def)

lemma mset_concat_perm: "mset xs = mset ys \<Longrightarrow> mset (concat (map f xs)) = mset (concat (map f ys))"
  by (simp add: mset_concat mset_map [symmetric] sum_mset_sum_list [symmetric] del: mset_map) (simp add: mset_map)

lemma item_graph_dag:
  assumes "loop_fits cnt b" and "unat (chunk_count_of cnt (batch_of b)) \<le> 65535"
  shows "dag_ok (item_graph name cnt b f d p u)" and "set (m_nodeList (item_graph name cnt b f d p u)) = {..<loop_nodes cnt b}"
    and "\<forall>v < loop_nodes cnt b. runs (item_graph name cnt b f d p u) v (item_fold f (loop_items cnt b v))"
proof -
  let ?g = "item_graph name cnt b f d p u" and ?m = "chunk_count_of cnt (batch_of b)"
  have "\<exists>rank E. built_inv rank (loop_nodes cnt b) {} E ?g \<and> (\<forall>t. Multiset.count E t \<le> 65535)
      \<and> (\<forall>v < loop_nodes cnt b. runs ?g v (item_fold f (loop_items cnt b v)))"
  proof (cases "cnt = 0 \<or> ?m = 1")
    case True
    then have "loop_nodes cnt b = 1" by (auto simp: loop_nodes_def Let_def)
    then show ?thesis using item_graph_single [OF True, of name f d p u]
      by (intro exI [of _ "\<lambda>_. 0"] exI [of _ "{#}"]) simp
  next
    case False
    have "Multiset.count (loop_edges 0 (unat ?m)) t \<le> 65535" for t
    proof -
      have "distinct (chunk_ids 0 (unat ?m))" by (simp add: chunk_ids_def distinct_map inj_on_def)
      then have "Multiset.count (mset (chunk_ids 0 (unat ?m))) t = (if t \<in> set (chunk_ids 0 (unat ?m)) then 1 else 0)"
        by (rule distinct_count_atmost_1 [THEN iffD1, rule_format])
      then have "Multiset.count (mset (chunk_ids 0 (unat ?m))) t \<le> (if t = 1 then 0 else 1)"
        using set_chunk_ids [of 0 "unat ?m"] by simp
      moreover have "Multiset.count (replicate_mset (unat ?m) (Suc 0)) t = (if t = 1 then unat ?m else 0)" by simp
      ultimately show ?thesis using assms(2) unfolding loop_edges_def count_union by (simp only: split: if_splits) linarith+
    qed
    then show ?thesis using item_graph_many [of cnt b name f d p u] False by blast
  qed
  then obtain rank E where inv: "built_inv rank (loop_nodes cnt b) {} E ?g" and E: "\<forall>t. Multiset.count E t \<le> 65535"
    and r: "\<forall>v < loop_nodes cnt b. runs ?g v (item_fold f (loop_items cnt b v))" by blast
  have "loop_nodes cnt b < 2 ^ 32" using assms(2) by (simp add: loop_nodes_def Let_def)
  from built_dag_ok [OF inv this E] show "dag_ok ?g" "set (m_nodeList ?g) = {..<loop_nodes cnt b}" by blast+
  show "\<forall>v < loop_nodes cnt b. runs ?g v (item_fold f (loop_items cnt b v))" by (rule r)
qed

lemma create_node_user [simp]: "user (snd (create_node name d p ty fn g)) = user g"
  by (simp add: create_node_def Let_def)

lemma appendNode_user [simp]: "user (appendNode n g) = user g"
  by (simp add: appendNode_def)

lemma addEdge_user [simp]: "user (addEdge a b br g) = user g"
  by (simp add: addEdge_def upd_node_def Let_def)

lemma build_loop_user: "user (snd (build_loop name cnt m single body d p g)) = user g"
proof -
  have "user (snd (fold (add_chunk name d p a j body) cs s)) = user (snd s)" for a j cs s
    by (induction cs arbitrary: s) (simp_all add: add_chunk_def case_prod_unfold Let_def)
  then show ?thesis by (simp add: build_loop_def Let_def case_prod_unfold)
qed

lemma item_graph_user: "user (item_graph name cnt b f d p u) = u"
  by (simp add: item_graph_def parallelFor_batch build_loop_user) (simp add: TaskGraph_new_def)

text \<open>
  C17: running a \<open>parallelFor\<close> over items to completion calls the item function exactly once for
  every index of \<open>[0, count)\<close>, one chunk after the other. This holds for up to 65535 chunks and a
  rounding-up sum that fits in 64 bits, and for every order in which the scheduler may run the
  nodes.
\<close>

theorem parallelFor_covers:
  assumes "loop_fits cnt b" and "unat (chunk_count_of cnt (batch_of b)) \<le> 65535"
    and "edge_count (graph_edges (item_graph name cnt b f d p u)) (graph_nodes (item_graph name cnt b f d p u)) \<le> fuel"
    and "dag_run fuel now (item_graph name cnt b f d p u) tr g' {#}"
  shows "\<exists>is. mset is = mset [0..<unat cnt] \<and> user g' = item_fold f is u
    \<and> is = concat (map (loop_items cnt b) tr) \<and> mset tr = mset [0..<loop_nodes cnt b]"
proof -
  let ?g = "item_graph name cnt b f d p u"
  note dag = item_graph_dag [OF assms(1,2), of name f d p u]
  have fns: "executeFn (nodes ?g v) = RunFn (item_fold f (loop_items cnt b v)) \<and> node_type (nodes ?g v) \<noteq> Condition"
    if "v < loop_nodes cnt b" for v using dag(3) that by (simp add: runs_def)
  have "\<forall>v \<in> graph_nodes ?g. node_type (nodes ?g v) \<noteq> Condition" using fns dag(2) by simp
  note all = complete_run [OF dag(1) assms(3) this assms(4)]
  have "set (m_nodeList ?g) = set [0..<loop_nodes cnt b]" by (simp only: dag(2) set_upt atLeast0LessThan)
  then have "mset (m_nodeList ?g) = mset [0..<loop_nodes cnt b]"
    by (rule set_eq_iff_mset_eq_distinct [OF dag_okD(1) [OF dag(1)] distinct_upt, THEN iffD1])
  then have tr: "mset tr = mset [0..<loop_nodes cnt b]" using all(1) by (simp only:)
  then have "set tr = {..<loop_nodes cnt b}" using mset_eq_setD [OF tr] by (simp add: atLeast0LessThan)
  then have "\<forall>v \<in> set tr. run_fn (executeFn (nodes ?g v)) = item_fold f (loop_items cnt b v)"
    using fns by (auto simp: run_fn_def)
  from fold_items [OF this, of u] have "user g' = item_fold f (concat (map (loop_items cnt b) tr)) u"
    using all(3) by (simp add: item_graph_user)
  moreover have "mset (concat (map (loop_items cnt b) tr)) = mset [0..<unat cnt]"
    using mset_concat_perm [OF tr, of "loop_items cnt b"] loop_items_all [OF assms(1)] by simp
  ultimately show ?thesis using tr by blast
qed

definition demo_loop :: "nat engine" where
  "demo_loop = item_graph ''sum'' 10 4 (\<lambda>i u. u + unat i) Worker Normal 0"

text \<open>A sum does not depend on the order of its items.\<close>

lemma item_sum: "item_fold (\<lambda>i u. u + unat i) is u = u + (\<Sum>i \<leftarrow> is. unat (of_nat i :: usize))"
  by (induction "is" arbitrary: u) (simp_all add: item_fold_def)

theorem parallelFor_covers_witness:
  "\<exists>fuel tr g'. dag_run fuel 0 demo_loop tr g' {#} \<and> user g' = (45 :: nat)"
proof -
  let ?fuel = "edge_count (graph_edges demo_loop) (graph_nodes demo_loop)"
  have fits: "loop_fits 10 4" "unat (chunk_count_of 10 (batch_of 4)) \<le> 65535"
    by (simp_all add: loop_fits_def batch_of_def chunk_count_of_def)
  have dag: "dag_ok demo_loop" unfolding demo_loop_def by (rule item_graph_dag(1) [OF fits])
  obtain tr g' where "dag_run ?fuel 0 demo_loop ([] @ tr) g' {#}"
    using run_completes [OF graph_run.run_start prepared_state [OF dag]] by blast
  then have run: "dag_run ?fuel 0 demo_loop tr g' {#}" by simp
  obtain xs where xs: "mset xs = mset [0..<10]" "user g' = item_fold (\<lambda>i u. u + unat i) xs 0"
    using parallelFor_covers [OF fits _ run [unfolded demo_loop_def]] by (auto simp: demo_loop_def)
  have "(\<Sum>i \<leftarrow> xs. unat (of_nat i :: usize)) = (\<Sum>i \<in># mset xs. unat (of_nat i :: usize))" by (simp add: sum_mset_sum_list [symmetric])
  also have "\<dots> = 45" unfolding xs(1) by (simp add: upt_rec)
  finally show ?thesis using run xs(2) item_sum [of xs 0] by auto
qed

section \<open>Where the bounds are exceeded\<close>

text \<open>
  When \<open>count + batchSize - 1\<close> exceeds 64 bits the chunk count is too small: the chunks cannot
  cover the range, and indices are never visited. A batch size of \<open>SIZE_MAX\<close> with two items gives no
  chunk at all.
\<close>

theorem chunk_count_wraps:
  assumes "\<not> loop_fits cnt b"
  shows "unat (chunk_count_of cnt (batch_of b)) * unat (batch_of b) < unat cnt"
proof -
  let ?b = "batch_of b"
  have pos: "0 < unat ?b" by (rule batch_pos)
  have lt: "unat cnt < 2 ^ 64" "unat ?b < 2 ^ 64" using unsigned_less [of cnt] unsigned_less [of ?b] by simp_all
  have ge: "2 ^ 64 \<le> unat cnt + (unat ?b - 1)" using assms pos by (simp add: loop_fits_def)
  have one: "(1 :: usize) \<le> ?b" using pos by (simp add: word_le_nat_alt)
  have "cnt + ?b - 1 = cnt + (?b - 1)" by simp
  moreover have "unat (?b - 1) = unat ?b - 1" using one by (simp add: unat_diff_le)
  moreover have "unat (cnt + (?b - 1)) = (unat cnt + unat (?b - 1)) mod 2 ^ 64" by (simp add: unat_word_ariths)
  moreover have "(unat cnt + (unat ?b - 1)) mod 2 ^ 64 = unat cnt + (unat ?b - 1) - 2 ^ 64"
    using ge lt by (simp add: mod_if)
  ultimately have "unat (cnt + ?b - 1) = unat cnt + (unat ?b - 1) - 2 ^ 64" by (simp only:)
  then have "unat (chunk_count_of cnt ?b) * unat ?b \<le> unat cnt + (unat ?b - 1) - 2 ^ 64"
    by (simp add: chunk_count_of_def unat_div div_times_less_eq_dividend)
  then show ?thesis using ge lt by linarith
qed

theorem chunk_count_wraps_witness: "unat (chunk_count_of 2 (batch_of (- 1))) * unat (batch_of (- 1)) < unat (2 :: usize)"
proof -
  have "unat (- 1 :: usize) = 18446744073709551615" by (simp add: unsigned_minus_1_eq_mask mask_eq_exp_minus_1)
  then have "\<not> loop_fits 2 (- 1)" by (simp add: loop_fits_def batch_of_def)
  from chunk_count_wraps [OF this] show ?thesis .
qed

text \<open>
  C22: a loop of 65537 chunks has a join barrier whose packed counter is \<open>0x10001\<close>: the first chunk to
  finish releases the barrier, and everything after the loop, while 65536 chunks are outstanding.
\<close>

theorem parallelFor_join_early:
  assumes "unat (chunk_count_of cnt (batch_of b)) = 65537"
  shows "\<exists>g'. parallelFor name cnt b callable d p (TaskGraph_new u) =
      (\<lparr>pf_entry = Some 0, pf_exit = Some 1, m_chunkCount = 65537, m_chunkNodes = chunk_ids 0 65537\<rparr>, g')
    \<and> initialInDegree (nodes g' 1) = 0x10001 \<and> snd (decrementActive (initialInDegree (nodes g' 1)))"
proof -
  let ?m = "chunk_count_of cnt (batch_of b)"
  define rank :: "node_id \<Rightarrow> nat" where "rank v = (if v = 0 then 0 else if v = 1 then 2 else 1)" for v
  have m: "?m = 65537" using assms by (simp add: word_unat_eq_iff)
  have "cnt \<noteq> 0"
  proof
    assume "cnt = 0"
    moreover have "unat (batch_of b - 1) < unat (batch_of b)" using batch_pos [of b]
      by (metis unat_pred_gt diff_less less_numeral_extra(1) unat_0 word_less_nat_alt)
    ultimately have "unat ?m = 0" by (simp add: chunk_count_of_def unat_div)
    then show False using assms by simp
  qed
  moreover have "?m \<noteq> 1" using assms by auto
  moreover have "rank 0 < rank (0 + 2 + c)" "rank (0 + 2 + c) < rank (Suc 0)" for c by (simp_all add: rank_def)
  ultimately obtain g' where eq: "parallelFor name cnt b callable d p (TaskGraph_new u) =
      (\<lparr>pf_entry = Some 0, pf_exit = Some (Suc 0), m_chunkCount = ?m, m_chunkNodes = chunk_ids 0 (unat ?m)\<rparr>, g')"
    and inv: "built_inv rank (0 + 2 + unat ?m) {} ({#} + loop_edges 0 (unat ?m)) g'"
    using build_loop_graph [OF built_new, of cnt ?m rank name
      "chunk_body callable \<lparr>range_start = 0, range_end = cnt, chunkIndex = 0, totalChunks = 1\<rparr>"
      "\<lambda>c. chunk_body callable (chunk_range_of cnt (batch_of b) ?m c)" d p u] unfolding parallelFor_batch
    by blast
  have "1 \<notin> set (chunk_ids 0 (unat ?m))" by (simp add: set_chunk_ids)
  then have "Multiset.count (mset (chunk_ids 0 (unat ?m))) 1 = 0" by (rule count_mset_0_iff [THEN iffD2])
  moreover have "Multiset.count (replicate_mset (unat ?m) (Suc 0)) 1 = 65537" using assms by simp
  ultimately have "Multiset.count ({#} + loop_edges 0 (unat ?m)) 1 = 65537" by (simp only: loop_edges_def count_union count_empty)
  then have "initialInDegree (nodes g' 1) = 0x10001" using inv by (simp add: built_inv_def)
  then show ?thesis using eq m assms by (intro exI [of _ g']) (simp add: decrementActive_def)
qed

theorem parallelFor_join_early_witness:
  "\<exists>g'. initialInDegree (nodes g' 1) = 0x10001
    \<and> snd (parallelFor ''big'' 65537 1 (ItemFn (\<lambda>i u. u)) Worker Normal (TaskGraph_new ())) = g'"
proof -
  have "unat (chunk_count_of 65537 (batch_of 1)) = 65537" by (simp add: chunk_count_of_def batch_of_def)
  from parallelFor_join_early [OF this, of "''big''" "ItemFn (\<lambda>i u. u)" Worker Normal "()"] show ?thesis by auto
qed

end
