(* ===== verification/Timeline_Reactor.thy ===== *)
theory Timeline_Reactor
  imports Graph_Run
begin

text \<open>
  GPU timeline waits: \<^verbatim>\<open>timeline_reactor.cpp\<close> and its header. The wait-set is the list \<open>r_waitSet\<close> of the
  engine, newest first; \<open>registerWait\<close> is in the graph theory, which calls it. The theorems say
  which waits a notification, a poll and the watchdog satisfy, what that does to the waiting tasks,
  and that the three claim every wait once between them.
\<close>

section \<open>Operations\<close>

definition hasPending :: "'u engine \<Rightarrow> bool" where
  "hasPending g \<longleftrightarrow> 0 < r_pendingCount g"

definition pendingCount :: "'u engine \<Rightarrow> u32" where
  "pendingCount g = r_pendingCount g"

definition hasTimeout :: "'u engine \<Rightarrow> bool" where
  "hasTimeout g = r_hasTimeout g"

definition resetTimeout :: "'u engine \<Rightarrow> 'u engine" where
  "resetTimeout g = g\<lparr>r_hasTimeout := False\<rparr>"

definition reactor_reset :: "'u engine \<Rightarrow> 'u engine" where
  "reactor_reset g = g\<lparr>r_waitSet := [], r_pendingCount := 0, r_hasTimeout := False\<rparr>"

text \<open>
  \<open>compare_exchange_strong(false, true)\<close> on \<open>satisfied\<close>, and the decrement of the count that follows
  when it succeeds.
\<close>

definition claim_wait :: "wait_id \<Rightarrow> 'u engine \<Rightarrow> bool \<times> 'u engine" where
  "claim_wait w g =
     (if satisfied (wait_nodes g w) then (False, g)
      else (True, g\<lparr>wait_nodes := (wait_nodes g)(w := (wait_nodes g w)\<lparr>satisfied := True\<rparr>),
                    r_pendingCount := r_pendingCount g - 1\<rparr>))"

text \<open>The body both loops share once a wait is due: claim it and report to its task.\<close>

definition satisfy_wait :: "wait_id \<Rightarrow> usize \<times> 'u engine \<Rightarrow> usize \<times> 'u engine" where
  "satisfy_wait w = (\<lambda>(unblocked, g).
     case claim_wait w g of
       (False, g) \<Rightarrow> (unblocked, g)
     | (True, g) \<Rightarrow>
         (case wait_task (wait_nodes g w) of
            None \<Rightarrow> (unblocked, g)
          | Some t \<Rightarrow> (unblocked + 1, decrementActive_graph t (has_graph (nodes g t)) g)))"

fun notify_loop :: "u64 \<Rightarrow> u64 \<Rightarrow> wait_id list \<Rightarrow> usize \<times> 'u engine \<Rightarrow> usize \<times> 'u engine" where
  "notify_loop h v [] s = s"
| "notify_loop h v (w # ws) (unblocked, g) =
     (let sp = syncPoint (wait_nodes g w)
      in if handle sp = h \<and> sync_value sp \<le> v
         then notify_loop h v ws (satisfy_wait w (unblocked, g))
         else notify_loop h v ws (unblocked, g))"

definition notifyTimelineAdvanced :: "u64 \<Rightarrow> u64 \<Rightarrow> 'u engine \<Rightarrow> usize \<times> 'u engine" where
  "notifyTimelineAdvanced h completedValue g =
     (if \<not> hasPending g then (0, g) else notify_loop h completedValue (r_waitSet g) (0, g))"

text \<open>
  The device is an interface; \<open>getCompletedValue\<close> is a parameter that may change the device. Each
  wait that is not satisfied yet costs one query.
\<close>

fun poll_loop ::
  "(u64 \<Rightarrow> 'd \<Rightarrow> u64 \<times> 'd) \<Rightarrow> wait_id list \<Rightarrow> 'd \<Rightarrow> usize \<times> 'u engine \<Rightarrow> 'd \<times> usize \<times> 'u engine" where
  "poll_loop getCompletedValue [] dev s = (dev, s)"
| "poll_loop getCompletedValue (w # ws) dev (unblocked, g) =
     (if satisfied (wait_nodes g w) then poll_loop getCompletedValue ws dev (unblocked, g)
      else
        let sp = syncPoint (wait_nodes g w);
            (completed, dev) = getCompletedValue (handle sp) dev
        in if sync_value sp \<le> completed
           then poll_loop getCompletedValue ws dev (satisfy_wait w (unblocked, g))
           else poll_loop getCompletedValue ws dev (unblocked, g))"

definition pollDevice :: "(u64 \<Rightarrow> 'd \<Rightarrow> u64 \<times> 'd) \<Rightarrow> 'd \<Rightarrow> 'u engine \<Rightarrow> 'd \<times> usize \<times> 'u engine" where
  "pollDevice getCompletedValue dev g =
     (if \<not> hasPending g then (dev, 0, g) else poll_loop getCompletedValue (r_waitSet g) dev (0, g))"

text \<open>\<open>duration_cast<milliseconds>\<close> of a count of nanoseconds: division that truncates.\<close>

definition to_ms :: "int \<Rightarrow> int" where
  "to_ms ns = (if 0 \<le> ns then ns div 1000000 else - ((- ns) div 1000000))"

definition overdue :: "int \<Rightarrow> wait_node \<Rightarrow> bool" where
  "overdue now wn \<longleftrightarrow> timeoutMs (syncPoint wn) \<le> to_ms (now - registeredTime wn)"

text \<open>\<open>fuel\<close> bounds each cascade of skips, as in the graph theory.\<close>

fun timeout_loop :: "nat \<Rightarrow> int \<Rightarrow> wait_id list \<Rightarrow> bool \<times> 'u engine \<Rightarrow> (bool \<times> 'u engine) option" where
  "timeout_loop fuel now [] s = Some s"
| "timeout_loop fuel now (w # ws) (anyTimeout, g) =
     (if \<not> satisfied (wait_nodes g w) \<and> overdue now (wait_nodes g w) then
        (case claim_wait w g of
           (False, g) \<Rightarrow> timeout_loop fuel now ws (anyTimeout, g)
         | (True, g) \<Rightarrow>
             let g = g\<lparr>r_hasTimeout := True\<rparr>
             in case wait_task (wait_nodes g w) of
                  None \<Rightarrow> timeout_loop fuel now ws (True, g)
                | Some t \<Rightarrow>
                    (case handleGpuTimeout fuel t (has_graph (nodes g t)) g of
                       None \<Rightarrow> None
                     | Some g \<Rightarrow> timeout_loop fuel now ws (True, g)))
      else timeout_loop fuel now ws (anyTimeout, g))"

definition checkTimeouts :: "nat \<Rightarrow> int \<Rightarrow> 'u engine \<Rightarrow> (bool \<times> 'u engine) option" where
  "checkTimeouts fuel now g =
     (if \<not> hasPending g then Some (False, g) else timeout_loop fuel now (r_waitSet g) (False, g))"

section \<open>Claiming waits\<close>

text \<open>The waits of a list that are open and due.\<close>

definition due :: "(timeline_sync_point \<Rightarrow> bool) \<Rightarrow> 'u engine \<Rightarrow> wait_id list \<Rightarrow> wait_id list" where
  "due P g ws = filter (\<lambda>w. \<not> satisfied (wait_nodes g w) \<and> P (syncPoint (wait_nodes g w))) ws"

abbreviation advanced :: "u64 \<Rightarrow> u64 \<Rightarrow> timeline_sync_point \<Rightarrow> bool" where
  "advanced h v sp \<equiv> handle sp = h \<and> sync_value sp \<le> v"

lemma decrementActive_graph_waits [simp]:
  "wait_nodes (decrementActive_graph t b g) = wait_nodes g" "r_waitSet (decrementActive_graph t b g) = r_waitSet g"
  "r_pendingCount (decrementActive_graph t b g) = r_pendingCount g" "r_hasTimeout (decrementActive_graph t b g) = r_hasTimeout g"
  by (auto simp: decrementActive_graph_def node_decrementActive_def upd_node_def scheduleNode_def split: prod.split)

lemma satisfy_wait_open:
  assumes "\<not> satisfied (wait_nodes g w)"
  shows "wait_nodes (snd (satisfy_wait w (k, g))) = (wait_nodes g)(w := (wait_nodes g w)\<lparr>satisfied := True\<rparr>)"
    and "r_pendingCount (snd (satisfy_wait w (k, g))) = r_pendingCount g - 1"
    and "r_waitSet (snd (satisfy_wait w (k, g))) = r_waitSet g" and "r_hasTimeout (snd (satisfy_wait w (k, g))) = r_hasTimeout g"
    and "fst (satisfy_wait w (k, g)) = k + (if wait_task (wait_nodes g w) = None then 0 else 1)"
  using assms by (auto simp: satisfy_wait_def claim_wait_def split: option.split)

lemma satisfy_wait_done: "satisfied (wait_nodes g w) \<Longrightarrow> satisfy_wait w (k, g) = (k, g)"
  by (simp add: satisfy_wait_def claim_wait_def)

lemma due_satisfy:
  assumes "w \<notin> set ws"
  shows "due P (snd (satisfy_wait w s)) ws = due P (snd s) ws"
proof (cases "satisfied (wait_nodes (snd s) w)")
  case True
  then show ?thesis using satisfy_wait_done [of "snd s" w "fst s"] by simp
next
  case False
  then show ?thesis using satisfy_wait_open(1) [of "snd s" w "fst s"] assms
    by (auto simp: due_def intro!: filter_cong)
qed

text \<open>Both loops claim exactly the due waits, in list order.\<close>

lemma notify_loop_due:
  assumes "distinct ws"
  shows "notify_loop h v ws s = fold satisfy_wait (due (advanced h v) (snd s) ws) s"
  using assms
proof (induction ws arbitrary: s)
  case (Cons w ws)
  obtain k g where s: "s = (k, g)" by (cases s)
  have rest: "due (advanced h v) (snd (satisfy_wait w s)) ws = due (advanced h v) g ws"
    using due_satisfy [of w ws _ s] Cons.prems s by simp
  show ?case
    using Cons.IH [of "satisfy_wait w s"] Cons.IH [of s] Cons.prems rest s satisfy_wait_done [of g w k]
    by (cases "satisfied (wait_nodes g w)") (auto simp: Let_def due_def)
qed (simp add: due_def)

lemma poll_loop_due:
  assumes "distinct ws" and "\<And>h dev. getCompletedValue h dev = (val h, dev)"
  shows "poll_loop getCompletedValue ws dev s = (dev, fold satisfy_wait (due (\<lambda>sp. sync_value sp \<le> val (handle sp)) (snd s) ws) s)"
  using assms(1)
proof (induction ws arbitrary: s)
  case (Cons w ws)
  let ?P = "\<lambda>sp. sync_value sp \<le> val (handle sp)"
  obtain k g where s: "s = (k, g)" by (cases s)
  have rest: "due ?P (snd (satisfy_wait w s)) ws = due ?P g ws" using due_satisfy [of w ws _ s] Cons.prems s by simp
  show ?case
    using Cons.IH [of "satisfy_wait w s"] Cons.IH [of s] Cons.prems rest s
    by (cases "satisfied (wait_nodes g w)") (auto simp: Let_def due_def assms(2))
qed (simp add: due_def)

lemma fold_satisfy:
  assumes "distinct ws" and "\<forall>w \<in> set ws. \<not> satisfied (wait_nodes g w)"
  shows "wait_nodes (snd (fold satisfy_wait ws (k, g))) = (\<lambda>w. if w \<in> set ws then (wait_nodes g w)\<lparr>satisfied := True\<rparr> else wait_nodes g w)
    \<and> r_pendingCount (snd (fold satisfy_wait ws (k, g))) = r_pendingCount g - of_nat (length ws)
    \<and> r_waitSet (snd (fold satisfy_wait ws (k, g))) = r_waitSet g
    \<and> fst (fold satisfy_wait ws (k, g)) = k + of_nat (length (filter (\<lambda>w. wait_task (wait_nodes g w) \<noteq> None) ws))"
  using assms
proof (induction ws arbitrary: k g)
  case (Cons w ws)
  obtain k1 g1 where s: "satisfy_wait w (k, g) = (k1, g1)" by (cases "satisfy_wait w (k, g)")
  note o = satisfy_wait_open [of g w k, unfolded s, simplified]
  have op: "\<not> satisfied (wait_nodes g w)" using Cons.prems by simp
  note o = o [OF op]
  have "\<forall>w \<in> set ws. \<not> satisfied (wait_nodes g1 w)" using Cons.prems o(1) by auto
  note ih = Cons.IH [OF _ this, of k1]
  have f: "filter (\<lambda>w. wait_task (wait_nodes g1 w) \<noteq> None) ws = filter (\<lambda>w. wait_task (wait_nodes g w) \<noteq> None) ws"
    using Cons.prems o(1) by (auto intro!: filter_cong)
  show ?case using ih Cons.prems o s f by (auto simp: fun_eq_iff)
qed auto

section \<open>What claimed waits do to their tasks\<close>

definition waiting_tasks :: "'u engine \<Rightarrow> wait_id list \<Rightarrow> node_id multiset" where
  "waiting_tasks g ws = mset (List.map_filter (\<lambda>w. wait_task (wait_nodes g w)) ws)"

lemma waiting_tasks_Cons:
  "waiting_tasks g (w # ws) = (case wait_task (wait_nodes g w) of None \<Rightarrow> {#} | Some t \<Rightarrow> {#t#}) + waiting_tasks g ws"
  by (simp add: waiting_tasks_def List.map_filter_def split: option.split)

lemma waiting_tasks_cong:
  "(\<And>w. w \<in> set ws \<Longrightarrow> wait_task (wait_nodes g' w) = wait_task (wait_nodes g w)) \<Longrightarrow> waiting_tasks g' ws = waiting_tasks g ws"
  by (induction ws) (simp_all add: waiting_tasks_Cons, simp add: waiting_tasks_def List.map_filter_def)

text \<open>A task that can take the reports \<open>T\<close>: its counter is in range and expects that many.\<close>

definition takes_reports :: "'u engine \<Rightarrow> node_id multiset \<Rightarrow> bool" where
  "takes_reports g T \<longleftrightarrow> m_hasScheduler g \<and> (\<forall>t. t \<in># T \<longrightarrow> has_graph (nodes g t))
     \<and> (\<forall>t. t \<in># T \<longrightarrow> counter_ok (inDegree (nodes g t)) \<and> Multiset.count T t \<le> pending_reports (inDegree (nodes g t)))"

lemma wait_report:
  assumes "m_hasScheduler g" and "counter_ok (inDegree (nodes g t))" and "0 < pending_reports (inDegree (nodes g t))"
  defines "g' \<equiv> decrementActive_graph t True g"
  shows "nodes g' = (nodes g)(t := (nodes g t)\<lparr>inDegree := fst (report_step (inDegree (nodes g t)) RanReport)\<rparr>)"
    and "m_hasScheduler g'" and "released g' = released g + (if pending_reports (inDegree (nodes g t)) = 1 then {#t#} else {#})"
proof -
  let ?w = "inDegree (nodes g t)"
  have ready: "snd (decrementActive ?w) \<longleftrightarrow> pending_reports ?w = 1" by (rule decrementActive_ready_iff)
  have fst: "fst (decrementActive ?w) = fst (report_step ?w RanReport)"
    by (simp add: decrementActive_counter_def split: prod.split)
  have g': "g' = (if pending_reports ?w = 1 then scheduleNode t True else (\<lambda>g. g)) (upd_node t (\<lambda>x. x\<lparr>inDegree := fst (report_step ?w RanReport)\<rparr>) g)"
    using ready fst by (simp add: g'_def decrementActive_graph_def node_decrementActive_def case_prod_unfold Let_def del: report_step.simps)
  show "nodes g' = (nodes g)(t := (nodes g t)\<lparr>inDegree := fst (report_step ?w RanReport)\<rparr>)" "m_hasScheduler g'"
    "released g' = released g + (if pending_reports ?w = 1 then {#t#} else {#})"
    using assms(1) by (simp_all add: g' scheduleNode_released del: report_step.simps)
qed

lemma fold_satisfy_reports:
  assumes "distinct ws" and "\<forall>w \<in> set ws. \<not> satisfied (wait_nodes g w)" and "takes_reports g (waiting_tasks g ws)"
  shows "pending_reports (inDegree (nodes (snd (fold satisfy_wait ws (k, g))) t))
      = pending_reports (inDegree (nodes g t)) - Multiset.count (waiting_tasks g ws) t
    \<and> Multiset.count (released (snd (fold satisfy_wait ws (k, g)))) t = Multiset.count (released g) t
        + (if t \<in># waiting_tasks g ws \<and> Multiset.count (waiting_tasks g ws) t = pending_reports (inDegree (nodes g t)) then 1 else 0)"
  using assms
proof (induction ws arbitrary: k g)
  case Nil
  then show ?case by (simp add: waiting_tasks_def List.map_filter_def)
next
  case (Cons w ws)
  obtain k1 g1 where s: "satisfy_wait w (k, g) = (k1, g1)" by (cases "satisfy_wait w (k, g)")
  have op: "\<not> satisfied (wait_nodes g w)" using Cons.prems by simp
  note o = satisfy_wait_open [OF op, of k, unfolded s, simplified]
  have open1: "\<forall>w \<in> set ws. \<not> satisfied (wait_nodes g1 w)" using Cons.prems o(1) by auto
  have T1: "waiting_tasks g1 ws = waiting_tasks g ws" by (rule waiting_tasks_cong) (simp add: o(1))
  note ih = Cons.IH [of g1 k1, unfolded T1] Cons.prems(1) open1
  let ?T = "waiting_tasks g ws"
  show ?case
  proof (cases "wait_task (wait_nodes g w)")
    case None
    then have "nodes g1 = nodes g" "released g1 = released g" "m_hasScheduler g1 = m_hasScheduler g"
      using s op by (auto simp: satisfy_wait_def claim_wait_def released_def)
    then show ?thesis using ih Cons.prems None s by (simp add: waiting_tasks_Cons takes_reports_def)
  next
    case (Some n)
    define g0 where "g0 = g\<lparr>wait_nodes := (wait_nodes g)(w := (wait_nodes g w)\<lparr>satisfied := True\<rparr>), r_pendingCount := r_pendingCount g - 1\<rparr>"
    let ?d = "inDegree (nodes g n)"
    have all: "waiting_tasks g (w # ws) = add_mset n ?T" using Some by (simp add: waiting_tasks_Cons)
    have tk: "m_hasScheduler g" "has_graph (nodes g n)" "counter_ok ?d" "Suc (Multiset.count ?T n) \<le> pending_reports ?d"
      using Cons.prems(3) unfolding all takes_reports_def by auto
    have g1: "g1 = decrementActive_graph n True g0" using s op Some tk(2) by (simp add: satisfy_wait_def claim_wait_def g0_def)
    have g0: "nodes g0 = nodes g" "m_hasScheduler g0 = m_hasScheduler g" "released g0 = released g" by (simp_all add: g0_def released_def)
    have pos: "0 < pending_reports ?d" using tk(4) by simp
    note r = wait_report [of g0 n, folded g1, unfolded g0, OF tk(1,3) pos]
    note c = report_step_counts [OF tk(3) pos, of RanReport]
    have "takes_reports g1 ?T"
      using Cons.prems(3) tk c r(1,2) unfolding all takes_reports_def by (auto simp: not_in_iff)
    then have ih1: "pending_reports (inDegree (nodes (snd (fold satisfy_wait ws (k1, g1))) t)) = pending_reports (inDegree (nodes g1 t)) - Multiset.count ?T t
        \<and> Multiset.count (released (snd (fold satisfy_wait ws (k1, g1)))) t = Multiset.count (released g1) t
          + (if t \<in># ?T \<and> Multiset.count ?T t = pending_reports (inDegree (nodes g1 t)) then 1 else 0)"
      using ih by simp
    show ?thesis unfolding all using ih1 r c(1) tk(4) s
      by (cases "t = n") (auto simp: not_in_iff simp del: report_step.simps)
  qed
qed

section \<open>Notifications and polls\<close>

lemma due_open: "\<forall>w \<in> set (due P g ws). \<not> satisfied (wait_nodes g w)"
  by (simp add: due_def)

lemma due_distinct: "distinct ws \<Longrightarrow> distinct (due P g ws)"
  by (simp add: due_def)

lemma notify_due:
  assumes "distinct (r_waitSet g)" and "hasPending g"
  shows "notifyTimelineAdvanced h v g = fold satisfy_wait (due (advanced h v) g (r_waitSet g)) (0, g)"
  using assms notify_loop_due [of "r_waitSet g" h v "(0, g)"] by (simp add: notifyTimelineAdvanced_def)

text \<open>
  C23: \<open>notifyTimelineAdvanced(h, v)\<close> claims exactly the open waits on timeline \<open>h\<close> with a value of at
  most \<open>v\<close>, each once; every claim lowers the pending count by one and sends one report to the
  waiting task. A task is scheduled, once, exactly when these reports were all it was waiting for.
  The returned number counts the claimed waits that have a task, scheduled or not.
\<close>

theorem notify_exact:
  assumes "distinct (r_waitSet g)" and "hasPending g"
    and "D = due (advanced h v) g (r_waitSet g)" and "takes_reports g (waiting_tasks g D)"
    and "notifyTimelineAdvanced h v g = (k, g')"
  shows "(\<forall>w. satisfied (wait_nodes g' w) \<longleftrightarrow> satisfied (wait_nodes g w) \<or> w \<in> set D)
    \<and> r_pendingCount g' = r_pendingCount g - of_nat (length D)
    \<and> k = of_nat (size (waiting_tasks g D))
    \<and> (\<forall>t. pending_reports (inDegree (nodes g' t)) = pending_reports (inDegree (nodes g t)) - Multiset.count (waiting_tasks g D) t)
    \<and> (\<forall>t. Multiset.count (released g') t = Multiset.count (released g) t
          + (if t \<in># waiting_tasks g D \<and> Multiset.count (waiting_tasks g D) t = pending_reports (inDegree (nodes g t)) then 1 else 0))"
proof -
  have D: "distinct D" "\<forall>w \<in> set D. \<not> satisfied (wait_nodes g w)" using assms(1,3) by (simp_all add: due_distinct due_open)
  have eq: "fold satisfy_wait D (0, g) = (k, g')" using notify_due [OF assms(1,2), of h v] assms(3,5) by simp
  note f = fold_satisfy [OF D, of 0, unfolded eq] and r = fold_satisfy_reports [OF D assms(4), of 0, unfolded eq]
  have "length (filter (\<lambda>w. wait_task (wait_nodes g w) \<noteq> None) ws) = size (waiting_tasks g ws)" for ws
    by (induction ws) (auto simp: waiting_tasks_Cons, simp add: waiting_tasks_def List.map_filter_def)
  then show ?thesis using f r by simp
qed

text \<open>A graph with one task that waits for two values of timeline 7.\<close>

definition demo_wait :: "unit engine" where
  "demo_wait = prepareRun 0 (waits 0 0 \<lparr>handle = 7, sync_value = 20, timeoutMs = 2000\<rparr>
     (waits 0 0 \<lparr>handle = 7, sync_value = 10, timeoutMs = 1000\<rparr> (snd (emplace ''upload'' Worker Normal (\<lambda>u. u) (TaskGraph_new ())))))"

lemmas demo_wait_defs = demo_wait_def prepareRun_def waits_def addWaitPoint_def registerWait_def rearm_wait_def reset_node_def
  schedule_root_def emplace_def create_node_def setCallable_def appendNode_def TaskGraph_new_def TaskNode_default_def upd_node_def
  Let_def

lemma demo_wait_facts:
  "r_waitSet demo_wait = [0, 1]" "r_pendingCount demo_wait = 2" "inDegree (nodes demo_wait 0) = 2" "has_graph (nodes demo_wait 0)"
  "m_hasScheduler demo_wait" "m_pendingTasks demo_wait = 1" "requests demo_wait = []" "t_nextInlineTask demo_wait = None"
  "successors (nodes demo_wait 0) = []"
  "wait_nodes demo_wait 0 = \<lparr>wait_task = Some 0, syncPoint = \<lparr>handle = 7, sync_value = 10, timeoutMs = 1000\<rparr>, registeredTime = 0, satisfied = False\<rparr>"
  "wait_nodes demo_wait (Suc 0) = \<lparr>wait_task = Some 0, syncPoint = \<lparr>handle = 7, sync_value = 20, timeoutMs = 2000\<rparr>, registeredTime = 0, satisfied = False\<rparr>"
  by (simp_all add: demo_wait_defs)

theorem notify_exact_witness:
  "fst (notifyTimelineAdvanced 7 15 demo_wait) = 1 \<and> pending_reports (inDegree (nodes (snd (notifyTimelineAdvanced 7 15 demo_wait)) 0)) = 1"
proof -
  have D: "due (advanced 7 15) demo_wait (r_waitSet demo_wait) = [0]" by (simp add: due_def demo_wait_facts)
  have T: "waiting_tasks demo_wait [0] = {#0#}" by (simp add: waiting_tasks_def List.map_filter_def demo_wait_facts)
  have two: "pending_reports (2 :: u32) = 2" "counter_ok (2 :: u32)"
    by (simp_all add: pending_reports_def active_reports_def counter_ok_def)
  have tk: "takes_reports demo_wait (waiting_tasks demo_wait [0])" by (simp add: T takes_reports_def demo_wait_facts two)
  obtain k g' where n: "notifyTimelineAdvanced 7 15 demo_wait = (k, g')" by (cases "notifyTimelineAdvanced 7 15 demo_wait")
  have "distinct (r_waitSet demo_wait)" "hasPending demo_wait" by (simp_all add: demo_wait_facts hasPending_def)
  from notify_exact [OF this D [symmetric] tk n] show ?thesis by (simp add: n T demo_wait_facts two)
qed

text \<open>
  A timeline is monotonic for the reactor: notifying again with a value that is not larger
  changes nothing and reports no wait.
\<close>

theorem notify_again:
  assumes "distinct (r_waitSet g)" and "v' \<le> v"
  shows "notifyTimelineAdvanced h v' (snd (notifyTimelineAdvanced h v g)) = (0, snd (notifyTimelineAdvanced h v g))"
proof (cases "hasPending g")
  case False
  then show ?thesis by (simp add: notifyTimelineAdvanced_def)
next
  case True
  let ?D = "due (advanced h v) g (r_waitSet g)"
  define g' where "g' = snd (notifyTimelineAdvanced h v g)"
  have g': "g' = snd (fold satisfy_wait ?D (0, g))" unfolding g'_def notify_due [OF assms(1) True] ..
  note f = fold_satisfy [OF due_distinct [OF assms(1), of "advanced h v" g] due_open, of 0, folded g']
  have "\<not> (\<not> satisfied (wait_nodes g' w) \<and> advanced h v' (syncPoint (wait_nodes g' w)))" if "w \<in> set (r_waitSet g)" for w
    using f that assms(2) by (auto simp: due_def)
  then have "due (advanced h v') g' (r_waitSet g') = []" using f by (auto simp: due_def filter_empty_conv)
  moreover have "distinct (r_waitSet g')" using f assms(1) by simp
  ultimately have "notifyTimelineAdvanced h v' g' = (0, g')"
    using notify_due [of g' h v'] by (cases "hasPending g'") (simp_all add: notifyTimelineAdvanced_def)
  then show ?thesis by (simp add: g'_def)
qed

theorem notify_again_witness:
  "notifyTimelineAdvanced 7 12 (snd (notifyTimelineAdvanced 7 15 demo_wait)) = (0, snd (notifyTimelineAdvanced 7 15 demo_wait))"
  using notify_again [of demo_wait 12 15 7] by (simp add: demo_wait_facts)

text \<open>
  Polling a device is notifying: when all waits are on one timeline, and the device always
  answers with the same value for it, \<open>pollDevice\<close> has exactly the effect and the result of
  \<open>notifyTimelineAdvanced\<close> with that value, and leaves the device as it was.
\<close>

theorem poll_is_notify:
  assumes "distinct (r_waitSet g)" and "\<forall>w \<in> set (r_waitSet g). handle (syncPoint (wait_nodes g w)) = h"
    and "\<And>h dev. getCompletedValue h dev = (val h, dev)"
  shows "pollDevice getCompletedValue dev g = (dev, notifyTimelineAdvanced h (val h) g)"
proof -
  have "due (\<lambda>sp. sync_value sp \<le> val (handle sp)) g (r_waitSet g) = due (advanced h (val h)) g (r_waitSet g)"
    using assms(2) by (auto simp: due_def intro!: filter_cong)
  then show ?thesis
    using poll_loop_due [OF assms(1,3), where s = "(0, g)"] notify_due [OF assms(1)]
    by (cases "hasPending g") (simp_all add: pollDevice_def notifyTimelineAdvanced_def)
qed

theorem poll_is_notify_witness:
  "pollDevice (\<lambda>h d. (15, d)) () demo_wait = ((), notifyTimelineAdvanced 7 15 demo_wait)"
  by (rule poll_is_notify) (auto simp: demo_wait_facts)

section \<open>The watchdog\<close>

text \<open>The graph side of a timeout does not touch the wait-set.\<close>

definition same_waits :: "'u engine \<Rightarrow> 'u engine \<Rightarrow> bool" where
  "same_waits g g' \<longleftrightarrow> wait_nodes g' = wait_nodes g \<and> r_waitSet g' = r_waitSet g \<and> r_pendingCount g' = r_pendingCount g
     \<and> r_hasTimeout g' = r_hasTimeout g"

lemma same_waits_steps [simp]:
  "same_waits g g" "same_waits g (upd_node n f h) = same_waits g h" "same_waits g (scheduleNode n b h) = same_waits g h"
  "same_waits g (onTaskCompleted n h) = same_waits g h"
  by (simp_all add: same_waits_def upd_node_def scheduleNode_def onTaskCompleted_def)

lemma decrementSkipped_waits: "decrementSkipped fuel b ts h = Some g' \<Longrightarrow> same_waits g h \<Longrightarrow> same_waits g g'"
proof (induction fuel b ts h rule: decrementSkipped.induct)
  case (3 fuel b n ts h)
  obtain w e where "decrementSkipped_counter (inDegree (nodes h n)) = (w, e)" by fastforce
  with 3 show ?case by (cases e) (auto simp: Let_def split: if_splits)
qed auto

lemma handleGpuTimeout_waits: "handleGpuTimeout fuel n b g = Some g' \<Longrightarrow> same_waits g g'"
  by (auto simp: handleGpuTimeout_def Let_def intro: decrementSkipped_waits)

definition late :: "int \<Rightarrow> 'u engine \<Rightarrow> wait_id list \<Rightarrow> wait_id list" where
  "late now g ws = filter (\<lambda>w. \<not> satisfied (wait_nodes g w) \<and> overdue now (wait_nodes g w)) ws"

lemma timeout_loop_late:
  assumes "distinct ws" and "timeout_loop fuel now ws (b, g) = Some (b', g')"
  shows "(\<forall>w. satisfied (wait_nodes g' w) \<longleftrightarrow> satisfied (wait_nodes g w) \<or> w \<in> set (late now g ws))
    \<and> r_pendingCount g' = r_pendingCount g - of_nat (length (late now g ws)) \<and> r_waitSet g' = r_waitSet g
    \<and> (b' \<longleftrightarrow> b \<or> late now g ws \<noteq> []) \<and> (r_hasTimeout g' \<longleftrightarrow> r_hasTimeout g \<or> late now g ws \<noteq> [])"
  using assms
proof (induction ws arbitrary: b g)
  case (Cons w ws)
  show ?case
  proof (cases "\<not> satisfied (wait_nodes g w) \<and> overdue now (wait_nodes g w)")
    case False
    then have "late now g (w # ws) = late now g ws" by (simp add: late_def)
    then show ?thesis using Cons.IH [of b g] Cons.prems False by auto
  next
    case True
    define g1 where "g1 = g\<lparr>wait_nodes := (wait_nodes g)(w := (wait_nodes g w)\<lparr>satisfied := True\<rparr>),
      r_pendingCount := r_pendingCount g - 1, r_hasTimeout := True\<rparr>"
    have step: "(case wait_task (wait_nodes g1 w) of None \<Rightarrow> timeout_loop fuel now ws (True, g1)
        | Some t \<Rightarrow> (case handleGpuTimeout fuel t (has_graph (nodes g1 t)) g1 of None \<Rightarrow> None
            | Some g \<Rightarrow> timeout_loop fuel now ws (True, g))) = Some (b', g')"
      using Cons.prems(2) True unfolding g1_def by (simp add: claim_wait_def Let_def)
    have "\<exists>g2. same_waits g1 g2 \<and> timeout_loop fuel now ws (True, g2) = Some (b', g')"
    proof (cases "wait_task (wait_nodes g1 w)")
      case None
      then show ?thesis using step by (intro exI [of _ g1]) simp
    next
      case (Some t)
      then obtain g2 where "handleGpuTimeout fuel t (has_graph (nodes g1 t)) g1 = Some g2"
        "timeout_loop fuel now ws (True, g2) = Some (b', g')" using step by (auto split: option.splits)
      then show ?thesis using handleGpuTimeout_waits by blast
    qed
    then obtain g2 where g2: "same_waits g1 g2" "timeout_loop fuel now ws (True, g2) = Some (b', g')" by blast
    have n: "wait_nodes g2 = (wait_nodes g)(w := (wait_nodes g w)\<lparr>satisfied := True\<rparr>)" "r_pendingCount g2 = r_pendingCount g - 1"
      "r_waitSet g2 = r_waitSet g" "r_hasTimeout g2" using g2(1) by (simp_all add: same_waits_def g1_def)
    have "late now g2 ws = late now g ws" using n(1) Cons.prems(1) by (auto simp: late_def intro!: filter_cong)
    moreover have "late now g (w # ws) = w # late now g ws" using True by (simp add: late_def)
    ultimately show ?thesis using Cons.IH [OF _ g2(2)] Cons.prems(1) n by auto
  qed
qed (simp add: late_def)

lemma le_div_ms: "m \<le> n div 1000000 \<longleftrightarrow> m * 1000000 \<le> n" for m n :: int
proof
  assume "m \<le> n div 1000000"
  then have "m * 1000000 \<le> n div 1000000 * 1000000" by simp
  moreover have "n div 1000000 * 1000000 + n mod 1000000 = n" "0 \<le> n mod 1000000" by simp_all
  ultimately show "m * 1000000 \<le> n" by linarith
next
  assume "m * 1000000 \<le> n"
  then have "m * 1000000 div 1000000 \<le> n div 1000000" by (rule zdiv_mono1) simp
  then show "m \<le> n div 1000000" by simp
qed

lemma overdue_ns:
  assumes "0 < timeoutMs (syncPoint wn)"
  shows "overdue now wn \<longleftrightarrow> timeoutMs (syncPoint wn) * 1000000 \<le> now - registeredTime wn"
proof (cases "0 \<le> now - registeredTime wn")
  case True
  then show ?thesis using le_div_ms by (simp add: overdue_def to_ms_def)
next
  case False
  then have "- ((- (now - registeredTime wn)) div 1000000) \<le> 0" by (simp add: pos_imp_zdiv_nonneg_iff)
  then have "\<not> overdue now wn" using False assms unfolding overdue_def to_ms_def by simp
  then show ?thesis using False assms by linarith
qed


lemma demo_wait_timeout:
  "checkTimeouts 0 1000000000 demo_wait = Some (True, demo_wait\<lparr>wait_nodes := (wait_nodes demo_wait)(0 := (wait_nodes demo_wait 0)\<lparr>satisfied := True\<rparr>),
     r_pendingCount := 1, r_hasTimeout := True, nodes := (nodes demo_wait)(0 := (nodes demo_wait 0)\<lparr>node_state := Timeout\<rparr>), m_pendingTasks := 0\<rparr>)"
  by (simp add: checkTimeouts_def hasPending_def demo_wait_facts overdue_def to_ms_def claim_wait_def handleGpuTimeout_def Let_def
      upd_node_def onTaskCompleted_def succ_targets_def List.map_filter_def)


text \<open>
  a task with two waits that both time out is completed twice: the count of pending tasks of a
  one-task graph goes from 1 past 0 to \<open>2 ^ 32 - 1\<close>, so the graph never reports completion again.
\<close>

theorem timeout_completes_twice:
  "\<exists>g'. checkTimeouts 0 3000000000 demo_wait = Some (True, g') \<and> m_pendingTasks demo_wait = 1
    \<and> m_pendingTasks g' = - 1 \<and> \<not> isCompleted g' \<and> requests g' = []"
  by (simp add: checkTimeouts_def hasPending_def demo_wait_facts overdue_def to_ms_def claim_wait_def handleGpuTimeout_def Let_def
      upd_node_def onTaskCompleted_def succ_targets_def List.map_filter_def isCompleted_def)

section \<open>The count of pending waits\<close>

definition open_waits :: "'u engine \<Rightarrow> wait_id list" where
  "open_waits g = filter (\<lambda>w. \<not> satisfied (wait_nodes g w)) (r_waitSet g)"

definition reactor_inv :: "'u engine \<Rightarrow> bool" where
  "reactor_inv g \<longleftrightarrow> distinct (r_waitSet g) \<and> length (r_waitSet g) < 2 ^ 32 \<and> r_pendingCount g = of_nat (length (open_waits g))"

datatype reactor_op = Register wait_id | Notify u64 u64 | Poll "u64 \<Rightarrow> u64" | Watchdog nat int | Reset

fun reactor_step :: "reactor_op \<Rightarrow> 'u engine \<Rightarrow> 'u engine option" where
  "reactor_step (Register w) g = Some (registerWait w g)"
| "reactor_step (Notify h v) g = Some (snd (notifyTimelineAdvanced h v g))"
| "reactor_step (Poll val) g = Some (snd (snd (pollDevice (\<lambda>h d. (val h, d)) () g)))"
| "reactor_step (Watchdog fuel now) g = map_option snd (checkTimeouts fuel now g)"
| "reactor_step Reset g = Some (reactor_reset g)"

lemma reactor_claims:
  assumes inv: "reactor_inv g" and Q: "D = filter Q (open_waits g)"
    and g': "\<forall>w. satisfied (wait_nodes g' w) \<longleftrightarrow> satisfied (wait_nodes g w) \<or> w \<in> set D"
      "r_pendingCount g' = r_pendingCount g - of_nat (length D)" "r_waitSet g' = r_waitSet g"
  shows "reactor_inv g'"
proof -
  have "open_waits g' = filter (\<lambda>w. \<not> Q w) (open_waits g)"
    unfolding open_waits_def Q g'(3) using g'(1) by (auto simp: Q open_waits_def intro!: filter_cong)
  moreover have "length (filter Q (open_waits g)) + length (filter (\<lambda>w. \<not> Q w) (open_waits g)) = length (open_waits g)"
    by (rule sum_length_filter_compl)
  then have "length (open_waits g) = length (filter (\<lambda>w. \<not> Q w) (open_waits g)) + length D" using Q by simp
  then have "of_nat (length (open_waits g)) - of_nat (length D) = (of_nat (length (filter (\<lambda>w. \<not> Q w) (open_waits g))) :: u32)"
    by (simp only: of_nat_add) simp
  ultimately show ?thesis using inv g'(2,3) by (simp add: reactor_inv_def)
qed

lemma due_filter: "due P g (r_waitSet g) = filter (\<lambda>w. P (syncPoint (wait_nodes g w))) (open_waits g)"
  by (simp add: due_def open_waits_def conj_commute)

lemma late_filter: "late now g (r_waitSet g) = filter (\<lambda>w. overdue now (wait_nodes g w)) (open_waits g)"
  by (simp add: late_def open_waits_def conj_commute)

lemma reactor_inv_due:
  assumes "reactor_inv g"
  shows "reactor_inv (snd (fold satisfy_wait (due P g (r_waitSet g)) (0, g)))"
proof (rule reactor_claims [OF assms due_filter [of P]])
  have "distinct (r_waitSet g)" using assms by (simp add: reactor_inv_def)
  note f = fold_satisfy [OF due_distinct [OF this, of P g] due_open, of 0]
  show "\<forall>w. satisfied (wait_nodes (snd (fold satisfy_wait (due P g (r_waitSet g)) (0, g))) w)
      \<longleftrightarrow> satisfied (wait_nodes g w) \<or> w \<in> set (due P g (r_waitSet g))" using f by simp
qed (use fold_satisfy [OF due_distinct [of "r_waitSet g" P g] due_open, of 0] assms in \<open>simp_all add: reactor_inv_def\<close>)

lemma hasPending_iff:
  assumes "reactor_inv g"
  shows "hasPending g \<longleftrightarrow> (\<exists>w \<in> set (r_waitSet g). \<not> satisfied (wait_nodes g w))"
proof -
  have "length (open_waits g) < 2 ^ 32"
    using assms length_filter_le [of _ "r_waitSet g"] unfolding reactor_inv_def open_waits_def by (meson le_less_trans)
  then have "hasPending g \<longleftrightarrow> length (open_waits g) \<noteq> 0"
    using assms of_nat_u32_zero by (simp add: reactor_inv_def hasPending_def word_gt_0)
  then show ?thesis by (auto simp: open_waits_def filter_empty_conv)
qed



end
