(* ===== verification/Scheduler.thy ===== *)
theory Scheduler
  imports Dual_Queue Mpmc_Queue Slab_Arena Timeline_Reactor
begin

text \<open>
  The task scheduler: \<^verbatim>\<open>task_scheduler.hpp\<close> and \<^verbatim>\<open>task_scheduler.cpp\<close>. The state is the engine of the
  graph theory together with the record \<open>scheduler\<close>: the worker deques, the injection queues, the
  main-thread stack, the signals. Every operation is the one a single thread performs; \<open>me\<close> is the
  index of the calling worker or \<open>INVALID_WORKER_INDEX\<close>. A loop that spins until another thread
  makes room or work is the result \<open>None\<close>.

  Threads are not modelled, only what they do: \<open>worker_iteration\<close> is one pass of the worker loop up
  to the point where it parks, and the calls that wake parked threads are logged in call order.
\<close>

section \<open>State\<close>

record worker_state =
  w_deque :: dual_queue
  stealVictimSeed :: u32
  w_arena :: slab_arena

record scheduler_config =
  c_workerCount :: u32
  threadNamePrefix :: string
  coreAffinity :: "u32 list"
  initialDequeCapacity :: usize
  c_ioWorkerCount :: u32
  ioThreadNamePrefix :: string

definition SchedulerConfig_default :: scheduler_config where
  "SchedulerConfig_default =
     \<lparr>c_workerCount = 0, threadNamePrefix = ''LF-Worker'', coreAffinity = [], initialDequeCapacity = 65536,
      c_ioWorkerCount = 1, ioThreadNamePrefix = ''LF-IO''\<rparr>"

datatype wake = WakeOne | WakeAll

record scheduler =
  m_config :: scheduler_config
  m_workerCount :: u32
  m_ioWorkerCount :: u32
  m_workers :: "worker_state list"
  m_globalHigh :: mpmc_queue
  m_globalNormal :: mpmc_queue
  m_ioQueue :: mpmc_queue
  m_mainThreadHead :: "node_id list"
  m_mainThreadCount :: usize
  m_wakeSignal :: u32
  m_sleepingCount :: u32
  m_ioWakeSignal :: u32
  m_stop :: bool
  m_externalStealSeed :: u32
  wakes :: "wake list"
  ioWakes :: "wake list"

text \<open>\<open>hw\<close> is \<open>std::thread::hardware_concurrency()\<close>.\<close>

definition TaskScheduler_new :: "u32 \<Rightarrow> scheduler_config \<Rightarrow> scheduler" where
  "TaskScheduler_new hw cfg =
     (let n = (if 0 < c_workerCount cfg then c_workerCount cfg else if 0 < hw then hw else 1);
          cap = (if 0 < initialDequeCapacity cfg then initialDequeCapacity cfg else 65536)
      in \<lparr>m_config = cfg, m_workerCount = n, m_ioWorkerCount = c_ioWorkerCount cfg,
          m_workers = map (\<lambda>i. \<lparr>w_deque = DualPriorityQueue_new cap, stealVictimSeed = (of_nat i + 1) * 2654435761,
                                w_arena = SlabArena_new True\<rparr>) [0..<unat n],
          m_globalHigh = MpmcTaskQueue_new 4096,
          m_globalNormal = MpmcTaskQueue_new (max (initialDequeCapacity cfg) 65536),
          m_ioQueue = MpmcTaskQueue_new 1024,
          m_mainThreadHead = [], m_mainThreadCount = 0, m_wakeSignal = 0, m_sleepingCount = 0, m_ioWakeSignal = 0,
          m_stop = False, m_externalStealSeed = 0, wakes = [], ioWakes = []\<rparr>)"

definition worker_deque :: "u32 \<Rightarrow> scheduler \<Rightarrow> dual_queue" where
  "worker_deque i s = w_deque (m_workers s ! unat i)"

definition set_deque :: "u32 \<Rightarrow> dual_queue \<Rightarrow> scheduler \<Rightarrow> scheduler" where
  "set_deque i d s = s\<lparr>m_workers := (m_workers s)[unat i := (m_workers s ! unat i)\<lparr>w_deque := d\<rparr>]\<rparr>"

section \<open>Scheduling\<close>

definition notifyWorker :: "u32 \<Rightarrow> scheduler \<Rightarrow> scheduler" where
  "notifyWorker k s =
     (let sleeping = m_sleepingCount s
      in if sleeping = 0 \<or> k = 0 then s
         else let toWake = min k sleeping
              in if toWake = 0 then s
                 else if toWake = 1 then s\<lparr>m_wakeSignal := m_wakeSignal s + 1, wakes := wakes s @ [WakeOne]\<rparr>
                 else let s = s\<lparr>m_wakeSignal := m_wakeSignal s + toWake\<rparr>
                      in if m_workerCount s \<le> toWake then s\<lparr>wakes := wakes s @ [WakeAll]\<rparr>
                         else s\<lparr>wakes := wakes s @ replicate (unat toWake) WakeOne\<rparr>)"

definition pushMainThreadTask :: "node_id \<Rightarrow> scheduler \<Rightarrow> scheduler" where
  "pushMainThreadTask n s = s\<lparr>m_mainThreadHead := n # m_mainThreadHead s, m_mainThreadCount := m_mainThreadCount s + 1\<rparr>"

definition push_io :: "node_id \<Rightarrow> scheduler \<Rightarrow> scheduler option" where
  "push_io n s =
     (case tryEnqueue (Some n) (m_ioQueue s) of
        Some (True, q) \<Rightarrow> Some (s\<lparr>m_ioQueue := q, m_ioWakeSignal := m_ioWakeSignal s + 1, ioWakes := ioWakes s @ [WakeOne]\<rparr>)
      | _ \<Rightarrow> None)"

definition push_worker :: "u32 \<Rightarrow> TaskPriority \<Rightarrow> node_id \<Rightarrow> scheduler \<Rightarrow> scheduler option" where
  "push_worker me p n s =
     (if me \<noteq> INVALID_WORKER_INDEX then Some (set_deque me (dual_push (Some n) p (worker_deque me s)) s)
      else if p = High then
        (case tryEnqueue (Some n) (m_globalHigh s) of Some (True, q) \<Rightarrow> Some (s\<lparr>m_globalHigh := q\<rparr>) | _ \<Rightarrow> None)
      else
        (case tryEnqueue (Some n) (m_globalNormal s) of Some (True, q) \<Rightarrow> Some (s\<lparr>m_globalNormal := q\<rparr>) | _ \<Rightarrow> None))"

definition schedule_to :: "u32 \<Rightarrow> node_id \<Rightarrow> TaskDomain \<Rightarrow> bool \<Rightarrow> 'u engine \<times> scheduler \<Rightarrow> ('u engine \<times> scheduler) option" where
  "schedule_to me n d notify = (\<lambda>(g, s).
     let g = upd_node n (\<lambda>x. x\<lparr>domain := d\<rparr>) g
     in case d of
          MainThread \<Rightarrow> Some (g, pushMainThreadTask n s)
        | IO \<Rightarrow> map_option (Pair g) (push_io n s)
        | Worker \<Rightarrow>
            (case push_worker me (priority (nodes g n)) n s of
               None \<Rightarrow> None
             | Some s \<Rightarrow> Some (g, if notify \<and> 0 < m_sleepingCount s then notifyWorker 1 s else s)))"

definition schedule :: "u32 \<Rightarrow> node_id \<Rightarrow> bool \<Rightarrow> 'u engine \<times> scheduler \<Rightarrow> ('u engine \<times> scheduler) option" where
  "schedule me n notify = (\<lambda>(g, s). schedule_to me n (domain (nodes g n)) notify (g, s))"

fun batch_loop :: "u32 \<Rightarrow> node_ptr list \<Rightarrow> 'u engine \<Rightarrow> u32 \<times> scheduler \<Rightarrow> (u32 \<times> scheduler) option" where
  "batch_loop me [] g s = Some s"
| "batch_loop me (None # ts) g s = batch_loop me ts g s"
| "batch_loop me (Some n # ts) g (k, s) =
     (case domain (nodes g n) of
        MainThread \<Rightarrow> batch_loop me ts g (k, pushMainThreadTask n s)
      | IO \<Rightarrow> (case push_io n s of None \<Rightarrow> None | Some s \<Rightarrow> batch_loop me ts g (k, s))
      | Worker \<Rightarrow>
          (case push_worker me (priority (nodes g n)) n s of None \<Rightarrow> None | Some s \<Rightarrow> batch_loop me ts g (k + 1, s)))"

definition scheduleBatch :: "u32 \<Rightarrow> node_ptr list \<Rightarrow> 'u engine \<Rightarrow> scheduler \<Rightarrow> scheduler option" where
  "scheduleBatch me ts g s =
     (if ts = [] then Some s
      else case batch_loop me ts g (0, s) of
             None \<Rightarrow> None
           | Some (k, s) \<Rightarrow> Some (if 0 < k \<and> 0 < m_sleepingCount s then notifyWorker k s else s))"

text \<open>What the graph asked for, in call order.\<close>

fun apply_requests :: "u32 \<Rightarrow> request list \<Rightarrow> 'u engine \<times> scheduler \<Rightarrow> ('u engine \<times> scheduler) option" where
  "apply_requests me [] s = Some s"
| "apply_requests me (Schedule n b # rs) s =
     (case schedule me n b s of None \<Rightarrow> None | Some s \<Rightarrow> apply_requests me rs s)"
| "apply_requests me (NotifyWorker k # rs) (g, s) = apply_requests me rs (g, notifyWorker k s)"

definition flush_requests :: "u32 \<Rightarrow> 'u engine \<times> scheduler \<Rightarrow> ('u engine \<times> scheduler) option" where
  "flush_requests me = (\<lambda>(g, s). apply_requests me (requests g) (g\<lparr>requests := []\<rparr>, s))"

section \<open>Finding work\<close>

text \<open>The returned word is also the new state.\<close>

definition xorshift32 :: "u32 \<Rightarrow> u32" where
  "xorshift32 state =
     (let x = (if state = 0 then 0x6D2B79F5 else state);
          x = x XOR push_bit 13 x;
          x = x XOR drop_bit 17 x
      in x XOR push_bit 5 x)"

fun steal_loop :: "u32 \<Rightarrow> u32 \<Rightarrow> nat list \<Rightarrow> scheduler \<Rightarrow> node_ptr \<times> scheduler" where
  "steal_loop i startIdx [] s = (None, s)"
| "steal_loop i startIdx (attempt # as) s =
     (let victim = (startIdx + of_nat attempt) mod m_workerCount s
      in if victim = i then steal_loop i startIdx as s
         else let (stolen, v, own) = dual_stealBatch_into (worker_deque victim s) (worker_deque i s);
                  s = set_deque i own (set_deque victim v s)
              in if 0 < stolen then
                   let (t, own) = dual_pop (worker_deque i s) in (t, set_deque i own s)
                 else
                   let (t, v) = dual_steal (worker_deque victim s); s = set_deque victim v s
                   in if t \<noteq> None then (t, s) else steal_loop i startIdx as s)"

definition take_global :: "scheduler \<Rightarrow> (node_ptr \<times> scheduler) option" where
  "take_global s =
     (case tryDequeue (m_globalHigh s) of
        None \<Rightarrow> None
      | Some (t, q) \<Rightarrow>
          let s = s\<lparr>m_globalHigh := q\<rparr>
          in if t \<noteq> None then Some (t, s)
             else (case tryDequeue (m_globalNormal s) of
                     None \<Rightarrow> None
                   | Some (t, q) \<Rightarrow> Some (t, s\<lparr>m_globalNormal := q\<rparr>)))"

definition findWork :: "u32 \<Rightarrow> scheduler \<Rightarrow> (node_ptr \<times> scheduler) option" where
  "findWork i s =
     (let (t, d) = dual_pop (worker_deque i s); s = set_deque i d s
      in if t \<noteq> None then Some (t, s)
         else case take_global s of
                None \<Rightarrow> None
              | Some (t, s) \<Rightarrow>
                  if t \<noteq> None then Some (t, s)
                  else let seed = xorshift32 (stealVictimSeed (m_workers s ! unat i));
                           startIdx = seed mod m_workerCount s;
                           s = s\<lparr>m_workers := (m_workers s)[unat i := (m_workers s ! unat i)\<lparr>stealVictimSeed := seed\<rparr>]\<rparr>
                       in Some (steal_loop i startIdx [0..<unat (m_workerCount s)] s))"

fun external_steal_loop :: "u32 \<Rightarrow> nat list \<Rightarrow> scheduler \<Rightarrow> node_ptr \<times> scheduler" where
  "external_steal_loop startIdx [] s = (None, s)"
| "external_steal_loop startIdx (attempt # as) s =
     (let victim = (startIdx + of_nat attempt) mod m_workerCount s;
          (t, v) = dual_steal (worker_deque victim s);
          s = set_deque victim v s
      in if t \<noteq> None then (t, s) else external_steal_loop startIdx as s)"

definition findWorkExternal :: "scheduler \<Rightarrow> (node_ptr \<times> scheduler) option" where
  "findWorkExternal s =
     (case take_global s of
        None \<Rightarrow> None
      | Some (t, s) \<Rightarrow>
          if t \<noteq> None then Some (t, s)
          else let seed = m_externalStealSeed s;
                   s = s\<lparr>m_externalStealSeed := seed + 1\<rparr>;
                   startIdx = (seed * 2654435761) mod m_workerCount s
               in Some (external_steal_loop startIdx [0..<unat (m_workerCount s)] s))"

definition find_any :: "u32 \<Rightarrow> scheduler \<Rightarrow> (node_ptr \<times> scheduler) option" where
  "find_any me s = (if me \<noteq> INVALID_WORKER_INDEX then findWork me s else findWorkExternal s)"

section \<open>Executing tasks\<close>

text \<open>\<open>task->execute()\<close> and what it asks of the scheduler; \<open>fuel\<close> bounds a cascade of skips.\<close>

definition run_task :: "nat \<Rightarrow> u32 \<Rightarrow> node_id \<Rightarrow> 'u engine \<times> scheduler \<Rightarrow> ('u engine \<times> scheduler) option" where
  "run_task fuel me n = (\<lambda>(g, s). case execute fuel n g of None \<Rightarrow> None | Some g \<Rightarrow> flush_requests me (g, s))"

partial_function (option) run_continuations :: "nat \<Rightarrow> u32 \<Rightarrow> 'u engine \<times> scheduler \<Rightarrow> ('u engine \<times> scheduler) option" where
  "run_continuations fuel me st =
     (case t_nextInlineTask (fst st) of
        None \<Rightarrow> Some st
      | Some n \<Rightarrow>
          (case run_task fuel me n ((fst st)\<lparr>t_nextInlineTask := None\<rparr>, snd st) of
             None \<Rightarrow> None
           | Some st \<Rightarrow> run_continuations fuel me st))"

definition executeWithContinuation :: "nat \<Rightarrow> u32 \<Rightarrow> node_id \<Rightarrow> 'u engine \<times> scheduler \<Rightarrow> ('u engine \<times> scheduler) option" where
  "executeWithContinuation fuel me n st =
     (case run_task fuel me n st of None \<Rightarrow> None | Some st \<Rightarrow> run_continuations fuel me st)"

fun run_all :: "nat \<Rightarrow> u32 \<Rightarrow> node_id list \<Rightarrow> 'u engine \<times> scheduler \<Rightarrow> ('u engine \<times> scheduler) option" where
  "run_all fuel me [] st = Some st"
| "run_all fuel me (n # ns) st = (case run_task fuel me n st of None \<Rightarrow> None | Some st \<Rightarrow> run_all fuel me ns st)"

definition drainMainThreadTasks :: "nat \<Rightarrow> u32 \<Rightarrow> 'u engine \<times> scheduler \<Rightarrow> (usize \<times> 'u engine \<times> scheduler) option" where
  "drainMainThreadTasks fuel me = (\<lambda>(g, s).
     let tasks = rev (m_mainThreadHead s); s = s\<lparr>m_mainThreadHead := []\<rparr>; cnt = of_nat (length tasks)
     in if tasks = [] then Some (0, g, s)
        else case run_all fuel me tasks (g, s) of
               None \<Rightarrow> None
             | Some (g, s) \<Rightarrow> Some (cnt, g, s\<lparr>m_mainThreadCount := m_mainThreadCount s - cnt\<rparr>))"

section \<open>Timelines\<close>

text \<open>What one pass of a waiting loop reads from outside: the clock, and the device if there is one.\<close>

record poll_env =
  clock :: int
  device :: "(u64 \<Rightarrow> u64) option"

definition notify_if :: "usize \<Rightarrow> 'u engine \<times> scheduler \<Rightarrow> 'u engine \<times> scheduler" where
  "notify_if k = (\<lambda>(g, s). (g, if 0 < k then notifyWorker (ucast k) s else s))"

definition scheduler_notifyTimelineAdvanced ::
  "u32 \<Rightarrow> u64 \<Rightarrow> u64 \<Rightarrow> 'u engine \<times> scheduler \<Rightarrow> ('u engine \<times> scheduler) option" where
  "scheduler_notifyTimelineAdvanced me h v = (\<lambda>(g, s).
     let (k, g) = notifyTimelineAdvanced h v g in map_option (notify_if k) (flush_requests me (g, s)))"

definition poll_device :: "u32 \<Rightarrow> poll_env \<Rightarrow> 'u engine \<times> scheduler \<Rightarrow> ('u engine \<times> scheduler) option" where
  "poll_device me env = (\<lambda>(g, s).
     case device env of
       None \<Rightarrow> Some (g, s)
     | Some val \<Rightarrow> let (_, k, g) = pollDevice (\<lambda>h d. (val h, d)) () g in map_option (notify_if k) (flush_requests me (g, s)))"

definition pollTimelineFallback :: "nat \<Rightarrow> u32 \<Rightarrow> poll_env \<Rightarrow> 'u engine \<times> scheduler \<Rightarrow> ('u engine \<times> scheduler) option" where
  "pollTimelineFallback fuel me env = (\<lambda>(g, s).
     if hasPending g then
       (case poll_device me env (g, s) of
          None \<Rightarrow> None
        | Some (g, s) \<Rightarrow>
            (case checkTimeouts fuel (clock env) g of
               None \<Rightarrow> None
             | Some (timedOut, g) \<Rightarrow>
                 (case flush_requests me (g, s) of
                    None \<Rightarrow> None
                  | Some (g, s) \<Rightarrow> Some (g, if timedOut then notifyWorker (m_workerCount s) s else s))))
     else Some (g, s))"

section \<open>Helping loops\<close>

text \<open>
  The predicate may act on the state, for instance drain the main thread. The list of environments
  bounds the passes; running out of it before the predicate holds is \<open>None\<close>.
\<close>

definition help_pass :: "nat \<Rightarrow> u32 \<Rightarrow> poll_env \<Rightarrow> 'u engine \<times> scheduler \<Rightarrow> ('u engine \<times> scheduler) option" where
  "help_pass fuel me env = (\<lambda>(g, s).
     case find_any me s of
       None \<Rightarrow> None
     | Some (Some n, s) \<Rightarrow> executeWithContinuation fuel me n (g, s)
     | Some (None, s) \<Rightarrow> pollTimelineFallback fuel me env (g, s))"

fun help_loop ::
  "nat \<Rightarrow> u32 \<Rightarrow> ('u engine \<times> scheduler \<Rightarrow> (bool \<times> 'u engine \<times> scheduler) option) \<Rightarrow> poll_env list
     \<Rightarrow> 'u engine \<times> scheduler \<Rightarrow> ('u engine \<times> scheduler) option" where
  "help_loop fuel me isDone envs st =
     (case isDone st of
        None \<Rightarrow> None
      | Some (True, st) \<Rightarrow> Some st
      | Some (False, st) \<Rightarrow>
          (case envs of
             [] \<Rightarrow> None
           | env # envs \<Rightarrow> (case help_pass fuel me env st of None \<Rightarrow> None | Some st \<Rightarrow> help_loop fuel me isDone envs st)))"

definition helpUntil ::
  "nat \<Rightarrow> u32 \<Rightarrow> ('u engine \<times> scheduler \<Rightarrow> (bool \<times> 'u engine \<times> scheduler) option) \<Rightarrow> poll_env list
     \<Rightarrow> 'u engine \<times> scheduler \<Rightarrow> (Status \<times> 'u engine \<times> scheduler) option" where
  "helpUntil fuel me isDone envs = (\<lambda>(g, s).
     let prevCanInline = t_canInlineTask g
     in case help_loop fuel me isDone envs (g\<lparr>t_canInlineTask := True\<rparr>, s) of
          None \<Rightarrow> None
        | Some (g, s) \<Rightarrow>
            Some (if hasTimeout g then GpuTimeout else Success, g\<lparr>t_canInlineTask := prevCanInline\<rparr>, s))"

definition resetWorkerArenas :: "scheduler \<Rightarrow> 'w block_pool \<Rightarrow> 'w memory \<Rightarrow> scheduler \<times> 'w block_pool \<times> 'w memory" where
  "resetWorkerArenas s p m =
     (let (ws, p, m) = fold (\<lambda>w (ws, p, m). let (a, p, m) = arena_reset (w_arena w) p m in (ws @ [w\<lparr>w_arena := a\<rparr>], p, m))
                            (m_workers s) ([], p, m)
      in (s\<lparr>m_workers := ws\<rparr>, p, m))"

definition currentWorkerArena :: "u32 \<Rightarrow> scheduler \<Rightarrow> slab_arena option" where
  "currentWorkerArena me s =
     (if me \<noteq> INVALID_WORKER_INDEX \<and> me < m_workerCount s then Some (w_arena (m_workers s ! unat me)) else None)"

text \<open>\<open>runAndWait\<close> on a counter, and on a graph: the reactor and the arenas are reset at the end.\<close>

definition graph_done :: "'u engine \<times> scheduler \<Rightarrow> (bool \<times> 'u engine \<times> scheduler) option" where
  "graph_done = (\<lambda>(g, s). Some (isCompleted g, g, s))"

definition wait_completed ::
  "nat \<Rightarrow> u32 \<Rightarrow> poll_env list \<Rightarrow> 'u engine \<times> scheduler \<Rightarrow> (Status \<times> 'u engine \<times> scheduler) option" where
  "wait_completed fuel me envs st = helpUntil fuel me graph_done envs st"

definition runAndWait ::
  "nat \<Rightarrow> u32 \<Rightarrow> int \<Rightarrow> poll_env list \<Rightarrow> 'u engine \<times> scheduler \<Rightarrow> 'w block_pool \<Rightarrow> 'w memory
     \<Rightarrow> (Status \<times> ('u engine \<times> scheduler) \<times> 'w block_pool \<times> 'w memory) option" where
  "runAndWait fuel me now envs = (\<lambda>(g, s) p m.
     let g = prepareRun now (resetTimeout g)
     in case flush_requests me (g, s) of
          None \<Rightarrow> None
        | Some st \<Rightarrow>
            (case helpUntil fuel me graph_done envs st of
               None \<Rightarrow> None
             | Some (status, g, s) \<Rightarrow>
                 let (s, p, m) = resetWorkerArenas s p m in Some (status, (reactor_reset g, s), p, m)))"

section \<open>Worker threads\<close>

datatype outcome = Executed | Parked u32 | Stopping

definition SPIN_COUNT :: nat where
  "SPIN_COUNT = 256"

fun spin_loop :: "nat \<Rightarrow> u32 \<Rightarrow> scheduler \<Rightarrow> (node_ptr \<times> scheduler) option" where
  "spin_loop 0 i s = Some (None, s)"
| "spin_loop (Suc k) i s =
     (case findWork i s of
        None \<Rightarrow> None
      | Some (Some n, s) \<Rightarrow> Some (Some n, s)
      | Some (None, s) \<Rightarrow> spin_loop k i s)"

definition with_work ::
  "(node_ptr \<times> scheduler) option \<Rightarrow> (node_id \<Rightarrow> scheduler \<Rightarrow> 'r option) \<Rightarrow> (scheduler \<Rightarrow> 'r option) \<Rightarrow> 'r option" where
  "with_work found some none =
     (case found of None \<Rightarrow> None | Some (Some n, s) \<Rightarrow> some n s | Some (None, s) \<Rightarrow> none s)"

definition worker_exec :: "nat \<Rightarrow> u32 \<Rightarrow> 'u engine \<Rightarrow> node_id \<Rightarrow> scheduler \<Rightarrow> (outcome \<times> 'u engine \<times> scheduler) option" where
  "worker_exec fuel i g n s = map_option (Pair Executed) (executeWithContinuation fuel i n (g, s))"

text \<open>The last part of a pass: announce the sleep, look once more, and park on the signal read before.\<close>

definition worker_park :: "nat \<Rightarrow> u32 \<Rightarrow> 'u engine \<Rightarrow> scheduler \<Rightarrow> (outcome \<times> 'u engine \<times> scheduler) option" where
  "worker_park fuel i g s =
     (let s = s\<lparr>m_sleepingCount := m_sleepingCount s + 1\<rparr>;
          currentSignal = m_wakeSignal s
      in if m_stop s then Some (Stopping, g, s\<lparr>m_sleepingCount := m_sleepingCount s - 1\<rparr>)
         else with_work (findWork i s)
                (\<lambda>n s. worker_exec fuel i g n (s\<lparr>m_sleepingCount := m_sleepingCount s - 1\<rparr>))
                (\<lambda>s. Some (Parked currentSignal, g, s)))"

definition worker_iteration ::
  "nat \<Rightarrow> u32 \<Rightarrow> poll_env \<Rightarrow> 'u engine \<times> scheduler \<Rightarrow> (outcome \<times> 'u engine \<times> scheduler) option" where
  "worker_iteration fuel i env = (\<lambda>(g, s).
     if m_stop s then Some (Stopping, g, s)
     else with_work (findWork i s) (worker_exec fuel i g)
       (\<lambda>s. with_work (spin_loop SPIN_COUNT i s) (worker_exec fuel i g)
         (\<lambda>s. case pollTimelineFallback fuel i env (g, s) of
                None \<Rightarrow> None
              | Some (g, s) \<Rightarrow> with_work (findWork i s) (worker_exec fuel i g) (worker_park fuel i g))))"

text \<open>A parked thread returns from the wait once the signal differs from the one it read.\<close>

definition wakes_from :: "u32 \<Rightarrow> scheduler \<Rightarrow> bool" where
  "wakes_from currentSignal s \<longleftrightarrow> m_wakeSignal s \<noteq> currentSignal"

definition worker_awake :: "scheduler \<Rightarrow> scheduler" where
  "worker_awake s = s\<lparr>m_sleepingCount := m_sleepingCount s - 1\<rparr>"

definition worker_start :: "'u engine \<Rightarrow> 'u engine" where
  "worker_start g = g\<lparr>t_canInlineTask := True\<rparr>"

text \<open>After the loop: the tasks left in the worker's own deque.\<close>

partial_function (option) worker_drain :: "nat \<Rightarrow> u32 \<Rightarrow> 'u engine \<times> scheduler \<Rightarrow> ('u engine \<times> scheduler) option" where
  "worker_drain fuel i st =
     (case dual_pop (worker_deque i (snd st)) of
        (None, d) \<Rightarrow> Some (fst st, set_deque i d (snd st))
      | (Some n, d) \<Rightarrow>
          (case executeWithContinuation fuel i n (fst st, set_deque i d (snd st)) of
             None \<Rightarrow> None
           | Some st \<Rightarrow> worker_drain fuel i st))"

text \<open>One pass of an IO thread, which is no worker; \<open>Executed\<close> also stands for trying again.\<close>

definition io_iteration :: "nat \<Rightarrow> 'u engine \<times> scheduler \<Rightarrow> (outcome \<times> 'u engine \<times> scheduler) option" where
  "io_iteration fuel = (\<lambda>(g, s).
     if m_stop s then Some (Stopping, g, s)
     else case tryDequeue (m_ioQueue s) of
            None \<Rightarrow> None
          | Some (Some n, q) \<Rightarrow> map_option (Pair Executed) (run_task fuel INVALID_WORKER_INDEX n (g, s\<lparr>m_ioQueue := q\<rparr>))
          | Some (None, q) \<Rightarrow>
              let s = s\<lparr>m_ioQueue := q\<rparr>; currentSignal = m_ioWakeSignal s
              in if m_stop s then Some (Stopping, g, s)
                 else if \<not> mpmc_empty (m_ioQueue s) then Some (Executed, g, s)
                 else Some (Parked currentSignal, g, s))"

partial_function (option) io_drain :: "nat \<Rightarrow> 'u engine \<times> scheduler \<Rightarrow> ('u engine \<times> scheduler) option" where
  "io_drain fuel st =
     (case tryDequeue (m_ioQueue (snd st)) of
        None \<Rightarrow> None
      | Some (None, q) \<Rightarrow> Some (fst st, (snd st)\<lparr>m_ioQueue := q\<rparr>)
      | Some (Some n, q) \<Rightarrow>
          (case run_task fuel INVALID_WORKER_INDEX n (fst st, (snd st)\<lparr>m_ioQueue := q\<rparr>) of
             None \<Rightarrow> None
           | Some st \<Rightarrow> io_drain fuel st))"

definition shutdown :: "scheduler \<Rightarrow> scheduler" where
  "shutdown s =
     (if m_stop s then s
      else s\<lparr>m_stop := True, m_wakeSignal := m_wakeSignal s + 1, wakes := wakes s @ [WakeAll],
             m_ioWakeSignal := m_ioWakeSignal s + 1, ioWakes := ioWakes s @ [WakeAll]\<rparr>)"

text \<open>What a caller can read.\<close>

definition mainThreadTaskCount :: "scheduler \<Rightarrow> usize" where
  "mainThreadTaskCount s = m_mainThreadCount s"

definition isShutdown :: "scheduler \<Rightarrow> bool" where
  "isShutdown s = m_stop s"

definition workerCount :: "scheduler \<Rightarrow> u32" where
  "workerCount s = m_workerCount s"

definition ioWorkerCount :: "scheduler \<Rightarrow> u32" where
  "ioWorkerCount s = m_ioWorkerCount s"

definition sleepingWorkerCount :: "scheduler \<Rightarrow> u32" where
  "sleepingWorkerCount s = m_sleepingCount s"

text \<open>The calling thread's index, from its two thread-local variables.\<close>

definition currentWorkerIndex :: "bool \<Rightarrow> u32 \<Rightarrow> u32" where
  "currentWorkerIndex t_currentScheduler_is_this t_workerIndex = (if t_currentScheduler_is_this then t_workerIndex else INVALID_WORKER_INDEX)"

definition isWorkerThread :: "bool \<Rightarrow> u32 \<Rightarrow> bool" where
  "isWorkerThread this idx \<longleftrightarrow> currentWorkerIndex this idx \<noteq> INVALID_WORKER_INDEX"

text \<open>\<open>snprintf(nameBuf, 32, "%.*s-%u", ...)\<close>: at most 31 characters; and the core of a worker.\<close>

fun decimal :: "nat \<Rightarrow> string" where
  "decimal n = (if n < 10 then [char_of (48 + n)] else decimal (n div 10) @ [char_of (48 + n mod 10)])"

declare decimal.simps [simp del]

definition thread_name :: "string \<Rightarrow> u32 \<Rightarrow> string" where
  "thread_name prefix i = take 31 (prefix @ ''-'' @ decimal (unat i))"

definition worker_core :: "scheduler_config \<Rightarrow> u32 \<Rightarrow> u32 option" where
  "worker_core cfg i =
     (if coreAffinity cfg = [] then None else Some (coreAffinity cfg ! (unat i mod length (coreAffinity cfg))))"

end
