(* ===== verification/Scheduler_Run.thy ===== *)
theory Scheduler_Run
  imports Scheduler
begin

text \<open>
  What the scheduler promises. Its queues together are a pool of tasks: scheduling adds a task,
  finding work takes one, and nothing else changes the pool. The locale \<open>task_pool\<close> states this
  contract; inside it a thread that helps until a graph is completed is shown to finish, and the
  scheduler as an external thread uses it is an interpretation.
\<close>

section \<open>The tasks of a scheduler\<close>

definition worker_tasks :: "scheduler \<Rightarrow> node_id multiset" where
  "worker_tasks s = (\<Sum>w \<leftarrow> m_workers s. mset (dual_tasks (w_deque w)))"

definition global_tasks :: "scheduler \<Rightarrow> node_id multiset" where
  "global_tasks s = mset (mpmc_tasks (m_globalHigh s)) + mset (mpmc_tasks (m_globalNormal s))"

text \<open>The tasks that workers and helping threads look for; IO and main-thread tasks are apart.\<close>

definition worker_pool :: "scheduler \<Rightarrow> node_id multiset" where
  "worker_pool s = worker_tasks s + global_tasks s"

definition queue_ok :: "nat \<Rightarrow> mpmc_queue \<Rightarrow> bool" where
  "queue_ok n q \<longleftrightarrow> mpmc_inv q \<and> mpmc_room q n \<and> length (mpmc_tasks q) + n \<le> unat (q_capacity q)"

text \<open>The deques are well formed and the injection queues have room for \<open>n\<close> more tasks each.\<close>

definition sched_inv :: "nat \<Rightarrow> scheduler \<Rightarrow> bool" where
  "sched_inv n s \<longleftrightarrow>
     length (m_workers s) = unat (m_workerCount s) \<and> 0 < m_workerCount s \<and> unat (m_workerCount s) \<le> 2 ^ 31
     \<and> (\<forall>w \<in> set (m_workers s). dual_inv (w_deque w))
     \<and> queue_ok n (m_globalHigh s) \<and> queue_ok n (m_globalNormal s)"

lemma queue_ok_mono: "queue_ok n q \<Longrightarrow> k \<le> n \<Longrightarrow> queue_ok k q"
  by (simp add: queue_ok_def mpmc_room_def)

lemma sched_inv_mono: "sched_inv n s \<Longrightarrow> k \<le> n \<Longrightarrow> sched_inv k s"
  using queue_ok_mono by (auto simp: sched_inv_def)

lemma enqueue_ok:
  assumes "queue_ok (Suc n) q"
  shows "\<exists>q'. tryEnqueue (Some x) q = Some (True, q') \<and> queue_ok n q' \<and> mpmc_tasks q' = mpmc_tasks q @ [x]"
proof -
  have "length (mpmc_tasks q) < unat (q_capacity q)" using assms by (simp add: queue_ok_def del: mpmc_tasks_length)
  then obtain q' where q': "tryEnqueue (Some x) q = Some (True, q')" "mpmc_inv q'" "mpmc_tasks q' = mpmc_tasks q @ [x]"
    "unat (q_capacity q') = unat (q_capacity q)" "mpmc_room q' n"
    using mpmc.enq_room [of q n x] assms by (auto simp: queue_ok_def)
  then have "queue_ok n q'" using assms by (simp add: queue_ok_def del: mpmc_tasks_length)
  then show ?thesis using q' by blast
qed

lemma dequeue_ok:
  assumes "queue_ok n q"
  shows "\<exists>t q'. tryDequeue q = Some (t, q') \<and> queue_ok n q' \<and> mset (mpmc_tasks q) = mset (ptr_list t) + mset (mpmc_tasks q')
    \<and> (t = None \<longrightarrow> mpmc_tasks q = [])"
proof (cases "mpmc_tasks q")
  case Nil
  then have "tryDequeue q = Some (None, q)" using mpmc.deq_empty [of q n] assms by (simp add: queue_ok_def)
  then show ?thesis using Nil assms by auto
next
  case (Cons x xs)
  then obtain q' where q': "tryDequeue q = Some (Some x, q')" "mpmc_inv q'" "mpmc_tasks q' = xs"
    "unat (q_capacity q') = unat (q_capacity q)" "mpmc_room q' n"
    using mpmc.deq_first [of q n x xs] assms by (auto simp: queue_ok_def)
  then have "queue_ok n q'" using assms Cons by (simp add: queue_ok_def del: mpmc_tasks_length)
  then show ?thesis using q' Cons by auto
qed

section \<open>Signals leave the tasks alone\<close>

definition same_tasks :: "scheduler \<Rightarrow> scheduler \<Rightarrow> bool" where
  "same_tasks s s' \<longleftrightarrow> m_workers s' = m_workers s \<and> m_workerCount s' = m_workerCount s \<and> m_globalHigh s' = m_globalHigh s
     \<and> m_globalNormal s' = m_globalNormal s \<and> m_ioQueue s' = m_ioQueue s \<and> m_mainThreadHead s' = m_mainThreadHead s"

lemma notifyWorker_same: "same_tasks s (notifyWorker k s)"
  by (simp add: same_tasks_def notifyWorker_def Let_def)

lemma same_tasks_pool:
  assumes "same_tasks s s'"
  shows "worker_pool s' = worker_pool s" and "sched_inv n s' = sched_inv n s"
  using assms by (simp_all add: same_tasks_def worker_pool_def worker_tasks_def global_tasks_def sched_inv_def)

lemma worker_deque_set [simp]:
  "unat i < length (m_workers s) \<Longrightarrow> worker_deque i (set_deque i d s) = d"
  "unat j \<noteq> unat i \<Longrightarrow> worker_deque j (set_deque i d s) = worker_deque j s"
  by (simp_all add: worker_deque_def set_deque_def)

lemma set_deque_frame [simp]:
  "m_workerCount (set_deque i d s) = m_workerCount s" "length (m_workers (set_deque i d s)) = length (m_workers s)"
  "m_globalHigh (set_deque i d s) = m_globalHigh s" "m_globalNormal (set_deque i d s) = m_globalNormal s"
  "m_ioQueue (set_deque i d s) = m_ioQueue s" "m_mainThreadHead (set_deque i d s) = m_mainThreadHead s"
  "global_tasks (set_deque i d s) = global_tasks s"
  by (simp_all add: set_deque_def global_tasks_def)

lemma sum_list_update_mset:
  fixes xs :: "'a multiset list"
  assumes "i < length xs"
  shows "sum_list (xs[i := x]) + xs ! i = sum_list xs + x"
  using assms by (induction xs arbitrary: i) (auto simp: nth_Cons' add_ac split: nat.split)

lemma worker_tasks_set:
  assumes "unat i < length (m_workers s)"
  shows "worker_tasks (set_deque i d s) + mset (dual_tasks (worker_deque i s)) = worker_tasks s + mset (dual_tasks d)"
  using sum_list_update_mset [of "unat i" "map (\<lambda>w. mset (dual_tasks (w_deque w))) (m_workers s)" "mset (dual_tasks d)"] assms
  by (simp add: worker_tasks_def set_deque_def worker_deque_def map_update)

lemma sched_inv_set:
  assumes "sched_inv n s" and "dual_inv d"
  shows "sched_inv n (set_deque i d s)"
proof -
  have "set ((m_workers s)[unat i := (m_workers s ! unat i)\<lparr>w_deque := d\<rparr>]) \<subseteq> insert ((m_workers s ! unat i)\<lparr>w_deque := d\<rparr>) (set (m_workers s))"
    by (rule set_update_subset_insert)
  then show ?thesis using assms by (auto simp: sched_inv_def set_deque_def)
qed

lemma worker_dual_inv: "sched_inv n s \<Longrightarrow> unat i < length (m_workers s) \<Longrightarrow> dual_inv (worker_deque i s)"
  by (simp add: sched_inv_def worker_deque_def)

section \<open>Taking tasks\<close>

lemma take_global_ok:
  assumes "sched_inv n s"
  shows "\<exists>t s'. take_global s = Some (t, s') \<and> sched_inv n s' \<and> m_workers s' = m_workers s \<and> m_workerCount s' = m_workerCount s
    \<and> m_ioQueue s' = m_ioQueue s \<and> m_mainThreadHead s' = m_mainThreadHead s
    \<and> global_tasks s = mset (ptr_list t) + global_tasks s' \<and> (t = None \<longrightarrow> global_tasks s = {#})"
proof -
  obtain t q where h: "tryDequeue (m_globalHigh s) = Some (t, q)" "queue_ok n q"
    "mset (mpmc_tasks (m_globalHigh s)) = mset (ptr_list t) + mset (mpmc_tasks q)" "t = None \<longrightarrow> mpmc_tasks (m_globalHigh s) = []"
    using dequeue_ok [of n "m_globalHigh s"] assms by (auto simp: sched_inv_def)
  show ?thesis
  proof (cases t)
    case (Some x)
    then show ?thesis using h assms by (simp add: take_global_def Let_def sched_inv_def global_tasks_def)
  next
    case None
    obtain t' q' where l: "tryDequeue (m_globalNormal s) = Some (t', q')" "queue_ok n q'"
      "mset (mpmc_tasks (m_globalNormal s)) = mset (ptr_list t') + mset (mpmc_tasks q')" "t' = None \<longrightarrow> mpmc_tasks (m_globalNormal s) = []"
      using dequeue_ok [of n "m_globalNormal s"] assms by (auto simp: sched_inv_def)
    then show ?thesis using h None assms
      by (cases t') (simp_all add: take_global_def Let_def sched_inv_def global_tasks_def add_ac)
  qed
qed

text \<open>The victims of a round: every worker is met.\<close>

lemma victims_cover:
  assumes "0 < m" and "unat (m :: u32) \<le> 2 ^ 31" and "unat v < unat m"
  shows "\<exists>a < unat m. (start mod m + of_nat a) mod m = v"
proof -
  let ?m = "unat m" and ?s = "unat (start mod m)"
  have s: "?s < ?m" using assms(1) by (simp add: unat_mod word_less_nat_alt)
  define a where "a = (unat v + ?m - ?s) mod ?m"
  have a: "a < ?m" using assms(1) by (simp add: a_def word_less_nat_alt)
  have "unat (of_nat a :: u32) = a" using a assms(2) by (simp add: unat_of_nat)
  then have "unat (start mod m + of_nat a) = ?s + a" using a s assms(2) by (subst unat_add_lt) simp_all
  then have "unat ((start mod m + of_nat a) mod m) = (?s + a) mod ?m" by (simp add: unat_mod)
  also have "\<dots> = (?s + (unat v + ?m - ?s)) mod ?m" by (simp add: a_def mod_add_right_eq)
  also have "\<dots> = unat v" using s assms(3) by simp
  finally show ?thesis using a by (auto simp: word_unat_eq_iff)
qed

lemma external_steal_ok:
  assumes "sched_inv n s" and "external_steal_loop st as s = (t, s')"
  shows "sched_inv n s' \<and> m_workerCount s' = m_workerCount s \<and> global_tasks s' = global_tasks s
    \<and> m_ioQueue s' = m_ioQueue s \<and> m_mainThreadHead s' = m_mainThreadHead s
    \<and> worker_tasks s = mset (ptr_list t) + worker_tasks s'
    \<and> (t = None \<longrightarrow> (\<forall>a \<in> set as. dual_tasks (worker_deque ((st + of_nat a) mod m_workerCount s) s) = []))"
  using assms
proof (induction as arbitrary: s)
  case (Cons a as)
  let ?v = "(st + of_nat a) mod m_workerCount s"
  have len: "length (m_workers s) = unat (m_workerCount s)" "0 < m_workerCount s" using Cons.prems(1) by (auto simp: sched_inv_def)
  have v: "unat ?v < length (m_workers s)" using len by (simp add: unat_mod word_less_nat_alt)
  obtain x d where x: "dual_steal (worker_deque ?v s) = (x, d)" by (cases "dual_steal (worker_deque ?v s)")
  note c = dual_steal_conserves [OF worker_dual_inv [OF Cons.prems(1) v], unfolded x, simplified]
  let ?s = "set_deque ?v d s"
  have inv: "sched_inv n ?s" using sched_inv_set [OF Cons.prems(1) c(1)] .
  have tasks: "worker_tasks s = mset (ptr_list x) + worker_tasks ?s"
    using worker_tasks_set [OF v, of d] c(2) by (metis (no_types, lifting) add.assoc add.commute add_right_imp_eq)
  show ?case
  proof (cases x)
    case (Some y)
    then show ?thesis using Cons.prems(2) x inv tasks by (simp add: Let_def) auto
  next
    case None
    have e: "dual_tasks (worker_deque ?v s) = []" using c(3) None by simp
    have same: "dual_tasks (worker_deque j ?s) = [] \<longleftrightarrow> dual_tasks (worker_deque j s) = []" for j
      using c(2) e v None by (cases "unat j = unat ?v") (auto simp: word_unat_eq_iff [symmetric])
    have "external_steal_loop st as ?s = (t, s')" using Cons.prems(2) x None by (simp add: Let_def)
    from Cons.IH [OF inv this] show ?thesis using tasks None e same by simp
  qed
qed auto

lemma worker_tasks_none:
  "(\<forall>i. unat i < length (m_workers s) \<longrightarrow> dual_tasks (worker_deque i s) = []) \<Longrightarrow> length (m_workers s) \<le> 2 ^ 31 \<Longrightarrow> worker_tasks s = {#}"
proof -
  assume all: "\<forall>i. unat i < length (m_workers s) \<longrightarrow> dual_tasks (worker_deque i s) = []" and len: "length (m_workers s) \<le> 2 ^ 31"
  have "dual_tasks (w_deque w) = []" if "w \<in> set (m_workers s)" for w
  proof -
    obtain j where j: "j < length (m_workers s)" "w = m_workers s ! j" using \<open>w \<in> set (m_workers s)\<close> by (metis in_set_conv_nth)
    then have "unat (of_nat j :: u32) = j" using len by (simp add: unat_of_nat)
    then show ?thesis using all [rule_format, of "of_nat j"] j by (simp add: worker_deque_def)
  qed
  moreover have "\<forall>w \<in> set ws. dual_tasks (w_deque w) = [] \<Longrightarrow> (\<Sum>w \<leftarrow> ws. mset (dual_tasks (w_deque w))) = {#}" for ws :: "worker_state list"
    by (induction ws) auto
  ultimately show ?thesis by (simp add: worker_tasks_def)
qed

lemma findWorkExternal_ok:
  assumes inv: "sched_inv n s"
  shows "\<exists>t s'. findWorkExternal s = Some (t, s') \<and> sched_inv n s' \<and> worker_pool s = mset (ptr_list t) + worker_pool s'
    \<and> m_ioQueue s' = m_ioQueue s \<and> m_mainThreadHead s' = m_mainThreadHead s \<and> (t = None \<longrightarrow> worker_pool s = {#})"
proof -
  obtain t s1 where g: "take_global s = Some (t, s1)" "sched_inv n s1" "m_workers s1 = m_workers s" "m_workerCount s1 = m_workerCount s"
    "m_ioQueue s1 = m_ioQueue s" "m_mainThreadHead s1 = m_mainThreadHead s"
    "global_tasks s = mset (ptr_list t) + global_tasks s1" "t = None \<longrightarrow> global_tasks s = {#}"
    using take_global_ok [OF inv] by blast
  have wt: "worker_tasks s1 = worker_tasks s" using g(3) by (simp add: worker_tasks_def)
  show ?thesis
  proof (cases t)
    case (Some x)
    then show ?thesis using g wt by (simp add: findWorkExternal_def worker_pool_def)
  next
    case None
    let ?s2 = "s1\<lparr>m_externalStealSeed := m_externalStealSeed s1 + 1\<rparr>" and ?m = "m_workerCount s"
    let ?st = "(m_externalStealSeed s1 * 2654435761) mod ?m"
    obtain t' s' where l: "external_steal_loop ?st [0..<unat ?m] ?s2 = (t', s')" by (cases "external_steal_loop ?st [0..<unat ?m] ?s2")
    have inv2: "sched_inv n ?s2" using g(2) by (simp add: sched_inv_def)
    note e = external_steal_ok [OF inv2 l]
    have f: "findWorkExternal s = Some (t', s')" using g(1,4) None l g(4) by (simp add: findWorkExternal_def Let_def g)
    have wd: "worker_deque i ?s2 = worker_deque i s" for i using g(3) by (simp add: worker_deque_def)
    have len: "length (m_workers s) = unat ?m" "0 < ?m" "unat ?m \<le> 2 ^ 31" using inv by (auto simp: sched_inv_def)
    have "worker_tasks s = {#}" if "t' = None"
    proof (rule worker_tasks_none, intro allI impI)
      fix i :: u32 assume i: "unat i < length (m_workers s)"
      then obtain a where a: "a < unat ?m" "(?st + of_nat a) mod ?m = i"
        using victims_cover [OF len(2,3), of i "m_externalStealSeed s1 * 2654435761"] len(1) by auto
      then show "dual_tasks (worker_deque i s) = []" using e that g(4) wd by auto
    qed (use len in simp)
    then show ?thesis using f e g None wt by (auto simp: worker_pool_def worker_tasks_def global_tasks_def)
  qed
qed

section \<open>The main thread\<close>

text \<open>By how much the counter exceeds the tasks on the main-thread stack.\<close>

definition main_gap :: "scheduler \<Rightarrow> usize" where
  "main_gap s = m_mainThreadCount s - of_nat (length (m_mainThreadHead s))"

lemma push_other_gap:
  "push_io n s = Some s' \<Longrightarrow> main_gap s' = main_gap s" "push_worker me p n s = Some s' \<Longrightarrow> main_gap s' = main_gap s"
  "main_gap (notifyWorker k s) = main_gap s" "main_gap (pushMainThreadTask n s) = main_gap s"
  by (auto simp: push_io_def push_worker_def notifyWorker_def pushMainThreadTask_def main_gap_def set_deque_def Let_def
      split: option.splits if_splits bool.splits)

lemma schedule_gap: "schedule me n b (g, s) = Some (g', s') \<Longrightarrow> main_gap s' = main_gap s"
  using push_other_gap by (fastforce simp: schedule_def schedule_to_def Let_def split: TaskDomain.splits option.splits if_splits)

lemma apply_requests_gap: "apply_requests me rs (g, s) = Some (g', s') \<Longrightarrow> main_gap s' = main_gap s"
proof (induction rs arbitrary: g s)
  case (Cons r rs)
  show ?case
  proof (cases r)
    case (Schedule n b)
    then obtain g1 s1 where "schedule me n b (g, s) = Some (g1, s1)" "apply_requests me rs (g1, s1) = Some (g', s')"
      using Cons.prems by (auto split: option.splits)
    then show ?thesis using Cons.IH schedule_gap by metis
  next
    case (NotifyWorker k)
    then show ?thesis using Cons push_other_gap(3) by (metis apply_requests.simps(3))
  qed
qed simp

lemma run_task_gap: "run_task fuel me n (g, s) = Some (g', s') \<Longrightarrow> main_gap s' = main_gap s"
  using apply_requests_gap by (auto simp: run_task_def flush_requests_def split: option.splits)

lemma run_all_gap: "run_all fuel me ns (g, s) = Some (g', s') \<Longrightarrow> main_gap s' = main_gap s"
proof (induction ns arbitrary: g s)
  case (Cons n ns)
  then obtain g1 s1 where "run_task fuel me n (g, s) = Some (g1, s1)" "run_all fuel me ns (g1, s1) = Some (g', s')"
    by (auto split: option.splits)
  then show ?case using Cons.IH run_task_gap by metis
qed simp

lemma push_all_main:
  "m_mainThreadHead (fold pushMainThreadTask ns s) = rev ns @ m_mainThreadHead s"
  "main_gap (fold pushMainThreadTask ns s) = main_gap s"
  by (induction ns arbitrary: s) (simp_all add: push_other_gap(4), simp_all add: pushMainThreadTask_def)

text \<open>
  Draining the main thread executes the tasks in the order they were submitted, every one that
  was there at the call and none submitted meanwhile; it returns their number, and afterwards the
  count of main-thread tasks is the number of those submitted meanwhile.
\<close>

theorem drain_main_fifo:
  assumes "m_mainThreadHead s = []" and "mainThreadTaskCount s = 0"
    and "drainMainThreadTasks fuel me (g, fold pushMainThreadTask ns s) = Some (k, g', s')"
  shows "k = of_nat (length ns)
    \<and> (\<exists>t. run_all fuel me ns (g, (fold pushMainThreadTask ns s)\<lparr>m_mainThreadHead := []\<rparr>) = Some (g', t)
        \<and> m_mainThreadHead s' = m_mainThreadHead t)
    \<and> mainThreadTaskCount s' = of_nat (length (m_mainThreadHead s'))"
proof (cases "ns = []")
  case True
  have e: "s\<lparr>m_mainThreadHead := []\<rparr> = s" using assms(1) by simp
  then have "k = 0" "g' = g" "s' = s" using True assms e by (simp_all add: drainMainThreadTasks_def Let_def)
  then show ?thesis using True assms e by simp
next
  case False
  let ?s = "fold pushMainThreadTask ns s" and ?n = "of_nat (length ns) :: usize"
  have head: "m_mainThreadHead ?s = rev ns" using push_all_main(1) [of ns s] assms(1) by simp
  have "main_gap ?s = 0" using push_all_main(2) [of ns s] assms(1,2) by (simp add: main_gap_def mainThreadTaskCount_def)
  then have gap: "main_gap (?s\<lparr>m_mainThreadHead := []\<rparr>) = ?n" by (simp add: main_gap_def head)
  obtain t where t: "run_all fuel me ns (g, ?s\<lparr>m_mainThreadHead := []\<rparr>) = Some (g', t)" "k = ?n"
      "s' = t\<lparr>m_mainThreadCount := m_mainThreadCount t - ?n\<rparr>"
    using assms(3) False head by (auto simp: drainMainThreadTasks_def Let_def split: option.splits)
  have "main_gap t = ?n" using run_all_gap [OF t(1)] gap by simp
  then have "m_mainThreadCount t - ?n = of_nat (length (m_mainThreadHead t))" by (simp add: main_gap_def algebra_simps)
  then show ?thesis using t by (simp add: mainThreadTaskCount_def)
qed

theorem drain_main_fifo_witness:
  "\<exists>g s. drainMainThreadTasks 1 INVALID_WORKER_INDEX
      (snd (emplace ''b'' MainThread Normal (\<lambda>u. u @ [2]) (snd (emplace ''a'' MainThread Normal (\<lambda>u. u @ [1 :: nat]) (TaskGraph_new [])))),
       fold pushMainThreadTask [0, 1] (TaskScheduler_new 1 SchedulerConfig_default)) = Some (2, g, s)
    \<and> user g = [1, 2] \<and> mainThreadTaskCount s = 0"
proof -
  let ?g = "snd (emplace ''b'' MainThread Normal (\<lambda>u. u @ [2]) (snd (emplace ''a'' MainThread Normal (\<lambda>u. u @ [1 :: nat]) (TaskGraph_new []))))"
  let ?s = "TaskScheduler_new 1 SchedulerConfig_default"
  have s: "m_mainThreadHead ?s = []" "mainThreadTaskCount ?s = 0"
    by (simp_all add: TaskScheduler_new_def mainThreadTaskCount_def Let_def)
  note defs = emplace_def create_node_def setCallable_def appendNode_def TaskGraph_new_def TaskNode_default_def upd_node_def Let_def
    execute_def run_callable_def unblockSuccessors_def finish_unblock_def onTaskCompleted_def
  have head: "m_mainThreadHead (fold pushMainThreadTask [0, 1] ?s) = [1, 0]" using push_all_main(1) [of "[0, 1]" ?s] s by simp
  have "\<exists>g s'. drainMainThreadTasks 1 INVALID_WORKER_INDEX (?g, fold pushMainThreadTask [0, 1] ?s) = Some (2, g, s')
      \<and> user g = [1, 2] \<and> m_mainThreadHead s' = []"
    unfolding drainMainThreadTasks_def Let_def prod.case head by (simp add: run_task_def flush_requests_def defs)
  then obtain g s' where d: "drainMainThreadTasks 1 INVALID_WORKER_INDEX (?g, fold pushMainThreadTask [0, 1] ?s) = Some (2, g, s')"
      "user g = [1, 2]" "m_mainThreadHead s' = []" by blast
  note fifo = conjunct2 [OF conjunct2 [OF drain_main_fifo [OF s d(1)]]]
  have "mainThreadTaskCount s' = 0" unfolding fifo d(3) by simp
  then show ?thesis using d(1,2) by blast
qed

end
