(* ===== verification/Scheduler_Help.thy ===== *)
theory Scheduler_Help
  imports Scheduler_Run
begin

text \<open>
  A thread that helps until a graph is completed. The locale \<open>helping_thread\<close> is the contract between
  the graph and the scheduler: what the thread pushes and finds, and the invariant that leaves room
  for \<open>k\<close> more tasks. Inside it, everything the thread executes is a run of the graph in the sense of
  the graph theory, and the run ends. An external thread and a worker are its two interpretations.
\<close>

section \<open>The engine a thread works on\<close>

definition slot :: "'u engine \<Rightarrow> node_id multiset" where
  "slot g = mset (ptr_list (t_nextInlineTask g))"

lemma released_slot: "released g = mset (scheduled_of (requests g)) + slot g"
  by (cases "t_nextInlineTask g") (simp_all add: released_def slot_def)

text \<open>
  The thread's engine \<open>h\<close> stands at the end \<open>g\<close> of a run of the graph: they agree up to the request
  list, which is flushed, and the slot, and what the run has scheduled is in the pool or in the slot.
\<close>

definition on_run ::
  "nat \<Rightarrow> (node_id \<Rightarrow> successor_edge list) \<Rightarrow> node_id set \<Rightarrow> 'u engine \<Rightarrow> node_id list \<Rightarrow> node_id set \<Rightarrow> 'u engine
     \<Rightarrow> node_id multiset \<Rightarrow> scheduler \<Rightarrow> bool" where
  "on_run fuel es V g0 tr D h R s \<longleftrightarrow>
     (\<exists>g. graph_run fuel g0 (released g0) tr g R \<and> run_state es V tr D g R \<and> same_types g0 g
        \<and> begin_execute True h = begin_execute True g)
     \<and> requests h = [] \<and> t_canInlineTask h \<and> \<not> r_hasTimeout h \<and> R = worker_pool s + slot h"

lemma on_runD:
  assumes "on_run fuel es V g0 tr D h R s"
  shows "run_inv es V R 0 D [] (begin_execute True h)" and "requests h = []" and "t_canInlineTask h"
    and "\<not> r_hasTimeout h" and "R = worker_pool s + slot h"
  using assms run_state_invD(1) by (auto simp: on_run_def)

lemma on_run_begin: "on_run fuel es V g0 tr D h R s \<Longrightarrow> h\<lparr>t_nextInlineTask := None\<rparr> = begin_execute True h"
  by (auto simp: on_run_def begin_execute_def)

text \<open>How many tasks may still be scheduled.\<close>

definition budget :: "node_id set \<Rightarrow> node_id set \<Rightarrow> node_id multiset \<Rightarrow> nat" where
  "budget V D R = card (V - D - set_mset R)"

lemma budget_step:
  assumes st: "run_state es V tr D g R" and st': "run_state es V tr' D' g' (R - {#n#} + Q)" and "insert n D \<subseteq> D'"
  shows "budget V D' (R - {#n#} + Q) + size Q \<le> budget V D R"
proof -
  have fin: "finite V" using st by (simp add: run_state_def run_inv_def)
  note new = scheduled_node(1,2,3) [OF st']
  have q: "x \<in> V" "x \<notin> D'" "count (R - {#n#}) x = 0" "count Q x = 1" if "x \<in># Q" for x
  proof -
    have x: "x \<in># R - {#n#} + Q" using that by simp
    show "x \<in> V" "x \<notin> D'" using new(1,2) [OF x] by auto
    have "count (R - {#n#}) x + count Q x = 1" using new(3) [OF x] by (simp only: count_union)
    moreover have "0 < count Q x" using that by simp
    ultimately show "count (R - {#n#}) x = 0" "count Q x = 1" by linarith+
  qed
  have notR: "x \<notin># R" if "x \<in># Q" for x
  proof -
    have "x \<noteq> n" using q(2) [OF that] assms(3) by auto
    then show ?thesis using q(3) [OF that] by (simp add: count_eq_zero_iff [symmetric])
  qed
  have "size Q = card (set_mset Q)" unfolding size_multiset_overloaded_eq using q(4) by simp
  moreover have "card (V - D' - set_mset (R - {#n#} + Q)) + card (set_mset Q) = card ((V - D' - set_mset (R - {#n#} + Q)) \<union> set_mset Q)"
    using fin by (subst card_Un_disjoint) auto
  moreover have "(V - D' - set_mset (R - {#n#} + Q)) \<union> set_mset Q \<subseteq> V - D - set_mset R"
  proof -
    have "x \<notin># R" if "x \<in> V - D'" "x \<notin># R - {#n#} + Q" for x
      using that assms(3) by (cases "x = n") (auto simp: count_eq_zero_iff [symmetric])
    then show ?thesis using q(1,2) notR assms(3) by auto
  qed
  ultimately show ?thesis unfolding budget_def using fin by (metis card_mono finite_Diff)
qed

text \<open>Resetting the workers' arenas keeps the tasks.\<close>

lemma resetWorkerArenas_pool:
  fixes p :: "'w block_pool" and m :: "'w memory"
  shows "worker_pool (fst (resetWorkerArenas s p m)) = worker_pool s"
proof -
  define step where "step = (\<lambda>(w :: worker_state) (ws, p :: 'w block_pool, m :: 'w memory).
    let (a, p, m) = arena_reset (w_arena w) p m in (ws @ [w\<lparr>w_arena := a\<rparr>], p, m))"
  have "map w_deque (fst (fold step us (ws, p, m))) = map w_deque ws @ map w_deque us"
    for us ws p m
  proof (induction us arbitrary: ws p m)
    case (Cons u us)
    obtain a p1 m1 where "arena_reset (w_arena u) p m = (a, p1, m1)" by (cases "arena_reset (w_arena u) p m")
    then show ?case using Cons [of "ws @ [u\<lparr>w_arena := a\<rparr>]" p1 m1] by (simp add: step_def)
  qed simp
  from this [of "m_workers s" "[]" p m] have m: "map w_deque (fst (fold step (m_workers s) ([], p, m))) = map w_deque (m_workers s)" by simp
  have r: "fst (resetWorkerArenas s p m) = s\<lparr>m_workers := fst (fold step (m_workers s) ([], p, m))\<rparr>"
    unfolding resetWorkerArenas_def step_def [symmetric] by (simp add: split_beta)
  have w: "worker_tasks s = sum_list (map (\<lambda>d. mset (dual_tasks d)) (map w_deque (m_workers s)))" for s
    by (simp add: worker_tasks_def comp_def)
  show ?thesis using m by (simp add: worker_pool_def global_tasks_def w r del: map_map)
qed

text \<open>Every node was executed once, its callable seeing the state its predecessors left.\<close>

definition ran_in_order :: "'u engine \<Rightarrow> 'u engine \<Rightarrow> bool" where
  "ran_in_order g g' \<longleftrightarrow>
     (\<forall>v \<in> graph_nodes g. node_state (nodes g' v) = Completed)
     \<and> (\<exists>tr. mset tr = mset (m_nodeList g) \<and> user g' = fold (\<lambda>n. run_fn (executeFn (nodes g n))) tr (user g)
          \<and> (\<forall>tr1 n tr2 v. tr = tr1 @ n # tr2 \<longrightarrow> v \<in> graph_nodes g \<longrightarrow> n \<in> set (targets (graph_edges g v)) \<longrightarrow> v \<in> set tr1))"

section \<open>The contract\<close>

locale helping_thread =
  fixes me :: u32 and inv :: "nat \<Rightarrow> scheduler \<Rightarrow> bool"
  assumes inv_mono: "inv k s \<Longrightarrow> j \<le> k \<Longrightarrow> inv j s"
    and put: "inv (Suc k) s \<Longrightarrow>
      \<exists>s'. push_worker me p n s = Some s' \<and> inv k s' \<and> worker_pool s' = add_mset n (worker_pool s)"
    and take: "inv k s \<Longrightarrow>
      \<exists>t s'. find_any me s = Some (t, s') \<and> inv k s' \<and> worker_pool s = mset (ptr_list t) + worker_pool s'
        \<and> (t = None \<longrightarrow> worker_pool s = {#})"
    and wake: "inv k s \<Longrightarrow> inv k (notifyWorker c s)"
begin

lemma schedule_ok:
  assumes "inv (Suc k) s" and "domain (nodes g n) = Worker"
  shows "\<exists>s'. schedule me n b (g, s) = Some (g, s') \<and> inv k s' \<and> worker_pool s' = add_mset n (worker_pool s)"
proof -
  obtain s' where s': "push_worker me (priority (nodes g n)) n s = Some s'" "inv k s'" "worker_pool s' = add_mset n (worker_pool s)"
    using put [OF assms(1)] by blast
  have same: "upd_node n (\<lambda>x. x\<lparr>domain := domain (nodes g n)\<rparr>) g = g" by (simp add: upd_node_def)
  have "worker_pool (notifyWorker 1 s') = worker_pool s'" by (rule same_tasks_pool(1) [OF notifyWorker_same])
  then show ?thesis using s' wake [OF s'(2)] assms(2) same by (auto simp: schedule_def schedule_to_def Let_def)
qed

lemma apply_ok:
  assumes "inv (length (scheduled_of rs) + k) s" and "\<forall>n \<in> set (scheduled_of rs). domain (nodes g n) = Worker"
  shows "\<exists>s'. apply_requests me rs (g, s) = Some (g, s') \<and> inv k s' \<and> worker_pool s' = worker_pool s + mset (scheduled_of rs)"
  using assms
proof (induction rs arbitrary: s rule: scheduled_of.induct)
  case (2 n b rs)
  obtain s' where s': "schedule me n b (g, s) = Some (g, s')" "inv (length (scheduled_of rs) + k) s'"
      "worker_pool s' = add_mset n (worker_pool s)"
    using schedule_ok [of "length (scheduled_of rs) + k" s g n b] "2.prems" by auto
  then show ?case using "2.IH" [OF s'(2)] "2.prems"(2) by auto
next
  case (3 c rs)
  have "inv (length (scheduled_of rs) + k) (notifyWorker c s)" using wake "3.prems"(1) by simp
  from "3.IH" [OF this] "3.prems"(2) show ?case by (simp add: same_tasks_pool(1) [OF notifyWorker_same])
qed simp

text \<open>One execution and the requests it makes.\<close>

lemma run_task_ok:
  assumes on: "on_run fuel es V g0 tr D h R s" and n: "t_nextInlineTask h = Some n" and fuel: "edge_count es V \<le> fuel"
    and inv: "inv (budget V D R) s" and dom: "\<forall>v \<in> V. domain (nodes g0 v) = Worker"
  shows "\<exists>D' h' R' s'. run_task fuel me n (h\<lparr>t_nextInlineTask := None\<rparr>, s) = Some (h', s')
    \<and> on_run fuel es V g0 (tr @ [n]) D' h' R' s' \<and> inv (budget V D' R') s' \<and> insert n D \<subseteq> D'"
proof -
  obtain g where g: "graph_run fuel g0 (released g0) tr g R" "run_state es V tr D g R" "same_types g0 g"
    "begin_execute True h = begin_execute True g" using on by (auto simp: on_run_def)
  have nR: "n \<in># R" and pool: "R - {#n#} = worker_pool s" using on n by (auto simp: on_run_def slot_def)
  obtain D' g' where ex: "execute fuel n (begin_execute True g) = Some g'"
      and st: "run_state es V (tr @ [n]) D' g' (R - {#n#} + released g')" and D': "insert n D \<subseteq> D'"
    using run_step_state [OF g(2) nR fuel, of True] by blast
  have run: "graph_run fuel g0 (released g0) (tr @ [n]) g' (R - {#n#} + released g')"
    by (rule graph_run.run_next [OF g(1) nR ex])
  have types: "same_types g0 g'" using g(3) execute_types [OF ex] by (simp add: same_types_def)
  have set1: "t_canInlineTask g'" "\<not> r_hasTimeout g'"
    using execute_settings [OF ex] arg_cong [OF g(4), of r_hasTimeout] on_runD(4) [OF on] by (simp_all add: begin_execute_def)
  let ?rs = "requests g'" and ?h = "g'\<lparr>requests := []\<rparr>" and ?R = "R - {#n#} + released g'"
  have "budget V D' ?R + length (scheduled_of ?rs) \<le> budget V D R"
    using budget_step [OF g(2) st D'] by (simp add: released_slot)
  then have "inv (length (scheduled_of ?rs) + budget V D' ?R) s" using inv_mono [OF inv] by (simp add: add.commute)
  moreover have "\<forall>m \<in> set (scheduled_of ?rs). domain (nodes ?h m) = Worker"
    using scheduled_node(1) [OF st] types dom by (auto simp: same_types_def released_slot)
  ultimately obtain s' where s': "apply_requests me ?rs (?h, s) = Some (?h, s')" "inv (budget V D' ?R) s'"
      "worker_pool s' = worker_pool s + mset (scheduled_of ?rs)" using apply_ok by blast
  have "run_task fuel me n (h\<lparr>t_nextInlineTask := None\<rparr>, s) = Some (?h, s')"
    using ex s'(1) g(4) by (simp add: run_task_def flush_requests_def on_run_begin [OF on])
  moreover have "on_run fuel es V g0 (tr @ [n]) D' ?h ?R s'"
    unfolding on_run_def using run st types set1 s'(3) pool
    by (auto simp: begin_execute_def released_slot slot_def intro!: exI [of _ g'])
  ultimately show ?thesis using s'(2) D' by blast
qed

text \<open>The chain of continuations after it ends.\<close>

lemma continuations_ok:
  assumes "on_run fuel es V g0 tr D h R s" and "edge_count es V \<le> fuel"
    and "inv (budget V D R) s" and "\<forall>v \<in> V. domain (nodes g0 v) = Worker"
  shows "\<exists>tr' D' h' R' s'. run_continuations fuel me (h, s) = Some (h', s') \<and> on_run fuel es V g0 tr' D' h' R' s'
    \<and> inv (budget V D' R') s' \<and> t_nextInlineTask h' = None \<and> D \<subseteq> D' \<and> set_option (t_nextInlineTask h) \<subseteq> D'"
  using assms
proof (induction "card (V - D)" arbitrary: tr D h R s rule: less_induct)
  case less
  show ?case
  proof (cases "t_nextInlineTask h")
    case None
    then have "run_continuations fuel me (h, s) = Some (h, s)" by (subst run_continuations.simps) simp
    then show ?thesis using less.prems None by auto
  next
    case (Some n)
    obtain D1 h1 R1 s1 where r: "run_task fuel me n (h\<lparr>t_nextInlineTask := None\<rparr>, s) = Some (h1, s1)"
        "on_run fuel es V g0 (tr @ [n]) D1 h1 R1 s1" "inv (budget V D1 R1) s1" "insert n D \<subseteq> D1"
      using run_task_ok [OF less.prems(1) Some less.prems(2-4)] by blast
    have "n \<in># R" using on_runD(5) [OF less.prems(1)] Some by (simp add: slot_def)
    then have "n \<in> V - D" using less.prems(1) scheduled_node(1,2) by (fastforce simp: on_run_def)
    then have "card (V - D1) < card (V - D)"
      using r(4) run_invD(1) [OF on_runD(1) [OF less.prems(1)]] by (intro psubset_card_mono) auto
    from less.hyps [OF this r(2) less.prems(2) r(3) less.prems(4)]
    obtain tr' D' h' R' s' where "run_continuations fuel me (h1, s1) = Some (h', s')" "on_run fuel es V g0 tr' D' h' R' s'"
        "inv (budget V D' R') s'" "t_nextInlineTask h' = None" "D1 \<subseteq> D'" by blast
    moreover have "run_continuations fuel me (h, s) = run_continuations fuel me (h1, s1)"
      by (subst run_continuations.simps) (simp add: Some r(1))
    ultimately show ?thesis using r(4) Some by (intro exI conjI) auto
  qed
qed

text \<open>The helping loop: one pass per task found, at most one per node.\<close>

lemma help_loop_ok:
  assumes "on_run fuel es V g0 tr D h R s" and "t_nextInlineTask h = None" and fuel: "edge_count es V \<le> fuel"
    and "inv (budget V D R) s" and dom: "\<forall>v \<in> V. domain (nodes g0 v) = Worker" and small: "card V < 2 ^ 32"
    and rank: "\<forall>v \<in> V. \<forall>t \<in> set (targets (es v)). (rank v :: nat) < rank t"
    and "card (V - D) \<le> length envs"
  shows "\<exists>tr' h' s'. help_loop fuel me graph_done envs (h, s) = Some (h', s') \<and> on_run fuel es V g0 tr' V h' {#} s'
    \<and> t_nextInlineTask h' = None \<and> inv 0 s'"
  using assms(1,2,4,8)
proof (induction envs arbitrary: tr D h R s)
  case Nil
  note d = on_runD [OF Nil.prems(1)]
  note i = run_invD [OF d(1)]
  have "finite (V - D)" using i(1) by simp
  then have "D = V" using Nil.prems(4) i(3) by auto
  moreover from this have "R = {#}" using Nil.prems(1) scheduled_node(1,2) by (metis multiset_nonemptyE on_run_def)
  ultimately show ?case
    using Nil.prems completed_iff_settled [OF d(1) small] inv_mono [OF Nil.prems(3)]
    by (auto simp: graph_done_def isCompleted_def begin_execute_def)
next
  case (Cons env envs)
  note d = on_runD [OF Cons.prems(1)]
  note i = run_invD [OF d(1)]
  have comp: "isCompleted h \<longleftrightarrow> D = V"
    using completed_iff_settled [OF d(1) small] by (simp add: isCompleted_def begin_execute_def)
  show ?case
  proof (cases "D = V")
    case True
    moreover from this have "R = {#}" using Cons.prems(1) scheduled_node(1,2) by (metis multiset_nonemptyE on_run_def)
    ultimately show ?thesis
      using Cons.prems comp inv_mono [OF Cons.prems(3)] by (auto simp: graph_done_def)
  next
    case False
    have "R \<noteq> {#}"
    proof
      assume "R = {#}"
      then have "run_inv es V {#} 0 D [] (begin_execute True h)" using d(1) by simp
      then have "D = V" by (rule quiescent_settled [OF _ _ rank]) (simp add: begin_execute_def released_def)
      then show False using False by simp
    qed
    then have pool: "worker_pool s \<noteq> {#}" "R = worker_pool s" using d(5) Cons.prems(2) by (auto simp: slot_def)
    then obtain n s1 where f: "find_any me s = Some (Some n, s1)" "inv (budget V D R) s1"
        "worker_pool s = add_mset n (worker_pool s1)"
      using take [OF Cons.prems(3)] by (fastforce split: option.splits)
    let ?h = "h\<lparr>t_nextInlineTask := Some n\<rparr>"
    have "on_run fuel es V g0 tr D ?h R s1" using Cons.prems(1) f(3) pool(2) by (auto simp: on_run_def begin_execute_def slot_def)
    from continuations_ok [OF this fuel f(2) dom]
    obtain tr' D' h' R' s' where c: "run_continuations fuel me (?h, s1) = Some (h', s')" "on_run fuel es V g0 tr' D' h' R' s'"
        "inv (budget V D' R') s'" "t_nextInlineTask h' = None" "D \<subseteq> D'" "n \<in> D'" by auto
    have same: "h\<lparr>t_nextInlineTask := None\<rparr> = h" using Cons.prems(2) by simp
    have "run_continuations fuel me (?h, s1) = executeWithContinuation fuel me n (h, s1)"
      using same by (subst run_continuations.simps) (simp add: executeWithContinuation_def)
    then have pass: "help_pass fuel me env (h, s) = Some (h', s')" using f(1) c(1) by (simp add: help_pass_def)
    have "n \<in> V - D" using Cons.prems(1) f(3) pool(2) scheduled_node(1,2) by (fastforce simp: on_run_def)
    then have "card (V - D') < card (V - D)" using c(5,6) i(1) by (intro psubset_card_mono) auto
    then have "card (V - D') \<le> length envs" using Cons.prems(4) by simp
    from Cons.IH [OF c(2,4,3) this] show ?thesis using pass comp False by (simp add: graph_done_def)
  qed
qed

text \<open>Preparing a graph and helping until it is completed.\<close>

lemma prepared_on_run:
  assumes ok: "dag_ok g" and dom: "\<forall>v \<in> graph_nodes g. domain (nodes g v) = Worker"
    and inv: "inv (length (m_nodeList g)) s" and pool: "worker_pool s = {#}" and to: "\<not> r_hasTimeout g"
  shows "\<exists>h s'. flush_requests me (prepareRun now g, s) = Some (h, s') \<and> t_nextInlineTask h = None
    \<and> h = (prepareRun now g)\<lparr>requests := []\<rparr>
    \<and> inv (budget (graph_nodes g) {} (released (prepareRun now g))) s'
    \<and> on_run fuel (graph_edges g) (graph_nodes g) (prepareRun now g) [] {} (h\<lparr>t_canInlineTask := True\<rparr>)
        (released (prepareRun now g)) s'"
proof -
  let ?p = "prepareRun now g" and ?V = "graph_nodes g" and ?es = "graph_edges g"
  let ?R = "released ?p" and ?h = "?p\<lparr>requests := []\<rparr>"
  note st = prepared_state [OF ok, of now]
  note node = scheduled_node [OF st]
  have nxt: "t_nextInlineTask ?p = None" using ok by (simp add: dag_ok_def)
  have rs: "mset (scheduled_of (requests ?p)) = ?R" using nxt by (simp add: released_slot slot_def)
  have "size ?R = card (set_mset ?R)" unfolding size_multiset_overloaded_eq using node(3) by simp
  moreover have "card (?V - {} - set_mset ?R) + card (set_mset ?R) = card ?V"
    using node(1) by (subst card_Un_disjoint [symmetric]) (auto intro: arg_cong [where f = card])
  moreover have "card ?V = length (m_nodeList g)" using dag_okD(1) [OF ok] by (rule distinct_card)
  moreover have "size ?R = length (scheduled_of (requests ?p))" using arg_cong [OF rs, of size] by simp
  ultimately have "inv (length (scheduled_of (requests ?p)) + budget ?V {} ?R) s" using inv by (simp add: budget_def add.commute)
  moreover have "\<forall>n \<in> set (scheduled_of (requests ?p)). domain (nodes ?h n) = Worker"
  proof
    fix n assume "n \<in> set (scheduled_of (requests ?p))"
    then have "n \<in># ?R" using rs by (metis set_mset_mset)
    then show "domain (nodes ?h n) = Worker" using node(1) dom prepareRun_types [OF ok, of now] by (simp add: same_types_def)
  qed
  ultimately obtain s' where s': "apply_requests me (requests ?p) (?h, s) = Some (?h, s')" "inv (budget ?V {} ?R) s'"
      "worker_pool s' = worker_pool s + ?R" using apply_ok rs by metis
  have "on_run fuel ?es ?V ?p [] {} (?h\<lparr>t_canInlineTask := True\<rparr>) ?R s'"
    unfolding on_run_def using st s'(3) pool to nxt graph_run.run_start [of fuel ?p ?R]
    by (auto simp: begin_execute_def slot_def intro!: exI [of _ ?p])
  then show ?thesis using s'(1,2) nxt by (simp add: flush_requests_def)
qed

lemma run_and_wait_ok:
  assumes ok: "dag_ok g" and fuel: "edge_count (graph_edges g) (graph_nodes g) \<le> fuel"
    and dom: "\<forall>v \<in> graph_nodes g. domain (nodes g v) = Worker"
    and inv: "inv (length (m_nodeList g)) s" and pool: "worker_pool s = {#}" and envs: "length (m_nodeList g) \<le> length envs"
  shows "\<exists>tr h g' s' p' m'. runAndWait fuel me now envs (g, s) p m = Some (Success, (g', s'), p', m')
    \<and> dag_run fuel now (resetTimeout g) tr h {#} \<and> isCompleted h \<and> isCompleted g' \<and> worker_pool s' = {#}
    \<and> nodes g' = nodes h \<and> user g' = user h \<and> t_canInlineTask g' = t_canInlineTask g \<and> r_waitSet g' = []"
proof -
  let ?g = "resetTimeout g" and ?V = "graph_nodes g" and ?es = "graph_edges g"
  have g: "m_nodeList ?g = m_nodeList g" "nodes ?g = nodes g" "\<not> r_hasTimeout ?g" "t_canInlineTask ?g = t_canInlineTask g"
    by (simp_all add: resetTimeout_def)
  have es: "graph_edges ?g = ?es" by (simp add: graph_edges_def fun_eq_iff g)
  have ok': "dag_ok ?g" using ok unfolding dag_ok_def in_edges_def es g(1,2) by (simp add: resetTimeout_def)
  obtain h0 s0 where h0: "flush_requests me (prepareRun now ?g, s) = Some (h0, s0)" "t_nextInlineTask h0 = None"
      "h0 = (prepareRun now ?g)\<lparr>requests := []\<rparr>" "inv (budget ?V {} (released (prepareRun now ?g))) s0"
      "on_run fuel ?es ?V (prepareRun now ?g) [] {} (h0\<lparr>t_canInlineTask := True\<rparr>) (released (prepareRun now ?g)) s0"
    using prepared_on_run [OF ok', of s now fuel] dom inv pool g(3) unfolding g(1,2) es by blast
  have card: "card ?V = length (m_nodeList g)" using dag_okD(1) [OF ok] by (rule distinct_card)
  obtain rank :: "node_id \<Rightarrow> nat" where rank: "\<forall>v \<in> ?V. \<forall>t \<in> set (targets (?es v)). rank v < rank t"
    using ok by (auto simp: dag_ok_def)
  have dom': "\<forall>v \<in> ?V. domain (nodes (prepareRun now ?g) v) = Worker"
    using dom prepareRun_types [OF ok', of now] g(2) by (simp add: same_types_def)
  obtain tr h s' where loop: "help_loop fuel me graph_done envs (h0\<lparr>t_canInlineTask := True\<rparr>, s0) = Some (h, s')"
      "on_run fuel ?es ?V (prepareRun now ?g) tr ?V h {#} s'" "inv 0 s'"
    using help_loop_ok [OF h0(5) _ fuel h0(4) dom' _ rank, of envs] h0(2) card dag_okD(3) [OF ok] envs by auto
  obtain k where k: "dag_run fuel now ?g tr k {#}" "begin_execute True h = begin_execute True k"
    using loop(2) by (auto simp: on_run_def)
  note d = on_runD [OF loop(2)]
  have same: "nodes h = nodes k" "user h = user k" "m_pendingTasks h = m_pendingTasks k"
    using arg_cong [OF k(2), of nodes] arg_cong [OF k(2), of user] arg_cong [OF k(2), of m_pendingTasks]
    by (simp_all add: begin_execute_def)
  have comp: "m_pendingTasks h = 0" using completed_iff_settled [OF d(1)] card dag_okD(3) [OF ok] by (simp add: begin_execute_def)
  have pool': "worker_pool s' = {#}" using d(5) by simp
  have can: "t_canInlineTask h0 = t_canInlineTask g" using h0(3) g(4) by simp
  obtain s2 p' m' where r: "resetWorkerArenas s' p m = (s2, p', m')" by (cases "resetWorkerArenas s' p m")
  then have "worker_pool s2 = {#}" using resetWorkerArenas_pool [of s' p m] pool' by simp
  moreover have "runAndWait fuel me now envs (g, s) p m
      = Some (Success, (reactor_reset (h\<lparr>t_canInlineTask := t_canInlineTask g\<rparr>), s2), p', m')"
    using h0(1) loop(1) r d(4) can
    by (simp add: runAndWait_def helpUntil_def hasTimeout_def Let_def)
  ultimately show ?thesis using k(1) same comp by (auto simp: isCompleted_def reactor_reset_def)
qed

text \<open>What the caller sees, for a graph with and without conditions.\<close>

lemma run_and_wait_all:
  assumes ok: "dag_ok g" and fuel: "edge_count (graph_edges g) (graph_nodes g) \<le> fuel"
    and dom: "\<forall>v \<in> graph_nodes g. domain (nodes g v) = Worker"
    and inv: "inv (length (m_nodeList g)) s" and pool: "worker_pool s = {#}" and envs: "length (m_nodeList g) \<le> length envs"
  shows "\<exists>g' s' p' m'. runAndWait fuel me now envs (g, s) p m = Some (Success, (g', s'), p', m')
    \<and> isCompleted g' \<and> worker_pool s' = {#}
    \<and> (\<forall>v \<in> graph_nodes g. node_state (nodes g' v) = Completed \<or> node_state (nodes g' v) = Skipped)
    \<and> ((\<forall>v \<in> graph_nodes g. node_type (nodes g v) \<noteq> Condition) \<longrightarrow> ran_in_order g g')"
proof -
  let ?g = "resetTimeout g"
  have g: "m_nodeList ?g = m_nodeList g" "nodes ?g = nodes g" "user ?g = user g" by (simp_all add: resetTimeout_def)
  have es: "graph_edges ?g = graph_edges g" by (simp add: graph_edges_def fun_eq_iff g)
  have ok': "dag_ok ?g" using ok unfolding dag_ok_def in_edges_def es g(1,2) by (simp add: resetTimeout_def)
  have fuel': "edge_count (graph_edges ?g) (graph_nodes ?g) \<le> fuel" using fuel by (simp add: es g)
  obtain tr h g' s' p' m' where r: "runAndWait fuel me now envs (g, s) p m = Some (Success, (g', s'), p', m')"
      "dag_run fuel now ?g tr h {#}" "isCompleted h" "isCompleted g'" "worker_pool s' = {#}" "nodes g' = nodes h" "user g' = user h"
    using run_and_wait_ok [OF assms, of now p m] by blast
  obtain D where st: "run_state (graph_edges ?g) (graph_nodes ?g) tr D h {#}" using dag_run_facts [OF ok' fuel' r(2)] by blast
  note inv = run_state_invD [OF st, of False]
  have "card (graph_nodes ?g) < 2 ^ 32" using dag_okD(1,3) [OF ok'] by (simp add: distinct_card)
  then have "D = graph_nodes ?g"
    using completed_iff_settled [OF inv(1)] r(3) by (simp add: isCompleted_def begin_execute_def)
  then have settled: "\<forall>v \<in> graph_nodes g. node_state (nodes g' v) = Completed \<or> node_state (nodes g' v) = Skipped"
    using run_invD(11) [OF inv(1)] by (simp add: r(6) g)
  have "ran_in_order g g'" if "\<forall>v \<in> graph_nodes g. node_type (nodes g v) \<noteq> Condition"
  proof -
    note c = complete_run [OF ok' fuel' _ r(2), unfolded g es, OF that]
    then show ?thesis unfolding ran_in_order_def using r(6,7) by (intro conjI exI [of _ tr]) auto
  qed
  then show ?thesis using r settled by blast
qed

end

text \<open>An external thread: the injection queues are what it pushes to and looks at first.\<close>

interpretation external: helping_thread INVALID_WORKER_INDEX sched_inv
proof
  fix k j :: nat and s :: scheduler and n :: node_id and p :: TaskPriority and c :: u32
  show "sched_inv k s \<Longrightarrow> j \<le> k \<Longrightarrow> sched_inv j s" by (rule sched_inv_mono)
  show "sched_inv k s \<Longrightarrow> sched_inv k (notifyWorker c s)" using same_tasks_pool(2) [OF notifyWorker_same] by blast
  show "sched_inv k s \<Longrightarrow> \<exists>t s'. find_any INVALID_WORKER_INDEX s = Some (t, s') \<and> sched_inv k s'
      \<and> worker_pool s = mset (ptr_list t) + worker_pool s' \<and> (t = None \<longrightarrow> worker_pool s = {#})"
    using findWorkExternal_ok [of k s] by (fastforce simp: find_any_def)
  assume inv: "sched_inv (Suc k) s"
  have q: "queue_ok (Suc k) (m_globalHigh s)" "queue_ok (Suc k) (m_globalNormal s)" using inv by (auto simp: sched_inv_def)
  have k: "sched_inv k s" by (rule sched_inv_mono [OF inv]) simp
  show "\<exists>s'. push_worker INVALID_WORKER_INDEX p n s = Some s' \<and> sched_inv k s' \<and> worker_pool s' = add_mset n (worker_pool s)"
    using enqueue_ok [OF q(1), of n] enqueue_ok [OF q(2), of n] k
    by (cases "p = High") (auto simp: push_worker_def sched_inv_def worker_pool_def worker_tasks_def global_tasks_def)
qed

section \<open>A fresh scheduler\<close>

lemma new_queue_ok:
  assumes "n \<le> unat cap" and "unat cap \<le> 2 ^ 61"
  shows "queue_ok n (MpmcTaskQueue_new cap)"
proof -
  note new = MpmcTaskQueue_new_ok [of cap]
  have "unat (q_capacity (MpmcTaskQueue_new cap)) = bit_ceil (max (unat cap) 16)" using new(3) assms(2) by simp
  moreover have "max (unat cap) 16 \<le> bit_ceil (max (unat cap) 16)" by (rule bit_ceil_ge)
  moreover have "bit_ceil (max (unat cap) 16) \<le> 2 ^ 61" using assms(2) by (intro bit_ceil_le) simp
  ultimately show ?thesis
    using MpmcTaskQueue_new_inv [of cap] new assms by (simp add: queue_ok_def mpmc_room_def)
qed

lemma TaskScheduler_new_ok:
  assumes "unat (initialDequeCapacity cfg) \<le> 2 ^ 31" and "unat (c_workerCount cfg) \<le> 2 ^ 31" and "unat hw \<le> 2 ^ 31" and "n \<le> 4096"
  shows "sched_inv n (TaskScheduler_new hw cfg)" and "worker_pool (TaskScheduler_new hw cfg) = {#}"
proof -
  let ?cap = "if 0 < initialDequeCapacity cfg then initialDequeCapacity cfg else 65536" and ?s = "TaskScheduler_new hw cfg"
  have cap: "unat ?cap \<le> 2 ^ 31" using assms(1) by simp
  note d = DualPriorityQueue_new_inv [OF cap]
  have m: "unat (max (initialDequeCapacity cfg) 65536) \<le> 2 ^ 31" "4096 \<le> unat (max (initialDequeCapacity cfg) 65536)"
    using assms(1) by (auto simp: max_def word_le_nat_alt)
  have w: "worker_tasks ?s = {#}" using d(2) by (simp add: worker_tasks_def TaskScheduler_new_def Let_def comp_def)
  have q: "queue_ok n (m_globalHigh ?s)" "queue_ok n (m_globalNormal ?s)"
    using new_queue_ok [of n 4096] new_queue_ok [of n "max (initialDequeCapacity cfg) 65536"] m assms(4)
    by (simp_all add: TaskScheduler_new_def Let_def)
  show "sched_inv n ?s"
    using q d(1) assms(2,3) unfolding sched_inv_def by (auto simp: TaskScheduler_new_def Let_def word_less_nat_alt)
  have "mpmc_tasks (m_globalHigh ?s) = []" "mpmc_tasks (m_globalNormal ?s) = []"
    using MpmcTaskQueue_new_inv(2) [of 4096] MpmcTaskQueue_new_inv(2) [of "max (initialDequeCapacity cfg) 65536"] m(1)
    by (simp_all add: TaskScheduler_new_def Let_def)
  then show "worker_pool ?s = {#}" using w by (simp add: worker_pool_def global_tasks_def)
qed

section \<open>Properties\<close>

text \<open>
  C26: \<open>runAndWait\<close> on a graph whose tasks all run on workers returns, even when no worker ever
  helps. An external thread with as many passes as there are nodes gets \<open>Success\<close>, the graph is
  completed with every node settled, no task is left in any queue, and without conditions every
  node was executed once, after its predecessors.
\<close>

theorem run_and_wait_completes:
  assumes "dag_ok g" and "edge_count (graph_edges g) (graph_nodes g) \<le> fuel"
    and "\<forall>v \<in> graph_nodes g. domain (nodes g v) = Worker"
    and "sched_inv (length (m_nodeList g)) s" and "worker_pool s = {#}" and "length (m_nodeList g) \<le> length envs"
  shows "\<exists>g' s' p' m'. runAndWait fuel INVALID_WORKER_INDEX now envs (g, s) p m = Some (Success, (g', s'), p', m')
    \<and> isCompleted g' \<and> worker_pool s' = {#}
    \<and> (\<forall>v \<in> graph_nodes g. node_state (nodes g' v) = Completed \<or> node_state (nodes g' v) = Skipped)
    \<and> ((\<forall>v \<in> graph_nodes g. node_type (nodes g v) \<noteq> Condition) \<longrightarrow> ran_in_order g g')"
  using assms by (rule external.run_and_wait_all)

theorem run_and_wait_completes_witness:
  "\<forall>p m. \<exists>g' s' p' m'. runAndWait 4 INVALID_WORKER_INDEX 0 (replicate 4 \<lparr>clock = 0, device = None\<rparr>)
       (demo_graph, TaskScheduler_new 2 SchedulerConfig_default) p m = Some (Success, (g', s'), p', m')
     \<and> isCompleted g' \<and> worker_pool s' = {#} \<and> ran_in_order demo_graph g'"
proof (intro allI)
  fix p and m :: "'b memory"
  let ?s = "TaskScheduler_new 2 SchedulerConfig_default" and ?envs = "replicate 4 \<lparr>clock = 0, device = None\<rparr>"
  have len: "length (m_nodeList demo_graph) = 4" by (simp add: demo_graph_nodes)
  have dom: "\<forall>v \<in> graph_nodes demo_graph. domain (nodes demo_graph v) = Worker"
    and ty: "\<forall>v \<in> graph_nodes demo_graph. node_type (nodes demo_graph v) \<noteq> Condition"
    by (simp_all add: demo_graph_nodes) (simp_all add: demo_graph_defs)
  have s: "sched_inv (length (m_nodeList demo_graph)) ?s" "worker_pool ?s = {#}"
    using TaskScheduler_new_ok [of SchedulerConfig_default 2 4] by (simp_all add: SchedulerConfig_default_def len)
  have fuel: "edge_count (graph_edges demo_graph) (graph_nodes demo_graph) \<le> 4" by (simp add: demo_edge_count)
  have envs: "length (m_nodeList demo_graph) \<le> length ?envs" by (simp add: len)
  show "\<exists>g' s' p' m'. runAndWait 4 INVALID_WORKER_INDEX 0 ?envs (demo_graph, ?s) p m = Some (Success, (g', s'), p', m')
     \<and> isCompleted g' \<and> worker_pool s' = {#} \<and> ran_in_order demo_graph g'"
    using run_and_wait_completes [OF demo_dag_ok fuel dom s envs, of 0 p m] ty by blast
qed

end
