(* ===== verification/Worker_Run.thy ===== *)
theory Worker_Run
  imports Scheduler_Help
begin

text \<open>
  A worker thread: what it pushes goes to its own deques, and it finds work there, in the injection
  queues and by stealing batches. It fulfils the contract of a helping thread as long as the 32-bit
  indices of its own deques have room for what it may still push or steal.
\<close>

section \<open>Room in the worker's own deques\<close>

lemma popBottom_room:
  assumes "deque_inv d" and "push_room_n d k"
  shows "push_room_n (snd (popBottom d)) k"
proof (cases "deque_list d = []")
  case True
  then show ?thesis using assms popBottom_list(2) [of d] by (simp add: deque_inv_def)
next
  case False
  have ok: "deque_ok d" using assms(1) by (simp add: deque_inv_def)
  have lt: "m_top d < m_bottom d" using False deque_list_Nil_iff [OF ok] by (simp add: not_le)
  have b1: "unat (m_bottom d - 1) = unat (m_bottom d) - 1" by (rule unat_pred_gt [OF lt])
  have "unat (m_bottom (snd (popBottom d))) \<le> unat (m_bottom d)"
    using b1 by (auto simp: popBottom_def Let_def)
  moreover have "length (deque_list (snd (popBottom d))) \<le> length (deque_list d)" using popBottom_list(3) [OF ok False] by simp
  ultimately show ?thesis using assms(2) by (simp add: push_room_n_def)
qed

lemma push_all_room: "deque_ok d \<Longrightarrow> push_room_n d (length xs + k) \<Longrightarrow> push_room_n (fold pushBottom xs d) k"
proof (induction xs arbitrary: d)
  case (Cons x xs)
  then have "push_room_n d (Suc (length xs + k))" by simp
  note r = push_room_n_Suc [OF Cons.prems(1) this]
  show ?case using Cons.IH [OF _ r(2)] pushBottom_list(1) [OF Cons.prems(1) r(1)] by simp
qed simp

lemma stealBatch_into_room:
  assumes "deque_inv d" and "deque_inv dst" and "stealBatch_into d dst = (n, d', dst')" and "push_room_n dst (unat n + k)"
  shows "push_room_n dst' k"
proof -
  obtain batch d1 where b: "stealBatch_span 128 d = (batch, d1)" by (cases "stealBatch_span 128 d")
  have "length batch \<le> 128"
    using stealBatch_span_list [of d 128] b assms(1) by (auto simp: deque_inv_def batch_count_def)
  then have "unat n = length batch" "dst' = fold pushBottom batch dst"
    using assms(3) b by (auto simp: stealBatch_into_def unat_of_nat)
  then show ?thesis using push_all_room assms(2,4) by (simp add: deque_inv_def)
qed

definition dual_room :: "dual_queue \<Rightarrow> nat \<Rightarrow> bool" where
  "dual_room q b \<longleftrightarrow> push_room_n (m_high q) b \<and> push_room_n (m_normal q) b"

lemma dual_room_mono: "dual_room q b \<Longrightarrow> c \<le> b \<Longrightarrow> dual_room q c"
  using push_room_n_mono by (auto simp: dual_room_def)

lemma dual_pop_room: "dual_inv q \<Longrightarrow> dual_room q b \<Longrightarrow> dual_room (snd (dual_pop q)) b"
  using popBottom_room by (auto simp: dual_room_def dual_pop_def dual_inv_def split_beta Let_def)

lemma dual_push_room:
  assumes "dual_inv q" and "dual_room q (Suc b)"
  shows "dual_room (dual_push (Some x) p q) b" and "push_room (dual_deque p q)"
proof -
  have ok: "deque_ok (m_high q)" "deque_ok (m_normal q)" using assms(1) by (auto simp: dual_inv_def deque_inv_def)
  have room: "push_room_n (m_high q) (Suc b)" "push_room_n (m_normal q) (Suc b)" using assms(2) by (auto simp: dual_room_def)
  show "dual_room (dual_push (Some x) p q) b" "push_room (dual_deque p q)"
    using push_room_n_Suc(1) [OF ok(1) room(1)] push_room_n_Suc(1) [OF ok(2) room(2)]
      push_room_n_Suc(2) [OF ok(1) room(1), of "Some x"] push_room_n_Suc(2) [OF ok(2) room(2), of "Some x"] room push_room_n_mono [of _ "Suc b" b]
    by (auto simp: dual_room_def dual_push_def dual_deque_def)
qed

lemma dual_batch_room:
  assumes "dual_inv q" and "dual_inv dst" and st: "dual_stealBatch_into q dst = (n, q', dst')" and room: "dual_room dst (unat n + b)"
    and "128 \<le> unat n + b"
  shows "dual_room dst' b"
proof -
  obtain a h dh where H: "stealBatch_into (m_high q) (m_high dst) = (a, h, dh)" by (metis prod_cases3)
  obtain c l dl where L: "stealBatch_into (m_normal q) (m_normal dst) = (c, l, dl)" by (metis prod_cases3)
  have inv: "deque_inv (m_high q)" "deque_inv (m_normal q)" "deque_inv (m_high dst)" "deque_inv (m_normal dst)"
    using assms(1,2) by (auto simp: dual_inv_def)
  have r: "push_room_n (m_high dst) (unat n + b)" "push_room_n (m_normal dst) (unat n + b)" using room by (auto simp: dual_room_def)
  have r128: "push_room_n (m_high dst) 128" using push_room_n_mono [OF r(1) assms(5)] .
  note h = stealBatch_into_moves [OF inv(1,3) r128 H]
  have cases: "(n, q', dst') = (if 0 < a then (a, q\<lparr>m_high := h\<rparr>, dst\<lparr>m_high := dh\<rparr>)
      else (c, q\<lparr>m_high := h, m_normal := l\<rparr>, dst\<lparr>m_high := dh, m_normal := dl\<rparr>))"
    using st H L by (cases "0 < a") (simp_all add: dual_stealBatch_into_def Let_def)
  show ?thesis
  proof (cases "0 < a")
    case True
    then have "n = a" "dst' = dst\<lparr>m_high := dh\<rparr>" using cases by simp_all
    then show ?thesis
      using stealBatch_into_room [OF inv(1,3) H, of b] r push_room_n_mono [OF r(2), of b] by (simp add: dual_room_def)
  next
    case False
    then have n: "n = c" "dst' = dst\<lparr>m_high := dh, m_normal := dl\<rparr>" using cases by simp_all
    have "dh = m_high dst" using False h(3,4) by (simp add: word_gt_0)
    then show ?thesis
      using n stealBatch_into_room [OF inv(2,4) L, of b] r push_room_n_mono [OF r(1), of b] by (simp add: dual_room_def)
  qed
qed

section \<open>What a worker finds\<close>

text \<open>
  Worker \<open>i\<close> can push \<open>k\<close> more tasks and steal all tasks of the others: its indices have room for
  \<open>b\<close> pushes, where \<open>b\<close> covers the tasks of the other workers, \<open>k\<close> and one batch.
\<close>

definition worker_inv :: "u32 \<Rightarrow> nat \<Rightarrow> scheduler \<Rightarrow> bool" where
  "worker_inv i k s \<longleftrightarrow>
     sched_inv k s \<and> unat i < length (m_workers s) \<and> i \<noteq> INVALID_WORKER_INDEX
     \<and> (\<exists>b. dual_room (worker_deque i s) b \<and> 128 + k + size (worker_tasks s) \<le> b + length (dual_tasks (worker_deque i s)))"

lemma worker_inv_mono: "worker_inv i k s \<Longrightarrow> j \<le> k \<Longrightarrow> worker_inv i j s"
  using sched_inv_mono by (fastforce simp: worker_inv_def)

lemma worker_inv_same: "same_tasks s s' \<Longrightarrow> worker_inv i k s' = worker_inv i k s"
proof -
  assume same: "same_tasks s s'"
  have "worker_tasks s' = worker_tasks s" "worker_deque i s' = worker_deque i s" "m_workers s' = m_workers s"
    using same by (simp_all add: same_tasks_def worker_deque_def worker_tasks_def)
  then show "worker_inv i k s' = worker_inv i k s" using same_tasks_pool(2) [OF same, of k] by (simp add: worker_inv_def)
qed

lemma worker_tasks_take:
  assumes "unat i < length (m_workers s)" and "mset (dual_tasks d) + X = mset (dual_tasks (worker_deque i s))"
  shows "worker_tasks s = X + worker_tasks (set_deque i d s)"
proof -
  have "worker_tasks (set_deque i d s) + (mset (dual_tasks d) + X) = worker_tasks s + mset (dual_tasks d)"
    unfolding assms(2) by (rule worker_tasks_set [OF assms(1)])
  then have "worker_tasks s + mset (dual_tasks d) = (X + worker_tasks (set_deque i d s)) + mset (dual_tasks d)" by (simp add: add_ac)
  then show ?thesis by simp
qed

lemma mset_le_sum_list: "x \<in> set xs \<Longrightarrow> x \<subseteq># sum_list xs" for x :: "'a multiset"
proof (induction xs)
  case (Cons y ys)
  then show ?case
    by (cases "x = y") (auto intro: subset_mset.order_trans [OF _ mset_subset_eq_add_right])
qed simp

lemma worker_tasks_ge: "unat i < length (m_workers s) \<Longrightarrow> length (dual_tasks (worker_deque i s)) \<le> size (worker_tasks s)"
proof -
  assume i: "unat i < length (m_workers s)"
  have "mset (dual_tasks (w_deque (m_workers s ! unat i))) \<subseteq># (\<Sum>w \<leftarrow> m_workers s. mset (dual_tasks (w_deque w)))"
    using i by (intro mset_le_sum_list) auto
  then show ?thesis using size_mset_mono by (fastforce simp: worker_tasks_def worker_deque_def)
qed

lemma pop_own:
  assumes inv: "worker_inv i k s" and p: "dual_pop (worker_deque i s) = (t, d)"
  shows "worker_inv i k (set_deque i d s)" and "worker_tasks s = mset (ptr_list t) + worker_tasks (set_deque i d s)"
    and "t = None \<longleftrightarrow> dual_tasks (worker_deque i s) = []"
proof -
  let ?q = "worker_deque i s"
  have s: "sched_inv k s" and i: "unat i < length (m_workers s)" using inv by (auto simp: worker_inv_def)
  obtain b where b: "dual_room ?q b" "128 + k + size (worker_tasks s) \<le> b + length (dual_tasks ?q)" using inv by (auto simp: worker_inv_def)
  note c = dual_pop_conserves [OF worker_dual_inv [OF s i], unfolded p, simplified]
  show tasks: "worker_tasks s = mset (ptr_list t) + worker_tasks (set_deque i d s)"
    by (rule worker_tasks_take [OF i c(2)])
  have "length (dual_tasks d) + length (ptr_list t) = length (dual_tasks ?q)" using arg_cong [OF c(2), of size] by simp
  moreover have "size (worker_tasks s) = length (ptr_list t) + size (worker_tasks (set_deque i d s))"
    using arg_cong [OF tasks, of size] by simp
  ultimately have "128 + k + size (worker_tasks (set_deque i d s)) \<le> b + length (dual_tasks d)" using b(2) by linarith
  moreover have "dual_room d b" using dual_pop_room [OF worker_dual_inv [OF s i] b(1)] p by simp
  ultimately show "worker_inv i k (set_deque i d s)"
    using inv sched_inv_set [OF s c(1)] i by (auto simp: worker_inv_def)
  show "t = None \<longleftrightarrow> dual_tasks ?q = []" by (rule c(3))
qed

lemma push_own:
  assumes inv: "worker_inv i (Suc k) s"
  shows "worker_inv i k (set_deque i (dual_push (Some n) p (worker_deque i s)) s)"
    and "worker_tasks (set_deque i (dual_push (Some n) p (worker_deque i s)) s) = add_mset n (worker_tasks s)"
proof -
  let ?q = "worker_deque i s" and ?d = "dual_push (Some n) p (worker_deque i s)"
  have s: "sched_inv (Suc k) s" and i: "unat i < length (m_workers s)" using inv by (auto simp: worker_inv_def)
  obtain b where b: "dual_room ?q b" "128 + Suc k + size (worker_tasks s) \<le> b + length (dual_tasks ?q)" using inv by (auto simp: worker_inv_def)
  obtain c where c: "b = Suc c" using b(2) worker_tasks_ge [OF i] by (cases b) auto
  note w = worker_dual_inv [OF s i]
  note r = dual_push_room [OF w] and t = dual_push_tasks [OF w]
  have room: "dual_room ?d c" "push_room (dual_deque p ?q)" using r b(1) c by auto
  show tasks: "worker_tasks (set_deque i ?d s) = add_mset n (worker_tasks s)"
    using worker_tasks_set [OF i, of ?d] t(4) [OF room(2), of n] by simp
  have "length (dual_tasks ?d) = Suc (length (dual_tasks ?q))" using arg_cong [OF t(4) [OF room(2), of n], of size] by simp
  then have "128 + k + size (worker_tasks (set_deque i ?d s)) \<le> c + length (dual_tasks ?d)" using b(2) c tasks by simp
  then show "worker_inv i k (set_deque i ?d s)"
    using inv sched_inv_set [OF s t(1) [OF room(2)]] room i sched_inv_mono [of "Suc k" _ k] by (auto simp: worker_inv_def)
qed

text \<open>Moving a batch between two deques.\<close>

lemma worker_tasks_two:
  assumes "unat v < length (m_workers s)" and "unat i < length (m_workers s)" and "unat v \<noteq> unat i"
    and "mset (dual_tasks d) + mset (dual_tasks e) = mset (dual_tasks (worker_deque v s)) + mset (dual_tasks (worker_deque i s))"
  shows "worker_tasks (set_deque i e (set_deque v d s)) = worker_tasks s"
proof -
  let ?s = "set_deque v d s"
  have "worker_tasks (set_deque i e ?s) + mset (dual_tasks (worker_deque i s)) = worker_tasks ?s + mset (dual_tasks e)"
    using worker_tasks_set [of i ?s e] assms(2,3) by simp
  moreover have "worker_tasks ?s + mset (dual_tasks (worker_deque v s)) = worker_tasks s + mset (dual_tasks d)"
    by (rule worker_tasks_set [OF assms(1)])
  ultimately have "worker_tasks (set_deque i e ?s) + (mset (dual_tasks (worker_deque v s)) + mset (dual_tasks (worker_deque i s)))
      = worker_tasks s + (mset (dual_tasks d) + mset (dual_tasks e))"
    by (metis (no_types, lifting) add.assoc add.commute)
  then show ?thesis using assms(4) by simp
qed

text \<open>One attempt on a victim.\<close>

lemma batch_ok:
  assumes inv: "worker_inv i k s" and v: "unat v < length (m_workers s)" "v \<noteq> i"
    and st: "dual_stealBatch_into (worker_deque v s) (worker_deque i s) = (n, d, e)"
  shows "worker_inv i k (set_deque i e (set_deque v d s))" and "worker_tasks (set_deque i e (set_deque v d s)) = worker_tasks s"
    and "n = 0 \<longleftrightarrow> dual_tasks (worker_deque v s) = []" and "length (dual_tasks e) = length (dual_tasks (worker_deque i s)) + unat n"
    and "n = 0 \<Longrightarrow> dual_tasks d = []"
proof -
  let ?q = "worker_deque v s" and ?own = "worker_deque i s" and ?s' = "set_deque i e (set_deque v d s)"
  have s: "sched_inv k s" and i: "unat i < length (m_workers s)" using inv by (auto simp: worker_inv_def)
  obtain b where b: "dual_room ?own b" "128 + k + size (worker_tasks s) \<le> b + length (dual_tasks ?own)" using inv by (auto simp: worker_inv_def)
  note w = worker_dual_inv [OF s v(1)] worker_dual_inv [OF s i]
  have ne: "unat v \<noteq> unat i" using v(2) by (simp add: word_unat_eq_iff)
  have b128: "128 \<le> b" using b(2) worker_tasks_ge [OF i] by linarith
  have "dual_batch_room ?own" using dual_room_mono [OF b(1) b128] by (simp add: dual_room_def dual_batch_room_def)
  note m = dual_stealBatch_into_moves [OF w this st]
  show tasks: "worker_tasks ?s' = worker_tasks s" by (rule worker_tasks_two [OF v(1) i ne m(4)])
  show len: "n = 0 \<longleftrightarrow> dual_tasks ?q = []" "length (dual_tasks e) = length (dual_tasks ?own) + unat n" using m(3,5) by auto
  show "n = 0 \<Longrightarrow> dual_tasks d = []" using m(3) arg_cong [OF m(4), of size] m(5) by simp
  have "length (dual_tasks e) \<le> size (worker_tasks s)"
    using worker_tasks_ge [of i ?s'] i tasks by simp
  then have nb: "unat n + 128 + k \<le> b" using b(2) len(2) by linarith
  have "dual_room e (b - unat n)"
    by (rule dual_batch_room [OF w st]) (use b(1) nb in auto)
  moreover have "128 + k + size (worker_tasks ?s') \<le> (b - unat n) + length (dual_tasks e)"
    unfolding tasks len(2) using b(2) nb by linarith
  moreover have "sched_inv k ?s'" using sched_inv_set [OF sched_inv_set [OF s m(1)] m(2)] .
  ultimately show "worker_inv i k ?s'" using inv i by (auto simp: worker_inv_def)
qed

lemma single_none:
  assumes inv: "worker_inv i k s" and v: "unat v < length (m_workers s)" "v \<noteq> i" and empty: "dual_tasks (worker_deque v s) = []"
    and st: "dual_steal (worker_deque v s) = (t, d)"
  shows "t = None" and "worker_inv i k (set_deque v d s)" and "worker_tasks (set_deque v d s) = worker_tasks s" and "dual_tasks d = []"
proof -
  have s: "sched_inv k s" using inv by (simp add: worker_inv_def)
  note c = dual_steal_conserves [OF worker_dual_inv [OF s v(1)], unfolded st, simplified]
  show t: "t = None" using c(3) empty by simp
  show d: "dual_tasks d = []" using c(2) t empty by simp
  show tasks: "worker_tasks (set_deque v d s) = worker_tasks s" using worker_tasks_set [OF v(1), of d] d empty by simp
  have "unat v \<noteq> unat i" using v(2) by (simp add: word_unat_eq_iff)
  then show "worker_inv i k (set_deque v d s)"
    using inv sched_inv_set [OF s c(1)] tasks by (auto simp: worker_inv_def)
qed

lemma steal_loop_ok:
  assumes "worker_inv i k s" and "dual_tasks (worker_deque i s) = []" and "steal_loop i st as s = (t, s')"
  shows "worker_inv i k s' \<and> global_tasks s' = global_tasks s \<and> worker_tasks s = mset (ptr_list t) + worker_tasks s'
    \<and> m_ioQueue s' = m_ioQueue s \<and> m_mainThreadHead s' = m_mainThreadHead s
    \<and> (t = None \<longrightarrow> (\<forall>a \<in> set as. dual_tasks (worker_deque ((st + of_nat a) mod m_workerCount s) s) = []))"
  using assms
proof (induction as arbitrary: s)
  case (Cons a as)
  let ?v = "(st + of_nat a) mod m_workerCount s"
  have len: "length (m_workers s) = unat (m_workerCount s)" "0 < m_workerCount s" "unat i < length (m_workers s)"
    using Cons.prems(1) by (auto simp: worker_inv_def sched_inv_def)
  have v: "unat ?v < length (m_workers s)" using len by (simp add: unat_mod word_less_nat_alt)
  show ?case
  proof (cases "?v = i")
    case True
    then have "steal_loop i st as s = (t, s')" using Cons.prems(3) by simp
    from Cons.IH [OF Cons.prems(1,2) this] show ?thesis using True Cons.prems(2) by simp
  next
    case False
    then have ne: "unat ?v \<noteq> unat i" by (simp add: word_unat_eq_iff)
    obtain n d e where b: "dual_stealBatch_into (worker_deque ?v s) (worker_deque i s) = (n, d, e)" by (metis prod_cases3)
    let ?s1 = "set_deque i e (set_deque ?v d s)"
    note m = batch_ok [OF Cons.prems(1) v False b]
    show ?thesis
    proof (cases "n = 0")
      case False
      obtain x f where p: "dual_pop (worker_deque i ?s1) = (x, f)" by (cases "dual_pop (worker_deque i ?s1)")
      have e: "worker_deque i ?s1 = e" using len(3) by simp
      have "0 < unat n" using False by (simp add: unat_gt_0)
      then have "x \<noteq> None" using pop_own(3) [OF m(1) p] e m(4) by auto
      moreover have "steal_loop i st (a # as) s = (x, set_deque i f ?s1)"
        using \<open>?v \<noteq> i\<close> b False p by (simp add: Let_def word_gt_0)
      ultimately show ?thesis using Cons.prems(3) pop_own(1,2) [OF m(1) p] m(2) by auto
    next
      case True
      have dv: "worker_deque ?v ?s1 = d" using ne v by simp
      obtain x f where x: "dual_steal (worker_deque ?v ?s1) = (x, f)" by (cases "dual_steal (worker_deque ?v ?s1)")
      let ?s2 = "set_deque ?v f ?s1"
      have "unat ?v < length (m_workers ?s1)" "dual_tasks (worker_deque ?v ?s1) = []" using v m(5) [OF True] dv by simp_all
      note n = single_none [OF m(1) this(1) False this(2) x]
      have own: "dual_tasks (worker_deque i ?s2) = []" using ne len(3) m(4) True Cons.prems(2) by simp
      have rest: "steal_loop i st as ?s2 = (t, s')" using Cons.prems(3) b True x n(1) \<open>?v \<noteq> i\<close> by (simp add: Let_def)
      have ve: "dual_tasks (worker_deque ?v s) = []" using m(3) True by simp
      have same: "dual_tasks (worker_deque j s) = []" if "dual_tasks (worker_deque j ?s2) = []" for j
      proof (cases "unat j = unat ?v \<or> unat j = unat i")
        case True
        then show ?thesis using ve Cons.prems(2) by (auto simp: word_unat_eq_iff [symmetric])
      next
        case False
        then show ?thesis using that by simp
      qed
      from Cons.IH [OF n(2) own rest] show ?thesis using n(3) m(2) ve same by simp
    qed
  qed
qed auto

lemma findWork_ok:
  assumes inv: "worker_inv i k s"
  shows "\<exists>t s'. findWork i s = Some (t, s') \<and> worker_inv i k s' \<and> worker_pool s = mset (ptr_list t) + worker_pool s'
    \<and> m_ioQueue s' = m_ioQueue s \<and> m_mainThreadHead s' = m_mainThreadHead s \<and> (t = None \<longrightarrow> worker_pool s = {#})"
proof -
  obtain x d where p: "dual_pop (worker_deque i s) = (x, d)" by (cases "dual_pop (worker_deque i s)")
  let ?s1 = "set_deque i d s"
  note o = pop_own [OF inv p]
  have i: "unat i < length (m_workers s)" using inv by (simp add: worker_inv_def)
  show ?thesis
  proof (cases x)
    case (Some n)
    then have "findWork i s = Some (Some n, ?s1)" using p by (simp add: findWork_def Let_def)
    then show ?thesis using o(1,2) Some by (auto simp: worker_pool_def)
  next
    case None
    have own: "dual_tasks (worker_deque i ?s1) = []" "dual_tasks (worker_deque i s) = []"
      using o(2,3) None i worker_tasks_set [OF i, of d] by simp_all
    obtain t s2 where g: "take_global ?s1 = Some (t, s2)" "sched_inv k s2" "m_workers s2 = m_workers ?s1" "m_workerCount s2 = m_workerCount ?s1"
      "m_ioQueue s2 = m_ioQueue s" "m_mainThreadHead s2 = m_mainThreadHead s"
      "global_tasks s = mset (ptr_list t) + global_tasks s2" "t = None \<longrightarrow> global_tasks s = {#}"
      using take_global_ok [of k ?s1] o(1) by (auto simp: worker_inv_def)
    have w2: "worker_deque j s2 = worker_deque j ?s1" "worker_tasks s2 = worker_tasks ?s1" for j
      using g(3) by (simp_all add: worker_deque_def worker_tasks_def)
    have inv2: "worker_inv i k s2" using o(1) g(2,3) w2 i by (simp add: worker_inv_def)
    show ?thesis
    proof (cases t)
      case (Some n)
      then have "findWork i s = Some (Some n, s2)" using p None g(1) by (simp add: findWork_def Let_def)
      then show ?thesis using Some inv2 g(5-7) w2 o(2) None by (auto simp: worker_pool_def)
    next
      case no: None
      let ?seed = "xorshift32 (stealVictimSeed (m_workers s2 ! unat i))" and ?m = "m_workerCount s"
      let ?s3 = "s2\<lparr>m_workers := (m_workers s2)[unat i := (m_workers s2 ! unat i)\<lparr>stealVictimSeed := ?seed\<rparr>]\<rparr>"
      have len2: "unat i < length (m_workers s2)" using g(3) i by simp
      have w3: "worker_deque j ?s3 = worker_deque j s2" for j
        using len2 by (cases "unat j = unat i") (simp_all add: worker_deque_def)
      have deques: "map w_deque (m_workers ?s3) = map w_deque (m_workers s2)" by (simp add: map_update list_update_same_conv len2)
      have wt: "worker_tasks s = sum_list (map (\<lambda>d. mset (dual_tasks d)) (map w_deque (m_workers s)))" for s
        by (simp add: worker_tasks_def comp_def)
      have t3: "worker_tasks ?s3 = worker_tasks s2" unfolding wt deques ..
      have "\<forall>w \<in> set (m_workers ?s3). dual_inv (w_deque w)"
        using g(2) arg_cong [OF deques, of set] unfolding sched_inv_def by (metis (no_types, lifting) image_iff image_set)
      then have "sched_inv k ?s3" using g(2) by (simp add: sched_inv_def)
      then have inv3: "worker_inv i k ?s3" using inv2 w3 t3 by (simp add: worker_inv_def)
      obtain t' s' where l: "steal_loop i (?seed mod ?m) [0..<unat ?m] ?s3 = (t', s')" by (metis surj_pair)
      have own3: "dual_tasks (worker_deque i ?s3) = []" using w3 w2 own by simp
      note e = steal_loop_ok [OF inv3 own3 l]
      have f: "findWork i s = Some (t', s')" using p None g(1,4) no l by (simp add: findWork_def Let_def)
      have len: "length (m_workers s) = unat ?m" "0 < ?m" "unat ?m \<le> 2 ^ 31" using inv by (auto simp: worker_inv_def sched_inv_def)
      have "worker_tasks s = {#}" if "t' = None"
      proof (rule worker_tasks_none, intro allI impI)
        fix j :: u32 assume j: "unat j < length (m_workers s)"
        then obtain a where a: "a < unat ?m" "(?seed mod ?m + of_nat a) mod ?m = j"
          using victims_cover [OF len(2,3), of j ?seed] len(1) by auto
        then have "dual_tasks (worker_deque j ?s3) = []" using e that g(4) by auto
        then have "dual_tasks (worker_deque j ?s1) = []" using w3 w2 by simp
        then show "dual_tasks (worker_deque j s) = []" using own(2) by (cases "unat j = unat i") (auto simp: word_unat_eq_iff [symmetric])
      qed (use len in simp)
      moreover have "global_tasks ?s3 = global_tasks s2" by (simp add: global_tasks_def)
      ultimately show ?thesis using f e g(5-8) no t3 w2 o(2) None by (auto simp: worker_pool_def)
    qed
  qed
qed

text \<open>Looking for work touches no signal.\<close>

definition signals :: "scheduler \<Rightarrow> u32 \<times> u32 \<times> bool" where
  "signals s = (m_wakeSignal s, m_sleepingCount s, m_stop s)"

lemma set_deque_signals [simp]: "signals (set_deque i d s) = signals s"
  by (simp add: signals_def set_deque_def)

lemma steal_loop_signals: "signals (snd (steal_loop i st as s)) = signals s"
proof (induction as arbitrary: s)
  case (Cons a as)
  then show ?case by (simp add: Let_def split_beta)
qed simp

lemma findWork_signals: "findWork i s = Some (t, s') \<Longrightarrow> signals s' = signals s"
proof -
  assume f: "findWork i s = Some (t, s')"
  have g: "signals r' = signals r" if "take_global r = Some (x, r')" for r r' x
    using that by (auto simp: take_global_def signals_def Let_def split: option.splits if_splits)
  let ?s1 = "set_deque i (snd (dual_pop (worker_deque i s))) s"
  show ?thesis
  proof (cases "fst (dual_pop (worker_deque i s))")
    case (Some n)
    then show ?thesis using f by (auto simp: findWork_def Let_def split_beta)
  next
    case None
    then obtain x s2 where t: "take_global ?s1 = Some (x, s2)"
      using f by (auto simp: findWork_def Let_def split_beta split: option.splits)
    let ?seed = "xorshift32 (stealVictimSeed (m_workers s2 ! unat i))"
    let ?s3 = "s2\<lparr>m_workers := (m_workers s2)[unat i := (m_workers s2 ! unat i)\<lparr>stealVictimSeed := ?seed\<rparr>]\<rparr>"
    have "(t, s') = (if x \<noteq> None then (x, s2) else steal_loop i (?seed mod m_workerCount s2) [0..<unat (m_workerCount s2)] ?s3)"
      using f None t by (auto simp: findWork_def Let_def split_beta)
    then have "signals s' = signals s2 \<or> signals s' = signals ?s3" using steal_loop_signals by (metis snd_conv)
    moreover have "signals ?s3 = signals s2" by (simp add: signals_def)
    ultimately show ?thesis using g [OF t] by auto
  qed
qed

lemma push_external_workers:
  "push_worker INVALID_WORKER_INDEX p n s = Some s' \<Longrightarrow> m_workers s' = m_workers s \<and> signals s' = signals s"
  by (auto simp: push_worker_def signals_def split: option.splits if_splits bool.splits)

interpretation worker: helping_thread i "worker_inv i" for i
proof
  fix k j :: nat and s :: scheduler and n :: node_id and p :: TaskPriority and c :: u32
  show "worker_inv i k s \<Longrightarrow> j \<le> k \<Longrightarrow> worker_inv i j s" by (rule worker_inv_mono)
  show "worker_inv i k s \<Longrightarrow> worker_inv i k (notifyWorker c s)" using worker_inv_same [OF notifyWorker_same] by blast
  show "worker_inv i k s \<Longrightarrow> \<exists>t s'. find_any i s = Some (t, s') \<and> worker_inv i k s'
      \<and> worker_pool s = mset (ptr_list t) + worker_pool s' \<and> (t = None \<longrightarrow> worker_pool s = {#})"
    using findWork_ok [of i k s] by (fastforce simp: find_any_def worker_inv_def)
  show "worker_inv i (Suc k) s \<Longrightarrow> \<exists>s'. push_worker i p n s = Some s' \<and> worker_inv i k s' \<and> worker_pool s' = add_mset n (worker_pool s)"
    using push_own [of i k s n p] by (simp add: push_worker_def worker_inv_def worker_pool_def)
qed

section \<open>Properties\<close>

text \<open>
  C27: a worker's search takes exactly one task out of the queues and loses none: what is in the
  deques and injection queues is what was there without the task found, and null means that
  there was no task in any of them. Main-thread and IO tasks are never found.
\<close>

theorem find_work_exact:
  assumes "worker_inv i k s"
  shows "\<exists>t s'. findWork i s = Some (t, s') \<and> worker_pool s = mset (ptr_list t) + worker_pool s' \<and> worker_inv i k s'
    \<and> (t = None \<longleftrightarrow> worker_pool s = {#}) \<and> m_ioQueue s' = m_ioQueue s \<and> m_mainThreadHead s' = m_mainThreadHead s"
proof -
  obtain t s' where f: "findWork i s = Some (t, s')" "worker_inv i k s'" "worker_pool s = mset (ptr_list t) + worker_pool s'"
    "m_ioQueue s' = m_ioQueue s" "m_mainThreadHead s' = m_mainThreadHead s" "t = None \<longrightarrow> worker_pool s = {#}"
    using findWork_ok [OF assms] by blast
  then show ?thesis by (cases t) auto
qed

text \<open>A fresh scheduler with two workers.\<close>

definition demo_scheduler :: scheduler where
  "demo_scheduler = TaskScheduler_new 2 SchedulerConfig_default"

lemma demo_config:
  "unat (initialDequeCapacity SchedulerConfig_default) \<le> 2 ^ 31" "unat (c_workerCount SchedulerConfig_default) \<le> 2 ^ 31"
  by (simp_all add: SchedulerConfig_default_def)

lemma demo_scheduler_pool: "worker_pool demo_scheduler = {#}"
  using TaskScheduler_new_ok(2) [OF demo_config, of 2 0] by (simp add: demo_scheduler_def)

lemma demo_scheduler_inv:
  assumes k: "k \<le> 4096" and i: "i < 2"
  shows "worker_inv i k demo_scheduler"
proof -
  have tasks: "worker_tasks demo_scheduler = {#}" using demo_scheduler_pool by (simp add: worker_pool_def)
  have len: "length (m_workers demo_scheduler) = 2"
    by (simp add: demo_scheduler_def TaskScheduler_new_def SchedulerConfig_default_def Let_def)
  have i2: "unat i < 2" using i by (simp add: word_less_nat_alt)
  have own: "worker_deque i demo_scheduler = DualPriorityQueue_new 65536"
    using i2 by (simp add: worker_deque_def demo_scheduler_def TaskScheduler_new_def SchedulerConfig_default_def Let_def)
  have "deque_list (ChaseLevDeque_new 65536) = []" using ChaseLevDeque_new_ok(2) [of 65536] by simp
  then have room: "dual_room (worker_deque i demo_scheduler) 5000"
    unfolding own by (simp add: dual_room_def push_room_n_def DualPriorityQueue_new_def) (simp add: ChaseLevDeque_new_def Let_def)
  have "i \<noteq> INVALID_WORKER_INDEX" using i by (auto simp: INVALID_WORKER_INDEX_def)
  moreover have "sched_inv k demo_scheduler" using TaskScheduler_new_ok(1) [OF demo_config, of 2 k] k by (simp add: demo_scheduler_def)
  ultimately show ?thesis unfolding worker_inv_def using k i2 len tasks room by (auto intro!: exI [of _ 5000])
qed

theorem find_work_exact_witness: "\<exists>s'. findWork 1 demo_scheduler = Some (None, s')"
  using find_work_exact [OF demo_scheduler_inv [of 0 1]] demo_scheduler_pool by auto

text \<open>
  no wake-up is lost between a worker that parks and a thread that schedules. When the worker's
  last look found nothing and it parks on the signal it read, a task scheduled afterwards changes
  that signal, and the woken worker finds the task.
\<close>

theorem parked_worker_wakes:
  assumes "worker_inv i (Suc k) s" and "m_sleepingCount s + 1 \<noteq> 0"
    and "worker_park fuel i g s = Some (Parked c, g', s')" and "domain (nodes g' n) = Worker"
  shows "\<exists>s''. schedule INVALID_WORKER_INDEX n True (g', s') = Some (g', s'') \<and> wakes_from c s''
    \<and> (\<exists>r. findWork i (worker_awake s'') = Some (Some n, r))"
proof -
  let ?s = "s\<lparr>m_sleepingCount := m_sleepingCount s + 1\<rparr>"
  have "same_tasks s ?s" by (simp add: same_tasks_def)
  then have inv: "worker_inv i (Suc k) ?s" using worker_inv_same assms(1) by blast
  obtain s1 where f: "findWork i ?s = Some (None, s1)" "g' = g" "s' = s1" "c = m_wakeSignal s"
    using assms(3) by (auto simp: worker_park_def Let_def with_work_def worker_exec_def split: if_splits option.splits)
  have sig: "signals s1 = (m_wakeSignal s, m_sleepingCount s + 1, m_stop s)"
    using findWork_signals [OF f(1)] by (simp add: signals_def)
  have empty: "worker_pool s1 = {#}" and inv1: "worker_inv i (Suc k) s1" using findWork_ok [OF inv] f(1) by auto
  have "sched_inv (Suc k) s1" using inv1 by (simp add: worker_inv_def)
  from external.put [OF this] obtain s2 where s2: "push_worker INVALID_WORKER_INDEX (priority (nodes g n)) n s1 = Some s2"
      "sched_inv k s2" "worker_pool s2 = {#n#}" unfolding empty by metis
  note p = push_external_workers [OF s2(1)]
  have same: "worker_deque i s2 = worker_deque i s1" "worker_tasks s2 = worker_tasks s1"
    using p by (simp_all add: worker_deque_def worker_tasks_def)
  have inv2: "worker_inv i k s2" using worker_inv_mono [OF inv1, of k] s2(2) p same by (simp add: worker_inv_def)
  have sleep: "m_sleepingCount s2 \<noteq> 0" "m_wakeSignal s2 = c" using p sig assms(2) f(4) by (simp_all add: signals_def)
  let ?s3 = "notifyWorker 1 s2"
  have "upd_node n (\<lambda>x. x\<lparr>domain := domain (nodes g n)\<rparr>) g = g" by (simp add: upd_node_def)
  then have sched: "schedule INVALID_WORKER_INDEX n True (g', s') = Some (g', ?s3)"
    using s2(1) f(2,3) assms(4) sleep(1) by (simp add: schedule_def schedule_to_def Let_def word_gt_0)
  have "min 1 (m_sleepingCount s2) = 1" using sleep(1) by (simp add: min_def word_le_nat_alt unat_eq_zero Suc_le_eq)
  then have "m_wakeSignal ?s3 = c + 1" using sleep by (simp add: notifyWorker_def Let_def)
  then have wake: "wakes_from c ?s3" by (simp add: wakes_from_def)
  have "same_tasks s2 (worker_awake ?s3)" using notifyWorker_same [of s2 1] by (simp add: same_tasks_def worker_awake_def)
  then have "worker_inv i k (worker_awake ?s3)" "worker_pool (worker_awake ?s3) = {#n#}"
    using worker_inv_same inv2 same_tasks_pool(1) s2(3) by auto
  then obtain t r where "findWork i (worker_awake ?s3) = Some (t, r)" "{#n#} = mset (ptr_list t) + worker_pool r" "t \<noteq> None"
    using findWork_ok by fastforce
  then have "findWork i (worker_awake ?s3) = Some (Some n, r)" by (cases t) auto
  then show ?thesis using sched wake by blast
qed

theorem parked_worker_wakes_witness:
  "\<exists>c g' s'. worker_park 9 1 demo_graph demo_scheduler = Some (Parked c, g', s')
     \<and> (\<exists>s''. schedule INVALID_WORKER_INDEX 3 True (g', s') = Some (g', s'') \<and> wakes_from c s'')"
proof -
  have s: "m_sleepingCount demo_scheduler = 0" "\<not> m_stop demo_scheduler"
    by (simp_all add: demo_scheduler_def TaskScheduler_new_def Let_def)
  let ?s = "demo_scheduler\<lparr>m_sleepingCount := m_sleepingCount demo_scheduler + 1\<rparr>"
  have same: "same_tasks demo_scheduler ?s" by (simp add: same_tasks_def)
  have inv: "worker_inv 1 1 demo_scheduler" by (rule demo_scheduler_inv) simp_all
  then have "worker_inv 1 1 ?s" using worker_inv_same [OF same] by simp
  moreover have "worker_pool ?s = {#}" using same_tasks_pool(1) [OF same] demo_scheduler_pool by simp
  ultimately obtain s' where "findWork 1 ?s = Some (None, s')"
    using findWork_ok by (metis (no_types, lifting) empty_eq_union mset_zero_iff option.exhaust option.simps(5) list.simps(3))
  then have p: "worker_park 9 1 demo_graph demo_scheduler = Some (Parked (m_wakeSignal demo_scheduler), demo_graph, s')"
    using s(2) by (simp add: worker_park_def Let_def with_work_def)
  have "domain (nodes demo_graph 3) = Worker" by (simp add: demo_graph_defs)
  then show ?thesis using parked_worker_wakes [of 1 0, OF _ _ p] inv s(1) p by auto
qed

text \<open>
  a task that runs on a worker may itself prepare and wait for another graph: the worker pushes
  the graph's tasks on its own deques, finds and executes them and returns \<open>Success\<close> with the graph
  completed, also when all other threads are blocked; nothing it executes is lost or repeated.
\<close>

theorem run_and_wait_on_worker:
  assumes "dag_ok g" and "edge_count (graph_edges g) (graph_nodes g) \<le> fuel"
    and "\<forall>v \<in> graph_nodes g. domain (nodes g v) = Worker"
    and "worker_inv i (length (m_nodeList g)) s" and "worker_pool s = {#}" and "length (m_nodeList g) \<le> length envs"
  shows "\<exists>g' s' p' m'. runAndWait fuel i now envs (g, s) p m = Some (Success, (g', s'), p', m')
    \<and> isCompleted g' \<and> worker_pool s' = {#}
    \<and> (\<forall>v \<in> graph_nodes g. node_state (nodes g' v) = Completed \<or> node_state (nodes g' v) = Skipped)
    \<and> ((\<forall>v \<in> graph_nodes g. node_type (nodes g v) \<noteq> Condition) \<longrightarrow> ran_in_order g g')"
  using assms by (rule worker.run_and_wait_all)

theorem run_and_wait_on_worker_witness:
  "\<forall>p m. \<exists>g' s' p' m'. runAndWait 4 1 0 (replicate 4 \<lparr>clock = 0, device = None\<rparr>) (demo_graph, demo_scheduler) p m
      = Some (Success, (g', s'), p', m') \<and> ran_in_order demo_graph g'"
proof (intro allI)
  fix p and m :: "'b memory"
  let ?envs = "replicate 4 \<lparr>clock = 0, device = None\<rparr>"
  have len: "length (m_nodeList demo_graph) = 4" by (simp add: demo_graph_nodes)
  have dom: "\<forall>v \<in> graph_nodes demo_graph. domain (nodes demo_graph v) = Worker"
    and ty: "\<forall>v \<in> graph_nodes demo_graph. node_type (nodes demo_graph v) \<noteq> Condition"
    by (simp_all add: demo_graph_nodes) (simp_all add: demo_graph_defs)
  have s: "worker_inv 1 (length (m_nodeList demo_graph)) demo_scheduler" unfolding len by (rule demo_scheduler_inv) simp_all
  have fuel: "edge_count (graph_edges demo_graph) (graph_nodes demo_graph) \<le> 4" by (simp add: demo_edge_count)
  have envs: "length (m_nodeList demo_graph) \<le> length ?envs" by (simp add: len)
  show "\<exists>g' s' p' m'. runAndWait 4 1 0 ?envs (demo_graph, demo_scheduler) p m = Some (Success, (g', s'), p', m')
     \<and> ran_in_order demo_graph g'"
    using run_and_wait_on_worker [OF demo_dag_ok fuel dom s demo_scheduler_pool envs, of 0 p m] ty by blast
qed

end
