(* ===== verification/Vulkan_Sync.thy ===== *)
theory Vulkan_Sync
  imports Slab_Arena Task_Graph
begin

text \<open>
  GPU submissions and their translation to Vulkan: \<^verbatim>\<open>gpu_submission.hpp\<close>, \<^verbatim>\<open>vulkan_sync.hpp\<close> and the
  constants and structs of \<^verbatim>\<open>vulkan_mock.hpp\<close>. Handles and pointers are 64-bit addresses. A span is its
  address and its elements; writing past its end is \<open>None\<close>, where the code only has an assertion.
\<close>

section \<open>Queues and stages\<close>

datatype GpuQueue = Graphics | Compute | Transfer

definition GPU_QUEUE_COUNT :: usize where "GPU_QUEUE_COUNT = 3"

text \<open>The named flags of \<open>enum class GpuStage\<close>; a stage mask is any 64-bit word.\<close>

datatype GpuStage =
    TopOfPipe | DrawIndirect | VertexInput | VertexShader | TessellationControl | TessellationEval | GeometryShader |
    FragmentShader | EarlyFragmentTests | LateFragmentTests | ColorAttachmentOutput | ComputeShader | TransferStage |
    BottomOfPipe | Host | AllGraphics | AllCommands | Copy | Resolve | Blit | ClearStage | IndexInput |
    VertexAttributeInput | PreRasterizationShaders

fun stage_value :: "GpuStage \<Rightarrow> u64" where
  "stage_value TopOfPipe = push_bit 0 1"
| "stage_value DrawIndirect = push_bit 1 1"
| "stage_value VertexInput = push_bit 2 1"
| "stage_value VertexShader = push_bit 3 1"
| "stage_value TessellationControl = push_bit 4 1"
| "stage_value TessellationEval = push_bit 5 1"
| "stage_value GeometryShader = push_bit 6 1"
| "stage_value FragmentShader = push_bit 7 1"
| "stage_value EarlyFragmentTests = push_bit 8 1"
| "stage_value LateFragmentTests = push_bit 9 1"
| "stage_value ColorAttachmentOutput = push_bit 10 1"
| "stage_value ComputeShader = push_bit 11 1"
| "stage_value TransferStage = push_bit 12 1"
| "stage_value BottomOfPipe = push_bit 13 1"
| "stage_value Host = push_bit 14 1"
| "stage_value AllGraphics = push_bit 15 1"
| "stage_value AllCommands = push_bit 16 1"
| "stage_value Copy = push_bit 17 1"
| "stage_value Resolve = push_bit 18 1"
| "stage_value Blit = push_bit 19 1"
| "stage_value ClearStage = push_bit 20 1"
| "stage_value IndexInput = push_bit 21 1"
| "stage_value VertexAttributeInput = push_bit 22 1"
| "stage_value PreRasterizationShaders = push_bit 23 1"

definition hasStage :: "u64 \<Rightarrow> u64 \<Rightarrow> bool" where
  "hasStage m flag \<longleftrightarrow> m AND flag \<noteq> 0"

definition stage_or :: "u64 \<Rightarrow> u64 \<Rightarrow> u64" where "stage_or lhs rhs = lhs OR rhs"
definition stage_and :: "u64 \<Rightarrow> u64 \<Rightarrow> u64" where "stage_and lhs rhs = lhs AND rhs"
definition stage_xor :: "u64 \<Rightarrow> u64 \<Rightarrow> u64" where "stage_xor lhs rhs = lhs XOR rhs"
definition stage_not :: "u64 \<Rightarrow> u64" where "stage_not val = NOT val"

text \<open>The Vulkan bits.\<close>

fun vk_stage_bit :: "GpuStage \<Rightarrow> u64" where
  "vk_stage_bit TopOfPipe = 0x1"
| "vk_stage_bit DrawIndirect = 0x2"
| "vk_stage_bit VertexInput = 0x4"
| "vk_stage_bit VertexShader = 0x8"
| "vk_stage_bit TessellationControl = 0x10"
| "vk_stage_bit TessellationEval = 0x20"
| "vk_stage_bit GeometryShader = 0x40"
| "vk_stage_bit FragmentShader = 0x80"
| "vk_stage_bit EarlyFragmentTests = 0x100"
| "vk_stage_bit LateFragmentTests = 0x200"
| "vk_stage_bit ColorAttachmentOutput = 0x400"
| "vk_stage_bit ComputeShader = 0x800"
| "vk_stage_bit TransferStage = 0x1000"
| "vk_stage_bit BottomOfPipe = 0x2000"
| "vk_stage_bit Host = 0x4000"
| "vk_stage_bit AllGraphics = 0x8000"
| "vk_stage_bit AllCommands = 0x10000"
| "vk_stage_bit Copy = 0x100000000"
| "vk_stage_bit Resolve = 0x200000000"
| "vk_stage_bit Blit = 0x400000000"
| "vk_stage_bit ClearStage = 0x800000000"
| "vk_stage_bit IndexInput = 0x1000000000"
| "vk_stage_bit VertexAttributeInput = 0x2000000000"
| "vk_stage_bit PreRasterizationShaders = 0x4000000000"

text \<open>The order in which the translation tests the flags.\<close>

definition all_stages :: "GpuStage list" where
  "all_stages =
    [TopOfPipe, DrawIndirect, VertexInput, VertexShader, TessellationControl, TessellationEval, GeometryShader,
     FragmentShader, EarlyFragmentTests, LateFragmentTests, ColorAttachmentOutput, ComputeShader, TransferStage,
     BottomOfPipe, Host, AllGraphics, AllCommands, Copy, Resolve, Blit, ClearStage, IndexInput, VertexAttributeInput,
     PreRasterizationShaders]"

definition toVkPipelineStageFlags2 :: "u64 \<Rightarrow> u64" where
  "toVkPipelineStageFlags2 stage =
     foldl (\<lambda>flags s. if hasStage stage (stage_value s) then flags OR vk_stage_bit s else flags) 0 all_stages"

definition getDefaultWaitStage :: "GpuQueue \<Rightarrow> u64" where
  "getDefaultWaitStage queue =
     (case queue of Graphics \<Rightarrow> vk_stage_bit AllCommands | Compute \<Rightarrow> vk_stage_bit ComputeShader | Transfer \<Rightarrow> vk_stage_bit TransferStage)"

definition getDefaultSignalStage :: "GpuQueue \<Rightarrow> u64" where
  "getDefaultSignalStage queue =
     (case queue of Graphics \<Rightarrow> vk_stage_bit AllCommands | Compute \<Rightarrow> vk_stage_bit ComputeShader | Transfer \<Rightarrow> vk_stage_bit TransferStage)"

record QueueFamilyIndices =
  qf_graphics :: u32
  qf_compute :: u32
  qf_transfer :: u32

definition toQueueFamilyIndex :: "GpuQueue \<Rightarrow> QueueFamilyIndices \<Rightarrow> u32" where
  "toQueueFamilyIndex queue ix =
     (case queue of Graphics \<Rightarrow> qf_graphics ix | Compute \<Rightarrow> qf_compute ix | Transfer \<Rightarrow> qf_transfer ix)"

definition toQueueFamilyIndex_explicit :: "GpuQueue \<Rightarrow> u32 \<Rightarrow> u32 \<Rightarrow> u32 \<Rightarrow> u32" where
  "toQueueFamilyIndex_explicit queue graphicsIndex computeIndex transferIndex =
     (case queue of Graphics \<Rightarrow> graphicsIndex | Compute \<Rightarrow> computeIndex | Transfer \<Rightarrow> transferIndex)"

definition VK_QUEUE_GRAPHICS_BIT :: u32 where "VK_QUEUE_GRAPHICS_BIT = 0x1"
definition VK_QUEUE_COMPUTE_BIT :: u32 where "VK_QUEUE_COMPUTE_BIT = 0x2"
definition VK_QUEUE_TRANSFER_BIT :: u32 where "VK_QUEUE_TRANSFER_BIT = 0x4"

definition toVkQueueFlags :: "GpuQueue \<Rightarrow> u32" where
  "toVkQueueFlags queue =
     (case queue of
        Graphics \<Rightarrow> VK_QUEUE_GRAPHICS_BIT OR VK_QUEUE_COMPUTE_BIT OR VK_QUEUE_TRANSFER_BIT
      | Compute \<Rightarrow> VK_QUEUE_COMPUTE_BIT OR VK_QUEUE_TRANSFER_BIT
      | Transfer \<Rightarrow> VK_QUEUE_TRANSFER_BIT)"

section \<open>Descriptors and Vulkan structs\<close>

record gpu_sync_desc =
  desc_syncPoint :: timeline_sync_point
  desc_stage :: u64
  stageMaskOverride :: u64
  desc_deviceIndex :: u32

record gpu_submission =
  queue :: GpuQueue
  submitFlags :: u32
  commandBuffers :: "u64 list"
  sub_waits :: "gpu_sync_desc list"
  sub_signals :: "gpu_sync_desc list"
  waitSyncPoints :: "timeline_sync_point list"
  signalSyncPoints :: "timeline_sync_point list"
  defaultWaitStageMask :: u64
  defaultSignalStageMask :: u64

definition VK_STRUCTURE_TYPE_COMMAND_BUFFER_SUBMIT_INFO :: u32 where "VK_STRUCTURE_TYPE_COMMAND_BUFFER_SUBMIT_INFO = 1000314000"
definition VK_STRUCTURE_TYPE_SEMAPHORE_SUBMIT_INFO :: u32 where "VK_STRUCTURE_TYPE_SEMAPHORE_SUBMIT_INFO = 1000314001"
definition VK_STRUCTURE_TYPE_SUBMIT_INFO_2 :: u32 where "VK_STRUCTURE_TYPE_SUBMIT_INFO_2 = 1000314004"

record vk_semaphore_submit_info =
  sem_sType :: u32
  sem_pNext :: u64
  semaphore :: u64
  sem_value :: u64
  stageMask :: u64
  sem_deviceIndex :: u32

record vk_command_buffer_submit_info =
  cmd_sType :: u32
  cmd_pNext :: u64
  commandBuffer :: u64
  deviceMask :: u32

record vk_submit_info2 =
  sub_sType :: u32
  sub_pNext :: u64
  sub_flags :: u32
  waitSemaphoreInfoCount :: u32
  pWaitSemaphoreInfos :: u64
  commandBufferInfoCount :: u32
  pCommandBufferInfos :: u64
  signalSemaphoreInfoCount :: u32
  pSignalSemaphoreInfos :: u64

text \<open>The casts between handles keep the 64-bit address.\<close>

definition toVkSemaphore :: "u64 \<Rightarrow> u64" where "toVkSemaphore h = h"
definition toTimelineHandle :: "u64 \<Rightarrow> u64" where "toTimelineHandle s = s"
definition toVkCommandBuffer :: "u64 \<Rightarrow> u64" where "toVkCommandBuffer p = p"

definition toVkSemaphoreSubmitInfo :: "timeline_sync_point \<Rightarrow> u64 \<Rightarrow> u32 \<Rightarrow> vk_semaphore_submit_info" where
  "toVkSemaphoreSubmitInfo sp stages dev =
     \<lparr>sem_sType = VK_STRUCTURE_TYPE_SEMAPHORE_SUBMIT_INFO, sem_pNext = 0, semaphore = toVkSemaphore (handle sp),
      sem_value = sync_value sp, stageMask = stages, sem_deviceIndex = dev\<rparr>"

definition toVkSemaphoreSubmitInfo_desc :: "gpu_sync_desc \<Rightarrow> u64 \<Rightarrow> vk_semaphore_submit_info" where
  "toVkSemaphoreSubmitInfo_desc desc defaultStage =
     (let stage = stageMaskOverride desc;
          stage = (if stage = 0 then
                     (let stage = toVkPipelineStageFlags2 (desc_stage desc)
                      in if stage = 0 then defaultStage else stage)
                   else stage)
      in toVkSemaphoreSubmitInfo (desc_syncPoint desc) stage (desc_deviceIndex desc))"

definition toVkCommandBufferSubmitInfo :: "u64 \<Rightarrow> u32 \<Rightarrow> vk_command_buffer_submit_info" where
  "toVkCommandBufferSubmitInfo cmd devs =
     \<lparr>cmd_sType = VK_STRUCTURE_TYPE_COMMAND_BUFFER_SUBMIT_INFO, cmd_pNext = 0, commandBuffer = cmd, deviceMask = devs\<rparr>"

definition toVkCommandBufferSubmitInfo_ptr :: "u64 \<Rightarrow> u32 \<Rightarrow> vk_command_buffer_submit_info" where
  "toVkCommandBufferSubmitInfo_ptr cmd devs = toVkCommandBufferSubmitInfo (toVkCommandBuffer cmd) devs"

section \<open>Submissions\<close>

type_synonym 'a span = "u64 \<times> 'a list"

record submit_storage =
  waitInfos :: "vk_semaphore_submit_info span"
  commandInfos :: "vk_command_buffer_submit_info span"
  signalInfos :: "vk_semaphore_submit_info span"

text \<open>\<open>out[idx++] = x\<close> for the elements of a list; \<open>None\<close> when an index is outside the span.\<close>

fun write_all :: "'a list \<Rightarrow> nat \<times> 'a list \<Rightarrow> (nat \<times> 'a list) option" where
  "write_all [] out = Some out"
| "write_all (x # xs) (idx, out) = (if idx < length out then write_all xs (idx + 1, out[idx := x]) else None)"

definition toVkSubmitInfo2 ::
  "gpu_submission \<Rightarrow> vk_semaphore_submit_info span \<Rightarrow> vk_command_buffer_submit_info span \<Rightarrow> vk_semaphore_submit_info span
     \<Rightarrow> (vk_submit_info2 \<times> submit_storage) option" where
  "toVkSubmitInfo2 s outWaits outCmds outSignals =
     (let totalWaits = length (sub_waits s) + length (waitSyncPoints s);
          totalCmds = length (commandBuffers s);
          totalSignals = length (sub_signals s) + length (signalSyncPoints s);
          waitDefault = (if defaultWaitStageMask s \<noteq> 0 then defaultWaitStageMask s else getDefaultWaitStage (queue s));
          signalDefault = (if defaultSignalStageMask s \<noteq> 0 then defaultSignalStageMask s else getDefaultSignalStage (queue s))
      in case write_all (map (\<lambda>d. toVkSemaphoreSubmitInfo_desc d waitDefault) (sub_waits s)) (0, snd outWaits) of
           None \<Rightarrow> None
         | Some ws \<Rightarrow>
      (case write_all (map (\<lambda>sp. toVkSemaphoreSubmitInfo sp waitDefault 0) (waitSyncPoints s)) ws of
           None \<Rightarrow> None
         | Some (_, ws) \<Rightarrow>
      (case write_all (map (\<lambda>p. toVkCommandBufferSubmitInfo_ptr p 0) (commandBuffers s)) (0, snd outCmds) of
           None \<Rightarrow> None
         | Some (_, cs) \<Rightarrow>
      (case write_all (map (\<lambda>d. toVkSemaphoreSubmitInfo_desc d signalDefault) (sub_signals s)) (0, snd outSignals) of
           None \<Rightarrow> None
         | Some ss \<Rightarrow>
      (case write_all (map (\<lambda>sp. toVkSemaphoreSubmitInfo sp signalDefault 0) (signalSyncPoints s)) ss of
           None \<Rightarrow> None
         | Some (_, ss) \<Rightarrow>
             Some (\<lparr>sub_sType = VK_STRUCTURE_TYPE_SUBMIT_INFO_2, sub_pNext = 0, sub_flags = submitFlags s,
                    waitSemaphoreInfoCount = of_nat totalWaits,
                    pWaitSemaphoreInfos = (if 0 < totalWaits then fst outWaits else 0),
                    commandBufferInfoCount = of_nat totalCmds,
                    pCommandBufferInfos = (if 0 < totalCmds then fst outCmds else 0),
                    signalSemaphoreInfoCount = of_nat totalSignals,
                    pSignalSemaphoreInfos = (if 0 < totalSignals then fst outSignals else 0)\<rparr>,
                   \<lparr>waitInfos = (fst outWaits, ws), commandInfos = (fst outCmds, cs), signalInfos = (fst outSignals, ss)\<rparr>))))))"

definition toVkSubmitInfo2_storage :: "gpu_submission \<Rightarrow> submit_storage \<Rightarrow> (vk_submit_info2 \<times> submit_storage) option" where
  "toVkSubmitInfo2_storage s st = toVkSubmitInfo2 s (waitInfos st) (commandInfos st) (signalInfos st)"

text \<open>
  The overload that takes its spans from an arena. \<open>junkS\<close> and \<open>junkC\<close> are the contents of the fresh
  memory, the sizes those of the structs on a 64-bit target; \<open>ok\<close> says for each of the three
  allocations whether the platform can serve it, as in the arena theory.
\<close>

definition SIZEOF_SEMAPHORE_INFO :: usize where "SIZEOF_SEMAPHORE_INFO = 48"
definition SIZEOF_COMMAND_INFO :: usize where "SIZEOF_COMMAND_INFO = 32"
definition SIZEOF_SUBMIT_INFO :: usize where "SIZEOF_SUBMIT_INFO = 64"
definition ALIGNOF_INFO :: usize where "ALIGNOF_INFO = 8"

definition fresh_span :: "'a \<Rightarrow> u64 \<times> usize \<Rightarrow> 'a span" where
  "fresh_span junk = (\<lambda>(mem, n). (mem, replicate (unat n) junk))"

definition toVkSubmitInfo2_arena ::
  "vk_semaphore_submit_info \<Rightarrow> vk_command_buffer_submit_info \<Rightarrow> bool \<times> bool \<times> bool \<Rightarrow> gpu_submission
     \<Rightarrow> slab_arena \<Rightarrow> 'w block_pool \<Rightarrow> 'w memory
     \<Rightarrow> ((vk_submit_info2 \<times> submit_storage) \<times> slab_arena \<times> 'w block_pool \<times> 'w memory) option" where
  "toVkSubmitInfo2_arena junkS junkC ok s a p m =
     (let totalWaits = of_nat (length (sub_waits s) + length (waitSyncPoints s));
          totalCmds = of_nat (length (commandBuffers s));
          totalSignals = of_nat (length (sub_signals s) + length (signalSyncPoints s));
          (w, a, p, m) = allocate_span (fst ok) SIZEOF_SEMAPHORE_INFO ALIGNOF_INFO totalWaits a p m;
          (c, a, p, m) = allocate_span (fst (snd ok)) SIZEOF_COMMAND_INFO ALIGNOF_INFO totalCmds a p m;
          (g, a, p, m) = allocate_span (snd (snd ok)) SIZEOF_SEMAPHORE_INFO ALIGNOF_INFO totalSignals a p m
      in map_option (\<lambda>r. (r, a, p, m)) (toVkSubmitInfo2 s (fresh_span junkS w) (fresh_span junkC c) (fresh_span junkS g)))"

text \<open>
  The batch overloads: \<open>i\<close> is the index, \<open>out\<close> the destination slice. The infos that each submission
  points to stay in the arena; they are the second result.
\<close>

fun batch_submits ::
  "vk_semaphore_submit_info \<Rightarrow> vk_command_buffer_submit_info \<Rightarrow> (nat \<Rightarrow> bool \<times> bool \<times> bool) \<Rightarrow> nat \<Rightarrow> gpu_submission list
     \<Rightarrow> vk_submit_info2 list \<Rightarrow> submit_storage list \<Rightarrow> slab_arena \<Rightarrow> 'w block_pool \<Rightarrow> 'w memory
     \<Rightarrow> ((vk_submit_info2 list \<times> submit_storage list) \<times> slab_arena \<times> 'w block_pool \<times> 'w memory) option" where
  "batch_submits junkS junkC oks i [] out infos a p m = Some ((out, infos), a, p, m)"
| "batch_submits junkS junkC oks i (s # ss) out infos a p m =
     (if i < length out then
        (case toVkSubmitInfo2_arena junkS junkC (oks i) s a p m of
           None \<Rightarrow> None
         | Some ((info, st), a, p, m) \<Rightarrow> batch_submits junkS junkC oks (i + 1) ss (out[i := info]) (infos @ [st]) a p m)
      else Some ((out, infos), a, p, m))"

definition toVkSubmitInfo2Batch ::
  "vk_semaphore_submit_info \<Rightarrow> vk_command_buffer_submit_info \<Rightarrow> (nat \<Rightarrow> bool \<times> bool \<times> bool) \<Rightarrow> gpu_submission list
     \<Rightarrow> vk_submit_info2 list \<Rightarrow> slab_arena \<Rightarrow> 'w block_pool \<Rightarrow> 'w memory
     \<Rightarrow> (nat \<times> (vk_submit_info2 list \<times> submit_storage list) \<times> slab_arena \<times> 'w block_pool \<times> 'w memory) option" where
  "toVkSubmitInfo2Batch junkS junkC oks submissions outSubmits a p m =
     map_option (\<lambda>r. (min (length submissions) (length outSubmits), r))
       (batch_submits junkS junkC oks 0 submissions outSubmits [] a p m)"

definition toVkSubmitInfo2Batch_fresh ::
  "vk_submit_info2 \<Rightarrow> vk_semaphore_submit_info \<Rightarrow> vk_command_buffer_submit_info \<Rightarrow> bool \<Rightarrow> (nat \<Rightarrow> bool \<times> bool \<times> bool)
     \<Rightarrow> gpu_submission list \<Rightarrow> slab_arena \<Rightarrow> 'w block_pool \<Rightarrow> 'w memory
     \<Rightarrow> (vk_submit_info2 span \<times> submit_storage list \<times> slab_arena \<times> 'w block_pool \<times> 'w memory) option" where
  "toVkSubmitInfo2Batch_fresh junk junkS junkC ok oks submissions a p m =
     (if submissions = [] then Some ((0, []), [], a, p, m)
      else
        let (sp, a, p, m) = allocate_span ok SIZEOF_SUBMIT_INFO ALIGNOF_INFO (of_nat (length submissions)) a p m;
            outSubmits = fresh_span junk sp
        in if snd outSubmits = [] then Some ((0, []), [], a, p, m)
           else map_option (\<lambda>(_, (out, infos), a, p, m). ((fst outSubmits, out), infos, a, p, m))
                  (toVkSubmitInfo2Batch junkS junkC oks submissions (snd outSubmits) a p m))"

section \<open>Stages\<close>

text \<open>The bit of each flag, here and in Vulkan.\<close>

fun stage_index :: "GpuStage \<Rightarrow> nat" where
  "stage_index TopOfPipe = 0"
| "stage_index DrawIndirect = 1"
| "stage_index VertexInput = 2"
| "stage_index VertexShader = 3"
| "stage_index TessellationControl = 4"
| "stage_index TessellationEval = 5"
| "stage_index GeometryShader = 6"
| "stage_index FragmentShader = 7"
| "stage_index EarlyFragmentTests = 8"
| "stage_index LateFragmentTests = 9"
| "stage_index ColorAttachmentOutput = 10"
| "stage_index ComputeShader = 11"
| "stage_index TransferStage = 12"
| "stage_index BottomOfPipe = 13"
| "stage_index Host = 14"
| "stage_index AllGraphics = 15"
| "stage_index AllCommands = 16"
| "stage_index Copy = 17"
| "stage_index Resolve = 18"
| "stage_index Blit = 19"
| "stage_index ClearStage = 20"
| "stage_index IndexInput = 21"
| "stage_index VertexAttributeInput = 22"
| "stage_index PreRasterizationShaders = 23"

definition vk_index :: "GpuStage \<Rightarrow> nat" where
  "vk_index s = (if stage_index s \<le> 16 then stage_index s else stage_index s + 15)"

lemma stage_index_less: "stage_index s \<le> 23"
  by (cases s) simp_all

lemma stage_value_bit: "bit (stage_value s) n \<longleftrightarrow> n = stage_index s"
proof -
  have "stage_value s = 2 ^ stage_index s" by (cases s) simp_all
  then show ?thesis using stage_index_less [of s] by (auto simp: bit_exp_iff)
qed

lemma vk_stage_power: "vk_stage_bit s = 2 ^ vk_index s"
  by (cases s) (simp_all add: vk_index_def)

lemma vk_stage_bit_bit: "bit (vk_stage_bit s) n \<longleftrightarrow> n = vk_index s"
  using stage_index_less [of s] by (auto simp: vk_stage_power bit_exp_iff vk_index_def)

lemma hasStage_bit: "hasStage m (stage_value s) \<longleftrightarrow> bit m (stage_index s)"
proof -
  have "m AND stage_value s = 0 \<longleftrightarrow> (\<forall>n. \<not> bit (m AND stage_value s) n)" by (metis bit_0_eq bot_apply bot_bool_def bit_eqI)
  then show ?thesis by (auto simp: hasStage_def bit_and_iff stage_value_bit)
qed

lemma stages_fold_bit:
  "bit (foldl (\<lambda>flags s. if hasStage m (stage_value s) then flags OR vk_stage_bit s else flags) f ss) n
     \<longleftrightarrow> bit f n \<or> (\<exists>s \<in> set ss. n = vk_index s \<and> bit m (stage_index s))"
  by (induction ss arbitrary: f) (auto simp: hasStage_bit bit_or_iff vk_stage_bit_bit)

lemma all_stages_index: "stage_index ` set all_stages = {..23}"
proof -
  have "map stage_index all_stages = [0..<24]" by (simp add: all_stages_def upt_rec)
  then have "set (map stage_index all_stages) = {0..<24}" by (simp only: set_upt)
  then show ?thesis by auto
qed

lemma stages_bit:
  "bit (toVkPipelineStageFlags2 m) n \<longleftrightarrow> (if n \<le> 16 then bit m n else 32 \<le> n \<and> n \<le> 38 \<and> bit m (n - 15))"
proof -
  have "bit (toVkPipelineStageFlags2 m) n
      \<longleftrightarrow> (\<exists>k \<in> stage_index ` set all_stages. n = (if k \<le> 16 then k else k + 15) \<and> bit m k)"
    by (simp add: toVkPipelineStageFlags2_def stages_fold_bit vk_index_def)
  also have "\<dots> \<longleftrightarrow> (\<exists>k \<le> 23. n = (if k \<le> 16 then k else k + 15) \<and> bit m k)"
    unfolding all_stages_index by (simp add: Bex_def)
  also have "\<dots> \<longleftrightarrow> (if n \<le> 16 then bit m n else 32 \<le> n \<and> n \<le> 38 \<and> bit m (n - 15))"
  proof (cases "n \<le> 16")
    case True
    then have "n = (if k \<le> 16 then k else k + 15) \<longleftrightarrow> k = n" for k by auto
    then show ?thesis using True by auto
  next
    case False
    then have "n = (if k \<le> 16 then k else k + 15) \<longleftrightarrow> k = n - 15 \<and> 32 \<le> n" for k by auto
    then show ?thesis using False by auto
  qed
  finally show ?thesis .
qed

lemma small_mask_bit: "m < 2 ^ 24 \<Longrightarrow> bit (m :: u64) n \<Longrightarrow> n < 24"
proof -
  assume "m < 2 ^ 24" and b: "bit m n"
  then have "take_bit 24 (unat m) = unat m" by (simp add: take_bit_nat_eq_self word_less_nat_alt)
  moreover have "bit (unat m) n" using b by (simp add: bit_unsigned_iff)
  ultimately have "bit (take_bit 24 (unat m)) n" by simp
  then show "n < 24" by (simp add: bit_take_bit_iff)
qed

section \<open>Writing into spans\<close>

lemma write_all_exact:
  "write_all xs (k, out) = (if k + length xs \<le> length out \<or> xs = []
     then Some (k + length xs, take k out @ xs @ drop (k + length xs) out) else None)"
proof (induction xs arbitrary: k out)
  case (Cons x xs)
  show ?case
  proof (cases "k < length out")
    case True
    then have "take (k + 1) (out[k := x]) = take k out @ [x]" by (simp add: take_Suc_conv_app_nth)
    moreover have "drop (k + 1 + length xs) (out[k := x]) = drop (k + 1 + length xs) out" by simp
    moreover have "take (k + 1) out @ drop (k + 1) out = out" by simp
    ultimately show ?thesis using Cons [of "k + 1" "out[k := x]"] True
      by (cases xs) (auto simp: upd_conv_take_nth_drop)
  next
    case False
    then show ?thesis by simp
  qed
qed simp

text \<open>The descriptors of a submission, in the order in which they are written.\<close>

definition wait_list :: "gpu_submission \<Rightarrow> vk_semaphore_submit_info list" where
  "wait_list s =
     (let d = (if defaultWaitStageMask s \<noteq> 0 then defaultWaitStageMask s else getDefaultWaitStage (queue s))
      in map (\<lambda>x. toVkSemaphoreSubmitInfo_desc x d) (sub_waits s) @ map (\<lambda>sp. toVkSemaphoreSubmitInfo sp d 0) (waitSyncPoints s))"

definition signal_list :: "gpu_submission \<Rightarrow> vk_semaphore_submit_info list" where
  "signal_list s =
     (let d = (if defaultSignalStageMask s \<noteq> 0 then defaultSignalStageMask s else getDefaultSignalStage (queue s))
      in map (\<lambda>x. toVkSemaphoreSubmitInfo_desc x d) (sub_signals s) @ map (\<lambda>sp. toVkSemaphoreSubmitInfo sp d 0) (signalSyncPoints s))"

definition command_list :: "gpu_submission \<Rightarrow> vk_command_buffer_submit_info list" where
  "command_list s = map (\<lambda>p. toVkCommandBufferSubmitInfo_ptr p 0) (commandBuffers s)"

definition fits :: "gpu_submission \<Rightarrow> 'a span \<Rightarrow> 'b span \<Rightarrow> 'c span \<Rightarrow> bool" where
  "fits s w c g \<longleftrightarrow> length (wait_list s) \<le> length (snd w) \<and> length (command_list s) \<le> length (snd c)
     \<and> length (signal_list s) \<le> length (snd g)"

definition over :: "'a list \<Rightarrow> 'a span \<Rightarrow> 'a span" where
  "over xs sp = (fst sp, xs @ drop (length xs) (snd sp))"

text \<open>Two consecutive loops over one span write the concatenation.\<close>

lemma write_two:
  "(case write_all xs (0, out) of None \<Rightarrow> None | Some r \<Rightarrow> (case write_all ys r of None \<Rightarrow> None | Some (k, r) \<Rightarrow> f r))
     = (if length (xs @ ys) \<le> length out then f (xs @ ys @ drop (length (xs @ ys)) out) else None)"
proof (cases "length xs \<le> length out")
  case True
  then have "write_all xs (0, out) = Some (length xs, xs @ drop (length xs) out)" by (simp add: write_all_exact)
  then show ?thesis using True by (cases ys) (simp_all add: write_all_exact add.commute)
next
  case False
  then show ?thesis by (cases xs) (simp_all add: write_all_exact)
qed

lemma write_one:
  "(case write_all xs (0, out) of None \<Rightarrow> None | Some (k, r) \<Rightarrow> f r)
     = (if length xs \<le> length out then f (xs @ drop (length xs) out) else None)"
  by (cases xs) (simp_all add: write_all_exact)

lemma toVkSubmitInfo2_eq:
  "toVkSubmitInfo2 s w c g =
     (if fits s w c g then
        Some (\<lparr>sub_sType = VK_STRUCTURE_TYPE_SUBMIT_INFO_2, sub_pNext = 0, sub_flags = submitFlags s,
               waitSemaphoreInfoCount = of_nat (length (wait_list s)), pWaitSemaphoreInfos = (if wait_list s = [] then 0 else fst w),
               commandBufferInfoCount = of_nat (length (command_list s)), pCommandBufferInfos = (if command_list s = [] then 0 else fst c),
               signalSemaphoreInfoCount = of_nat (length (signal_list s)), pSignalSemaphoreInfos = (if signal_list s = [] then 0 else fst g)\<rparr>,
              \<lparr>waitInfos = over (wait_list s) w, commandInfos = over (command_list s) c, signalInfos = over (signal_list s) g\<rparr>)
      else None)"
  unfolding toVkSubmitInfo2_def Let_def write_two write_one
  by (auto simp: fits_def over_def wait_list_def signal_list_def command_list_def Let_def)

section \<open>Properties\<close>

text \<open>
  C34: the translation of stage masks is exact: each of the 24 flags goes to its own Vulkan bit and no
  other bit is ever set, so that unions are kept and different masks have different translations.
\<close>

theorem stages_exact:
  assumes "a < 2 ^ 24" and "b < 2 ^ 24"
  shows "(toVkPipelineStageFlags2 a = toVkPipelineStageFlags2 b \<longleftrightarrow> a = b)
    \<and> toVkPipelineStageFlags2 (stage_or a b) = toVkPipelineStageFlags2 a OR toVkPipelineStageFlags2 b
    \<and> (hasStage a (stage_value s) \<longleftrightarrow> toVkPipelineStageFlags2 a AND vk_stage_bit s = vk_stage_bit s)
    \<and> (toVkPipelineStageFlags2 a = 0 \<longleftrightarrow> a = 0)"
proof -
  have inj: "x = y" if eq: "toVkPipelineStageFlags2 x = toVkPipelineStageFlags2 y" and s: "x < 2 ^ 24" "y < 2 ^ 24" for x y
  proof (rule bit_eqI)
    fix n
    have e: "bit (toVkPipelineStageFlags2 x) k = bit (toVkPipelineStageFlags2 y) k" for k using eq by simp
    show "bit x n \<longleftrightarrow> bit y n"
    proof (cases "n < 24")
      case True
      then show ?thesis using e [of n] e [of "n + 15"] by (cases "n \<le> 16") (simp_all add: stages_bit)
    next
      case False
      then show ?thesis using small_mask_bit s by blast
    qed
  qed
  have or: "toVkPipelineStageFlags2 (stage_or a b) = toVkPipelineStageFlags2 a OR toVkPipelineStageFlags2 b"
    by (rule bit_eqI) (auto simp: stages_bit stage_or_def bit_or_iff)
  have "toVkPipelineStageFlags2 a AND vk_stage_bit s = vk_stage_bit s \<longleftrightarrow> bit (toVkPipelineStageFlags2 a) (vk_index s)"
  proof
    assume "toVkPipelineStageFlags2 a AND vk_stage_bit s = vk_stage_bit s"
    from arg_cong [OF this, of "\<lambda>w. bit w (vk_index s)"] show "bit (toVkPipelineStageFlags2 a) (vk_index s)"
      by (simp add: bit_and_iff vk_stage_bit_bit)
  next
    assume "bit (toVkPipelineStageFlags2 a) (vk_index s)"
    then show "toVkPipelineStageFlags2 a AND vk_stage_bit s = vk_stage_bit s"
      by (intro bit_eqI) (auto simp: bit_and_iff vk_stage_bit_bit)
  qed
  also have "\<dots> \<longleftrightarrow> bit a (stage_index s)" using stage_index_less [of s] by (auto simp: stages_bit vk_index_def)
  finally have has: "hasStage a (stage_value s) \<longleftrightarrow> toVkPipelineStageFlags2 a AND vk_stage_bit s = vk_stage_bit s"
    by (simp add: hasStage_bit)
  have zero: "toVkPipelineStageFlags2 0 = 0" by (rule bit_eqI) (simp add: stages_bit)
  have "toVkPipelineStageFlags2 a = 0 \<longleftrightarrow> a = 0" using inj [of a 0] assms zero by auto
  then show ?thesis using inj [OF _ assms] or has by blast
qed

theorem stages_exact_witness:
  "toVkPipelineStageFlags2 (stage_value Copy) \<noteq> toVkPipelineStageFlags2 (stage_value Host)
     \<and> toVkPipelineStageFlags2 (stage_value Copy) AND vk_stage_bit Copy = vk_stage_bit Copy"
proof -
  have m: "stage_value Copy < 2 ^ 24" "stage_value Host < 2 ^ 24" "stage_value Copy \<noteq> stage_value Host" by simp_all
  have "hasStage (stage_value Copy) (stage_value Copy)" by (simp add: hasStage_def)
  then show ?thesis using stages_exact [OF m(1,2), of Copy] m(3) by blast
qed

text \<open>
  C35: translating a submission needs spans as long as its lists and then writes exactly them: the
  waits with explicit stages before the plain ones, commands, signals, in order and nowhere else;
  the counts are the lengths and a pointer is null exactly when its count is zero. With a span that
  is too short, as the arena returns when memory is exhausted, it writes out of bounds.
\<close>

theorem submit_exact:
  assumes "length (wait_list s) < 2 ^ 32" and "length (command_list s) < 2 ^ 32" and "length (signal_list s) < 2 ^ 32"
    and "fst w \<noteq> 0" and "fst c \<noteq> 0" and "fst g \<noteq> 0"
  shows "(toVkSubmitInfo2 s w c g = None \<longleftrightarrow> \<not> fits s w c g)
    \<and> (\<forall>info st. toVkSubmitInfo2 s w c g = Some (info, st) \<longrightarrow>
         st = \<lparr>waitInfos = over (wait_list s) w, commandInfos = over (command_list s) c, signalInfos = over (signal_list s) g\<rparr>
         \<and> take (unat (waitSemaphoreInfoCount info)) (snd (waitInfos st)) = wait_list s
         \<and> take (unat (commandBufferInfoCount info)) (snd (commandInfos st)) = command_list s
         \<and> take (unat (signalSemaphoreInfoCount info)) (snd (signalInfos st)) = signal_list s
         \<and> (pWaitSemaphoreInfos info = 0 \<longleftrightarrow> waitSemaphoreInfoCount info = 0)
         \<and> (pCommandBufferInfos info = 0 \<longleftrightarrow> commandBufferInfoCount info = 0)
         \<and> (pSignalSemaphoreInfos info = 0 \<longleftrightarrow> signalSemaphoreInfoCount info = 0))"
proof -
  have n: "unat (of_nat (length xs) :: u32) = length xs" "(of_nat (length xs) :: u32) = 0 \<longleftrightarrow> xs = []"
    if "length xs < 2 ^ 32" for xs :: "'x list"
  proof -
    show u: "unat (of_nat (length xs) :: u32) = length xs" using that by (simp add: unat_of_nat)
    show "(of_nat (length xs) :: u32) = 0 \<longleftrightarrow> xs = []" using u by (metis length_0_conv unat_eq_zero)
  qed
  show ?thesis
    unfolding toVkSubmitInfo2_eq using n(1) [OF assms(1)] n(1) [OF assms(2)] n(1) [OF assms(3)]
      n(2) [OF assms(1)] n(2) [OF assms(2)] n(2) [OF assms(3)] assms(4-6)
    by (auto simp: over_def)
qed

definition demo_submission :: gpu_submission where
  "demo_submission = \<lparr>queue = Compute, submitFlags = 0, commandBuffers = [512], sub_waits = [], sub_signals = [],
     waitSyncPoints = [\<lparr>handle = 7, sync_value = 3, timeoutMs = 2000\<rparr>], signalSyncPoints = [],
     defaultWaitStageMask = 0, defaultSignalStageMask = 0\<rparr>"

theorem submit_exact_witness:
  "toVkSubmitInfo2 demo_submission (64, []) (128, []) (256, []) = None
    \<and> (\<forall>x y. \<exists>info st. toVkSubmitInfo2 demo_submission (64, [x]) (128, [y]) (256, []) = Some (info, st)
         \<and> take (unat (waitSemaphoreInfoCount info)) (snd (waitInfos st)) = wait_list demo_submission
         \<and> pSignalSemaphoreInfos info = 0)"
proof -
  have len: "length (wait_list demo_submission) = 1" "length (command_list demo_submission) = 1" "length (signal_list demo_submission) = 0"
    by (simp_all add: demo_submission_def wait_list_def command_list_def signal_list_def Let_def)
  have small: "length (wait_list demo_submission) < 2 ^ 32" "length (command_list demo_submission) < 2 ^ 32"
    "length (signal_list demo_submission) < 2 ^ 32" by (simp_all add: len)
  have a: "fst (64 :: u64, ws) \<noteq> 0" "fst (128 :: u64, cs) \<noteq> 0" "fst (256 :: u64, gs) \<noteq> 0"
    for ws gs :: "vk_semaphore_submit_info list" and cs :: "vk_command_buffer_submit_info list" by simp_all
  note ex = submit_exact [OF small a(1) a(2) a(3)]
  have "\<not> fits demo_submission (64, []) (128, []) (256, [])" by (simp add: fits_def len)
  then have none: "toVkSubmitInfo2 demo_submission (64, []) (128, []) (256, []) = None" using ex by blast
  have "\<exists>info st. toVkSubmitInfo2 demo_submission (64, [x]) (128, [y]) (256, []) = Some (info, st)
         \<and> take (unat (waitSemaphoreInfoCount info)) (snd (waitInfos st)) = wait_list demo_submission
         \<and> pSignalSemaphoreInfos info = 0" for x y
  proof -
    have "fits demo_submission (64, [x]) (128, [y]) (256, [])" by (simp add: fits_def len)
    then obtain info st where r: "toVkSubmitInfo2 demo_submission (64, [x]) (128, [y]) (256, []) = Some (info, st)"
      using ex by fastforce
    moreover have "signalSemaphoreInfoCount info = 0" using r len(3) by (auto simp: toVkSubmitInfo2_eq split: if_splits)
    ultimately show ?thesis using ex by blast
  qed
  then show ?thesis using none by blast
qed

end
