(* ===== verification/Task_Handle.thy ===== *)
theory Task_Handle
  imports Graph_Build
begin

text \<open>
  Handles: \<^verbatim>\<open>task_handle.hpp\<close> and the two \<open>precede\<close> bodies at the end of \<^verbatim>\<open>task_graph.hpp\<close>. A handle is a
  value with an entry and an exit node, both null for the default handle; chaining handles adds
  edges from the exit of one to the entry of the other.
\<close>

section \<open>Handles\<close>

record task_handle =
  h_entry :: node_ptr
  h_exit :: node_ptr

definition TaskHandle_null :: task_handle where
  "TaskHandle_null = \<lparr>h_entry = None, h_exit = None\<rparr>"

definition TaskHandle :: "node_ptr \<Rightarrow> task_handle" where
  "TaskHandle n = \<lparr>h_entry = n, h_exit = n\<rparr>"

definition entryNode :: "task_handle \<Rightarrow> node_ptr" where
  "entryNode h = h_entry h"

definition exitNode :: "task_handle \<Rightarrow> node_ptr" where
  "exitNode h = h_exit h"

definition handle_valid :: "task_handle \<Rightarrow> bool" where
  "handle_valid h \<longleftrightarrow> h_entry h \<noteq> None"

definition isCompound :: "task_handle \<Rightarrow> bool" where
  "isCompound h \<longleftrightarrow> h_entry h \<noteq> h_exit h"

definition handle_name :: "task_handle \<Rightarrow> 'u engine \<Rightarrow> string option" where
  "handle_name h g = map_option (\<lambda>n. node_name (nodes g n)) (h_entry h)"

definition handle_domain :: "task_handle \<Rightarrow> 'u engine \<Rightarrow> TaskDomain" where
  "handle_domain h g = (case h_entry h of Some n \<Rightarrow> domain (nodes g n) | None \<Rightarrow> Worker)"

definition handle_priority :: "task_handle \<Rightarrow> 'u engine \<Rightarrow> TaskPriority" where
  "handle_priority h g = (case h_entry h of Some n \<Rightarrow> priority (nodes g n) | None \<Rightarrow> Normal)"

text \<open>The three setters have the same body: update the entry, and the exit when it is another node.\<close>

definition update_ends :: "('u task_node \<Rightarrow> 'u task_node) \<Rightarrow> task_handle \<Rightarrow> 'u engine \<Rightarrow> 'u engine" where
  "update_ends f h g =
     (let g = (case h_entry h of Some n \<Rightarrow> upd_node n f g | None \<Rightarrow> g)
      in case h_exit h of Some n \<Rightarrow> if h_exit h \<noteq> h_entry h then upd_node n f g else g | None \<Rightarrow> g)"

definition set_domain :: "TaskDomain \<Rightarrow> task_handle \<Rightarrow> 'u engine \<Rightarrow> task_handle \<times> 'u engine" where
  "set_domain d h g = (h, update_ends (\<lambda>x. x\<lparr>domain := d\<rparr>) h g)"

definition set_priority :: "TaskPriority \<Rightarrow> task_handle \<Rightarrow> 'u engine \<Rightarrow> task_handle \<times> 'u engine" where
  "set_priority p h g = (h, update_ends (\<lambda>x. x\<lparr>priority := p\<rparr>) h g)"

definition set_name :: "string \<Rightarrow> task_handle \<Rightarrow> 'u engine \<Rightarrow> task_handle \<times> 'u engine" where
  "set_name s h g = (h, update_ends (\<lambda>x. x\<lparr>node_name := s\<rparr>) h g)"

definition handle_waits :: "int \<Rightarrow> timeline_sync_point \<Rightarrow> task_handle \<Rightarrow> 'u engine \<Rightarrow> task_handle \<times> 'u engine" where
  "handle_waits now sp h g = (h, case h_entry h of Some n \<Rightarrow> waits now n sp g | None \<Rightarrow> g)"

definition handle_status :: "task_handle \<Rightarrow> 'u engine \<Rightarrow> Status" where
  "handle_status h g =
     (case h_entry h of
        None \<Rightarrow> Error
      | Some n \<Rightarrow> if node_state (nodes g n) = Timeout then GpuTimeout else Success)"

section \<open>Chaining\<close>

text \<open>The graph is taken from the first node that has one; there is one graph here.\<close>

definition precede :: "task_handle \<Rightarrow> task_handle \<Rightarrow> 'u engine \<Rightarrow> 'u engine" where
  "precede h other g =
     (case (h_exit h, h_entry other) of
        (Some a, Some b) \<Rightarrow> if has_graph (nodes g a) \<or> has_graph (nodes g b) then addEdge a b (-1) g else g
      | _ \<Rightarrow> g)"

definition succeed :: "task_handle \<Rightarrow> task_handle \<Rightarrow> 'u engine \<Rightarrow> 'u engine" where
  "succeed h other g = precede other h g"

definition precede_all :: "task_handle \<Rightarrow> task_handle list \<Rightarrow> 'u engine \<Rightarrow> 'u engine" where
  "precede_all h ts g = fold (precede h) ts g"

definition succeed_all :: "task_handle \<Rightarrow> task_handle list \<Rightarrow> 'u engine \<Rightarrow> 'u engine" where
  "succeed_all h ss g = fold (\<lambda>s. precede s h) ss g"

record branch_handle =
  b_node :: node_ptr
  b_branch :: int

definition to_branch :: "int \<Rightarrow> task_handle \<Rightarrow> branch_handle" where
  "to_branch i h = \<lparr>b_node = h_exit h, b_branch = i\<rparr>"

definition branch_precede :: "branch_handle \<Rightarrow> task_handle \<Rightarrow> 'u engine \<Rightarrow> 'u engine" where
  "branch_precede b other g =
     (case (b_node b, entryNode other) of
        (Some a, Some n) \<Rightarrow> if has_graph (nodes g a) \<or> has_graph (nodes g n) then addEdge a n (b_branch b) g else g
      | _ \<Rightarrow> g)"

definition branch_precede_all :: "branch_handle \<Rightarrow> task_handle list \<Rightarrow> 'u engine \<Rightarrow> 'u engine" where
  "branch_precede_all b ts g = fold (branch_precede b) ts g"

text \<open>The operators: \<open>a >> b\<close>, \<open>cond.to(i) >> b\<close>, fan-out and fan-in with \<open>std::tie\<close>.\<close>

definition chain :: "task_handle \<Rightarrow> task_handle \<Rightarrow> 'u engine \<Rightarrow> task_handle \<times> 'u engine" where
  "chain lhs rhs g = (rhs, precede lhs rhs g)"

definition branch_chain :: "branch_handle \<Rightarrow> task_handle \<Rightarrow> 'u engine \<Rightarrow> task_handle \<times> 'u engine" where
  "branch_chain lhs rhs g = (rhs, branch_precede lhs rhs g)"

definition branch_fan_out :: "branch_handle \<Rightarrow> task_handle list \<Rightarrow> 'u engine \<Rightarrow> branch_handle \<times> 'u engine" where
  "branch_fan_out lhs ts g = (lhs, branch_precede_all lhs ts g)"

definition fan_out :: "task_handle \<Rightarrow> task_handle list \<Rightarrow> 'u engine \<Rightarrow> task_handle \<times> 'u engine" where
  "fan_out lhs ts g = (lhs, precede_all lhs ts g)"

definition fan_in :: "task_handle list \<Rightarrow> task_handle \<Rightarrow> 'u engine \<Rightarrow> task_handle \<times> 'u engine" where
  "fan_in ss tgt g = (tgt, succeed_all tgt ss g)"

section \<open>A pipeline\<close>

text \<open>A client that creates one task per callable and writes \<open>a >> b >> c >> ...\<close>.\<close>

fun emplace_all :: "('u \<Rightarrow> 'u) list \<Rightarrow> 'u engine \<Rightarrow> task_handle list \<times> 'u engine" where
  "emplace_all [] g = ([], g)"
| "emplace_all (f # fs) g =
     (let (n, g) = emplace ''stage'' Worker Normal f g; (hs, g) = emplace_all fs g in (TaskHandle (Some n) # hs, g))"

fun chain_all :: "task_handle \<Rightarrow> task_handle list \<Rightarrow> 'u engine \<Rightarrow> task_handle \<times> 'u engine" where
  "chain_all h [] g = (h, g)"
| "chain_all h (k # ks) g = (let (h, g) = chain h k g in chain_all h ks g)"

definition pipeline :: "'u \<Rightarrow> ('u \<Rightarrow> 'u) list \<Rightarrow> 'u engine" where
  "pipeline u fs =
     (case emplace_all fs (TaskGraph_new u) of
        ([], g) \<Rightarrow> g
      | (h # hs, g) \<Rightarrow> snd (chain_all h hs g))"

text \<open>As a sequence of builder calls.\<close>

lemma emplace_fst: "fst (emplace name d p f g) = next_node g"
  by (simp add: emplace_def create_node_def Let_def)

lemma emplace_next: "next_node (snd (emplace name d p f g)) = Suc (next_node g)"
  by (simp add: emplace_def create_node_def appendNode_def upd_node_def Let_def)

lemma emplace_all_ops:
  "emplace_all fs g = (map (\<lambda>i. TaskHandle (Some i)) [next_node g..<next_node g + length fs],
     fold build_step (map (Emplace ''stage'' Worker Normal) fs) g)"
proof (induction fs arbitrary: g)
  case (Cons f fs)
  show ?case
    using Cons [of "snd (emplace ''stage'' Worker Normal f g)"] emplace_fst [of "''stage''" Worker Normal f g]
      emplace_next [of "''stage''" Worker Normal f g]
    by (simp add: split_beta upt_conv_Cons Let_def del: upt_Suc)
qed simp

lemma addEdge_has_graph [simp]: "has_graph (nodes (addEdge a b br g) v) = has_graph (nodes g v)"
  by (simp add: addEdge_def Let_def)

lemma chain_all_ops:
  assumes "\<forall>v \<in> set (a # bs). has_graph (nodes g v)"
  shows "snd (chain_all (TaskHandle (Some a)) (map (\<lambda>i. TaskHandle (Some i)) bs) g)
    = fold build_step (map2 (\<lambda>x y. AddEdge x y (-1)) (a # bs) bs) g"
  using assms
proof (induction bs arbitrary: a g)
  case (Cons b bs)
  have "\<forall>v \<in> set (b # bs). has_graph (nodes (addEdge a b (-1) g) v)" using Cons.prems by simp
  then show ?case using Cons.IH [of b "addEdge a b (-1) g"] Cons.prems by (simp add: chain_def precede_def TaskHandle_def)
qed simp

lemma emplace_ops_ok: "ops_ok rank k (map (Emplace s d p) fs)"
  by (induction fs arbitrary: k) auto

lemma node_ops_emplace: "node_ops (map (Emplace s d p) fs) = length fs"
  by (induction fs) auto

definition pipeline_ops :: "('u \<Rightarrow> 'u) list \<Rightarrow> 'u build_op list" where
  "pipeline_ops fs = map (Emplace ''stage'' Worker Normal) fs @ map (\<lambda>i. AddEdge i (Suc i) (-1)) [0..<length fs - 1]"

lemma pipeline_build: "pipeline u fs = build u (pipeline_ops fs)"
proof (cases fs)
  case Nil
  then show ?thesis by (simp add: pipeline_def pipeline_ops_def build_def)
next
  case (Cons f fs')
  let ?g = "fold build_step (map (Emplace ''stage'' Worker Normal) fs) (TaskGraph_new u)" and ?n = "length fs'"
  have n0: "next_node (TaskGraph_new u) = 0" by (simp add: TaskGraph_new_def)
  have em: "emplace_all fs (TaskGraph_new u) = (TaskHandle (Some 0) # map (\<lambda>i. TaskHandle (Some i)) [1..<Suc ?n], ?g)"
    using emplace_all_ops [of fs "TaskGraph_new u"] Cons n0 by (simp add: upt_conv_Cons del: upt_Suc)
  have "built_inv (\<lambda>n. n) (node_ops (map (Emplace ''stage'' Worker Normal) fs)) {} (mset (edge_targets (map (Emplace ''stage'' Worker Normal) fs))) ?g"
    using built_steps [OF built_new [of "\<lambda>n. n" u] emplace_ops_ok [of "\<lambda>n. n" 0 "''stage''" Worker Normal fs]] by simp
  then have "\<forall>v < length fs. has_graph (nodes ?g v)" unfolding built_inv_def node_ops_emplace by blast
  then have "\<forall>v \<in> set (0 # [1..<Suc ?n]). has_graph (nodes ?g v)" using Cons by auto
  note chain_all_ops [OF this]
  moreover have "map2 (\<lambda>x y. AddEdge x y (-1)) (0 # [1..<Suc ?n]) [1..<Suc ?n]
      = (map (\<lambda>i. AddEdge i (Suc i) (-1)) [0..<?n] :: 'a build_op list)"
    by (rule nth_equalityI) (auto simp: nth_Cons' simp del: upt_Suc)
  ultimately show ?thesis
    using em Cons by (simp add: pipeline_def pipeline_ops_def build_def del: upt_Suc)
qed

lemma pipeline_ops_facts:
  shows "ops_ok (\<lambda>n. n) 0 (pipeline_ops fs)" and "node_ops (pipeline_ops fs) = length fs"
    and "edge_targets (pipeline_ops fs) = map Suc [0..<length fs - 1]"
    and "edges_from (pipeline_ops fs) v = (if Suc v < length fs then [Suc v] else [])"
    and "node_specs (pipeline_ops fs) = map (\<lambda>f. (Static, RunFn f)) fs"
proof -
  have e: "ops_ok (\<lambda>n. n) n (map (\<lambda>i. AddEdge i (Suc i) (-1)) is) \<longleftrightarrow> (\<forall>i \<in> set is. Suc i < n)"
    "node_ops (map (\<lambda>i. AddEdge i (Suc i) (-1)) is :: 'a build_op list) = 0"
    "edge_targets (map (\<lambda>i. AddEdge i (Suc i) (-1)) is :: 'a build_op list) = map Suc is"
    "edges_from (map (\<lambda>i. AddEdge i (Suc i) (-1)) is :: 'a build_op list) v = map Suc (filter (\<lambda>i. i = v) is)"
    "node_specs (map (\<lambda>i. AddEdge i (Suc i) (-1)) is :: 'a build_op list) = []" for n "is"
    by (induction "is") auto
  have o: "ops_ok (\<lambda>n. n) k (map (Emplace s d p) fs @ ops) \<longleftrightarrow> ops_ok (\<lambda>n. n) (k + length fs) ops"
    "node_ops (map (Emplace s d p) fs @ ops) = length fs + node_ops ops"
    "edge_targets (map (Emplace s d p) fs @ ops) = edge_targets ops" "edges_from (map (Emplace s d p) fs @ ops) v = edges_from ops v"
    "node_specs (map (Emplace s d p) fs @ ops) = map (\<lambda>f. (Static, RunFn f)) fs @ node_specs ops"
    for k s d p and fs :: "('a \<Rightarrow> 'a) list" and ops
    by (induction fs arbitrary: k) auto
  have "filter (\<lambda>i. i = v) [0..<n] = (if v < n then [v] else [])" for n by (induction n) auto
  then show "ops_ok (\<lambda>n. n) 0 (pipeline_ops fs)" "node_ops (pipeline_ops fs) = length fs"
    "edge_targets (pipeline_ops fs) = map Suc [0..<length fs - 1]"
    "edges_from (pipeline_ops fs) v = (if Suc v < length fs then [Suc v] else [])"
    "node_specs (pipeline_ops fs) = map (\<lambda>f. (Static, RunFn f)) fs"
    by (auto simp: pipeline_ops_def o e)
qed

text \<open>An order in which everything comes after its predecessor is the order of the numbers.\<close>

lemma order_unique:
  assumes "mset tr = mset [0..<n]" and "\<And>tr1 m tr2. tr = tr1 @ Suc m # tr2 \<Longrightarrow> m \<in> set tr1"
  shows "tr = [0..<n]"
proof -
  have len: "length tr = n" using assms(1) by (metis size_mset length_upt minus_nat.diff_0)
  have d: "distinct tr" using assms(1) by (metis distinct_upt mset_eq_imp_distinct_iff)
  have set: "set tr = {..<n}" using assms(1) by (metis set_mset_mset atLeast0LessThan set_upt)
  have "take k tr = [0..<k]" if "k \<le> n" for k
    using that
  proof (induction k)
    case (Suc k)
    then have ih: "take k tr = [0..<k]" and k: "k < length tr" using len by simp_all
    have split: "tr = [0..<k] @ tr ! k # drop (Suc k) tr" using id_take_nth_drop [OF k] ih by simp
    have notin: "tr ! k \<notin> set [0..<k]" using d split by (metis distinct_append disjoint_iff list.set_intros(1))
    have "tr ! k = k"
    proof (rule ccontr)
      assume ne: "tr ! k \<noteq> k"
      then have gt: "k < tr ! k" using notin by simp
      then have "tr ! k - 1 \<in> set [0..<k]"
        using assms(2) [of "[0..<k]" "tr ! k - 1" "drop (Suc k) tr"] split by simp
      then show False using gt by simp
    qed
    then show ?case using ih k by (simp add: take_Suc_conv_app_nth)
  qed simp
  from this [of n] show ?thesis using len by simp
qed

section \<open>Properties\<close>

text \<open>
  C33: \<open>a >> b >> c >> ...\<close> runs in that order. A pipeline of tasks chained with \<open>>>\<close> has a run to the
  end, every such run executes the tasks exactly in the order of the chain, and the program state
  is the composition of the callables.
\<close>

theorem pipeline_in_order:
  assumes "length fs < 2 ^ 32" and "length fs \<le> fuel"
  shows "(\<exists>tr g'. dag_run fuel now (pipeline u fs) tr g' {#})
    \<and> (\<forall>tr g'. dag_run fuel now (pipeline u fs) tr g' {#} \<longrightarrow> tr = [0..<length fs] \<and> user g' = fold (\<lambda>f. f) fs u)"
proof -
  let ?g = "pipeline u fs" and ?n = "length fs"
  note o = pipeline_ops_facts [of fs]
  have "count_list (map Suc [0..<k]) t \<le> 1" for k t by (induction k) (auto simp: count_list_0_iff)
  then have "\<forall>t. count_list (edge_targets (pipeline_ops fs)) t \<le> 65535" unfolding o(3) by (meson le_trans one_le_numeral)
  note b = build_ok [OF o(1) _ this, where u = u, unfolded o(2), OF assms(1), folded pipeline_build]
  have in_n: "length (m_nodeList ?g) = ?n"
    using b(1,2) by (metis card_lessThan dag_okD(1) distinct_card)
  have specs: "node_type (nodes ?g v) = Static" "executeFn (nodes ?g v) = RunFn (fs ! v)" if "v < ?n" for v
    using b(5) [of v] that unfolding o(5) by (simp_all add: spec_of_def)
  have edges: "edge_count (graph_edges ?g) (graph_nodes ?g) = size (in_edges ?g)"
    by (simp add: edge_count_def in_edges_def size_multiset_sum targets_def)
  have fuel: "edge_count (graph_edges ?g) (graph_nodes ?g) \<le> fuel" unfolding edges b(3) o(3) using assms(2) by simp
  have static: "\<forall>v \<in> graph_nodes ?g. node_type (nodes ?g v) \<noteq> Condition" using specs(1) b(2) by simp
  have "\<exists>tr g'. dag_run fuel now ?g ([] @ tr) g' {#}"
    by (rule run_completes [OF graph_run.run_start prepared_state [OF b(1)] fuel])
  moreover have "tr = [0..<?n] \<and> user g' = fold (\<lambda>f. f) fs u" if run: "dag_run fuel now ?g tr g' {#}" for tr g'
  proof -
    note c = complete_run [OF b(1) fuel static run]
    have "mset (m_nodeList ?g) = mset [0..<?n]"
      using b(1,2) by (metis atLeast0LessThan dag_okD(1) distinct_upt set_eq_iff_mset_eq_distinct set_upt)
    then have perm: "mset tr = mset [0..<?n]" using c(1) by simp
    have tr: "tr = [0..<?n]"
    proof (rule order_unique [OF perm])
      fix tr1 m tr2 assume sp: "tr = tr1 @ Suc m # tr2"
      then have "Suc m \<in> set [0..<?n]" using perm by (metis in_set_conv_decomp set_mset_mset)
      then have "m \<in> graph_nodes ?g" "Suc m \<in> set (targets (graph_edges ?g m))" using b(2,4) o(4) [of m] by simp_all
      then show "m \<in> set tr1" by (rule c(4) [OF sp])
    qed
    have "user ?g = u"
    proof -
      have "user (build_step op h) = user h" for op and h :: "'a engine"
        by (cases op) (simp_all add: emplace_eq create_node_def appendNode_def addEdge_def Let_def)
      then have "user (fold build_step ops h) = user h" for ops and h :: "'a engine" by (induction ops arbitrary: h) simp_all
      then show ?thesis by (simp add: pipeline_build build_def TaskGraph_new_def)
    qed
    moreover have "fold (\<lambda>n. run_fn (executeFn (nodes ?g n))) [0..<?n] v = fold (\<lambda>f. f) fs v" for v
    proof -
      have "fold (\<lambda>n. run_fn (executeFn (nodes ?g n))) [0..<?n] v = fold (\<lambda>n. fs ! n) [0..<?n] v"
        by (rule fold_cong) (simp_all add: specs(2) run_fn_def fun_eq_iff)
      also have "\<dots> = fold (\<lambda>f. f) (map ((!) fs) [0..<?n]) v" by (simp add: fold_map comp_def)
      finally show ?thesis by (simp add: map_nth)
    qed
    ultimately show ?thesis using c(3) tr by simp
  qed
  ultimately show ?thesis by simp
qed

theorem pipeline_in_order_witness:
  "\<exists>g'. dag_run 3 0 (pipeline 5 [\<lambda>x. x + 1, \<lambda>x. x * 2, \<lambda>x. x - (3 :: int)]) [0, 1, 2] g' {#} \<and> user g' = 9"
proof -
  let ?fs = "[\<lambda>x. x + 1, \<lambda>x. x * 2, \<lambda>x. x - (3 :: int)]"
  have p: "length ?fs < 2 ^ 32" "length ?fs \<le> 3" by simp_all
  obtain tr g' where "dag_run 3 0 (pipeline 5 ?fs) tr g' {#}" "tr = [0..<length ?fs]" "user g' = fold (\<lambda>f. f) ?fs 5"
    using pipeline_in_order [OF p, of 0 5] by blast
  moreover have "[0..<length ?fs] = [0, 1, 2]" by (simp add: upt_rec)
  ultimately show ?thesis by (auto simp: numeral_2_eq_2)
qed

end
