(* ===== verification/Subflow.thy ===== *)
theory Subflow
  imports Scheduler Task_Handle
begin

text \<open>
  Dynamic subflows: \<^verbatim>\<open>subflow.hpp\<close>. A subflow task builds child tasks while it executes and splices
  them into the run: an exit node takes over the successors of the task and waits for the children.
  The client's function is a parameter of the executing task; it works on the \<open>Subflow\<close>, the engine
  and a further state \<open>x\<close>, which is the scheduler when it joins.
\<close>

section \<open>The builder\<close>

text \<open>
  \<open>sf_exit\<close> is the exit node of a joined subflow: its callable sets \<open>m_isDone\<close> of the subflow, which is
  read off the node's state here. Where the nodes are allocated makes no difference to the store.
\<close>

record subflow =
  sf_parentNode :: node_ptr
  sf_has_graph :: bool
  sf_nodeList :: "node_id list"
  sf_nodeCount :: u32
  sf_exit :: node_ptr
  m_isDone :: bool
  m_spliced :: bool
  m_joined :: bool
  m_detached :: bool

definition Subflow_new :: "node_ptr \<Rightarrow> 'u engine \<Rightarrow> subflow" where
  "Subflow_new parent g =
     \<lparr>sf_parentNode = parent, sf_has_graph = (case parent of None \<Rightarrow> False | Some n \<Rightarrow> has_graph (nodes g n)),
      sf_nodeList = [], sf_nodeCount = 0, sf_exit = None, m_isDone = False, m_spliced = False, m_joined = False, m_detached = False\<rparr>"

definition sub_create ::
  "u32 \<Rightarrow> string \<Rightarrow> TaskDomain \<Rightarrow> TaskPriority \<Rightarrow> TaskType \<Rightarrow> 'u task_fn \<Rightarrow> bool \<Rightarrow> 'u engine \<Rightarrow> node_id \<times> 'u engine" where
  "sub_create ix name d p ty fn has_g g =
     (let n = next_node g
      in (n, g\<lparr>nodes := (nodes g)(n := TaskNode_default\<lparr>node_index := ix, node_name := name, domain := d, priority := p,
                    has_graph := has_g, node_type := ty, executeFn := fn\<rparr>),
               next_node := n + 1\<rparr>))"

definition sub_append :: "node_id \<Rightarrow> subflow \<Rightarrow> subflow" where
  "sub_append n sf = sf\<lparr>sf_nodeList := sf_nodeList sf @ [n]\<rparr>"

definition sub_node ::
  "string \<Rightarrow> TaskDomain \<Rightarrow> TaskPriority \<Rightarrow> TaskType \<Rightarrow> 'u task_fn \<Rightarrow> subflow \<times> 'u engine \<Rightarrow> node_id \<times> subflow \<times> 'u engine" where
  "sub_node name d p ty fn = (\<lambda>(sf, g).
     let (n, g) = sub_create (sf_nodeCount sf) name d p ty fn (sf_has_graph sf) g;
         sf = sf\<lparr>sf_nodeCount := sf_nodeCount sf + 1\<rparr>
     in (n, sub_append n sf, g))"

definition sub_emplace ::
  "string \<Rightarrow> TaskDomain \<Rightarrow> TaskPriority \<Rightarrow> ('u \<Rightarrow> 'u) \<Rightarrow> subflow \<times> 'u engine \<Rightarrow> node_id \<times> subflow \<times> 'u engine" where
  "sub_emplace name d p f = sub_node name d p Static (RunFn f)"

definition sub_emplaceCondition ::
  "string \<Rightarrow> TaskDomain \<Rightarrow> TaskPriority \<Rightarrow> ('u \<Rightarrow> int \<times> 'u) \<Rightarrow> subflow \<times> 'u engine \<Rightarrow> node_id \<times> subflow \<times> 'u engine" where
  "sub_emplaceCondition name d p f = sub_node name d p Condition (CondFn f)"

text \<open>The client's function of a subflow node is an argument of \<open>execute_subflow\<close> below.\<close>

definition sub_emplaceSubflow ::
  "string \<Rightarrow> TaskDomain \<Rightarrow> TaskPriority \<Rightarrow> subflow \<times> 'u engine \<Rightarrow> node_id \<times> subflow \<times> 'u engine" where
  "sub_emplaceSubflow name d p = sub_node name d p SubflowTask NullFn"

definition emplaceSubflow :: "string \<Rightarrow> TaskDomain \<Rightarrow> TaskPriority \<Rightarrow> 'u engine \<Rightarrow> node_id \<times> 'u engine" where
  "emplaceSubflow name d p g =
     (let (n, g) = create_node name d p SubflowTask NullFn g in (n, appendNode n g))"

text \<open>The overloads with defaults, of the graph and of the subflow: no name, \<open>Worker\<close>, \<open>Normal\<close>.\<close>

definition emplace_callable :: "('u \<Rightarrow> 'u) \<Rightarrow> 'u engine \<Rightarrow> node_id \<times> 'u engine" where
  "emplace_callable f = emplace '''' Worker Normal f"

definition emplace_named :: "string \<Rightarrow> ('u \<Rightarrow> 'u) \<Rightarrow> 'u engine \<Rightarrow> node_id \<times> 'u engine" where
  "emplace_named name f = emplace name Worker Normal f"

definition emplace_on :: "string \<Rightarrow> TaskDomain \<Rightarrow> ('u \<Rightarrow> 'u) \<Rightarrow> 'u engine \<Rightarrow> node_id \<times> 'u engine" where
  "emplace_on name d f = emplace name d Normal f"

definition emplaceCondition_callable :: "('u \<Rightarrow> int \<times> 'u) \<Rightarrow> 'u engine \<Rightarrow> node_id \<times> 'u engine" where
  "emplaceCondition_callable f = emplaceCondition '''' Worker Normal f"

definition emplaceCondition_named :: "string \<Rightarrow> ('u \<Rightarrow> int \<times> 'u) \<Rightarrow> 'u engine \<Rightarrow> node_id \<times> 'u engine" where
  "emplaceCondition_named name f = emplaceCondition name Worker Normal f"

definition emplaceCondition_on :: "string \<Rightarrow> TaskDomain \<Rightarrow> ('u \<Rightarrow> int \<times> 'u) \<Rightarrow> 'u engine \<Rightarrow> node_id \<times> 'u engine" where
  "emplaceCondition_on name d f = emplaceCondition name d Normal f"

definition emplaceSubflow_callable :: "'u engine \<Rightarrow> node_id \<times> 'u engine" where
  "emplaceSubflow_callable = emplaceSubflow '''' Worker Normal"

definition emplaceSubflow_named :: "string \<Rightarrow> 'u engine \<Rightarrow> node_id \<times> 'u engine" where
  "emplaceSubflow_named name = emplaceSubflow name Worker Normal"

definition emplaceSubflow_on :: "string \<Rightarrow> TaskDomain \<Rightarrow> 'u engine \<Rightarrow> node_id \<times> 'u engine" where
  "emplaceSubflow_on name d = emplaceSubflow name d Normal"

definition sub_emplace_callable :: "('u \<Rightarrow> 'u) \<Rightarrow> subflow \<times> 'u engine \<Rightarrow> node_id \<times> subflow \<times> 'u engine" where
  "sub_emplace_callable f = sub_emplace '''' Worker Normal f"

definition sub_emplace_named :: "string \<Rightarrow> ('u \<Rightarrow> 'u) \<Rightarrow> subflow \<times> 'u engine \<Rightarrow> node_id \<times> subflow \<times> 'u engine" where
  "sub_emplace_named name f = sub_emplace name Worker Normal f"

definition sub_emplace_on :: "string \<Rightarrow> TaskDomain \<Rightarrow> ('u \<Rightarrow> 'u) \<Rightarrow> subflow \<times> 'u engine \<Rightarrow> node_id \<times> subflow \<times> 'u engine" where
  "sub_emplace_on name d f = sub_emplace name d Normal f"

definition sub_emplaceCondition_callable :: "('u \<Rightarrow> int \<times> 'u) \<Rightarrow> subflow \<times> 'u engine \<Rightarrow> node_id \<times> subflow \<times> 'u engine" where
  "sub_emplaceCondition_callable f = sub_emplaceCondition '''' Worker Normal f"

definition sub_emplaceCondition_named :: "string \<Rightarrow> ('u \<Rightarrow> int \<times> 'u) \<Rightarrow> subflow \<times> 'u engine \<Rightarrow> node_id \<times> subflow \<times> 'u engine" where
  "sub_emplaceCondition_named name f = sub_emplaceCondition name Worker Normal f"

definition sub_emplaceCondition_on :: "string \<Rightarrow> TaskDomain \<Rightarrow> ('u \<Rightarrow> int \<times> 'u) \<Rightarrow> subflow \<times> 'u engine \<Rightarrow> node_id \<times> subflow \<times> 'u engine" where
  "sub_emplaceCondition_on name d f = sub_emplaceCondition name d Normal f"

definition sub_emplaceSubflow_callable :: "subflow \<times> 'u engine \<Rightarrow> node_id \<times> subflow \<times> 'u engine" where
  "sub_emplaceSubflow_callable = sub_emplaceSubflow '''' Worker Normal"

definition sub_emplaceSubflow_named :: "string \<Rightarrow> subflow \<times> 'u engine \<Rightarrow> node_id \<times> subflow \<times> 'u engine" where
  "sub_emplaceSubflow_named name = sub_emplaceSubflow name Worker Normal"

definition sub_emplaceSubflow_on :: "string \<Rightarrow> TaskDomain \<Rightarrow> subflow \<times> 'u engine \<Rightarrow> node_id \<times> subflow \<times> 'u engine" where
  "sub_emplaceSubflow_on name d = sub_emplaceSubflow name d Normal"

text \<open>Accessors of the graph.\<close>

definition graph_nodeCount :: "'u engine \<Rightarrow> u32" where "graph_nodeCount g = m_nodeCount g"
definition pendingTaskCount :: "'u engine \<Rightarrow> u32" where "pendingTaskCount g = m_pendingTasks g"
definition graph_empty :: "'u engine \<Rightarrow> bool" where "graph_empty g \<longleftrightarrow> m_nodeCount g = 0"

definition sub_addEdge :: "node_id \<Rightarrow> node_id \<Rightarrow> int \<Rightarrow> 'u engine \<Rightarrow> 'u engine" where
  "sub_addEdge from to br g =
     (let g = upd_node from (\<lambda>n. n\<lparr>successors := \<lparr>target = Some to, branch = br, isLoopBack = False\<rparr> # successors n\<rparr>) g
      in upd_node to (\<lambda>n. n\<lparr>initialInDegree := initialInDegree n + 1, inDegree := initialInDegree n + 1\<rparr>) g)"

section \<open>Splicing\<close>

text \<open>The exit node, with the successors of the parent unless the subflow was joined.\<close>

definition create_exit :: "subflow \<times> 'u engine \<Rightarrow> node_id \<times> 'u engine" where
  "create_exit = (\<lambda>(sf, g).
     let d = (case sf_parentNode sf of Some p \<Rightarrow> domain (nodes g p) | None \<Rightarrow> Worker);
         pr = (case sf_parentNode sf of Some p \<Rightarrow> priority (nodes g p) | None \<Rightarrow> Normal);
         (x, g) = sub_create (sf_nodeCount sf + 1000000) ''SubflowExit'' d pr Static (RunFn (\<lambda>u. u)) (sf_has_graph sf) g
     in case sf_parentNode sf of
          Some p \<Rightarrow> if \<not> m_joined sf
                    then (x, upd_node p (\<lambda>n. n\<lparr>successors := []\<rparr>) (upd_node x (\<lambda>n. n\<lparr>successors := successors (nodes g p)\<rparr>) g))
                    else (x, g)
        | None \<Rightarrow> (x, g))"

definition connect_sinks :: "node_id \<Rightarrow> node_id list \<Rightarrow> 'u engine \<Rightarrow> 'u engine" where
  "connect_sinks x ns g = fold (\<lambda>c g. if successors (nodes g c) = [] then sub_addEdge c x (-1) g else g) ns g"

definition schedule_sub_roots :: "bool \<Rightarrow> node_id list \<Rightarrow> 'u engine \<Rightarrow> 'u engine" where
  "schedule_sub_roots has_g ns g =
     fold (\<lambda>c g. if initialInDegree (nodes g c) = 0 \<and> has_g then scheduleNode c True g else g) ns g"

definition splice :: "subflow \<times> 'u engine \<Rightarrow> subflow \<times> 'u engine" where
  "splice = (\<lambda>(sf, g).
     if m_spliced sf then (sf, g)
     else
       let sf = sf\<lparr>m_spliced := True\<rparr>
       in if sf_nodeCount sf = 0 then (sf\<lparr>m_isDone := True\<rparr>, g)
          else
            let (sf, total, g) =
                  (if \<not> m_detached sf then
                     let (x, g) = create_exit (sf, g); g = connect_sinks x (sf_nodeList sf) g
                     in (sf\<lparr>sf_exit := (if m_joined sf then Some x else None)\<rparr>, sf_nodeCount sf + 1, g)
                   else (sf\<lparr>m_isDone := True\<rparr>, sf_nodeCount sf, g));
                g = (if sf_has_graph sf then addPendingTasks total g else g)
            in (sf, schedule_sub_roots (sf_has_graph sf) (sf_nodeList sf) g))"

definition sub_isCompleted :: "subflow \<Rightarrow> 'u engine \<Rightarrow> bool" where
  "sub_isCompleted sf g \<longleftrightarrow> m_isDone sf \<or> (case sf_exit sf of None \<Rightarrow> False | Some x \<Rightarrow> node_state (nodes g x) = Completed)"

definition detach :: "subflow \<Rightarrow> subflow" where
  "detach sf = sf\<lparr>m_detached := True\<rparr>"

definition sub_empty :: "subflow \<Rightarrow> bool" where
  "sub_empty sf \<longleftrightarrow> sf_nodeCount sf = 0"

definition sub_size :: "subflow \<Rightarrow> usize" where
  "sub_size sf = ucast (sf_nodeCount sf)"

text \<open>\<open>join\<close> helps on the calling thread \<open>me\<close>; the requests of the splice reach the scheduler first.\<close>

definition sub_join ::
  "nat \<Rightarrow> u32 \<Rightarrow> poll_env list \<Rightarrow> subflow \<times> 'u engine \<times> scheduler \<Rightarrow> (subflow \<times> 'u engine \<times> scheduler) option" where
  "sub_join fuel me envs = (\<lambda>(sf, g, s).
     if m_joined sf then Some (sf, g, s)
     else
       let sf = sf\<lparr>m_joined := True\<rparr>; (sf, g) = splice (sf, g)
       in if sf_nodeCount sf = 0 then Some (sf, g, s)
          else if sf_has_graph sf \<and> m_hasScheduler g then
            (case flush_requests me (g, s) of
               None \<Rightarrow> None
             | Some st \<Rightarrow>
                 (case helpUntil fuel me (\<lambda>(g, s). Some (sub_isCompleted sf g, g, s)) envs st of
                    None \<Rightarrow> None
                  | Some (_, g, s) \<Rightarrow> Some (sf, g, s)))
          else Some (sf, g, s))"

section \<open>Executing a subflow task\<close>

text \<open>\<open>TaskNode::execute\<close> on a node whose callable is the closure of \<open>emplaceSubflow\<close>.\<close>

definition execute_subflow ::
  "nat \<Rightarrow> (subflow \<times> 'u engine \<times> 'x \<Rightarrow> (subflow \<times> 'u engine \<times> 'x) option) \<Rightarrow> node_id \<Rightarrow> 'u engine \<times> 'x \<Rightarrow> ('u engine \<times> 'x) option" where
  "execute_subflow fuel userFn n = (\<lambda>(g, x).
     let g = upd_node n (\<lambda>y. y\<lparr>node_state := Executing\<rparr>) g
     in case userFn (Subflow_new (Some n) g, g, x) of
          None \<Rightarrow> None
        | Some (sf, g, x) \<Rightarrow>
            let (sf, g) = splice (sf, g);
                g = upd_node n (\<lambda>y. y\<lparr>node_state := Completed\<rparr>) g
            in case unblockSuccessors fuel n g of
                 None \<Rightarrow> None
               | Some g \<Rightarrow> Some (if has_graph (nodes g n) then onTaskCompleted n g else g, x))"

definition run_subflow ::
  "nat \<Rightarrow> u32 \<Rightarrow> (subflow \<times> 'u engine \<times> scheduler \<Rightarrow> (subflow \<times> 'u engine \<times> scheduler) option) \<Rightarrow> node_id
     \<Rightarrow> 'u engine \<times> scheduler \<Rightarrow> ('u engine \<times> scheduler) option" where
  "run_subflow fuel me userFn n st =
     (case execute_subflow fuel userFn n st of None \<Rightarrow> None | Some st \<Rightarrow> flush_requests me st)"

text \<open>
  A client that creates children and edges between them; the numbers in its edges are relative to
  the first child. The edges go through the handles, hence through \<open>TaskGraph::addEdge\<close>.
\<close>

fun sub_step :: "node_id \<Rightarrow> 'u build_op \<Rightarrow> subflow \<times> 'u engine \<Rightarrow> subflow \<times> 'u engine" where
  "sub_step base (Emplace name d p f) s = snd (sub_emplace name d p f s)"
| "sub_step base (EmplaceCondition name d p f) s = snd (sub_emplaceCondition name d p f s)"
| "sub_step base (AddEdge a b br) (sf, g) = (sf, addEdge (base + a) (base + b) br g)"

definition sub_client :: "'u build_op list \<Rightarrow> subflow \<times> 'u engine \<times> 'x \<Rightarrow> (subflow \<times> 'u engine \<times> 'x) option" where
  "sub_client ops = (\<lambda>(sf, g, x). case fold (sub_step (next_node g)) ops (sf, g) of (sf, g) \<Rightarrow> Some (sf, g, x))"

end
