(* ===== verification/Subflow_Run.thy ===== *)
theory Subflow_Run
  imports Subflow
begin

text \<open>
  A subflow task in a run. Executing it extends the run's graph by the children and the exit node, and
  the invariant of the run holds for the extended graph: the successors of the task now depend on
  the exit, the exit on the children without successors. So what came after the task comes after
  all its children, and the run still cannot get stuck.
\<close>

section \<open>Building the children\<close>

text \<open>
  After \<open>k\<close> children of \<open>n\<close> were created on top of the engine \<open>g0\<close>, with edges to \<open>E\<close> between them:
  the children are numbered from \<open>base\<close> on and everything else is as in \<open>g0\<close>.
\<close>

definition children :: "node_id \<Rightarrow> nat \<Rightarrow> node_id set" where
  "children base k = {base..<base + k}"

definition child_ok :: "node_id multiset \<Rightarrow> 'u engine \<Rightarrow> node_id \<Rightarrow> bool" where
  "child_ok E g v \<longleftrightarrow> has_graph (nodes g v) \<and> node_state (nodes g v) = Pending \<and> inDegree (nodes g v) = initialInDegree (nodes g v)
     \<and> initialInDegree (nodes g v) = of_nat (count E v) \<and> (\<forall>e \<in> set (graph_edges g v). \<not> isLoopBack e \<and> target e \<noteq> None)"

definition sub_inv ::
  "(node_id \<Rightarrow> nat) \<Rightarrow> node_id \<Rightarrow> 'u engine \<Rightarrow> nat \<Rightarrow> node_id multiset \<Rightarrow> subflow \<Rightarrow> 'u engine \<Rightarrow> bool" where
  "sub_inv rank n g0 k E sf g \<longleftrightarrow>
     g = g0\<lparr>nodes := nodes g, next_node := next_node g0 + k\<rparr>
     \<and> (\<forall>v < next_node g0. nodes g v = nodes g0 v)
     \<and> sf = (Subflow_new (Some n) g0)\<lparr>sf_nodeList := [next_node g0..<next_node g0 + k], sf_nodeCount := of_nat k\<rparr>
     \<and> (\<forall>v \<in> children (next_node g0) k. child_ok E g v)
     \<and> ranked_on (children (next_node g0) k) (\<lambda>v. rank (v - next_node g0)) (graph_edges g)
     \<and> (\<Sum>v \<in> children (next_node g0) k. mset (targets (graph_edges g v))) = E"

lemma children_Suc: "children base (Suc k) = insert (base + k) (children base k)" "base + k \<notin> children base k" "finite (children base k)"
  by (auto simp: children_def)

lemma sub_inv_new: "sub_inv rank n g0 0 {#} (Subflow_new (Some n) g0) g0"
  by (simp add: sub_inv_def children_def ranked_on_def) (simp add: Subflow_new_def)

text \<open>Targets of edges that stay in the children.\<close>

lemma children_targets:
  assumes "ranked_on (children base k) r (graph_edges g)" and "\<forall>v \<in> children base k. child_ok E g v"
    and "v \<in> children base k"
  shows "set (targets (graph_edges g v)) \<subseteq> children base k"
proof
  fix t assume "t \<in> set (targets (graph_edges g v))"
  then obtain e where e: "e \<in> set (graph_edges g v)" "t = the (target e)" by (auto simp: targets_def)
  then have "target e = Some t" using assms(2,3) by (auto simp: child_ok_def)
  then show "t \<in> children base k" using assms(1,3) e(1) by (auto simp: ranked_on_def)
qed

lemma sub_node_inv:
  assumes inv: "sub_inv rank n g0 k E sf g" and n: "has_graph (nodes g0 n)"
  shows "case sub_node name d p ty fn (sf, g) of (v, sf', g') \<Rightarrow> sub_inv rank n g0 (Suc k) E sf' g'"
proof -
  note i = inv [unfolded sub_inv_def]
  let ?b = "next_node g0" and ?v = "next_node g0 + k"
  obtain N where g: "g = g0\<lparr>nodes := N, next_node := ?v\<rparr>" using i by blast
  have hg: "sf_has_graph sf" and nxt: "next_node g = ?v" and cnt: "sf_nodeCount sf = of_nat k"
    using i n g by (auto simp: Subflow_new_def)
  let ?x = "TaskNode_default\<lparr>node_index := sf_nodeCount sf, node_name := name, domain := d, priority := p,
      has_graph := True, node_type := ty, executeFn := fn\<rparr>"
  define g' where "g' = g\<lparr>nodes := (nodes g)(?v := ?x), next_node := Suc ?v\<rparr>"
  define sf' where "sf' = sf\<lparr>sf_nodeCount := sf_nodeCount sf + 1, sf_nodeList := sf_nodeList sf @ [?v]\<rparr>"
  have eq: "sub_node name d p ty fn (sf, g) = (?v, sf', g')"
    using hg nxt by (simp add: sub_node_def sub_create_def sub_append_def g'_def sf'_def Let_def)
  have nd: "nodes g' = (nodes g)(?v := ?x)" by (simp add: g'_def)
  have ge: "graph_edges g' v = (if v = ?v then [] else graph_edges g v)" for v
    by (simp add: graph_edges_def nd TaskNode_default_def)
  have sub: "set_mset E \<subseteq> children ?b k"
  proof -
    have "\<forall>v \<in> children ?b k. set (targets (graph_edges g v)) \<subseteq> children ?b k" using children_targets i by blast
    then show ?thesis using i children_Suc(3) by (metis (no_types, lifting) UN_least set_mset_mset set_mset_sum)
  qed
  then have "count E ?v = 0" using children_Suc(2) by (auto simp: count_eq_zero_iff)
  then have new: "child_ok E g' ?v" by (simp add: child_ok_def ge nd TaskNode_default_def)
  have old: "child_ok E g' v" if "v \<in> children ?b k" for v
    using i that children_Suc(2) [of ?b k] by (auto simp: child_ok_def ge nd)
  have rk: "ranked_on (children ?b (Suc k)) (\<lambda>v. rank (v - ?b)) (graph_edges g')"
    using i children_Suc(2) [of ?b k] by (auto simp: ranked_on_def ge children_Suc(1))
  have "(\<Sum>v \<in> children ?b k. mset (targets (graph_edges g' v))) = E"
    using i children_Suc(2) [of ?b k] by (metis (no_types, lifting) ge sum.cong)
  then have E: "(\<Sum>v \<in> children ?b (Suc k). mset (targets (graph_edges g' v))) = E"
    using children_Suc(2,3) [of ?b k] by (simp add: children_Suc(1) ge targets_def)
  have g0: "g' = g0\<lparr>nodes := nodes g', next_node := ?b + Suc k\<rparr>" by (simp add: g'_def g)
  have sf0: "sf' = (Subflow_new (Some n) g0)\<lparr>sf_nodeList := [?b..<?b + Suc k], sf_nodeCount := of_nat (Suc k)\<rparr>"
    using i by (auto simp: sf'_def)
  show ?thesis unfolding eq prod.case sub_inv_def
    using i g0 sf0 new old rk E by (auto simp: children_Suc(1) nd)
qed

lemma sub_edge_inv:
  assumes inv: "sub_inv rank n g0 k E sf g" and ab: "a < k" "b < k" "rank a < rank b"
  shows "sub_inv rank n g0 k (add_mset (next_node g0 + b) E) sf (addEdge (next_node g0 + a) (next_node g0 + b) br g)"
proof -
  note i = inv [unfolded sub_inv_def]
  let ?o = "next_node g0" and ?a = "next_node g0 + a" and ?b = "next_node g0 + b" and ?S = "children (next_node g0) k"
  let ?e = "\<lparr>target = Some ?b, branch = br, isLoopBack = False\<rparr>"
  have S: "?a \<in> ?S" "?b \<in> ?S" using ab by (auto simp: children_def)
  have rk: "ranked_on ?S (\<lambda>v. rank (v - ?o)) (\<lambda>v. successors (nodes g v))"
    using i by (simp add: graph_edges_def [abs_def])
  define g' where "g' = addEdge ?a ?b br g"
  have g': "g' = upd_node ?b (\<lambda>n. n\<lparr>initialInDegree := initialInDegree n + 1, inDegree := initialInDegree n + 1\<rparr>)
      (upd_node ?a (\<lambda>n. n\<lparr>successors := ?e # successors n\<rparr>) g)"
    unfolding g'_def by (rule addEdge_forward [OF rk S]) (use ab(3) in simp)
  have ne: "?a \<noteq> ?b" using ab(3) by auto
  have ge: "graph_edges g' v = (if v = ?a then ?e # graph_edges g v else graph_edges g v)" for v
    using ne by (auto simp: graph_edges_def g')
  have nd: "has_graph (nodes g' v) = has_graph (nodes g v)" "node_state (nodes g' v) = node_state (nodes g v)"
    "initialInDegree (nodes g' v) = initialInDegree (nodes g v) + (if v = ?b then 1 else 0)"
    "inDegree (nodes g' v) = (if v = ?b then initialInDegree (nodes g v) + 1 else inDegree (nodes g v))" for v
    using ne by (auto simp: g')
  have other: "nodes g' v = nodes g v" if "v < ?o" for v using that by (simp add: g')
  have ok: "child_ok (add_mset ?b E) g' v" if "v \<in> ?S" for v
    using i that by (auto simp: child_ok_def ge nd)
  have rk': "ranked_on ?S (\<lambda>v. rank (v - ?o)) (graph_edges g')"
    using i S ab by (auto simp: ranked_on_def ge)
  have f: "mset (targets (graph_edges g' v)) = (if v = ?a then {#?b#} else {#}) + mset (targets (graph_edges g v))" for v
    by (simp add: ge targets_def)
  have "(\<Sum>v \<in> ?S. if v = ?a then {#?b#} else {#}) = {#?b#}" using S(1) children_Suc(3) by (simp add: sum.delta)
  then have E: "(\<Sum>v \<in> ?S. mset (targets (graph_edges g' v))) = add_mset ?b E" using i by (simp add: f sum.distrib)
  obtain N where "g = g0\<lparr>nodes := N, next_node := ?o + k\<rparr>" using i by blast
  then have g0: "g' = g0\<lparr>nodes := nodes g', next_node := ?o + k\<rparr>" by (simp add: g') (simp add: upd_node_def)
  show ?thesis unfolding sub_inv_def g'_def [symmetric] using i g0 other ok rk' E by simp
qed

lemma sub_steps_inv:
  assumes "sub_inv rank n g0 k E sf g" and "ops_ok rank k ops" and "has_graph (nodes g0 n)"
  shows "case fold (sub_step (next_node g0)) ops (sf, g) of (sf', g') \<Rightarrow>
    sub_inv rank n g0 (k + node_ops ops) (E + mset (map ((+) (next_node g0)) (edge_targets ops))) sf' g'"
  using assms(1,2)
proof (induction ops arbitrary: k E sf g)
  case (Cons op ops)
  show ?case
  proof (cases op)
    case (Emplace name d p f)
    obtain v sf' g' where s: "sub_node name d p Static (RunFn f) (sf, g) = (v, sf', g')" by (metis prod_cases3)
    have "sub_inv rank n g0 (Suc k) E sf' g'"
      using sub_node_inv [OF Cons.prems(1) assms(3), of name d p Static "RunFn f"] s by simp
    from Cons.IH [OF this] show ?thesis using Cons.prems(2) Emplace s by (simp add: sub_emplace_def)
  next
    case (EmplaceCondition name d p f)
    obtain v sf' g' where s: "sub_node name d p Condition (CondFn f) (sf, g) = (v, sf', g')" by (metis prod_cases3)
    have "sub_inv rank n g0 (Suc k) E sf' g'"
      using sub_node_inv [OF Cons.prems(1) assms(3), of name d p Condition "CondFn f"] s by simp
    from Cons.IH [OF this] show ?thesis using Cons.prems(2) EmplaceCondition s by (simp add: sub_emplaceCondition_def)
  next
    case (AddEdge a b br)
    have ab: "a < k" "b < k" "rank a < rank b" using Cons.prems(2) AddEdge by simp_all
    from Cons.IH [OF sub_edge_inv [OF Cons.prems(1) ab, of br]] show ?thesis using Cons.prems(2) AddEdge by simp
  qed
qed simp

section \<open>Splicing\<close>

text \<open>What \<open>connect_sinks\<close> does, node by node.\<close>

definition sinks :: "'u engine \<Rightarrow> node_id list \<Rightarrow> node_id list" where
  "sinks g ns = filter (\<lambda>c. graph_edges g c = []) ns"

definition exit_edge :: "node_id \<Rightarrow> successor_edge" where
  "exit_edge x = \<lparr>target = Some x, branch = -1, isLoopBack = False\<rparr>"

lemma connect_sinks_facts:
  assumes "distinct ns" and "x \<notin> set ns" and "inDegree (nodes g x) = initialInDegree (nodes g x)"
  shows "graph_edges (connect_sinks x ns g) v = (if v \<in> set (sinks g ns) then [exit_edge x] else graph_edges g v)"
    and "initialInDegree (nodes (connect_sinks x ns g) v)
      = (if v = x then initialInDegree (nodes g x) + of_nat (length (sinks g ns)) else initialInDegree (nodes g v))"
    and "inDegree (nodes (connect_sinks x ns g) v)
      = (if v = x then initialInDegree (nodes g x) + of_nat (length (sinks g ns)) else inDegree (nodes g v))"
    and "has_graph (nodes (connect_sinks x ns g) v) = has_graph (nodes g v)"
    and "node_state (nodes (connect_sinks x ns g) v) = node_state (nodes g v)"
    and "node_type (nodes (connect_sinks x ns g) v) = node_type (nodes g v)"
    and "connect_sinks x ns g = g\<lparr>nodes := nodes (connect_sinks x ns g)\<rparr>"
proof -
  have "graph_edges (connect_sinks x ns g) v = (if v \<in> set (sinks g ns) then [exit_edge x] else graph_edges g v)
    \<and> initialInDegree (nodes (connect_sinks x ns g) v)
      = (if v = x then initialInDegree (nodes g x) + of_nat (length (sinks g ns)) else initialInDegree (nodes g v))
    \<and> inDegree (nodes (connect_sinks x ns g) v)
      = (if v = x then initialInDegree (nodes g x) + of_nat (length (sinks g ns)) else inDegree (nodes g v))
    \<and> has_graph (nodes (connect_sinks x ns g) v) = has_graph (nodes g v)
    \<and> node_state (nodes (connect_sinks x ns g) v) = node_state (nodes g v)
    \<and> node_type (nodes (connect_sinks x ns g) v) = node_type (nodes g v)
    \<and> connect_sinks x ns g = g\<lparr>nodes := nodes (connect_sinks x ns g)\<rparr>"
    using assms
  proof (induction ns arbitrary: g)
    case Nil
    then show ?case by (auto simp: connect_sinks_def sinks_def)
  next
    case (Cons c ns)
    show ?case
    proof (cases "graph_edges g c = []")
      case False
      have "connect_sinks x (c # ns) g = connect_sinks x ns g" "sinks g (c # ns) = sinks g ns"
        using False by (simp_all add: connect_sinks_def sinks_def graph_edges_def)
      then show ?thesis using Cons by simp
    next
      case True
      let ?g = "sub_addEdge c x (-1) g"
      have cx: "c \<noteq> x" using Cons.prems(2) by auto
      have step: "connect_sinks x (c # ns) g = connect_sinks x ns ?g"
        using True by (simp add: connect_sinks_def graph_edges_def)
      have g: "graph_edges ?g v = (if v = c then [exit_edge x] else graph_edges g v)"
        "initialInDegree (nodes ?g v) = (if v = x then initialInDegree (nodes g x) + 1 else initialInDegree (nodes g v))"
        "inDegree (nodes ?g v) = (if v = x then initialInDegree (nodes g x) + 1 else inDegree (nodes g v))"
        "has_graph (nodes ?g v) = has_graph (nodes g v)" "node_state (nodes ?g v) = node_state (nodes g v)"
        "node_type (nodes ?g v) = node_type (nodes g v)" for v
        using cx True by (auto simp: sub_addEdge_def graph_edges_def exit_edge_def)
      have s: "sinks ?g ns = sinks g ns" unfolding sinks_def using Cons.prems(1) by (intro filter_cong) (auto simp: g(1))
      have s': "sinks g (c # ns) = c # sinks g ns" using True by (simp add: sinks_def)
      have cs: "c \<notin> set (sinks g ns)" using Cons.prems(1) by (simp add: sinks_def)
      have fr: "?g = g\<lparr>nodes := nodes ?g\<rparr>" by (simp add: sub_addEdge_def Let_def) (simp add: upd_node_def)
      have x: "inDegree (nodes ?g x) = initialInDegree (nodes ?g x)" by (simp add: g)
      have ih: "connect_sinks x ns ?g = ?g\<lparr>nodes := nodes (connect_sinks x ns ?g)\<rparr>"
        using Cons.IH [of ?g] Cons.prems x by simp
      have "connect_sinks x ns ?g = g\<lparr>nodes := nodes (connect_sinks x ns ?g)\<rparr>" by (subst ih, subst fr) simp
      moreover note Cons.IH [of ?g] Cons.prems x
      ultimately show ?thesis unfolding step s s' using g cs by (auto simp: s add_ac)
    qed
  qed
  then show "graph_edges (connect_sinks x ns g) v = (if v \<in> set (sinks g ns) then [exit_edge x] else graph_edges g v)"
    "initialInDegree (nodes (connect_sinks x ns g) v)
      = (if v = x then initialInDegree (nodes g x) + of_nat (length (sinks g ns)) else initialInDegree (nodes g v))"
    "inDegree (nodes (connect_sinks x ns g) v)
      = (if v = x then initialInDegree (nodes g x) + of_nat (length (sinks g ns)) else inDegree (nodes g v))"
    "has_graph (nodes (connect_sinks x ns g) v) = has_graph (nodes g v)"
    "node_state (nodes (connect_sinks x ns g) v) = node_state (nodes g v)"
    "node_type (nodes (connect_sinks x ns g) v) = node_type (nodes g v)"
    "connect_sinks x ns g = g\<lparr>nodes := nodes (connect_sinks x ns g)\<rparr>" by blast+
qed

lemma schedule_sub_roots_facts:
  assumes "m_hasScheduler g"
  shows "nodes (schedule_sub_roots True ns g) = nodes g" and "m_hasScheduler (schedule_sub_roots True ns g)"
    and "m_pendingTasks (schedule_sub_roots True ns g) = m_pendingTasks g"
    and "released (schedule_sub_roots True ns g) = released g + mset (filter (\<lambda>c. initialInDegree (nodes g c) = 0) ns)"
proof -
  have "nodes (schedule_sub_roots True ns g) = nodes g \<and> m_hasScheduler (schedule_sub_roots True ns g)
    \<and> m_pendingTasks (schedule_sub_roots True ns g) = m_pendingTasks g
    \<and> released (schedule_sub_roots True ns g) = released g + mset (filter (\<lambda>c. initialInDegree (nodes g c) = 0) ns)"
    using assms
  proof (induction ns arbitrary: g)
    case (Cons c ns)
    let ?g = "if initialInDegree (nodes g c) = 0 then scheduleNode c True g else g"
    have "released ?g = released g + (if initialInDegree (nodes g c) = 0 then {#c#} else {#})"
      using Cons.prems scheduleNode_released by (auto)
    moreover have "schedule_sub_roots True (c # ns) g = schedule_sub_roots True ns ?g" by (simp add: schedule_sub_roots_def)
    moreover have "nodes ?g = nodes g" "m_hasScheduler ?g" "m_pendingTasks ?g = m_pendingTasks g" using Cons.prems by simp_all
    ultimately show ?case using Cons.IH [of ?g] by (auto simp: add_ac)
  qed (simp add: schedule_sub_roots_def)
  then show "nodes (schedule_sub_roots True ns g) = nodes g" "m_hasScheduler (schedule_sub_roots True ns g)"
    "m_pendingTasks (schedule_sub_roots True ns g) = m_pendingTasks g"
    "released (schedule_sub_roots True ns g) = released g + mset (filter (\<lambda>c. initialInDegree (nodes g c) = 0) ns)" by blast+
qed

text \<open>The exit node of a subflow that was not joined.\<close>

lemma create_exit_facts:
  assumes "sf_parentNode sf = Some n" and "\<not> m_joined sf" and "sf_has_graph sf" and "n < next_node g"
    and ce: "create_exit (sf, g) = (x, g')"
  shows "x = next_node g" and "graph_edges g' v = (if v = n then [] else if v = x then graph_edges g n else graph_edges g v)"
    and "v \<noteq> x \<Longrightarrow> nodes g' v = (nodes g v)\<lparr>successors := graph_edges g' v\<rparr>"
    and "has_graph (nodes g' x) \<and> node_state (nodes g' x) = Pending \<and> node_type (nodes g' x) = Static
      \<and> initialInDegree (nodes g' x) = 0 \<and> inDegree (nodes g' x) = 0"
    and "m_hasScheduler g' = m_hasScheduler g" and "m_pendingTasks g' = m_pendingTasks g" and "released g' = released g"
proof -
  have ne: "n \<noteq> next_node g" using assms(4) by simp
  have x: "x = next_node g" using ce assms(1,2) by (simp add: create_exit_def sub_create_def Let_def)
  let ?x = "TaskNode_default\<lparr>node_index := sf_nodeCount sf + 1000000, node_name := ''SubflowExit'', domain := domain (nodes g n),
      priority := priority (nodes g n), has_graph := True, node_type := Static, executeFn := RunFn (\<lambda>u. u),
      successors := graph_edges g n\<rparr>"
  have g': "nodes g' = (nodes g)(x := ?x, n := (nodes g n)\<lparr>successors := []\<rparr>)" "m_hasScheduler g' = m_hasScheduler g"
    "m_pendingTasks g' = m_pendingTasks g" "requests g' = requests g" "t_nextInlineTask g' = t_nextInlineTask g"
    using ce assms(1-3) ne by (auto simp: create_exit_def sub_create_def graph_edges_def TaskNode_default_def upd_node_def Let_def)
  show "x = next_node g" by (rule x)
  show "graph_edges g' v = (if v = n then [] else if v = x then graph_edges g n else graph_edges g v)" for v
    using g'(1) by (auto simp: graph_edges_def)
  show "v \<noteq> x \<Longrightarrow> nodes g' v = (nodes g v)\<lparr>successors := graph_edges g' v\<rparr>"
    using g'(1) by (cases "v = n") (auto simp: graph_edges_def)
  show "has_graph (nodes g' x) \<and> node_state (nodes g' x) = Pending \<and> node_type (nodes g' x) = Static
      \<and> initialInDegree (nodes g' x) = 0 \<and> inDegree (nodes g' x) = 0"
    using g'(1) ne x by (simp add: TaskNode_default_def)
  show "m_hasScheduler g' = m_hasScheduler g" "m_pendingTasks g' = m_pendingTasks g" "released g' = released g"
    using g'(2-5) by (simp_all add: released_def)
qed

lemma splice_facts:
  assumes inv: "sub_inv rank n g0 k E sf g" and k: "0 < k" "k < 2 ^ 32" and n: "n < next_node g0" "has_graph (nodes g0 n)"
    and sched: "m_hasScheduler g0" "released g0 = {#}" and sp: "splice (sf, g) = (sf', g')"
    and x: "x = next_node g0 + k" and ns: "ns = [next_node g0..<next_node g0 + k]"
  shows "graph_edges g' v = (if v = n then [] else if v = x then graph_edges g0 n else if v \<in> set (sinks g ns) then [exit_edge x]
      else graph_edges g v)"
    and "v \<noteq> x \<Longrightarrow> has_graph (nodes g' v) = has_graph (nodes g v) \<and> node_state (nodes g' v) = node_state (nodes g v)
      \<and> node_type (nodes g' v) = node_type (nodes g v) \<and> inDegree (nodes g' v) = inDegree (nodes g v)"
    and "has_graph (nodes g' x) \<and> node_state (nodes g' x) = Pending \<and> inDegree (nodes g' x) = of_nat (length (sinks g ns))"
    and "m_hasScheduler g'" and "m_pendingTasks g' = m_pendingTasks g0 + of_nat k + 1"
    and "released g' = mset (filter (\<lambda>c. initialInDegree (nodes g c) = 0) ns)"
proof -
  note i = inv [unfolded sub_inv_def]
  obtain N where g: "g = g0\<lparr>nodes := N, next_node := x\<rparr>" using i x by blast
  have sf: "sf = (Subflow_new (Some n) g0)\<lparr>sf_nodeList := ns, sf_nodeCount := of_nat k\<rparr>" using i ns by simp
  let ?sf = "sf\<lparr>m_spliced := True\<rparr>"
  have flags: "sf_parentNode ?sf = Some n" "\<not> m_joined ?sf" "sf_has_graph ?sf" "\<not> m_detached ?sf" "\<not> m_spliced sf"
    "sf_nodeList ?sf = ns" "sf_nodeCount ?sf = of_nat k" using sf n(2) by (simp_all add: Subflow_new_def)
  have nk: "sf_nodeCount ?sf \<noteq> 0" using of_nat_u32_zero [OF k(2)] k(1) flags(7) by simp
  obtain y gx where ce: "create_exit (?sf, g) = (y, gx)" by (cases "create_exit (?sf, g)")
  have nn: "n < next_node g" using n(1) g x by simp
  note c = create_exit_facts [OF flags(1-3) nn ce]
  have y: "y = x" using c(1) g by simp
  have xn: "x \<noteq> n" "x \<notin> set ns" "distinct ns" "n \<notin> set ns" using n(1) x ns by auto
  have deg: "inDegree (nodes gx x) = initialInDegree (nodes gx x)" using c(4) y by simp
  note cs = connect_sinks_facts [OF xn(3,2) deg]
  let ?gc = "connect_sinks x ns gx"
  let ?gp = "addPendingTasks (of_nat k + 1) ?gc"
  have g': "g' = schedule_sub_roots True ns ?gp"
    using sp flags nk ce y by (simp add: splice_def Let_def)
  have "m_hasScheduler ?gc = m_hasScheduler gx" by (subst cs(7)) simp
  then have sched': "m_hasScheduler ?gp" using c(5) g sched(1) by (simp add: addPendingTasks_def)
  have ndp: "nodes ?gp = nodes ?gc" by (simp add: addPendingTasks_def)
  note r = schedule_sub_roots_facts [OF sched', of ns, folded g', unfolded ndp]
  have ge_x: "graph_edges gx v = (if v = n then [] else if v = x then graph_edges g0 n else graph_edges g v)" for v
    using c(2) [of v] y i n(1) by (simp add: graph_edges_def)
  have sk: "sinks gx ns = sinks g ns" unfolding sinks_def using xn by (intro filter_cong) (auto simp: ge_x)
  have nsk: "n \<notin> set (sinks g ns)" "x \<notin> set (sinks g ns)" using xn by (auto simp: sinks_def)
  show "graph_edges g' v = (if v = n then [] else if v = x then graph_edges g0 n else if v \<in> set (sinks g ns) then [exit_edge x]
      else graph_edges g v)" for v
    using cs(1) [of v] ge_x [of v] nsk r(1) unfolding sk by (auto simp: graph_edges_def)
  show "v \<noteq> x \<Longrightarrow> has_graph (nodes g' v) = has_graph (nodes g v) \<and> node_state (nodes g' v) = node_state (nodes g v)
      \<and> node_type (nodes g' v) = node_type (nodes g v) \<and> inDegree (nodes g' v) = inDegree (nodes g v)"
    using c(3) [of v] y r(1) cs(3-6) [of v] by simp
  show "has_graph (nodes g' x) \<and> node_state (nodes g' x) = Pending \<and> inDegree (nodes g' x) = of_nat (length (sinks g ns))"
    using c(4) y r(1) cs(3-5) [of x] sk by simp
  show "m_hasScheduler g'" by (rule r(2))
  have pend: "m_pendingTasks ?gc = m_pendingTasks gx" by (subst cs(7)) simp
  show "m_pendingTasks g' = m_pendingTasks g0 + of_nat k + 1"
    using r(3) pend c(6) g by (simp add: addPendingTasks_def)
  have "requests ?gc = requests gx" "t_nextInlineTask ?gc = t_nextInlineTask gx" by (subst cs(7), simp)+
  then have "released ?gp = released gx" by (simp add: released_def addPendingTasks_def)
  also have "\<dots> = released g0" using c(7) g by (simp add: released_def)
  finally have "released g' = mset (filter (\<lambda>v. initialInDegree (nodes ?gc v) = 0) ns)" using r(4) sched(2) by simp
  moreover have "initialInDegree (nodes ?gc v) = initialInDegree (nodes g v)" if "v \<in> set ns" for v
    using that xn cs(2) [of v] c(3) [of v] y by auto
  ultimately show "released g' = mset (filter (\<lambda>c. initialInDegree (nodes g c) = 0) ns)"
    by (metis (no_types, lifting) filter_cong)
qed

section \<open>The run after a subflow task\<close>

text \<open>Along an increasing rank a child without successors is reached.\<close>

lemma sink_exists:
  assumes "ranked_on (children b k) r (graph_edges g)" and "\<forall>v \<in> children b k. child_ok E g v" and "0 < k"
  shows "sinks g [b..<b + k] \<noteq> []"
proof -
  let ?C = "children b k"
  have C: "finite ?C" "b \<in> ?C" using assms(3) by (auto simp: children_def)
  define m where "m = Max (r ` ?C)"
  obtain v where v: "v \<in> ?C" "r v = m" using Max_in [of "r ` ?C"] C unfolding m_def by (metis empty_iff finite_imageI imageE image_is_empty)
  have top: "r t \<le> r v" if "t \<in> ?C" for t using C(1) that v(2) by (simp add: m_def)
  have "graph_edges g v = []"
  proof (rule ccontr)
    assume "graph_edges g v \<noteq> []"
    then obtain e where e: "e \<in> set (graph_edges g v)" using list.set_intros(1) by (metis list.exhaust)
    then obtain t where t: "target e = Some t" using assms(2) v(1) by (auto simp: child_ok_def)
    then have "t \<in> ?C" "r v < r t" using assms(1) v(1) e by (auto simp: ranked_on_def)
    then show False using top by (meson not_le)
  qed
  then have "v \<in> set (sinks g [b..<b + k])" using v(1) by (simp add: sinks_def children_def)
  then show ?thesis by auto
qed

lemma sum_sinks:
  assumes "distinct ns"
  shows "(\<Sum>v \<in> set ns. mset (targets (if v \<in> set (sinks g ns) then [exit_edge x] else graph_edges g v)))
    = (\<Sum>v \<in> set ns. mset (targets (graph_edges g v))) + replicate_mset (length (sinks g ns)) x"
proof -
  have d: "distinct (sinks g ns)" "set (sinks g ns) \<subseteq> set ns" using assms by (auto simp: sinks_def)
  have "mset (targets (if v \<in> set (sinks g ns) then [exit_edge x] else graph_edges g v))
      = mset (targets (graph_edges g v)) + (if v \<in> set (sinks g ns) then {#x#} else {#})" for v
    by (auto simp: sinks_def targets_def exit_edge_def)
  moreover have "(\<Sum>v \<in> set ns. if v \<in> set (sinks g ns) then {#x#} else {#}) = (\<Sum>v \<in> set (sinks g ns). {#x#})"
    using d(2) by (simp add: sum.If_cases inf.absorb2)
  moreover have "(\<Sum>v \<in> set (sinks g ns). {#x#}) = replicate_mset (length (sinks g ns)) x"
    using distinct_card [OF d(1)] by (simp add: multiset_eq_iff count_sum)
  ultimately show ?thesis by (simp add: sum.distrib)
qed

text \<open>What executing the task \<open>n\<close> does, before any client is fixed: \<open>g1\<close> is the engine its client left.\<close>

lemma executed_subflow:
  assumes cl: "userFn (Subflow_new (Some n) (upd_node n (\<lambda>y. y\<lparr>node_state := Executing\<rparr>) g), upd_node n (\<lambda>y. y\<lparr>node_state := Executing\<rparr>) g, x)
      = Some (sf, g1, x)"
    and inv: "sub_inv rank n (upd_node n (\<lambda>y. y\<lparr>node_state := Executing\<rparr>) g) k E sf g1" and k: "0 < k" "k < 2 ^ 32"
    and n: "n < next_node g" "has_graph (nodes g n)" "node_type (nodes g n) \<noteq> Condition"
    and g: "m_hasScheduler g" "released g = {#}"
    and b: "b = next_node g" and ns: "ns = [b..<b + k]"
  shows "\<exists>g'. execute_subflow fuel userFn n (g, x) = Some (g', x)
    \<and> (\<forall>v. graph_edges g' v = (if v = n then [] else if v = b + k then graph_edges g n
         else if v \<in> set (sinks g1 ns) then [exit_edge (b + k)] else graph_edges g1 v))
    \<and> (\<forall>v. v \<noteq> b + k \<longrightarrow> has_graph (nodes g' v) = has_graph (nodes g1 v) \<and> inDegree (nodes g' v) = inDegree (nodes g1 v)
         \<and> node_state (nodes g' v) = (if v = n then Completed else node_state (nodes g1 v))
         \<and> node_type (nodes g' v) = node_type (nodes g1 v))
    \<and> has_graph (nodes g' (b + k)) \<and> node_state (nodes g' (b + k)) = Pending
    \<and> inDegree (nodes g' (b + k)) = of_nat (length (sinks g1 ns))
    \<and> m_hasScheduler g' \<and> m_pendingTasks g' = m_pendingTasks g + of_nat k
    \<and> released g' = mset (filter (\<lambda>c. initialInDegree (nodes g1 c) = 0) ns)"
proof -
  let ?g0 = "upd_node n (\<lambda>y. y\<lparr>node_state := Executing\<rparr>) g"
  have b0: "next_node ?g0 = b" using b by (simp add: upd_node_def)
  obtain sf2 g2 where sp: "splice (sf, g1) = (sf2, g2)" by (cases "splice (sf, g1)")
  have pre: "n < next_node ?g0" "has_graph (nodes ?g0 n)" "m_hasScheduler ?g0" "released ?g0 = {#}" using n g b0 b by simp_all
  note f = splice_facts [OF inv k pre sp refl refl, unfolded b0, folded ns]
  have ge0: "graph_edges ?g0 n = graph_edges g n" by (simp add: graph_edges_def)
  have nx: "n \<noteq> b + k" using n(1) b by simp
  define g3 where "g3 = upd_node n (\<lambda>y. y\<lparr>node_state := Completed\<rparr>) g2"
  have ge3: "graph_edges g3 v = graph_edges g2 v" for v by (simp add: g3_def graph_edges_def)
  have nn: "nodes g1 n = nodes ?g0 n" using inv pre(1) by (simp add: sub_inv_def)
  have ty: "node_type (nodes g3 n) \<noteq> Condition" "has_graph (nodes g3 n)" "successors (nodes g3 n) = []"
    using f(2) [OF nx] nn n ge3 [of n] f(1) [of n] by (simp_all add: g3_def) (simp add: graph_edges_def)
  have "unblockSuccessors fuel n g3 = Some g3" using ty by (simp add: unblockSuccessors_def Let_def finish_unblock_def)
  then have ex: "execute_subflow fuel userFn n (g, x) = Some (onTaskCompleted n g3, x)"
    using cl sp ty(2) by (simp add: execute_subflow_def Let_def g3_def)
  have out: "nodes (onTaskCompleted n g3) = nodes g3" "m_hasScheduler (onTaskCompleted n g3) = m_hasScheduler g2"
    "m_pendingTasks (onTaskCompleted n g3) = m_pendingTasks g2 - 1" "released (onTaskCompleted n g3) = released g2"
    by (simp_all add: onTaskCompleted_def g3_def) (simp add: released_def upd_node_def)
  have nd: "nodes (onTaskCompleted n g3) v = (if v = n then (nodes g2 n)\<lparr>node_state := Completed\<rparr> else nodes g2 v)" for v
    by (simp add: out(1)) (simp add: g3_def)
  show ?thesis
  proof (intro exI [of _ "onTaskCompleted n g3"] conjI allI impI)
    show "execute_subflow fuel userFn n (g, x) = Some (onTaskCompleted n g3, x)" by (rule ex)
    show "graph_edges (onTaskCompleted n g3) v = (if v = n then [] else if v = b + k then graph_edges g n
         else if v \<in> set (sinks g1 ns) then [exit_edge (b + k)] else graph_edges g1 v)" for v
      using f(1) [of v] ge3 [of v] ge0 by (simp add: graph_edges_def out(1))
    fix v assume v: "v \<noteq> b + k"
    show "has_graph (nodes (onTaskCompleted n g3) v) = has_graph (nodes g1 v)"
      "inDegree (nodes (onTaskCompleted n g3) v) = inDegree (nodes g1 v)"
      "node_type (nodes (onTaskCompleted n g3) v) = node_type (nodes g1 v)"
      "node_state (nodes (onTaskCompleted n g3) v) = (if v = n then Completed else node_state (nodes g1 v))"
      using f(2) [OF v] f(2) [OF nx] by (simp_all add: nd)
  next
    show "has_graph (nodes (onTaskCompleted n g3) (b + k))" "node_state (nodes (onTaskCompleted n g3) (b + k)) = Pending"
      "inDegree (nodes (onTaskCompleted n g3) (b + k)) = of_nat (length (sinks g1 ns))"
      using f(3) nx by (simp_all add: nd)
    show "m_hasScheduler (onTaskCompleted n g3)" using f(4) out(2) by simp
    show "m_pendingTasks (onTaskCompleted n g3) = m_pendingTasks g + of_nat k" using f(5) out(3) by simp
    show "released (onTaskCompleted n g3) = mset (filter (\<lambda>c. initialInDegree (nodes g1 c) = 0) ns)" using f(6) out(4) by simp
  qed
qed

text \<open>
  The edges of the run once the task \<open>n\<close> was executed: \<open>es1\<close> are the edges between the children
  \<open>C\<close>, \<open>S\<close> the children without successors and \<open>x\<close> the exit.
\<close>

definition spliced_edges ::
  "(node_id \<Rightarrow> successor_edge list) \<Rightarrow> node_id \<Rightarrow> node_id \<Rightarrow> node_id set \<Rightarrow> node_id set \<Rightarrow> (node_id \<Rightarrow> successor_edge list)
     \<Rightarrow> node_id \<Rightarrow> successor_edge list" where
  "spliced_edges es n x C S es1 v =
     (if v = n then [] else if v = x then es n else if v \<in> S then [exit_edge x] else if v \<in> C then es1 v else es v)"

lemma spliced_outstanding:
  assumes V: "finite V" "n \<in> V - D" "x \<notin> V" and C: "C = set ns" "C \<inter> V = {}" "x \<notin> C" "distinct ns" and D: "D \<subseteq> V"
    and E: "(\<Sum>v \<in> C. mset (targets (graph_edges g1 v))) = E"
    and es': "es' = spliced_edges es n x C (set (sinks g1 ns)) (graph_edges g1)"
  shows "outstanding es' (insert x (V \<union> C)) (insert n D) [] = outstanding es V D [] + E + replicate_mset (length (sinks g1 ns)) x"
proof -
  let ?S = "set (sinks g1 ns)" and ?P = "V - insert n D"
  have S: "?S \<subseteq> C" using C(1) by (auto simp: sinks_def)
  have P: "finite ?P" "finite C" "?P \<inter> C = {}" "x \<notin> ?P \<union> C" using V C by auto
  have split: "insert x (V \<union> C) - insert n D = insert x (?P \<union> C)" using V C D by auto
  have esP: "es' v = es v" if "v \<in> ?P" for v using that S P by (auto simp: es' spliced_edges_def)
  have esC: "es' v = (if v \<in> ?S then [exit_edge x] else graph_edges g1 v)" if "v \<in> C" for v
    using that P V C by (auto simp: es' spliced_edges_def)
  have esx: "es' x = es n" using V by (auto simp: es' spliced_edges_def)
  have "outstanding es' (insert x (V \<union> C)) (insert n D) [] = mset (targets (es n))
      + ((\<Sum>v \<in> ?P. mset (targets (es' v))) + (\<Sum>v \<in> C. mset (targets (es' v))))"
    using P esx by (simp add: outstanding_def split sum.union_disjoint)
  also have "(\<Sum>v \<in> ?P. mset (targets (es' v))) = (\<Sum>v \<in> ?P. mset (targets (es v)))" by (rule sum.cong) (simp_all add: esP)
  also have "(\<Sum>v \<in> C. mset (targets (es' v))) = (\<Sum>v \<in> C. mset (targets (if v \<in> ?S then [exit_edge x] else graph_edges g1 v)))"
    by (rule sum.cong) (simp_all only: esC)
  also have "\<dots> = E + replicate_mset (length (sinks g1 ns)) x"
    unfolding C(1) sum_sinks [OF C(4)] using E C(1) by simp
  also have "mset (targets (es n)) + ((\<Sum>v \<in> ?P. mset (targets (es v))) + (E + replicate_mset (length (sinks g1 ns)) x))
      = outstanding es V (insert n D) (targets (es n)) + E + replicate_mset (length (sinks g1 ns)) x"
    by (simp add: outstanding_def add_ac)
  also have "outstanding es V (insert n D) (targets (es n)) = outstanding es V D []"
    using outstanding_settle [OF V(1,2), of es "[]"] by simp
  finally show ?thesis .
qed

lemma spliced_edges_ok:
  assumes V: "edges_ok es V" "n \<in> V" "x \<notin> V" and C: "C \<inter> V = {}" "x \<notin> C" "S \<subseteq> C"
    and es1: "\<forall>v \<in> C. \<forall>e \<in> set (es1 v). \<not> isLoopBack e \<and> (\<exists>t \<in> C. target e = Some t)"
  shows "edges_ok (spliced_edges es n x C S es1) (insert x (V \<union> C))"
  using assms unfolding edges_ok_def spliced_edges_def exit_edge_def by (auto; blast)

text \<open>The invariant of the run carries over to the extended graph.\<close>

lemma spliced_run_inv:
  assumes inv: "run_inv es V R 0 D [] g" and n: "n \<in> V - D" "count (outstanding es V D []) n = 0" "count R n = 1"
    and rel: "released g = {#}"
    and C: "C = set ns" "C \<inter> V = {}" "x \<notin> C" "distinct ns" "x \<notin> V"
    and child: "\<forall>v \<in> C. child_ok E g1 v" and inner: "\<forall>v \<in> C. \<forall>e \<in> set (graph_edges g1 v). \<not> isLoopBack e \<and> (\<exists>t \<in> C. target e = Some t)"
    and E: "(\<Sum>v \<in> C. mset (targets (graph_edges g1 v))) = E" "\<forall>t. count E t \<le> 65535"
    and sk: "sinks g1 ns \<noteq> []" "length ns \<le> 65535"
    and old: "\<forall>v \<in> V. has_graph (nodes g1 v) = has_graph (nodes g v) \<and> inDegree (nodes g1 v) = inDegree (nodes g v)
      \<and> (v \<noteq> n \<longrightarrow> node_state (nodes g1 v) = node_state (nodes g v))"
    and ge: "\<forall>v \<in> insert x (V \<union> C). graph_edges g' v = spliced_edges es n x C (set (sinks g1 ns)) (graph_edges g1) v"
    and nd: "\<forall>v. v \<noteq> x \<longrightarrow> has_graph (nodes g' v) = has_graph (nodes g1 v) \<and> inDegree (nodes g' v) = inDegree (nodes g1 v)
      \<and> node_state (nodes g' v) = (if v = n then Completed else node_state (nodes g1 v))"
    and xx: "has_graph (nodes g' x)" "node_state (nodes g' x) = Pending" "inDegree (nodes g' x) = of_nat (length (sinks g1 ns))"
    and sched: "m_hasScheduler g'" and pend: "m_pendingTasks g' = m_pendingTasks g + of_nat (length ns)"
    and rls: "released g' = mset (filter (\<lambda>c. initialInDegree (nodes g1 c) = 0) ns)"
  shows "run_inv (graph_edges g') (insert x (V \<union> C)) (R - {#n#}) 0 (insert n D) [] g'"
proof -
  note d = run_invD [OF inv]
  let ?V' = "insert x (V \<union> C)" and ?D' = "insert n D" and ?S = "set (sinks g1 ns)"
  let ?es' = "spliced_edges es n x C ?S (graph_edges g1)"
  have S: "?S \<subseteq> C" "length (sinks g1 ns) \<le> 65535" using C(1) sk(2) by (auto simp: sinks_def intro: order_trans [OF length_filter_le])
  have nC: "n \<notin> C" "n \<noteq> x" using n(1) C by auto
  have left: "?V' - ?D' = insert x ((V - ?D') \<union> C)" "finite C" using d(3) C nC by auto
  have "outstanding (graph_edges g') ?V' ?D' [] = outstanding ?es' ?V' ?D' []"
    unfolding outstanding_def using ge by (metis (no_types, lifting) DiffD1 sum.cong)
  then have out: "outstanding (graph_edges g') ?V' ?D' [] = outstanding es V D [] + E + replicate_mset (length (sinks g1 ns)) x"
    using spliced_outstanding [OF d(1) n(1) C(5,1-4) d(3) E(1) refl] by simp
  have "t \<notin># outstanding es V D []" if "t \<notin> V" for t
    using that d(1,2) by (fastforce simp: outstanding_def set_mset_sum edges_ok_def targets_def)
  then have oV: "count (outstanding es V D []) t = 0" if "t \<notin> V" for t using that by (simp add: count_eq_zero_iff)
  have "t \<notin># E" if "t \<notin> C" for t
    using that inner left(2) unfolding E(1) [symmetric] by (fastforce simp: set_mset_sum targets_def)
  then have oC: "count E t = 0" if "t \<notin> C" for t using that by (simp add: count_eq_zero_iff)
  have cnt: "count (outstanding (graph_edges g') ?V' ?D' []) t
      = (if t = x then length (sinks g1 ns) else if t \<in> C then count E t else count (outstanding es V D []) t)" for t
    using oV [of t] oC [of t] C unfolding out by auto
  have ini: "initialInDegree (nodes g1 c) = 0 \<longleftrightarrow> count E c = 0" if "c \<in> C" for c
  proof -
    have "count E c < 2 ^ 32" using E(2) [rule_format, of c] by simp
    then show ?thesis using child that of_nat_u32_zero by (simp add: child_ok_def)
  qed
  have R0: "count R t = 0" if "t \<notin> V" for t using d(8) [of t] that rel by simp
  have cC: "counter_ok (inDegree (nodes g1 c)) \<and> pending_reports (inDegree (nodes g1 c)) = count E c" if "c \<in> C" for c
    using child that counter_init [of "count E c"] E(2) [rule_format, of c] by (auto simp: child_ok_def)
  show ?thesis unfolding run_inv_def
  proof (intro conjI allI ballI)
    show "finite ?V'" "?D' \<subseteq> ?V'" "set [] \<subseteq> ?V'" "m_hasScheduler g'" using d(1,3) left n sched by auto
    have "edges_ok ?es' ?V'" by (rule spliced_edges_ok [OF d(2) _ C(5,2,3) S(1) inner]) (use n in simp)
    then show "edges_ok (graph_edges g') ?V'" using ge by (simp add: edges_ok_def)
    have "card (V - ?D' \<union> C) = card (V - ?D') + card C" by (rule card_Un_disjoint) (use left(2) d(1) C(2) in auto)
    then have "card (?V' - ?D') = Suc (card (V - ?D') + length ns)"
      using left C d(1) distinct_card [OF C(4)] by simp
    moreover have "card (V - D) = Suc (card (V - ?D'))"
      using d(1) n(1) by (metis Diff_insert card_Suc_Diff1 finite_Diff)
    ultimately show "m_pendingTasks g' = of_nat (card (?V' - ?D') + 0)" using pend d(12) by simp
    fix t
    show "t \<in> ?V' \<Longrightarrow> successors (nodes g' t) = graph_edges g' t" by (simp add: graph_edges_def)
    show "t \<in> ?V' \<Longrightarrow> has_graph (nodes g' t)"
      using xx(1) nd old child d(6) [of t] by (cases "t = x") (auto simp: child_ok_def)
    show "t \<in> ?V' \<Longrightarrow> counter_ok (inDegree (nodes g' t))"
      using xx(3) nd old cC [of t] d(7) [of t] counter_init(3) [of "length (sinks g1 ns)"] S(2) C
      by (cases "t = x"; cases "t \<in> C") auto
    show "t \<in> ?V' \<Longrightarrow> pending_reports (inDegree (nodes g' t)) = count (outstanding (graph_edges g') ?V' ?D' []) t"
      using xx(3) nd old cC [of t] d(7) [of t] counter_init(1) [of "length (sinks g1 ns)"] S(2) C
      unfolding cnt by (cases "t = x"; cases "t \<in> C") auto
    have r: "count (released g') t = (if t \<in> C \<and> count E t = 0 then 1 else 0)"
      unfolding rls count_filter_distinct [OF C(4)] using ini [of t] C(1) by (cases "t \<in> C") simp_all
    have R: "count R t = (if t \<in> V - D \<and> count (outstanding es V D []) t = 0 then 1 else 0)" using d(8) [of t] rel by simp
    consider "t = x" | "t \<in> C" "t \<noteq> x" | "t = n" | "t \<notin> C" "t \<noteq> x" "t \<noteq> n" by blast
    then show "count (R - {#n#} + released g') t
        = (if t \<in> ?V' - ?D' \<and> count (outstanding (graph_edges g') ?V' ?D' []) t = 0 then 1 else 0)"
    proof cases
      case 1
      then show ?thesis using r R C sk(1) nC(2) d(3) unfolding cnt by simp
    next
      case 2
      then have "t \<notin> V" "t \<notin> D" "t \<noteq> n" using C(2) d(3) nC by auto
      then show ?thesis using r R 2 unfolding cnt by simp
    next
      case 3
      then show ?thesis using r n nC by simp
    next
      case 4
      then show ?thesis using r R unfolding cnt by simp
    qed
    show "t \<in> ?D' \<Longrightarrow> count (outstanding (graph_edges g') ?V' ?D' []) t = 0"
      using d(9) [of t] d(3) n C unfolding cnt by auto
    show "t \<in> ?V' - ?D' \<Longrightarrow> node_state (nodes g' t) = Pending"
      using xx(2) nd old child d(10) [of t] by (cases "t = x"; cases "t \<in> C") (auto simp: child_ok_def)
    show "node_state (nodes g' t) = Completed \<or> node_state (nodes g' t) = Skipped" if "t \<in> ?D'"
    proof -
      have "t \<in> V" "t \<noteq> x" using that d(3) n(1) C(5) by auto
      then show ?thesis using nd old d(11) [of t] that by (cases "t = n") simp_all
    qed
  qed
qed

text \<open>The client of \<open>build\<close> operations leaves the children of the invariant above.\<close>

lemma sub_client_inv:
  assumes "has_graph (nodes g n)" and "ops_ok rank 0 ops"
  shows "\<exists>sf g1. sub_client ops (Subflow_new (Some n) g, g, x) = Some (sf, g1, x)
    \<and> sub_inv rank n g (node_ops ops) (mset (map ((+) (next_node g)) (edge_targets ops))) sf g1"
  using sub_steps_inv [OF sub_inv_new [of rank n g] assms(2,1)] by (auto simp: sub_client_def split: prod.splits)

lemma count_shift: "count (mset (map ((+) b) ts)) t = (if b \<le> t then count_list ts (t - b) else (0 :: nat))" for t :: nat
  by (induction ts) auto

lemma execute_subflow_inv:
  assumes inv: "run_inv es V R 0 D [] g" and n: "n \<in># R" and rel: "released g = {#}"
    and fresh: "V \<subseteq> {..<next_node g}" and ty: "node_type (nodes g n) \<noteq> Condition"
    and ops: "ops_ok rank 0 ops" "0 < node_ops ops" "node_ops ops \<le> 65535" "\<forall>t. count_list (edge_targets ops) t \<le> 65535"
    and b: "b = next_node g" and k: "k = node_ops ops"
  shows "\<exists>g' g1 sf. execute_subflow fuel (sub_client ops) n (g, x) = Some (g', x)
    \<and> run_inv (graph_edges g') (insert (b + k) (V \<union> children b k)) (R - {#n#}) 0 (insert n D) [] g'
    \<and> sub_inv rank n (upd_node n (\<lambda>y. y\<lparr>node_state := Executing\<rparr>) g) k (mset (map ((+) b) (edge_targets ops))) sf g1
    \<and> (\<forall>v. graph_edges g' v = (if v = n then [] else if v = b + k then es n
         else if v \<in> set (sinks g1 [b..<b + k]) then [exit_edge (b + k)] else graph_edges g1 v))"
proof -
  note d = run_invD [OF inv]
  let ?g0 = "upd_node n (\<lambda>y. y\<lparr>node_state := Executing\<rparr>) g" and ?x = "b + k"
  define C where "C = children b k"
  define ns where "ns = [b..<b + k]"
  define E where "E = mset (map ((+) b) (edge_targets ops))"
  have b0: "next_node ?g0 = b" using b by (simp add: upd_node_def)
  have "count R n = (if n \<in> V - D \<and> count (outstanding es V D []) n = 0 then 1 else 0)" using d(8) [of n] rel by simp
  moreover have "0 < count R n" using n by simp
  ultimately have nV: "n \<in> V - D" "count (outstanding es V D []) n = 0" "count R n = 1"
    by (auto simp: count_eq_zero_iff split: if_splits)
  have n': "n < next_node g" "has_graph (nodes g n)" using fresh nV d(6) by auto
  then have g0: "has_graph (nodes ?g0 n)" by simp
  obtain sf g1 where cl: "sub_client ops (Subflow_new (Some n) ?g0, ?g0, x) = Some (sf, g1, x)" and sub: "sub_inv rank n ?g0 k E sf g1"
    using sub_client_inv [OF g0 ops(1), of x] unfolding b0 E_def k by blast
  have kk: "0 < k" "k < 2 ^ 32" using ops(2,3) k by simp_all
  obtain g' where ex: "execute_subflow fuel (sub_client ops) n (g, x) = Some (g', x)"
    and ge: "\<forall>v. graph_edges g' v = (if v = n then [] else if v = ?x then graph_edges g n
         else if v \<in> set (sinks g1 ns) then [exit_edge ?x] else graph_edges g1 v)"
    and nd: "\<forall>v. v \<noteq> ?x \<longrightarrow> has_graph (nodes g' v) = has_graph (nodes g1 v) \<and> inDegree (nodes g' v) = inDegree (nodes g1 v)
         \<and> node_state (nodes g' v) = (if v = n then Completed else node_state (nodes g1 v))
         \<and> node_type (nodes g' v) = node_type (nodes g1 v)"
    and xx: "has_graph (nodes g' ?x)" "node_state (nodes g' ?x) = Pending" "inDegree (nodes g' ?x) = of_nat (length (sinks g1 ns))"
    and fin: "m_hasScheduler g'" "m_pendingTasks g' = m_pendingTasks g + of_nat k"
      "released g' = mset (filter (\<lambda>c. initialInDegree (nodes g1 c) = 0) ns)"
    using executed_subflow [where userFn = "sub_client ops" and g = g, OF cl sub kk n' ty d(5) rel b ns_def, of fuel] by blast
  have C: "C = set ns" "C \<inter> V = {}" "?x \<notin> C" "distinct ns" "?x \<notin> V"
    using fresh b by (auto simp: C_def children_def ns_def)
  note i = sub [unfolded sub_inv_def b0, folded C_def]
  have old: "nodes g1 v = nodes ?g0 v" if "v \<in> V" for v using i that fresh b by auto
  have child: "\<forall>v \<in> C. child_ok E g1 v" and rk: "ranked_on C (\<lambda>v. rank (v - b)) (graph_edges g1)"
    and Esum: "(\<Sum>v \<in> C. mset (targets (graph_edges g1 v))) = E" using i by blast+
  have inner: "\<forall>v \<in> C. \<forall>e \<in> set (graph_edges g1 v). \<not> isLoopBack e \<and> (\<exists>t \<in> C. target e = Some t)"
    using child rk by (fastforce simp: child_ok_def ranked_on_def)
  have esn: "graph_edges g n = es n" using d(6) nV(1) by (simp add: graph_edges_def)
  have sk: "sinks g1 ns \<noteq> []" "length ns \<le> 65535"
    using sink_exists [OF rk [unfolded C_def] child [unfolded C_def] kk(1)] ops(3) k by (simp_all add: ns_def)
  have "run_inv (graph_edges g') (insert ?x (V \<union> C)) (R - {#n#}) 0 (insert n D) [] g'"
  proof (rule spliced_run_inv [OF inv nV rel C child inner Esum _ sk])
    show "\<forall>t. count E t \<le> 65535" using ops(4) unfolding E_def count_shift by simp
    show "\<forall>v \<in> V. has_graph (nodes g1 v) = has_graph (nodes g v) \<and> inDegree (nodes g1 v) = inDegree (nodes g v)
        \<and> (v \<noteq> n \<longrightarrow> node_state (nodes g1 v) = node_state (nodes g v))"
      using old by auto
    show "\<forall>v \<in> insert ?x (V \<union> C). graph_edges g' v = spliced_edges es n ?x C (set (sinks g1 ns)) (graph_edges g1) v"
      using ge esn old d(6) C by (auto simp: spliced_edges_def sinks_def graph_edges_def)
    show "\<forall>v. v \<noteq> ?x \<longrightarrow> has_graph (nodes g' v) = has_graph (nodes g1 v) \<and> inDegree (nodes g' v) = inDegree (nodes g1 v)
      \<and> node_state (nodes g' v) = (if v = n then Completed else node_state (nodes g1 v))" using nd by blast
  qed (use xx fin in \<open>simp_all add: ns_def\<close>)
  then show ?thesis using ex ge sub esn by (intro exI [of _ g'] exI [of _ g1] exI [of _ sf]) (simp add: C_def ns_def E_def)
qed

section \<open>Runs through a subflow task\<close>

text \<open>In a settled run whatever precedes a settled node is settled; so the exit comes after every child.\<close>

lemma settled_closed:
  assumes inv: "run_inv es V R 0 D [] g" and t: "t \<in> D" and v: "v \<in> V" "t \<in> set (targets (es v))"
  shows "v \<in> D"
  by (rule no_pred_outstanding [where es = es, OF run_invD(1) [OF inv] run_invD(9) [OF inv t] v])

lemma children_settled:
  assumes inv: "run_inv es' V' R 0 D [] g" and x: "x \<in> D"
    and rk: "ranked_on C r es1" and C: "finite C" "C \<subseteq> V'"
    and es': "\<forall>v \<in> C. es' v = (if es1 v = [] then [exit_edge x] else es1 v)"
    and real: "\<forall>v \<in> C. \<forall>e \<in> set (es1 v). \<exists>t \<in> C. target e = Some t"
  shows "C \<subseteq> D"
proof
  fix v assume "v \<in> C"
  then show "v \<in> D"
  proof (induction "Max (r ` C) - r v" arbitrary: v rule: less_induct)
    case less
    have vV: "v \<in> V'" using less.prems C(2) by blast
    show ?case
    proof (cases "es1 v")
      case Nil
      then have "x \<in> set (targets (es' v))" using es' less.prems by (simp add: targets_def exit_edge_def)
      then show ?thesis using settled_closed [OF inv x vV] by blast
    next
      case (Cons e el)
      then have e: "e \<in> set (es1 v)" "es' v = es1 v" using es' less.prems by simp_all
      then obtain t where t: "t \<in> C" "target e = Some t" using real less.prems by blast
      then have "r v < r t" using rk less.prems e(1) by (auto simp: ranked_on_def)
      moreover have "r t \<le> Max (r ` C)" using C(1) t(1) by simp
      ultimately have "t \<in> D" using less.hyps [of t] t(1) by simp
      moreover have "t \<in> set (targets (es' v))" using e t(2) by (force simp: targets_def)
      ultimately show ?thesis using settled_closed [OF inv _ vV] by blast
    qed
  qed
qed

text \<open>A rank of the extended graph: the children and the exit come right after \<open>n\<close>.\<close>

lemma spliced_rank:
  assumes V: "\<forall>v \<in> V. \<forall>t \<in> set (targets (es v)). t \<in> V \<and> (r v :: nat) < r t" "n \<in> V"
    and C: "finite C" "C \<inter> V = {}" "x \<notin> C" "x \<notin> V" "S \<subseteq> C" and rk: "ranked_on C r1 es1"
    and real: "\<forall>v \<in> C. \<forall>e \<in> set (es1 v). \<exists>t \<in> C. target e = Some t"
  shows "\<exists>q :: node_id \<Rightarrow> nat. \<forall>v \<in> insert x (V \<union> C). \<forall>t \<in> set (targets (spliced_edges es n x C S es1 v)). q v < q t"
proof -
  define M where "M = Max (insert 0 (r1 ` C))"
  define q where "q v = (if v \<in> C then r n * (M + 3) + 1 + r1 v else if v = x then r n * (M + 3) + M + 2 else r v * (M + 3))" for v
  have M: "r1 v \<le> M" if "v \<in> C" for v using that C(1) by (simp add: M_def)
  have step: "r n * (M + 3) + M + 3 \<le> r t * (M + 3)" if "r n < r t" for t
    using mult_le_mono1 [of "Suc (r n)" "r t" "M + 3"] that by simp
  have "q v < q t" if v: "v \<in> insert x (V \<union> C)" and t: "t \<in> set (targets (spliced_edges es n x C S es1 v))" for v t
  proof -
    consider "v = x" | "v \<in> S" | "v \<in> C" "v \<notin> S" | "v \<in> V" "v \<noteq> n" | "v = n" using v by blast
    then show ?thesis
    proof cases
      case 1
      then have "v \<noteq> n" using V(2) C(4) by blast
      then have "t \<in> set (targets (es n))" using t 1 by (simp add: spliced_edges_def)
      then have "t \<in> V" "r n < r t" using V by auto
      moreover then have "t \<noteq> x" "t \<notin> C" using C by auto
      ultimately show ?thesis using step [of t] 1 C(3) by (simp add: q_def)
    next
      case 2
      then have "v \<noteq> n" "v \<noteq> x" using C V(2) by blast+
      then have "t = x" using t 2 by (simp add: spliced_edges_def targets_def exit_edge_def)
      then show ?thesis using 2 C(3,5) M [of v] by (auto simp: q_def)
    next
      case 3
      then have "v \<noteq> n" "v \<noteq> x" using C V(2) by blast+
      then have "t \<in> set (targets (es1 v))" using t 3 by (simp add: spliced_edges_def)
      then obtain e where e: "e \<in> set (es1 v)" "t = the (target e)" by (auto simp: targets_def)
      then have "target e = Some t" using real 3(1) by force
      then have "t \<in> C" "r1 v < r1 t" using rk 3(1) e(1) by (auto simp: ranked_on_def)
      then show ?thesis using 3 by (simp add: q_def)
    next
      case 4
      then have "v \<notin> C" "v \<noteq> x" "v \<notin> S" using C by blast+
      then have "t \<in> set (targets (es v))" using t 4 by (simp add: spliced_edges_def)
      then have "t \<in> V" "r v < r t" using V 4 by auto
      moreover then have "t \<noteq> x" "t \<notin> C" "v \<noteq> x" "v \<notin> C" using 4 C by auto
      ultimately show ?thesis by (simp add: q_def)
    next
      case 5
      then show ?thesis using t by (simp add: spliced_edges_def targets_def)
    qed
  qed
  then show ?thesis by blast
qed

text \<open>
  What follows the execution of the subflow task: the state from which the run goes on, its rank, and
  the bound on the reports.
\<close>

lemma subflow_continues:
  assumes inv: "run_inv es V R 0 D [] (begin_execute bb (g :: 'u engine))" and n: "n \<in># R" and ty: "node_type (nodes g n) \<noteq> Condition"
    and fresh: "V \<subseteq> {..<next_node g}"
    and ops: "ops_ok rank 0 ops" "0 < node_ops ops" "node_ops ops \<le> 65535" "\<forall>t. count_list (edge_targets ops) t \<le> 65535"
    and r: "\<forall>v \<in> V. \<forall>t \<in> set (targets (es v)). (r v :: nat) < r t"
    and b: "b = next_node g" and k: "k = node_ops ops" and V': "V' = insert (b + k) (V \<union> children b k)"
  shows "\<exists>g2. execute_subflow fuel (sub_client ops) n (begin_execute bb g, x) = Some (g2, x)
    \<and> run_state (graph_edges g2) V' [] (insert n D) g2 (R - {#n#} + released g2)
    \<and> edge_count (graph_edges g2) V' \<le> edge_count es V + length (edge_targets ops) + node_ops ops
    \<and> graph_edges g2 (b + k) = es n
    \<and> (\<exists>q :: node_id \<Rightarrow> nat. \<forall>v \<in> V'. \<forall>t \<in> set (targets (graph_edges g2 v)). q v < q t)
    \<and> (\<forall>(g3 :: 'u engine) R3 D3. run_inv (graph_edges g2) V' R3 0 D3 [] g3 \<longrightarrow> b + k \<in> D3 \<longrightarrow> children b k \<subseteq> D3)"
proof -
  let ?g = "begin_execute bb g" and ?x = "b + k"
  let ?h = "upd_node n (\<lambda>y. y\<lparr>node_state := Executing\<rparr>) ?g" and ?C = "children b k" and ?ns = "[b..<b + k]"
  define E where "E = mset (map ((+) b) (edge_targets ops))"
  have rel: "released ?g = {#}" by (simp add: begin_execute_def released_def)
  have b': "b = next_node ?g" and ty': "node_type (nodes ?g n) \<noteq> Condition" and fresh': "V \<subseteq> {..<next_node ?g}" using b ty fresh by simp_all
  note d = run_invD [OF inv]
  have "count R n = (if n \<in> V - D \<and> count (outstanding es V D []) n = 0 then 1 else 0)" using d(8) [of n] rel by simp
  then have nV: "n \<in> V - D" using n by (auto simp: count_eq_zero_iff split: if_splits)
  obtain g2 g1 sf where ex: "execute_subflow fuel (sub_client ops) n (?g, x) = Some (g2, x)"
    and inv2: "run_inv (graph_edges g2) V' (R - {#n#}) 0 (insert n D) [] g2" and sub: "sub_inv rank n ?h k E sf g1"
    and ge: "\<And>v. graph_edges g2 v = (if v = n then [] else if v = ?x then es n
         else if v \<in> set (sinks g1 ?ns) then [exit_edge ?x] else graph_edges g1 v)"
    using execute_subflow_inv [OF inv n rel fresh' ty' ops b' k, of fuel x] unfolding V' E_def by blast
  have C: "?C = set ?ns" "finite ?C" "?C \<inter> V = {}" "?x \<notin> ?C" "?x \<notin> V" "set (sinks g1 ?ns) \<subseteq> ?C"
    using fresh b by (auto simp: children_def sinks_def)
  have b0: "next_node ?h = b" using b by simp
  note i = sub [unfolded sub_inv_def b0]
  have child: "\<forall>v \<in> ?C. child_ok E g1 v" and rk: "ranked_on ?C (\<lambda>v. rank (v - b)) (graph_edges g1)"
    and Esum: "(\<Sum>v \<in> ?C. mset (targets (graph_edges g1 v))) = E" using i by blast+
  have real: "\<forall>v \<in> ?C. \<forall>e \<in> set (graph_edges g1 v). \<exists>t \<in> ?C. target e = Some t"
    using child rk by (fastforce simp: child_ok_def ranked_on_def)
  have old: "nodes g1 v = nodes ?h v" if "v \<in> V" for v using i that fresh b by auto
  have oldE: "graph_edges g1 v = es v" if "v \<in> V" for v using old [OF that] d(6) [OF that] by (cases "v = n") (simp_all add: graph_edges_def)
  let ?es' = "spliced_edges es n ?x ?C (set (sinks g1 ?ns)) (graph_edges g1)"
  have ge': "graph_edges g2 v = ?es' v" if "v \<in> V'" for v
    using that C(1-5) oldE [of v] unfolding V' ge spliced_edges_def by auto
  have Vr: "\<forall>v \<in> V. \<forall>t \<in> set (targets (es v)). t \<in> V \<and> r v < r t"
    using r d(2) by (fastforce simp: edges_ok_def targets_def)
  obtain q :: "node_id \<Rightarrow> nat" where "\<forall>v \<in> V'. \<forall>t \<in> set (targets (?es' v)). q v < q t"
    using spliced_rank [OF Vr _ C(2-6) rk real] nV unfolding V' by blast
  then have q: "\<exists>q :: node_id \<Rightarrow> nat. \<forall>v \<in> V'. \<forall>t \<in> set (targets (graph_edges g2 v)). q v < q t" using ge' by auto
  have "run_state (graph_edges g2) V' [] (insert n D) g2 (R - {#n#} + released g2)"
    using run_inv_shift(1) [OF inv2, of False] by (simp add: run_state_def)
  moreover have "edge_count (graph_edges g2) V' \<le> edge_count es V + length (edge_targets ops) + node_ops ops"
  proof -
    have out: "outstanding ?es' V' (insert n {}) [] = outstanding es V {} [] + E + replicate_mset (length (sinks g1 ?ns)) ?x"
      unfolding V' by (rule spliced_outstanding [OF d(1) _ C(5,1,3,4) _ _ Esum refl]) (use nV in auto)
    have fV: "finite V'" "n \<in> V'" using d(1) C(2) nV by (auto simp: V')
    have size_out: "size (outstanding f W Z []) = (\<Sum>v \<in> W - Z. length (f v))" for f W Z
      by (simp add: outstanding_def size_multiset_sum targets_def)
    have "edge_count (graph_edges g2) V' = (\<Sum>v \<in> V'. length (?es' v))" using ge' by (simp add: edge_count_def)
    also have "\<dots> = (\<Sum>v \<in> V' - {n}. length (?es' v))"
      using sum.remove [OF fV, of "\<lambda>v. length (?es' v)"] by (simp add: spliced_edges_def)
    also have "\<dots> = size (outstanding ?es' V' (insert n {}) [])" by (simp add: size_out)
    also have "\<dots> = edge_count es V + length (edge_targets ops) + length (sinks g1 ?ns)"
      unfolding out by (simp add: size_out edge_count_def E_def)
    also have "length (sinks g1 ?ns) \<le> node_ops ops" using length_filter_le [of _ ?ns] by (simp add: sinks_def k)
    finally show ?thesis by simp
  qed
  moreover have "children b k \<subseteq> D3" if "run_inv (graph_edges g2) V' R3 0 D3 [] g3" "?x \<in> D3" for g3 :: "'u engine" and R3 D3
  proof (rule children_settled [OF that rk C(2)])
    show "?C \<subseteq> V'" by (auto simp: V')
    show "\<forall>v \<in> ?C. graph_edges g2 v = (if graph_edges g1 v = [] then [exit_edge ?x] else graph_edges g1 v)"
      using C nV by (auto simp: ge sinks_def)
  qed (rule real)
  ultimately show ?thesis using ex q ge [of ?x] C(5) nV by (intro exI [of _ g2]) auto
qed

definition node_settled :: "'u engine \<Rightarrow> node_id \<Rightarrow> bool" where
  "node_settled g v \<longleftrightarrow> node_state (nodes g v) = Completed \<or> node_state (nodes g v) = Skipped"

lemma run_state_settled:
  assumes "run_state es V tr D g R" and "v \<in> D"
  shows "node_settled g v" and "v \<notin># R"
  using run_invD(11) [OF run_state_invD(1) [OF assms(1), of False] assms(2)] scheduled_node(2) [OF assms(1)] assms(2)
  by (auto simp: node_settled_def)

text \<open>
  C32: a subflow task in a run of an acyclic graph. It executes, and in every continuation of the
  run a successor of the task is scheduled only when all children of the subflow and its exit are
  settled; the continuation can always be extended until nothing is scheduled, which is when
  \<open>isCompleted\<close> holds, and then the nodes of the graph, the children and the exit are all settled.
\<close>

theorem subflow_in_run:
  assumes ok: "dag_ok (g :: 'u engine)" and fresh: "graph_nodes g \<subseteq> {..<next_node g}" and few: "length (m_nodeList g) + node_ops ops + 1 < 2 ^ 32"
    and run: "dag_run fuel now g tr g1 R1" and n: "n \<in># R1" "node_type (nodes g n) = SubflowTask"
    and ops: "ops_ok rank 0 ops" "0 < node_ops ops" "node_ops ops \<le> 65535" "\<forall>t. count_list (edge_targets ops) t \<le> 65535"
    and fuel: "edge_count (graph_edges g) (graph_nodes g) + length (edge_targets ops) + node_ops ops \<le> fuel"
    and b: "b = next_node g"
  shows "\<exists>g2. execute_subflow fuel (sub_client ops) n (begin_execute bb g1, x) = Some (g2, x)
    \<and> (\<forall>tr' g3 R3. graph_run fuel g2 (R1 - {#n#} + released g2) tr' g3 R3 \<longrightarrow>
         (\<forall>m. m \<in># R3 \<and> m \<in> set (targets (graph_edges g n)) \<longrightarrow> (\<forall>c \<in> {b..b + node_ops ops}. c \<notin># R3 \<and> node_settled g3 c))
         \<and> (\<exists>tr'' g4. graph_run fuel g2 (R1 - {#n#} + released g2) (tr' @ tr'') g4 {#})
         \<and> (isCompleted g3 \<longleftrightarrow> R3 = {#})
         \<and> (isCompleted g3 \<longrightarrow> (\<forall>v \<in> graph_nodes g \<union> {b..b + node_ops ops}. node_settled g3 v)))"
proof -
  let ?es = "graph_edges g" and ?V = "graph_nodes g" and ?x = "b + node_ops ops"
  define C where "C = children b (node_ops ops)"
  define V' where "V' = insert ?x (?V \<union> C)"
  have fuel0: "edge_count ?es ?V \<le> fuel" using fuel by simp
  obtain D where st: "run_state ?es ?V tr D g1 R1" and ty: "same_types g g1" using dag_run_facts [OF ok fuel0 run] by blast
  obtain r :: "node_id \<Rightarrow> nat" where r: "\<forall>v \<in> ?V. \<forall>t \<in> set (targets (?es v)). r v < r t" using ok by (auto simp: dag_ok_def)
  have ty1: "node_type (nodes g1 n) \<noteq> Condition" and fresh1: "?V \<subseteq> {..<next_node g1}" and b1: "b = next_node g1"
    using ty n(2) fresh b by (simp_all add: same_types_def)
  obtain g2 where ex: "execute_subflow fuel (sub_client ops) n (begin_execute bb g1, x) = Some (g2, x)"
    and st2: "run_state (graph_edges g2) V' [] (insert n D) g2 (R1 - {#n#} + released g2)"
    and ec: "edge_count (graph_edges g2) V' \<le> edge_count ?es ?V + length (edge_targets ops) + node_ops ops"
    and gx: "graph_edges g2 ?x = ?es n"
    and q: "\<exists>q :: node_id \<Rightarrow> nat. \<forall>v \<in> V'. \<forall>t \<in> set (targets (graph_edges g2 v)). q v < q t"
    and kids: "\<And>(g3 :: 'u engine) R3 D3. run_inv (graph_edges g2) V' R3 0 D3 [] g3 \<Longrightarrow> ?x \<in> D3 \<Longrightarrow> C \<subseteq> D3"
    using subflow_continues [OF run_state_invD(1) [OF st] n(1) ty1 fresh1 ops r b1 refl V'_def [unfolded C_def], of fuel bb x]
    unfolding C_def by blast
  have fuel2: "edge_count (graph_edges g2) V' \<le> fuel" using ec fuel by simp
  have Cx: "{b..?x} = insert ?x C" by (auto simp: C_def children_def)
  have "card V' \<le> Suc (card ?V + card C)"
    unfolding V'_def using card_Un_le [of ?V C] card_insert_le_m1 by (metis card_insert_le_m1 card_insert_if children_Suc(3) C_def
        finite_UnI List.finite_set le_SucI not_less_eq_eq)
  then have card: "card V' < 2 ^ 32" using few card_length [of "m_nodeList g"] by (simp add: C_def children_def)
  have "(\<forall>m. m \<in># R3 \<and> m \<in> set (targets (?es n)) \<longrightarrow> (\<forall>c \<in> {b..?x}. c \<notin># R3 \<and> node_settled g3 c))
       \<and> (\<exists>tr'' g4. graph_run fuel g2 (R1 - {#n#} + released g2) (tr' @ tr'') g4 {#})
       \<and> (isCompleted g3 \<longleftrightarrow> R3 = {#}) \<and> (isCompleted g3 \<longrightarrow> (\<forall>v \<in> ?V \<union> {b..?x}. node_settled g3 v))"
    if run3: "graph_run fuel g2 (R1 - {#n#} + released g2) tr' g3 R3" for tr' g3 R3
  proof -
    obtain D3 where st3: "run_state (graph_edges g2) V' tr' D3 g3 R3" using graph_run_state_from [OF run3 st2 fuel2] by blast
    note inv3 = run_state_invD [OF st3, of False]
    have "c \<notin># R3 \<and> node_settled g3 c" if "m \<in># R3" "m \<in> set (targets (?es n))" "c \<in> {b..?x}" for m c
    proof -
      have "?x \<in> D3" using scheduled_node(4) [OF st3 that(1), of ?x] that(2) gx by (simp add: V'_def)
      then have "c \<in> D3" using kids [OF inv3(1)] that(3) unfolding Cx by blast
      then show ?thesis using run_state_settled [OF st3] by blast
    qed
    moreover have done_iff: "isCompleted g3 \<longleftrightarrow> D3 = V'"
      using completed_iff_settled [OF inv3(1) card] by (simp add: isCompleted_def begin_execute_def)
    moreover have "R3 = {#} \<longleftrightarrow> D3 = V'"
      using quiescent_settled [OF _ inv3(2)] inv3(1) q scheduled_node(1,2) [OF st3] by (metis multiset_nonemptyE)
    moreover have "\<forall>v \<in> ?V \<union> {b..?x}. node_settled g3 v" if "D3 = V'"
      using that run_state_settled(1) [OF st3] unfolding Cx V'_def by blast
    ultimately show ?thesis using run_completes [OF run3 st3 fuel2] by blast
  qed
  then show ?thesis using ex by blast
qed

text \<open>A subflow task with one successor; its client creates two tasks, one after the other.\<close>

definition demo_sub :: "node_id list engine" where
  "demo_sub = addEdge 0 1 (-1) (snd (emplace ''after'' Worker Normal (\<lambda>u. u @ [1])
     (snd (emplaceSubflow ''sub'' Worker Normal (TaskGraph_new [])))))"

definition demo_ops :: "node_id list build_op list" where
  "demo_ops = [Emplace ''first'' Worker Normal (\<lambda>u. u @ [2]), Emplace ''second'' Worker Normal (\<lambda>u. u @ [3]), AddEdge 0 1 (-1)]"

lemmas demo_sub_defs = demo_sub_def emplaceSubflow_def emplace_def create_node_def setCallable_def appendNode_def
  TaskGraph_new_def TaskNode_default_def addEdge_def upd_node_def Let_def

lemma demo_sub_facts:
  "m_nodeList demo_sub = [0, 1]" "next_node demo_sub = 2" "node_type (nodes demo_sub 0) = SubflowTask"
  "graph_edges demo_sub 0 = [\<lparr>target = Some 1, branch = -1, isLoopBack = False\<rparr>]" "graph_edges demo_sub (Suc 0) = []"
  "initialInDegree (nodes demo_sub 0) = 0" "initialInDegree (nodes demo_sub (Suc 0)) = 1"
  "has_graph (nodes demo_sub 0)" "has_graph (nodes demo_sub (Suc 0))"
  "m_nodeCount demo_sub = 2" "m_waitList demo_sub = []" "requests demo_sub = []" "t_nextInlineTask demo_sub = None"
  by (simp_all add: demo_sub_defs graph_edges_def)

lemma demo_sub_ok: "dag_ok demo_sub"
proof -
  have ie: "in_edges demo_sub = {#1#}" by (simp add: in_edges_def demo_sub_facts targets_def)
  have "\<forall>v \<in> graph_nodes demo_sub. \<forall>t \<in> set (targets (graph_edges demo_sub v)). id v < id t"
    by (simp add: demo_sub_facts targets_def)
  moreover have "edges_ok (graph_edges demo_sub) (graph_nodes demo_sub)"
    by (simp add: edges_ok_def demo_sub_facts)
  ultimately show ?thesis unfolding dag_ok_def by (auto simp: ie demo_sub_facts)
qed

lemma demo_sub_root: "released (prepareRun 0 demo_sub) = {#0#}"
proof -
  have "m_nodeCount demo_sub \<noteq> 0" "m_waitList demo_sub = []" "released demo_sub = {#}"
    by (simp_all add: demo_sub_facts released_def)
  note f = prepareRun_facts(4) [OF this, of 0]
  show ?thesis using f by (simp add: demo_sub_facts)
qed

theorem subflow_in_run_witness:
  "\<exists>g2 tr g4. execute_subflow 9 (sub_client demo_ops) 0 (begin_execute False (prepareRun 0 demo_sub), ()) = Some (g2, ())
    \<and> graph_run 9 g2 (released g2) tr g4 {#} \<and> isCompleted g4 \<and> node_settled g4 1 \<and> node_settled g4 4"
proof -
  have ops: "ops_ok id 0 demo_ops" "0 < node_ops demo_ops" "node_ops demo_ops \<le> 65535"
    "\<forall>t. count_list (edge_targets demo_ops) t \<le> 65535" by (simp_all add: demo_ops_def)
  have fuel: "edge_count (graph_edges demo_sub) (graph_nodes demo_sub) + length (edge_targets demo_ops) + node_ops demo_ops \<le> 9"
    by (simp add: edge_count_def demo_sub_facts demo_ops_def)
  have few: "length (m_nodeList demo_sub) + node_ops demo_ops + 1 < 2 ^ 32" by (simp add: demo_sub_facts demo_ops_def)
  have fresh: "graph_nodes demo_sub \<subseteq> {..<next_node demo_sub}" by (simp add: demo_sub_facts)
  have n: "(0 :: node_id) \<in># released (prepareRun 0 demo_sub)" by (simp add: demo_sub_root)
  obtain g2 where ex: "execute_subflow 9 (sub_client demo_ops) 0 (begin_execute False (prepareRun 0 demo_sub), ()) = Some (g2, ())"
    and g2: "\<forall>tr' g3 R3. graph_run 9 g2 (released g2) tr' g3 R3 \<longrightarrow>
         (\<forall>m. m \<in># R3 \<and> m \<in> set (targets (graph_edges demo_sub 0)) \<longrightarrow> (\<forall>c \<in> {2..2 + node_ops demo_ops}. c \<notin># R3 \<and> node_settled g3 c))
         \<and> (\<exists>tr'' g4. graph_run 9 g2 (released g2) (tr' @ tr'') g4 {#}) \<and> (isCompleted g3 \<longleftrightarrow> R3 = {#})
         \<and> (isCompleted g3 \<longrightarrow> (\<forall>v \<in> graph_nodes demo_sub \<union> {2..2 + node_ops demo_ops}. node_settled g3 v))"
    using subflow_in_run [OF demo_sub_ok fresh few graph_run.run_start n demo_sub_facts(3) ops fuel
        demo_sub_facts(2) [symmetric], of False "()"] by (auto simp: demo_sub_root)
  obtain tr g4 where run: "graph_run 9 g2 (released g2) ([] @ tr) g4 {#}" using g2 graph_run.run_start by blast
  have "isCompleted g4 \<and> (\<forall>v \<in> graph_nodes demo_sub \<union> {2..2 + node_ops demo_ops}. node_settled g4 v)"
    using g2 run by blast
  moreover have "1 \<in> graph_nodes demo_sub" "4 \<in> {2..2 + node_ops demo_ops}" by (simp_all add: demo_sub_facts demo_ops_def)
  ultimately show ?thesis using ex run by (intro exI [of _ g2] exI [of _ tr] exI [of _ g4]) auto
qed

end
