(* ===== verification/Move_Only_Task.thy ===== *)
theory Move_Only_Task
  imports Slab_Arena
begin

text \<open>
  The type-erased move-only callable: \<^verbatim>\<open>move_only_task.hpp\<close>. A callable of at most 48 bytes lives in the
  task's own storage, a larger one in arena memory to which the storage points. Every access the C++
  object model does not allow (calling or destroying what is not there, dereferencing null) is
  \<open>None\<close>, so a result says that the access was to a live object.
\<close>

section \<open>Callables and storage\<close>

text \<open>
  \<open>c_id\<close> is a name that a callable keeps through its moves, for the specification only; \<open>c_state\<close> are
  its captures, which a call may change.
\<close>

record 'c closure =
  c_id :: nat
  c_state :: 'c

datatype callable_event = Called nat | Destroyed nat

text \<open>
  \<open>arena_objects\<close> are the callables that live in arena memory, \<open>events\<close> the calls and destructor calls
  in the order they happened. The destructor of a moved-from callable is not an event.
\<close>

record ('c, 'u) callables =
  arena_objects :: "u64 \<Rightarrow> 'c closure option"
  events :: "callable_event list"
  cl_user :: 'u

definition event :: "callable_event \<Rightarrow> ('c, 'u) callables \<Rightarrow> ('c, 'u) callables" where
  "event e w = w\<lparr>events := events w @ [e]\<rparr>"

definition SBO_SIZE :: usize where "SBO_SIZE = 48"

datatype manager_op = Move | Destroy

text \<open>The two pairs of lambdas the constructor may install.\<close>

datatype erased = InlineFns | ArenaFns

datatype 'c storage = Bytes | Object "'c closure" | Pointer u64

record 'c move_only_task =
  m_storage :: "'c storage"
  m_invoker :: "erased option"
  m_manager :: "erased option"

definition MoveOnlyTask_empty :: "'c move_only_task" where
  "MoveOnlyTask_empty = \<lparr>m_storage = Bytes, m_invoker = None, m_manager = None\<rparr>"

text \<open>The managers: source and destination storage, and the callables.\<close>

fun run_manager ::
  "erased \<Rightarrow> manager_op \<Rightarrow> 'c storage \<Rightarrow> 'c storage \<Rightarrow> ('c, 'u) callables
     \<Rightarrow> ('c storage \<times> 'c storage \<times> ('c, 'u) callables) option" where
  "run_manager InlineFns Destroy (Object c) dst w = Some (Bytes, dst, event (Destroyed (c_id c)) w)"
| "run_manager InlineFns Move (Object c) dst w = Some (Bytes, Object c, w)"
| "run_manager ArenaFns Destroy (Pointer s) dst w =
     (if s \<noteq> 0 then
        (case arena_objects w s of
           None \<Rightarrow> None
         | Some c \<Rightarrow> Some (Pointer s, dst, event (Destroyed (c_id c)) (w\<lparr>arena_objects := (arena_objects w)(s := None)\<rparr>)))
      else Some (Pointer s, dst, w))"
| "run_manager ArenaFns Move (Pointer s) dst w = Some (Pointer 0, Pointer s, w)"
| "run_manager _ _ _ _ _ = None"

text \<open>The invokers; \<open>call\<close> is the callable's own body.\<close>

definition call_closure ::
  "('c \<Rightarrow> 'u \<Rightarrow> 'c \<times> 'u) \<Rightarrow> 'c closure \<Rightarrow> ('c, 'u) callables \<Rightarrow> 'c closure \<times> ('c, 'u) callables" where
  "call_closure call c w =
     (let (st, u) = call (c_state c) (cl_user w) in (c\<lparr>c_state := st\<rparr>, event (Called (c_id c)) (w\<lparr>cl_user := u\<rparr>)))"

fun run_invoker ::
  "('c \<Rightarrow> 'u \<Rightarrow> 'c \<times> 'u) \<Rightarrow> erased \<Rightarrow> 'c storage \<Rightarrow> ('c, 'u) callables \<Rightarrow> ('c storage \<times> ('c, 'u) callables) option" where
  "run_invoker call InlineFns (Object c) w = (case call_closure call c w of (c, w) \<Rightarrow> Some (Object c, w))"
| "run_invoker call ArenaFns (Pointer p) w =
     (case arena_objects w p of
        None \<Rightarrow> None
      | Some c \<Rightarrow> (case call_closure call c w of (c, w) \<Rightarrow> Some (Pointer p, w\<lparr>arena_objects := (arena_objects w)(p \<mapsto> c)\<rparr>)))"
| "run_invoker _ _ _ _ = None"

section \<open>Operations\<close>

text \<open>The two branches of the constructor; \<open>mem\<close> is what the arena returned.\<close>

definition construct_inline :: "'c closure \<Rightarrow> 'c move_only_task" where
  "construct_inline c = \<lparr>m_storage = Object c, m_invoker = Some InlineFns, m_manager = Some InlineFns\<rparr>"

definition construct_at :: "u64 \<Rightarrow> 'c closure \<Rightarrow> ('c, 'u) callables \<Rightarrow> ('c move_only_task \<times> ('c, 'u) callables) option" where
  "construct_at mem c w =
     (if mem = 0 then None
      else Some (\<lparr>m_storage = Pointer mem, m_invoker = Some ArenaFns, m_manager = Some ArenaFns\<rparr>,
                 w\<lparr>arena_objects := (arena_objects w)(mem \<mapsto> c)\<rparr>))"

definition fits_inline :: "usize \<Rightarrow> usize \<Rightarrow> bool" where
  "fits_inline size_F align_F \<longleftrightarrow> size_F \<le> SBO_SIZE \<and> align_F \<le> 16"

definition MoveOnlyTask ::
  "bool \<Rightarrow> usize \<Rightarrow> usize \<Rightarrow> 'c closure \<Rightarrow> (slab_arena \<times> 'w block_pool \<times> 'w memory) option \<Rightarrow> ('c, 'u) callables
     \<Rightarrow> ('c move_only_task \<times> (slab_arena \<times> 'w block_pool \<times> 'w memory) option \<times> ('c, 'u) callables) option" where
  "MoveOnlyTask new_ok size_F align_F c arena w =
     (if fits_inline size_F align_F then Some (construct_inline c, arena, w)
      else
        (case arena of
           None \<Rightarrow> None
         | Some (a, p, m) \<Rightarrow>
             let (mem, a, p, m) = allocate new_ok size_F align_F a p m
             in map_option (\<lambda>(t, w). (t, Some (a, p, m), w)) (construct_at mem c w)))"

definition task_invoke ::
  "('c \<Rightarrow> 'u \<Rightarrow> 'c \<times> 'u) \<Rightarrow> 'c move_only_task \<Rightarrow> ('c, 'u) callables \<Rightarrow> ('c move_only_task \<times> ('c, 'u) callables) option" where
  "task_invoke call t w =
     (case m_invoker t of
        None \<Rightarrow> Some (t, w)
      | Some f \<Rightarrow> map_option (\<lambda>(s, w). (t\<lparr>m_storage := s\<rparr>, w)) (run_invoker call f (m_storage t) w))"

definition task_valid :: "'c move_only_task \<Rightarrow> bool" where
  "task_valid t \<longleftrightarrow> m_invoker t \<noteq> None"

definition task_reset :: "'c move_only_task \<Rightarrow> ('c, 'u) callables \<Rightarrow> ('c move_only_task \<times> ('c, 'u) callables) option" where
  "task_reset t w =
     (case m_manager t of
        None \<Rightarrow> Some (t, w)
      | Some f \<Rightarrow>
          map_option (\<lambda>(s, _, w). (t\<lparr>m_storage := s, m_invoker := None, m_manager := None\<rparr>, w))
            (run_manager f Destroy (m_storage t) Bytes w))"

definition MoveOnlyTask_destroy :: "'c move_only_task \<Rightarrow> ('c, 'u) callables \<Rightarrow> ('c move_only_task \<times> ('c, 'u) callables) option" where
  "MoveOnlyTask_destroy t w = task_reset t w"

definition moveFrom ::
  "'c move_only_task \<Rightarrow> 'c move_only_task \<Rightarrow> ('c, 'u) callables
     \<Rightarrow> ('c move_only_task \<times> 'c move_only_task \<times> ('c, 'u) callables) option" where
  "moveFrom this other w =
     (case m_manager other of
        None \<Rightarrow> Some (this, other, w)
      | Some f \<Rightarrow>
          map_option (\<lambda>(s, d, w). (this\<lparr>m_storage := d, m_invoker := m_invoker other, m_manager := m_manager other\<rparr>,
              other\<lparr>m_storage := s, m_invoker := None, m_manager := None\<rparr>, w))
            (run_manager f Move (m_storage other) (m_storage this) w))"

definition MoveOnlyTask_move ::
  "'c move_only_task \<Rightarrow> ('c, 'u) callables \<Rightarrow> ('c move_only_task \<times> 'c move_only_task \<times> ('c, 'u) callables) option" where
  "MoveOnlyTask_move other w = moveFrom MoveOnlyTask_empty other w"

text \<open>Assignment between two tasks that are elements of one array, since it tests whether they are the same.\<close>

definition move_assign ::
  "nat \<Rightarrow> nat \<Rightarrow> 'c move_only_task list \<times> ('c, 'u) callables \<Rightarrow> ('c move_only_task list \<times> ('c, 'u) callables) option" where
  "move_assign i j = (\<lambda>(ts, w).
     if i = j then Some (ts, w)
     else
       (case task_reset (ts ! i) w of
          None \<Rightarrow> None
        | Some (this, w) \<Rightarrow> map_option (\<lambda>(this, other, w). (ts[i := this, j := other], w)) (moveFrom this (ts ! j) w)))"

section \<open>Arrays of tasks\<close>

text \<open>
  A client with an array of tasks. \<open>Construct i\<close> is \<open>tasks[i] = MoveOnlyTask(f, arena)\<close>: a temporary is
  constructed, move-assigned and destroyed; \<open>mem\<close> is the address the arena gives, if it is asked.
\<close>

datatype 'c task_op =
    Construct nat usize usize 'c u64
  | MoveAssign nat nat
  | Invoke nat
  | Reset nat

type_synonym ('c, 'u) task_array = "'c move_only_task list \<times> nat \<times> ('c, 'u) callables"

definition assign_new ::
  "nat \<Rightarrow> 'c move_only_task \<Rightarrow> 'c move_only_task list \<times> ('c, 'u) callables \<Rightarrow> ('c move_only_task list \<times> ('c, 'u) callables) option" where
  "assign_new i t = (\<lambda>(ts, w).
     (case move_assign i (length ts) (ts @ [t], w) of
        None \<Rightarrow> None
      | Some (us, w) \<Rightarrow> map_option (\<lambda>(_, w). (butlast us, w)) (MoveOnlyTask_destroy (last us) w)))"

fun task_step :: "('c \<Rightarrow> 'u \<Rightarrow> 'c \<times> 'u) \<Rightarrow> 'c task_op \<Rightarrow> ('c, 'u) task_array \<Rightarrow> ('c, 'u) task_array option" where
  "task_step call (Construct i size_F align_F st mem) (ts, n, w) =
     (let c = \<lparr>c_id = n, c_state = st\<rparr>
      in case (if fits_inline size_F align_F then Some (construct_inline c, w) else construct_at mem c w) of
           None \<Rightarrow> None
         | Some (t, w) \<Rightarrow> map_option (\<lambda>(ts, w). (ts, n + 1, w)) (assign_new i t (ts, w)))"
| "task_step call (MoveAssign i j) (ts, n, w) = map_option (\<lambda>(ts, w). (ts, n, w)) (move_assign i j (ts, w))"
| "task_step call (Invoke i) (ts, n, w) = map_option (\<lambda>(t, w). (ts[i := t], n, w)) (task_invoke call (ts ! i) w)"
| "task_step call (Reset i) (ts, n, w) = map_option (\<lambda>(t, w). (ts[i := t], n, w)) (task_reset (ts ! i) w)"

fun run_tasks :: "('c \<Rightarrow> 'u \<Rightarrow> 'c \<times> 'u) \<Rightarrow> 'c task_op list \<Rightarrow> ('c, 'u) task_array \<Rightarrow> ('c, 'u) task_array option" where
  "run_tasks call [] s = Some s"
| "run_tasks call (op # ops) s = (case task_step call op s of None \<Rightarrow> None | Some s \<Rightarrow> run_tasks call ops s)"

text \<open>Indices are in range, and the arena gives memory that no living callable occupies.\<close>

fun op_ok :: "nat \<Rightarrow> u64 set \<Rightarrow> 'c task_op \<Rightarrow> bool" where
  "op_ok k used (Construct i size_F align_F st mem) \<longleftrightarrow> i < k \<and> (fits_inline size_F align_F \<or> mem \<noteq> 0 \<and> mem \<notin> used)"
| "op_ok k used (MoveAssign i j) \<longleftrightarrow> i < k \<and> j < k"
| "op_ok k used (Invoke i) \<longleftrightarrow> i < k"
| "op_ok k used (Reset i) \<longleftrightarrow> i < k"

fun ops_ok_run :: "('c \<Rightarrow> 'u \<Rightarrow> 'c \<times> 'u) \<Rightarrow> 'c task_op list \<Rightarrow> ('c, 'u) task_array \<Rightarrow> bool" where
  "ops_ok_run call [] s \<longleftrightarrow> True"
| "ops_ok_run call (op # ops) s \<longleftrightarrow>
     op_ok (length (fst s)) (dom (arena_objects (snd (snd s)))) op
     \<and> (case task_step call op s of None \<Rightarrow> True | Some s \<Rightarrow> ops_ok_run call ops s)"

section \<open>What an array of tasks is\<close>

text \<open>The specification: an array of optional callables, and the log.\<close>

type_synonym ('c, 'u) spec_array = "'c closure option list \<times> nat \<times> callable_event list \<times> 'u"

definition destroyed :: "'c closure option \<Rightarrow> callable_event list" where
  "destroyed s = (case s of None \<Rightarrow> [] | Some c \<Rightarrow> [Destroyed (c_id c)])"

fun spec_step :: "('c \<Rightarrow> 'u \<Rightarrow> 'c \<times> 'u) \<Rightarrow> 'c task_op \<Rightarrow> ('c, 'u) spec_array \<Rightarrow> ('c, 'u) spec_array" where
  "spec_step call (Construct i size_F align_F st mem) (sl, n, es, u) =
     (sl[i := Some \<lparr>c_id = n, c_state = st\<rparr>], n + 1, es @ destroyed (sl ! i), u)"
| "spec_step call (MoveAssign i j) (sl, n, es, u) =
     (if i = j then (sl, n, es, u) else (sl[i := sl ! j, j := None], n, es @ destroyed (sl ! i), u))"
| "spec_step call (Invoke i) (sl, n, es, u) =
     (case sl ! i of
        None \<Rightarrow> (sl, n, es, u)
      | Some c \<Rightarrow> (case call (c_state c) u of (st, u) \<Rightarrow> (sl[i := Some (c\<lparr>c_state := st\<rparr>)], n, es @ [Called (c_id c)], u)))"
| "spec_step call (Reset i) (sl, n, es, u) = (sl[i := None], n, es @ destroyed (sl ! i), u)"

text \<open>The callable a task holds.\<close>

definition view :: "('c, 'u) callables \<Rightarrow> 'c move_only_task \<Rightarrow> 'c closure option" where
  "view w t =
     (case m_manager t of
        None \<Rightarrow> None
      | Some f \<Rightarrow> (case m_storage t of Bytes \<Rightarrow> None | Object c \<Rightarrow> Some c | Pointer p \<Rightarrow> arena_objects w p))"

definition task_ptr :: "'c move_only_task \<Rightarrow> u64 option" where
  "task_ptr t = (if m_manager t = Some ArenaFns then (case m_storage t of Pointer p \<Rightarrow> Some p | _ \<Rightarrow> None) else None)"

definition task_ok :: "('c, 'u) callables \<Rightarrow> 'c move_only_task \<Rightarrow> bool" where
  "task_ok w t \<longleftrightarrow> m_invoker t = m_manager t
     \<and> (case m_manager t of
          None \<Rightarrow> True
        | Some InlineFns \<Rightarrow> \<exists>c. m_storage t = Object c
        | Some ArenaFns \<Rightarrow> \<exists>p c. m_storage t = Pointer p \<and> p \<noteq> 0 \<and> arena_objects w p = Some c)"

definition tasks_inv :: "'c move_only_task list \<Rightarrow> ('c, 'u) callables \<Rightarrow> bool" where
  "tasks_inv ts w \<longleftrightarrow> (\<forall>t \<in> set ts. task_ok w t)
     \<and> (\<forall>i < length ts. \<forall>j < length ts. \<forall>p. task_ptr (ts ! i) = Some p \<longrightarrow> task_ptr (ts ! j) = Some p \<longrightarrow> i = j)
     \<and> (\<forall>p \<in> dom (arena_objects w). \<exists>t \<in> set ts. task_ptr t = Some p)"

lemma view_empty [simp]: "m_manager t = None \<Longrightarrow> view w t = None" "m_manager t = None \<Longrightarrow> task_ptr t = None"
  by (simp_all add: view_def task_ptr_def)

text \<open>Views depend on the arena only through the task's own pointer.\<close>

lemma other_task:
  assumes "task_ok w t" and "\<forall>p. task_ptr t = Some p \<longrightarrow> arena_objects w' p = arena_objects w p"
  shows "view w' t = view w t" and "task_ok w' t"
  using assms by (auto simp: view_def task_ok_def task_ptr_def split: option.splits erased.splits)

lemma reset_facts:
  assumes "task_ok w t"
  shows "case task_reset t w of None \<Rightarrow> False | Some (t', w') \<Rightarrow> m_manager t' = None \<and> m_invoker t' = None
    \<and> events w' = events w @ destroyed (view w t) \<and> cl_user w' = cl_user w
    \<and> arena_objects w' = (case task_ptr t of None \<Rightarrow> arena_objects w | Some p \<Rightarrow> (arena_objects w)(p := None))"
  using assms
  by (auto simp: task_reset_def task_ok_def view_def task_ptr_def destroyed_def event_def split: option.splits erased.splits)

lemma moveFrom_facts:
  assumes "task_ok w other"
  shows "case moveFrom this other w of None \<Rightarrow> False | Some (this', other', w') \<Rightarrow> w' = w \<and> m_manager other' = None \<and> m_invoker other' = None
    \<and> (if m_manager other = None then this' = this
       else task_ok w this' \<and> view w this' = view w other \<and> task_ptr this' = task_ptr other)"
  using assms by (auto simp: moveFrom_def task_ok_def view_def task_ptr_def split: option.splits erased.splits)

lemma invoke_facts:
  assumes "task_ok w t"
  shows "case task_invoke call t w of None \<Rightarrow> False | Some (t', w') \<Rightarrow> task_ok w' t' \<and> task_ptr t' = task_ptr t
    \<and> (\<forall>p. task_ptr t \<noteq> Some p \<longrightarrow> arena_objects w' p = arena_objects w p) \<and> dom (arena_objects w') = dom (arena_objects w)
    \<and> (case view w t of
         None \<Rightarrow> view w' t' = None \<and> events w' = events w \<and> cl_user w' = cl_user w
       | Some c \<Rightarrow> view w' t' = Some (c\<lparr>c_state := fst (call (c_state c) (cl_user w))\<rparr>)
           \<and> events w' = events w @ [Called (c_id c)] \<and> cl_user w' = snd (call (c_state c) (cl_user w)))"
proof (cases "m_manager t")
  case None
  then show ?thesis using assms by (simp add: task_invoke_def task_ok_def)
next
  case (Some f)
  then show ?thesis
    using assms by (cases f) (auto simp: task_invoke_def task_ok_def view_def task_ptr_def call_closure_def event_def split: prod.splits)
qed

lemma tasks_inv_nth:
  "tasks_inv ts w \<longleftrightarrow> (\<forall>i < length ts. task_ok w (ts ! i))
     \<and> (\<forall>i < length ts. \<forall>j < length ts. \<forall>p. task_ptr (ts ! i) = Some p \<longrightarrow> task_ptr (ts ! j) = Some p \<longrightarrow> i = j)
     \<and> (\<forall>p \<in> dom (arena_objects w). \<exists>i < length ts. task_ptr (ts ! i) = Some p)"
proof -
  have "(\<exists>t \<in> set ts. task_ptr t = Some p) \<longleftrightarrow> (\<exists>i < length ts. task_ptr (ts ! i) = Some p)" for p
    by (metis in_set_conv_nth)
  then show ?thesis by (simp add: tasks_inv_def all_set_conv_all_nth)
qed

lemma tasks_invD:
  assumes "tasks_inv ts w"
  shows "\<And>i. i < length ts \<Longrightarrow> task_ok w (ts ! i)"
    and "\<And>i j p. i < length ts \<Longrightarrow> j < length ts \<Longrightarrow> task_ptr (ts ! i) = Some p \<Longrightarrow> task_ptr (ts ! j) = Some p \<Longrightarrow> i = j"
    and "\<And>p. p \<in> dom (arena_objects w) \<Longrightarrow> \<exists>i < length ts. task_ptr (ts ! i) = Some p"
  using assms unfolding tasks_inv_nth by blast+

lemma reset_step:
  assumes inv: "tasks_inv ts w" and i: "i < length ts" and r: "task_reset (ts ! i) w = Some (t', w')"
  shows "tasks_inv (ts[i := t']) w'" and "map (view w') (ts[i := t']) = (map (view w) ts)[i := None]"
    and "m_manager t' = None" and "events w' = events w @ destroyed (view w (ts ! i))" and "cl_user w' = cl_user w"
proof -
  note d = tasks_invD [OF inv]
  have f: "m_manager t' = None \<and> m_invoker t' = None \<and> events w' = events w @ destroyed (view w (ts ! i)) \<and> cl_user w' = cl_user w
    \<and> arena_objects w' = (case task_ptr (ts ! i) of None \<Rightarrow> arena_objects w | Some p \<Rightarrow> (arena_objects w)(p := None))"
    using reset_facts [OF d(1) [OF i]] r by simp
  then show "m_manager t' = None" "events w' = events w @ destroyed (view w (ts ! i))" "cl_user w' = cl_user w" by blast+
  have keep: "\<forall>p. task_ptr (ts ! k) = Some p \<longrightarrow> arena_objects w' p = arena_objects w p" if "k < length ts" "k \<noteq> i" for k
    using f d(2) [OF that(1) i] that(2) by (auto split: option.splits)
  note o = other_task [OF d(1) keep]
  have ok': "task_ok w' t'" "task_ptr t' = None" "view w' t' = None" using f by (simp_all add: task_ok_def)
  show "tasks_inv (ts[i := t']) w'" unfolding tasks_inv_nth
  proof (intro conjI allI impI ballI)
    show "task_ok w' (ts[i := t'] ! k)" if "k < length (ts[i := t'])" for k
      using that ok'(1) o(2) [of k] by (cases "k = i") simp_all
    show "j = k" if "j < length (ts[i := t'])" "k < length (ts[i := t'])" "task_ptr (ts[i := t'] ! j) = Some p"
      "task_ptr (ts[i := t'] ! k) = Some p" for j k p
      using that ok'(2) d(2) [of j k p] by (cases "j = i"; cases "k = i") simp_all
    fix p assume p: "p \<in> dom (arena_objects w')"
    then have "p \<in> dom (arena_objects w)" "task_ptr (ts ! i) \<noteq> Some p" using f by (auto split: option.splits if_splits)
    then obtain k where "k < length ts" "task_ptr (ts ! k) = Some p" "k \<noteq> i" using d(3) by blast
    then show "\<exists>k < length (ts[i := t']). task_ptr (ts[i := t'] ! k) = Some p" by (intro exI [of _ k]) simp
  qed
  show "map (view w') (ts[i := t']) = (map (view w) ts)[i := None]"
  proof (rule nth_equalityI)
    fix k assume "k < length (map (view w') (ts[i := t']))"
    then show "map (view w') (ts[i := t']) ! k = (map (view w) ts)[i := None] ! k"
      using ok'(3) o(1) [of k] i by (cases "k = i") simp_all
  qed simp
qed

lemma move_step:
  assumes inv: "tasks_inv ts w" and ij: "i < length ts" "j < length ts" "i \<noteq> j" and empty: "m_manager (ts ! i) = None"
    and r: "moveFrom (ts ! i) (ts ! j) w = Some (a, b, w')"
  shows "w' = w" and "tasks_inv (ts[i := a, j := b]) w" and "map (view w) (ts[i := a, j := b]) = (map (view w) ts)[i := view w (ts ! j), j := None]"
    and "m_manager b = None"
proof -
  note d = tasks_invD [OF inv]
  have f: "w' = w" "m_manager b = None" "m_invoker b = None" and f2: "if m_manager (ts ! j) = None then a = ts ! i
       else task_ok w a \<and> view w a = view w (ts ! j) \<and> task_ptr a = task_ptr (ts ! j)"
    using moveFrom_facts [OF d(1) [OF ij(2)], of "ts ! i"] r by simp_all
  show "w' = w" "m_manager b = None" by (rule f)+
  have a: "task_ok w a" "view w a = view w (ts ! j)" "task_ptr a = task_ptr (ts ! j)"
    using f2 d(1) [OF ij(1)] empty by (auto split: if_splits)
  have b: "task_ok w b" "view w b = None" "task_ptr b = None" using f by (simp_all add: task_ok_def)
  let ?us = "ts[i := a, j := b]"
  have us: "?us ! k = (if k = j then b else if k = i then a else ts ! k)" if "k < length ts" for k
    using that ij by (simp add: nth_list_update)
  show "tasks_inv ?us w" unfolding tasks_inv_nth
  proof (intro conjI allI impI ballI)
    show "task_ok w (?us ! k)" if "k < length ?us" for k
    proof -
      have k: "k < length ts" using that by simp
      show ?thesis unfolding us [OF k] using a(1) b(1) d(1) [OF k] by simp
    qed
    have ptr: "k = i \<and> task_ptr (ts ! j) = Some p \<or> k \<noteq> i \<and> k \<noteq> j \<and> task_ptr (ts ! k) = Some p"
      if "k < length ts" "task_ptr (?us ! k) = Some p" for k p
      using that(2) a(3) b(3) ij(3) unfolding us [OF that(1)] by (cases "k = j"; cases "k = i") simp_all
    show "k = l" if "k < length ?us" "l < length ?us" "task_ptr (?us ! k) = Some p" "task_ptr (?us ! l) = Some p" for k l p
    proof -
      have "k < length ts" "l < length ts" using that by simp_all
      then show ?thesis using ptr [of k p] ptr [of l p] that(3,4) d(2) [of k l p] d(2) [of j l p] d(2) [of k j p] ij by blast
    qed
    fix p assume "p \<in> dom (arena_objects w)"
    then obtain k where k: "k < length ts" "task_ptr (ts ! k) = Some p" using d(3) by blast
    then have "k \<noteq> i" using empty by auto
    then show "\<exists>k < length ?us. task_ptr (?us ! k) = Some p"
      using k a(3) us [OF ij(1)] us [OF k(1)] ij by (cases "k = j") (force simp del: nth_list_update_neq)+
  qed
  show "map (view w) ?us = (map (view w) ts)[i := view w (ts ! j), j := None]"
    using a(2) b(2) by (simp add: map_update)
qed

lemma move_assign_step:
  assumes inv: "tasks_inv ts w" and ij: "i < length ts" "j < length ts"
  shows "case move_assign i j (ts, w) of None \<Rightarrow> False | Some (us, w') \<Rightarrow>
      tasks_inv us w' \<and> length us = length ts \<and> cl_user w' = cl_user w \<and> (i \<noteq> j \<longrightarrow> m_manager (us ! j) = None)
      \<and> map (view w') us = (if i = j then map (view w) ts else (map (view w) ts)[i := view w (ts ! j), j := None])
      \<and> events w' = (if i = j then events w else events w @ destroyed (view w (ts ! i)))"
proof (cases "i = j")
  case True
  then show ?thesis using inv by (simp add: move_assign_def)
next
  case False
  obtain t' w1 where r: "task_reset (ts ! i) w = Some (t', w1)"
    using reset_facts [OF tasks_invD(1) [OF inv ij(1)]] by (auto split: option.splits)
  note s = reset_step [OF inv ij(1) r]
  let ?ts = "ts[i := t']"
  have n: "?ts ! i = t'" "?ts ! j = ts ! j" using ij False by simp_all
  obtain a b w2 where m: "moveFrom t' (ts ! j) w1 = Some (a, b, w2)"
    using moveFrom_facts [of w1 "?ts ! j" t'] tasks_invD(1) [OF s(1), of j] ij n by (auto split: option.splits)
  note t = move_step [OF s(1), of i j a b w2]
  have t: "w2 = w1" "tasks_inv (ts[i := a, j := b]) w1" "m_manager b = None"
    "map (view w1) (ts[i := a, j := b]) = (map (view w1) ?ts)[i := view w1 (ts ! j), j := None]"
    using t ij False n s(3) m by simp_all
  have "view w1 (ts ! j) = map (view w1) ?ts ! j" using n ij by simp
  also have "\<dots> = view w (ts ! j)" unfolding s(2) using ij False by simp
  finally have "map (view w1) (ts[i := a, j := b]) = (map (view w) ts)[i := view w (ts ! j), j := None]"
    unfolding t(4) s(2) by simp
  then show ?thesis using False r m t s(4,5) ij by (simp add: move_assign_def)
qed

section \<open>The refinement\<close>

definition abs_tasks :: "('c, 'u) task_array \<Rightarrow> ('c, 'u) spec_array" where
  "abs_tasks = (\<lambda>(ts, n, w). (map (view w) ts, n, events w, cl_user w))"

lemma task_ptr_lives: "task_ok w t \<Longrightarrow> task_ptr t = Some p \<Longrightarrow> p \<in> dom (arena_objects w)"
  by (auto simp: task_ok_def task_ptr_def split: option.splits erased.splits if_splits)

lemma append_task:
  assumes inv: "tasks_inv ts w" and t: "task_ok w' t" "view w' t = Some c"
    and fresh: "case task_ptr t of None \<Rightarrow> arena_objects w' = arena_objects w
      | Some p \<Rightarrow> p \<notin> dom (arena_objects w) \<and> arena_objects w' = (arena_objects w)(p \<mapsto> c)"
  shows "tasks_inv (ts @ [t]) w'" and "map (view w') (ts @ [t]) = map (view w) ts @ [Some c]"
proof -
  have d1: "task_ok w s" if "s \<in> set ts" for s using inv that by (simp add: tasks_inv_def)
  note d = d1 task_ptr_lives [OF d1]
  have keep: "\<forall>p. task_ptr s = Some p \<longrightarrow> arena_objects w' p = arena_objects w p" if "s \<in> set ts" for s
    using d(2) [OF that] fresh by (auto split: option.splits)
  note o = other_task [OF d(1) keep]
  have np: "task_ptr (ts ! k) \<noteq> task_ptr t \<or> task_ptr t = None" if "k < length ts" for k
    using d(2) [of "ts ! k"] that fresh by (cases "task_ptr t") auto
  show "tasks_inv (ts @ [t]) w'" unfolding tasks_inv_def
  proof (intro conjI ballI allI impI)
    show "task_ok w' s" if "s \<in> set (ts @ [t])" for s using that o(2) t(1) by auto
    show "i = j" if "i < length (ts @ [t])" "j < length (ts @ [t])" "task_ptr ((ts @ [t]) ! i) = Some p" "task_ptr ((ts @ [t]) ! j) = Some p" for i j p
      using that np [of i] np [of j] tasks_invD(2) [OF inv, of i j p] by (auto simp: nth_append less_Suc_eq split: if_splits)
    show "\<exists>s \<in> set (ts @ [t]). task_ptr s = Some p" if "p \<in> dom (arena_objects w')" for p
      using that fresh inv by (auto simp: tasks_inv_def split: option.splits if_splits)
  qed
  show "map (view w') (ts @ [t]) = map (view w) ts @ [Some c]" using o(1) t(2) by simp
qed

lemma construct_step:
  assumes "tasks_inv ts w" and "fits_inline size_F align_F \<or> mem \<noteq> 0 \<and> mem \<notin> dom (arena_objects w)"
  shows "case (if fits_inline size_F align_F then Some (construct_inline c, w) else construct_at mem c w) of None \<Rightarrow> False
    | Some (t, w') \<Rightarrow> tasks_inv (ts @ [t]) w' \<and> map (view w') (ts @ [t]) = map (view w) ts @ [Some c]
        \<and> events w' = events w \<and> cl_user w' = cl_user w"
proof (cases "fits_inline size_F align_F")
  case True
  then show ?thesis
    using append_task [OF assms(1), of w "construct_inline c" c] by (simp add: construct_inline_def task_ok_def view_def task_ptr_def)
next
  case False
  let ?t = "\<lparr>m_storage = Pointer mem, m_invoker = Some ArenaFns, m_manager = Some ArenaFns\<rparr>" and ?w = "w\<lparr>arena_objects := (arena_objects w)(mem \<mapsto> c)\<rparr>"
  have "construct_at mem c w = Some (?t, ?w)" using False assms(2) by (simp add: construct_at_def)
  then show ?thesis using False assms(2) append_task [OF assms(1), of ?w ?t c] by (simp add: task_ok_def view_def task_ptr_def)
qed

lemma drop_last:
  assumes "tasks_inv (ts @ [t]) w" and "m_manager t = None"
  shows "tasks_inv ts w"
  unfolding tasks_inv_def
proof (intro conjI ballI allI impI)
  show "task_ok w s" if "s \<in> set ts" for s using assms(1) that by (simp add: tasks_inv_def)
  show "i = j" if "i < length ts" "j < length ts" "task_ptr (ts ! i) = Some p" "task_ptr (ts ! j) = Some p" for i j p
    using tasks_invD(2) [OF assms(1), of i j p] that by (simp add: nth_append)
  show "\<exists>s \<in> set ts. task_ptr s = Some p" if "p \<in> dom (arena_objects w)" for p
    using assms that by (auto simp: tasks_inv_def)
qed

lemma assign_new_step:
  assumes inv: "tasks_inv (ts @ [t]) w" and i: "i < length ts" and v: "map (view w) (ts @ [t]) = sl @ [Some c]"
  shows "case assign_new i t (ts, w) of None \<Rightarrow> False | Some (us, w') \<Rightarrow>
      tasks_inv us w' \<and> length us = length ts \<and> cl_user w' = cl_user w
      \<and> map (view w') us = sl[i := Some c] \<and> events w' = events w @ destroyed (sl ! i)"
proof -
  have l: "length sl = length ts" using v by (metis length_append_singleton length_map nat.inject)
  have ne: "i \<noteq> length ts" "i < length (ts @ [t])" "length ts < length (ts @ [t])" using i by simp_all
  obtain us w1 where m: "move_assign i (length ts) (ts @ [t], w) = Some (us, w1)" and s: "tasks_inv us w1" "length us = Suc (length ts)"
      "cl_user w1 = cl_user w" "m_manager (us ! length ts) = None"
      "map (view w1) us = (map (view w) (ts @ [t]))[i := view w ((ts @ [t]) ! length ts), length ts := None]"
      "events w1 = events w @ destroyed (view w ((ts @ [t]) ! i))"
    using move_assign_step [OF inv ne(2,3)] ne(1) by (auto split: option.splits)
  obtain vs x where us: "us = vs @ [x]" using s(2) by (metis append_butlast_last_id length_0_conv nat.distinct(1))
  then have lv: "length vs = length ts" "m_manager x = None" using s(2,4) by (auto simp: nth_append)
  have "view w ((ts @ [t]) ! i) = sl ! i" using arg_cong [OF v, of "\<lambda>xs. xs ! i"] i l by (simp add: nth_append)
  moreover have "view w t = Some c" using v l by simp
  then have "map (view w1) us = (sl[i := Some c]) @ [None]"
    unfolding s(5) v using l i by (simp add: list_update_append nth_append)
  then have "map (view w1) vs = sl[i := Some c]" using us l by simp
  moreover have "tasks_inv vs w1" using drop_last s(1) lv(2) us by blast
  ultimately show ?thesis using m s(3,6) us lv by (simp add: assign_new_def MoveOnlyTask_destroy_def task_reset_def)
qed

lemma step_refines:
  assumes inv: "tasks_inv ts w" and ok: "op_ok (length ts) (dom (arena_objects w)) op"
  shows "case task_step call op (ts, n, w) of None \<Rightarrow> False | Some (ts', n', w') \<Rightarrow>
    tasks_inv ts' w' \<and> length ts' = length ts \<and> abs_tasks (ts', n', w') = spec_step call op (abs_tasks (ts, n, w))"
proof (cases op)
  case (Construct i size_F align_F st mem)
  let ?c = "\<lparr>c_id = n, c_state = st\<rparr>"
  obtain t w1 where c: "(if fits_inline size_F align_F then Some (construct_inline ?c, w) else construct_at mem ?c w) = Some (t, w1)"
    and a: "tasks_inv (ts @ [t]) w1" "map (view w1) (ts @ [t]) = map (view w) ts @ [Some ?c]" "events w1 = events w" "cl_user w1 = cl_user w"
    using construct_step [OF inv, of size_F align_F mem ?c] ok Construct by (auto split: option.splits)
  have i: "i < length ts" using ok Construct by simp
  show ?thesis
    using assign_new_step [OF a(1) i a(2)] a(3,4) c Construct by (auto simp: abs_tasks_def Let_def split: option.splits)
next
  case (MoveAssign i j)
  then show ?thesis
    using move_assign_step [OF inv, of i j] ok by (auto simp: abs_tasks_def split: option.splits)
next
  case (Invoke i)
  then have i: "i < length ts" using ok by simp
  note d = tasks_invD [OF inv]
  obtain t' w' where r: "task_invoke call (ts ! i) w = Some (t', w')" and f: "task_ok w' t'" "task_ptr t' = task_ptr (ts ! i)"
      "\<forall>p. task_ptr (ts ! i) \<noteq> Some p \<longrightarrow> arena_objects w' p = arena_objects w p" "dom (arena_objects w') = dom (arena_objects w)"
    and v: "case view w (ts ! i) of
         None \<Rightarrow> view w' t' = None \<and> events w' = events w \<and> cl_user w' = cl_user w
       | Some c \<Rightarrow> view w' t' = Some (c\<lparr>c_state := fst (call (c_state c) (cl_user w))\<rparr>)
           \<and> events w' = events w @ [Called (c_id c)] \<and> cl_user w' = snd (call (c_state c) (cl_user w))"
    using invoke_facts [OF d(1) [OF i], of call] by (cases "task_invoke call (ts ! i) w") auto
  have keep: "\<forall>p. task_ptr (ts ! k) = Some p \<longrightarrow> arena_objects w' p = arena_objects w p" if "k < length ts" "k \<noteq> i" for k
    using f(3) d(2) [OF that(1) i] that(2) by auto
  note o = other_task [OF d(1) keep]
  have "tasks_inv (ts[i := t']) w'" unfolding tasks_inv_nth
  proof (intro conjI allI impI ballI)
    show "task_ok w' (ts[i := t'] ! k)" if "k < length (ts[i := t'])" for k using that f(1) o(2) [of k] by (cases "k = i") simp_all
    have ptr: "task_ptr (ts[i := t'] ! k) = task_ptr (ts ! k)" if "k < length ts" for k using that f(2) by (cases "k = i") simp_all
    show "j = k" if "j < length (ts[i := t'])" "k < length (ts[i := t'])" "task_ptr (ts[i := t'] ! j) = Some p"
      "task_ptr (ts[i := t'] ! k) = Some p" for j k p using that ptr [of j] ptr [of k] d(2) [of j k p] by simp
    show "\<exists>k < length (ts[i := t']). task_ptr (ts[i := t'] ! k) = Some p" if "p \<in> dom (arena_objects w')" for p
      using that d(3) [of p] f(4) ptr by auto
  qed
  moreover have "map (view w') (ts[i := t']) = (map (view w) ts)[i := view w' t']"
  proof (rule nth_equalityI)
    fix k assume "k < length (map (view w') (ts[i := t']))"
    then show "map (view w') (ts[i := t']) ! k = (map (view w) ts)[i := view w' t'] ! k"
      using o(1) [of k] i by (cases "k = i") simp_all
  qed simp
  moreover have "(map (view w) ts)[i := view w (ts ! i)] = map (view w) ts" using i by (metis list_update_id nth_map)
  ultimately show ?thesis
    using Invoke r v i by (cases "view w (ts ! i)") (auto simp: abs_tasks_def split: prod.splits)
next
  case (Reset i)
  then have i: "i < length ts" using ok by simp
  obtain t' w' where r: "task_reset (ts ! i) w = Some (t', w')"
    using reset_facts [OF tasks_invD(1) [OF inv i]] by (auto split: option.splits)
  show ?thesis using reset_step [OF inv i r] Reset r i by (simp add: abs_tasks_def)
qed

lemma run_refines:
  assumes "tasks_inv (fst s) (snd (snd s))" and "ops_ok_run call ops s"
  shows "\<exists>s'. run_tasks call ops s = Some s' \<and> tasks_inv (fst s') (snd (snd s')) \<and> length (fst s') = length (fst s)
    \<and> abs_tasks s' = fold (spec_step call) ops (abs_tasks s)"
  using assms
proof (induction ops arbitrary: s)
  case (Cons op ops)
  obtain ts n w where s: "s = (ts, n, w)" by (cases s)
  have ok: "op_ok (length ts) (dom (arena_objects w)) op" using Cons.prems(2) s by simp
  obtain s1 where s1: "task_step call op s = Some s1" "tasks_inv (fst s1) (snd (snd s1))" "length (fst s1) = length ts"
      "abs_tasks s1 = spec_step call op (abs_tasks s)"
    using step_refines [of ts w op call n] Cons.prems(1) ok s by (cases "task_step call op s") auto
  then show ?case using Cons.IH [of s1] Cons.prems(2) s by auto
qed simp

section \<open>Every callable is destroyed once\<close>

definition ids_of :: "'c closure option \<Rightarrow> nat list" where
  "ids_of s = (case s of None \<Rightarrow> [] | Some c \<Rightarrow> [c_id c])"

definition held_ids :: "'c closure option list \<Rightarrow> nat multiset" where
  "held_ids sl = mset (concat (map ids_of sl))"

fun destroyed_ids :: "callable_event list \<Rightarrow> nat list" where
  "destroyed_ids [] = []"
| "destroyed_ids (Called i # es) = destroyed_ids es"
| "destroyed_ids (Destroyed i # es) = i # destroyed_ids es"

text \<open>Nothing happens to a callable after its destructor ran.\<close>

definition log_ok :: "callable_event list \<Rightarrow> bool" where
  "log_ok es \<longleftrightarrow> (\<forall>es1 i es2. es = es1 @ Destroyed i # es2 \<longrightarrow> Called i \<notin> set es2 \<and> Destroyed i \<notin> set es2)"

lemma destroyed_ids_append [simp]: "destroyed_ids (es @ fs) = destroyed_ids es @ destroyed_ids fs"
  by (induction es rule: destroyed_ids.induct) auto

lemma destroyed_ids_set: "i \<in> set (destroyed_ids es) \<longleftrightarrow> Destroyed i \<in> set es" "count_list es (Destroyed i) = count (mset (destroyed_ids es)) i"
  by (induction es rule: destroyed_ids.induct) auto

lemma destroyed_of [simp]: "destroyed_ids (destroyed s) = ids_of s"
  by (simp add: destroyed_def ids_of_def split: option.split)

lemma log_ok_snoc:
  assumes "log_ok es" and "Destroyed i \<notin> set es"
  shows "log_ok (es @ [Called i])" and "log_ok (es @ [Destroyed i])"
proof -
  have "Called k \<notin> set es2 \<and> Destroyed k \<notin> set es2" if e: "es @ [x] = es1 @ Destroyed k # es2" and x: "x \<in> {Called i, Destroyed i}" for x es1 k es2
  proof (cases es2 rule: rev_cases)
    case (snoc fs y)
    then have s: "es = es1 @ Destroyed k # fs" "y = x" using e by auto
    then have "Called k \<notin> set fs \<and> Destroyed k \<notin> set fs" using assms(1) by (simp add: log_ok_def)
    moreover have "k \<noteq> i" using s(1) assms(2) by auto
    ultimately show ?thesis using snoc s(2) x by auto
  qed simp
  then show "log_ok (es @ [Called i])" "log_ok (es @ [Destroyed i])" unfolding log_ok_def by blast+
qed

lemma held_update:
  assumes "i < length sl"
  shows "held_ids (sl[i := x]) + mset (ids_of (sl ! i)) = held_ids sl + mset (ids_of x)"
  using assms by (induction sl arbitrary: i) (auto simp: held_ids_def split: nat.split)

text \<open>The ledger: each callable constructed is held by one slot or was destroyed.\<close>

fun ledger :: "('c, 'u) spec_array \<Rightarrow> bool" where
  "ledger (sl, n, es, u) \<longleftrightarrow> mset [0..<n] = held_ids sl + mset (destroyed_ids es) \<and> log_ok es"

lemma ledger_fresh:
  assumes "ledger (sl, n, es, u)" and "i < length sl" and "sl ! i = Some c"
  shows "Destroyed (c_id c) \<notin> set es"
proof
  assume "Destroyed (c_id c) \<in> set es"
  then have d: "0 < count (mset (destroyed_ids es)) (c_id c)" using destroyed_ids_set(1) [of "c_id c" es] by simp
  have "c_id c \<in># held_ids sl" using assms(2,3) nth_mem [OF assms(2)] by (force simp: held_ids_def ids_of_def)
  then have h: "0 < count (held_ids sl) (c_id c)" by simp
  have "mset [0..<n] = held_ids sl + mset (destroyed_ids es)" using assms(1) by simp
  then have "count (mset [0..<n]) (c_id c) = count (held_ids sl) (c_id c) + count (mset (destroyed_ids es)) (c_id c)"
    by (simp only: count_union)
  moreover have "count (mset [0..<n]) (c_id c) \<le> 1" using distinct_count_atmost_1 [of "[0..<n]"] by simp
  ultimately show False using d h by linarith
qed

lemma ledger_destroy:
  assumes "ledger (sl, n, es, u)" and "i < length sl"
  shows "log_ok (es @ destroyed (sl ! i))"
  using assms ledger_fresh [OF assms] log_ok_snoc by (cases "sl ! i") (auto simp: destroyed_def)

lemma ledger_step:
  assumes l: "ledger (sl, n, es, u)" and ok: "op_ok (length sl) used op"
  shows "ledger (spec_step call op (sl, n, es, u))" and "length (fst (spec_step call op (sl, n, es, u))) = length sl"
proof -
  have bal: "mset [0..<n] = held_ids sl + mset (destroyed_ids es)" and log: "log_ok es" using l by simp_all
  have "ledger (spec_step call op (sl, n, es, u)) \<and> length (fst (spec_step call op (sl, n, es, u))) = length sl"
  proof (cases op)
    case (Construct i size_F align_F st mem)
    then have i: "i < length sl" using ok by simp
    show ?thesis
      using held_update [OF i, of "Some \<lparr>c_id = n, c_state = st\<rparr>"] bal ledger_destroy [OF l i] Construct
      by (simp add: ids_of_def ac_simps)
  next
    case (MoveAssign i j)
    then have ij: "i < length sl" "j < length sl" using ok by simp_all
    show ?thesis
    proof (cases "i = j")
      case False
      let ?a = "sl[i := sl ! j]"
      have aj: "?a ! j = sl ! j" "j < length ?a" using False ij by simp_all
      have a: "held_ids (?a[j := None]) + mset (ids_of (sl ! j)) = held_ids ?a"
        using held_update [OF aj(2), of None] unfolding aj(1) by (simp add: ids_of_def [of None])
      have "held_ids (?a[j := None]) + mset (ids_of (sl ! i)) + mset (ids_of (sl ! j)) = held_ids ?a + mset (ids_of (sl ! i))"
        unfolding a [symmetric] by (simp only: ac_simps)
      also have "\<dots> = held_ids sl + mset (ids_of (sl ! j))" by (rule held_update [OF ij(1)])
      finally have h: "held_ids (?a[j := None]) + mset (ids_of (sl ! i)) = held_ids sl" by simp
      have "mset [0..<n] = held_ids (?a[j := None]) + mset (destroyed_ids (es @ destroyed (sl ! i)))"
        unfolding bal h [symmetric] by (simp add: ac_simps)
      then show ?thesis using False ledger_destroy [OF l ij(1)] MoveAssign by simp
    qed (use MoveAssign l in simp)
  next
    case (Invoke i)
    then have i: "i < length sl" using ok by simp
    show ?thesis
    proof (cases "sl ! i")
      case None
      then show ?thesis using Invoke l by simp
    next
      case (Some c)
      obtain st u' where cl: "call (c_state c) u = (st, u')" by fastforce
      have "held_ids (sl[i := Some (c\<lparr>c_state := st\<rparr>)]) = held_ids sl"
        using held_update [OF i, of "Some (c\<lparr>c_state := st\<rparr>)"] Some by (simp add: ids_of_def)
      then show ?thesis using Invoke Some cl bal log_ok_snoc(1) [OF log ledger_fresh [OF l i Some]] by simp
    qed
  next
    case (Reset i)
    then have i: "i < length sl" using ok by simp
    show ?thesis using held_update [OF i, of None] bal ledger_destroy [OF l i] Reset by (simp add: ids_of_def [of None] ac_simps)
  qed
  then show "ledger (spec_step call op (sl, n, es, u))" "length (fst (spec_step call op (sl, n, es, u))) = length sl" by blast+
qed

lemma ledger_run:
  assumes "ledger s" and "\<forall>op \<in> set ops. \<exists>used. op_ok (length (fst s)) used op"
  shows "ledger (fold (spec_step call) ops s)"
  using assms
proof (induction ops arbitrary: s)
  case (Cons op ops)
  obtain sl n es u where s: "s = (sl, n, es, u)" by (cases s)
  obtain used where "op_ok (length sl) used op" using Cons.prems(2) s by auto
  note st = ledger_step [OF Cons.prems(1) [unfolded s] this, of call]
  show ?case using Cons.IH [of "spec_step call op s"] Cons.prems(2) st s by simp
qed simp

lemma ops_ok_each:
  assumes "tasks_inv (fst s) (snd (snd s))" and "ops_ok_run call ops s" and "op \<in> set ops"
  shows "\<exists>used. op_ok (length (fst s)) used op"
  using assms
proof (induction ops arbitrary: s)
  case (Cons o1 ops)
  obtain ts n w where s: "s = (ts, n, w)" by (cases s)
  have ok: "op_ok (length ts) (dom (arena_objects w)) o1" using Cons.prems(2) s by simp
  obtain s1 where s1: "task_step call o1 s = Some s1" "tasks_inv (fst s1) (snd (snd s1))" "length (fst s1) = length ts"
    using step_refines [of ts w o1 call n] Cons.prems(1) ok s by (cases "task_step call o1 s") auto
  then have "ops_ok_run call ops s1" using Cons.prems(2) by simp
  then show ?case using Cons.IH [of s1] Cons.prems(3) s1 ok s by auto
qed simp

text \<open>Destroying the whole array.\<close>

lemma reset_all_ok: "ops_ok_run call (map Reset is) s" if "\<forall>i \<in> set is. i < length (fst s)" "tasks_inv (fst s) (snd (snd s))" for "is"
  using that
proof (induction "is" arbitrary: s)
  case (Cons i "is")
  obtain ts n w where s: "s = (ts, n, w)" by (cases s)
  have ok: "op_ok (length ts) (dom (arena_objects w)) (Reset i)" using Cons.prems(1) s by simp
  show ?case
    using step_refines [of ts w "Reset i" call n, OF _ ok] Cons s by (cases "task_step call (Reset i) s") auto
qed simp

lemma reset_all_spec:
  assumes "length sl = k"
  shows "\<exists>es'. fold (spec_step call) (map Reset [0..<m]) (sl, n, es, u) = (map (\<lambda>i. if i < m then None else sl ! i) [0..<k], n, es', u)"
proof (induction m)
  case 0
  then show ?case using assms map_nth [of sl] by simp
next
  case (Suc m)
  then obtain es' where e: "fold (spec_step call) (map Reset [0..<m]) (sl, n, es, u) = (map (\<lambda>i. if i < m then None else sl ! i) [0..<k], n, es', u)"
    by blast
  have "(map (\<lambda>i. if i < m then None else sl ! i) [0..<k])[m := None] = map (\<lambda>i. if i < Suc m then None else sl ! i) [0..<k]"
  proof (rule nth_equalityI)
    fix i assume "i < length ((map (\<lambda>i. if i < m then None else sl ! i) [0..<k])[m := None])"
    then show "(map (\<lambda>i. if i < m then None else sl ! i) [0..<k])[m := None] ! i = map (\<lambda>i. if i < Suc m then None else sl ! i) [0..<k] ! i"
      by (cases "i = m") auto
  qed simp
  then show ?case using e by simp
qed

definition new_array :: "nat \<Rightarrow> 'u \<Rightarrow> ('c, 'u) task_array" where
  "new_array k u = (replicate k MoveOnlyTask_empty, 0, \<lparr>arena_objects = (\<lambda>p. None), events = [], cl_user = u\<rparr>)"

lemma new_array_facts: "tasks_inv (fst (new_array k u)) (snd (snd (new_array k u)))" "length (fst (new_array k u)) = k"
  "ledger (abs_tasks (new_array k u))"
proof -
  have "concat (map ids_of (replicate k None)) = []" by (induction k) (auto simp: ids_of_def)
  then show "ledger (abs_tasks (new_array k u))"
    by (simp add: new_array_def abs_tasks_def held_ids_def log_ok_def MoveOnlyTask_empty_def)
qed (auto simp: new_array_def tasks_inv_def task_ok_def MoveOnlyTask_empty_def task_ptr_def dom_def)

text \<open>
  The constructor with a real arena is the step \<open>Construct\<close> at the address the arena returns, and when
  the living callables occupy live blocks of the arena that address is null or new.
\<close>

lemma MoveOnlyTask_construct:
  assumes "allocate new_ok size_F align_F a p m = (mem, a', p', m')"
  shows "MoveOnlyTask new_ok size_F align_F c (Some (a, p, m)) w =
    map_option (\<lambda>(t, w). (t, Some (if fits_inline size_F align_F then (a, p, m) else (a', p', m')), w))
      (if fits_inline size_F align_F then Some (construct_inline c, w) else construct_at mem c w)"
  using assms by (simp add: MoveOnlyTask_def)

lemma arena_address_fresh:
  assumes "arena_inv a p m fl out slabs live" and "fresh_alloc p (m_chunk_slabs p) m"
    and "k \<le> 6" and "size_F \<noteq> 0" and "size_F \<le> PAYLOAD_SIZE"
    and "allocate new_ok size_F (2 ^ k) a p m = (mem, a', p', m')"
    and "\<forall>q \<in> dom (arena_objects w). \<exists>s > 0. (unat q, s) \<in> set live"
  shows "mem = 0 \<or> mem \<notin> dom (arena_objects w)"
proof (rule ccontr)
  assume n: "\<not> (mem = 0 \<or> mem \<notin> dom (arena_objects w))"
  then obtain s where s: "0 < s" "(unat mem, s) \<in> set live" using assms(7) by blast
  obtain fl' out' slabs' where i: "arena_inv a' p' m' fl' out' slabs' ((unat mem, unat size_F) # live)"
    using allocate_small [OF assms(1-6)] n by blast
  have "apart (unat mem, unat size_F) (unat mem, s)" using arena_invD(11) [OF i] s(2) by (auto simp del: apart.simps)
  moreover have "0 < unat size_F" using assms(4) by (simp add: unat_gt_0)
  ultimately show False using s(1) by simp
qed

text \<open>What holds of an array whose ledger balances, now and after all its elements are reset.\<close>

lemma array_life:
  assumes inv: "tasks_inv ts w" and l: "ledger (abs_tasks (ts, n, w))"
  shows "log_ok (events w) \<and> (\<forall>i < n. Destroyed i \<in> set (events w) \<longleftrightarrow> i \<notin># held_ids (map (view w) ts))"
    and "\<exists>ts' w'. run_tasks call (map Reset [0..<length ts]) (ts, n, w) = Some (ts', n, w')
         \<and> (\<forall>p. arena_objects w' p = None) \<and> log_ok (events w') \<and> (\<forall>i < n. count_list (events w') (Destroyed i) = 1)"
proof -
  have bal: "mset [0..<n] = held_ids (map (view w) ts) + mset (destroyed_ids (events w))" and log: "log_ok (events w)"
    using l by (simp_all add: abs_tasks_def)
  have "Destroyed i \<in> set (events w) \<longleftrightarrow> i \<notin># held_ids (map (view w) ts)" if "i < n" for i
  proof -
    have "count (mset [0..<n]) i = 1" using that distinct_count_atmost_1 [of "[0..<n]"] by simp
    then have "count (held_ids (map (view w) ts)) i + count (mset (destroyed_ids (events w))) i = 1" by (simp only: bal count_union)
    moreover have "Destroyed i \<in> set (events w) \<longleftrightarrow> 0 < count (mset (destroyed_ids (events w))) i"
      using destroyed_ids_set(1) [of i "events w"] by simp
    moreover have "i \<notin># held_ids (map (view w) ts) \<longleftrightarrow> count (held_ids (map (view w) ts)) i = 0" by (simp add: count_eq_zero_iff)
    ultimately show ?thesis by linarith
  qed
  then show "log_ok (events w) \<and> (\<forall>i < n. Destroyed i \<in> set (events w) \<longleftrightarrow> i \<notin># held_ids (map (view w) ts))"
    using log by blast
  let ?k = "length ts"
  have lts: "\<forall>i \<in> set [0..<?k]. i < length (fst (ts, n, w))" and inv2: "tasks_inv (fst (ts, n, w)) (snd (snd (ts, n, w)))" using inv by simp_all
  obtain s' where s': "run_tasks call (map Reset [0..<?k]) (ts, n, w) = Some s'" "tasks_inv (fst s') (snd (snd s'))"
      "abs_tasks s' = fold (spec_step call) (map Reset [0..<?k]) (abs_tasks (ts, n, w))"
    using run_refines [OF inv2 reset_all_ok [OF lts inv2, of call]] by auto
  obtain ts' n' w' where st': "s' = (ts', n', w')" by (cases s')
  have l': "ledger (abs_tasks s')" unfolding s'(3) by (rule ledger_run [OF l]) (auto simp: abs_tasks_def)
  have none: "map (view w') ts' = map (\<lambda>i. None) [0..<?k]" and n': "n' = n"
    using reset_all_spec [of "map (view w) ts" ?k call ?k n "events w" "cl_user w"] s'(3) st' by (auto simp: abs_tasks_def)
  have "concat (map ids_of (map (\<lambda>i. None) [0..<?k])) = []" by (simp add: ids_of_def)
  then have "held_ids (map (view w') ts') = {#}" unfolding none held_ids_def by simp
  then have bal': "mset [0..<n] = mset (destroyed_ids (events w'))" and log': "log_ok (events w')"
    using l' by (simp_all add: st' n' abs_tasks_def)
  have cnt: "count_list (events w') (Destroyed i) = 1" if "i < n" for i
    using that distinct_count_atmost_1 [of "[0..<n]"] unfolding destroyed_ids_set(2) bal' [symmetric] by simp
  have inv': "tasks_inv ts' w'" using s'(2) st' by simp
  have gone: "arena_objects w' p = None" for p
  proof (rule ccontr)
    assume "arena_objects w' p \<noteq> None"
    then have p: "p \<in> dom (arena_objects w')" by blast
    obtain i where i: "i < length ts'" "task_ptr (ts' ! i) = Some p" using tasks_invD(3) [OF inv' p] by blast
    have "view w' (ts' ! i) \<noteq> None"
      using tasks_invD(1) [OF inv' i(1)] i(2) by (auto simp: task_ok_def task_ptr_def view_def split: if_splits)
    moreover have "view w' (ts' ! i) \<in> set (map (view w') ts')" using i(1) by simp
    ultimately show False unfolding none by auto
  qed
  show "\<exists>ts' w'. run_tasks call (map Reset [0..<length ts]) (ts, n, w) = Some (ts', n, w')
         \<and> (\<forall>p. arena_objects w' p = None) \<and> log_ok (events w') \<and> (\<forall>i < n. count_list (events w') (Destroyed i) = 1)"
    using s'(1) st' n' gone log' cnt by blast
qed

text \<open>
  C37: an array of \<open>MoveOnlyTask\<close> objects is an array of optional callables. Any sequence of constructing,
  move-assigning, calling and resetting its elements runs without touching a dead object and has the
  effect of the specification; a callable is not called or destroyed again after it was destroyed,
  each is either held or destroyed, and after the array is destroyed every callable was destroyed
  exactly once and none is left in arena memory.
\<close>

theorem callables_destroyed_once:
  assumes "ops_ok_run call ops (new_array k u)"
  shows "\<exists>ts n w. run_tasks call ops (new_array k u) = Some (ts, n, w)
    \<and> abs_tasks (ts, n, w) = fold (spec_step call) ops (abs_tasks (new_array k u)) \<and> log_ok (events w)
    \<and> (\<forall>i < n. Destroyed i \<in> set (events w) \<longleftrightarrow> i \<notin># held_ids (map (view w) ts))
    \<and> (\<exists>ts' w'. run_tasks call (map Reset [0..<k]) (ts, n, w) = Some (ts', n, w')
         \<and> (\<forall>p. arena_objects w' p = None) \<and> log_ok (events w') \<and> (\<forall>i < n. count_list (events w') (Destroyed i) = 1))"
proof -
  note a = new_array_facts [of k u]
  obtain s where s: "run_tasks call ops (new_array k u) = Some s" "tasks_inv (fst s) (snd (snd s))" "length (fst s) = k"
      "abs_tasks s = fold (spec_step call) ops (abs_tasks (new_array k u))"
    using run_refines [OF a(1) assms] a(2) by auto
  obtain ts n w where st: "s = (ts, n, w)" by (cases s)
  have len: "length (fst (abs_tasks (new_array k u))) = k" by (simp add: abs_tasks_def new_array_def)
  have l: "ledger (abs_tasks (ts, n, w))" unfolding st [symmetric] s(4)
    by (rule ledger_run [OF a(3)]) (use ops_ok_each [OF a(1) assms] in \<open>simp add: len a(2)\<close>)
  have inv: "tasks_inv ts w" and k: "length ts = k" using s(2,3) st by simp_all
  show ?thesis
    using array_life(1) [OF inv l] array_life(2) [OF inv l, of call] s(1,4) unfolding st k by blast
qed

theorem callables_destroyed_once_witness:
  "case run_tasks (\<lambda>c u. (c + 1, u + c)) [Construct 0 8 8 5 0, Construct 1 64 8 7 0x1000, MoveAssign 2 1, Invoke 2, MoveAssign 2 0, Invoke 2]
      (new_array 3 (0 :: nat)) of
     None \<Rightarrow> False
   | Some (ts, n, w) \<Rightarrow> log_ok (events w) \<and> events w = [Called 1, Destroyed 1, Called 0] \<and> cl_user w = (12 :: nat)"
proof -
  let ?ops = "[Construct 0 8 8 5 0, Construct 1 64 8 7 0x1000, MoveAssign 2 1, Invoke 2, MoveAssign 2 0, Invoke 2]"
  have ok: "ops_ok_run (\<lambda>c u. (c + 1, u + c)) ?ops (new_array 3 (0 :: nat))"
    by (simp add: new_array_def numeral_3_eq_3 MoveOnlyTask_empty_def fits_inline_def SBO_SIZE_def construct_inline_def construct_at_def
        assign_new_def move_assign_def MoveOnlyTask_destroy_def task_reset_def moveFrom_def task_invoke_def call_closure_def event_def)
  show ?thesis
    using callables_destroyed_once [OF ok]
    by (auto simp: abs_tasks_def new_array_def numeral_3_eq_3 MoveOnlyTask_empty_def destroyed_def)
qed

end
