(* ===== verification/Node_Storage.thy ===== *)
theory Node_Storage
  imports Move_Only_Task Task_Graph
begin

text \<open>
  The callable storage of a task node: \<^verbatim>\<open>setCallable\<close>, \<^verbatim>\<open>setConditionCallable\<close>, \<^verbatim>\<open>destroy\<close> and the
  lambdas they install (\<^verbatim>\<open>task_node.hpp\<close>). The 48 bytes are untyped: what they hold is known only to
  the two function pointers, whose lambdas cast them to the type they were instantiated for. Here a
  callable carries its type, and a lambda that casts the bytes to another type, or finds no living
  object, is \<open>None\<close>; that this never happens is the type soundness of the storage.
\<close>

section \<open>Typed callables\<close>

text \<open>
  \<open>cap_type\<close> is the closure type (\<^verbatim>\<open>DecayedF\<close>), \<open>cap_state\<close> the captured values. \<open>bodies\<close> is the code of
  each closure type: from captures and program state to the result converted to \<^verbatim>\<open>int\<close> (used of
  conditions only), the captures and the state.
\<close>

record 'c captures =
  cap_type :: nat
  cap_state :: 'c

type_synonym ('c, 'u) bodies = "nat \<Rightarrow> 'c \<Rightarrow> 'u \<Rightarrow> int \<times> 'c \<times> 'u"

definition body_call :: "('c, 'u) bodies \<Rightarrow> 'c captures \<Rightarrow> 'u \<Rightarrow> 'c captures \<times> 'u" where
  "body_call bs x u = (case bs (cap_type x) (cap_state x) u of (_, st, u) \<Rightarrow> (x\<lparr>cap_state := st\<rparr>, u))"

definition body_branch :: "('c, 'u) bodies \<Rightarrow> 'c captures \<Rightarrow> 'u \<Rightarrow> int" where
  "body_branch bs x u = fst (bs (cap_type x) (cap_state x) u)"

text \<open>
  The lambdas: \<open>erased\<close> is the branch of \<^verbatim>\<open>if constexpr\<close> that made it, the number the type it was made for.
\<close>

datatype exec_fn = PlainFn (exec_erased: erased) (exec_type: nat) | ConditionFn (exec_erased: erased) (exec_type: nat)

datatype destroy_fn = DtorFn (dtor_erased: erased) (dtor_type: nat)

text \<open>The members of \<^verbatim>\<open>TaskNode\<close> that the storage operations read and write.\<close>

record 'c node_store =
  ns_type :: TaskType
  ns_userData :: int
  ns_executeFn :: "exec_fn option"
  ns_inlineStorage :: "'c captures storage"
  ns_destroyFn :: "destroy_fn option"

definition node_store_new :: "'c node_store" where
  "node_store_new = \<lparr>ns_type = Static, ns_userData = 0, ns_executeFn = None, ns_inlineStorage = Bytes, ns_destroyFn = None\<rparr>"

text \<open>\<open>INLINE_STORAGE_BYTES\<close> and the test of both setters.\<close>

definition INLINE_STORAGE_BYTES :: usize where "INLINE_STORAGE_BYTES = 48"

definition stored_inline :: "usize \<Rightarrow> usize \<Rightarrow> bool" where
  "stored_inline size_F align_F \<longleftrightarrow> size_F \<le> INLINE_STORAGE_BYTES \<and> align_F \<le> 16"

lemma stored_inline_fits: "stored_inline = fits_inline"
  by (simp add: fun_eq_iff stored_inline_def fits_inline_def INLINE_STORAGE_BYTES_def SBO_SIZE_def)

section \<open>The lambdas\<close>

text \<open>The object a lambda made for type \<open>t\<close> finds, and writing it back after the call changed its captures.\<close>

fun cast_read :: "erased \<Rightarrow> nat \<Rightarrow> 'c captures storage \<Rightarrow> ('c captures, 'u) callables \<Rightarrow> 'c captures closure option" where
  "cast_read InlineFns t (Object c) w = (if cap_type (c_state c) = t then Some c else None)"
| "cast_read ArenaFns t (Pointer p) w =
     (case arena_objects w p of None \<Rightarrow> None | Some c \<Rightarrow> if cap_type (c_state c) = t then Some c else None)"
| "cast_read _ _ _ _ = None"

fun write_back :: "erased \<Rightarrow> 'c captures closure \<Rightarrow> 'c captures storage \<Rightarrow> ('c captures, 'u) callables
    \<Rightarrow> 'c captures storage \<times> ('c captures, 'u) callables" where
  "write_back InlineFns c s w = (Object c, w)"
| "write_back ArenaFns c (Pointer p) w = (Pointer p, w\<lparr>arena_objects := (arena_objects w)(p \<mapsto> c)\<rparr>)"
| "write_back ArenaFns c s w = (s, w)"

text \<open>The two kinds of \<open>executeFn\<close>; \<open>userData\<close> keeps the branch of a condition.\<close>

fun run_executeFn :: "('c, 'u) bodies \<Rightarrow> exec_fn \<Rightarrow> 'c node_store \<Rightarrow> ('c captures, 'u) callables
    \<Rightarrow> ('c node_store \<times> ('c captures, 'u) callables) option" where
  "run_executeFn bs (PlainFn e t) nd w =
     (case cast_read e t (ns_inlineStorage nd) w of
        None \<Rightarrow> None
      | Some c \<Rightarrow>
          (case call_closure (body_call bs) c w of (c', w) \<Rightarrow>
           case write_back e c' (ns_inlineStorage nd) w of (s, w) \<Rightarrow> Some (nd\<lparr>ns_inlineStorage := s\<rparr>, w)))"
| "run_executeFn bs (ConditionFn e t) nd w =
     (case cast_read e t (ns_inlineStorage nd) w of
        None \<Rightarrow> None
      | Some c \<Rightarrow>
          let br = body_branch bs (c_state c) (cl_user w)
          in (case call_closure (body_call bs) c w of (c', w) \<Rightarrow>
              case write_back e c' (ns_inlineStorage nd) w of (s, w) \<Rightarrow> Some (nd\<lparr>ns_inlineStorage := s, ns_userData := br\<rparr>, w)))"

text \<open>\<open>destroyFn\<close>: the destructor of the type, at the inline bytes or where they point.\<close>

fun run_destroyFn :: "destroy_fn \<Rightarrow> 'c node_store \<Rightarrow> ('c captures, 'u) callables
    \<Rightarrow> ('c node_store \<times> ('c captures, 'u) callables) option" where
  "run_destroyFn (DtorFn InlineFns t) nd w =
     (case cast_read InlineFns t (ns_inlineStorage nd) w of
        None \<Rightarrow> None
      | Some c \<Rightarrow> Some (nd\<lparr>ns_inlineStorage := Bytes\<rparr>, event (Destroyed (c_id c)) w))"
| "run_destroyFn (DtorFn ArenaFns t) nd w =
     (case ns_inlineStorage nd of
        Pointer p \<Rightarrow>
          if p \<noteq> 0 then
            (case cast_read ArenaFns t (Pointer p) w of
               None \<Rightarrow> None
             | Some c \<Rightarrow> Some (nd, event (Destroyed (c_id c)) (w\<lparr>arena_objects := (arena_objects w)(p := None)\<rparr>)))
          else Some (nd, w)
      | _ \<Rightarrow> None)"

section \<open>Operations\<close>

definition node_execute :: "('c, 'u) bodies \<Rightarrow> 'c node_store \<Rightarrow> ('c captures, 'u) callables
    \<Rightarrow> ('c node_store \<times> ('c captures, 'u) callables) option" where
  "node_execute bs nd w = (case ns_executeFn nd of None \<Rightarrow> Some (nd, w) | Some f \<Rightarrow> run_executeFn bs f nd w)"

definition store_destroy :: "'c node_store \<Rightarrow> ('c captures, 'u) callables \<Rightarrow> ('c node_store \<times> ('c captures, 'u) callables) option" where
  "store_destroy nd w =
     (case ns_destroyFn nd of
        None \<Rightarrow> Some (nd\<lparr>ns_executeFn := None\<rparr>, w)
      | Some f \<Rightarrow> map_option (\<lambda>(nd, w). (nd\<lparr>ns_destroyFn := None, ns_executeFn := None\<rparr>, w)) (run_destroyFn f nd w))"

text \<open>
  Placing a callable: in the bytes, or at \<open>mem\<close>, what the arena returned; constructing at null is not
  allowed.
\<close>

definition place_inline :: "'c captures closure \<Rightarrow> 'c node_store \<Rightarrow> 'c node_store" where
  "place_inline c nd = nd\<lparr>ns_inlineStorage := Object c, ns_destroyFn := Some (DtorFn InlineFns (cap_type (c_state c)))\<rparr>"

definition place_at :: "u64 \<Rightarrow> 'c captures closure \<Rightarrow> 'c node_store \<Rightarrow> ('c captures, 'u) callables
    \<Rightarrow> ('c node_store \<times> ('c captures, 'u) callables) option" where
  "place_at mem c nd w =
     (if mem = 0 then None
      else Some (nd\<lparr>ns_inlineStorage := Pointer mem, ns_destroyFn := Some (DtorFn ArenaFns (cap_type (c_state c)))\<rparr>,
                 w\<lparr>arena_objects := (arena_objects w)(mem \<mapsto> c)\<rparr>))"

definition setCallable_at :: "usize \<Rightarrow> usize \<Rightarrow> u64 \<Rightarrow> 'c captures closure \<Rightarrow> 'c node_store \<Rightarrow> ('c captures, 'u) callables
    \<Rightarrow> ('c node_store \<times> ('c captures, 'u) callables) option" where
  "setCallable_at size_F align_F mem c nd w =
     (case store_destroy nd w of
        None \<Rightarrow> None
      | Some (nd, w) \<Rightarrow>
          if stored_inline size_F align_F
          then Some ((place_inline c nd)\<lparr>ns_executeFn := Some (PlainFn InlineFns (cap_type (c_state c)))\<rparr>, w)
          else map_option (\<lambda>(nd, w). (nd\<lparr>ns_executeFn := Some (PlainFn ArenaFns (cap_type (c_state c)))\<rparr>, w)) (place_at mem c nd w))"

definition setConditionCallable_at :: "usize \<Rightarrow> usize \<Rightarrow> u64 \<Rightarrow> 'c captures closure \<Rightarrow> 'c node_store \<Rightarrow> ('c captures, 'u) callables
    \<Rightarrow> ('c node_store \<times> ('c captures, 'u) callables) option" where
  "setConditionCallable_at size_F align_F mem c nd w =
     (case store_destroy (nd\<lparr>ns_type := Condition\<rparr>) w of
        None \<Rightarrow> None
      | Some (nd, w) \<Rightarrow>
          if stored_inline size_F align_F
          then Some ((place_inline c nd)\<lparr>ns_executeFn := Some (ConditionFn InlineFns (cap_type (c_state c)))\<rparr>, w)
          else map_option (\<lambda>(nd, w). (nd\<lparr>ns_executeFn := Some (ConditionFn ArenaFns (cap_type (c_state c)))\<rparr>, w)) (place_at mem c nd w))"

text \<open>With the arena: it is asked for memory only when the callable does not fit; without one, the assertion fails.\<close>

definition arena_memory :: "bool \<Rightarrow> usize \<Rightarrow> usize \<Rightarrow> (slab_arena \<times> 'w block_pool \<times> 'w memory) option
    \<Rightarrow> (u64 \<times> (slab_arena \<times> 'w block_pool \<times> 'w memory) option) option" where
  "arena_memory new_ok size_F align_F arena =
     (if stored_inline size_F align_F then Some (0, arena)
      else (case arena of
              None \<Rightarrow> None
            | Some (a, p, m) \<Rightarrow> (case allocate new_ok size_F align_F a p m of (mem, a, p, m) \<Rightarrow> Some (mem, Some (a, p, m)))))"

definition setCallable_in :: "bool \<Rightarrow> usize \<Rightarrow> usize \<Rightarrow> 'c captures closure \<Rightarrow> (slab_arena \<times> 'w block_pool \<times> 'w memory) option
    \<Rightarrow> 'c node_store \<Rightarrow> ('c captures, 'u) callables
    \<Rightarrow> ('c node_store \<times> (slab_arena \<times> 'w block_pool \<times> 'w memory) option \<times> ('c captures, 'u) callables) option" where
  "setCallable_in new_ok size_F align_F c arena nd w =
     (case arena_memory new_ok size_F align_F arena of
        None \<Rightarrow> None
      | Some (mem, arena) \<Rightarrow> map_option (\<lambda>(nd, w). (nd, arena, w)) (setCallable_at size_F align_F mem c nd w))"

definition setConditionCallable_in :: "bool \<Rightarrow> usize \<Rightarrow> usize \<Rightarrow> 'c captures closure \<Rightarrow> (slab_arena \<times> 'w block_pool \<times> 'w memory) option
    \<Rightarrow> 'c node_store \<Rightarrow> ('c captures, 'u) callables
    \<Rightarrow> ('c node_store \<times> (slab_arena \<times> 'w block_pool \<times> 'w memory) option \<times> ('c captures, 'u) callables) option" where
  "setConditionCallable_in new_ok size_F align_F c arena nd w =
     (case arena_memory new_ok size_F align_F arena of
        None \<Rightarrow> None
      | Some (mem, arena) \<Rightarrow> map_option (\<lambda>(nd, w). (nd, arena, w)) (setConditionCallable_at size_F align_F mem c nd w))"

section \<open>Sequences of operations on several nodes\<close>

datatype 'c node_op =
    SetCallable nat usize usize nat 'c u64
  | SetConditionCallable nat usize usize nat 'c u64
  | Execute nat
  | DestroyNode nat

type_synonym ('c, 'u) node_array = "'c node_store list \<times> nat \<times> ('c captures, 'u) callables"

fun node_op_step :: "('c, 'u) bodies \<Rightarrow> 'c node_op \<Rightarrow> ('c, 'u) node_array \<Rightarrow> ('c, 'u) node_array option" where
  "node_op_step bs (SetCallable i size_F align_F t st mem) (ns, n, w) =
     map_option (\<lambda>(nd, w). (ns[i := nd], n + 1, w))
       (setCallable_at size_F align_F mem \<lparr>c_id = n, c_state = \<lparr>cap_type = t, cap_state = st\<rparr>\<rparr> (ns ! i) w)"
| "node_op_step bs (SetConditionCallable i size_F align_F t st mem) (ns, n, w) =
     map_option (\<lambda>(nd, w). (ns[i := nd], n + 1, w))
       (setConditionCallable_at size_F align_F mem \<lparr>c_id = n, c_state = \<lparr>cap_type = t, cap_state = st\<rparr>\<rparr> (ns ! i) w)"
| "node_op_step bs (Execute i) (ns, n, w) = map_option (\<lambda>(nd, w). (ns[i := nd], n, w)) (node_execute bs (ns ! i) w)"
| "node_op_step bs (DestroyNode i) (ns, n, w) = map_option (\<lambda>(nd, w). (ns[i := nd], n, w)) (store_destroy (ns ! i) w)"

fun run_node_ops :: "('c, 'u) bodies \<Rightarrow> 'c node_op list \<Rightarrow> ('c, 'u) node_array \<Rightarrow> ('c, 'u) node_array option" where
  "run_node_ops bs [] s = Some s"
| "run_node_ops bs (op # ops) s = (case node_op_step bs op s of None \<Rightarrow> None | Some s \<Rightarrow> run_node_ops bs ops s)"

text \<open>Indices are in range, and the arena gives memory that no living callable occupies.\<close>

fun node_op_ok :: "nat \<Rightarrow> u64 set \<Rightarrow> 'c node_op \<Rightarrow> bool" where
  "node_op_ok k used (SetCallable i size_F align_F t st mem) \<longleftrightarrow> i < k \<and> (stored_inline size_F align_F \<or> mem \<noteq> 0 \<and> mem \<notin> used)"
| "node_op_ok k used (SetConditionCallable i size_F align_F t st mem) \<longleftrightarrow> i < k \<and> (stored_inline size_F align_F \<or> mem \<noteq> 0 \<and> mem \<notin> used)"
| "node_op_ok k used (Execute i) \<longleftrightarrow> i < k"
| "node_op_ok k used (DestroyNode i) \<longleftrightarrow> i < k"

fun node_ops_ok :: "('c, 'u) bodies \<Rightarrow> 'c node_op list \<Rightarrow> ('c, 'u) node_array \<Rightarrow> bool" where
  "node_ops_ok bs [] s \<longleftrightarrow> True"
| "node_ops_ok bs (op # ops) s \<longleftrightarrow>
     node_op_ok (length (fst s)) (dom (arena_objects (snd (snd s)))) op
     \<and> (case node_op_step bs op s of None \<Rightarrow> True | Some s \<Rightarrow> node_ops_ok bs ops s)"

definition new_nodes :: "nat \<Rightarrow> 'u \<Rightarrow> ('c, 'u) node_array" where
  "new_nodes k u = (replicate k node_store_new, 0, \<lparr>arena_objects = (\<lambda>p. None), events = [], cl_user = u\<rparr>)"
section \<open>Typing\<close>

text \<open>
  A node seen as a \<open>MoveOnlyTask\<close>: forgetting the types, the two have the same storage and the same
  pair of erased functions.
\<close>

definition as_task :: "'c node_store \<Rightarrow> 'c captures move_only_task" where
  "as_task nd = \<lparr>m_storage = ns_inlineStorage nd, m_invoker = map_option exec_erased (ns_executeFn nd),
                 m_manager = map_option dtor_erased (ns_destroyFn nd)\<rparr>"

text \<open>
  A node is well typed when its functions were made for the type of the callable its storage holds, and
  only a condition node has a condition's function.
\<close>

definition node_typed :: "('c captures, 'u) callables \<Rightarrow> 'c node_store \<Rightarrow> bool" where
  "node_typed w nd \<longleftrightarrow>
     (case view w (as_task nd) of
        None \<Rightarrow> ns_executeFn nd = None \<and> ns_destroyFn nd = None
      | Some c \<Rightarrow> map_option exec_type (ns_executeFn nd) = Some (cap_type (c_state c))
          \<and> map_option dtor_type (ns_destroyFn nd) = Some (cap_type (c_state c)))
     \<and> (\<forall>e t. ns_executeFn nd = Some (ConditionFn e t) \<longrightarrow> ns_type nd = Condition)"

fun as_task_op :: "'c node_op \<Rightarrow> 'c captures task_op" where
  "as_task_op (SetCallable i size_F align_F t st mem) = Construct i size_F align_F \<lparr>cap_type = t, cap_state = st\<rparr> mem"
| "as_task_op (SetConditionCallable i size_F align_F t st mem) = Construct i size_F align_F \<lparr>cap_type = t, cap_state = st\<rparr> mem"
| "as_task_op (Execute i) = Invoke i"
| "as_task_op (DestroyNode i) = Reset i"

lemma node_op_ok_task: "node_op_ok k used op \<longleftrightarrow> op_ok k used (as_task_op op)"
  by (cases op) (simp_all add: stored_inline_fits)

lemma body_call_type [simp]: "cap_type (fst (body_call bs x u)) = cap_type x"
  by (simp add: body_call_def split: prod.split)

text \<open>What a well-typed node looks like.\<close>

lemma node_typed_cases:
  assumes "task_ok w (as_task nd)" and "node_typed w nd"
  obtains (Empty) "ns_executeFn nd = None" "ns_destroyFn nd = None"
  | (Inline) c f where "ns_inlineStorage nd = Object c" "ns_destroyFn nd = Some (DtorFn InlineFns (cap_type (c_state c)))"
      "ns_executeFn nd = Some f" "f = PlainFn InlineFns (cap_type (c_state c)) \<or> f = ConditionFn InlineFns (cap_type (c_state c)) \<and> ns_type nd = Condition"
  | (Arena) p c f where "ns_inlineStorage nd = Pointer p" "p \<noteq> 0" "arena_objects w p = Some c"
      "ns_destroyFn nd = Some (DtorFn ArenaFns (cap_type (c_state c)))"
      "ns_executeFn nd = Some f" "f = PlainFn ArenaFns (cap_type (c_state c)) \<or> f = ConditionFn ArenaFns (cap_type (c_state c)) \<and> ns_type nd = Condition"
proof (cases "ns_destroyFn nd")
  case None
  then show ?thesis using assms Empty by (auto simp: task_ok_def node_typed_def as_task_def)
next
  case (Some d)
  then obtain f where f: "ns_executeFn nd = Some f" "exec_erased f = dtor_erased d"
    using assms by (auto simp: task_ok_def as_task_def)
  show ?thesis
  proof (cases "dtor_erased d")
    case InlineFns
    then obtain c where "ns_inlineStorage nd = Object c" using Some assms(1) by (auto simp: task_ok_def as_task_def)
    then show ?thesis
      using Inline [of c f] Some InlineFns f assms by (cases d; cases f) (auto simp: node_typed_def as_task_def view_def)
  next
    case ArenaFns
    then obtain p c where "ns_inlineStorage nd = Pointer p" "p \<noteq> 0" "arena_objects w p = Some c"
      using Some assms(1) by (auto simp: task_ok_def as_task_def)
    then show ?thesis
      using Arena [of p c f] Some ArenaFns f assms by (cases d; cases f) (auto simp: node_typed_def as_task_def view_def)
  qed
qed

lemmas storage_defs = node_typed_def as_task_def view_def call_closure_def event_def body_call_def

lemma execute_sim:
  assumes "task_ok w (as_task nd)" and "node_typed w nd"
  shows "case node_execute bs nd w of None \<Rightarrow> False | Some (nd', w') \<Rightarrow>
    task_invoke (body_call bs) (as_task nd) w = Some (as_task nd', w') \<and> node_typed w' nd'"
  using assms
proof (cases rule: node_typed_cases)
  case Empty
  then show ?thesis using assms(2) by (simp add: node_execute_def task_invoke_def as_task_def)
next
  case (Inline c f)
  then show ?thesis
    by (auto simp: node_execute_def task_invoke_def storage_defs split: prod.splits)
next
  case (Arena p c f)
  then show ?thesis
    by (auto simp: node_execute_def task_invoke_def storage_defs split: prod.splits)
qed

lemma destroy_sim:
  assumes "task_ok w (as_task nd)" and "node_typed w nd"
  shows "case store_destroy nd w of None \<Rightarrow> False | Some (nd', w') \<Rightarrow>
    task_reset (as_task nd) w = Some (as_task nd', w') \<and> node_typed w' nd' \<and> ns_executeFn nd' = None \<and> ns_destroyFn nd' = None
    \<and> ns_type nd' = ns_type nd \<and> ns_userData nd' = ns_userData nd"
  using assms
proof (cases rule: node_typed_cases)
  case Empty
  then show ?thesis using assms(2) by (auto simp: store_destroy_def task_reset_def storage_defs)
next
  case (Inline c f)
  then show ?thesis by (auto simp: store_destroy_def task_reset_def storage_defs)
next
  case (Arena p c f)
  then show ?thesis by (auto simp: store_destroy_def task_reset_def storage_defs)
qed

text \<open>Constructing into an array element, computed.\<close>

lemma assign_new_eval:
  assumes "i < length ts" and "task_reset (ts ! i) w = Some (t', w1)" and "moveFrom t' t w1 = Some (a, b, w2)" and "m_manager b = None"
  shows "assign_new i t (ts, w) = Some (ts[i := a], w2)"
  using assms by (simp add: assign_new_def move_assign_def nth_append list_update_append MoveOnlyTask_destroy_def task_reset_def [of b])

lemma reset_frame:
  assumes "task_ok w t" and "mem \<notin> dom (arena_objects w)" and "task_reset t w = Some (t', w1)"
  shows "task_reset t (w\<lparr>arena_objects := (arena_objects w)(mem \<mapsto> c)\<rparr>) = Some (t', w1\<lparr>arena_objects := (arena_objects w1)(mem \<mapsto> c)\<rparr>)"
  using assms
  by (auto simp: task_reset_def task_ok_def event_def fun_upd_twist split: option.splits erased.splits if_splits)

definition holder :: "usize \<Rightarrow> usize \<Rightarrow> u64 \<Rightarrow> 'c captures closure \<Rightarrow> 'c captures move_only_task" where
  "holder size_F align_F mem c =
     (if fits_inline size_F align_F then \<lparr>m_storage = Object c, m_invoker = Some InlineFns, m_manager = Some InlineFns\<rparr>
      else \<lparr>m_storage = Pointer mem, m_invoker = Some ArenaFns, m_manager = Some ArenaFns\<rparr>)"

definition held_in :: "usize \<Rightarrow> usize \<Rightarrow> u64 \<Rightarrow> 'c captures closure \<Rightarrow> ('c captures, 'u) callables \<Rightarrow> ('c captures, 'u) callables" where
  "held_in size_F align_F mem c w =
     (if fits_inline size_F align_F then w else w\<lparr>arena_objects := (arena_objects w)(mem \<mapsto> c)\<rparr>)"

lemma construct_eval:
  assumes i: "i < length ts" and t: "task_ok w (ts ! i)" and r: "task_reset (ts ! i) w = Some (t', w1)"
    and ok: "fits_inline size_F align_F \<or> mem \<noteq> 0 \<and> mem \<notin> dom (arena_objects w)"
  shows "task_step call (Construct i size_F align_F st mem) (ts, n, w) =
    Some (ts[i := holder size_F align_F mem \<lparr>c_id = n, c_state = st\<rparr>], n + 1, held_in size_F align_F mem \<lparr>c_id = n, c_state = st\<rparr> w1)"
proof (cases "fits_inline size_F align_F")
  case True
  let ?t = "construct_inline \<lparr>c_id = n, c_state = st\<rparr>"
  have "assign_new i ?t (ts, w) = Some (ts[i := t'\<lparr>m_storage := Object \<lparr>c_id = n, c_state = st\<rparr>, m_invoker := Some InlineFns, m_manager := Some InlineFns\<rparr>], w1)"
    by (rule assign_new_eval [OF i r]) (simp add: moveFrom_def construct_inline_def, simp)
  then show ?thesis using True by (cases t') (simp add: holder_def held_in_def)
next
  case False
  let ?c = "\<lparr>c_id = n, c_state = st\<rparr>"
  let ?w = "\<lambda>w. w\<lparr>arena_objects := (arena_objects w)(mem \<mapsto> ?c)\<rparr>"
  let ?t = "\<lparr>m_storage = Pointer mem, m_invoker = Some ArenaFns, m_manager = Some ArenaFns\<rparr>"
  have "task_reset (ts ! i) (?w w) = Some (t', ?w w1)" using reset_frame [OF t _ r, of mem ?c] ok False by blast
  then have "assign_new i ?t (ts, ?w w) = Some (ts[i := t'\<lparr>m_storage := Pointer mem, m_invoker := Some ArenaFns, m_manager := Some ArenaFns\<rparr>], ?w w1)"
    by (rule assign_new_eval [OF i]) (simp add: moveFrom_def, simp)
  then show ?thesis using False ok by (cases t') (simp add: construct_at_def holder_def held_in_def)
qed

text \<open>Both setters leave a well-typed node that is the task just constructed.\<close>

lemma setCallable_sim:
  assumes "task_ok w (as_task nd)" and "node_typed w nd" and "fits_inline size_F align_F \<or> mem \<noteq> 0"
  obtains nd' t' w1 where "setCallable_at size_F align_F mem c nd w = Some (nd', held_in size_F align_F mem c w1)"
    "task_reset (as_task nd) w = Some (t', w1)" "as_task nd' = holder size_F align_F mem c" "node_typed (held_in size_F align_F mem c w1) nd'"
proof -
  obtain nd1 w1 where d: "store_destroy nd w = Some (nd1, w1)" "task_reset (as_task nd) w = Some (as_task nd1, w1)" "ns_type nd1 = ns_type nd"
    using destroy_sim [OF assms(1,2)] by (auto split: option.splits)
  show ?thesis
  proof (cases "fits_inline size_F align_F")
    case True
    show ?thesis
      by (rule that [of "(place_inline c nd1)\<lparr>ns_executeFn := Some (PlainFn InlineFns (cap_type (c_state c)))\<rparr>" w1 "as_task nd1"])
        (use True d in \<open>simp_all add: setCallable_at_def stored_inline_fits place_inline_def holder_def held_in_def storage_defs\<close>)
  next
    case False
    let ?f = "\<lambda>K. K ArenaFns (cap_type (c_state c))"
    show ?thesis
      by (rule that [of "nd1\<lparr>ns_inlineStorage := Pointer mem, ns_destroyFn := Some (?f DtorFn), ns_executeFn := Some (?f PlainFn)\<rparr>" w1 "as_task nd1"])
        (use False d assms(3) in \<open>simp_all add: setCallable_at_def stored_inline_fits place_at_def holder_def held_in_def storage_defs\<close>)
  qed
qed

lemma setConditionCallable_sim:
  assumes "task_ok w (as_task nd)" and "node_typed w nd" and "fits_inline size_F align_F \<or> mem \<noteq> 0"
  obtains nd' t' w1 where "setConditionCallable_at size_F align_F mem c nd w = Some (nd', held_in size_F align_F mem c w1)"
    "task_reset (as_task nd) w = Some (t', w1)" "as_task nd' = holder size_F align_F mem c" "node_typed (held_in size_F align_F mem c w1) nd'"
proof -
  have e: "as_task (nd\<lparr>ns_type := Condition\<rparr>) = as_task nd" by (simp add: as_task_def)
  then have n: "task_ok w (as_task (nd\<lparr>ns_type := Condition\<rparr>))" "node_typed w (nd\<lparr>ns_type := Condition\<rparr>)"
    using assms(1,2) by (simp_all add: node_typed_def split: option.splits)
  obtain nd1 w1 where d: "store_destroy (nd\<lparr>ns_type := Condition\<rparr>) w = Some (nd1, w1)" "task_reset (as_task nd) w = Some (as_task nd1, w1)" "ns_type nd1 = ns_type (nd\<lparr>ns_type := Condition\<rparr>)"
    using destroy_sim [OF n] e by (auto split: option.splits)
  show ?thesis
  proof (cases "fits_inline size_F align_F")
    case True
    show ?thesis
      by (rule that [of "(place_inline c nd1)\<lparr>ns_executeFn := Some (ConditionFn InlineFns (cap_type (c_state c)))\<rparr>" w1 "as_task nd1"])
        (use True d in \<open>simp_all add: setConditionCallable_at_def stored_inline_fits place_inline_def holder_def held_in_def storage_defs\<close>)
  next
    case False
    let ?f = "\<lambda>K. K ArenaFns (cap_type (c_state c))"
    show ?thesis
      by (rule that [of "nd1\<lparr>ns_inlineStorage := Pointer mem, ns_destroyFn := Some (?f DtorFn), ns_executeFn := Some (?f ConditionFn)\<rparr>" w1 "as_task nd1"])
        (use False d assms(3) in \<open>simp_all add: setConditionCallable_at_def stored_inline_fits place_at_def holder_def held_in_def storage_defs\<close>)
  qed
qed

section \<open>Type soundness\<close>

definition nodes_typed :: "'c node_store list \<Rightarrow> ('c captures, 'u) callables \<Rightarrow> bool" where
  "nodes_typed ns w \<longleftrightarrow> tasks_inv (map as_task ns) w \<and> (\<forall>nd \<in> set ns. node_typed w nd)"

text \<open>Typing of the other nodes depends on the arena only through their own pointers.\<close>

lemma node_typed_frame:
  assumes "view w' (as_task nd) = view w (as_task nd)"
  shows "node_typed w' nd = node_typed w nd"
  using assms by (simp add: node_typed_def)

lemma nodes_typed_update:
  assumes "\<forall>nd \<in> set ns. node_typed w nd" and "node_typed w' nd'" and i: "i < length ns"
    and v: "map (view w') (map as_task (ns[i := nd'])) = (map (view w) (map as_task ns))[i := x]"
  shows "\<forall>nd \<in> set (ns[i := nd']). node_typed w' nd"
proof
  fix nd assume "nd \<in> set (ns[i := nd'])"
  then obtain j where j: "j < length ns" "nd = ns[i := nd'] ! j" by (metis in_set_conv_nth length_list_update)
  show "node_typed w' nd"
  proof (cases "j = i")
    case False
    have "map (view w') (map as_task (ns[i := nd'])) ! j = (map (view w) (map as_task ns))[i := x] ! j" by (simp only: v)
    then have "view w' (as_task (ns ! j)) = view w (as_task (ns ! j))" using False j(1) by simp
    then show ?thesis using assms(1) node_typed_frame [of w' "ns ! j" w] j False by simp
  qed (use j i assms(2) in simp)
qed

lemma step_sim:
  assumes inv: "nodes_typed ns w" and ok: "node_op_ok (length ns) (dom (arena_objects w)) op"
  shows "case node_op_step bs op (ns, n, w) of None \<Rightarrow> False | Some (ns', n', w') \<Rightarrow>
    task_step (body_call bs) (as_task_op op) (map as_task ns, n, w) = Some (map as_task ns', n', w')
    \<and> nodes_typed ns' w' \<and> length ns' = length ns"
proof -
  let ?ts = "map as_task ns"
  have ti: "tasks_inv ?ts w" and ty: "\<forall>nd \<in> set ns. node_typed w nd" using inv by (simp_all add: nodes_typed_def)
  have ok': "op_ok (length ?ts) (dom (arena_objects w)) (as_task_op op)" using ok by (simp add: node_op_ok_task)
  have at: "task_ok w (as_task (ns ! i))" "node_typed w (ns ! i)" "?ts ! i = as_task (ns ! i)" if "i < length ns" for i
    using tasks_invD(1) [OF ti, of i] ty that by simp_all
  have fin: ?thesis
    if i: "i < length ns" and st: "node_op_step bs op (ns, n, w) = Some (ns[i := nd'], n', w')" and t: "node_typed w' nd'"
      and s: "task_step (body_call bs) (as_task_op op) (?ts, n, w) = Some (?ts[i := as_task nd'], n', w')"
      and sp: "\<exists>x. fst (spec_step (body_call bs) (as_task_op op) (abs_tasks (?ts, n, w))) = (map (view w) ?ts)[i := x]" for i nd' n' w'
  proof -
    have e: "?ts[i := as_task nd'] = map as_task (ns[i := nd'])" by (simp add: map_update)
    have r: "tasks_inv (map as_task (ns[i := nd'])) w'"
      "abs_tasks (map as_task (ns[i := nd']), n', w') = spec_step (body_call bs) (as_task_op op) (abs_tasks (?ts, n, w))"
      using step_refines [OF ti ok', of "body_call bs" n] s e by simp_all
    obtain x where "map (view w') (map as_task (ns[i := nd'])) = (map (view w) ?ts)[i := x]"
      using sp arg_cong [OF r(2), of fst] by (auto simp: abs_tasks_def)
    then have "\<forall>nd \<in> set (ns[i := nd']). node_typed w' nd" by (rule nodes_typed_update [OF ty t i])
    then show ?thesis using st s e r(1) by (simp add: nodes_typed_def)
  qed
  show ?thesis
  proof (cases op)
    case (SetCallable i size_F align_F t st mem)
    then have i: "i < length ns" and o: "fits_inline size_F align_F \<or> mem \<noteq> 0 \<and> mem \<notin> dom (arena_objects w)"
      using ok by (auto simp: stored_inline_fits)
    let ?c = "\<lparr>c_id = n, c_state = \<lparr>cap_type = t, cap_state = st\<rparr>\<rparr>"
    have o': "fits_inline size_F align_F \<or> mem \<noteq> 0" using o by blast
    obtain nd' t' w1 where s: "setCallable_at size_F align_F mem ?c (ns ! i) w = Some (nd', held_in size_F align_F mem ?c w1)"
      "task_reset (as_task (ns ! i)) w = Some (t', w1)" "as_task nd' = holder size_F align_F mem ?c" "node_typed (held_in size_F align_F mem ?c w1) nd'"
      using setCallable_sim [OF at(1,2) [OF i] o', of ?c] by blast
    note s = s(1) s(2) [folded at(3) [OF i]] s(3,4)
    have li: "i < length ?ts" and tk: "task_ok w (?ts ! i)" using i at(1) [OF i] by simp_all
    show ?thesis
      using fin [OF i _ s(4)] construct_eval [OF li tk s(2) o, of "body_call bs" "\<lparr>cap_type = t, cap_state = st\<rparr>" n] s SetCallable
      by (auto simp: abs_tasks_def)
  next
    case (SetConditionCallable i size_F align_F t st mem)
    then have i: "i < length ns" and o: "fits_inline size_F align_F \<or> mem \<noteq> 0 \<and> mem \<notin> dom (arena_objects w)"
      using ok by (auto simp: stored_inline_fits)
    let ?c = "\<lparr>c_id = n, c_state = \<lparr>cap_type = t, cap_state = st\<rparr>\<rparr>"
    have o': "fits_inline size_F align_F \<or> mem \<noteq> 0" using o by blast
    obtain nd' t' w1 where s: "setConditionCallable_at size_F align_F mem ?c (ns ! i) w = Some (nd', held_in size_F align_F mem ?c w1)"
      "task_reset (as_task (ns ! i)) w = Some (t', w1)" "as_task nd' = holder size_F align_F mem ?c" "node_typed (held_in size_F align_F mem ?c w1) nd'"
      using setConditionCallable_sim [OF at(1,2) [OF i] o', of ?c] by blast
    note s = s(1) s(2) [folded at(3) [OF i]] s(3,4)
    have li: "i < length ?ts" and tk: "task_ok w (?ts ! i)" using i at(1) [OF i] by simp_all
    show ?thesis
      using fin [OF i _ s(4)] construct_eval [OF li tk s(2) o, of "body_call bs" "\<lparr>cap_type = t, cap_state = st\<rparr>" n] s SetConditionCallable
      by (auto simp: abs_tasks_def)
  next
    case (Execute i)
    then have i: "i < length ns" using ok by simp
    obtain nd' w' where s: "node_execute bs (ns ! i) w = Some (nd', w')" "task_invoke (body_call bs) (as_task (ns ! i)) w = Some (as_task nd', w')"
      "node_typed w' nd'" using execute_sim [OF at(1,2) [OF i], of bs] by (auto split: option.splits)
    have "\<exists>x. fst (spec_step (body_call bs) (Invoke i) (abs_tasks (?ts, n, w))) = (map (view w) ?ts)[i := x]"
      by (auto simp: abs_tasks_def split: option.split prod.split intro: list_update_id [symmetric])
    then show ?thesis using fin [OF i _ s(3)] s i Execute by simp
  next
    case (DestroyNode i)
    then have i: "i < length ns" using ok by simp
    obtain nd' w' where s: "store_destroy (ns ! i) w = Some (nd', w')" "task_reset (as_task (ns ! i)) w = Some (as_task nd', w')"
      "node_typed w' nd'" using destroy_sim [OF at(1,2) [OF i]] by (auto split: option.splits)
    show ?thesis using fin [OF i _ s(3)] s i DestroyNode by (auto simp: abs_tasks_def)
  qed
qed

lemma run_sim:
  assumes "nodes_typed (fst s) (snd (snd s))" and "node_ops_ok bs ops s"
  shows "case run_node_ops bs ops s of None \<Rightarrow> False | Some (ns, n, w) \<Rightarrow>
    run_tasks (body_call bs) (map as_task_op ops) (map as_task (fst s), snd s) = Some (map as_task ns, n, w)
    \<and> ops_ok_run (body_call bs) (map as_task_op ops) (map as_task (fst s), snd s)
    \<and> nodes_typed ns w \<and> length ns = length (fst s)"
  using assms
proof (induction ops arbitrary: s)
  case Nil
  then show ?case by (cases s) simp
next
  case (Cons op ops)
  obtain ns n w where s: "s = (ns, n, w)" by (cases s)
  have ok: "node_op_ok (length ns) (dom (arena_objects w)) op" using Cons.prems(2) s by simp
  obtain ns1 n1 w1 where st: "node_op_step bs op s = Some (ns1, n1, w1)" "nodes_typed ns1 w1" "length ns1 = length ns"
      "task_step (body_call bs) (as_task_op op) (map as_task ns, n, w) = Some (map as_task ns1, n1, w1)"
    using step_sim [of ns w op bs n] Cons.prems(1) ok s by (auto split: option.splits)
  have "node_ops_ok bs ops (ns1, n1, w1)" using Cons.prems(2) st(1) by simp
  then show ?case
    using Cons.IH [of "(ns1, n1, w1)"] st ok s by (auto simp: node_op_ok_task split: option.splits)
qed

lemma new_nodes_array: "map as_task (fst (new_nodes k u)) = fst (new_array k u)" "snd (new_nodes k u) = snd (new_array k u)"
  by (simp_all add: new_nodes_def new_array_def as_task_def node_store_new_def MoveOnlyTask_empty_def)

lemma new_array_length: "length (fst (abs_tasks (new_array k u))) = k" "length (fst (new_array k u)) = k"
  by (simp_all add: abs_tasks_def new_array_def)

lemma new_nodes_typed: "nodes_typed (fst (new_nodes k u)) (snd (snd (new_nodes k u)))" "length (fst (new_nodes k u)) = k"
proof -
  have "tasks_inv (map as_task (fst (new_nodes k u))) (snd (snd (new_nodes k u)))"
    unfolding new_nodes_array by (rule new_array_facts(1))
  then show "nodes_typed (fst (new_nodes k u)) (snd (snd (new_nodes k u)))"
    by (auto simp: nodes_typed_def new_nodes_def node_store_new_def node_typed_def as_task_def)
qed (simp add: new_nodes_def)

lemma destroy_all_ok:
  assumes "nodes_typed (fst s) (snd (snd s))" and "\<forall>i \<in> set is. i < length (fst s)"
  shows "node_ops_ok bs (map DestroyNode is) s"
  using assms
proof (induction "is" arbitrary: s)
  case (Cons i "is")
  obtain ns n w where s: "s = (ns, n, w)" by (cases s)
  have "node_op_ok (length ns) (dom (arena_objects w)) (DestroyNode i)" using Cons.prems(2) s by simp
  from step_sim [OF _ this, of bs n] show ?case
    using Cons s by (fastforce split: option.splits simp del: node_op_step.simps)
qed simp

section \<open>The storage implements the nodes of the graph model\<close>

text \<open>
  The task graph's model has a HOL function in the node where the code has storage and a lambda. This
  is the function a well-typed node stands for.
\<close>

definition task_fn_of :: "('c, 'u) bodies \<Rightarrow> ('c captures, 'u) callables \<Rightarrow> 'c node_store \<Rightarrow> 'u task_fn" where
  "task_fn_of bs w nd =
     (case (ns_executeFn nd, view w (as_task nd)) of
        (Some (PlainFn _ _), Some c) \<Rightarrow> RunFn (\<lambda>u. snd (body_call bs (c_state c) u))
      | (Some (ConditionFn _ _), Some c) \<Rightarrow> CondFn (\<lambda>u. (body_branch bs (c_state c) u, snd (body_call bs (c_state c) u)))
      | _ \<Rightarrow> NullFn)"

lemma node_execute_refines:
  assumes "task_ok w (as_task nd)" and "node_typed w nd"
  shows "case node_execute bs nd w of None \<Rightarrow> False | Some (nd', w') \<Rightarrow>
    (case task_fn_of bs w nd of
       NullFn \<Rightarrow> nd' = nd \<and> w' = w
     | RunFn f \<Rightarrow> cl_user w' = f (cl_user w) \<and> ns_userData nd' = ns_userData nd
     | CondFn f \<Rightarrow> (ns_userData nd', cl_user w') = f (cl_user w))"
  using assms
proof (cases rule: node_typed_cases)
  case Empty
  then show ?thesis by (simp add: node_execute_def task_fn_of_def)
next
  case (Inline c f)
  then show ?thesis
    by (auto simp: node_execute_def task_fn_of_def storage_defs body_branch_def Let_def split: prod.splits)
next
  case (Arena p c f)
  then show ?thesis
    by (auto simp: node_execute_def task_fn_of_def storage_defs body_branch_def Let_def split: prod.splits)
qed

text \<open>The setters put the callable there and \<open>destroy\<close> takes it away, as in the graph's model.\<close>

lemma setters_refine:
  assumes "task_ok w (as_task nd)" and "node_typed w nd" and "fits_inline size_F align_F \<or> mem \<noteq> 0"
  shows "case setCallable_at size_F align_F mem c nd w of None \<Rightarrow> False
      | Some (nd', w') \<Rightarrow> task_fn_of bs w' nd' = RunFn (\<lambda>u. snd (body_call bs (c_state c) u)) \<and> ns_type nd' = ns_type nd"
    and "case setConditionCallable_at size_F align_F mem c nd w of None \<Rightarrow> False
      | Some (nd', w') \<Rightarrow> task_fn_of bs w' nd' = CondFn (\<lambda>u. (body_branch bs (c_state c) u, snd (body_call bs (c_state c) u)))
          \<and> ns_type nd' = Condition"
    and "case store_destroy nd w of None \<Rightarrow> False | Some (nd', w') \<Rightarrow> task_fn_of bs w' nd' = NullFn \<and> ns_type nd' = ns_type nd"
proof -
  let ?nd = "nd\<lparr>ns_type := Condition\<rparr>"
  have c: "task_ok w (as_task ?nd)" "node_typed w ?nd"
    using assms(1,2) by (simp_all add: node_typed_def as_task_def split: option.splits)
  obtain n1 w1 n2 w2 where d: "store_destroy nd w = Some (n1, w1)" "ns_executeFn n1 = None" "ns_type n1 = ns_type nd"
    "store_destroy ?nd w = Some (n2, w2)" "ns_type n2 = Condition"
    using destroy_sim [OF assms(1,2)] destroy_sim [OF c] by (auto split: option.splits)
  show "case setCallable_at size_F align_F mem c nd w of None \<Rightarrow> False
      | Some (nd', w') \<Rightarrow> task_fn_of bs w' nd' = RunFn (\<lambda>u. snd (body_call bs (c_state c) u)) \<and> ns_type nd' = ns_type nd"
    using d assms(3) by (auto simp: setCallable_at_def stored_inline_fits place_inline_def place_at_def task_fn_of_def as_task_def view_def)
  show "case setConditionCallable_at size_F align_F mem c nd w of None \<Rightarrow> False
      | Some (nd', w') \<Rightarrow> task_fn_of bs w' nd' = CondFn (\<lambda>u. (body_branch bs (c_state c) u, snd (body_call bs (c_state c) u)))
          \<and> ns_type nd' = Condition"
    using d assms(3) by (auto simp: setConditionCallable_at_def stored_inline_fits place_inline_def place_at_def task_fn_of_def as_task_def view_def)
  show "case store_destroy nd w of None \<Rightarrow> False | Some (nd', w') \<Rightarrow> task_fn_of bs w' nd' = NullFn \<and> ns_type nd' = ns_type nd"
    using d by (simp add: task_fn_of_def)
qed

section \<open>Properties\<close>

text \<open>
  C36: type soundness of the untyped storage of task nodes. Any sequence of setting plain and condition
  callables, executing and destroying runs to its end: no function pointer ever casts the 48 bytes to
  another type than the one of the living callable they hold or point to. Every node is well typed
  afterwards, the nodes behave as an array of optional callables, no callable is used or destroyed
  after its destructor ran, and destroying all nodes destroys every callable exactly once.
\<close>

theorem node_storage_sound:
  assumes "node_ops_ok bs ops (new_nodes k u)"
  shows "case run_node_ops bs ops (new_nodes k u) of None \<Rightarrow> False | Some (ns, n, w) \<Rightarrow>
    (\<forall>nd \<in> set ns. node_typed w nd) \<and> log_ok (events w)
    \<and> abs_tasks (map as_task ns, n, w) = fold (spec_step (body_call bs)) (map as_task_op ops) (abs_tasks (new_array k u))
    \<and> (case run_node_ops bs (map DestroyNode [0..<k]) (ns, n, w) of None \<Rightarrow> False | Some (ns', n', w') \<Rightarrow>
         (\<forall>p. arena_objects w' p = None) \<and> log_ok (events w') \<and> (\<forall>i < n. count_list (events w') (Destroyed i) = 1))"
proof -
  have start: "(map as_task (fst (new_nodes k u)), snd (new_nodes k u)) = new_array k u" by (simp add: new_nodes_array)
  note a = new_array_facts [of k u]
  obtain ns n w where r: "run_node_ops bs ops (new_nodes k u) = Some (ns, n, w)" "nodes_typed ns w" "length ns = k"
      "run_tasks (body_call bs) (map as_task_op ops) (new_array k u) = Some (map as_task ns, n, w)"
      "ops_ok_run (body_call bs) (map as_task_op ops) (new_array k u)"
    using run_sim [OF new_nodes_typed(1) assms] new_nodes_typed(2) [of k u] unfolding start by (auto split: option.splits)
  have inv: "tasks_inv (map as_task ns) w" using r(2) by (simp add: nodes_typed_def)
  have abs: "abs_tasks (map as_task ns, n, w) = fold (spec_step (body_call bs)) (map as_task_op ops) (abs_tasks (new_array k u))"
    using run_refines [OF a(1) r(5)] r(4) by auto
  have l: "ledger (abs_tasks (map as_task ns, n, w))" unfolding abs
    by (rule ledger_run [OF a(3)]) (use ops_ok_each [OF a(1) r(5)] in \<open>simp add: new_array_length\<close>)
  have "node_ops_ok bs (map DestroyNode [0..<k]) (ns, n, w)" using destroy_all_ok [of "(ns, n, w)"] r(2,3) by simp
  then have "case run_node_ops bs (map DestroyNode [0..<k]) (ns, n, w) of None \<Rightarrow> False | Some (ns', n', w') \<Rightarrow>
      run_tasks (body_call bs) (map Reset [0..<k]) (map as_task ns, n, w) = Some (map as_task ns', n', w')"
    using run_sim [of "(ns, n, w)" bs "map DestroyNode [0..<k]"] r(2) by (auto simp: o_def split: option.splits)
  moreover have "length (map as_task ns) = k" using r(3) by simp
  ultimately show ?thesis
    using array_life(2) [OF inv l, of "body_call bs"] array_life(1) [OF inv l] r(1,2) abs
    by (auto simp: nodes_typed_def split: option.splits)
qed

theorem node_storage_sound_witness:
  "case run_node_ops (\<lambda>t c u. (int t, c + 1, u + c)) [SetCallable 0 8 8 1 5 0, SetConditionCallable 0 64 8 2 7 0x1000, Execute 0, SetCallable 1 48 16 4 9 0, Execute 0]
      (new_nodes 3 (0 :: nat)) of
     None \<Rightarrow> False
   | Some (ns, n, w) \<Rightarrow> log_ok (events w) \<and> events w = [Destroyed 0, Called 1, Called 1] \<and> cl_user w = (15 :: nat)"
proof -
  let ?bs = "\<lambda>t c u. (int t, c + 1, u + c)"
  let ?ops = "[SetCallable 0 8 8 1 5 0, SetConditionCallable 0 64 8 2 7 0x1000, Execute 0, SetCallable 1 48 16 4 9 0, Execute 0]"
  have ok: "node_ops_ok ?bs ?ops (new_nodes 3 (0 :: nat))"
    by (simp add: new_nodes_def numeral_3_eq_3 node_store_new_def setCallable_at_def setConditionCallable_at_def store_destroy_def place_inline_def
        place_at_def stored_inline_def INLINE_STORAGE_BYTES_def node_execute_def call_closure_def body_call_def event_def Let_def)
  show ?thesis
    using node_storage_sound [OF ok]
    by (auto simp del: run_node_ops.simps simp: abs_tasks_def new_array_def numeral_3_eq_3 MoveOnlyTask_empty_def destroyed_def body_call_def
        split: option.splits)
qed

end
