(* ===== verification/Concurrent_Run.thy ===== *)
theory Concurrent_Run
  imports Graph_Run
begin

text \<open>
  Several workers inside \<^verbatim>\<open>TaskNode::execute\<close> at once (\<^verbatim>\<open>task_graph.cpp\<close>). \<open>Graph_Run\<close> executes a node in
  one step; here \<open>execute\<close>, \<open>unblockSuccessors\<close>, \<open>decrementSkipped\<close> and \<open>cascadeSkip\<close> are cut at every
  access to a shared counter, and the steps of the workers interleave freely. A step is one store,
  one call of a callable, or one atomic decrement with what the worker does before the next one.
  The theorems say that the interleaving is harmless: a callable runs once and after the callables of
  its predecessors, the program state is that of a sequential run, and every execution ends within
  seven steps per node and two per edge with the graph complete.
\<close>

section \<open>A worker inside \<open>execute\<close>\<close>

text \<open>
  Where a worker is: before the three stores and calls of \<open>execute\<close>; before choosing the loop of
  \<open>unblockSuccessors\<close>; in the loop, with the edges left and the count of unblocked tasks, for a
  condition also with the chosen branch and the calls of \<open>decrementSkipped\<close> a cascade has yet to make;
  before \<open>onTaskCompleted\<close>.
\<close>

datatype phase =
    AtStart
  | AtCall
  | AtStore
  | AtUnblock
  | InStatic "successor_edge list" u32
  | InCondition int "node_id list" "successor_edge list" u32
  | AtFinish

text \<open>One call of \<open>decrementSkipped\<close>; the calls of its cascade are put in front of the others.\<close>

definition skip_call :: "bool \<Rightarrow> node_id \<Rightarrow> node_id list \<Rightarrow> 'u engine \<Rightarrow> node_id list \<times> 'u engine" where
  "skip_call has_g n ts g =
     (case decrementSkipped_counter (inDegree (nodes g n)) of
        (w, e) \<Rightarrow>
          let g = upd_node n (\<lambda>x. x\<lparr>inDegree := w\<rparr>) g
          in case e of
               StillBlocked \<Rightarrow> (ts, g)
             | BecameReady \<Rightarrow> (ts, if has_g then scheduleNode n True g else g)
             | AllSkipped \<Rightarrow>
                 let g = upd_node n (\<lambda>x. x\<lparr>node_state := Skipped\<rparr>) g;
                     g = (if has_g then onTaskCompleted n g else g)
                 in (succ_targets (nodes g n) @ ts, g))"

text \<open>One step of the worker executing \<open>n\<close>; \<open>None\<close> when \<open>execute\<close> returns.\<close>

fun exec_step :: "node_id \<Rightarrow> phase \<Rightarrow> 'u engine \<Rightarrow> phase option \<times> 'u engine" where
  "exec_step n AtStart g = (Some AtCall, upd_node n (\<lambda>x. x\<lparr>node_state := Executing\<rparr>) g)"
| "exec_step n AtCall g = (Some AtStore, run_callable n g)"
| "exec_step n AtStore g = (Some AtUnblock, upd_node n (\<lambda>x. x\<lparr>node_state := Completed\<rparr>) g)"
| "exec_step n AtUnblock g =
     (let x = nodes g n
      in if node_type x = Condition then
           (case find (\<lambda>e. (branch e = -1 \<or> branch e = userData x) \<and> isLoopBack e) (successors x) of
              Some e \<Rightarrow> (Some AtFinish, case target e of None \<Rightarrow> g | Some t \<Rightarrow> take_loop_back n t g)
            | None \<Rightarrow> (Some (InCondition (userData x) [] (successors x) 0), g))
         else (Some (InStatic (successors x) 0), g))"
| "exec_step n (InStatic [] u) g = (Some AtFinish, finish_unblock (has_graph (nodes g n)) (u, g))"
| "exec_step n (InStatic (e # es) u) g =
     (case target e of
        None \<Rightarrow> (Some (InStatic es u), g)
      | Some succ \<Rightarrow> (case release_successor (has_graph (nodes g n)) succ (u, g) of (u, g) \<Rightarrow> (Some (InStatic es u), g)))"
| "exec_step n (InCondition c (t # ts) es u) g =
     (case skip_call (has_graph (nodes g n)) t ts g of (ts, g) \<Rightarrow> (Some (InCondition c ts es u), g))"
| "exec_step n (InCondition c [] [] u) g = (Some AtFinish, finish_unblock (has_graph (nodes g n)) (u, g))"
| "exec_step n (InCondition c [] (e # es) u) g =
     (case target e of
        None \<Rightarrow> (Some (InCondition c [] es u), g)
      | Some succ \<Rightarrow>
          if branch e = -1 \<or> branch e = c
          then (case release_successor (has_graph (nodes g n)) succ (u, g) of (u, g) \<Rightarrow> (Some (InCondition c [] es u), g))
          else if \<not> isLoopBack e then (Some (InCondition c [succ] es u), g)
          else (Some (InCondition c [] es u), g))"
| "exec_step n AtFinish g = (None, if has_graph (nodes g n) then onTaskCompleted n g else g)"

text \<open>A worker that is left alone: its steps add up to \<open>execute\<close>.\<close>

fun exec_alone :: "nat \<Rightarrow> node_id \<Rightarrow> phase \<Rightarrow> 'u engine \<Rightarrow> 'u engine option" where
  "exec_alone 0 n ph g = None"
| "exec_alone (Suc k) n ph g =
     (case exec_step n ph g of (None, g) \<Rightarrow> Some g | (Some ph, g) \<Rightarrow> exec_alone k n ph g)"

section \<open>The system\<close>

datatype activity = Idle | Busy node_id phase

text \<open>
  \<open>p_ready\<close> are the nodes scheduled or kept as inline continuations, \<open>p_log\<close> the nodes whose callables
  were called, in that order.
\<close>

record 'u par_state =
  p_engine :: "'u engine"
  p_ready :: "node_id multiset"
  p_workers :: "activity list"
  p_log :: "node_id list"

definition par_start :: "nat \<Rightarrow> int \<Rightarrow> 'u engine \<Rightarrow> 'u par_state" where
  "par_start k now g =
     (let h = prepareRun now g in \<lparr>p_engine = h, p_ready = released h, p_workers = replicate k Idle, p_log = []\<rparr>)"

text \<open>
  A step of worker \<open>i\<close>. \<open>b\<close> says whether the worker's inline slot is open, that is, whether the thread
  takes continuations and has none yet.
\<close>

definition work :: "bool \<Rightarrow> nat \<Rightarrow> node_id \<Rightarrow> phase \<Rightarrow> 'u par_state \<Rightarrow> 'u par_state" where
  "work b i n ph s =
     (case exec_step n ph (begin_execute b (p_engine s)) of
        (r, g) \<Rightarrow> \<lparr>p_engine = g, p_ready = p_ready s + released g,
                   p_workers = (p_workers s)[i := (case r of None \<Rightarrow> Idle | Some ph \<Rightarrow> Busy n ph)],
                   p_log = (if ph = AtCall then p_log s @ [n] else p_log s)\<rparr>)"

definition take_task :: "nat \<Rightarrow> node_id \<Rightarrow> 'u par_state \<Rightarrow> 'u par_state" where
  "take_task i n s = s\<lparr>p_ready := p_ready s - {#n#}, p_workers := (p_workers s)[i := Busy n AtStart]\<rparr>"

inductive par_step :: "'u par_state \<Rightarrow> 'u par_state \<Rightarrow> bool" where
  step_take: "i < length (p_workers s) \<Longrightarrow> p_workers s ! i = Idle \<Longrightarrow> n \<in># p_ready s \<Longrightarrow> par_step s (take_task i n s)"
| step_work: "i < length (p_workers s) \<Longrightarrow> p_workers s ! i = Busy n ph \<Longrightarrow> par_step s (work b i n ph s)"

inductive_cases par_stepE: "par_step s s'"

inductive par_steps :: "'u par_state \<Rightarrow> nat \<Rightarrow> 'u par_state \<Rightarrow> bool" where
  par_refl: "par_steps s 0 s"
| par_next: "par_steps s k s1 \<Longrightarrow> par_step s1 s2 \<Longrightarrow> par_steps s (Suc k) s2"

section \<open>Alone, the steps are \<open>execute\<close>\<close>

lemma exec_alone_mono: "exec_alone k n ph g = Some h \<Longrightarrow> k \<le> l \<Longrightarrow> exec_alone l n ph g = Some h"
proof (induction k arbitrary: l ph g)
  case (Suc k)
  then obtain l' where l: "l = Suc l'" "k \<le> l'" by (cases l) auto
  show ?case using Suc l by (auto split: prod.splits option.splits)
qed simp

lemma exec_alone_step:
  "exec_step n ph g = (Some ph', g') \<Longrightarrow> exec_alone k n ph' g' = Some h \<Longrightarrow> exec_alone (Suc k) n ph g = Some h"
  by simp

lemma quiet_has_graph:
  assumes "release_successor b w (u, g) = (u', g')"
  shows "has_graph (nodes g' n) = has_graph (nodes g n)"
  using assms by (auto simp: release_successor_def node_decrementActive_def Let_def split: prod.splits if_splits)

lemma alone_finish:
  "exec_alone (Suc (Suc k)) n (InStatic [] u) g = Some (let h = finish_unblock (has_graph (nodes g n)) (u, g)
      in if has_graph (nodes h n) then onTaskCompleted n h else h)"
  "exec_alone (Suc (Suc k)) n (InCondition c [] [] u) g = Some (let h = finish_unblock (has_graph (nodes g n)) (u, g)
      in if has_graph (nodes h n) then onTaskCompleted n h else h)"
  by (simp_all add: Let_def)

lemma alone_static:
  assumes "unblock_static (has_graph (nodes g n)) es (u, g) = (u', g')"
  shows "has_graph (nodes g' n) = has_graph (nodes g n)
    \<and> exec_alone (length es + 2) n (InStatic es u) g = Some (let h = finish_unblock (has_graph (nodes g n)) (u', g')
        in if has_graph (nodes h n) then onTaskCompleted n h else h)"
  using assms
proof (induction es arbitrary: u g)
  case Nil
  then show ?case using alone_finish(1) [of 0 n u g] by (simp del: exec_alone.simps)
next
  case (Cons e es)
  show ?case
  proof (cases "target e")
    case None
    then show ?thesis using Cons by simp
  next
    case (Some w)
    obtain u1 g1 where r: "release_successor (has_graph (nodes g n)) w (u, g) = (u1, g1)" by fastforce
    have h: "has_graph (nodes g1 n) = has_graph (nodes g n)" by (rule quiet_has_graph [OF r])
    then show ?thesis using Cons.IH [of g1 u1] Cons.prems Some r by simp
  qed
qed

lemma decrementSkipped_call:
  "decrementSkipped (Suc fuel) b (n # ts) g = (case skip_call b n ts g of (ts, g) \<Rightarrow> decrementSkipped fuel b ts g)"
  by (auto simp: skip_call_def Let_def split: prod.split counter_event.split)

lemma skip_call_has_graph: "skip_call b w ts g = (ts', g') \<Longrightarrow> has_graph (nodes g' n) = has_graph (nodes g n)"
  by (auto simp: skip_call_def Let_def onTaskCompleted_def split: prod.splits counter_event.splits if_splits)

lemma alone_skips:
  assumes "decrementSkipped fuel (has_graph (nodes g n)) ts g = Some g'"
  shows "has_graph (nodes g' n) = has_graph (nodes g n)
    \<and> (\<exists>j. \<forall>k. exec_alone (j + k) n (InCondition c ts es u) g = exec_alone k n (InCondition c [] es u) g')"
  using assms
proof (induction fuel arbitrary: ts g)
  case 0
  then show ?case by (cases ts) (auto intro: exI [of _ 0])
next
  case (Suc fuel)
  show ?case
  proof (cases ts)
    case Nil
    then show ?thesis using Suc.prems by (auto intro: exI [of _ 0])
  next
    case (Cons t ts1)
    obtain ts2 g2 where c: "skip_call (has_graph (nodes g n)) t ts1 g = (ts2, g2)" by fastforce
    note h = skip_call_has_graph [OF c, of n]
    have "decrementSkipped fuel (has_graph (nodes g2 n)) ts2 g2 = Some g'"
      using Suc.prems c h by (simp add: Cons decrementSkipped_call del: decrementSkipped.simps)
    then obtain j where j: "has_graph (nodes g' n) = has_graph (nodes g2 n)"
      "\<forall>k. exec_alone (j + k) n (InCondition c ts2 es u) g2 = exec_alone k n (InCondition c [] es u) g'"
      using Suc.IH [of g2 ts2] by blast
    have "\<forall>k. exec_alone (Suc j + k) n (InCondition c ts es u) g = exec_alone k n (InCondition c [] es u) g'"
      using c j(2) Cons by simp
    then show ?thesis using h j(1) by metis
  qed
qed

lemma alone_condition:
  assumes "unblock_condition fuel (has_graph (nodes g n)) c es (u, g) = Some (u', g')"
  shows "has_graph (nodes g' n) = has_graph (nodes g n)
    \<and> (\<exists>j. \<forall>k. exec_alone (j + k) n (InCondition c [] es u) g = exec_alone k n (InCondition c [] [] u') g')"
  using assms
proof (induction es arbitrary: u g)
  case Nil
  then show ?case by (auto intro: exI [of _ 0])
next
  case (Cons e es)
  have skip: ?case if s: "exec_step n (InCondition c [] (e # es) u) g = (Some (InCondition c [] es u1), g1)"
      "has_graph (nodes g1 n) = has_graph (nodes g n)"
      "unblock_condition fuel (has_graph (nodes g1 n)) c es (u1, g1) = Some (u', g')" for u1 g1
  proof -
    obtain j where j: "has_graph (nodes g' n) = has_graph (nodes g1 n)"
        "\<forall>k. exec_alone (j + k) n (InCondition c [] es u1) g1 = exec_alone k n (InCondition c [] [] u') g'"
      using Cons.IH [OF s(3)] by blast
    have "\<forall>k. exec_alone (Suc j + k) n (InCondition c [] (e # es) u) g = exec_alone k n (InCondition c [] [] u') g'"
      using j(2) s(1) by simp
    then show ?thesis using j(1) s(2) by metis
  qed
  show ?case
  proof (cases "target e")
    case None
    then show ?thesis using Cons.prems by (intro skip [of u g]) simp_all
  next
    case (Some w)
    consider (taken) "branch e = -1 \<or> branch e = c" | (skipped) "\<not> (branch e = -1 \<or> branch e = c)" "\<not> isLoopBack e"
      | (loop) "\<not> (branch e = -1 \<or> branch e = c)" "isLoopBack e" by blast
    then show ?thesis
    proof cases
      case taken
      obtain u1 g1 where r: "release_successor (has_graph (nodes g n)) w (u, g) = (u1, g1)" by fastforce
      note h = quiet_has_graph [OF r, of n]
      show ?thesis by (rule skip [of u1 g1]) (use Cons.prems Some taken r h in simp_all)
    next
      case loop
      then show ?thesis using Cons.prems Some by (intro skip [of u g]) simp_all
    next
      case skipped
      then obtain g1 where d: "decrementSkipped fuel (has_graph (nodes g n)) [w] g = Some g1"
          "unblock_condition fuel (has_graph (nodes g n)) c es (u, g1) = Some (u', g')"
        using Cons.prems Some by (auto split: option.splits)
      obtain j1 where j1: "has_graph (nodes g1 n) = has_graph (nodes g n)"
          "\<forall>k. exec_alone (j1 + k) n (InCondition c [w] es u) g = exec_alone k n (InCondition c [] es u) g1"
        using alone_skips [OF d(1)] by blast
      obtain j where j: "has_graph (nodes g' n) = has_graph (nodes g1 n)"
          "\<forall>k. exec_alone (j + k) n (InCondition c [] es u) g1 = exec_alone k n (InCondition c [] [] u') g'"
        using Cons.IH [of g1 u] d(2) j1(1) by auto
      have "exec_alone (Suc (j1 + j) + k) n (InCondition c [] (e # es) u) g = exec_alone k n (InCondition c [] [] u') g'" for k
      proof -
        have "exec_alone (Suc (j1 + j) + k) n (InCondition c [] (e # es) u) g = exec_alone (j1 + (j + k)) n (InCondition c [w] es u) g"
          using skipped Some by (simp add: add.assoc)
        also have "\<dots> = exec_alone (j + k) n (InCondition c [] es u) g1" using j1(2) by blast
        finally show ?thesis using j(2) by simp
      qed
      then show ?thesis using j(1) j1(1) by metis
    qed
  qed
qed

theorem exec_alone_execute:
  assumes "execute fuel n g = Some g'"
  shows "\<exists>k. exec_alone k n AtStart g = Some g'"
proof -
  define g1 where "g1 = upd_node n (\<lambda>x. x\<lparr>node_state := Completed\<rparr>) (run_callable n (upd_node n (\<lambda>x. x\<lparr>node_state := Executing\<rparr>) g))"
  obtain g2 where g2: "unblockSuccessors fuel n g1 = Some g2" "g' = (if has_graph (nodes g2 n) then onTaskCompleted n g2 else g2)"
    using assms by (auto simp: execute_def Let_def g1_def split: option.splits)
  have "\<exists>k. exec_alone k n AtUnblock g1 = Some g'"
  proof (cases "node_type (nodes g1 n) = Condition")
    case False
    obtain u h where r: "unblock_static (has_graph (nodes g1 n)) (successors (nodes g1 n)) (0, g1) = (u, h)" by fastforce
    from alone_static [OF this] have "exec_alone (Suc (length (successors (nodes g1 n)) + 2)) n AtUnblock g1 = Some g'"
      using False g2 r by (simp add: unblockSuccessors_def Let_def)
    then show ?thesis by blast
  next
    case True
    let ?es = "successors (nodes g1 n)" and ?c = "userData (nodes g1 n)"
    let ?loop = "find (\<lambda>e. (branch e = -1 \<or> branch e = ?c) \<and> isLoopBack e) ?es"
    show ?thesis
    proof (cases ?loop)
      case (Some e)
      have "exec_alone 2 n AtUnblock g1 = Some g'"
        using True Some g2 by (auto simp: unblockSuccessors_def Let_def numeral_2_eq_2 split: option.splits)
      then show ?thesis by blast
    next
      case None
      obtain u h where u: "unblock_condition fuel (has_graph (nodes g1 n)) ?c ?es (0, g1) = Some (u, h)" "g2 = finish_unblock (has_graph (nodes g1 n)) (u, h)"
        using g2(1) True None by (auto simp: unblockSuccessors_def Let_def split: option.splits)
      obtain j where j: "has_graph (nodes h n) = has_graph (nodes g1 n)"
          "\<forall>k. exec_alone (j + k) n (InCondition ?c [] ?es 0) g1 = exec_alone k n (InCondition ?c [] [] u) h"
        using alone_condition [OF u(1)] by blast
      have "exec_alone (j + 2) n (InCondition ?c [] ?es 0) g1 = exec_alone (Suc (Suc 0)) n (InCondition ?c [] [] u) h"
        using j(2) by (simp only: numeral_2_eq_2)
      also have "\<dots> = Some g'" unfolding alone_finish(2) using j(1) g2(2) u(2) by (simp add: Let_def)
      finally have "exec_alone (j + 2) n (InCondition ?c [] ?es 0) g1 = Some g'" .
      then have "exec_alone (Suc (j + 2)) n AtUnblock g1 = Some g'" using True None by (simp add: Let_def)
      then show ?thesis by blast
    qed
  qed
  then obtain k where "exec_alone k n AtUnblock g1 = Some g'" by blast
  then have "exec_alone (Suc (Suc (Suc k))) n AtStart g = Some g'" by (simp add: g1_def)
  then show ?thesis by blast
qed

section \<open>The invariant\<close>

fun is_pre :: "phase \<Rightarrow> bool" where
  "is_pre AtStart = True"
| "is_pre AtCall = True"
| "is_pre AtStore = True"
| "is_pre _ = False"

text \<open>The node a worker has not yet completed, the node it has, the reports it still has to make, its edges.\<close>

fun pre_of :: "activity \<Rightarrow> node_id list" where
  "pre_of Idle = []"
| "pre_of (Busy n ph) = (if is_pre ph then [n] else [])"

fun post_of :: "activity \<Rightarrow> node_id list" where
  "post_of Idle = []"
| "post_of (Busy n ph) = (if is_pre ph then [] else [n])"

fun todo_of :: "(node_id \<Rightarrow> successor_edge list) \<Rightarrow> activity \<Rightarrow> node_id list" where
  "todo_of es (Busy n AtUnblock) = targets (es n)"
| "todo_of es (Busy n (InStatic el u)) = targets el"
| "todo_of es (Busy n (InCondition c ts el u)) = ts @ targets el"
| "todo_of es _ = []"

fun edges_of :: "activity \<Rightarrow> successor_edge list" where
  "edges_of (Busy n (InStatic el u)) = el"
| "edges_of (Busy n (InCondition c ts el u)) = el"
| "edges_of _ = []"

definition activity_ok :: "activity \<Rightarrow> bool" where
  "activity_ok a \<longleftrightarrow> (\<forall>e \<in> set (edges_of a). target e \<noteq> None \<and> \<not> isLoopBack e)"

text \<open>Steps a worker may still take, and steps of a node nobody has taken.\<close>

fun weight :: "(node_id \<Rightarrow> successor_edge list) \<Rightarrow> activity \<Rightarrow> nat" where
  "weight es Idle = 0"
| "weight es (Busy n AtStart) = 6 + 2 * length (es n)"
| "weight es (Busy n AtCall) = 5 + 2 * length (es n)"
| "weight es (Busy n AtStore) = 4 + 2 * length (es n)"
| "weight es (Busy n AtUnblock) = 3 + 2 * length (es n)"
| "weight es (Busy n (InStatic el u)) = 2 + 2 * length el"
| "weight es (Busy n (InCondition c ts el u)) = 2 + length ts + 2 * length el"
| "weight es (Busy n AtFinish) = 1"

definition steps_of :: "(node_id \<Rightarrow> successor_edge list) \<Rightarrow> node_id set \<Rightarrow> nat" where
  "steps_of es A = (\<Sum>v \<in> A. 7 + 2 * length (es v))"

lemma steps_of_insert: "finite A \<Longrightarrow> v \<notin> A \<Longrightarrow> steps_of es (insert v A) = 7 + 2 * length (es v) + steps_of es A"
  by (simp add: steps_of_def)

text \<open>
  To the counters a node that a worker has taken and not completed is as one that is scheduled; only
  its state may already be \<open>Executing\<close>, which \<open>masked\<close> hides.
\<close>

definition masked :: "node_id set \<Rightarrow> 'u engine \<Rightarrow> 'u engine" where
  "masked X g = g\<lparr>nodes := (\<lambda>v. if v \<in> X then (nodes g v)\<lparr>node_state := Pending\<rparr> else nodes g v)\<rparr>"

lemma masked_simps [simp]:
  "nodes (masked X g) v = (if v \<in> X then (nodes g v)\<lparr>node_state := Pending\<rparr> else nodes g v)"
  "m_hasScheduler (masked X g) = m_hasScheduler g" "m_pendingTasks (masked X g) = m_pendingTasks g"
  "released (masked X g) = released g"
  by (simp_all add: masked_def released_def)

text \<open>
  \<open>core es V R P q D M g\<close>: \<open>R\<close> are ready, \<open>P\<close> taken and not completed, \<open>D\<close> settled, \<open>q\<close> workers have yet
  to call \<open>onTaskCompleted\<close>, and the workers have yet to make the reports \<open>M\<close>.
\<close>

definition core ::
  "(node_id \<Rightarrow> successor_edge list) \<Rightarrow> node_id set \<Rightarrow> node_id multiset \<Rightarrow> node_id multiset \<Rightarrow> nat \<Rightarrow> node_id set
     \<Rightarrow> node_id multiset \<Rightarrow> 'u engine \<Rightarrow> bool" where
  "core es V R P q D M g \<longleftrightarrow> (\<exists>W. mset W = M \<and> run_inv es V (R + P) q D W (masked (set_mset P) g))"

lemma run_inv_cong:
  assumes "run_inv es V R extra D W g"
    and "\<And>v. v \<in> V \<Longrightarrow> has_graph (nodes g' v) = has_graph (nodes g v) \<and> successors (nodes g' v) = successors (nodes g v)
      \<and> inDegree (nodes g' v) = inDegree (nodes g v) \<and> node_state (nodes g' v) = node_state (nodes g v)"
    and "m_hasScheduler g' = m_hasScheduler g" and "m_pendingTasks g' = m_pendingTasks g" and "released g' = released g"
  shows "run_inv es V R extra D W g'"
  using assms(1,3-5) assms(2) unfolding run_inv_def by (auto simp: subset_iff)

lemma run_inv_mset:
  assumes "run_inv es V R extra D W g" and "mset W' = mset W"
  shows "run_inv es V R extra D W' g"
proof -
  have "set W' = set W" using assms(2) by (metis set_mset_mset)
  then show ?thesis using assms unfolding run_inv_def outstanding_def by simp
qed

lemma coreE:
  assumes "core es V R P q D M g" and "mset W = M"
  shows "run_inv es V (R + P) q D W (masked (set_mset P) g)"
  using assms run_inv_mset unfolding core_def by metis

lemma core_facts:
  assumes "core es V R P q D M g" and "released g = {#}"
  shows "finite V" "edges_ok es V" "D \<subseteq> V" "m_hasScheduler g" "\<And>v. v \<in> V \<Longrightarrow> has_graph (nodes g v) \<and> successors (nodes g v) = es v"
    and "\<And>v. v \<in># R + P \<Longrightarrow> v \<in> V - D \<and> count (R + P) v = 1" and "\<And>v. v \<in># M \<Longrightarrow> v \<in> V - D \<and> v \<notin># R + P"
    and "\<And>n v. n \<in># R + P \<Longrightarrow> v \<in> V \<Longrightarrow> n \<in> set (targets (es v)) \<Longrightarrow> v \<in> D"
    and "\<And>v. v \<in> V - D \<Longrightarrow> v \<notin># P \<Longrightarrow> node_state (nodes g v) = Pending"
    and "\<And>v. v \<in> D \<Longrightarrow> node_state (nodes g v) = Completed \<or> node_state (nodes g v) = Skipped"
    and "m_pendingTasks g = of_nat (card (V - D) + q)"
proof -
  obtain W where W: "mset W = M" by (metis ex_mset)
  note inv = coreE [OF assms(1) W]
  note d = run_invD [OF inv]
  show "finite V" "edges_ok es V" "D \<subseteq> V" "m_hasScheduler g" "m_pendingTasks g = of_nat (card (V - D) + q)"
    using d(1-3,5,12) by simp_all
  show "has_graph (nodes g v) \<and> successors (nodes g v) = es v" if "v \<in> V" for v using d(6) [OF that] by (simp split: if_splits)
  have one: "v \<in> V - D \<and> count (R + P) v = 1 \<and> count (outstanding es V D W) v = 0" if "v \<in># R + P" for v
  proof -
    have "0 < count (R + P) v" using that by simp
    then show ?thesis using d(8) [of v] assms(2) by (auto simp: count_eq_zero_iff split: if_splits)
  qed
  then show "v \<in> V - D \<and> count (R + P) v = 1" if "v \<in># R + P" for v using that by blast
  show "v \<in> D" if "n \<in># R + P" "v \<in> V" "n \<in> set (targets (es v))" for n v
    by (rule no_pred_outstanding [where es = es, OF d(1) conjunct2 [OF conjunct2 [OF one [OF that(1)]]] that(2,3)])
  show "v \<in> V - D \<and> v \<notin># R + P" if "v \<in># M" for v
  proof -
    have "0 < count (outstanding es V D W) v" using that W by (simp add: outstanding_def)
    moreover have "v \<in> V" using that W d(4) by auto
    ultimately show ?thesis using one [of v] d(9) [of v] by (auto simp: count_eq_zero_iff)
  qed
  show "node_state (nodes g v) = Pending" if "v \<in> V - D" "v \<notin># P" for v using d(10) [OF that(1)] that(2) by simp
  show "node_state (nodes g v) = Completed \<or> node_state (nodes g v) = Skipped" if "v \<in> D" for v
  proof -
    have "v \<notin># P" using one [of v] that by auto
    then show ?thesis using d(11) [OF that] by simp
  qed
qed

text \<open>A change of what the counters do not see.\<close>

lemma core_cong:
  assumes "core es V R P q D M g" and "R' + P' = R + P"
    and "\<And>v. v \<in> V \<Longrightarrow> has_graph (nodes g' v) = has_graph (nodes g v) \<and> successors (nodes g' v) = successors (nodes g v)
      \<and> inDegree (nodes g' v) = inDegree (nodes g v)
      \<and> node_state (nodes (masked (set_mset P') g') v) = node_state (nodes (masked (set_mset P) g) v)"
    and "m_hasScheduler g' = m_hasScheduler g" and "m_pendingTasks g' = m_pendingTasks g" and "released g' = released g"
  shows "core es V R' P' q D M g'"
proof -
  obtain W where W: "mset W = M" by (metis ex_mset)
  have "run_inv es V (R' + P') q D W (masked (set_mset P') g')" unfolding assms(2)
  proof (rule run_inv_cong [OF coreE [OF assms(1) W]])
    fix v assume v: "v \<in> V"
    show "has_graph (nodes (masked (set_mset P') g') v) = has_graph (nodes (masked (set_mset P) g) v)
      \<and> successors (nodes (masked (set_mset P') g') v) = successors (nodes (masked (set_mset P) g) v)
      \<and> inDegree (nodes (masked (set_mset P') g') v) = inDegree (nodes (masked (set_mset P) g) v)
      \<and> node_state (nodes (masked (set_mset P') g') v) = node_state (nodes (masked (set_mset P) g) v)"
      using assms(3) [OF v] by (auto split: if_splits)
  qed (use assms(4-6) in simp_all)
  then show ?thesis using W unfolding core_def by blast
qed

lemma core_report:
  assumes c: "core es V R P q D (add_mset w M) g"
    and ev: "snd (report_step (inDegree (nodes g w)) r) \<noteq> AllSkipped"
    and nd: "nodes g' = (nodes g)(w := (nodes g w)\<lparr>inDegree := fst (report_step (inDegree (nodes g w)) r)\<rparr>)"
    and keep: "m_hasScheduler g' = m_hasScheduler g" "m_pendingTasks g' = m_pendingTasks g"
    and rel: "released g' = released g + (if snd (report_step (inDegree (nodes g w)) r) = BecameReady then {#w#} else {#})"
  shows "core es V R P q D M g'"
proof -
  obtain W where W: "mset W = M" by (metis ex_mset)
  then have "mset (w # W) = add_mset w M" by simp
  note inv = coreE [OF c this]
  have i: "inDegree (nodes (masked (set_mset P) g) w) = inDegree (nodes g w)" by simp
  have "run_inv es V (R + P) q D W (masked (set_mset P) g')"
    by (rule report_delivered [OF inv, where r = r, unfolded i, OF ev]) (use nd keep rel in \<open>auto simp: fun_eq_iff simp del: report_step.simps\<close>)
  then show ?thesis using W unfolding core_def by blast
qed

lemma core_skip:
  assumes c: "core es V R P q D (add_mset w M) g" and r0: "released g = {#}"
    and ev: "snd (report_step (inDegree (nodes g w)) r) = AllSkipped"
    and nd: "nodes g' = (nodes g)(w := (nodes g w)\<lparr>inDegree := fst (report_step (inDegree (nodes g w)) r), node_state := Skipped\<rparr>)"
    and keep: "m_hasScheduler g' = m_hasScheduler g" "m_pendingTasks g' = m_pendingTasks g - 1" "released g' = released g"
  shows "core es V R P q (insert w D) (mset (targets (es w)) + M) g'"
proof -
  obtain W where W: "mset W = M" by (metis ex_mset)
  then have "mset (w # W) = add_mset w M" by simp
  note inv = coreE [OF c this]
  have w: "w \<notin># P" using core_facts(7) [OF c r0, of w] by simp
  have i: "inDegree (nodes (masked (set_mset P) g) w) = inDegree (nodes g w)" by simp
  have "run_inv es V (R + P) q (insert w D) (targets (es w) @ W) (masked (set_mset P) g')"
    by (rule report_skips [OF inv, where r = r, unfolded i, OF ev]) (use nd keep w in \<open>auto simp: fun_eq_iff simp del: report_step.simps\<close>)
  moreover have "mset (targets (es w) @ W) = mset (targets (es w)) + M" using W by simp
  ultimately show ?thesis unfolding core_def by blast
qed

text \<open>The worker that executes \<open>n\<close> stores \<open>Completed\<close>; it calls \<open>onTaskCompleted\<close>.\<close>

lemma core_complete:
  assumes c: "core es V R (add_mset n P) q D M g" and r0: "released g = {#}"
  shows "core es V R P (Suc q) (insert n D) (mset (targets (es n)) + M) (upd_node n (\<lambda>x. x\<lparr>node_state := Completed\<rparr>) g)"
    and "n \<in> V - D" and "n \<notin># P"
proof -
  obtain W where W: "mset W = M" by (metis ex_mset)
  note inv = coreE [OF c W]
  have n: "n \<in># R + add_mset n P" by simp
  have one: "count (R + add_mset n P) n = 1" "n \<in> V - D" using core_facts(6) [OF c r0 n] by simp_all
  then show nP: "n \<notin># P" and "n \<in> V - D" by (simp_all add: count_eq_zero_iff)
  let ?g = "upd_node n (\<lambda>x. x\<lparr>node_state := Completed\<rparr>) g"
  have "run_inv es V (R + add_mset n P - {#n#}) (Suc q) (insert n D) (targets (es n) @ W) (masked (set_mset P) ?g)"
    by (rule start_node(1) [OF inv n, where b = "userData (nodes g n)"]) (use r0 nP in auto)
  moreover have "mset (targets (es n) @ W) = mset (targets (es n)) + M" using W by simp
  ultimately show "core es V R P (Suc q) (insert n D) (mset (targets (es n)) + M) ?g"
    unfolding core_def by (intro exI [of _ "targets (es n) @ W"]) simp
qed

lemma core_finish:
  assumes "core es V R P (Suc q) D M g"
  shows "core es V R P q D M (onTaskCompleted n g)"
proof -
  obtain W where W: "mset W = M" by (metis ex_mset)
  have "masked X (onTaskCompleted n g) = onTaskCompleted n (masked X g)" for X by (cases g) (auto simp: masked_def onTaskCompleted_def fun_eq_iff)
  then show ?thesis using finish_node [OF coreE [OF assms W], of n] W unfolding core_def by auto
qed

lemma core_shift:
  assumes "core es V R P q D M g"
  shows "core es V (R + released g) P q D M (begin_execute b g)"
proof -
  obtain W where W: "mset W = M" by (metis ex_mset)
  have "masked X (begin_execute b g) = begin_execute b (masked X g)" for X by (cases g) (auto simp: masked_def begin_execute_def fun_eq_iff)
  then show ?thesis using run_inv_shift(1) [OF coreE [OF assms W], of b] W unfolding core_def by (auto simp: ac_simps)
qed

section \<open>A step of one worker\<close>

text \<open>
  \<open>P\<close>, \<open>q\<close> and \<open>M\<close> are the other workers' taken nodes, open completions and reports. \<open>advances\<close> is what a
  step with activity \<open>a\<close> and the nodes \<open>D\<close> settled keeps, and what it makes smaller.
\<close>

abbreviation taken :: "activity \<Rightarrow> node_id multiset \<Rightarrow> node_id multiset" where
  "taken a P \<equiv> mset (pre_of a) + P"

definition advances ::
  "(node_id \<Rightarrow> successor_edge list) \<Rightarrow> node_id set \<Rightarrow> node_id multiset \<Rightarrow> node_id multiset \<Rightarrow> nat \<Rightarrow> node_id multiset
     \<Rightarrow> node_id set \<Rightarrow> activity \<Rightarrow> activity \<Rightarrow> 'u engine \<Rightarrow> bool" where
  "advances es V R P q M D a a' g' \<longleftrightarrow>
     (\<exists>D'. core es V R (taken a' P) (length (post_of a') + q) D' (mset (todo_of es a') + M) g' \<and> activity_ok a'
        \<and> D \<union> set (post_of a') \<subseteq> D'
        \<and> ((\<forall>n c ts el u. a \<noteq> Busy n (InCondition c ts el u)) \<longrightarrow> D' = D \<union> set (post_of a'))
        \<and> steps_of es (V - D' - set_mset (taken a' P)) + weight es a'
            < steps_of es (V - D - set_mset (taken a P)) + weight es a)"

lemma advancesI:
  assumes "core es V R (taken a' P) (length (post_of a') + q) D (mset (todo_of es a') + M) g'" and "activity_ok a'"
    and "set (post_of a') \<subseteq> D" and "pre_of a' = pre_of a" and "weight es a' < weight es a"
  shows "advances es V R P q M D a a' g'"
  using assms unfolding advances_def by (intro exI [of _ D]) auto

lemma finish_unblock_frame:
  "nodes (finish_unblock b (u, g)) = nodes g" "m_hasScheduler (finish_unblock b (u, g)) = m_hasScheduler g"
  "m_pendingTasks (finish_unblock b (u, g)) = m_pendingTasks g" "released (finish_unblock b (u, g)) = released g"
  by (simp_all add: finish_unblock_def)

lemma run_callable_fields:
  "has_graph (nodes (run_callable n g) v) = has_graph (nodes g v)" "successors (nodes (run_callable n g) v) = successors (nodes g v)"
  "inDegree (nodes (run_callable n g) v) = inDegree (nodes g v)" "node_state (nodes (run_callable n g) v) = node_state (nodes g v)"
  by (simp_all add: run_callable_def split: task_fn.split prod.split)

lemma core_release:
  assumes c: "core es V R P q D (add_mset w M) g" and hs: "m_hasScheduler g" and r: "release_successor True w (u, g) = (u', g')"
  shows "core es V R P q D M g'"
  by (rule core_report [OF c, where r = RanReport])
    (use release_successor_facts [OF hs r] in \<open>auto simp: ran_report_event simp del: report_step.simps\<close>)

lemma core_skip_call:
  assumes c: "core es V R P q D (add_mset t (mset ts + M)) g" and r0: "released g = {#}" and s: "skip_call True t ts g = (ts', g')"
  shows "\<exists>D'. core es V R P q D' (mset ts' + M) g' \<and> D \<subseteq> D'
    \<and> steps_of es (V - D' - set_mset P) + length ts' < steps_of es (V - D - set_mset P) + Suc (length ts)"
proof -
  note f = core_facts [OF c r0]
  have t: "t \<in> V - D" "t \<notin># P" using f(7) [of t] by simp_all
  obtain w e where we: "report_step (inDegree (nodes g t)) SkipReport = (w, e)" by fastforce
  then have we': "decrementSkipped_counter (inDegree (nodes g t)) = (w, e)" by simp
  let ?g = "upd_node t (\<lambda>x. x\<lparr>inDegree := w\<rparr>) g"
  show ?thesis
  proof (cases e)
    case StillBlocked
    then have s': "ts' = ts" "g' = ?g" using s we' by (simp_all add: skip_call_def Let_def)
    have "core es V R P q D (mset ts + M) g'"
      by (rule core_report [OF c, where r = SkipReport]) (simp_all add: s' we StillBlocked del: report_step.simps)
    then show ?thesis using s' by auto
  next
    case BecameReady
    then have s': "ts' = ts" "g' = scheduleNode t True ?g" using s we' by (simp_all add: skip_call_def Let_def)
    have "core es V R P q D (mset ts + M) g'"
      by (rule core_report [OF c, where r = SkipReport])
        (simp_all add: s' we BecameReady f(4) scheduleNode_released del: report_step.simps)
    then show ?thesis using s' by auto
  next
    case AllSkipped
    let ?g2 = "onTaskCompleted t (upd_node t (\<lambda>x. x\<lparr>node_state := Skipped\<rparr>) ?g)"
    have s': "ts' = succ_targets (nodes ?g2 t) @ ts" "g' = ?g2" using s we' AllSkipped by (auto simp: skip_call_def Let_def)
    have "nodes ?g2 t = (nodes g t)\<lparr>inDegree := w, node_state := Skipped\<rparr>" by (simp add: onTaskCompleted_def)
    moreover have "\<forall>e \<in> set (es t). target e \<noteq> None" using f(2) t(1) by (auto simp: edges_ok_def)
    ultimately have st: "succ_targets (nodes ?g2 t) = targets (es t)"
      using f(5) [of t] t(1) by (auto simp: succ_targets_def List.map_filter_def targets_def filter_id_conv)
    have c': "core es V R P q (insert t D) (mset (targets (es t)) + (mset ts + M)) g'"
      by (rule core_skip [OF c r0, where r = SkipReport])
        (use s' we AllSkipped in \<open>auto simp: onTaskCompleted_def released_def simp del: report_step.simps\<close>)
    have "V - D - set_mset P = insert t (V - insert t D - set_mset P)" using t by auto
    then have "steps_of es (V - D - set_mset P) = 7 + 2 * length (es t) + steps_of es (V - insert t D - set_mset P)"
      using steps_of_insert [of "V - insert t D - set_mset P" t es] f(1) by simp
    then show ?thesis
      using c' s'(1) st by (intro exI [of _ "insert t D"]) (auto simp: targets_def ac_simps)
  qed
qed

lemma phase_step:
  assumes c: "core es V R (taken (Busy n ph) P) (length (post_of (Busy n ph)) + q) D (mset (todo_of es (Busy n ph)) + M) g"
    and r0: "released g = {#}" and ok: "activity_ok (Busy n ph)" and post: "set (post_of (Busy n ph)) \<subseteq> D"
    and s: "exec_step n ph g = (r, g')"
  shows "advances es V R P q M D (Busy n ph) (case r of None \<Rightarrow> Idle | Some ph \<Rightarrow> Busy n ph) g'"
proof -
  note f = core_facts [OF c r0]
  have nV: "n \<in> V" using f(3) f(6) [of n] post by (cases "is_pre ph") auto
  have hg: "has_graph (nodes g n)" and sc: "successors (nodes g n) = es n" using f(5) [OF nV] by simp_all
  have edges: "\<forall>e \<in> set (es n). target e \<noteq> None \<and> \<not> isLoopBack e" using f(2) nV by (auto simp: edges_ok_def)
  show ?thesis
  proof (cases ph)
    case AtStart
    then have s': "r = Some AtCall" "g' = upd_node n (\<lambda>x. x\<lparr>node_state := Executing\<rparr>) g" using s by auto
    have "core es V R (taken (Busy n AtCall) P) q D M g'"
      by (rule core_cong [where g = g and R = R and P = "taken (Busy n ph) P"]) (use c AtStart s' in auto)
    then show ?thesis using AtStart s' by (intro advancesI) (auto simp: activity_ok_def)
  next
    case AtCall
    then have s': "r = Some AtStore" "g' = run_callable n g" using s by auto
    note rc = run_callable_frame [of n g]
    have "core es V R (taken (Busy n AtStore) P) q D M g'"
      by (rule core_cong [where g = g and R = R and P = "taken (Busy n ph) P"])
        (use c AtCall s' rc(2-4) in \<open>auto simp: run_callable_fields\<close>)
    then show ?thesis using AtCall s' by (intro advancesI) (auto simp: activity_ok_def)
  next
    case AtStore
    then have s': "r = Some AtUnblock" "g' = upd_node n (\<lambda>x. x\<lparr>node_state := Completed\<rparr>) g" using s by auto
    have "core es V R (add_mset n P) q D M g" using c AtStore by simp
    note cc = core_complete [OF this r0]
    have "V - insert n D - set_mset P = V - D - set_mset (add_mset n P)" by auto
    then show ?thesis using cc AtStore s' unfolding advances_def by (intro exI [of _ "insert n D"]) (auto simp: activity_ok_def)
  next
    case AtUnblock
    have nl: "find (\<lambda>e. (branch e = -1 \<or> branch e = userData (nodes g n)) \<and> isLoopBack e) (es n) = None"
      using edges by (auto simp: find_None_iff)
    then show ?thesis using c AtUnblock s post sc edges
      by (intro advancesI) (auto simp: Let_def activity_ok_def split: if_splits)
  next
    case (InStatic el u)
    show ?thesis
    proof (cases el)
      case Nil
      then have s': "r = Some AtFinish" "g' = finish_unblock True (u, g)" using s InStatic hg by auto
      have "core es V R (taken (Busy n AtFinish) P) (Suc q) D M g'"
        by (rule core_cong [where g = g and R = R and P = "taken (Busy n ph) P"])
          (use c InStatic Nil s' in \<open>auto simp: finish_unblock_frame targets_def\<close>)
      then show ?thesis using InStatic s' post by (intro advancesI) (auto simp: activity_ok_def)
    next
      case (Cons e el')
      then obtain w where w: "target e = Some w" using ok InStatic by (auto simp: activity_ok_def)
      obtain u' where r: "release_successor True w (u, g) = (u', g')" "r = Some (InStatic el' u')"
        using s InStatic Cons w hg by (auto split: prod.splits)
      have "core es V R P (Suc q) D (mset (targets el') + M) g'"
        by (rule core_release [OF _ f(4) r(1)]) (use c InStatic Cons w in \<open>simp add: targets_def\<close>)
      then show ?thesis using InStatic Cons r(2) post ok by (intro advancesI) (auto simp: activity_ok_def)
    qed
  next
    case (InCondition b ts el u)
    show ?thesis
    proof (cases ts)
      case (Cons t ts1)
      obtain ts' where r: "skip_call True t ts1 g = (ts', g')" "r = Some (InCondition b ts' el u)"
        using s InCondition Cons hg by (auto split: prod.splits)
      have "core es V R P (Suc q) D (add_mset t (mset ts1 + (mset (targets el) + M))) g"
        using c InCondition Cons by (simp add: ac_simps)
      from core_skip_call [OF this r0 r(1)] show ?thesis
        using InCondition Cons r(2) post ok unfolding advances_def
        by (auto simp: activity_ok_def ac_simps)
    next
      case Nil
      show ?thesis
      proof (cases el)
        case Nil
        then have s': "r = Some AtFinish" "g' = finish_unblock True (u, g)" using s InCondition \<open>ts = []\<close> hg by auto
        have "core es V R (taken (Busy n AtFinish) P) (Suc q) D M g'"
          by (rule core_cong [where g = g and R = R and P = "taken (Busy n ph) P"])
            (use c InCondition Nil \<open>ts = []\<close> s' in \<open>auto simp: finish_unblock_frame targets_def\<close>)
        then show ?thesis using InCondition s' post by (intro advancesI) (auto simp: activity_ok_def)
      next
        case (Cons e el')
        then obtain w where w: "target e = Some w" and nb: "\<not> isLoopBack e" using ok InCondition by (auto simp: activity_ok_def)
        show ?thesis
        proof (cases "branch e = -1 \<or> branch e = b")
          case True
          obtain u' where r: "release_successor True w (u, g) = (u', g')" "r = Some (InCondition b [] el' u')"
            using s InCondition \<open>ts = []\<close> Cons w hg True by (auto split: prod.splits)
          have "core es V R P (Suc q) D (mset (targets el') + M) g'"
            by (rule core_release [OF _ f(4) r(1)]) (use c InCondition \<open>ts = []\<close> Cons w in \<open>simp add: targets_def\<close>)
          then show ?thesis using InCondition Cons r(2) post ok by (intro advancesI) (auto simp: activity_ok_def)
        next
          case False
          then have s': "r = Some (InCondition b [w] el' u)" "g' = g" using s InCondition \<open>ts = []\<close> Cons w nb by auto
          have "core es V R P (Suc q) D (add_mset w (mset (targets el') + M)) g'"
            using c InCondition \<open>ts = []\<close> Cons w s' by (simp add: targets_def)
          then show ?thesis using InCondition \<open>ts = []\<close> Cons s' post ok by (intro advancesI) (auto simp: activity_ok_def)
        qed
      qed
    qed
  next
    case AtFinish
    then have s': "r = None" "g' = onTaskCompleted n g" using s hg by auto
    have "core es V R P q D M g'" unfolding s'(2) by (rule core_finish) (use c AtFinish in simp)
    then show ?thesis using AtFinish s' by (intro advancesI) (auto simp: activity_ok_def)
  qed
qed

section \<open>All workers\<close>

text \<open>The counters.\<close>

definition par_inv :: "(node_id \<Rightarrow> successor_edge list) \<Rightarrow> node_id set \<Rightarrow> node_id set \<Rightarrow> 'u par_state \<Rightarrow> bool" where
  "par_inv es V D s \<longleftrightarrow>
     (let ws = p_workers s; post = gather post_of ws
      in core es V (p_ready s) (gather pre_of ws) (size post) D (gather (todo_of es) ws) (begin_execute False (p_engine s))
         \<and> (\<forall>n. count post n \<le> 1) \<and> set_mset post \<subseteq> D \<and> (\<forall>a \<in> set ws. activity_ok a))"

definition par_measure :: "(node_id \<Rightarrow> successor_edge list) \<Rightarrow> node_id set \<Rightarrow> node_id set \<Rightarrow> 'u par_state \<Rightarrow> nat" where
  "par_measure es V D s =
     steps_of es (V - D - set_mset (gather pre_of (p_workers s))) + sum_list (map (weight es) (p_workers s))"

lemma begin_released [simp]: "released (begin_execute b g) = {#}"
  by (simp add: begin_execute_def released_def)

lemma core_begin: "core es V R P q D M (begin_execute b g) \<Longrightarrow> core es V R P q D M (begin_execute c g)"
  by (erule core_cong [where R = R and P = P]) (auto simp: begin_execute_def released_def)

lemma take_task_inv:
  assumes inv: "par_inv es V D s" and i: "i < length (p_workers s)" "p_workers s ! i = Idle" and n: "n \<in># p_ready s"
  shows "par_inv es V D (take_task i n s)" and "par_measure es V D (take_task i n s) < par_measure es V D s"
proof -
  let ?ws = "p_workers s" and ?P = "gather pre_of (p_workers s)"
  have c: "core es V (p_ready s) ?P (size (gather post_of ?ws)) D (gather (todo_of es) ?ws) (begin_execute False (p_engine s))"
    using inv by (simp add: par_inv_def Let_def)
  note f = core_facts [OF c begin_released]
  have g: "gather f (?ws[i := Busy n AtStart]) = mset (f (Busy n AtStart)) + gather f ?ws" if "f Idle = []" for f :: "activity \<Rightarrow> node_id list"
    using gather_update [OF i(1)] gather_split [OF i(1), of f] i(2) that by simp
  have gs: "gather pre_of (?ws[i := Busy n AtStart]) = add_mset n ?P" "gather post_of (?ws[i := Busy n AtStart]) = gather post_of ?ws"
    "gather (todo_of es) (?ws[i := Busy n AtStart]) = gather (todo_of es) ?ws" using g by simp_all
  have "count (p_ready s) n + count ?P n = 1" and nV: "n \<in> V - D" using f(6) [of n] n by simp_all
  moreover have "1 \<le> count (p_ready s) n" using n by (simp add: Suc_le_eq)
  ultimately have "count ?P n = 0" by linarith
  then have one: "n \<in> V - D" "n \<notin># ?P" using nV by (simp_all add: not_in_iff)
  have "core es V (p_ready s - {#n#}) (add_mset n ?P) (size (gather post_of ?ws)) D (gather (todo_of es) ?ws) (begin_execute False (p_engine s))"
  proof (rule core_cong [OF c])
    show "p_ready s - {#n#} + add_mset n ?P = p_ready s + ?P" using n by (simp add: insert_DiffM)
  qed (use one(2) f(9) [OF one] in simp_all)
  moreover have "\<forall>a \<in> set (?ws[i := Busy n AtStart]). activity_ok a"
    using inv set_update_subset_insert [of ?ws i "Busy n AtStart"] by (auto simp: par_inv_def Let_def activity_ok_def)
  ultimately show "par_inv es V D (take_task i n s)" using inv gs by (simp add: par_inv_def Let_def take_task_def)
  have "V - D - set_mset ?P = insert n (V - D - set_mset (add_mset n ?P))" using one by auto
  then have "steps_of es (V - D - set_mset ?P) = 7 + 2 * length (es n) + steps_of es (V - D - set_mset (add_mset n ?P))"
    using steps_of_insert [of "V - D - set_mset (add_mset n ?P)" n es] f(1)
    by (metis DiffE finite_Diff union_single_eq_member)
  then show "par_measure es V D (take_task i n s) < par_measure es V D s"
    using weights_update [OF i(1), of "weight es" "Busy n AtStart"] weights_split [OF i(1), of "weight es"] i(2) gs
    by (simp add: par_measure_def take_task_def)
qed

lemma work_inv:
  assumes inv: "par_inv es V D s" and i: "i < length (p_workers s)" and a: "p_workers s ! i = Busy n ph"
  shows "\<exists>D'. par_inv es V D' (work b i n ph s) \<and> par_measure es V D' (work b i n ph s) < par_measure es V D s
    \<and> D \<subseteq> D' \<and> (ph = AtStore \<longrightarrow> n \<in> D') \<and> (\<forall>m \<in> D' - D. m \<noteq> n \<longrightarrow> m \<notin># gather pre_of (p_workers s))
    \<and> ((\<forall>c ts el u. ph \<noteq> InCondition c ts el u) \<longrightarrow> D' \<subseteq> insert n D) \<and> (ph = AtStart \<or> ph = AtCall \<longrightarrow> D' = D)"
proof -
  let ?ws = "p_workers s" and ?o = "rest_of i (p_workers s)" and ?g = "begin_execute b (p_engine s)"
  obtain r g' where st: "exec_step n ph ?g = (r, g')" by fastforce
  define a' where "a' = (case r of None \<Rightarrow> Idle | Some ph \<Rightarrow> Busy n ph)"
  note sp = gather_split [OF i, unfolded a] and up = gather_update [OF i, of _ a']
  have c0: "core es V (p_ready s) (gather pre_of ?ws) (size (gather post_of ?ws)) D (gather (todo_of es) ?ws) ?g"
    using inv core_begin by (auto simp: par_inv_def Let_def)
  then have c: "core es V (p_ready s) (taken (Busy n ph) (gather pre_of ?o)) (length (post_of (Busy n ph)) + size (gather post_of ?o)) D
      (mset (todo_of es (Busy n ph)) + gather (todo_of es) ?o) ?g"
    unfolding sp by (simp del: todo_of.simps)
  have ok: "activity_ok (Busy n ph)" and post: "set_mset (gather post_of ?ws) \<subseteq> D"
    using inv i a nth_mem [OF i] by (auto simp: par_inv_def Let_def)
  then have "set (post_of (Busy n ph)) \<subseteq> D" unfolding sp by auto
  from phase_step [OF c begin_released ok this st]
  obtain D' where D': "core es V (p_ready s) (taken a' (gather pre_of ?o)) (length (post_of a') + size (gather post_of ?o)) D'
        (mset (todo_of es a') + gather (todo_of es) ?o) g'" "activity_ok a'" "D \<union> set (post_of a') \<subseteq> D'"
      "(\<forall>m c ts el u. Busy n ph \<noteq> Busy m (InCondition c ts el u)) \<longrightarrow> D' = D \<union> set (post_of a')"
      "steps_of es (V - D' - set_mset (taken a' (gather pre_of ?o))) + weight es a'
         < steps_of es (V - D - set_mset (taken (Busy n ph) (gather pre_of ?o))) + weight es (Busy n ph)"
    unfolding advances_def a'_def by blast
  have w: "p_workers (work b i n ph s) = ?ws[i := a']" "p_ready (work b i n ph s) = p_ready s + released g'" "p_engine (work b i n ph s) = g'"
    using st by (simp_all add: work_def a'_def)
  have core': "core es V (p_ready s + released g') (gather pre_of (?ws[i := a'])) (size (gather post_of (?ws[i := a']))) D'
      (gather (todo_of es) (?ws[i := a'])) (begin_execute False g')"
    using core_shift [OF D'(1), of False] unfolding up by simp
  have n: "post_of a' = [] \<or> post_of a' = [n]" by (simp add: a'_def split: option.split)
  note f = core_facts [OF c0 begin_released]
  have once: "count (gather post_of (?ws[i := a'])) m \<le> 1" for m
  proof -
    have le: "count (gather post_of ?ws) m \<le> 1" for m using inv by (simp add: par_inv_def Let_def)
    show ?thesis
    proof (cases "is_pre ph")
      case True
      then have "n \<in># gather pre_of ?ws" unfolding sp by simp
      then have "n \<notin> D" using f(6) [of n] by simp
      then have "n \<notin># gather post_of ?o" using post unfolding sp by auto
      then show ?thesis using n le [of m] unfolding up sp by (auto simp: count_eq_zero_iff)
    next
      case False
      then have "count (mset (post_of a')) m \<le> count (mset (post_of (Busy n ph))) m" using n by auto
      then show ?thesis using le [of m] unfolding up sp by simp
    qed
  qed
  have "set_mset (gather post_of (?ws[i := a'])) \<subseteq> D'" using post D'(3) unfolding up sp by auto
  moreover have "\<forall>x \<in> set (?ws[i := a']). activity_ok x"
    using inv D'(2) set_update_subset_insert [of ?ws i a'] by (auto simp: par_inv_def Let_def)
  ultimately have 1: "par_inv es V D' (work b i n ph s)" using core' once by (simp add: par_inv_def Let_def w)
  have 2: "par_measure es V D' (work b i n ph s) < par_measure es V D s"
    using D'(5) weights_update [OF i, of "weight es" a'] weights_split [OF i, of "weight es"] unfolding par_measure_def w up sp a by simp
  have 3: "ph = AtStore \<longrightarrow> n \<in> D'" using D'(3) st by (auto simp: a'_def)
  have 4: "m \<notin># gather pre_of ?ws" if "m \<in> D' - D" "m \<noteq> n" for m
  proof
    assume "m \<in># gather pre_of ?ws"
    then have "m \<in># gather pre_of ?o" using that(2) unfolding sp by (auto split: if_splits)
    then have "m \<in># p_ready s + released g' + gather pre_of (?ws[i := a'])" unfolding up by simp
    then have "m \<notin> D'" using core_facts(6) [OF core' begin_released, of m] by simp
    then show False using that by simp
  qed
  have 5: "(\<forall>c ts el u. ph \<noteq> InCondition c ts el u) \<longrightarrow> D' \<subseteq> insert n D" using D'(4) n by auto
  have 6: "ph = AtStart \<or> ph = AtCall \<longrightarrow> D' = D" using D'(4) st by (auto simp: a'_def)
  show ?thesis using 1 2 3 4 5 6 D'(3) by blast
qed

section \<open>The order of the calls\<close>

text \<open>
  \<open>g0\<close> is the graph before the run. Called nodes are settled or about to store \<open>Completed\<close>; without
  conditions a node is settled by its own worker only.
\<close>

definition log_inv :: "'u engine \<Rightarrow> (node_id \<Rightarrow> successor_edge list) \<Rightarrow> node_id set \<Rightarrow> node_id set \<Rightarrow> 'u par_state \<Rightarrow> bool" where
  "log_inv g0 es V D s \<longleftrightarrow>
     distinct (p_log s) \<and> (\<forall>m \<in> set (p_log s). m \<in> D \<or> Busy m AtStore \<in> set (p_workers s))
     \<and> (\<forall>m. Busy m AtStore \<in> set (p_workers s) \<longrightarrow> m \<in> set (p_log s))
     \<and> (\<forall>m \<in> set (p_log s). \<forall>v \<in> V. m \<in> set (targets (es v)) \<longrightarrow> v \<in> D) \<and> log_ordered (\<lambda>v. targets (es v)) V (p_log s)
     \<and> same_types g0 (p_engine s) \<and> user (p_engine s) = fold (\<lambda>n. run_fn (executeFn (nodes g0 n))) (p_log s) (user g0)
     \<and> ((\<forall>v \<in> V. node_type (nodes g0 v) \<noteq> Condition) \<longrightarrow>
          D \<subseteq> set (p_log s) \<and> (\<forall>n c ts el u. Busy n (InCondition c ts el u) \<notin> set (p_workers s)))"

lemma skip_call_types: "skip_call b t ts h = (ts', h') \<Longrightarrow> quiet h h'"
  by (auto simp: skip_call_def Let_def quiet_defs onTaskCompleted_def split: prod.splits counter_event.splits if_splits)

lemma exec_step_quiet:
  assumes "exec_step n ph g = (r, g')" and "ph \<noteq> AtCall"
  shows "quiet g g'"
proof (cases ph)
  case AtUnblock
  then show ?thesis using assms take_loop_back_types by (auto simp: Let_def split: if_splits option.splits)
next
  case (InStatic es u)
  then show ?thesis
    using assms by (cases es) (auto intro: finish_unblock_types dest: release_successor_types split: option.splits prod.splits)
next
  case (InCondition c ts es u)
  show ?thesis
  proof (cases ts)
    case Nil
    then show ?thesis
      using assms InCondition
      by (cases es) (auto intro: finish_unblock_types dest: release_successor_types split: option.splits prod.splits if_splits)
  next
    case (Cons t ts)
    then show ?thesis using assms InCondition by (auto dest: skip_call_types split: prod.splits)
  qed
qed (use assms in \<open>auto intro: quiet_upd split: if_splits\<close>)

lemma exec_step_condition:
  assumes "exec_step n ph g = (Some (InCondition c ts el u), g')"
  shows "node_type (nodes g n) = Condition \<or> (\<exists>c ts el u. ph = InCondition c ts el u)"
  using assms by (cases rule: exec_step.cases [of "(n, ph, g)"]) (auto simp: Let_def split: if_splits option.splits prod.splits)

lemma log_invD:
  assumes "log_inv g0 es V D s"
  shows "distinct (p_log s)" "\<And>m. m \<in> set (p_log s) \<Longrightarrow> m \<in> D \<or> Busy m AtStore \<in> set (p_workers s)"
    and "\<And>m. Busy m AtStore \<in> set (p_workers s) \<Longrightarrow> m \<in> set (p_log s)"
    and "\<And>m v. m \<in> set (p_log s) \<Longrightarrow> v \<in> V \<Longrightarrow> m \<in> set (targets (es v)) \<Longrightarrow> v \<in> D" and "log_ordered (\<lambda>v. targets (es v)) V (p_log s)"
    and "same_types g0 (p_engine s)" and "user (p_engine s) = fold (\<lambda>n. run_fn (executeFn (nodes g0 n))) (p_log s) (user g0)"
    and "(\<forall>v \<in> V. node_type (nodes g0 v) \<noteq> Condition) \<Longrightarrow> D \<subseteq> set (p_log s) \<and> (\<forall>n c ts el u. Busy n (InCondition c ts el u) \<notin> set (p_workers s))"
  using assms unfolding log_inv_def by blast+

text \<open>A node that a worker is about to call has not been called, and its predecessors are settled.\<close>

lemma before_call:
  assumes inv: "par_inv es V D s" and l: "log_inv g0 es V D s" and i: "i < length (p_workers s)" "p_workers s ! i = Busy n AtCall"
  shows "n \<in> V - D" and "n \<notin> set (p_log s)" and "\<And>v. v \<in> V \<Longrightarrow> n \<in> set (targets (es v)) \<Longrightarrow> v \<in> D"
proof -
  let ?ws = "p_workers s" and ?o = "rest_of i (p_workers s)"
  have c: "core es V (p_ready s) (gather pre_of ?ws) (size (gather post_of ?ws)) D (gather (todo_of es) ?ws) (begin_execute False (p_engine s))"
    using inv by (simp add: par_inv_def Let_def)
  note f = core_facts [OF c begin_released]
  have sp: "gather pre_of ?ws = add_mset n (gather pre_of ?o)" using gather_split [OF i(1), of pre_of] i(2) by simp
  then have n: "n \<in># p_ready s + gather pre_of ?ws" by simp
  then show nV: "n \<in> V - D" using f(6) by blast
  show "\<And>v. v \<in> V \<Longrightarrow> n \<in> set (targets (es v)) \<Longrightarrow> v \<in> D" using f(8) [OF n] by blast
  have "count (gather pre_of ?o) n = 0" using f(6) [OF n] sp by simp
  then have o: "n \<notin># gather pre_of ?o" by (simp add: not_in_iff)
  show "n \<notin> set (p_log s)"
  proof
    assume "n \<in> set (p_log s)"
    then have "Busy n AtStore \<in> set ?ws" using log_invD(2) [OF l] nV by blast
    then obtain j where j: "j < length ?ws" "?ws ! j = Busy n AtStore" by (metis in_set_conv_nth)
    then have "j \<noteq> i" using i(2) by auto
    then show False using gather_rest [OF i(1) j(1), of n pre_of] j(2) o by simp
  qed
qed

lemma take_task_log:
  assumes l: "log_inv g0 es V D s" and i: "i < length (p_workers s)" "p_workers s ! i = Idle"
  shows "log_inv g0 es V D (take_task i n s)"
proof -
  have "Busy m ph \<in> set ((p_workers s)[i := Busy n AtStart]) \<longleftrightarrow> Busy m ph \<in> set (p_workers s)" if "ph \<noteq> AtStart" for m ph
    using that i(2) unfolding mem_update [OF i(1)] mem_split [OF i(1), of "Busy m ph"] by simp
  then show ?thesis using l unfolding log_inv_def take_task_def by simp
qed

lemma work_log:
  assumes inv: "par_inv es V D s" and l: "log_inv g0 es V D s" and i: "i < length (p_workers s)" and a: "p_workers s ! i = Busy n ph"
    and D': "D \<subseteq> D'" "ph = AtStore \<longrightarrow> n \<in> D'" "(\<forall>c ts el u. ph \<noteq> InCondition c ts el u) \<longrightarrow> D' \<subseteq> insert n D"
    and post: "\<not> is_pre ph \<longrightarrow> n \<in> D" and call: "ph = AtStart \<or> ph = AtCall \<longrightarrow> D' = D" and nV: "n \<in> V"
  shows "log_inv g0 es V D' (work b i n ph s)"
proof -
  let ?ws = "p_workers s" and ?g = "begin_execute b (p_engine s)" and ?run = "\<lambda>n. run_fn (executeFn (nodes g0 n))"
  note d = log_invD [OF l]
  obtain r g' where st: "exec_step n ph ?g = (r, g')" by fastforce
  define a' where "a' = (case r of None \<Rightarrow> Idle | Some ph \<Rightarrow> Busy n ph)"
  have w: "p_workers (work b i n ph s) = ?ws[i := a']" "p_engine (work b i n ph s) = g'"
    "p_log (work b i n ph s) = (if ph = AtCall then p_log s @ [n] else p_log s)"
    using st by (simp_all add: work_def a'_def)
  note mem = mem_update [OF i, of _ a'] and old = mem_split [OF i, unfolded a]
  have me: "Busy n ph \<in> set ?ws" using nth_mem [OF i] a by simp
  have g0: "node_type (nodes ?g v) = node_type (nodes g0 v)" "executeFn (nodes ?g v) = executeFn (nodes g0 v)" for v
    using d(6) by (simp_all add: same_types_def)
  have ty: "same_types g0 g' \<and> user g' = fold ?run (p_log (work b i n ph s)) (user g0)"
  proof (cases "ph = AtCall")
    case True
    then have "g' = run_callable n ?g" using st by simp
    then have "same_types ?g g'" "user g' = ?run n (user ?g)"
      using run_callable_types [of ?g n] g0(2) by (auto simp: run_callable_def run_fn_def split: task_fn.split prod.split)
    then show ?thesis using d(6,7) True w(3) by (simp add: same_types_def begin_execute_def)
  next
    case False
    then have "quiet ?g g'" by (rule exec_step_quiet [OF st])
    then show ?thesis using d(6,7) False w(3) by (simp add: quiet_defs begin_execute_def)
  qed
  have store: "Busy m AtStore = a' \<longleftrightarrow> m = n \<and> ph = AtCall" for m
    using st by (cases ph) (auto simp: a'_def Let_def split: option.splits if_splits prod.splits list.splits elim: exec_step.elims)
  have free: "Busy m (InCondition c ts el u) \<noteq> a'" if nc: "\<forall>v \<in> V. node_type (nodes g0 v) \<noteq> Condition" for m c ts el u
  proof
    assume "Busy m (InCondition c ts el u) = a'"
    then have "exec_step n ph ?g = (Some (InCondition c ts el u), g')" using st by (auto simp: a'_def split: option.splits)
    from exec_step_condition [OF this] obtain c' ts' el' u' where "ph = InCondition c' ts' el' u'"
      using nc nV g0(1) by auto
    then show False using me d(8) [OF nc] by blast
  qed
  have log: "distinct (p_log (work b i n ph s)) \<and> log_ordered (\<lambda>v. targets (es v)) V (p_log (work b i n ph s))
    \<and> (\<forall>m \<in> set (p_log (work b i n ph s)). \<forall>v \<in> V. m \<in> set (targets (es v)) \<longrightarrow> v \<in> D')"
  proof (cases "ph = AtCall")
    case True
    note bc = before_call [OF inv l i a [unfolded True]]
    have pr: "v \<in> D" if "m \<in> set (p_log s @ [n])" "v \<in> V" "m \<in> set (targets (es v))" for m v
      using that bc(3) d(4) by auto
    then show ?thesis using True bc(1,2) d(1) log_ordered_snoc [OF d(5) _ pr, of n] D'(1) w(3) by auto
  next
    case False
    then show ?thesis using d(1,4,5) D'(1) w(3) by (simp, blast)
  qed
  show ?thesis
    unfolding log_inv_def w(1,2)
  proof (intro conjI impI allI ballI)
    show "distinct (p_log (work b i n ph s))" "log_ordered (\<lambda>v. targets (es v)) V (p_log (work b i n ph s))" using log by blast+
    show "m \<in> D' \<or> Busy m AtStore \<in> set (?ws[i := a'])" if "m \<in> set (p_log (work b i n ph s))" for m
      using that d(2) [of m] D'(1,2) unfolding mem store old [of "Busy m AtStore"] w(3) by (auto split: if_splits)
    show "m \<in> set (p_log (work b i n ph s))" if "Busy m AtStore \<in> set (?ws[i := a'])" for m
      using that d(3) [of m] unfolding mem store old [of "Busy m AtStore"] w(3) by auto
    show "v \<in> D'" if "m \<in> set (p_log (work b i n ph s))" "v \<in> V" "m \<in> set (targets (es v))" for m v using log that by blast
    show "same_types g0 g'" "user g' = fold ?run (p_log (work b i n ph s)) (user g0)" using ty by blast+
  next
    assume nc: "\<forall>v \<in> V. node_type (nodes g0 v) \<noteq> Condition"
    note nc' = d(8) [OF nc]
    show "Busy m (InCondition c ts el u) \<notin> set (?ws[i := a'])" for m c ts el u
      using nc' free [OF nc, of m c ts el u] nth_mem unfolding mem by metis
    have "D' \<subseteq> insert n D" using D'(3) nc' old by blast
    moreover have "n \<in> set (p_log (work b i n ph s))" if "\<not> D' \<subseteq> D"
    proof -
      have "ph = AtStore \<or> \<not> is_pre ph" using that call by (cases ph) auto
      then show ?thesis using d(3) [of n] old post nc' w(3) by auto
    qed
    moreover have "D \<subseteq> set (p_log (work b i n ph s))" using nc' w(3) by auto
    ultimately show "D' \<subseteq> set (p_log (work b i n ph s))" by blast
  qed
qed

section \<open>Executions\<close>

text \<open>What holds after \<open>m\<close> steps: the two invariants, and the bound on the steps taken and to be taken.\<close>

definition par_ok :: "'u engine \<Rightarrow> nat \<Rightarrow> node_id set \<Rightarrow> 'u par_state \<Rightarrow> bool" where
  "par_ok g m D s \<longleftrightarrow>
     par_inv (graph_edges g) (graph_nodes g) D s \<and> log_inv g (graph_edges g) (graph_nodes g) D s
     \<and> m + par_measure (graph_edges g) (graph_nodes g) D s \<le> steps_of (graph_edges g) (graph_nodes g)"

lemma replicate_idle: "gather f (replicate k Idle) = {#}" if "f Idle = []" "sum_list (map (weight es) (replicate k Idle)) = 0" for f
  using that by (induction k) (simp_all add: gather_def)

lemma idle_weight: "sum_list (map (weight es) (replicate k Idle)) = 0"
  by (induction k) simp_all

lemma par_start_ok:
  assumes "dag_ok g"
  shows "par_ok g 0 {} (par_start k now g)"
proof -
  let ?es = "graph_edges g" and ?V = "graph_nodes g" and ?h = "prepareRun now g"
  have g: "gather pre_of (replicate k Idle) = {#}" "gather post_of (replicate k Idle) = {#}" "gather (todo_of es) (replicate k Idle) = {#}" for es
    by (simp_all add: replicate_idle idle_weight)
  have m: "masked {} h = h" for h :: "'a engine" by (simp add: masked_def)
  have "run_inv ?es ?V ({#} + released ?h) 0 {} [] (begin_execute False ?h)"
    by (rule run_inv_shift(1) [OF prepareRun_inv [OF assms]])
  then have "core ?es ?V (released ?h) {#} 0 {} {#} (begin_execute False ?h)"
    unfolding core_def by (intro exI [of _ "[]"]) (simp add: m)
  then have "par_inv ?es ?V {} (par_start k now g)" by (simp add: par_inv_def par_start_def Let_def g activity_ok_def)
  moreover have "log_inv g ?es ?V {} (par_start k now g)"
    using prepareRun_types [OF assms, of now] by (simp add: log_inv_def par_start_def Let_def log_ordered_def)
  ultimately show ?thesis by (simp add: par_ok_def par_measure_def par_start_def Let_def g idle_weight)
qed

lemma par_step_ok:
  assumes ok: "par_ok g m D s" and st: "par_step s s'"
  shows "\<exists>D'. par_ok g (Suc m) D' s' \<and> D \<subseteq> D'"
  using st
proof cases
  case (step_take i n)
  then show ?thesis
    using take_task_inv [of _ _ D s i n] take_task_log [of g _ _ D s i n] ok unfolding par_ok_def
    by (intro exI [of _ D]) fastforce
next
  case (step_work i n ph b)
  let ?es = "graph_edges g" and ?V = "graph_nodes g"
  have inv: "par_inv ?es ?V D s" and l: "log_inv g ?es ?V D s" using ok by (simp_all add: par_ok_def)
  obtain D' where D': "par_inv ?es ?V D' s'" "par_measure ?es ?V D' s' < par_measure ?es ?V D s" "D \<subseteq> D'"
      "ph = AtStore \<longrightarrow> n \<in> D'" "(\<forall>c ts el u. ph \<noteq> InCondition c ts el u) \<longrightarrow> D' \<subseteq> insert n D" "ph = AtStart \<or> ph = AtCall \<longrightarrow> D' = D"
    using work_inv [OF inv step_work(2,3), of b] step_work(1) by blast
  have c: "core ?es ?V (p_ready s) (gather pre_of (p_workers s)) (size (gather post_of (p_workers s))) D
      (gather (todo_of ?es) (p_workers s)) (begin_execute False (p_engine s))" and post: "set_mset (gather post_of (p_workers s)) \<subseteq> D"
    using inv by (simp_all add: par_inv_def Let_def)
  note f = core_facts [OF c begin_released]
  have me: "Busy n ph \<in> set (p_workers s)" using nth_mem [OF step_work(2)] step_work(3) by simp
  have pre: "n \<in># gather pre_of (p_workers s)" if "is_pre ph" using gather_mem [OF me, of n pre_of] that by simp
  have nD: "\<not> is_pre ph \<longrightarrow> n \<in> D" using gather_mem [OF me, of n post_of] post by auto
  then have "n \<in> ?V" using pre f(3) f(6) [of n] by (cases "is_pre ph") auto
  from work_log [OF inv l step_work(2,3) D'(3-5) nD D'(6) this, of b]
  have "log_inv g ?es ?V D' s'" using step_work(1) by simp
  then show ?thesis using D'(1-3) ok by (intro exI [of _ D']) (auto simp: par_ok_def)
qed

lemma par_steps_ok:
  assumes "par_steps s0 m s" and "par_ok g 0 D0 s0"
  shows "\<exists>D. par_ok g m D s"
  using assms
proof (induction rule: par_steps.induct)
  case (par_next s k s1 s2)
  then show ?case using par_step_ok by metis
qed blast

lemma par_workers:
  assumes "par_steps s0 m s"
  shows "length (p_workers s) = length (p_workers s0)"
  using assms
proof (induction rule: par_steps.induct)
  case (par_next s k s1 s2)
  from par_next.hyps(2) have "length (p_workers s2) = length (p_workers s1)"
    by cases (simp_all add: take_task_def work_def split: prod.split)
  then show ?case using par_next.IH by simp
qed simp

text \<open>When no worker can move, everything is settled; and \<open>isCompleted\<close> says exactly that.\<close>

lemma stuck_idle:
  assumes "\<nexists>s'. par_step s s'" and "0 < length (p_workers s)"
  shows "p_ready s = {#}" and "\<forall>a \<in> set (p_workers s). a = Idle"
proof -
  have idle: "p_workers s ! i = Idle" if "i < length (p_workers s)" for i
    using assms(1) step_work [OF that] by (metis activity.exhaust)
  then show "\<forall>a \<in> set (p_workers s). a = Idle" by (metis in_set_conv_nth)
  show "p_ready s = {#}" using assms(1) step_take [OF assms(2) idle [OF assms(2)]] by (metis multiset_nonemptyE)
qed

lemma gather_idle: "\<forall>a \<in> set ws. a = Idle \<Longrightarrow> gather pre_of ws = {#} \<and> gather post_of ws = {#} \<and> gather (todo_of es) ws = {#}"
  by (induction ws) (auto simp: gather_def)

lemma idle_iff: "gather pre_of ws + gather post_of ws = {#} \<longleftrightarrow> (\<forall>a \<in> set ws. a = Idle)"
proof (induction ws)
  case (Cons a ws)
  then show ?case by (cases a) (auto simp: gather_def)
qed (simp add: gather_def)

lemma par_completed:
  assumes ok: "par_ok g m D s" and dag: "dag_ok g"
  shows "isCompleted (p_engine s) \<longleftrightarrow> p_ready s = {#} \<and> (\<forall>a \<in> set (p_workers s). a = Idle)"
    and "isCompleted (p_engine s) \<longleftrightarrow> D = graph_nodes g \<and> gather post_of (p_workers s) = {#}"
proof -
  let ?es = "graph_edges g" and ?V = "graph_nodes g" and ?ws = "p_workers s"
  have c: "core ?es ?V (p_ready s) (gather pre_of ?ws) (size (gather post_of ?ws)) D (gather (todo_of ?es) ?ws) (begin_execute False (p_engine s))"
    and once: "\<forall>n. count (gather post_of ?ws) n \<le> 1" and post: "set_mset (gather post_of ?ws) \<subseteq> D"
    using ok by (simp_all add: par_ok_def par_inv_def Let_def)
  note f = core_facts [OF c begin_released]
  have "gather post_of ?ws \<subseteq># mset_set D"
    using once post f(1,3) finite_subset [OF f(3,1)] by (auto simp: subseteq_mset_def count_mset_set' not_in_iff subset_iff)
  then have "size (gather post_of ?ws) \<le> card D" using size_mset_mono by fastforce
  moreover have "card ?V < 2 ^ 32" using dag distinct_card [of "m_nodeList g"] by (simp add: dag_ok_def)
  moreover have "card (?V - D) + card D = card ?V" using f(1,3) by (metis card_Diff_subset card_mono finite_subset le_add_diff_inverse2)
  ultimately have "card (?V - D) + size (gather post_of ?ws) < 2 ^ 32" by linarith
  then have "isCompleted (p_engine s) \<longleftrightarrow> card (?V - D) + size (gather post_of ?ws) = 0"
    using f(11) of_nat_u32_zero [of "card (?V - D) + size (gather post_of ?ws)"] by (simp add: isCompleted_def begin_execute_def)
  then show 2: "isCompleted (p_engine s) \<longleftrightarrow> D = ?V \<and> gather post_of ?ws = {#}" using f(1,3) by auto
  obtain rank :: "node_id \<Rightarrow> nat" where rank: "\<forall>v \<in> ?V. \<forall>t \<in> set (targets (?es v)). rank v < rank t"
    using dag by (auto simp: dag_ok_def)
  have "D = ?V" if "p_ready s = {#}" "\<forall>a \<in> set ?ws. a = Idle"
  proof -
    have "core ?es ?V {#} {#} 0 D {#} (begin_execute False (p_engine s))" using c that gather_idle [OF that(2)] by simp
    then have "run_inv ?es ?V {#} 0 D [] (masked {} (begin_execute False (p_engine s)))" using coreE [of ?es ?V "{#}" "{#}" 0 D "{#}" _ "[]"] by simp
    from quiescent_settled [OF this _ rank] show ?thesis by simp
  qed
  moreover have "p_ready s = {#} \<and> gather pre_of ?ws = {#}" if "D = ?V"
  proof -
    have "n \<notin># p_ready s + gather pre_of ?ws" for n using f(6) [of n] that by auto
    then show ?thesis by (metis multiset_nonemptyE union_eq_empty)
  qed
  ultimately show "isCompleted (p_engine s) \<longleftrightarrow> p_ready s = {#} \<and> (\<forall>a \<in> set ?ws. a = Idle)"
    using 2 gather_idle [of ?ws] idle_iff [of ?ws] by auto
qed

lemma par_run_serial:
  assumes "dag_ok g" and "par_steps (par_start k now g) m s"
  shows "distinct (p_log s) \<and> user (p_engine s) = fold (\<lambda>n. run_fn (executeFn (nodes g n))) (p_log s) (user g)
    \<and> log_ordered (\<lambda>v. targets (graph_edges g v)) (graph_nodes g) (p_log s)
    \<and> (\<forall>i n. i < length (p_workers s) \<and> p_workers s ! i = Busy n AtCall \<longrightarrow>
         n \<in> graph_nodes g \<and> n \<notin> set (p_log s)
         \<and> (\<forall>v \<in> graph_nodes g. n \<in> set (targets (graph_edges g v)) \<longrightarrow>
              node_state (nodes (p_engine s) v) = Completed \<or> node_state (nodes (p_engine s) v) = Skipped))
    \<and> (isCompleted (p_engine s) \<longrightarrow>
         (\<forall>v \<in> graph_nodes g. node_state (nodes (p_engine s) v) = Completed \<or> node_state (nodes (p_engine s) v) = Skipped)
         \<and> ((\<forall>v \<in> graph_nodes g. node_type (nodes g v) \<noteq> Condition) \<longrightarrow> set (p_log s) = graph_nodes g))"
proof -
  let ?es = "graph_edges g" and ?V = "graph_nodes g"
  obtain D where ok: "par_ok g m D s" using par_steps_ok [OF assms(2) par_start_ok [OF assms(1)]] by blast
  then have inv: "par_inv ?es ?V D s" and l: "log_inv g ?es ?V D s" by (simp_all add: par_ok_def)
  have c: "core ?es ?V (p_ready s) (gather pre_of (p_workers s)) (size (gather post_of (p_workers s))) D
      (gather (todo_of ?es) (p_workers s)) (begin_execute False (p_engine s))"
    using inv by (simp add: par_inv_def Let_def)
  have settled: "node_state (nodes (p_engine s) v) = Completed \<or> node_state (nodes (p_engine s) v) = Skipped" if "v \<in> D" for v
    using core_facts(10) [OF c begin_released that] by simp
  note bc = before_call [OF inv l] and d = log_invD [OF l]
  have "set (p_log s) = ?V" if fin: "D = ?V" "gather post_of (p_workers s) = {#}" and nc: "\<forall>v \<in> ?V. node_type (nodes g v) \<noteq> Condition"
  proof -
    have "m \<in> D" if "m \<in> set (p_log s)" for m
    proof (rule ccontr)
      assume "m \<notin> D"
      then have "Busy m AtStore \<in> set (p_workers s)" using d(2) [OF that] by blast
      then have "m \<in># gather pre_of (p_workers s)" using gather_mem [of "Busy m AtStore" _ m pre_of] by simp
      then show False using core_facts(6) [OF c begin_released, of m] fin(1) by simp
    qed
    then show ?thesis using d(8) [OF nc] fin(1) by blast
  qed
  then show ?thesis using d(1,5,7) bc settled par_completed(2) [OF ok assms(1)] by blast
qed

lemma par_run_terminates:
  assumes "dag_ok g" and "0 < k" and "par_steps (par_start k now g) m s"
  shows "m \<le> 7 * length (m_nodeList g) + 2 * edge_count (graph_edges g) (graph_nodes g)
    \<and> (isCompleted (p_engine s) \<longleftrightarrow> \<not> (\<exists>s'. par_step s s'))
    \<and> (isCompleted (p_engine s) \<longleftrightarrow> p_ready s = {#} \<and> (\<forall>a \<in> set (p_workers s). a = Idle))"
proof -
  obtain D where ok: "par_ok g m D s" using par_steps_ok [OF assms(3) par_start_ok [OF assms(1)]] by blast
  note fin = par_completed(1) [OF ok assms(1)]
  have len: "0 < length (p_workers s)" using par_workers [OF assms(3)] assms(2) by (simp add: par_start_def Let_def)
  have "\<not> par_step s s'" if "p_ready s = {#}" "\<forall>a \<in> set (p_workers s). a = Idle" for s'
  proof
    assume "par_step s s'"
    then show False using that nth_mem by cases force+
  qed
  then have "isCompleted (p_engine s) \<longleftrightarrow> \<not> (\<exists>s'. par_step s s')" using stuck_idle [OF _ len] fin by blast
  moreover have "steps_of (graph_edges g) (graph_nodes g) = 7 * length (m_nodeList g) + 2 * edge_count (graph_edges g) (graph_nodes g)"
    using dag_okD(1) [OF assms(1)] by (simp add: steps_of_def edge_count_def sum.distrib sum_distrib_left distinct_card)
  ultimately show ?thesis using ok fin by (simp add: par_ok_def)
qed

text \<open>So some run, of a bounded length, completes the graph.\<close>

lemma par_run_exists:
  assumes "dag_ok g" and "0 < k"
  shows "\<exists>m s. par_steps (par_start k now g) m s \<and> isCompleted (p_engine s)"
proof (rule ccontr)
  let ?s0 = "par_start k now g"
  assume no: "\<nexists>m s. par_steps ?s0 m s \<and> isCompleted (p_engine s)"
  have "\<exists>s. par_steps ?s0 m s" for m
  proof (induction m)
    case 0
    then show ?case using par_refl by blast
  next
    case (Suc m)
    then obtain s where s: "par_steps ?s0 m s" by blast
    then show ?case using no par_run_terminates [OF assms s] par_next [OF s] by blast
  qed
  then show False using par_run_terminates [OF assms] by (metis not_less_eq_eq)
qed

section \<open>Properties\<close>

text \<open>
  C13: in any interleaving of any number of workers inside \<open>execute\<close>, at any time: no callable has been
  called twice; the program state is what the callables give when called one after the other in the
  order of the calls; a node was called only after its predecessors; a worker about to call a callable
  finds it not yet called and all predecessors of its node settled; and when \<open>isCompleted\<close> holds
  every node is settled and, if there are no conditions, every callable has been called.
\<close>

theorem concurrent_run_serial:
  assumes "dag_ok g" and "par_steps (par_start k now g) m s"
  shows "distinct (p_log s) \<and> user (p_engine s) = fold (\<lambda>n. run_fn (executeFn (nodes g n))) (p_log s) (user g)
    \<and> log_ordered (\<lambda>v. targets (graph_edges g v)) (graph_nodes g) (p_log s)
    \<and> (\<forall>i n. i < length (p_workers s) \<and> p_workers s ! i = Busy n AtCall \<longrightarrow>
         n \<in> graph_nodes g \<and> n \<notin> set (p_log s)
         \<and> (\<forall>v \<in> graph_nodes g. n \<in> set (targets (graph_edges g v)) \<longrightarrow>
              node_state (nodes (p_engine s) v) = Completed \<or> node_state (nodes (p_engine s) v) = Skipped))
    \<and> (isCompleted (p_engine s) \<longrightarrow>
         (\<forall>v \<in> graph_nodes g. node_state (nodes (p_engine s) v) = Completed \<or> node_state (nodes (p_engine s) v) = Skipped)
         \<and> ((\<forall>v \<in> graph_nodes g. node_type (nodes g v) \<noteq> Condition) \<longrightarrow> set (p_log s) = graph_nodes g))"
  by (rule par_run_serial [OF assms])

theorem concurrent_run_serial_witness:
  "\<exists>s. par_steps (par_start 2 0 demo_graph) 3 s \<and> p_log s = [0] \<and> user (p_engine s) = [0]"
proof -
  let ?s0 = "par_start 2 0 demo_graph"
  let ?s1 = "take_task 0 0 ?s0"
  let ?s2 = "work False 0 0 AtStart ?s1"
  let ?s3 = "work False 0 0 AtCall ?s2"
  have "p_ready ?s0 = {#0#}" using demo_roots by (simp add: par_start_def Let_def)
  moreover have ws: "p_workers ?s0 = [Idle, Idle]" "p_workers ?s1 = [Busy 0 AtStart, Idle]" "p_workers ?s2 = [Busy 0 AtCall, Idle]"
    by (simp_all add: par_start_def take_task_def work_def Let_def numeral_2_eq_2)
  ultimately have "par_step ?s0 ?s1" "par_step ?s1 ?s2" "par_step ?s2 ?s3"
    by (auto intro: step_take step_work)
  then have steps: "par_steps ?s0 3 ?s3" by (metis numeral_3_eq_3 par_refl par_next)
  have log: "p_log ?s3 = [0]" by (simp add: work_def take_task_def par_start_def Let_def split: prod.split)
  have "user demo_graph = []" "run_fn (executeFn (nodes demo_graph 0)) [] = [0]"
    by (simp_all add: demo_graph_defs run_fn_def)
  then have "user (p_engine ?s3) = [0]" using concurrent_run_serial [OF demo_dag_ok steps] log by simp
  then show ?thesis using steps log by blast
qed

text \<open>
  C14: every interleaving of one or more workers ends, within seven steps per node and two per edge;
  it cannot stop before the graph is complete; and \<open>isCompleted\<close> holds exactly when nothing is
  scheduled and no worker is inside \<open>execute\<close>.
\<close>

theorem concurrent_run_terminates:
  assumes "dag_ok g" and "0 < k" and "par_steps (par_start k now g) m s"
  shows "m \<le> 7 * length (m_nodeList g) + 2 * edge_count (graph_edges g) (graph_nodes g)
    \<and> (isCompleted (p_engine s) \<longleftrightarrow> \<not> (\<exists>s'. par_step s s'))
    \<and> (isCompleted (p_engine s) \<longleftrightarrow> p_ready s = {#} \<and> (\<forall>a \<in> set (p_workers s). a = Idle))"
  by (rule par_run_terminates [OF assms])

theorem concurrent_run_terminates_witness:
  "\<exists>s'. par_step (par_start 2 0 demo_graph) s'"
proof -
  have "p_ready (par_start 2 0 demo_graph) = {#0#}" using demo_roots by (simp add: par_start_def Let_def)
  then show ?thesis using concurrent_run_terminates [OF demo_dag_ok _ par_refl, of 2 0] by auto
qed

end
