(* ===== verification/Concurrent_Deque.thy ===== *)
theory Concurrent_Deque
  imports Chase_Lev
begin

text \<open>
  The work-stealing deque of \<^verbatim>\<open>chase_lev_deque.cpp\<close> under every interleaving of its atomic
  accesses. The owner and each thief carry a program counter that names the next atomic access
  and holds the local variables \<open>b\<close>, \<open>t\<close>, \<open>buf\<close> and \<open>task\<close> the code has read so far; one event
  performs one access. The accesses of different threads interleave in one total order, so
  the weaker memory orders of the code are not distinguished. Ring buffers live in a heap and
  a thief keeps the pointer it loaded, so it may read a buffer that the owner has since retired.
  The two ghost lists record which tasks were published and which were returned to a caller.
\<close>

section \<open>Program counters and state\<close>

text \<open>
  \<open>pushBottom\<close> and \<open>popBottom\<close>, by the access they perform next. \<open>Push_grow\<close> stands for the
  call of \<open>grow\<close>: the slots it reads are written by the owner alone and the buffer it fills is
  not visible before its last access, the store of \<open>m_buffer\<close>.
\<close>

datatype owner_pc =
    Owner_idle
  | Push_bottom node_id
  | Push_top node_id u32
  | Push_buffer node_id u32 u32
  | Push_fix node_id u32 nat
  | Push_grow node_id u32 u32
  | Push_store node_id u32 nat
  | Push_publish node_id u32
  | Pop_bottom
  | Pop_buffer u32
  | Pop_check u32 nat
  | Pop_store u32 nat
  | Pop_top u32 nat
  | Pop_load u32 nat u32
  | Pop_cas u32 node_ptr
  | Pop_restore u32 node_ptr

text \<open>
  \<open>stealTop\<close> and \<open>stealBatch\<close>. The last argument of \<open>Batch_copy\<close> is the part of the
  destination span that has been written.
\<close>

datatype thief_pc =
    Thief_idle
  | Steal_top
  | Steal_bottom u32
  | Steal_buffer u32
  | Steal_load u32 nat
  | Steal_cas u32 node_ptr
  | Batch_top usize
  | Batch_bottom usize u32
  | Batch_buffer u32 u32
  | Batch_cas u32 u32 nat
  | Batch_recheck u32 u32 nat
  | Batch_lower u32 u32 nat
  | Batch_copy u32 u32 nat "node_ptr list"

record conc_deque =
  c_top :: u32
  c_bottom :: u32
  c_buffer :: nat
  c_garbage :: "nat list"
  c_heap :: "ring_buffer list"
  c_owner :: owner_pc
  c_thief :: "nat \<Rightarrow> thief_pc"
  c_pushed :: "node_id list"
  c_taken :: "node_id list"

definition conc_new :: "usize \<Rightarrow> conc_deque" where
  "conc_new initialCapacity =
     \<lparr>c_top = 0, c_bottom = 0, c_buffer = 0, c_garbage = [],
      c_heap = [RingBuffer_new (of_nat (bit_ceil (max (unat initialCapacity) 16)))],
      c_owner = Owner_idle, c_thief = (\<lambda>_. Thief_idle), c_pushed = [], c_taken = []\<rparr>"

section \<open>The accesses of the owner\<close>

text \<open>The tasks a returned pointer or span hands to its caller.\<close>

definition handed :: "node_ptr list \<Rightarrow> node_id list" where
  "handed xs = map the (filter (\<lambda>x. x \<noteq> None) xs)"

text \<open>The test \<open>b - t >= capacity\<close> of \<open>pushBottom\<close>.\<close>

definition push_test :: "node_id \<Rightarrow> u32 \<Rightarrow> u32 \<Rightarrow> nat \<Rightarrow> conc_deque \<Rightarrow> owner_pc" where
  "push_test x b t buf s =
     (if ucast (m_capacity (c_heap s ! buf)) \<le> b - t then Push_grow x b t else Push_store x b buf)"

fun owner_access :: "owner_pc \<Rightarrow> conc_deque \<Rightarrow> conc_deque" where
  "owner_access Owner_idle s = s"
| "owner_access (Push_bottom x) s = s\<lparr>c_owner := Push_top x (c_bottom s)\<rparr>"
| "owner_access (Push_top x b) s = s\<lparr>c_owner := Push_buffer x b (c_top s)\<rparr>"
| "owner_access (Push_buffer x b t) s =
     s\<lparr>c_owner := (if b < t then Push_fix x t (c_buffer s) else push_test x b t (c_buffer s) s)\<rparr>"
| "owner_access (Push_fix x t buf) s = s\<lparr>c_bottom := t, c_owner := push_test x t t buf s\<rparr>"
| "owner_access (Push_grow x b t) s =
     (if b \<le> t then s\<lparr>c_owner := Push_store x b (c_buffer s)\<rparr>
      else s\<lparr>c_heap := c_heap s @ [rb_grow t b (c_heap s ! c_buffer s)],
             c_garbage := c_buffer s # c_garbage s,
             c_buffer := length (c_heap s),
             c_owner := Push_store x b (length (c_heap s))\<rparr>)"
| "owner_access (Push_store x b buf) s =
     s\<lparr>c_heap := (c_heap s)[buf := rb_store b (Some x) (c_heap s ! buf)], c_owner := Push_publish x b\<rparr>"
| "owner_access (Push_publish x b) s =
     s\<lparr>c_bottom := b + 1, c_owner := Owner_idle, c_pushed := c_pushed s @ [x]\<rparr>"
| "owner_access Pop_bottom s = s\<lparr>c_owner := Pop_buffer (c_bottom s)\<rparr>"
| "owner_access (Pop_buffer b) s = s\<lparr>c_owner := Pop_check b (c_buffer s)\<rparr>"
| "owner_access (Pop_check b buf) s =
     s\<lparr>c_owner := (if b \<le> c_top s then Owner_idle else Pop_store (b - 1) buf)\<rparr>"
| "owner_access (Pop_store b buf) s = s\<lparr>c_bottom := b, c_owner := Pop_top b buf\<rparr>"
| "owner_access (Pop_top b buf) s =
     s\<lparr>c_owner := (if c_top s \<le> b then Pop_load b buf (c_top s) else Pop_restore b None)\<rparr>"
| "owner_access (Pop_load b buf t) s =
     (let x = rb_load b (c_heap s ! buf)
      in if t = b then s\<lparr>c_owner := Pop_cas b x\<rparr>
         else s\<lparr>c_owner := Owner_idle, c_taken := c_taken s @ handed [x]\<rparr>)"
| "owner_access (Pop_cas b x) s =
     (if c_top s = b then s\<lparr>c_top := b + 1, c_owner := Pop_restore b x\<rparr>
      else s\<lparr>c_owner := Pop_restore b None\<rparr>)"
| "owner_access (Pop_restore b x) s =
     s\<lparr>c_bottom := b + 1, c_owner := Owner_idle, c_taken := c_taken s @ handed [x]\<rparr>"

section \<open>The accesses of a thief\<close>

definition thief_goes :: "nat \<Rightarrow> thief_pc \<Rightarrow> conc_deque \<Rightarrow> conc_deque" where
  "thief_goes i pc s = s\<lparr>c_thief := (c_thief s)(i := pc)\<rparr>"

definition thief_returns :: "nat \<Rightarrow> node_ptr list \<Rightarrow> conc_deque \<Rightarrow> conc_deque" where
  "thief_returns i xs s = s\<lparr>c_thief := (c_thief s)(i := Thief_idle), c_taken := c_taken s @ handed xs\<rparr>"

text \<open>
  The copy loop \<open>for (u32 i = 0; i < stealCount; ++i)\<close> reads one slot per access and returns
  after the last one.
\<close>

definition batch_goes :: "nat \<Rightarrow> u32 \<Rightarrow> u32 \<Rightarrow> nat \<Rightarrow> node_ptr list \<Rightarrow> conc_deque \<Rightarrow> conc_deque" where
  "batch_goes i t k buf xs s =
     (if of_nat (length xs) < k then thief_goes i (Batch_copy t k buf xs) s else thief_returns i xs s)"

fun thief_access :: "nat \<Rightarrow> thief_pc \<Rightarrow> conc_deque \<Rightarrow> conc_deque" where
  "thief_access i Thief_idle s = s"
| "thief_access i Steal_top s = thief_goes i (Steal_bottom (c_top s)) s"
| "thief_access i (Steal_bottom t) s =
     thief_goes i (if c_bottom s \<le> t then Thief_idle else Steal_buffer t) s"
| "thief_access i (Steal_buffer t) s = thief_goes i (Steal_load t (c_buffer s)) s"
| "thief_access i (Steal_load t buf) s = thief_goes i (Steal_cas t (rb_load t (c_heap s ! buf))) s"
| "thief_access i (Steal_cas t x) s =
     (if c_top s = t then thief_returns i [x] (s\<lparr>c_top := t + 1\<rparr>) else thief_goes i Thief_idle s)"
| "thief_access i (Batch_top n) s = thief_goes i (Batch_bottom n (c_top s)) s"
| "thief_access i (Batch_bottom n t) s =
     (let b = c_bottom s
      in if b \<le> t then thief_goes i Thief_idle s
         else
           let available = b - t;
               stealCount = (available + 1) div 2;
               stealCount = (if ucast n < stealCount then ucast n else stealCount)
           in thief_goes i (if stealCount = 0 then Thief_idle else Batch_buffer t stealCount) s)"
| "thief_access i (Batch_buffer t k) s = thief_goes i (Batch_cas t k (c_buffer s)) s"
| "thief_access i (Batch_cas t k buf) s =
     (if c_top s = t then thief_goes i (Batch_recheck t k buf) (s\<lparr>c_top := t + k\<rparr>)
      else thief_goes i Thief_idle s)"
| "thief_access i (Batch_recheck t k buf) s =
     (let b = c_bottom s
      in if b < t + k then thief_goes i (Batch_lower t (if t < b then b - t else 0) buf) s
         else batch_goes i t k buf [] s)"
| "thief_access i (Batch_lower t k buf) s = batch_goes i t k buf [] (s\<lparr>c_top := t + k\<rparr>)"
| "thief_access i (Batch_copy t k buf xs) s =
     batch_goes i t k buf (xs @ [rb_load (t + of_nat (length xs)) (c_heap s ! buf)]) s"

text \<open>The compare-exchange of \<open>stealBatch\<close> is the weak one, which may fail on its own.\<close>

fun thief_weak_fail :: "nat \<Rightarrow> thief_pc \<Rightarrow> conc_deque \<Rightarrow> conc_deque" where
  "thief_weak_fail i (Batch_cas t k buf) s = thief_goes i Thief_idle s"
| "thief_weak_fail i pc s = s"

section \<open>Executions\<close>

datatype deque_event =
    Call_push node_id
  | Call_pop
  | Owner_access
  | Call_steal nat
  | Call_batch nat usize
  | Thief_access nat
  | Thief_weak_fail nat

text \<open>A call that finds its thread inside another operation is no event of an execution.\<close>

fun deque_exec :: "deque_event \<Rightarrow> conc_deque \<Rightarrow> conc_deque" where
  "deque_exec (Call_push x) s = (if c_owner s = Owner_idle then s\<lparr>c_owner := Push_bottom x\<rparr> else s)"
| "deque_exec Call_pop s = (if c_owner s = Owner_idle then s\<lparr>c_owner := Pop_bottom\<rparr> else s)"
| "deque_exec Owner_access s = owner_access (c_owner s) s"
| "deque_exec (Call_steal i) s = (if c_thief s i = Thief_idle then thief_goes i Steal_top s else s)"
| "deque_exec (Call_batch i n) s =
     (if c_thief s i = Thief_idle \<and> n \<noteq> 0 then thief_goes i (Batch_top n) s else s)"
| "deque_exec (Thief_access i) s = thief_access i (c_thief s i) s"
| "deque_exec (Thief_weak_fail i) s = thief_weak_fail i (c_thief s i) s"

definition deque_run :: "deque_event list \<Rightarrow> conc_deque \<Rightarrow> conc_deque" where
  "deque_run evs s = fold deque_exec evs s"

text \<open>The deque's fields, without the program counters.\<close>

definition deque_of :: "conc_deque \<Rightarrow> chase_lev" where
  "deque_of s = \<lparr>m_top = c_top s, m_bottom = c_bottom s, m_buffer = c_heap s ! c_buffer s,
     m_garbage = map ((!) (c_heap s)) (c_garbage s)\<rparr>"


section \<open>The state of an execution without batch steals\<close>

fun is_batch :: "deque_event \<Rightarrow> bool" where
  "is_batch (Call_batch i n) = True"
| "is_batch _ = False"

fun is_push :: "deque_event \<Rightarrow> bool" where
  "is_push (Call_push x) = True"
| "is_push _ = False"

fun pushing :: "owner_pc \<Rightarrow> bool" where
  "pushing (Push_bottom x) = True"
| "pushing (Push_top x b) = True"
| "pushing (Push_buffer x b t) = True"
| "pushing (Push_fix x t buf) = True"
| "pushing (Push_grow x b t) = True"
| "pushing (Push_store x b buf) = True"
| "pushing (Push_publish x b) = True"
| "pushing _ = False"

text \<open>
  The end of the positions that still hold a task: while \<open>popBottom\<close> has lowered \<open>m_bottom\<close> but
  not yet decided whether the task at \<open>b\<close> is its own, position \<open>b\<close> still counts.
\<close>

fun task_end :: "owner_pc \<Rightarrow> u32 \<Rightarrow> nat" where
  "task_end (Pop_top b buf) bm = unat b + 1"
| "task_end (Pop_load b buf t) bm = (if t = b then unat b + 1 else unat b)"
| "task_end (Pop_cas b x) bm = unat b + 1"
| "task_end (Pop_restore b x) bm = unat b + 1"
| "task_end _ bm = unat bm"

abbreviation cur_buf :: "conc_deque \<Rightarrow> ring_buffer" where
  "cur_buf s \<equiv> c_heap s ! c_buffer s"

abbreviation cur_end :: "conc_deque \<Rightarrow> nat" where
  "cur_end s \<equiv> task_end (c_owner s) (c_bottom s)"

text \<open>The tasks in the deque, and those the owner has taken but not yet returned.\<close>

definition in_deque :: "conc_deque \<Rightarrow> node_ptr list" where
  "in_deque s = map (rb_at (cur_buf s)) [unat (c_top s)..<cur_end s]"

fun owner_hand :: "owner_pc \<Rightarrow> ring_buffer \<Rightarrow> node_ptr list" where
  "owner_hand (Pop_load b buf t) cur = (if t = b then [] else [rb_at cur (unat b)])"
| "owner_hand (Pop_restore b x) cur = (if x = None then [] else [x])"
| "owner_hand _ cur = []"

text \<open>What the owner's local variables say of the shared ones.\<close>

fun owner_ok :: "owner_pc \<Rightarrow> conc_deque \<Rightarrow> bool" where
  "owner_ok (Push_top x b) s \<longleftrightarrow> b = c_bottom s"
| "owner_ok (Push_buffer x b t) s \<longleftrightarrow> b = c_bottom s \<and> unat t \<le> unat (c_top s)
     \<and> unat b - unat t \<le> unat (m_capacity (cur_buf s))"
| "owner_ok (Push_fix x t buf) s \<longleftrightarrow> False"
| "owner_ok (Push_grow x b t) s \<longleftrightarrow> b = c_bottom s \<and> unat t \<le> unat (c_top s)
     \<and> unat b - unat t = unat (m_capacity (cur_buf s))"
| "owner_ok (Push_store x b buf) s \<longleftrightarrow> b = c_bottom s \<and> buf = c_buffer s
     \<and> unat b - unat (c_top s) < unat (m_capacity (cur_buf s))"
| "owner_ok (Push_publish x b) s \<longleftrightarrow> b = c_bottom s \<and> rb_at (cur_buf s) (unat b) = Some x
     \<and> unat b - unat (c_top s) < unat (m_capacity (cur_buf s))"
| "owner_ok (Pop_buffer b) s \<longleftrightarrow> b = c_bottom s"
| "owner_ok (Pop_check b buf) s \<longleftrightarrow> b = c_bottom s \<and> buf = c_buffer s"
| "owner_ok (Pop_store b buf) s \<longleftrightarrow> unat (c_bottom s) = unat b + 1 \<and> buf = c_buffer s"
| "owner_ok (Pop_top b buf) s \<longleftrightarrow> b = c_bottom s \<and> buf = c_buffer s"
| "owner_ok (Pop_load b buf t) s \<longleftrightarrow> b = c_bottom s \<and> buf = c_buffer s \<and> unat t \<le> unat (c_top s)"
| "owner_ok (Pop_cas b x) s \<longleftrightarrow> b = c_bottom s \<and> x = rb_at (cur_buf s) (unat b)
     \<and> unat b \<le> unat (c_top s)"
| "owner_ok (Pop_restore b x) s \<longleftrightarrow> b = c_bottom s \<and> unat (c_top s) = unat b + 1"
| "owner_ok _ s \<longleftrightarrow> True"

text \<open>
  A thief's index is never above \<open>m_top\<close>; as long as it equals \<open>m_top\<close>, the task there is still
  in the deque and the buffer the thief reads holds it.
\<close>

fun thief_ok :: "thief_pc \<Rightarrow> conc_deque \<Rightarrow> bool" where
  "thief_ok Thief_idle s \<longleftrightarrow> True"
| "thief_ok Steal_top s \<longleftrightarrow> True"
| "thief_ok (Steal_bottom t) s \<longleftrightarrow> unat t \<le> unat (c_top s)"
| "thief_ok (Steal_buffer t) s \<longleftrightarrow> unat t \<le> unat (c_top s)
     \<and> (t = c_top s \<longrightarrow> unat (c_top s) < cur_end s)"
| "thief_ok (Steal_load t buf) s \<longleftrightarrow> unat t \<le> unat (c_top s) \<and> buf < length (c_heap s)
     \<and> (t = c_top s \<longrightarrow> unat (c_top s) < cur_end s
          \<and> rb_at (c_heap s ! buf) (unat t) = rb_at (cur_buf s) (unat t))"
| "thief_ok (Steal_cas t x) s \<longleftrightarrow> unat t \<le> unat (c_top s)
     \<and> (t = c_top s \<longrightarrow> unat (c_top s) < cur_end s \<and> x = rb_at (cur_buf s) (unat t))"
| "thief_ok _ s \<longleftrightarrow> False"

text \<open>\<open>n\<close> counts the push calls so far.\<close>

definition conc_inv :: "nat \<Rightarrow> conc_deque \<Rightarrow> bool" where
  "conc_inv n s \<longleftrightarrow> c_buffer s < length (c_heap s) \<and> (\<forall>buf \<in> set (c_heap s). rb_ok buf)
     \<and> unat (c_top s) \<le> cur_end s
     \<and> cur_end s \<le> length (c_pushed s)
     \<and> cur_end s - unat (c_top s) \<le> unat (m_capacity (cur_buf s))
     \<and> length (c_pushed s) + (if pushing (c_owner s) then 1 else 0) \<le> n
     \<and> owner_ok (c_owner s) s \<and> (\<forall>i. thief_ok (c_thief s i) s)
     \<and> mset (map Some (c_pushed s))
         = mset (map Some (c_taken s)) + mset (in_deque s) + mset (owner_hand (c_owner s) (cur_buf s))"

lemma conc_invD:
  assumes "conc_inv n s"
  shows "c_buffer s < length (c_heap s)" and "rb_ok (cur_buf s)"
    and "buf < length (c_heap s) \<Longrightarrow> rb_ok (c_heap s ! buf)"
    and "unat (c_top s) \<le> cur_end s" and "cur_end s \<le> length (c_pushed s)"
    and "cur_end s - unat (c_top s) \<le> unat (m_capacity (cur_buf s))"
    and "length (c_pushed s) + (if pushing (c_owner s) then 1 else 0) \<le> n"
    and "owner_ok (c_owner s) s" and "thief_ok (c_thief s i) s"
    and "mset (map Some (c_pushed s))
         = mset (map Some (c_taken s)) + mset (in_deque s) + mset (owner_hand (c_owner s) (cur_buf s))"
  using assms by (auto simp: conc_inv_def)

text \<open>Every task still in the deque or in the owner's hand was pushed, so it is not null.\<close>

lemma conc_inv_not_null:
  assumes "conc_inv n s"
  shows "None \<notin> set (in_deque s)" and "None \<notin> set (owner_hand (c_owner s) (cur_buf s))"
proof -
  have "set_mset (mset (map Some (c_pushed s))) = set_mset (mset (map Some (c_taken s)) + mset (in_deque s)
      + mset (owner_hand (c_owner s) (cur_buf s)))"
    using conc_invD(10) [OF assms] by simp
  then have "Some ` set (c_pushed s) = Some ` set (c_taken s) \<union> set (in_deque s)
      \<union> set (owner_hand (c_owner s) (cur_buf s))"
    by (simp add: image_Un)
  then show "None \<notin> set (in_deque s)" "None \<notin> set (owner_hand (c_owner s) (cur_buf s))" by auto
qed

lemma handed_one: "x \<noteq> None \<Longrightarrow> image_mset Some (mset (handed [x])) = {#x#}" and handed_None [simp]: "handed [None] = []"
  by (auto simp: handed_def)

text \<open>
  What a step must keep for the thieves: \<open>m_top\<close> does not go down, and while it stays, so do
  the task at \<open>m_top\<close> and the slots it is read from.
\<close>

definition top_kept :: "conc_deque \<Rightarrow> conc_deque \<Rightarrow> bool" where
  "top_kept s s' \<longleftrightarrow> length (c_heap s) \<le> length (c_heap s')
     \<and> (unat (c_top s) < unat (c_top s')
        \<or> c_top s' = c_top s \<and> (unat (c_top s) < cur_end s \<longrightarrow> unat (c_top s) < cur_end s'
            \<and> rb_at (cur_buf s') (unat (c_top s)) = rb_at (cur_buf s) (unat (c_top s))
            \<and> (\<forall>buf < length (c_heap s). rb_at (c_heap s' ! buf) (unat (c_top s))
                 = rb_at (c_heap s ! buf) (unat (c_top s)))))"

lemma thief_ok_kept:
  assumes "thief_ok pc s" and "top_kept s s'"
  shows "thief_ok pc s'"
  using assms by (cases pc) (auto simp: top_kept_def)

lemma thief_ok_all_kept:
  "(\<And>i. thief_ok (c_thief s i) s) \<Longrightarrow> c_thief s' = c_thief s \<Longrightarrow> top_kept s s' \<Longrightarrow> thief_ok (c_thief s' i) s'"
  using thief_ok_kept by metis


section \<open>The owner keeps the invariant\<close>

text \<open>A step of the owner that changes neither shared variables nor the ghost lists.\<close>

lemma conc_inv_local:
  assumes inv: "conc_inv n s" and e: "task_end pc (c_bottom s) = cur_end s"
    and p: "pushing pc \<longrightarrow> pushing (c_owner s)"
    and ok: "owner_ok pc (s\<lparr>c_owner := pc\<rparr>)"
    and h: "owner_hand pc (cur_buf s) = owner_hand (c_owner s) (cur_buf s)"
  shows "conc_inv n (s\<lparr>c_owner := pc\<rparr>)"
proof -
  define s' where "s' = s\<lparr>c_owner := pc\<rparr>"
  have eqs: "c_heap s' = c_heap s" "c_buffer s' = c_buffer s" "c_top s' = c_top s"
    "c_pushed s' = c_pushed s" "c_taken s' = c_taken s" "c_thief s' = c_thief s" "c_owner s' = pc"
    "c_bottom s' = c_bottom s"
    by (simp_all add: s'_def)
  have "in_deque s' = in_deque s" by (simp add: in_deque_def eqs e)
  moreover have "top_kept s s'" by (simp add: top_kept_def eqs e)
  then have "thief_ok (c_thief s' i) s'" for i
    using thief_ok_all_kept [OF conc_invD(9) [OF inv]] eqs by blast
  moreover have "owner_ok pc s'" using ok by (simp add: s'_def)
  ultimately have "conc_inv n s'"
    using inv p h unfolding conc_inv_def by (auto simp: eqs e split: if_splits)
  then show ?thesis by (simp add: s'_def)
qed

lemma owner_local_ok:
  assumes inv: "conc_inv n s" and n: "n < 2 ^ 31"
  shows "c_owner s = Push_bottom x \<Longrightarrow> conc_inv n (owner_access (Push_bottom x) s)"
    and "c_owner s = Push_top x b \<Longrightarrow> conc_inv n (owner_access (Push_top x b) s)"
    and "c_owner s = Pop_bottom \<Longrightarrow> conc_inv n (owner_access Pop_bottom s)"
    and "c_owner s = Pop_buffer b \<Longrightarrow> conc_inv n (owner_access (Pop_buffer b) s)"
  using conc_inv_local [OF inv] conc_invD(6,8) [OF inv] by auto

lemma push_buffer_ok:
  assumes inv: "conc_inv n s" and pc: "c_owner s = Push_buffer x b t"
  shows "conc_inv n (owner_access (Push_buffer x b t) s)"
proof -
  have o: "b = c_bottom s" "unat t \<le> unat (c_top s)" "unat b - unat t \<le> unat (m_capacity (cur_buf s))"
    using conc_invD(8) [OF inv] pc by auto
  have le: "unat t \<le> unat b" using conc_invD(4) [OF inv] pc o by simp
  have test: "(ucast (m_capacity (cur_buf s)) \<le> b - t) = (unat (m_capacity (cur_buf s)) \<le> unat b - unat t)"
    using capacity_u32 [OF conc_invD(2) [OF inv]] le by (simp add: word_le_nat_alt unat_sub)
  show ?thesis
  proof (cases "unat (m_capacity (cur_buf s)) \<le> unat b - unat t")
    case True
    then have "owner_access (Push_buffer x b t) s = s\<lparr>c_owner := Push_grow x b t\<rparr>"
      using le test by (simp add: push_test_def word_less_nat_alt)
    moreover have "conc_inv n (s\<lparr>c_owner := Push_grow x b t\<rparr>)"
      by (rule conc_inv_local [OF inv]) (use pc o True in auto)
    ultimately show ?thesis by simp
  next
    case False
    then have "owner_access (Push_buffer x b t) s = s\<lparr>c_owner := Push_store x b (c_buffer s)\<rparr>"
      using le test by (simp add: push_test_def word_less_nat_alt)
    moreover have "conc_inv n (s\<lparr>c_owner := Push_store x b (c_buffer s)\<rparr>)"
      by (rule conc_inv_local [OF inv]) (use pc o False in auto)
    ultimately show ?thesis by simp
  qed
qed

text \<open>Growth: the new buffer holds the same tasks, the old one stays as it was.\<close>

lemma push_grow_ok:
  assumes inv: "conc_inv n s" and n: "n < 2 ^ 31" and pc: "c_owner s = Push_grow x b t"
  shows "conc_inv n (owner_access (Push_grow x b t) s)"
proof -
  let ?cur = "cur_buf s" and ?cap = "unat (m_capacity (cur_buf s))"
  define new where "new = rb_grow t b ?cur"
  define s' where "s' = s\<lparr>c_heap := c_heap s @ [new], c_garbage := c_buffer s # c_garbage s,
    c_buffer := length (c_heap s), c_owner := Push_store x b (length (c_heap s))\<rparr>"
  have o: "b = c_bottom s" "unat t \<le> unat (c_top s)" "unat b - unat t = ?cap"
    using conc_invD(8) [OF inv] pc by auto
  have rb: "rb_ok ?cur" and len: "c_buffer s < length (c_heap s)" by (rule conc_invD [OF inv])+
  have E: "cur_end s = unat b" using pc o by simp
  have pos: "0 < ?cap" by (rule rb_cap_pos [OF rb])
  have le: "t \<le> b" "\<not> b \<le> t" using pos o(3) by (auto simp: word_le_nat_alt)
  have cap: "?cap < 2 ^ 31" using o(3) conc_invD(5,7) [OF inv] E n by simp
  note g = rb_grow_at [OF rb cap le(1) eq_refl [OF o(3)]]
  have eqs: "c_top s' = c_top s" "c_bottom s' = c_bottom s" "c_pushed s' = c_pushed s" "c_taken s' = c_taken s"
    "c_thief s' = c_thief s" "c_owner s' = Push_store x b (length (c_heap s))"
    "cur_buf s' = new" "c_heap s' = c_heap s @ [new]" "c_buffer s' = length (c_heap s)"
    by (simp_all add: s'_def)
  note b = o(1) [symmetric]
  have at: "rb_at new k = rb_at ?cur k" if "unat (c_top s) \<le> k" "k < unat b" for k
    using g(3) [of k] that o(2) by (simp add: new_def)
  have "in_deque s' = in_deque s" using at by (simp add: in_deque_def eqs pc b)
  moreover have "top_kept s s'" using at len by (auto simp: top_kept_def eqs pc b nth_append)
  then have "thief_ok (c_thief s' i) s'" for i
    using thief_ok_all_kept [OF conc_invD(9) [OF inv]] eqs by blast
  moreover have "owner_ok (c_owner s') s'"
    using o g(2) pos by (auto simp: eqs new_def)
  moreover have "\<forall>buf \<in> set (c_heap s'). rb_ok buf" using g(1) inv by (auto simp: eqs new_def conc_inv_def)
  ultimately have "conc_inv n s'"
    using inv g(2) pos unfolding conc_inv_def by (auto simp: eqs pc b new_def)
  moreover have "owner_access (Push_grow x b t) s = s'" using le by (simp add: s'_def new_def)
  ultimately show ?thesis by simp
qed

lemma push_store_ok:
  assumes inv: "conc_inv n s" and pc: "c_owner s = Push_store x b buf"
  shows "conc_inv n (owner_access (Push_store x b buf) s)"
proof -
  let ?cur = "cur_buf s" and ?cap = "unat (m_capacity (cur_buf s))"
  define s' where "s' = owner_access (Push_store x b buf) s"
  have o: "b = c_bottom s" "buf = c_buffer s" "unat b - unat (c_top s) < ?cap"
    using conc_invD(8) [OF inv] pc by auto
  have rb: "rb_ok ?cur" and len: "c_buffer s < length (c_heap s)" by (rule conc_invD [OF inv])+
  have E: "cur_end s = unat b" using pc o by simp
  have T: "unat (c_top s) \<le> unat b" using conc_invD(4) [OF inv] E by simp
  have eqs: "c_top s' = c_top s" "c_bottom s' = c_bottom s" "c_pushed s' = c_pushed s" "c_taken s' = c_taken s"
    "c_thief s' = c_thief s" "c_owner s' = Push_publish x b" "c_buffer s' = c_buffer s"
    "cur_buf s' = rb_store b (Some x) ?cur" "c_heap s' = (c_heap s)[c_buffer s := rb_store b (Some x) ?cur]"
    using o(2) len by (simp_all add: s'_def)
  note b = o(1) [symmetric]
  have at: "rb_at (rb_store b (Some x) ?cur) k = rb_at ?cur k" if "unat (c_top s) \<le> k" "k < unat b" for k
  proof -
    have lt: "unat b < k + ?cap" using that o(3) by linarith
    then have "k mod ?cap \<noteq> unat b mod ?cap"
      using window_slots_distinct [of k ?cap "unat b" k] that lt by auto
    then show ?thesis by (simp add: rb_store_at [OF rb])
  qed
  have "in_deque s' = in_deque s" using at len by (simp add: in_deque_def eqs pc b)
  moreover have "top_kept s s'" using at len by (auto simp: top_kept_def eqs pc b nth_list_update)
  then have "thief_ok (c_thief s' i) s'" for i
    using thief_ok_all_kept [OF conc_invD(9) [OF inv]] eqs by blast
  moreover have "owner_ok (c_owner s') s'"
    using o rb len by (auto simp: eqs rb_store_at)
  moreover have "\<forall>buf \<in> set (c_heap s'). rb_ok buf"
    using rb inv set_update_subset_insert by (fastforce simp: eqs conc_inv_def)
  ultimately have "conc_inv n s'"
    using inv len unfolding conc_inv_def by (auto simp: eqs pc b)
  then show ?thesis by (simp add: s'_def)
qed

text \<open>A step of the owner that leaves the buffers alone.\<close>

lemma conc_invI:
  assumes "conc_inv n s" and "c_heap s' = c_heap s" and "c_buffer s' = c_buffer s" and "c_thief s' = c_thief s"
    and "top_kept s s'" and "owner_ok (c_owner s') s'"
    and "unat (c_top s') \<le> cur_end s'" and "cur_end s' \<le> length (c_pushed s')"
    and "cur_end s' - unat (c_top s') \<le> unat (m_capacity (cur_buf s))"
    and "length (c_pushed s') + (if pushing (c_owner s') then 1 else 0) \<le> n"
    and "mset (map Some (c_pushed s'))
         = mset (map Some (c_taken s')) + mset (in_deque s') + mset (owner_hand (c_owner s') (cur_buf s))"
  shows "conc_inv n s'"
proof -
  have "thief_ok (c_thief s' i) s'" for i
    using thief_ok_all_kept [OF conc_invD(9) [OF assms(1)]] assms(4,5) by blast
  with assms show ?thesis unfolding conc_inv_def by simp
qed

lemma push_publish_ok:
  assumes inv: "conc_inv n s" and n: "n < 2 ^ 31" and pc: "c_owner s = Push_publish x b"
  shows "conc_inv n (owner_access (Push_publish x b) s)"
proof -
  have o: "b = c_bottom s" "rb_at (cur_buf s) (unat b) = Some x"
    "unat b - unat (c_top s) < unat (m_capacity (cur_buf s))"
    using conc_invD(8) [OF inv] pc by auto
  note b = o(1) [symmetric]
  have E: "unat (c_top s) \<le> unat b" "unat b \<le> length (c_pushed s)" "length (c_pushed s) + 1 \<le> n"
    using conc_invD(4,5,7) [OF inv] by (auto simp: pc b)
  then have b1: "unat (b + 1) = unat b + 1" using n by (intro unat_Suc_lt) simp
  have "in_deque (owner_access (Push_publish x b) s) = in_deque s @ [Some x]"
    using E o(2) by (simp add: in_deque_def pc b b1)
  then show ?thesis
    using E o(3) conc_invD(10) [OF inv] by (intro conc_invI [OF inv]) (simp_all add: pc b b1 top_kept_def)
qed

lemma pop_check_ok:
  assumes inv: "conc_inv n s" and pc: "c_owner s = Pop_check b buf"
  shows "conc_inv n (owner_access (Pop_check b buf) s)"
proof -
  have o: "c_bottom s = b" "c_buffer s = buf" using conc_invD(8) [OF inv] pc by auto
  have "unat b = unat (b - 1) + 1" if "\<not> b \<le> c_top s"
    using that unat_minus_one [of b] by (cases "b = 0") (auto simp: word_le_nat_alt unat_eq_zero)
  then show ?thesis using o conc_inv_local [OF inv] by (auto simp: pc)
qed

lemma pop_store_ok:
  assumes inv: "conc_inv n s" and pc: "c_owner s = Pop_store b buf"
  shows "conc_inv n (owner_access (Pop_store b buf) s)"
proof -
  have o: "unat (c_bottom s) = unat b + 1" "c_buffer s = buf" using conc_invD(8) [OF inv] pc by auto
  have i: "in_deque (owner_access (Pop_store b buf) s) = in_deque s" by (simp add: in_deque_def pc o)
  show ?thesis
    by (rule conc_invI [OF inv]) (use i conc_invD(4-7,10) [OF inv] o in \<open>simp_all add: pc top_kept_def\<close>)
qed

lemma pop_top_ok:
  assumes inv: "conc_inv n s" and pc: "c_owner s = Pop_top b buf"
  shows "conc_inv n (owner_access (Pop_top b buf) s)"
proof -
  have o: "c_bottom s = b" "c_buffer s = buf" using conc_invD(8) [OF inv] pc by auto
  have T: "unat (c_top s) \<le> unat b + 1" using conc_invD(4) [OF inv] by (simp add: pc)
  consider "b < c_top s" | "c_top s = b" | "c_top s < b" by fastforce
  then show ?thesis
  proof cases
    case 1
    then have "owner_access (Pop_top b buf) s = s\<lparr>c_owner := Pop_restore b None\<rparr>"
      by simp
    moreover have "conc_inv n (s\<lparr>c_owner := Pop_restore b None\<rparr>)"
      by (rule conc_inv_local [OF inv]) (use 1 T o in \<open>auto simp: pc word_less_nat_alt\<close>)
    ultimately show ?thesis by simp
  next
    case 2
    then show ?thesis using o conc_inv_local [OF inv] by (auto simp: pc)
  next
    case 3
    then have lt: "unat (c_top s) < unat b" and ne: "c_top s \<noteq> b" by (auto simp: word_less_nat_alt)
    have s': "owner_access (Pop_top b buf) s = s\<lparr>c_owner := Pop_load b buf (c_top s)\<rparr>" using 3 by auto
    have "in_deque s = in_deque (s\<lparr>c_owner := Pop_load b buf (c_top s)\<rparr>) @ [rb_at (cur_buf s) (unat b)]"
      using lt ne by (simp add: in_deque_def pc)
    then show ?thesis unfolding s'
      using lt ne o conc_invD(4-7,10) [OF inv]
      by (intro conc_invI [OF inv]) (simp_all add: pc top_kept_def)
  qed
qed

lemma pop_load_ok:
  assumes inv: "conc_inv n s" and pc: "c_owner s = Pop_load b buf t"
  shows "conc_inv n (owner_access (Pop_load b buf t) s)"
proof -
  have o: "c_bottom s = b" "c_buffer s = buf" using conc_invD(8) [OF inv] pc by auto
  have ld: "rb_load b (c_heap s ! buf) = rb_at (cur_buf s) (unat b)"
    using rb_load_at [OF conc_invD(2) [OF inv]] o by simp
  show ?thesis
  proof (cases "t = b")
    case True
    have "conc_inv n (s\<lparr>c_owner := Pop_cas b (rb_at (cur_buf s) (unat b))\<rparr>)"
      by (rule conc_inv_local [OF inv]) (use True o conc_invD(8) [OF inv] in \<open>auto simp: pc\<close>)
    then show ?thesis using True ld by simp
  next
    case False
    let ?x = "rb_at (cur_buf s) (unat b)"
    define s' where "s' = s\<lparr>c_owner := Owner_idle, c_taken := c_taken s @ handed [?x]\<rparr>"
    have "?x \<noteq> None" using conc_inv_not_null(2) [OF inv] False by (auto simp: pc)
    note h = handed_one [OF this]
    have "in_deque s' = in_deque s" using False o by (simp add: in_deque_def pc s'_def)
    then have "conc_inv n s'"
      using conc_invD(4-7,10) [OF inv] False o h
      by (intro conc_invI [OF inv]) (simp_all add: pc top_kept_def s'_def)
    then show ?thesis using False ld by (simp add: s'_def)
  qed
qed


lemma pop_cas_ok:
  assumes inv: "conc_inv n s" and n: "n < 2 ^ 31" and pc: "c_owner s = Pop_cas b x"
  shows "conc_inv n (owner_access (Pop_cas b x) s)"
proof -
  have o: "c_bottom s = b" "x = rb_at (cur_buf s) (unat b)" and ge: "unat b \<le> unat (c_top s)" using conc_invD(8) [OF inv] pc by auto
  have T: "unat (c_top s) \<le> unat b + 1" "unat b + 1 \<le> length (c_pushed s)"
    using conc_invD(4,5) [OF inv] by (auto simp: pc)
  show ?thesis
  proof (cases "c_top s = b")
    case False
    then have "conc_inv n (s\<lparr>c_owner := Pop_restore b None\<rparr>)"
      using T o ge by (intro conc_inv_local [OF inv]) (auto simp: pc word_unat_eq_iff)
    then show ?thesis using False by simp
  next
    case True
    have "x \<noteq> None" using conc_inv_not_null(1) [OF inv] True o by (auto simp: in_deque_def pc)
    moreover have b1: "unat (b + 1) = unat b + 1" using T n conc_invD(7) [OF inv] by (intro unat_Suc_lt) (simp add: pc)
    moreover have "in_deque s = [x]" using True o by (simp add: in_deque_def pc)
    moreover have "in_deque (owner_access (Pop_cas b x) s) = []" using True b1 by (simp add: in_deque_def pc)
    ultimately show ?thesis using True T o conc_invD(4-7,10) [OF inv]
      by (intro conc_invI [OF inv]) (simp_all add: pc top_kept_def)
  qed
qed

lemma pop_restore_ok:
  assumes inv: "conc_inv n s" and n: "n < 2 ^ 31" and pc: "c_owner s = Pop_restore b x"
  shows "conc_inv n (owner_access (Pop_restore b x) s)"
proof -
  have o: "c_bottom s = b" "unat (c_top s) = unat b + 1" using conc_invD(8) [OF inv] pc by auto
  have "unat b + 1 \<le> length (c_pushed s)" "length (c_pushed s) \<le> n"
    using conc_invD(5,7) [OF inv] by (auto simp: pc)
  then have b1: "unat (b + 1) = unat b + 1" using n by (intro unat_Suc_lt) simp
  have h: "image_mset Some (mset (handed [x])) = mset (if x = None then [] else [x])"
    using handed_one [of x] by (cases "x = None") auto
  define s' where "s' = owner_access (Pop_restore b x) s"
  have "in_deque s' = in_deque s" by (simp add: in_deque_def pc s'_def b1)
  then show ?thesis
    using conc_invD(4-7,10) [OF inv] o h
    by (intro conc_invI [OF inv]) (simp_all add: pc top_kept_def s'_def b1)
qed


lemma owner_access_ok:
  assumes inv: "conc_inv n s" and n: "n < 2 ^ 31"
  shows "conc_inv n (owner_access (c_owner s) s)"
proof (cases "c_owner s")
  case (Push_fix x t buf)
  then show ?thesis using conc_invD(8) [OF inv] by simp
next
  case Owner_idle
  then show ?thesis using inv by simp
qed (use inv n in \<open>simp only: owner_local_ok push_buffer_ok push_grow_ok push_store_ok push_publish_ok
  pop_check_ok pop_store_ok pop_top_ok pop_load_ok pop_cas_ok pop_restore_ok\<close>)+

lemma conc_inv_mono: "conc_inv n s \<Longrightarrow> n \<le> m \<Longrightarrow> conc_inv m s"
  by (auto simp: conc_inv_def)

lemma call_push_ok:
  assumes inv: "conc_inv n s" and pc: "c_owner s = Owner_idle"
  shows "conc_inv (Suc n) (s\<lparr>c_owner := Push_bottom x\<rparr>)"
proof -
  have inv': "conc_inv (Suc n) s" using inv by (rule conc_inv_mono) simp
  have d: "in_deque (s\<lparr>c_owner := Push_bottom x\<rparr>) = in_deque s" by (simp add: in_deque_def pc)
  show ?thesis
    by (rule conc_invI [OF inv']) (use conc_invD(4-7,10) [OF inv] d in \<open>simp_all add: pc top_kept_def\<close>)
qed

section \<open>The thieves keep the invariant\<close>

lemma thief_goes_proj [simp]:
  "c_top (thief_goes i pc s) = c_top s" "c_bottom (thief_goes i pc s) = c_bottom s"
  "c_buffer (thief_goes i pc s) = c_buffer s" "c_heap (thief_goes i pc s) = c_heap s"
  "c_owner (thief_goes i pc s) = c_owner s" "c_pushed (thief_goes i pc s) = c_pushed s"
  "c_taken (thief_goes i pc s) = c_taken s" "c_thief (thief_goes i pc s) = (c_thief s)(i := pc)"
  "in_deque (thief_goes i pc s) = in_deque s"
  by (simp_all add: thief_goes_def in_deque_def)

lemma thief_goes_ok:
  assumes inv: "conc_inv n s" and ok: "thief_ok pc s"
  shows "conc_inv n (thief_goes i pc s)"
proof -
  have kept: "top_kept s (thief_goes i pc s)" by (simp add: top_kept_def)
  have "thief_ok (c_thief (thief_goes i pc s) j) (thief_goes i pc s)" for j
    by (rule thief_ok_kept [OF _ kept]) (simp add: ok conc_invD(9) [OF inv])
  moreover have "owner_ok (c_owner s) (thief_goes i pc s) = owner_ok (c_owner s) s"
    by (cases "c_owner s") simp_all
  ultimately show ?thesis using inv unfolding conc_inv_def by simp
qed

text \<open>The successful compare-exchange of a thief: the first task of the deque changes hands.\<close>

lemma steal_ok:
  assumes inv: "conc_inv n s" and n: "n < 2 ^ 31" and pc: "c_thief s i = Steal_cas t x" and top: "c_top s = t"
  shows "conc_inv n (thief_returns i [x] (s\<lparr>c_top := t + 1\<rparr>))"
proof -
  define s' where "s' = thief_returns i [x] (s\<lparr>c_top := t + 1\<rparr>)"
  have th: "unat t < cur_end s" "x = rb_at (cur_buf s) (unat t)" using conc_invD(9) [OF inv, of i] pc top by auto
  have room: "cur_end s - Suc (unat t) \<le> unat (m_capacity (cur_buf s))"
    using conc_invD(6) [OF inv] unfolding top by linarith
  have "cur_end s \<le> n" using conc_invD(5,7) [OF inv] by simp
  then have t1: "unat (t + 1) = unat t + 1" using th(1) n by (intro unat_Suc_lt) simp
  have eqs: "c_top s' = t + 1" "c_bottom s' = c_bottom s" "c_buffer s' = c_buffer s" "c_heap s' = c_heap s"
    "c_owner s' = c_owner s" "c_pushed s' = c_pushed s" "c_taken s' = c_taken s @ handed [x]"
    "c_thief s' = (c_thief s)(i := Thief_idle)"
    by (simp_all add: s'_def thief_returns_def)
  have d: "in_deque s = x # in_deque s'"
    using th by (simp add: in_deque_def eqs t1 top upt_conv_Cons)
  then have "x \<noteq> None" using conc_inv_not_null(1) [OF inv] by (metis list.set_intros(1))
  note h = handed_one [OF this]
  have kept: "top_kept s s'" by (simp add: top_kept_def eqs t1 top)
  have "thief_ok (c_thief s' j) s'" for j
    by (rule thief_ok_kept [OF _ kept]) (simp add: eqs conc_invD(9) [OF inv])
  moreover have "owner_ok (c_owner s) s'"
    using conc_invD(8) [OF inv] th(1) by (cases "c_owner s") (auto simp: eqs t1 top)
  ultimately have "conc_inv n s'"
    using inv th(1) h room unfolding conc_inv_def by (simp add: eqs t1 top d)
  then show ?thesis by (simp add: s'_def)
qed

text \<open>The bottom index never exceeds the end of the tasks.\<close>

lemma bottom_le_end: "conc_inv n s \<Longrightarrow> unat (c_bottom s) \<le> cur_end s"
  using conc_invD(8) [of n s] by (cases "c_owner s") auto

lemma thief_access_ok:
  assumes inv: "conc_inv n s" and n: "n < 2 ^ 31"
  shows "conc_inv n (thief_access i (c_thief s i) s)"
proof -
  note ok = conc_invD(9) [OF inv, of i]
  note cur = conc_invD(1,2) [OF inv]
  show ?thesis
  proof (cases "c_thief s i")
    case (Steal_bottom t)
    have "thief_ok (Steal_buffer t) s" if "\<not> c_bottom s \<le> t"
      using that ok Steal_bottom bottom_le_end [OF inv] by (auto simp: word_le_nat_alt)
    then show ?thesis using Steal_bottom thief_goes_ok [OF inv] by auto
  next
    case (Steal_load t buf)
    have "thief_ok (Steal_cas t (rb_load t (c_heap s ! buf))) s"
      using ok Steal_load conc_invD(3) [OF inv, of buf] by (auto simp: rb_load_at)
    then show ?thesis using Steal_load thief_goes_ok [OF inv] by auto
  next
    case (Steal_cas t x)
    then show ?thesis using steal_ok [OF inv n] thief_goes_ok [OF inv] by auto
  qed (use inv ok cur thief_goes_ok [OF inv] in auto)
qed

lemma deque_exec_ok:
  assumes "conc_inv n s" and "\<not> is_batch e" and "n + (if is_push e then 1 else 0) < 2 ^ 31"
  shows "conc_inv (n + (if is_push e then 1 else 0)) (deque_exec e s)"
proof (cases e)
  case (Call_push x)
  then show ?thesis using assms call_push_ok [OF assms(1)] conc_inv_mono [OF assms(1)] by simp
next
  case Call_pop
  have "conc_inv n (s\<lparr>c_owner := Pop_bottom\<rparr>)" if "c_owner s = Owner_idle"
    using conc_inv_local [OF assms(1), of Pop_bottom] that by simp
  then show ?thesis using Call_pop assms by simp
next
  case (Thief_weak_fail i)
  have "\<nexists>t k buf. c_thief s i = Batch_cas t k buf" using conc_invD(9) [OF assms(1), of i] by auto
  then have "thief_weak_fail i (c_thief s i) s = s" by (cases "c_thief s i") auto
  then show ?thesis using Thief_weak_fail assms by simp
qed (use assms owner_access_ok thief_access_ok thief_goes_ok [OF assms(1), of Steal_top] in auto)

lemma deque_run_ok:
  assumes "conc_inv n s" and "\<forall>e \<in> set evs. \<not> is_batch e" and "n + length (filter is_push evs) < 2 ^ 31"
  shows "conc_inv (n + length (filter is_push evs)) (deque_run evs s)"
  using assms
proof (induction evs arbitrary: n s)
  case Nil
  then show ?case by (simp add: deque_run_def)
next
  case (Cons e evs)
  have "conc_inv (n + (if is_push e then 1 else 0)) (deque_exec e s)"
    using Cons.prems by (intro deque_exec_ok) (auto split: if_splits)
  then show ?case
    using Cons.IH [of "n + (if is_push e then 1 else 0)" "deque_exec e s"] Cons.prems
    by (auto simp: deque_run_def split: if_splits)
qed

text \<open>Every finite execution from a new deque.\<close>

lemma conc_new_ok:
  assumes "unat cap \<le> 2 ^ 31"
  shows "conc_inv 0 (conc_new cap)"
proof -
  have "rb_ok (m_buffer (ChaseLevDeque_new cap))" using ChaseLevDeque_new_ok(1) [OF assms] by (simp add: deque_ok_def)
  then show ?thesis
    by (simp add: conc_inv_def conc_new_def in_deque_def ChaseLevDeque_new_def Let_def)
qed

end
