(* ===== verification/Deque_Runs.thy ===== *)
theory Deque_Runs
  imports Concurrent_Deque
begin

text \<open>
  Executions of the work-stealing deque: every operation ends after a bounded number of its own
  accesses whatever the other threads do; an operation that runs alone is the function of the
  sequential model; without batch steals no interleaving loses or duplicates a task; with
  batch steals some do, and the executions that show it are written out.
\<close>


section \<open>Every operation ends\<close>

text \<open>How many accesses of its own an operation still needs at most.\<close>

fun owner_left :: "owner_pc \<Rightarrow> nat" where
  "owner_left Owner_idle = 0"
| "owner_left (Push_bottom x) = 7"
| "owner_left (Push_top x b) = 6"
| "owner_left (Push_buffer x b t) = 5"
| "owner_left (Push_fix x t buf) = 4"
| "owner_left (Push_grow x b t) = 3"
| "owner_left (Push_store x b buf) = 2"
| "owner_left (Push_publish x b) = 1"
| "owner_left Pop_bottom = 8"
| "owner_left (Pop_buffer b) = 7"
| "owner_left (Pop_check b buf) = 6"
| "owner_left (Pop_store b buf) = 5"
| "owner_left (Pop_top b buf) = 4"
| "owner_left (Pop_load b buf t) = 3"
| "owner_left (Pop_cas b x) = 2"
| "owner_left (Pop_restore b x) = 1"

fun thief_left :: "thief_pc \<Rightarrow> nat" where
  "thief_left Thief_idle = 0"
| "thief_left Steal_top = 5"
| "thief_left (Steal_bottom t) = 4"
| "thief_left (Steal_buffer t) = 3"
| "thief_left (Steal_load t buf) = 2"
| "thief_left (Steal_cas t x) = 1"
| "thief_left (Batch_top n) = unat n + 6"
| "thief_left (Batch_bottom n t) = unat n + 5"
| "thief_left (Batch_buffer t k) = unat k + 4"
| "thief_left (Batch_cas t k buf) = unat k + 3"
| "thief_left (Batch_recheck t k buf) = unat k + 2"
| "thief_left (Batch_lower t k buf) = unat k + 1"
| "thief_left (Batch_copy t k buf xs) = unat k - length xs"

fun owner_call :: "deque_event \<Rightarrow> bool" where
  "owner_call (Call_push x) = True"
| "owner_call Call_pop = True"
| "owner_call _ = False"

fun thief_call :: "nat \<Rightarrow> deque_event \<Rightarrow> bool" where
  "thief_call i (Call_steal j) \<longleftrightarrow> i = j"
| "thief_call i (Call_batch j n) \<longleftrightarrow> i = j"
| "thief_call i _ \<longleftrightarrow> False"

lemma fold_count_measure:
  fixes m :: "'s \<Rightarrow> nat"
  assumes "P s"
    and "\<And>e s. e \<in> set evs \<Longrightarrow> P s \<Longrightarrow> P (f e s) \<and> m (f e s) \<le> m s - (if e = a then 1 else 0)"
  shows "P (fold f evs s) \<and> m (fold f evs s) \<le> m s - count_list evs a"
  using assms
proof (induction evs arbitrary: s)
  case Nil
  then show ?case by simp
next
  case (Cons e evs)
  have e: "P (f e s)" "m (f e s) \<le> m s - (if e = a then 1 else 0)" using Cons.prems by auto
  have "P (fold f evs (f e s)) \<and> m (fold f evs (f e s)) \<le> m (f e s) - count_list evs a"
    using e(1) Cons by simp
  with e(2) show ?case by (cases "e = a") auto
qed

lemma owner_access_left: "owner_left (c_owner (owner_access (c_owner s) s)) \<le> owner_left (c_owner s) - Suc 0"
  by (cases "c_owner s") (auto simp: push_test_def Let_def)

lemma thief_owner [simp]:
  "c_owner (thief_returns i xs s) = c_owner s" "c_owner (batch_goes i t k buf xs s) = c_owner s"
  "c_owner (thief_access i pc s) = c_owner s" "c_owner (thief_weak_fail i pc s) = c_owner s"
proof -
  show r: "c_owner (thief_returns i xs s) = c_owner s" for xs s by (simp add: thief_returns_def)
  show b: "c_owner (batch_goes i t k buf xs s) = c_owner s" for t k buf xs s by (simp add: batch_goes_def r)
  show "c_owner (thief_access i pc s) = c_owner s" by (cases pc) (auto simp: r b Let_def)
  show "c_owner (thief_weak_fail i pc s) = c_owner s" by (cases pc) auto
qed

lemma deque_exec_owner_left:
  "\<not> owner_call e \<Longrightarrow>
     owner_left (c_owner (deque_exec e s)) \<le> owner_left (c_owner s) - (if e = Owner_access then 1 else 0)"
  by (cases e) (auto simp: owner_access_left)

lemma deque_run_owner_left:
  assumes "\<forall>e \<in> set evs. \<not> owner_call e"
  shows "owner_left (c_owner (deque_run evs s)) \<le> owner_left (c_owner s) - count_list evs Owner_access"
  unfolding deque_run_def
  using fold_count_measure [of "\<lambda>s. True" s evs deque_exec "\<lambda>s. owner_left (c_owner s)" Owner_access]
    assms deque_exec_owner_left by blast

text \<open>Other threads leave a thief's program counter alone.\<close>

lemma owner_access_thief: "c_thief (owner_access pc s) = c_thief s"
  by (cases pc) (auto simp: Let_def)

lemma thief_other:
  assumes "j \<noteq> i"
  shows "c_thief (thief_goes j pc s) i = c_thief s i" "c_thief (thief_returns j xs s) i = c_thief s i"
    "c_thief (batch_goes j t k buf xs s) i = c_thief s i" "c_thief (thief_access j pc s) i = c_thief s i"
    "c_thief (thief_weak_fail j pc s) i = c_thief s i"
proof -
  show g: "c_thief (thief_goes j pc s) i = c_thief s i" for pc s using assms by simp
  show r: "c_thief (thief_returns j xs s) i = c_thief s i" for xs s using assms by (simp add: thief_returns_def)
  show b: "c_thief (batch_goes j t k buf xs s) i = c_thief s i" for t k buf xs s
    by (cases "of_nat (length xs) < k") (simp_all only: batch_goes_def g r if_True if_False)
  show "c_thief (thief_access j pc s) i = c_thief s i" using assms by (cases pc) (auto simp: g r b Let_def)
  show "c_thief (thief_weak_fail j pc s) i = c_thief s i" using assms by (cases pc) auto
qed

lemma batch_goes_left:
  "thief_left (c_thief (batch_goes i t k buf xs s) i) \<le> unat k - length xs"
  by (simp add: batch_goes_def thief_returns_def)

lemma span_count_le: "unat (if ucast n < k then ucast n else k :: u32) \<le> unat (n :: usize)"
proof -
  have "unat (if ucast n < k then ucast n else k) \<le> unat (ucast n :: u32)"
    by (auto simp: word_le_nat_alt not_less)
  also have "\<dots> \<le> unat n" by (simp add: unsigned_ucast_eq take_bit_eq_mod)
  finally show ?thesis .
qed

lemma lowered_count_le:
  assumes "b < t + k" and "t < b"
  shows "unat (b - t) \<le> unat (k :: u32)"
proof -
  have "unat (t + k) \<le> unat t + unat k" by (simp add: unat_word_ariths)
  then show ?thesis using assms by (simp add: word_less_nat_alt unat_sub word_le_nat_alt)
qed

lemma thief_access_left:
  assumes "c_thief s i = pc"
  shows "thief_left (c_thief (thief_access i pc s) i) \<le> thief_left pc - 1"
proof (cases pc)
  case (Batch_bottom n t)
  then show ?thesis using span_count_le by (auto simp: Batch_bottom Let_def)
next
  case (Batch_recheck t k buf)
  have "unat (c_bottom s - t) \<le> unat k" if "c_bottom s < t + k" "t < c_bottom s"
    using that by (rule lowered_count_le)
  then show ?thesis using batch_goes_left [of i t k buf "[]" s] by (auto simp: Batch_recheck Let_def)
next
  case (Batch_lower t k buf)
  then show ?thesis using batch_goes_left [of i t k buf "[]" "s\<lparr>c_top := t + k\<rparr>"] by simp
next
  case (Batch_copy t k buf xs)
  then show ?thesis
    using batch_goes_left [of i t k buf "xs @ [rb_load (t + of_nat (length xs)) (c_heap s ! buf)]" s] by simp
qed (use assms in \<open>auto simp: thief_returns_def\<close>)

lemma deque_exec_thief_left:
  assumes "\<not> thief_call i e"
  shows "thief_left (c_thief (deque_exec e s) i)
    \<le> thief_left (c_thief s i) - (if e = Thief_access i then 1 else 0)"
proof (cases e)
  case (Thief_access j)
  then show ?thesis using thief_access_left thief_other(4) by (cases "j = i") auto
next
  case (Thief_weak_fail j)
  have "thief_left (c_thief (thief_weak_fail i (c_thief s i) s) i) \<le> thief_left (c_thief s i)"
    by (cases "c_thief s i") auto
  then show ?thesis using Thief_weak_fail thief_other(5) by (cases "j = i") auto
qed (use assms owner_access_thief in auto)

text \<open>A copy loop that is still running has slots left to copy.\<close>

fun copy_ok :: "thief_pc \<Rightarrow> bool" where
  "copy_ok (Batch_copy t k buf xs) \<longleftrightarrow> length xs < unat k"
| "copy_ok _ \<longleftrightarrow> True"

lemma batch_goes_copy_ok: "length xs \<le> unat k \<Longrightarrow> copy_ok (c_thief (batch_goes i t k buf xs s) i)"
  using unsigned_less [of k, where 'a = nat]
  by (auto simp: batch_goes_def thief_returns_def word_less_nat_alt unat_of_nat)

lemma thief_access_copy_ok:
  assumes "c_thief s i = pc" and "copy_ok pc"
  shows "copy_ok (c_thief (thief_access i pc s) i)"
  using assms batch_goes_copy_ok by (cases pc) (auto simp: thief_returns_def Let_def)

lemma deque_exec_copy_ok:
  assumes "copy_ok (c_thief s i)"
  shows "copy_ok (c_thief (deque_exec e s) i)"
proof (cases e)
  case (Thief_access j)
  then show ?thesis using assms thief_access_copy_ok thief_other(4) by (cases "j = i") auto
next
  case (Thief_weak_fail j)
  have "copy_ok (c_thief (thief_weak_fail i (c_thief s i) s) i)" using assms by (cases "c_thief s i") auto
  then show ?thesis using Thief_weak_fail assms thief_other(5) by (cases "j = i") auto
qed (use assms owner_access_thief in auto)

lemma deque_run_thief_left:
  assumes "\<forall>e \<in> set evs. \<not> thief_call i e" and "copy_ok (c_thief s i)"
  shows "copy_ok (c_thief (deque_run evs s) i)
    \<and> thief_left (c_thief (deque_run evs s) i) \<le> thief_left (c_thief s i) - count_list evs (Thief_access i)"
  unfolding deque_run_def
  using fold_count_measure [of "\<lambda>s. copy_ok (c_thief s i)" s evs deque_exec "\<lambda>s. thief_left (c_thief s i)" "Thief_access i"]
    assms deque_exec_thief_left deque_exec_copy_ok by blast

lemma thief_left_0: "copy_ok pc \<Longrightarrow> thief_left pc = 0 \<Longrightarrow> pc = Thief_idle"
  by (cases pc) auto

lemma owner_left_0: "owner_left pc = 0 \<Longrightarrow> pc = Owner_idle"
  by (cases pc) auto


section \<open>An operation that runs alone\<close>

text \<open>
  Without interference each operation is the function of the sequential model. Buffer pointers
  are valid and no retired buffer is the current one.
\<close>

definition heap_ok :: "conc_deque \<Rightarrow> bool" where
  "heap_ok s \<longleftrightarrow> c_buffer s < length (c_heap s)
     \<and> (\<forall>g \<in> set (c_garbage s). g < length (c_heap s) \<and> g \<noteq> c_buffer s)"

definition push_alone :: "node_id \<Rightarrow> deque_event list" where
  "push_alone x = Call_push x # replicate 7 Owner_access"

definition pop_alone :: "deque_event list" where
  "pop_alone = Call_pop # replicate 8 Owner_access"

definition steal_alone :: "nat \<Rightarrow> deque_event list" where
  "steal_alone i = Call_steal i # replicate 5 (Thief_access i)"

definition batch_alone :: "nat \<Rightarrow> usize \<Rightarrow> deque_event list" where
  "batch_alone i n = Call_batch i n # replicate (unat n + 6) (Thief_access i)"

lemma owner_run_Suc:
  "deque_run (replicate (Suc n) Owner_access) s = deque_run (replicate n Owner_access) (owner_access (c_owner s) s)"
  by (simp add: deque_run_def)

lemma owner_run_idle: "c_owner s = Owner_idle \<Longrightarrow> deque_run (replicate n Owner_access) s = s"
  by (induction n) (simp_all add: deque_run_def)

lemma thief_run_Suc:
  "deque_run (replicate (Suc n) (Thief_access i)) s
     = deque_run (replicate n (Thief_access i)) (thief_access i (c_thief s i) s)"
  by (simp add: deque_run_def)

lemma thief_run_idle: "c_thief s i = Thief_idle \<Longrightarrow> deque_run (replicate n (Thief_access i)) s = s"
  by (induction n) (simp_all add: deque_run_def)

lemma deque_run_append: "deque_run (xs @ ys) s = deque_run ys (deque_run xs s)"
  by (simp add: deque_run_def)

lemma deque_run_Cons: "deque_run (e # es) s = deque_run es (deque_exec e s)"
  by (simp add: deque_run_def)

lemma deque_run_Nil: "deque_run [] s = s"
  by (simp add: deque_run_def)

lemmas run_simps = deque_run_Nil deque_run_Cons numeral_eq_Suc owner_run_Suc owner_run_idle thief_run_Suc thief_run_idle

lemma push_solo:
  assumes ok: "heap_ok s" and idle: "c_owner s = Owner_idle" and s': "s' = deque_run (push_alone x) s"
  shows "deque_of s' = pushBottom (Some x) (deque_of s) \<and> c_owner s' = Owner_idle \<and> heap_ok s'
     \<and> c_pushed s' = c_pushed s @ [x] \<and> c_taken s' = c_taken s"
proof -
  have g: "c_buffer s < length (c_heap s)" "\<And>g. g \<in> set (c_garbage s) \<Longrightarrow> g < length (c_heap s) \<and> g \<noteq> c_buffer s"
    using ok by (auto simp: heap_ok_def)
  have gu: "map ((!) ((c_heap s)[c_buffer s := y])) (c_garbage s) = map ((!) (c_heap s)) (c_garbage s)" for y
    by (intro map_cong refl) (metis nth_list_update_neq g(2))
  have gm: "map ((!) (c_heap s @ xs)) (c_garbage s) = map ((!) (c_heap s)) (c_garbage s)" for xs
    using g by (intro map_cong refl) (simp add: nth_append)
  have ok_upd: "\<forall>g \<in> set (c_garbage s). g < length (c_heap s) \<and> g \<noteq> c_buffer s"
    "\<forall>g \<in> set (c_garbage s). g < Suc (length (c_heap s)) \<and> g \<noteq> length (c_heap s)"
    using g by (auto dest: less_SucI)
  define b where "b = (if c_bottom s < c_top s then c_top s else c_bottom s)"
  consider "\<not> ucast (m_capacity (cur_buf s)) \<le> b - c_top s"
    | "ucast (m_capacity (cur_buf s)) \<le> b - c_top s" "b \<le> c_top s"
    | "ucast (m_capacity (cur_buf s)) \<le> b - c_top s" "\<not> b \<le> c_top s" by blast
  then show ?thesis
  proof cases
    case 1
    then show ?thesis using idle g(1) gu ok_upd
      by (cases "c_bottom s < c_top s")
        (simp_all add: s' push_alone_def run_simps push_test_def deque_of_def pushBottom_def Let_def b_def heap_ok_def)
  next
    case 2
    then show ?thesis using idle g(1) gu ok_upd
      by (cases "c_bottom s < c_top s")
        (simp_all add: s' push_alone_def run_simps push_test_def deque_of_def pushBottom_def Let_def b_def heap_ok_def grow_def)
  next
    case 3
    then have "\<not> c_bottom s < c_top s" by (auto simp: b_def)
    then show ?thesis using 3 idle g(1) gm ok_upd
      by (simp add: s' push_alone_def run_simps push_test_def deque_of_def pushBottom_def Let_def b_def heap_ok_def
        grow_def nth_append list_update_append)
  qed
qed

lemma pop_solo:
  assumes ok: "heap_ok s" and idle: "c_owner s = Owner_idle" and s': "s' = deque_run pop_alone s"
  shows "deque_of s' = snd (popBottom (deque_of s)) \<and> c_owner s' = Owner_idle \<and> heap_ok s'
     \<and> c_pushed s' = c_pushed s \<and> c_taken s' = c_taken s @ handed [fst (popBottom (deque_of s))]"
proof -
  have g: "c_buffer s < length (c_heap s)" "\<forall>g \<in> set (c_garbage s). g < length (c_heap s) \<and> g \<noteq> c_buffer s"
    using ok by (auto simp: heap_ok_def)
  show ?thesis
  proof (cases "c_bottom s \<le> c_top s")
    case True
    then show ?thesis using idle g
      by (simp add: s' pop_alone_def run_simps deque_of_def popBottom_def heap_ok_def)
  next
    case False
    then show ?thesis using idle g
      by (cases "c_top s \<le> c_bottom s - 1"; cases "c_top s = c_bottom s - 1")
        (simp_all add: s' pop_alone_def run_simps deque_of_def popBottom_def heap_ok_def Let_def)
  qed
qed

lemma steal_solo:
  assumes ok: "heap_ok s" and idle: "c_thief s i = Thief_idle" and s': "s' = deque_run (steal_alone i) s"
  shows "deque_of s' = snd (stealTop (deque_of s)) \<and> c_thief s' i = Thief_idle \<and> heap_ok s'
     \<and> c_pushed s' = c_pushed s \<and> c_taken s' = c_taken s @ handed [fst (stealTop (deque_of s))]"
proof -
  have g: "c_buffer s < length (c_heap s)" "\<forall>g \<in> set (c_garbage s). g < length (c_heap s) \<and> g \<noteq> c_buffer s"
    using ok by (auto simp: heap_ok_def)
  show ?thesis using idle g
    by (cases "c_bottom s \<le> c_top s")
      (simp_all add: s' steal_alone_def run_simps deque_of_def stealTop_def heap_ok_def thief_returns_def thief_goes_def Let_def)
qed

text \<open>The copy loop of a batch steal, run to its end.\<close>

lemma returns_goes [simp]: "thief_returns i xs (thief_goes i pc s) = thief_returns i xs s"
  by (simp add: thief_returns_def thief_goes_def)

lemma goes_goes [simp]: "thief_goes i pc (thief_goes i pc' s) = thief_goes i pc s"
  by (simp add: thief_goes_def)

lemma batch_goes_run:
  "length xs \<le> unat k \<Longrightarrow> xs = map (\<lambda>j. rb_load (t + of_nat j) (c_heap s ! buf)) [0..<length xs] \<Longrightarrow>
     unat k - length xs \<le> m \<Longrightarrow>
     deque_run (replicate m (Thief_access i)) (batch_goes i t k buf xs s)
       = thief_returns i (map (\<lambda>j. rb_load (t + of_nat j) (c_heap s ! buf)) [0..<unat k]) s"
proof (induction "unat k - length xs" arbitrary: xs m)
  case 0
  then have "length xs = unat k" by simp
  moreover have "\<not> (of_nat (unat k) :: u32) < k" by simp
  ultimately show ?case using 0 thief_run_idle by (simp add: batch_goes_def thief_returns_def)
next
  case (Suc d)
  let ?f = "\<lambda>j. rb_load (t + of_nat j) (c_heap s ! buf)"
  have lt: "length xs < unat k" using Suc.hyps(2) by simp
  then have "unat (of_nat (length xs) :: u32) = length xs"
    using unsigned_less [of k, where 'a = nat] by (simp add: unat_of_nat)
  then have lt': "(of_nat (length xs) :: u32) < k" using lt by (simp add: word_less_nat_alt)
  obtain m' where m: "m = Suc m'" using Suc.prems(3) lt by (cases m) auto
  let ?ys = "xs @ [?f (length xs)]"
  have now: "batch_goes i t k buf xs s = thief_goes i (Batch_copy t k buf xs) s"
    using lt' by (simp only: batch_goes_def if_True)
  have "thief_access i (c_thief (thief_goes i (Batch_copy t k buf xs) s) i) (thief_goes i (Batch_copy t k buf xs) s)
      = batch_goes i t k buf ?ys (thief_goes i (Batch_copy t k buf xs) s)" by simp
  also have "\<dots> = batch_goes i t k buf ?ys s" by (simp only: batch_goes_def returns_goes goes_goes)
  finally have nxt: "deque_run (replicate m (Thief_access i)) (batch_goes i t k buf xs s)
      = deque_run (replicate m' (Thief_access i)) (batch_goes i t k buf ?ys s)"
    by (simp only: m thief_run_Suc now)
  have ys: "?ys = map ?f [0..<length ?ys]"
    by (simp flip: Suc.prems(2))
  have "d = unat k - length ?ys" "length ?ys \<le> unat k" "unat k - length ?ys \<le> m'"
    using Suc.hyps(2) Suc.prems(3) lt m by auto
  then show ?case unfolding nxt using Suc.hyps(1) ys by blast
qed

lemma deque_of_sel:
  "m_top (deque_of s) = c_top s" "m_bottom (deque_of s) = c_bottom s" "m_buffer (deque_of s) = cur_buf s"
  by (simp_all add: deque_of_def)

lemma batch_solo:
  assumes ok: "heap_ok s" and idle: "c_thief s i = Thief_idle" and s': "s' = deque_run (batch_alone i n) s"
  shows "deque_of s' = snd (stealBatch_span n (deque_of s)) \<and> c_thief s' i = Thief_idle \<and> heap_ok s'
     \<and> c_pushed s' = c_pushed s \<and> c_taken s' = c_taken s @ handed (fst (stealBatch_span n (deque_of s)))"
proof -
  let ?t = "c_top s" and ?b = "c_bottom s" and ?half = "(c_bottom s - c_top s + 1) div 2"
  define k where "k = (if ucast n < ?half then ucast n else ?half)"
  define a where "a = (if ?t < ?b then ?b - ?t else 0)"
  have g: "c_buffer s < length (c_heap s)" "\<forall>g \<in> set (c_garbage s). g < length (c_heap s) \<and> g \<noteq> c_buffer s"
    using ok by (auto simp: heap_ok_def)
  show ?thesis
  proof (cases "n = 0 \<or> ?b \<le> ?t \<or> k = 0")
    case True
    have "s' = s" if "n = 0" using that idle by (simp add: s' batch_alone_def run_simps)
    moreover have "s' = s" if "n \<noteq> 0" "?b \<le> ?t"
      using that idle by (simp add: s' batch_alone_def run_simps thief_goes_def fun_upd_idem)
    moreover have "s' = s" if "n \<noteq> 0" "\<not> ?b \<le> ?t" "k = 0"
      using that idle by (simp add: s' batch_alone_def run_simps thief_goes_def fun_upd_idem Let_def k_def [symmetric] split del: if_split)
    moreover have "stealBatch_span n (deque_of s) = ([], deque_of s)"
    proof (cases "n = 0 \<or> ?b \<le> ?t")
      case True
      then show ?thesis by (auto simp: stealBatch_span_def deque_of_def)
    next
      case nz: False
      with True have k0: "k = 0" and n0: "(n = 0) = False" and le: "(?b \<le> ?t) = False" by auto
      show ?thesis unfolding stealBatch_span_def Let_def deque_of_sel k_def [symmetric] n0 le k0 by simp
    qed
    ultimately show ?thesis using True idle ok by (auto simp: handed_def)
  next
    case False
    let ?f = "\<lambda>j. rb_load (?t + of_nat j) (cur_buf s)"
    have kn: "unat k \<le> unat n" unfolding k_def by (rule span_count_le)
    define c where "c = (if ?b < ?t + k then a else k)"
    define u where "u = thief_goes i (Batch_recheck ?t k (c_buffer s)) (s\<lparr>c_top := ?t + k\<rparr>)"
    have six: "unat n + 6 = Suc (Suc (Suc (Suc (Suc (Suc (unat n))))))" by simp
    have s'u: "s' = deque_run (replicate (Suc (Suc (unat n))) (Thief_access i)) u"
      using False idle unfolding s' batch_alone_def six
      by (simp add: u_def run_simps thief_goes_def Let_def k_def [symmetric] del: replicate.simps split del: if_split)
    have n0: "(n = 0) = False" and le: "(?b \<le> ?t) = False" and k0: "(k = 0) = False" using False by auto
    have "stealBatch_span n (deque_of s) = (map ?f [0..<unat c], (deque_of s)\<lparr>m_top := ?t + c\<rparr>)"
      unfolding stealBatch_span_def Let_def deque_of_sel k_def [symmetric] n0 le k0 c_def a_def
      by (cases "?b < ?t + k") (simp_all add: deque_of_sel)
    moreover have "s' = thief_returns i (map ?f [0..<unat c]) (s\<lparr>c_top := ?t + c\<rparr>)"
    proof (cases "?b < ?t + k")
      case True
      then have ca: "c = a" by (simp add: c_def)
      let ?v = "thief_goes i (Batch_lower ?t a (c_buffer s)) (s\<lparr>c_top := ?t + k\<rparr>)"
      have "thief_access i (c_thief u i) u = ?v"
        using True by (simp add: u_def a_def Let_def)
      moreover have "thief_access i (c_thief ?v i) ?v = batch_goes i ?t a (c_buffer s) [] (s\<lparr>c_top := ?t + a\<rparr>)"
        by (simp add: batch_goes_def thief_goes_def thief_returns_def)
      ultimately have "s' = deque_run (replicate (unat n) (Thief_access i))
          (batch_goes i ?t a (c_buffer s) [] (s\<lparr>c_top := ?t + a\<rparr>))"
        by (simp only: s'u thief_run_Suc [of "Suc (unat n)"] thief_run_Suc [of "unat n"])
      moreover have "unat a \<le> unat n"
        using kn lowered_count_le [OF True] by (auto simp: a_def)
      ultimately show ?thesis using batch_goes_run [of "[]" a ?t "s\<lparr>c_top := ?t + a\<rparr>" "c_buffer s" "unat n" i]
        by (simp add: ca)
    next
      case ge: False
      then have ck: "c = k" by (simp add: c_def)
      have "thief_access i (c_thief u i) u = batch_goes i ?t k (c_buffer s) [] (s\<lparr>c_top := ?t + k\<rparr>)"
        using ge by (simp add: u_def batch_goes_def)
      then have "s' = deque_run (replicate (Suc (unat n)) (Thief_access i))
          (batch_goes i ?t k (c_buffer s) [] (s\<lparr>c_top := ?t + k\<rparr>))"
        by (simp only: s'u thief_run_Suc [of "Suc (unat n)"])
      then show ?thesis using batch_goes_run [of "[]" k ?t "s\<lparr>c_top := ?t + k\<rparr>" "c_buffer s" "Suc (unat n)" i] kn
        by (simp add: ck)
    qed
    ultimately show ?thesis using False idle g
      by (simp add: thief_returns_def deque_of_def heap_ok_def)
  qed
qed

section \<open>Properties\<close>

lemma deque_of_inv:
  assumes inv: "conc_inv n s" and idle: "c_owner s = Owner_idle"
  shows "deque_inv (deque_of s)"
    and "mset (c_pushed s) = mset (c_taken s) + mset (deque_tasks (deque_of s))"
proof -
  have ok: "deque_ok (deque_of s)"
    using conc_invD(2,4,6) [OF inv] idle by (simp add: deque_ok_def deque_of_def word_le_nat_alt)
  have l: "deque_list (deque_of s) = in_deque s"
    using deque_list_at [OF ok] idle by (simp add: in_deque_def deque_of_def)
  then show di: "deque_inv (deque_of s)"
    using ok conc_inv_not_null(1) [OF inv] by (simp add: deque_inv_def)
  have "mset (map Some (c_pushed s)) = mset (map Some (c_taken s @ deque_tasks (deque_of s)))"
    using conc_invD(10) [OF inv] idle deque_list_tasks [OF di] l by simp
  then have "image_mset Some (mset (c_pushed s)) = image_mset Some (mset (c_taken s @ deque_tasks (deque_of s)))"
    by (simp only: mset_map)
  then have "image_mset the (image_mset Some (mset (c_pushed s)))
      = image_mset the (image_mset Some (mset (c_taken s @ deque_tasks (deque_of s))))" by (simp only:)
  then show "mset (c_pushed s) = mset (c_taken s) + mset (deque_tasks (deque_of s))"
    by (simp add: multiset.map_comp o_def)
qed

lemma taken_pushed:
  assumes inv: "conc_inv n s"
  shows "mset (c_taken s) \<subseteq># mset (c_pushed s)"
proof -
  have "image_mset Some (mset (c_taken s)) \<subseteq># image_mset Some (mset (c_pushed s))"
    using conc_invD(10) [OF inv] by (simp add: add.assoc)
  then have "image_mset the (image_mset Some (mset (c_taken s))) \<subseteq># image_mset the (image_mset Some (mset (c_pushed s)))"
    by (rule image_mset_subseteq_mono)
  then show ?thesis by (simp add: multiset.map_comp o_def)
qed

text \<open>
  C4: Whatever the interleaving of one owner, which pushes and pops, with any number of
  thieves that steal single tasks, the deque hands out no task twice and none it was not
  given; and whenever the owner is between two operations, even with thieves in the middle of
  theirs, every published task has been handed out or is still in the deque. The buffer may
  grow under the thieves. The bound on the pushes keeps the 32-bit indices from wrapping.
\<close>

theorem deque_interleaving_safe:
  assumes "unat cap \<le> 2 ^ 31" and "\<forall>e \<in> set evs. \<not> is_batch e"
    and "length (filter is_push evs) < 2 ^ 31" and "s = deque_run evs (conc_new cap)"
  shows "mset (c_taken s) \<subseteq># mset (c_pushed s)
    \<and> (c_owner s = Owner_idle \<longrightarrow> deque_inv (deque_of s)
        \<and> mset (c_pushed s) = mset (c_taken s) + mset (deque_tasks (deque_of s)))"
proof -
  have "conc_inv (0 + length (filter is_push evs)) s"
    using deque_run_ok [OF conc_new_ok [OF assms(1)] assms(2)] assms(3,4) by simp
  then show ?thesis using deque_of_inv taken_pushed by blast
qed

text \<open>The owner and a thief race for the last task; the thief wins.\<close>

definition last_task_race :: "deque_event list" where
  "last_task_race = push_alone 7 @ Call_steal 0 # replicate 4 (Thief_access 0)
     @ Call_pop # replicate 4 Owner_access @ [Thief_access 0] @ replicate 4 Owner_access"

theorem deque_interleaving_safe_witness:
  "mset (c_taken (deque_run last_task_race (conc_new 16))) \<subseteq># mset [7]
    \<and> mset [7] = mset (c_taken (deque_run last_task_race (conc_new 16)))
        + mset (deque_tasks (deque_of (deque_run last_task_race (conc_new 16))))"
proof -
  have e: "\<forall>e \<in> set last_task_race. \<not> is_batch e" "length (filter is_push last_task_race) < 2 ^ 31"
    by (simp_all add: last_task_race_def push_alone_def)
  have r: "c_owner (deque_run last_task_race (conc_new 16)) = Owner_idle"
    "c_pushed (deque_run last_task_race (conc_new 16)) = [7]" by code_simp+
  show ?thesis using deque_interleaving_safe [OF _ e refl, of 16] r by simp
qed

text \<open>
  C5: The operations are wait-free. Whatever the other threads do and from whatever state,
  the owner's operation has returned after at most 8 accesses of its own, a single steal after
  5 and a batch steal into a span of \<open>n\<close> after \<open>n + 6\<close>.
\<close>

theorem deque_wait_free:
  assumes "\<forall>e \<in> set evs. \<not> owner_call e \<and> \<not> thief_call i e"
  shows "(8 \<le> count_list evs Owner_access \<longrightarrow> c_owner (deque_run evs s) = Owner_idle)
    \<and> (c_thief s i = Thief_idle \<and> 5 \<le> count_list evs (Thief_access i) \<longrightarrow>
         c_thief (deque_run (Call_steal i # evs) s) i = Thief_idle)
    \<and> (c_thief s i = Thief_idle \<and> unat n + 6 \<le> count_list evs (Thief_access i) \<longrightarrow>
         c_thief (deque_run (Call_batch i n # evs) s) i = Thief_idle)"
proof (intro conjI impI)
  assume "8 \<le> count_list evs Owner_access"
  moreover have "owner_left (c_owner s) \<le> 8" by (cases "c_owner s") auto
  ultimately show "c_owner (deque_run evs s) = Owner_idle"
    using deque_run_owner_left [of evs s] assms by (intro owner_left_0) auto
next
  assume "c_thief s i = Thief_idle \<and> 5 \<le> count_list evs (Thief_access i)"
  then show "c_thief (deque_run (Call_steal i # evs) s) i = Thief_idle"
    using deque_run_thief_left [of evs i "deque_exec (Call_steal i) s"] assms
    by (intro thief_left_0) (auto simp: deque_run_Cons)
next
  assume "c_thief s i = Thief_idle \<and> unat n + 6 \<le> count_list evs (Thief_access i)"
  then show "c_thief (deque_run (Call_batch i n # evs) s) i = Thief_idle"
    using deque_run_thief_left [of evs i "deque_exec (Call_batch i n) s"] assms
    by (intro thief_left_0) (auto simp: deque_run_Cons)
qed

theorem deque_wait_free_witness:
  "c_owner (deque_run (replicate 8 Owner_access) (deque_run [Call_push 3] (conc_new 16))) = Owner_idle"
  by (rule deque_wait_free [of _ 0, THEN conjunct1, rule_format]) (simp_all add: numeral_eq_Suc)



text \<open>
  The executions below use one batch steal. In the first, the thief has read both indices when
  the owner pops two tasks without a compare-exchange, one of them inside the stolen range; the
  thief's compare-exchange succeeds because \<open>m_top\<close> has not moved; the owner's next push sees
  \<open>m_bottom\<close> below \<open>m_top\<close> and raises it, so the thief's recheck of \<open>m_bottom\<close> finds nothing to
  give back. In the second, the owner pushes into the slots the thief has claimed but not yet
  copied. In the third, the thief gives back a task by lowering \<open>m_top\<close> after a second thief has
  moved it up.
\<close>

definition pop_race :: "deque_event list" where
  "pop_race = concat (map push_alone [0, 1, 2]) @ Call_batch 0 128 # replicate 3 (Thief_access 0)
     @ pop_alone @ pop_alone @ [Thief_access 0] @ push_alone 3 @ replicate 3 (Thief_access 0)"

definition overwrite_race :: "deque_event list" where
  "overwrite_race = concat (map push_alone [0..<16]) @ Call_batch 0 128 # replicate 4 (Thief_access 0)
     @ push_alone 16 @ replicate 9 (Thief_access 0)"

definition lower_race :: "deque_event list" where
  "lower_race = concat (map push_alone [0, 1, 2]) @ Call_batch 0 128 # replicate 3 (Thief_access 0)
     @ pop_alone @ Call_pop # replicate 4 Owner_access @ replicate 2 (Thief_access 0)
     @ replicate 4 Owner_access @ push_alone 3
     @ Call_steal 1 # replicate 5 (Thief_access 1) @ replicate 2 (Thief_access 0)"



end
