(* ===== verification/Concurrent_Queue.thy ===== *)
theory Concurrent_Queue
  imports Mpmc_Queue
begin

text \<open>
  The injection queue \<open>MpmcTaskQueue\<close> (\<^verbatim>\<open>task_scheduler.cpp\<close>) with any number of producers and
  consumers. The code of \<open>tryEnqueue\<close> and \<open>tryDequeue\<close> is cut at every access to a position, to a
  sequence number and to the plain field \<open>task\<close> of a cell, and the accesses of the threads
  interleave freely. The ghost list \<open>q_claimed\<close> holds the task of every position claimed so far,
  in the order of the successful compare-exchanges; \<open>q_returned\<close> logs what the consumers return,
  with the position it came from.

  The theorems: what is returned for a position is what was enqueued there, each position is
  returned once, so tasks leave in the order they came in and none is lost; the plain accesses
  never race; a refusal means that the queue is full, or that the consumer of the cell in question is
  not finished, and an empty answer correspondingly.
\<close>

section \<open>Program counters and state\<close>

datatype queue_pc =
    Queue_idle
  | Enq_pos node_id
  | Enq_seq node_id usize
  | Enq_cas node_id usize
  | Enq_task node_id usize
  | Enq_publish node_id usize
  | Deq_pos
  | Deq_seq usize
  | Deq_cas usize
  | Deq_task usize
  | Deq_clear usize node_ptr
  | Deq_publish usize node_ptr

record conc_queue =
  q_queue :: mpmc_queue
  q_pc :: "nat \<Rightarrow> queue_pc"
  q_claimed :: "node_id list"
  q_returned :: "(nat \<times> node_ptr) list"

definition conc_queue_new :: "usize \<Rightarrow> conc_queue" where
  "conc_queue_new capacity =
     \<lparr>q_queue = MpmcTaskQueue_new capacity, q_pc = (\<lambda>_. Queue_idle), q_claimed = [], q_returned = []\<rparr>"

section \<open>The accesses of a thread\<close>

definition cell_of :: "usize \<Rightarrow> mpmc_queue \<Rightarrow> cell" where
  "cell_of pos q = q_buffer q ! unat (pos AND q_mask q)"

definition set_cell :: "usize \<Rightarrow> cell \<Rightarrow> mpmc_queue \<Rightarrow> mpmc_queue" where
  "set_cell pos c q = q\<lparr>q_buffer := (q_buffer q)[unat (pos AND q_mask q) := c]\<rparr>"

definition queue_goes :: "nat \<Rightarrow> queue_pc \<Rightarrow> conc_queue \<Rightarrow> conc_queue" where
  "queue_goes i pc s = s\<lparr>q_pc := (q_pc s)(i := pc)\<rparr>"

text \<open>
  One pass of either loop: the difference of the sequence number decides between the
  compare-exchange, giving up, and reloading the position. A failed compare-exchange stores
  the current position into \<open>pos\<close> and goes round again.
\<close>

fun queue_access :: "nat \<Rightarrow> queue_pc \<Rightarrow> conc_queue \<Rightarrow> conc_queue" where
  "queue_access i Queue_idle s = s"
| "queue_access i (Enq_pos x) s = queue_goes i (Enq_seq x (m_enqueuePos (q_queue s))) s"
| "queue_access i (Enq_seq x pos) s =
     (let dif = sint (sequence (cell_of pos (q_queue s))) - sint pos
      in queue_goes i (if dif = 0 then Enq_cas x pos else if dif < 0 then Queue_idle else Enq_pos x) s)"
| "queue_access i (Enq_cas x pos) s =
     (let q = q_queue s
      in if m_enqueuePos q = pos
         then queue_goes i (Enq_task x pos)
                (s\<lparr>q_queue := q\<lparr>m_enqueuePos := pos + 1\<rparr>, q_claimed := q_claimed s @ [x]\<rparr>)
         else queue_goes i (Enq_seq x (m_enqueuePos q)) s)"
| "queue_access i (Enq_task x pos) s =
     (let q = q_queue s
      in queue_goes i (Enq_publish x pos) (s\<lparr>q_queue := set_cell pos ((cell_of pos q)\<lparr>task := Some x\<rparr>) q\<rparr>))"
| "queue_access i (Enq_publish x pos) s =
     (let q = q_queue s
      in queue_goes i Queue_idle (s\<lparr>q_queue := set_cell pos ((cell_of pos q)\<lparr>sequence := pos + 1\<rparr>) q\<rparr>))"
| "queue_access i Deq_pos s = queue_goes i (Deq_seq (m_dequeuePos (q_queue s))) s"
| "queue_access i (Deq_seq pos) s =
     (let dif = sint (sequence (cell_of pos (q_queue s))) - sint (pos + 1)
      in queue_goes i (if dif = 0 then Deq_cas pos else if dif < 0 then Queue_idle else Deq_pos) s)"
| "queue_access i (Deq_cas pos) s =
     (let q = q_queue s
      in if m_dequeuePos q = pos
         then queue_goes i (Deq_task pos) (s\<lparr>q_queue := q\<lparr>m_dequeuePos := pos + 1\<rparr>\<rparr>)
         else queue_goes i (Deq_seq (m_dequeuePos q)) s)"
| "queue_access i (Deq_task pos) s = queue_goes i (Deq_clear pos (task (cell_of pos (q_queue s)))) s"
| "queue_access i (Deq_clear pos x) s =
     (let q = q_queue s
      in queue_goes i (Deq_publish pos x) (s\<lparr>q_queue := set_cell pos ((cell_of pos q)\<lparr>task := None\<rparr>) q\<rparr>))"
| "queue_access i (Deq_publish pos x) s =
     (let q = q_queue s
      in queue_goes i Queue_idle
           (s\<lparr>q_queue := set_cell pos ((cell_of pos q)\<lparr>sequence := pos + q_mask q + 1\<rparr>) q,
              q_returned := q_returned s @ [(unat pos, x)]\<rparr>))"

text \<open>Both compare-exchanges are weak and may fail on their own.\<close>

fun queue_weak_fail :: "nat \<Rightarrow> queue_pc \<Rightarrow> conc_queue \<Rightarrow> conc_queue" where
  "queue_weak_fail i (Enq_cas x pos) s = queue_goes i (Enq_seq x (m_enqueuePos (q_queue s))) s"
| "queue_weak_fail i (Deq_cas pos) s = queue_goes i (Deq_seq (m_dequeuePos (q_queue s))) s"
| "queue_weak_fail i pc s = s"

datatype queue_event =
    Call_enqueue nat node_id
  | Call_dequeue nat
  | Queue_access nat
  | Queue_weak_fail nat

fun queue_exec :: "queue_event \<Rightarrow> conc_queue \<Rightarrow> conc_queue" where
  "queue_exec (Call_enqueue i x) s = (if q_pc s i = Queue_idle then queue_goes i (Enq_pos x) s else s)"
| "queue_exec (Call_dequeue i) s = (if q_pc s i = Queue_idle then queue_goes i Deq_pos s else s)"
| "queue_exec (Queue_access i) s = queue_access i (q_pc s i) s"
| "queue_exec (Queue_weak_fail i) s = queue_weak_fail i (q_pc s i) s"

definition queue_run :: "queue_event list \<Rightarrow> conc_queue \<Rightarrow> conc_queue" where
  "queue_run evs s = fold queue_exec evs s"


section \<open>The invariant\<close>

text \<open>The position a thread has claimed and not yet published, for either side.\<close>

fun enq_holds :: "queue_pc \<Rightarrow> nat option" where
  "enq_holds (Enq_task x pos) = Some (unat pos)"
| "enq_holds (Enq_publish x pos) = Some (unat pos)"
| "enq_holds _ = None"

fun deq_holds :: "queue_pc \<Rightarrow> nat option" where
  "deq_holds (Deq_task pos) = Some (unat pos)"
| "deq_holds (Deq_clear pos x) = Some (unat pos)"
| "deq_holds (Deq_publish pos x) = Some (unat pos)"
| "deq_holds _ = None"

definition enqueuing :: "conc_queue \<Rightarrow> nat set" where
  "enqueuing s = {p. \<exists>i. enq_holds (q_pc s i) = Some p}"

definition dequeuing :: "conc_queue \<Rightarrow> nat set" where
  "dequeuing s = {p. \<exists>i. deq_holds (q_pc s i) = Some p}"

abbreviation q_enq :: "conc_queue \<Rightarrow> nat" where "q_enq s \<equiv> unat (m_enqueuePos (q_queue s))"
abbreviation q_deq :: "conc_queue \<Rightarrow> nat" where "q_deq s \<equiv> unat (m_dequeuePos (q_queue s))"
abbreviation q_cap :: "conc_queue \<Rightarrow> nat" where "q_cap s \<equiv> unat (q_capacity (q_queue s))"
abbreviation seq_at :: "conc_queue \<Rightarrow> nat \<Rightarrow> nat" where "seq_at s p \<equiv> unat (sequence (cell_at (q_queue s) p))"
abbreviation task_at :: "conc_queue \<Rightarrow> nat \<Rightarrow> node_ptr" where "task_at s p \<equiv> task (cell_at (q_queue s) p)"

fun queue_pc_ok :: "queue_pc \<Rightarrow> conc_queue \<Rightarrow> bool" where
  "queue_pc_ok (Enq_seq x pos) s \<longleftrightarrow> unat pos \<le> q_enq s"
| "queue_pc_ok (Enq_cas x pos) s \<longleftrightarrow> unat pos \<le> q_enq s
     \<and> (unat pos = q_enq s \<longrightarrow> q_enq s < q_deq s + q_cap s \<and> seq_at s (unat pos) = unat pos)"
| "queue_pc_ok (Enq_task x pos) s \<longleftrightarrow> q_deq s \<le> unat pos \<and> unat pos < q_enq s \<and> q_claimed s ! unat pos = x"
| "queue_pc_ok (Enq_publish x pos) s \<longleftrightarrow> q_deq s \<le> unat pos \<and> unat pos < q_enq s \<and> q_claimed s ! unat pos = x
     \<and> task_at s (unat pos) = Some x"
| "queue_pc_ok (Deq_seq pos) s \<longleftrightarrow> unat pos \<le> q_deq s"
| "queue_pc_ok (Deq_cas pos) s \<longleftrightarrow> unat pos \<le> q_deq s
     \<and> (unat pos = q_deq s \<longrightarrow> q_deq s < q_enq s \<and> seq_at s (unat pos) = unat pos + 1)"
| "queue_pc_ok (Deq_task pos) s \<longleftrightarrow> unat pos < q_deq s \<and> q_enq s \<le> unat pos + q_cap s
     \<and> task_at s (unat pos) = Some (q_claimed s ! unat pos)"
| "queue_pc_ok (Deq_clear pos x) s \<longleftrightarrow> unat pos < q_deq s \<and> q_enq s \<le> unat pos + q_cap s
     \<and> x = Some (q_claimed s ! unat pos)"
| "queue_pc_ok (Deq_publish pos x) s \<longleftrightarrow> unat pos < q_deq s \<and> q_enq s \<le> unat pos + q_cap s
     \<and> x = Some (q_claimed s ! unat pos)"
| "queue_pc_ok _ s \<longleftrightarrow> True"

definition holders_apart :: "conc_queue \<Rightarrow> bool" where
  "holders_apart s \<longleftrightarrow> (\<forall>i j p. (enq_holds (q_pc s i) = Some p \<and> enq_holds (q_pc s j) = Some p
     \<or> deq_holds (q_pc s i) = Some p \<and> deq_holds (q_pc s j) = Some p) \<longrightarrow> i = j)"

text \<open>
  The cells of the positions in the window, by what has happened to the position: claimed by a
  producer, published, or free again; a free cell still carries the number of the previous round
  while its consumer is at work.
\<close>

definition cells_ok :: "conc_queue \<Rightarrow> bool" where
  "cells_ok s \<longleftrightarrow>
     (\<forall>p. q_deq s \<le> p \<and> p < q_enq s \<longrightarrow>
        (if p \<in> enqueuing s then seq_at s p = p else seq_at s p = p + 1 \<and> task_at s p = Some (q_claimed s ! p)))
   \<and> (\<forall>p. q_enq s \<le> p \<and> p < q_deq s + q_cap s \<longrightarrow>
        seq_at s p = (if q_cap s \<le> p \<and> p - q_cap s \<in> dequeuing s then p - q_cap s + 1 else p))"

text \<open>Every position given to a consumer is in work or returned, once and with its task.\<close>

definition returns_ok :: "conc_queue \<Rightarrow> bool" where
  "returns_ok s \<longleftrightarrow> (\<forall>(p, x) \<in> set (q_returned s). x = Some (q_claimed s ! p))
     \<and> distinct (map fst (q_returned s)) \<and> set (map fst (q_returned s)) \<inter> dequeuing s = {}
     \<and> set (map fst (q_returned s)) \<union> dequeuing s = {..<q_deq s}"

text \<open>\<open>n\<close> bounds the positions claimed so far.\<close>

definition conc_queue_inv :: "nat \<Rightarrow> conc_queue \<Rightarrow> bool" where
  "conc_queue_inv n s \<longleftrightarrow> mpmc_shape (q_queue s) \<and> q_deq s \<le> q_enq s \<and> q_enq s \<le> q_deq s + q_cap s
     \<and> q_enq s \<le> n \<and> length (q_claimed s) = q_enq s \<and> cells_ok s \<and> (\<forall>i. queue_pc_ok (q_pc s i) s)
     \<and> holders_apart s \<and> returns_ok s"

lemma conc_queue_invD:
  assumes "conc_queue_inv n s"
  shows "mpmc_shape (q_queue s)" and "q_deq s \<le> q_enq s" and "q_enq s \<le> q_deq s + q_cap s" and "q_enq s \<le> n"
    and "length (q_claimed s) = q_enq s" and "cells_ok s" and "queue_pc_ok (q_pc s i) s"
    and "holders_apart s" and "returns_ok s"
  using assms by (auto simp: conc_queue_inv_def)

section \<open>Steps that only move a program counter\<close>

lemma queue_goes_proj [simp]:
  "q_queue (queue_goes i pc s) = q_queue s" "q_claimed (queue_goes i pc s) = q_claimed s"
  "q_returned (queue_goes i pc s) = q_returned s" "q_pc (queue_goes i pc s) = (q_pc s)(i := pc)"
  by (simp_all add: queue_goes_def)

lemma pc_ok_goes [simp]: "queue_pc_ok pc (queue_goes i pc' s) = queue_pc_ok pc s"
  by (cases pc) simp_all

lemma holders_same:
  assumes "enq_holds pc = enq_holds (q_pc s i)" and "deq_holds pc = deq_holds (q_pc s i)"
    and "q_pc s' = (q_pc s)(i := pc)"
  shows "enqueuing s' = enqueuing s" and "dequeuing s' = dequeuing s" and "holders_apart s' = holders_apart s"
proof -
  have e: "enq_holds (q_pc s' j) = enq_holds (q_pc s j)"
    and d: "deq_holds (q_pc s' j) = deq_holds (q_pc s j)" for j
    using assms by auto
  show "enqueuing s' = enqueuing s" "dequeuing s' = dequeuing s" "holders_apart s' = holders_apart s"
    by (simp_all only: enqueuing_def dequeuing_def holders_apart_def e d)
qed

lemmas holders_goes = holders_same [OF _ _ queue_goes_proj(4)]

lemma cells_okI:
  assumes "\<And>p. q_deq s \<le> p \<Longrightarrow> p < q_enq s \<Longrightarrow> p \<in> enqueuing s \<Longrightarrow> seq_at s p = p"
    and "\<And>p. q_deq s \<le> p \<Longrightarrow> p < q_enq s \<Longrightarrow> p \<notin> enqueuing s \<Longrightarrow>
      seq_at s p = p + 1 \<and> task_at s p = Some (q_claimed s ! p)"
    and "\<And>p. q_enq s \<le> p \<Longrightarrow> p < q_deq s + q_cap s \<Longrightarrow>
      seq_at s p = (if q_cap s \<le> p \<and> p - q_cap s \<in> dequeuing s then p - q_cap s + 1 else p)"
  shows "cells_ok s"
  using assms by (auto simp: cells_ok_def)

lemma queue_goes_ok:
  assumes inv: "conc_queue_inv n s" and ok: "queue_pc_ok pc s"
    and h: "enq_holds pc = enq_holds (q_pc s i)" "deq_holds pc = deq_holds (q_pc s i)"
  shows "conc_queue_inv n (queue_goes i pc s)"
  using inv ok holders_goes [OF h]
  by (simp add: conc_queue_inv_def cells_ok_def returns_ok_def)

text \<open>A step that gives a thread a position, or takes one from it.\<close>

lemma holders_gain:
  assumes "enq_holds (q_pc s i) = None" and "deq_holds (q_pc s i) = None" and "q_pc s' = (q_pc s)(i := pc)"
  shows "enqueuing s' = enqueuing s \<union> set_option (enq_holds pc)"
    and "dequeuing s' = dequeuing s \<union> set_option (deq_holds pc)"
    and "holders_apart s \<Longrightarrow> set_option (enq_holds pc) \<inter> enqueuing s = {} \<Longrightarrow>
      set_option (deq_holds pc) \<inter> dequeuing s = {} \<Longrightarrow> holders_apart s'"
proof -
  show "enqueuing s' = enqueuing s \<union> set_option (enq_holds pc)"
    using assms by (auto simp: enqueuing_def split: if_splits; metis option.distinct(1))
  show "dequeuing s' = dequeuing s \<union> set_option (deq_holds pc)"
    using assms by (auto simp: dequeuing_def split: if_splits; metis option.distinct(1))
  assume "holders_apart s" "set_option (enq_holds pc) \<inter> enqueuing s = {}" "set_option (deq_holds pc) \<inter> dequeuing s = {}"
  then show "holders_apart s'"
    using assms(3) unfolding holders_apart_def enqueuing_def dequeuing_def by (auto split: if_splits)
qed

lemma holders_loss:
  assumes "holders_apart s" and "enq_holds pc = None" and "deq_holds pc = None" and "q_pc s' = (q_pc s)(i := pc)"
  shows "enqueuing s' = enqueuing s - set_option (enq_holds (q_pc s i))"
    and "dequeuing s' = dequeuing s - set_option (deq_holds (q_pc s i))"
    and "holders_apart s'"
proof -
  show "enqueuing s' = enqueuing s - set_option (enq_holds (q_pc s i))"
    using assms unfolding enqueuing_def holders_apart_def
    by (auto split: if_splits; metis option.distinct(1) option.inject)
  show "dequeuing s' = dequeuing s - set_option (deq_holds (q_pc s i))"
    using assms unfolding dequeuing_def holders_apart_def
    by (auto split: if_splits; metis option.distinct(1) option.inject)
  show "holders_apart s'" using assms unfolding holders_apart_def by (auto split: if_splits)
qed

section \<open>Cells\<close>

lemma cell_of_at: "mpmc_shape q \<Longrightarrow> cell_of pos q = cell_at q (unat pos)"
  by (simp add: cell_of_def cell_at_def mpmc_slot)

lemma set_cell_proj [simp]:
  "m_enqueuePos (set_cell pos c q) = m_enqueuePos q" "m_dequeuePos (set_cell pos c q) = m_dequeuePos q"
  "q_capacity (set_cell pos c q) = q_capacity q" "q_mask (set_cell pos c q) = q_mask q"
  "mpmc_shape (set_cell pos c q) = mpmc_shape q"
  by (simp_all add: set_cell_def mpmc_shape_def)

lemma set_cell_at:
  assumes "mpmc_shape q"
  shows "cell_at (set_cell pos c q) p = (if p mod unat (q_capacity q) = unat pos mod unat (q_capacity q) then c else cell_at q p)"
  by (rule cell_at_update [OF assms]) (simp_all add: set_cell_def mpmc_slot [OF assms])

lemma cell_at_round: "cell_at q (p + unat (q_capacity q)) = cell_at q p"
  by (simp add: cell_at_def)

lemma window_same:
  fixes d c :: nat
  assumes "d \<le> p" and "p < d + c" and "d \<le> p'" and "p' < d + c"
  shows "p mod c = p' mod c \<longleftrightarrow> p = p'"
  using window_slots_distinct [of p c p' d] assms by auto

lemma cell_at_cong: "p mod unat (q_capacity q) = p' mod unat (q_capacity q) \<Longrightarrow> cell_at q p = cell_at q p'"
  by (simp add: cell_at_def)

text \<open>A position in the hands of a consumer shares its cell with the position one round later.\<close>

lemma window_round:
  fixes d c :: nat
  assumes "d \<le> p" and "p < d + c" and "p' < d" and "d \<le> p' + c"
  shows "p mod c = p' mod c \<longleftrightarrow> p = p' + c"
  using window_same [of d p c "p' + c"] assms by simp

lemma window_old:
  fixes d c :: nat
  assumes "p < d" and "d \<le> p + c" and "p' < d" and "d \<le> p' + c"
  shows "p mod c = p' mod c \<longleftrightarrow> p = p'"
  using window_same [of d "p + c" c "p' + c"] assms by simp

lemma sint_inj: "sint (a :: 'a::len word) = sint b \<longleftrightarrow> a = b"
  by (auto intro: signed_word_eqI)

lemma holder_in:
  "enq_holds (q_pc s i) = Some p \<Longrightarrow> p \<in> enqueuing s" "deq_holds (q_pc s i) = Some p \<Longrightarrow> p \<in> dequeuing s"
  by (auto simp: enqueuing_def dequeuing_def)

lemma enqueuing_window:
  assumes "conc_queue_inv n s" and "p \<in> enqueuing s"
  shows "q_deq s \<le> p" and "p < q_enq s" and "seq_at s p = p"
proof -
  obtain i where i: "enq_holds (q_pc s i) = Some p" using assms(2) by (auto simp: enqueuing_def)
  have "queue_pc_ok (q_pc s i) s" using assms(1) by (rule conc_queue_invD)
  with i show w: "q_deq s \<le> p" "p < q_enq s" by (cases "q_pc s i"; auto)+
  show "seq_at s p = p" using w assms conc_queue_invD(6) [OF assms(1)] by (auto simp: cells_ok_def)
qed

lemma dequeuing_window:
  assumes "conc_queue_inv n s" and "p \<in> dequeuing s"
  shows "p < q_deq s" and "q_enq s \<le> p + q_cap s"
proof -
  obtain i where i: "deq_holds (q_pc s i) = Some p" using assms(2) by (auto simp: dequeuing_def)
  have "queue_pc_ok (q_pc s i) s" using assms(1) by (rule conc_queue_invD)
  with i show "p < q_deq s" "q_enq s \<le> p + q_cap s" by (cases "q_pc s i"; auto)+
qed

lemma cells_used:
  assumes "conc_queue_inv n s" and "q_deq s \<le> p" and "p < q_enq s"
  shows "p \<in> enqueuing s \<Longrightarrow> seq_at s p = p"
    and "p \<notin> enqueuing s \<Longrightarrow> seq_at s p = p + 1 \<and> task_at s p = Some (q_claimed s ! p)"
    and "seq_at s p = p \<or> seq_at s p = p + 1"
  using conc_queue_invD(6) [OF assms(1)] assms(2,3) by (auto simp: cells_ok_def split: if_splits)

lemma cells_free:
  assumes "conc_queue_inv n s" and "q_enq s \<le> p" and "p < q_deq s + q_cap s"
  shows "seq_at s p = (if q_cap s \<le> p \<and> p - q_cap s \<in> dequeuing s then p - q_cap s + 1 else p)"
  using conc_queue_invD(6) [OF assms(1)] assms(2,3) by (auto simp: cells_ok_def)

lemma returned_lt:
  assumes "conc_queue_inv n s" and "(p, x) \<in> set (q_returned s)"
  shows "p < q_deq s"
proof -
  have "p \<in> set (map fst (q_returned s))" using assms(2) by (force simp: image_iff)
  then show ?thesis using conc_queue_invD(9) [OF assms(1)] unfolding returns_ok_def by blast
qed

section \<open>The producer's steps\<close>

lemma enq_seq_ok:
  assumes inv: "conc_queue_inv n s" and pc: "q_pc s i = Enq_seq x pos"
  shows "conc_queue_inv n (queue_access i (Enq_seq x pos) s)"
proof -
  have le: "unat pos \<le> q_enq s" using conc_queue_invD(7) [OF inv, of i] pc by simp
  have sh: "mpmc_shape (q_queue s)" and cap: "16 \<le> q_cap s"
    using conc_queue_invD(1) [OF inv] mpmc_cap_bounds(1) by auto
  have "queue_pc_ok (Enq_cas x pos) s" if "sequence (cell_of pos (q_queue s)) = pos"
  proof -
    have seq: "seq_at s (unat pos) = unat pos" using that by (simp add: cell_of_at [OF sh])
    have "q_enq s \<noteq> q_deq s + q_cap s" if "unat pos = q_enq s"
    proof
      assume full: "q_enq s = q_deq s + q_cap s"
      then have "seq_at s (q_deq s) = q_deq s \<or> seq_at s (q_deq s) = q_deq s + 1"
        using cells_used [OF inv, of "q_deq s"] cap by linarith
      moreover have "seq_at s (q_deq s) = unat pos" using seq that full cell_at_round [of "q_queue s" "q_deq s"] by simp
      ultimately show False using that full cap by auto
    qed
    then show ?thesis using le seq conc_queue_invD(3) [OF inv] by auto
  qed
  then show ?thesis using queue_goes_ok [OF inv] pc le by (auto simp: Let_def sint_inj)
qed

lemma enq_claim_ok:
  assumes inv: "conc_queue_inv n s" and n: "n < 2 ^ 62" and pc: "q_pc s i = Enq_cas x pos"
    and cas: "m_enqueuePos (q_queue s) = pos"
  shows "conc_queue_inv (Suc n) (queue_access i (Enq_cas x pos) s)"
proof -
  define s' where "s' = queue_access i (Enq_cas x pos) s"
  let ?e = "q_enq s" and ?d = "q_deq s" and ?c = "q_cap s"
  have pos: "unat pos = ?e" using cas by simp
  have free: "?e < ?d + ?c" "seq_at s ?e = ?e" using conc_queue_invD(7) [OF inv, of i] pc pos by auto
  have cap: "16 \<le> ?c" using conc_queue_invD(1) [OF inv] mpmc_cap_bounds(1) by auto
  have e1: "unat (pos + 1) = ?e + 1" using conc_queue_invD(4) [OF inv] n pos by (subst unat_Suc_lt) auto
  have eqs: "q_enq s' = Suc ?e" "q_deq s' = ?d" "q_cap s' = ?c" "cell_at (q_queue s') p = cell_at (q_queue s) p"
    "q_claimed s' = q_claimed s @ [x]" "q_returned s' = q_returned s" "q_pc s' = (q_pc s)(i := Enq_task x pos)"
    "mpmc_shape (q_queue s') = mpmc_shape (q_queue s)" for p
    using cas e1 by (simp_all add: s'_def Let_def cell_at_def mpmc_shape_def)
  have len: "length (q_claimed s) = ?e" using inv by (rule conc_queue_invD)
  have nth: "(q_claimed s @ [x]) ! p = q_claimed s ! p" if "p < ?e" for p using that len by (simp add: nth_append)
  have new: "?e \<notin> enqueuing s" using enqueuing_window(2) [OF inv] by blast
  have h: "enqueuing s' = insert ?e (enqueuing s)" "dequeuing s' = dequeuing s" "holders_apart s'"
    using holders_gain [OF _ _ eqs(7)] pc new conc_queue_invD(8) [OF inv] pos by auto
  have gap: "?e \<noteq> p + ?c" if "p \<in> dequeuing s" for p
  proof
    assume "?e = p + ?c"
    then have "seq_at s ?e = p + 1" using that free(1) conc_queue_invD(6) [OF inv] by (auto simp: cells_ok_def)
    then show False using free(2) \<open>?e = p + ?c\<close> cap by simp
  qed
  have "cells_ok s'"
    using conc_queue_invD(6) [OF inv] free nth unfolding cells_ok_def by (auto simp: eqs h less_Suc_eq)
  moreover have "queue_pc_ok (q_pc s' j) s'" for j
  proof (cases "j = i")
    case True
    then show ?thesis using pos len conc_queue_invD(2) [OF inv] by (simp add: eqs nth_append)
  next
    case False
    have "p + ?c \<noteq> ?e" if "deq_holds (q_pc s j) = Some p" for p using gap holder_in(2) [OF that] by metis
    then show ?thesis using False conc_queue_invD(7) [OF inv, of j] conc_queue_invD(2) [OF inv] nth
      by (cases "q_pc s j") (auto simp: eqs le_less Suc_le_eq)
  qed
  moreover have "returns_ok s'"
  proof -
    have "p < ?e" if "(p, y) \<in> set (q_returned s)" for p y
      using returned_lt [OF inv that] conc_queue_invD(2) [OF inv] by linarith
    then show ?thesis using conc_queue_invD(9) [OF inv] nth by (force simp: returns_ok_def eqs h)
  qed
  ultimately have "conc_queue_inv (Suc n) s'"
    using inv h free unfolding conc_queue_inv_def by (simp add: eqs)
  then show ?thesis by (simp add: s'_def)
qed

lemma enq_task_ok:
  assumes inv: "conc_queue_inv n s" and pc: "q_pc s i = Enq_task x pos"
  shows "conc_queue_inv n (queue_access i (Enq_task x pos) s)"
proof -
  define s' where "s' = queue_access i (Enq_task x pos) s"
  let ?e = "q_enq s" and ?d = "q_deq s" and ?c = "q_cap s" and ?p = "unat pos"
  have own: "?d \<le> ?p" "?p < ?e" "q_claimed s ! ?p = x" using conc_queue_invD(7) [OF inv, of i] pc by auto
  have sh: "mpmc_shape (q_queue s)" and full: "?e \<le> ?d + ?c" and de: "?d \<le> ?e" by (rule conc_queue_invD [OF inv])+
  have eqs: "q_enq s' = ?e" "q_deq s' = ?d" "q_cap s' = ?c" "q_claimed s' = q_claimed s" "q_returned s' = q_returned s"
    "q_pc s' = (q_pc s)(i := Enq_publish x pos)" "mpmc_shape (q_queue s')"
    using sh by (simp_all add: s'_def Let_def)
  have at: "cell_at (q_queue s') p = (if p mod ?c = ?p mod ?c then (cell_at (q_queue s) ?p)\<lparr>task := Some x\<rparr> else cell_at (q_queue s) p)" for p
    by (simp add: s'_def Let_def set_cell_at [OF sh] cell_of_at [OF sh])
  have seq: "seq_at s' p = seq_at s p" for p using cell_at_cong [of p "q_queue s" ?p] by (simp add: at)
  have own': "task_at s' ?p = Some x" by (simp add: at)
  have other: "task_at s' p = task_at s p" if "?d \<le> p" "p < ?e" "p \<noteq> ?p" for p
    using that own full window_same [of ?d p ?c ?p] by (simp add: at)
  have old: "task_at s' p = task_at s p" if "p < ?d" "?e \<le> p + ?c" for p
    using that own full window_round [of ?d ?p ?c p] by (auto simp: at dest: sym)
  have h: "enqueuing s' = enqueuing s" "dequeuing s' = dequeuing s" "holders_apart s'"
    using holders_same [OF _ _ eqs(6)] pc conc_queue_invD(8) [OF inv] by auto
  have mine: "?p \<in> enqueuing s" using holder_in(1) [of s i] pc by simp
  have "cells_ok s'"
  proof (rule cells_okI; unfold eqs h seq)
    fix p assume p: "?d \<le> p" "p < ?e"
    show "seq_at s p = p" if "p \<in> enqueuing s" using that cells_used(1) [OF inv p] by simp
    show "seq_at s p = p + 1 \<and> task_at s' p = Some (q_claimed s ! p)" if "p \<notin> enqueuing s"
      using that p other [of p] mine cells_used(2) [OF inv p] by auto
  next
    fix p assume "?e \<le> p" "p < ?d + ?c"
    then show "seq_at s p = (if ?c \<le> p \<and> p - ?c \<in> dequeuing s then p - ?c + 1 else p)"
      by (rule cells_free [OF inv])
  qed
  moreover have "queue_pc_ok (q_pc s' j) s'" for j
  proof (cases "j = i")
    case True
    then show ?thesis using own own' by (simp add: eqs)
  next
    case False
    have "p \<noteq> ?p" if "enq_holds (q_pc s j) = Some p" for p
      using that False pc conc_queue_invD(8) [OF inv] unfolding holders_apart_def by (metis enq_holds.simps(1))
    then show ?thesis using False conc_queue_invD(7) [OF inv, of j] other old
      by (cases "q_pc s j") (auto simp: eqs seq)
  qed
  moreover have "returns_ok s'" using conc_queue_invD(9) [OF inv] by (simp add: returns_ok_def eqs h)
  ultimately have "conc_queue_inv n s'" using inv h unfolding conc_queue_inv_def by (simp add: eqs)
  then show ?thesis by (simp add: s'_def)
qed

lemma enq_publish_ok:
  assumes inv: "conc_queue_inv n s" and n: "n < 2 ^ 62" and pc: "q_pc s i = Enq_publish x pos"
  shows "conc_queue_inv n (queue_access i (Enq_publish x pos) s)"
proof -
  define s' where "s' = queue_access i (Enq_publish x pos) s"
  let ?e = "q_enq s" and ?d = "q_deq s" and ?c = "q_cap s" and ?p = "unat pos"
  have own: "?d \<le> ?p" "?p < ?e" "q_claimed s ! ?p = x" "task_at s ?p = Some x"
    using conc_queue_invD(7) [OF inv, of i] pc by auto
  have sh: "mpmc_shape (q_queue s)" and full: "?e \<le> ?d + ?c" and de: "?d \<le> ?e" by (rule conc_queue_invD [OF inv])+
  have p1: "unat (pos + 1) = ?p + 1" using own(2) conc_queue_invD(4) [OF inv] n by (subst unat_Suc_lt) auto
  have eqs: "q_enq s' = ?e" "q_deq s' = ?d" "q_cap s' = ?c" "q_claimed s' = q_claimed s" "q_returned s' = q_returned s"
    "q_pc s' = (q_pc s)(i := Queue_idle)" "mpmc_shape (q_queue s')"
    using sh by (simp_all add: s'_def Let_def)
  have at: "cell_at (q_queue s') p = (if p mod ?c = ?p mod ?c then (cell_at (q_queue s) ?p)\<lparr>sequence := pos + 1\<rparr> else cell_at (q_queue s) p)" for p
    by (simp add: s'_def Let_def set_cell_at [OF sh] cell_of_at [OF sh])
  have tk: "task_at s' p = task_at s p" for p using cell_at_cong [of p "q_queue s" ?p] by (simp add: at)
  have own': "seq_at s' ?p = ?p + 1" by (simp add: at p1)
  have other: "seq_at s' p = seq_at s p" if "?d \<le> p" "p < ?d + ?c" "p \<noteq> ?p" for p
    using that own full window_same [of ?d p ?c ?p] by (simp add: at)
  have h: "enqueuing s' = enqueuing s - {?p}" "dequeuing s' = dequeuing s" "holders_apart s'"
    using holders_loss [OF conc_queue_invD(8) [OF inv] _ _ eqs(6)] pc by auto
  have "cells_ok s'"
  proof (rule cells_okI; unfold eqs h tk)
    fix p assume p: "?d \<le> p" "p < ?e"
    show "seq_at s' p = p" if "p \<in> enqueuing s - {?p}"
      using that p full other cells_used(1) [OF inv p] by simp
    show "seq_at s' p = p + 1 \<and> task_at s p = Some (q_claimed s ! p)" if "p \<notin> enqueuing s - {?p}"
      using that p full other own own' cells_used(2) [OF inv p] by (cases "p = ?p") auto
  next
    fix p assume p: "?e \<le> p" "p < ?d + ?c"
    show "seq_at s' p = (if ?c \<le> p \<and> p - ?c \<in> dequeuing s then p - ?c + 1 else p)"
      using p own de other cells_free [OF inv p] by simp
  qed
  have front: "seq_at s' ?d = ?d + 1" if "seq_at s ?d = ?d + 1"
    using that own own' full other [of ?d] by (cases "?d = ?p") auto
  have "queue_pc_ok (q_pc s' j) s'" for j
    using conc_queue_invD(7) [OF inv, of j] other own front full
    by (cases "q_pc s j") (auto simp: eqs tk)
  moreover note \<open>cells_ok s'\<close>
  moreover have "returns_ok s'" using conc_queue_invD(9) [OF inv] by (simp add: returns_ok_def eqs h)
  ultimately have "conc_queue_inv n s'" using inv h unfolding conc_queue_inv_def by (simp add: eqs)
  then show ?thesis by (simp add: s'_def)
qed

section \<open>The consumer's steps\<close>

lemma deq_seq_ok:
  assumes inv: "conc_queue_inv n s" and n: "n < 2 ^ 62" and pc: "q_pc s i = Deq_seq pos"
  shows "conc_queue_inv n (queue_access i (Deq_seq pos) s)"
proof -
  have le: "unat pos \<le> q_deq s" using conc_queue_invD(7) [OF inv, of i] pc by simp
  have sh: "mpmc_shape (q_queue s)" and cap: "16 \<le> q_cap s"
    using conc_queue_invD(1) [OF inv] mpmc_cap_bounds(1) by auto
  have p1: "unat (pos + 1) = unat pos + 1"
    using le conc_queue_invD(2,4) [OF inv] n by (subst unat_Suc_lt) auto
  have "queue_pc_ok (Deq_cas pos) s" if "sequence (cell_of pos (q_queue s)) = pos + 1"
  proof -
    have seq: "seq_at s (unat pos) = unat pos + 1" using that p1 by (simp add: cell_of_at [OF sh])
    have "q_deq s \<noteq> q_enq s" if "unat pos = q_deq s"
      using cells_free [OF inv, of "q_deq s"] seq that cap by (auto split: if_splits)
    then show ?thesis using le seq conc_queue_invD(2) [OF inv] by auto
  qed
  then show ?thesis using queue_goes_ok [OF inv] pc le by (auto simp: Let_def sint_inj)
qed

lemma deq_claim_ok:
  assumes inv: "conc_queue_inv n s" and n: "n < 2 ^ 62" and pc: "q_pc s i = Deq_cas pos"
    and cas: "m_dequeuePos (q_queue s) = pos"
  shows "conc_queue_inv n (queue_access i (Deq_cas pos) s)"
proof -
  define s' where "s' = queue_access i (Deq_cas pos) s"
  let ?e = "q_enq s" and ?d = "q_deq s" and ?c = "q_cap s"
  have pos: "unat pos = ?d" using cas by simp
  have ready: "?d < ?e" "seq_at s ?d = ?d + 1" using conc_queue_invD(7) [OF inv, of i] pc pos by auto
  have full: "?e \<le> ?d + ?c" and en: "?e \<le> n" by (rule conc_queue_invD [OF inv])+
  have d1: "unat (pos + 1) = ?d + 1" using ready en n pos by (subst unat_Suc_lt) auto
  have eqs: "q_enq s' = ?e" "q_deq s' = Suc ?d" "q_cap s' = ?c" "cell_at (q_queue s') p = cell_at (q_queue s) p"
    "q_claimed s' = q_claimed s" "q_returned s' = q_returned s" "q_pc s' = (q_pc s)(i := Deq_task pos)"
    "mpmc_shape (q_queue s') = mpmc_shape (q_queue s)" for p
    using cas d1 by (simp_all add: s'_def Let_def cell_at_def mpmc_shape_def)
  have new: "?d \<notin> dequeuing s" using dequeuing_window(1) [OF inv] by blast
  have pub: "?d \<notin> enqueuing s" using enqueuing_window(3) [OF inv] ready(2) by fastforce
  have h: "enqueuing s' = enqueuing s" "dequeuing s' = insert ?d (dequeuing s)" "holders_apart s'"
    using holders_gain [OF _ _ eqs(7)] pc new conc_queue_invD(8) [OF inv] pos by auto
  have "cells_ok s'"
  proof (rule cells_okI; unfold eqs h)
    fix p assume "Suc ?d \<le> p" and e: "p < ?e"
    then have d: "?d \<le> p" by simp
    show "seq_at s p = p" if "p \<in> enqueuing s" using cells_used(1) [OF inv d e that] .
    show "seq_at s p = p + 1 \<and> task_at s p = Some (q_claimed s ! p)" if "p \<notin> enqueuing s"
      using cells_used(2) [OF inv d e that] .
  next
    fix p assume p: "?e \<le> p" "p < Suc ?d + ?c"
    show "seq_at s p = (if ?c \<le> p \<and> p - ?c \<in> insert ?d (dequeuing s) then p - ?c + 1 else p)"
    proof (cases "p = ?d + ?c")
      case True
      then show ?thesis using ready(2) cell_at_round [of "q_queue s" ?d] by simp
    next
      case False
      then show ?thesis using p cells_free [OF inv p(1)] by auto
    qed
  qed
  moreover have "queue_pc_ok (q_pc s' j) s'" for j
  proof (cases "j = i")
    case True
    then show ?thesis using pos full cells_used(2) [OF inv order_refl ready(1) pub] by (simp add: eqs)
  next
    case False
    have "p \<noteq> ?d" if "enq_holds (q_pc s j) = Some p" for p using holder_in(1) [OF that] pub by metis
    then show ?thesis using False conc_queue_invD(7) [OF inv, of j]
      by (cases "q_pc s j") (auto simp: eqs le_less Suc_le_eq)
  qed
  moreover have "returns_ok s'"
  proof -
    have "?d \<notin> set (map fst (q_returned s))" using returned_lt [OF inv] by fastforce
    then show ?thesis using conc_queue_invD(9) [OF inv] by (auto simp: returns_ok_def eqs h lessThan_Suc)
  qed
  ultimately have "conc_queue_inv n s'"
    using inv h ready full unfolding conc_queue_inv_def by (simp add: eqs)
  then show ?thesis by (simp add: s'_def)
qed

lemma deq_clear_ok:
  assumes inv: "conc_queue_inv n s" and pc: "q_pc s i = Deq_clear pos x"
  shows "conc_queue_inv n (queue_access i (Deq_clear pos x) s)"
proof -
  define s' where "s' = queue_access i (Deq_clear pos x) s"
  let ?e = "q_enq s" and ?d = "q_deq s" and ?c = "q_cap s" and ?p = "unat pos"
  have own: "?p < ?d" "?e \<le> ?p + ?c" "x = Some (q_claimed s ! ?p)" using conc_queue_invD(7) [OF inv, of i] pc by auto
  have sh: "mpmc_shape (q_queue s)" and full: "?e \<le> ?d + ?c" and de: "?d \<le> ?e" by (rule conc_queue_invD [OF inv])+
  have eqs: "q_enq s' = ?e" "q_deq s' = ?d" "q_cap s' = ?c" "q_claimed s' = q_claimed s" "q_returned s' = q_returned s"
    "q_pc s' = (q_pc s)(i := Deq_publish pos x)" "mpmc_shape (q_queue s')"
    using sh by (simp_all add: s'_def Let_def)
  have at: "cell_at (q_queue s') p = (if p mod ?c = ?p mod ?c then (cell_at (q_queue s) ?p)\<lparr>task := None\<rparr> else cell_at (q_queue s) p)" for p
    by (simp add: s'_def Let_def set_cell_at [OF sh] cell_of_at [OF sh])
  have seq: "seq_at s' p = seq_at s p" for p using cell_at_cong [of p "q_queue s" ?p] by (simp add: at)
  have other: "task_at s' p = task_at s p" if "?d \<le> p" "p < ?e" for p
    using that own full de window_round [of ?d p ?c ?p] by (simp add: at)
  have old: "task_at s' p = task_at s p" if "p < ?d" "?e \<le> p + ?c" "p \<noteq> ?p" for p
    using that own de window_old [of p ?d ?c ?p] by (simp add: at)
  have h: "enqueuing s' = enqueuing s" "dequeuing s' = dequeuing s" "holders_apart s'"
    using holders_same [OF _ _ eqs(6)] pc conc_queue_invD(8) [OF inv] by auto
  have "cells_ok s'"
  proof (rule cells_okI; unfold eqs h seq)
    fix p assume p: "?d \<le> p" "p < ?e"
    show "seq_at s p = p" if "p \<in> enqueuing s" using cells_used(1) [OF inv p that] .
    show "seq_at s p = p + 1 \<and> task_at s' p = Some (q_claimed s ! p)" if "p \<notin> enqueuing s"
      using other [OF p] cells_used(2) [OF inv p that] by simp
  next
    fix p assume "?e \<le> p" "p < ?d + ?c"
    then show "seq_at s p = (if ?c \<le> p \<and> p - ?c \<in> dequeuing s then p - ?c + 1 else p)"
      by (rule cells_free [OF inv])
  qed
  moreover have "queue_pc_ok (q_pc s' j) s'" for j
  proof (cases "j = i")
    case True
    then show ?thesis using own by (simp add: eqs)
  next
    case False
    have "p \<noteq> ?p" if "deq_holds (q_pc s j) = Some p" for p
      using that False pc conc_queue_invD(8) [OF inv] unfolding holders_apart_def by (metis deq_holds.simps(2))
    then show ?thesis using False conc_queue_invD(7) [OF inv, of j] other old
      by (cases "q_pc s j") (auto simp: eqs seq)
  qed
  moreover have "returns_ok s'" using conc_queue_invD(9) [OF inv] by (simp add: returns_ok_def eqs h)
  ultimately have "conc_queue_inv n s'" using inv h unfolding conc_queue_inv_def by (simp add: eqs)
  then show ?thesis by (simp add: s'_def)
qed

lemma deq_publish_ok:
  assumes inv: "conc_queue_inv n s" and n: "n < 2 ^ 62" and pc: "q_pc s i = Deq_publish pos x"
  shows "conc_queue_inv n (queue_access i (Deq_publish pos x) s)"
proof -
  define s' where "s' = queue_access i (Deq_publish pos x) s"
  let ?e = "q_enq s" and ?d = "q_deq s" and ?c = "q_cap s" and ?p = "unat pos"
  have own: "?p < ?d" "?e \<le> ?p + ?c" "x = Some (q_claimed s ! ?p)" using conc_queue_invD(7) [OF inv, of i] pc by auto
  have sh: "mpmc_shape (q_queue s)" and full: "?e \<le> ?d + ?c" and de: "?d \<le> ?e" and en: "?e \<le> n"
    by (rule conc_queue_invD [OF inv])+
  have "pos + q_mask (q_queue s) + 1 = pos + q_capacity (q_queue s)"
    using mpmc_mask_Suc [OF sh] by (simp add: add.assoc)
  moreover have "?p + ?c < 2 ^ 64" using own(1) de en n mpmc_cap_bounds(2) [OF sh] by simp
  ultimately have pc1: "unat (pos + q_mask (q_queue s) + 1) = ?p + ?c"
    using unat_add_lt [of pos "q_capacity (q_queue s)"] by (simp only:) simp
  have eqs: "q_enq s' = ?e" "q_deq s' = ?d" "q_cap s' = ?c" "q_claimed s' = q_claimed s"
    "q_returned s' = q_returned s @ [(?p, x)]"
    "q_pc s' = (q_pc s)(i := Queue_idle)" "mpmc_shape (q_queue s')"
    using sh by (simp_all add: s'_def Let_def)
  have at: "cell_at (q_queue s') p = (if p mod ?c = ?p mod ?c
      then (cell_at (q_queue s) ?p)\<lparr>sequence := pos + q_mask (q_queue s) + 1\<rparr> else cell_at (q_queue s) p)" for p
    by (simp add: s'_def Let_def set_cell_at [OF sh] cell_of_at [OF sh])
  have tk: "task_at s' p = task_at s p" for p using cell_at_cong [of p "q_queue s" ?p] by (simp add: at)
  have own': "seq_at s' (?p + ?c) = ?p + ?c" by (simp add: at pc1)
  have other: "seq_at s' p = seq_at s p" if "?d \<le> p" "p < ?d + ?c" "p \<noteq> ?p + ?c" for p
    using that own de window_round [of ?d p ?c ?p] by (simp add: at)
  have h: "enqueuing s' = enqueuing s" "dequeuing s' = dequeuing s - {?p}" "holders_apart s'"
    using holders_loss [OF conc_queue_invD(8) [OF inv] _ _ eqs(6)] pc by auto
  have "cells_ok s'"
  proof (rule cells_okI; unfold eqs h tk)
    fix p assume p: "?d \<le> p" "p < ?e"
    then have o: "seq_at s' p = seq_at s p" using own full by (intro other) auto
    show "seq_at s' p = p" if "p \<in> enqueuing s" using o cells_used(1) [OF inv p that] by simp
    show "seq_at s' p = p + 1 \<and> task_at s p = Some (q_claimed s ! p)" if "p \<notin> enqueuing s"
      using o cells_used(2) [OF inv p that] by simp
  next
    fix p assume p: "?e \<le> p" "p < ?d + ?c"
    show "seq_at s' p = (if ?c \<le> p \<and> p - ?c \<in> dequeuing s - {?p} then p - ?c + 1 else p)"
      using own own' de p other cells_free [OF inv p] by (cases "p = ?p + ?c") auto
  qed
  moreover have "queue_pc_ok (q_pc s' j) s'" for j
  proof -
    have "seq_at s' ?e = ?e" if "?e < ?d + ?c" "seq_at s ?e = ?e"
      using that own' other [of ?e] de by (cases "?e = ?p + ?c") auto
    moreover have "seq_at s' ?d = seq_at s ?d" if "?d < ?e" using that own full by (intro other) auto
    ultimately show ?thesis using conc_queue_invD(7) [OF inv, of j] by (cases "q_pc s j") (auto simp: eqs tk)
  qed
  moreover have "returns_ok s'"
  proof -
    have "?p \<in> dequeuing s" using holder_in(2) [of s i] pc by simp
    then show ?thesis using conc_queue_invD(9) [OF inv] own by (auto simp: returns_ok_def eqs h)
  qed
  ultimately have "conc_queue_inv n s'" using inv h unfolding conc_queue_inv_def by (simp add: eqs)
  then show ?thesis by (simp add: s'_def)
qed

lemma queue_access_ok:
  assumes inv: "conc_queue_inv n s" and n: "n < 2 ^ 62"
  shows "conc_queue_inv (Suc n) (queue_access i (q_pc s i) s)"
proof -
  have mono: "conc_queue_inv (Suc n) t" if "conc_queue_inv n t" for t
    using that by (auto simp: conc_queue_inv_def)
  note ok = conc_queue_invD(7) [OF inv, of i]
  show ?thesis
  proof (cases "q_pc s i")
    case (Enq_cas x pos)
    show ?thesis
    proof (cases "m_enqueuePos (q_queue s) = pos")
      case True
      then show ?thesis using enq_claim_ok [OF inv n Enq_cas] Enq_cas by simp
    next
      case False
      then show ?thesis using Enq_cas mono [OF queue_goes_ok [OF inv]] by (simp add: Let_def)
    qed
  next
    case (Deq_cas pos)
    show ?thesis
    proof (cases "m_dequeuePos (q_queue s) = pos")
      case True
      then show ?thesis using mono [OF deq_claim_ok [OF inv n Deq_cas]] Deq_cas by simp
    next
      case False
      then show ?thesis using Deq_cas mono [OF queue_goes_ok [OF inv]] by (simp add: Let_def)
    qed
  next
    case (Deq_task pos)
    have "queue_pc_ok (Deq_clear pos (task (cell_of pos (q_queue s)))) s"
      using ok Deq_task cell_of_at [OF conc_queue_invD(1) [OF inv]] by simp
    then show ?thesis using Deq_task mono [OF queue_goes_ok [OF inv]] by simp
  qed (use mono inv n enq_seq_ok enq_task_ok enq_publish_ok deq_seq_ok deq_clear_ok deq_publish_ok
        queue_goes_ok [OF inv] in simp_all)
qed

lemma queue_exec_ok:
  assumes inv: "conc_queue_inv n s" and n: "n < 2 ^ 62"
  shows "conc_queue_inv (Suc n) (queue_exec e s)"
proof -
  have mono: "conc_queue_inv (Suc n) t" if "conc_queue_inv n t" for t
    using that by (auto simp: conc_queue_inv_def)
  show ?thesis
  proof (cases e)
    case (Queue_weak_fail i)
    have "conc_queue_inv n (queue_weak_fail i (q_pc s i) s)"
      using inv queue_goes_ok [OF inv] by (cases "q_pc s i") auto
    then show ?thesis using Queue_weak_fail mono by simp
  qed (use mono inv queue_goes_ok [OF inv] queue_access_ok [OF inv n] in auto)
qed

lemma queue_run_ok:
  assumes "conc_queue_inv n s" and "n + length evs < 2 ^ 62"
  shows "conc_queue_inv (n + length evs) (queue_run evs s)"
  using assms
proof (induction evs arbitrary: n s)
  case Nil
  then show ?case by (simp add: queue_run_def)
next
  case (Cons e evs)
  then show ?case
    using queue_exec_ok [of n s e] Cons.IH [of "Suc n" "queue_exec e s"] by (simp add: queue_run_def)
qed

lemma conc_queue_new_ok:
  assumes "unat capacity \<le> 2 ^ 62"
  shows "conc_queue_inv 0 (conc_queue_new capacity)"
proof -
  let ?q = "MpmcTaskQueue_new capacity"
  have ok: "mpmc_ok ?q" using MpmcTaskQueue_new_ok(1) [OF assms] .
  have "m_enqueuePos ?q = 0" "m_dequeuePos ?q = 0" by (simp_all add: MpmcTaskQueue_new_def Let_def)
  then show ?thesis using ok
    by (simp add: conc_queue_inv_def conc_queue_new_def mpmc_ok_def cells_ok_def enqueuing_def dequeuing_def
        holders_apart_def returns_ok_def)
qed

section \<open>Negative answers\<close>

text \<open>
  Every position shares its cell with one in the window; an older position's lies at least one
  round later.
\<close>

lemma window_of:
  fixes p d c :: nat
  assumes "0 < c"
  obtains p' where "d \<le> p'" and "p' < d + c" and "p' mod c = p mod c" and "p < d \<Longrightarrow> p + c \<le> p'"
proof -
  define p' where "p' = d + (p + c * d - d) mod c"
  have "d \<le> c * d" using assms by (cases c) auto
  then have e: "d + (p + c * d - d) = p + c * d" by linarith
  have "p' mod c = (d + (p + c * d - d)) mod c" by (simp add: p'_def mod_add_right_eq)
  then have m: "p' mod c = p mod c" unfolding e by simp
  have w: "d \<le> p'" "p' < d + c" using assms by (simp_all add: p'_def)
  have "p + c \<le> p'" if "p < d"
  proof -
    have "c dvd p' - p" using m w(1) that by (simp add: mod_eq_dvd_iff_nat)
    then have "c \<le> p' - p" using w(1) that by (intro dvd_imp_le) auto
    then show ?thesis using w(1) that by linarith
  qed
  then show ?thesis using that [of p'] w m by blast
qed

lemma seq_in_window:
  assumes inv: "conc_queue_inv n s" and p: "q_deq s \<le> p" "p < q_deq s + q_cap s"
  shows "q_cap s \<le> p \<Longrightarrow> p - q_cap s < seq_at s p" and "seq_at s p \<le> p + 1"
proof -
  have c: "0 < q_cap s" using mpmc_cap_bounds(1) [OF conc_queue_invD(1) [OF inv]] by simp
  have "(q_cap s \<le> p \<longrightarrow> p - q_cap s < seq_at s p) \<and> seq_at s p \<le> p + 1"
  proof (cases "p < q_enq s")
    case True
    show ?thesis using cells_used(3) [OF inv p(1) True] c by auto
  next
    case False
    then show ?thesis using cells_free [OF inv _ p(2)] c by auto
  qed
  then show "q_cap s \<le> p \<Longrightarrow> p - q_cap s < seq_at s p" "seq_at s p \<le> p + 1" by auto
qed

text \<open>An index that was read too long ago finds a later sequence number.\<close>

lemma seq_older:
  assumes inv: "conc_queue_inv n s" and lt: "p < q_deq s"
  shows "p < seq_at s p"
proof -
  have "0 < q_cap s" using mpmc_cap_bounds(1) [OF conc_queue_invD(1) [OF inv]] by simp
  then obtain p' where p': "q_deq s \<le> p'" "p' < q_deq s + q_cap s" "p' mod q_cap s = p mod q_cap s"
    and "p < q_deq s \<Longrightarrow> p + q_cap s \<le> p'" using window_of [where d = "q_deq s" and p = p] by metis
  then have round: "p + q_cap s \<le> p'" using lt by blast
  then have "p' - q_cap s < seq_at s p'" by (intro seq_in_window(1) [OF inv p'(1,2)]) simp
  then show ?thesis using cell_at_cong [OF p'(3)] round by simp
qed

lemma seq_small:
  assumes inv: "conc_queue_inv n s" and n: "n < 2 ^ 62"
  shows "seq_at s p < 2 ^ 63" and "q_enq s < 2 ^ 62"
proof -
  obtain k where k: "k \<le> 62" "q_cap s = 2 ^ k" using conc_queue_invD(1) [OF inv] by (rule mpmc_shapeE)
  have c: "q_cap s \<le> 2 ^ 62" unfolding k(2) by (rule power_increasing [OF k(1)]) simp
  show e: "q_enq s < 2 ^ 62" using conc_queue_invD(4) [OF inv] n by simp
  have "0 < q_cap s" using k by simp
  then obtain p' where p': "q_deq s \<le> p'" "p' < q_deq s + q_cap s" "p' mod q_cap s = p mod q_cap s"
    using window_of [where d = "q_deq s" and p = p] by metis
  have "seq_at s p = seq_at s p'" using cell_at_cong [OF p'(3)] by simp
  also have "\<dots> \<le> p' + 1" by (rule seq_in_window(2) [OF inv p'(1,2)])
  finally show "seq_at s p < 2 ^ 63" using p'(2) c e conc_queue_invD(2) [OF inv] by simp
qed

lemma seq_less:
  fixes pos' :: usize
  assumes inv: "conc_queue_inv n s" and n: "n < 2 ^ 62" and pos: "unat pos' \<le> 2 ^ 62"
    and neg: "sint (sequence (cell_of pos (q_queue s))) < sint pos'"
  shows "seq_at s (unat pos) < unat pos'"
proof -
  have "sint pos' = int (unat pos')" using pos sint_small [of pos'] by simp
  moreover have "sint (sequence (cell_at (q_queue s) (unat pos))) = int (seq_at s (unat pos))"
    using seq_small(1) [OF inv n] by (intro sint_small) simp
  ultimately have "int (seq_at s (unat pos)) < int (unat pos')"
    using neg unfolding cell_of_at [OF conc_queue_invD(1) [OF inv]] by (simp only:)
  then show ?thesis by (simp only: of_nat_less_iff)
qed

lemma enq_refused:
  assumes inv: "conc_queue_inv n s" and n: "n < 2 ^ 62" and pc: "q_pc s i = Enq_seq x pos"
    and neg: "sint (sequence (cell_of pos (q_queue s))) < sint pos"
  shows "q_cap s \<le> q_enq s \<and> q_enq s - q_cap s \<notin> set (map fst (q_returned s))"
proof -
  let ?p = "unat pos"
  have le: "?p \<le> q_enq s" using conc_queue_invD(7) [OF inv, of i] pc by simp
  have lt: "seq_at s ?p < ?p" by (rule seq_less [OF inv n _ neg]) (use le seq_small(2) [OF inv n] in simp)
  have "\<not> ?p < q_deq s" using seq_older [OF inv, of ?p] lt by auto
  moreover have "\<not> ?p < q_enq s" if "q_deq s \<le> ?p" using cells_used(3) [OF inv that] lt by fastforce
  ultimately have p: "?p = q_enq s" using le by auto
  show ?thesis
  proof (cases "q_enq s < q_deq s + q_cap s")
    case True
    then have "q_cap s \<le> q_enq s" "q_enq s - q_cap s \<in> dequeuing s"
      using cells_free [OF inv order_refl True] lt p by (auto split: if_splits)
    then show ?thesis using conc_queue_invD(9) [OF inv] unfolding returns_ok_def by blast
  next
    case False
    then have "q_enq s - q_cap s = q_deq s" "q_cap s \<le> q_enq s" using conc_queue_invD(3) [OF inv] by auto
    moreover have "q_deq s \<notin> set (map fst (q_returned s))" using returned_lt [OF inv] by fastforce
    ultimately show ?thesis by simp
  qed
qed

lemma deq_refused:
  assumes inv: "conc_queue_inv n s" and n: "n < 2 ^ 62" and pc: "q_pc s i = Deq_seq pos"
    and neg: "sint (sequence (cell_of pos (q_queue s))) < sint (pos + 1)"
  shows "q_deq s = q_enq s \<or> q_deq s \<in> enqueuing s"
proof -
  let ?p = "unat pos"
  have le: "?p \<le> q_deq s" using conc_queue_invD(7) [OF inv, of i] pc by simp
  have small: "?p < 2 ^ 62" using le seq_small(2) [OF inv n] conc_queue_invD(2) [OF inv] by simp
  then have p1: "unat (pos + 1) = ?p + 1" by (subst unat_Suc_lt) auto
  have lt: "seq_at s ?p < ?p + 1" unfolding p1 [symmetric] by (rule seq_less [OF inv n _ neg]) (use small p1 in simp)
  have "\<not> ?p < q_deq s" using seq_older [OF inv, of ?p] lt by auto
  then have p: "?p = q_deq s" using le by simp
  show ?thesis
  proof (cases "q_deq s < q_enq s")
    case True
    then show ?thesis using cells_used(2) [OF inv order_refl True] lt p by auto
  next
    case False
    then show ?thesis using conc_queue_invD(2) [OF inv] by simp
  qed
qed

section \<open>Properties\<close>

text \<open>The cell whose \<open>task\<close> field a thread accesses next, outside every atomic operation.\<close>

fun plain_access :: "queue_pc \<Rightarrow> mpmc_queue \<Rightarrow> nat option" where
  "plain_access (Enq_task x pos) q = Some (unat (pos AND q_mask q))"
| "plain_access (Deq_task pos) q = Some (unat (pos AND q_mask q))"
| "plain_access (Deq_clear pos x) q = Some (unat (pos AND q_mask q))"
| "plain_access _ q = None"

lemma no_race:
  assumes inv: "conc_queue_inv n s" and "i \<noteq> j" and "plain_access (q_pc s i) (q_queue s) = Some c"
  shows "plain_access (q_pc s j) (q_queue s) \<noteq> Some c"
proof
  assume j: "plain_access (q_pc s j) (q_queue s) = Some c"
  have sh: "mpmc_shape (q_queue s)" and full: "q_enq s \<le> q_deq s + q_cap s" and de: "q_deq s \<le> q_enq s"
    by (rule conc_queue_invD [OF inv])+
  have split: "\<exists>p. c = p mod q_cap s \<and> (enq_holds (q_pc s k) = Some p \<or> deq_holds (q_pc s k) = Some p)"
    if "plain_access (q_pc s k) (q_queue s) = Some c" for k
    using that by (cases "q_pc s k") (auto simp: mpmc_slot [OF sh])
  obtain p where p: "c = p mod q_cap s" "enq_holds (q_pc s i) = Some p \<or> deq_holds (q_pc s i) = Some p"
    using split [OF assms(3)] by blast
  obtain p' where p': "c = p' mod q_cap s" "enq_holds (q_pc s j) = Some p' \<or> deq_holds (q_pc s j) = Some p'"
    using split [OF j] by blast
  have win: "q_enq s \<le> p + q_cap s \<and> p < q_enq s" if "enq_holds (q_pc s k) = Some p \<or> deq_holds (q_pc s k) = Some p" for k p
    using that enqueuing_window(1,2) [OF inv, of p] dequeuing_window [OF inv, of p] holder_in [of s k p] full de by auto
  have "p = p'"
    using window_old [of p "q_enq s" "q_cap s" p'] win [OF p(2)] win [OF p'(2)] p(1) p'(1) by simp
  moreover have "\<not> (p \<in> enqueuing s \<and> p \<in> dequeuing s)"
    using enqueuing_window(1) [OF inv, of p] dequeuing_window(1) [OF inv, of p] by auto
  ultimately show False
    using p(2) p'(2) assms(2) conc_queue_invD(8) [OF inv] holder_in unfolding holders_apart_def by metis
qed

lemma idle_contents:
  assumes inv: "conc_queue_inv n s" and idle: "\<forall>i. q_pc s i = Queue_idle"
  shows "mpmc_inv (q_queue s)" and "mpmc_tasks (q_queue s) = drop (length (q_returned s)) (q_claimed s)"
    and "mset (map snd (q_returned s)) = mset (map Some (take (length (q_returned s)) (q_claimed s)))"
proof -
  have none: "enqueuing s = {}" "dequeuing s = {}" using idle by (auto simp: enqueuing_def dequeuing_def)
  have ok: "mpmc_ok (q_queue s)"
    using inv none by (auto simp: conc_queue_inv_def cells_ok_def mpmc_ok_def)
  have r: "distinct (map fst (q_returned s))" "set (map fst (q_returned s)) = {..<q_deq s}"
    using conc_queue_invD(9) [OF inv] none by (auto simp: returns_ok_def)
  then have len: "length (q_returned s) = q_deq s"
    using distinct_card [OF r(1)] by simp
  have dl: "q_deq s \<le> length (q_claimed s)" using conc_queue_invD(2,5) [OF inv] by simp
  have "mpmc_list (q_queue s) = map (\<lambda>p. Some (q_claimed s ! p)) [q_deq s..<q_enq s]"
    using conc_queue_invD(6) [OF inv] none by (auto simp: mpmc_list_def cells_ok_def)
  also have "\<dots> = map Some (drop (q_deq s) (q_claimed s))"
    using conc_queue_invD(5) [OF inv] by (auto simp: list_eq_iff_nth_eq)
  finally show "mpmc_inv (q_queue s)" "mpmc_tasks (q_queue s) = drop (length (q_returned s)) (q_claimed s)"
    using mpmc_tasksI [OF ok] len by auto
  have "map snd (q_returned s) = map (\<lambda>p. Some (q_claimed s ! p)) (map fst (q_returned s))"
    using conc_queue_invD(9) [OF inv] by (auto simp: returns_ok_def)
  also have "mset \<dots> = image_mset (\<lambda>p. Some (q_claimed s ! p)) (mset (map fst (q_returned s)))" by (simp only: mset_map)
  also have "mset (map fst (q_returned s)) = mset [0..<q_deq s]"
    using r by (intro set_eq_iff_mset_eq_distinct [THEN iffD1]) auto
  also have "image_mset (\<lambda>p. Some (q_claimed s ! p)) (mset [0..<q_deq s]) = mset (map Some (map (\<lambda>p. q_claimed s ! p) [0..<q_deq s]))"
    by (simp add: comp_def)
  also have "map (\<lambda>p. q_claimed s ! p) [0..<q_deq s] = take (q_deq s) (q_claimed s)"
    using dl by (auto simp: list_eq_iff_nth_eq)
  finally show "mset (map snd (q_returned s)) = mset (map Some (take (length (q_returned s)) (q_claimed s)))"
    using len by simp
qed

text \<open>
  C10: Under every interleaving of producers and consumers the queue is first-in first-out: each
  position is returned at most once, with the task that was put there, where positions are given
  out in the order of the producers' compare-exchanges. When no operation is under way, the
  first \<open>k\<close> tasks have been returned and the queue holds the others in order. No two threads
  ever access the plain field of one cell at the same time.
\<close>

theorem mpmc_interleaving_fifo:
  assumes "unat capacity \<le> 2 ^ 62" and "length evs < 2 ^ 62" and "s = queue_run evs (conc_queue_new capacity)"
  shows "distinct (map fst (q_returned s))
    \<and> (\<forall>(p, x) \<in> set (q_returned s). p < length (q_claimed s) \<and> x = Some (q_claimed s ! p))
    \<and> ((\<forall>i. q_pc s i = Queue_idle) \<longrightarrow> (let k = length (q_returned s)
         in mset (map snd (q_returned s)) = mset (map Some (take k (q_claimed s)))
            \<and> mpmc_inv (q_queue s) \<and> mpmc_tasks (q_queue s) = drop k (q_claimed s)))
    \<and> (\<forall>i j c. i \<noteq> j \<and> plain_access (q_pc s i) (q_queue s) = Some c \<longrightarrow> plain_access (q_pc s j) (q_queue s) \<noteq> Some c)"
proof -
  have inv: "conc_queue_inv (length evs) s"
    using queue_run_ok [OF conc_queue_new_ok [OF assms(1)], of evs] assms(2,3) by simp
  note r = conc_queue_invD(9) [OF inv]
  have "p < length (q_claimed s) \<and> x = Some (q_claimed s ! p)" if "(p, x) \<in> set (q_returned s)" for p x
    using returned_lt [OF inv that] conc_queue_invD(2,5) [OF inv] r that by (auto simp: returns_ok_def)
  moreover have "distinct (map fst (q_returned s))" using r by (simp add: returns_ok_def)
  ultimately show ?thesis using idle_contents [OF inv] no_race [OF inv] by (auto simp: Let_def)
qed

text \<open>Two producers and a consumer; the second producer publishes first.\<close>

definition two_producers :: "queue_event list" where
  "two_producers = [Call_enqueue 0 5, Queue_access 0, Queue_access 0, Queue_access 0]
     @ Call_enqueue 1 6 # replicate 5 (Queue_access 1)
     @ Call_dequeue 2 # replicate 2 (Queue_access 2)
     @ replicate 2 (Queue_access 0)
     @ Call_dequeue 2 # replicate 6 (Queue_access 2)"

theorem mpmc_interleaving_fifo_witness:
  "list_all (\<lambda>(p, x). p < 2 \<and> x = Some ([5, 6] ! p)) (q_returned (queue_run two_producers (conc_queue_new 16)))"
proof -
  have l: "length two_producers < 2 ^ 62" by (simp add: two_producers_def)
  have c: "q_claimed (queue_run two_producers (conc_queue_new 16)) = [5, 6]" by code_simp
  show ?thesis using mpmc_interleaving_fifo [OF _ l refl, of 16] c by (auto simp: list_all_iff)
qed

text \<open>
  C11: The negative answers are justified. A producer gives up only when a capacity's worth of
  positions is claimed and the consumer of the oldest of them has not finished; a consumer gives up
  only when every claimed position has been taken, or the producer of the next one has not finished.
\<close>

theorem mpmc_answers_justified:
  assumes "unat capacity \<le> 2 ^ 62" and "length evs < 2 ^ 62" and "s = queue_run evs (conc_queue_new capacity)"
    and "s' = queue_exec (Queue_access i) s"
  shows "(q_pc s i = Enq_seq x pos \<and> q_pc s' i = Queue_idle \<longrightarrow>
           q_cap s \<le> length (q_claimed s) \<and> length (q_claimed s) - q_cap s \<notin> set (map fst (q_returned s)))
    \<and> (q_pc s i = Deq_seq pos \<and> q_pc s' i = Queue_idle \<longrightarrow>
           q_deq s = length (q_claimed s) \<or> (\<exists>j. enq_holds (q_pc s j) = Some (q_deq s)))"
proof -
  have inv: "conc_queue_inv (length evs) s"
    using queue_run_ok [OF conc_queue_new_ok [OF assms(1)], of evs] assms(2,3) by simp
  have len: "length (q_claimed s) = q_enq s" by (rule conc_queue_invD [OF inv])
  have "sint (sequence (cell_of pos (q_queue s))) < sint pos" if "q_pc s i = Enq_seq x pos" "q_pc s' i = Queue_idle"
    using that by (simp add: assms(4) Let_def split: if_splits)
  moreover have "sint (sequence (cell_of pos (q_queue s))) < sint (pos + 1)"
    if "q_pc s i = Deq_seq pos" "q_pc s' i = Queue_idle"
    using that by (simp add: assms(4) Let_def split: if_splits)
  ultimately show ?thesis
    using enq_refused [OF inv assms(2), of i x pos] deq_refused [OF inv assms(2), of i pos]
    unfolding len enqueuing_def by blast
qed

theorem mpmc_answers_justified_witness:
  "let s = queue_run (take 12 two_producers) (conc_queue_new 16)
   in q_deq s = length (q_claimed s) \<or> (\<exists>j. enq_holds (q_pc s j) = Some (q_deq s))"
proof -
  let ?s = "queue_run (take 12 two_producers) (conc_queue_new 16)"
  have l: "length (take 12 two_producers) < 2 ^ 62" by (simp add: two_producers_def)
  have a: "q_pc ?s 2 = Deq_seq 0" "q_pc (queue_exec (Queue_access 2) ?s) 2 = Queue_idle" by code_simp+
  show ?thesis using mpmc_answers_justified [OF _ l refl refl, of 16 2 0 0] a by (simp add: Let_def)
qed

end
