(* ===== verification/Worker_Parking.thy ===== *)
theory Worker_Parking
  imports Scheduler
begin

text \<open>
  How workers go to sleep and are woken (\<^verbatim>\<open>task_scheduler.cpp\<close>): \<open>workerLoop\<close>, \<open>findWork\<close>,
  \<open>schedule\<close>, \<open>scheduleBatch\<close>, \<open>notifyWorker\<close> and \<open>shutdown\<close>, cut at every access to the sleeping count, to the
  wake signal, to the stop flag and to the queues, so that workers and other threads
  interleave freely. One call of a deque or of an injection queue is one step, as
  \<open>Deque_Runs\<close> and \<open>Concurrent_Queue\<close> justify; an enqueue is two, since a position that is claimed and
  not yet published holds up the consumers. A deque is the number of its tasks, an
  injection queue its claimed positions.

  What the schedule of the threads decides is a number carried by the event: the
  first victim, how many tasks a batch steal gets, whether a steal or an enqueue fails, what the
  device polling unblocks, which of several sleepers a \<open>notify_one\<close> wakes.

  The theorems: under sequential consistency no wake-up is lost, so a queued task always finds a thread about to
  announce it or a worker that is not asleep, and \<open>shutdown\<close> leaves no worker asleep. With
  the store buffers of x86 the first fails: the relaxed load of \<open>m_sleepingCount\<close> in \<open>schedule\<close> may be
  served before the publishing store is visible.
\<close>

section \<open>Program counters\<close>

datatype park_queue = Global_high | Global_normal

record queued =
  qd_by :: nat
  qd_ready :: bool

text \<open>\<open>notifyWorker\<close>, after the check of \<open>m_sleepingCount\<close> that \<open>schedule\<close> and \<open>scheduleBatch\<close> make.\<close>

datatype notify_pc =
    N_check u32
  | N_load u32
  | N_add u32
  | N_one u32
  | N_all

text \<open>\<open>findWork\<close>; \<open>Victim_batch start attempt\<close> and \<open>Victim_single start attempt\<close> are the two steals of its loop.\<close>

datatype find_stage =
    Own_deque
  | Queue_high
  | Queue_normal
  | Victim_batch u32 u32
  | Victim_single u32 u32
  | Own_again

text \<open>
  The calls of \<open>findWork\<close> in one iteration: \<open>Loop 0\<close>, the \<open>SPIN_COUNT\<close> calls of the spin loop, the one after the
  device was polled, and \<open>Check cs\<close>, the last one before parking on the signal \<open>cs\<close>.
\<close>

datatype find_round = Loop nat | Check u32

datatype worker_pc =
    W_top
  | W_find find_round find_stage
  | W_poll bool
  | W_sleep
  | W_signal
  | W_stop u32
  | W_leave
  | W_found
  | W_wait u32
  | W_blocked u32
  | W_woken
  | W_run bool
  | W_notify notify_pc worker_pc
  | W_drain
  | W_exit

text \<open>
  The calls of a thread outside the pool: \<open>schedule\<close>, \<open>scheduleBatch\<close>, and \<open>prepareRun\<close> or
  \<open>unblockSuccessors\<close>, which schedule quietly and call \<open>notifyWorker\<close> afterwards. \<open>X_claim\<close> and
  \<open>X_publish\<close> carry the number of tasks already queued and the queues of those to come.
\<close>

datatype call_kind = Schedule | Batch | Quiet

datatype ext_pc =
    X_idle
  | X_claim call_kind u32 "park_queue list"
  | X_publish call_kind u32 park_queue "park_queue list"
  | X_notify notify_pc ext_pc
  | X_stop_add
  | X_stop_all
  | X_join

record parking =
  p_workerCount :: u32
  p_sleeping :: u32
  p_signal :: u32
  p_stopped :: bool
  p_queue :: "park_queue \<Rightarrow> queued list"
  p_local :: "nat \<Rightarrow> nat"
  p_worker :: "nat \<Rightarrow> worker_pc"
  p_ext :: "nat \<Rightarrow> ext_pc"
  p_tso :: bool

definition parking_new :: "bool \<Rightarrow> u32 \<Rightarrow> parking" where
  "parking_new tso n = \<lparr>p_workerCount = n, p_sleeping = 0, p_signal = 0, p_stopped = False, p_queue = (\<lambda>_. []),
     p_local = (\<lambda>_. 0), p_worker = (\<lambda>_. W_top), p_ext = (\<lambda>_. X_idle), p_tso = tso\<rparr>"

definition worker_goes :: "nat \<Rightarrow> worker_pc \<Rightarrow> parking \<Rightarrow> parking" where
  "worker_goes w pc s = s\<lparr>p_worker := (p_worker s)(w := pc)\<rparr>"

definition ext_goes :: "nat \<Rightarrow> ext_pc \<Rightarrow> parking \<Rightarrow> parking" where
  "ext_goes i pc s = s\<lparr>p_ext := (p_ext s)(i := pc)\<rparr>"

abbreviation p_workers :: "parking \<Rightarrow> nat" where "p_workers s \<equiv> unat (p_workerCount s)"

section \<open>Waking\<close>

fun is_blocked :: "worker_pc \<Rightarrow> bool" where
  "is_blocked (W_blocked cs) = True"
| "is_blocked _ = False"

text \<open>A woken waiter compares the signal with the value it waits on, and sleeps on when they agree.\<close>

fun wake_pc :: "u32 \<Rightarrow> worker_pc \<Rightarrow> worker_pc" where
  "wake_pc sig (W_blocked cs) = (if cs = sig then W_blocked cs else W_woken)"
| "wake_pc sig pc = pc"

definition waiter :: "nat \<Rightarrow> parking \<Rightarrow> nat option" where
  "waiter c s = (if c < p_workers s \<and> is_blocked (p_worker s c) then Some c
     else List.find (\<lambda>w. is_blocked (p_worker s w)) [0..<p_workers s])"

definition wake_one :: "nat \<Rightarrow> parking \<Rightarrow> parking" where
  "wake_one c s = (case waiter c s of None \<Rightarrow> s | Some w \<Rightarrow> worker_goes w (wake_pc (p_signal s) (p_worker s w)) s)"

definition wake_all :: "parking \<Rightarrow> parking" where
  "wake_all s = s\<lparr>p_worker := (\<lambda>w. wake_pc (p_signal s) (p_worker s w))\<rparr>"

fun notify_access :: "nat \<Rightarrow> notify_pc \<Rightarrow> parking \<Rightarrow> notify_pc option \<times> parking" where
  "notify_access c (N_check k) s = (if 0 < p_sleeping s then Some (N_load k) else None, s)"
| "notify_access c (N_load k) s =
     (if p_sleeping s = 0 \<or> k = 0 then None else Some (N_add (min k (p_sleeping s))), s)"
| "notify_access c (N_add toWake) s =
     (Some (if toWake = 1 then N_one 1 else if p_workerCount s \<le> toWake then N_all else N_one toWake),
      s\<lparr>p_signal := p_signal s + toWake\<rparr>)"
| "notify_access c (N_one k) s = (if k = 1 then None else Some (N_one (k - 1)), wake_one c s)"
| "notify_access c N_all s = (None, wake_all s)"

section \<open>Workers\<close>

fun found :: "find_round \<Rightarrow> worker_pc" where
  "found (Loop k) = W_run False"
| "found (Check cs) = W_found"

fun not_found :: "find_round \<Rightarrow> worker_pc" where
  "not_found (Loop k) =
     (if k < SPIN_COUNT then W_find (Loop (k + 1)) Own_deque else if k = SPIN_COUNT then W_poll False else W_sleep)"
| "not_found (Check cs) = W_wait cs"

definition next_victim :: "u32 \<Rightarrow> find_round \<Rightarrow> u32 \<Rightarrow> u32 \<Rightarrow> worker_pc" where
  "next_victim n r start attempt =
     (if attempt + 1 < n then W_find r (Victim_batch start (attempt + 1)) else not_found r)"

text \<open>An injection queue gives its oldest position, if that one is published.\<close>

fun take_head :: "queued list \<Rightarrow> queued list option" where
  "take_head [] = None"
| "take_head (e # es) = (if qd_ready e then Some es else None)"

definition scan_queue :: "nat \<Rightarrow> park_queue \<Rightarrow> worker_pc \<Rightarrow> worker_pc \<Rightarrow> parking \<Rightarrow> parking" where
  "scan_queue w q yes no s = (case take_head (p_queue s q) of
       None \<Rightarrow> worker_goes w no s
     | Some es \<Rightarrow> worker_goes w yes (s\<lparr>p_queue := (p_queue s)(q := es)\<rparr>))"

definition pop_own :: "nat \<Rightarrow> worker_pc \<Rightarrow> worker_pc \<Rightarrow> parking \<Rightarrow> parking" where
  "pop_own w yes no s = (if p_local s w = 0 then worker_goes w no s
     else worker_goes w yes (s\<lparr>p_local := (p_local s)(w := p_local s w - 1)\<rparr>))"

fun find_access :: "nat \<Rightarrow> nat \<Rightarrow> find_round \<Rightarrow> find_stage \<Rightarrow> parking \<Rightarrow> parking" where
  "find_access w c r Own_deque s = pop_own w (found r) (W_find r Queue_high) s"
| "find_access w c r Queue_high s = scan_queue w Global_high (found r) (W_find r Queue_normal) s"
| "find_access w c r Queue_normal s =
     scan_queue w Global_normal (found r) (W_find r (Victim_batch (of_nat c mod p_workerCount s) 0)) s"
| "find_access w c r (Victim_batch start attempt) s =
     (let victim = unat ((start + attempt) mod p_workerCount s); stolen = min c (p_local s victim)
      in if victim = w then worker_goes w (next_victim (p_workerCount s) r start attempt) s
         else if 0 < stolen
         then worker_goes w (W_find r Own_again)
                (s\<lparr>p_local := (p_local s)(victim := p_local s victim - stolen, w := p_local s w + stolen)\<rparr>)
         else worker_goes w (W_find r (Victim_single start attempt)) s)"
| "find_access w c r (Victim_single start attempt) s =
     (let victim = unat ((start + attempt) mod p_workerCount s)
      in if 0 < c \<and> 0 < p_local s victim
         then worker_goes w (found r) (s\<lparr>p_local := (p_local s)(victim := p_local s victim - 1)\<rparr>)
         else worker_goes w (next_victim (p_workerCount s) r start attempt) s)"
| "find_access w c r Own_again s = pop_own w (found r) (not_found r) s"

text \<open>
  \<open>W_run d\<close> executes a task, and with \<open>d\<close> it is one of those left at shutdown; \<open>W_poll\<close> is
  \<open>pollTimelineFallback\<close>, whose two notifications depend on the device and on the clock.
\<close>

fun worker_access :: "nat \<Rightarrow> nat \<Rightarrow> worker_pc \<Rightarrow> parking \<Rightarrow> parking" where
  "worker_access w c W_top s = worker_goes w (if p_stopped s then W_drain else W_find (Loop 0) Own_deque) s"
| "worker_access w c (W_find r st) s = find_access w c r st s"
| "worker_access w c (W_poll timeouts) s =
     (let after = (if timeouts then W_find (Loop (SPIN_COUNT + 1)) Own_deque else W_poll True)
      in worker_goes w (if c = 0 then after
           else W_notify (N_load (if timeouts then p_workerCount s else of_nat c)) after) s)"
| "worker_access w c W_sleep s = worker_goes w W_signal (s\<lparr>p_sleeping := p_sleeping s + 1\<rparr>)"
| "worker_access w c W_signal s = worker_goes w (W_stop (p_signal s)) s"
| "worker_access w c (W_stop cs) s = worker_goes w (if p_stopped s then W_leave else W_find (Check cs) Own_deque) s"
| "worker_access w c W_leave s = worker_goes w W_drain (s\<lparr>p_sleeping := p_sleeping s - 1\<rparr>)"
| "worker_access w c W_found s = worker_goes w (W_run False) (s\<lparr>p_sleeping := p_sleeping s - 1\<rparr>)"
| "worker_access w c (W_wait cs) s = worker_goes w (if cs = p_signal s then W_blocked cs else W_woken) s"
| "worker_access w c (W_blocked cs) s = s"
| "worker_access w c W_woken s = worker_goes w W_top (s\<lparr>p_sleeping := p_sleeping s - 1\<rparr>)"
| "worker_access w c (W_run d) s = worker_goes w (if d then W_drain else W_top) s"
| "worker_access w c (W_notify np after) s =
     (case notify_access c np s of
        (None, s') \<Rightarrow> worker_goes w after s'
      | (Some np', s') \<Rightarrow> worker_goes w (W_notify np' after) s')"
| "worker_access w c W_drain s = pop_own w (W_run True) W_exit s"
| "worker_access w c W_exit s = s"

section \<open>Other threads\<close>

definition publish :: "nat \<Rightarrow> queued list \<Rightarrow> queued list" where
  "publish i = map (\<lambda>e. if qd_by e = i then e\<lparr>qd_ready := True\<rparr> else e)"

text \<open>An atomic read-modify-write empties the store buffer of its thread.\<close>

definition drain_stores :: "nat \<Rightarrow> parking \<Rightarrow> parking" where
  "drain_stores i s = s\<lparr>p_queue := (\<lambda>q. publish i (p_queue s q))\<rparr>"

definition after_publish :: "call_kind \<Rightarrow> u32 \<Rightarrow> park_queue list \<Rightarrow> ext_pc" where
  "after_publish kind queued qs =
     (if qs = [] then X_notify (if kind = Quiet then N_load queued else N_check queued) X_idle
      else X_claim kind queued qs)"

fun ext_access :: "nat \<Rightarrow> nat \<Rightarrow> ext_pc \<Rightarrow> parking \<Rightarrow> parking" where
  "ext_access i c X_idle s = s"
| "ext_access i c (X_claim kind queued []) s = s"
| "ext_access i c (X_claim kind queued (q # qs)) s =
     (if c = 0
      then if kind = Batch then s else ext_goes i (X_notify (N_load (p_workerCount s)) (X_claim kind queued (q # qs))) s
      else let s' = drain_stores i s
           in ext_goes i (X_publish kind queued q qs)
                (s'\<lparr>p_queue := (p_queue s')(q := p_queue s' q @ [\<lparr>qd_by = i, qd_ready = False\<rparr>])\<rparr>))"
| "ext_access i c (X_publish kind queued q qs) s = ext_goes i (after_publish kind (queued + 1) qs) (drain_stores i s)"
| "ext_access i c (X_notify np after) s =
     (case notify_access c np (case np of N_add m \<Rightarrow> drain_stores i s | _ \<Rightarrow> s) of
        (None, s') \<Rightarrow> ext_goes i after s'
      | (Some np', s') \<Rightarrow> ext_goes i (X_notify np' after) s')"
| "ext_access i c X_stop_add s =
     (let s' = drain_stores i s in ext_goes i X_stop_all (s'\<lparr>p_signal := p_signal s' + 1\<rparr>))"
| "ext_access i c X_stop_all s = ext_goes i X_join (wake_all s)"
| "ext_access i c X_join s = s"

text \<open>With store buffers, the publishing store may be left in the buffer for a while.\<close>

fun ext_delay :: "nat \<Rightarrow> ext_pc \<Rightarrow> parking \<Rightarrow> parking" where
  "ext_delay i (X_publish kind queued q qs) s = (if p_tso s then ext_goes i (after_publish kind (queued + 1) qs) s else s)"
| "ext_delay i pc s = s"

fun publishing :: "ext_pc \<Rightarrow> bool" where
  "publishing (X_publish kind queued q qs) = True"
| "publishing _ = False"

section \<open>Events\<close>

text \<open>
  \<open>Work_push\<close> and \<open>Work_notify\<close> are the calls a worker makes while it executes a task or polls the device;
  \<open>Help_take\<close> and \<open>Help_steal\<close> are the two ways a thread in \<open>helpUntil\<close> obtains a task.
\<close>

datatype park_event =
    Call_schedule nat call_kind "park_queue list"
  | Call_notify nat u32
  | Call_shutdown nat
  | Ext_step nat nat
  | Ext_delay nat
  | Ext_drain nat
  | Help_take park_queue
  | Help_steal nat
  | Work_step nat nat
  | Work_push nat
  | Work_notify nat bool u32

fun working :: "worker_pc \<Rightarrow> bool" where
  "working (W_run d) = True"
| "working (W_poll t) = True"
| "working _ = False"

fun park_exec :: "park_event \<Rightarrow> parking \<Rightarrow> parking" where
  "park_exec (Call_schedule i kind qs) s =
     (if p_ext s i = X_idle \<and> qs \<noteq> [] \<and> length qs < 2 ^ 32 \<and> (kind = Schedule \<longrightarrow> length qs = 1)
      then ext_goes i (X_claim kind 0 qs) s else s)"
| "park_exec (Call_notify i k) s = (if p_ext s i = X_idle then ext_goes i (X_notify (N_load k) X_idle) s else s)"
| "park_exec (Call_shutdown i) s =
     (if p_ext s i = X_idle \<and> \<not> p_stopped s then ext_goes i X_stop_add (drain_stores i (s\<lparr>p_stopped := True\<rparr>)) else s)"
| "park_exec (Ext_step i c) s = ext_access i c (p_ext s i) s"
| "park_exec (Ext_delay i) s = ext_delay i (p_ext s i) s"
| "park_exec (Ext_drain i) s = (if p_tso s \<and> \<not> publishing (p_ext s i) then drain_stores i s else s)"
| "park_exec (Help_take q) s =
     (case take_head (p_queue s q) of None \<Rightarrow> s | Some es \<Rightarrow> s\<lparr>p_queue := (p_queue s)(q := es)\<rparr>)"
| "park_exec (Help_steal v) s = s\<lparr>p_local := (p_local s)(v := p_local s v - 1)\<rparr>"
| "park_exec (Work_step w c) s = (if w < p_workers s then worker_access w c (p_worker s w) s else s)"
| "park_exec (Work_push w) s =
     (if w < p_workers s \<and> working (p_worker s w) then s\<lparr>p_local := (p_local s)(w := p_local s w + 1)\<rparr> else s)"
| "park_exec (Work_notify w checked k) s =
     (if w < p_workers s \<and> working (p_worker s w)
      then worker_goes w (W_notify (if checked then N_check k else N_load k) (p_worker s w)) s else s)"

definition park_run :: "park_event list \<Rightarrow> parking \<Rightarrow> parking" where
  "park_run evs s = fold park_exec evs s"

section \<open>The invariant\<close>

text \<open>The workers that \<open>m_sleepingCount\<close> counts.\<close>

fun counted :: "worker_pc \<Rightarrow> bool" where
  "counted W_signal = True"
| "counted (W_stop cs) = True"
| "counted W_leave = True"
| "counted W_found = True"
| "counted (W_find (Check cs) st) = True"
| "counted (W_wait cs) = True"
| "counted (W_blocked cs) = True"
| "counted W_woken = True"
| "counted _ = False"

definition counted_workers :: "parking \<Rightarrow> nat set" where
  "counted_workers s = {w. w < p_workers s \<and> counted (p_worker s w)}"

text \<open>The signal a worker has read since it was counted.\<close>

fun signal_read :: "worker_pc \<Rightarrow> u32 option" where
  "signal_read (W_stop cs) = Some cs"
| "signal_read (W_find (Check cs) st) = Some cs"
| "signal_read (W_wait cs) = Some cs"
| "signal_read (W_blocked cs) = Some cs"
| "signal_read _ = None"

fun past_stop :: "worker_pc \<Rightarrow> bool" where
  "past_stop (W_stop cs) = False"
| "past_stop _ = True"

fun left_loop :: "worker_pc \<Rightarrow> bool" where
  "left_loop W_leave = True"
| "left_loop W_drain = True"
| "left_loop W_exit = True"
| "left_loop (W_run d) = d"
| "left_loop (W_notify np after) = left_loop after"
| "left_loop _ = False"

text \<open>Will the worker look at the injection queue \<open>q\<close> before it can fall asleep?\<close>

fun stage_before :: "park_queue \<Rightarrow> find_stage \<Rightarrow> bool" where
  "stage_before q Own_deque = True"
| "stage_before q Queue_high = True"
| "stage_before q Queue_normal = (q = Global_normal)"
| "stage_before q _ = False"

fun will_scan :: "park_queue \<Rightarrow> u32 \<Rightarrow> worker_pc \<Rightarrow> bool" where
  "will_scan q sig (W_find (Check cs) st) = (cs \<noteq> sig \<or> stage_before q st)"
| "will_scan q sig (W_wait cs) = (cs \<noteq> sig)"
| "will_scan q sig (W_blocked cs) = False"
| "will_scan q sig _ = True"

text \<open>A thread on its way to \<open>notifyWorker\<close>, with the signal still to be raised.\<close>

fun notify_pending :: "notify_pc \<Rightarrow> bool" where
  "notify_pending (N_check k) = (k \<noteq> 0)"
| "notify_pending (N_load k) = (k \<noteq> 0)"
| "notify_pending (N_add k) = True"
| "notify_pending _ = False"

fun announcing :: "ext_pc \<Rightarrow> bool" where
  "announcing (X_claim kind queued qs) = (queued \<noteq> 0)"
| "announcing (X_publish kind queued q qs) = True"
| "announcing (X_notify np after) = (notify_pending np \<or> announcing after)"
| "announcing _ = False"

fun rings :: "notify_pc \<Rightarrow> bool" where
  "rings (N_one k) = True"
| "rings N_all = True"
| "rings _ = False"

fun waking :: "ext_pc \<Rightarrow> bool" where
  "waking (X_notify np after) = rings np"
| "waking _ = False"

fun stale :: "u32 \<Rightarrow> worker_pc \<Rightarrow> bool" where
  "stale sig (W_blocked cs) = (cs \<noteq> sig)"
| "stale sig _ = False"

definition attended :: "park_queue \<Rightarrow> parking \<Rightarrow> bool" where
  "attended q s \<longleftrightarrow> (\<exists>i. announcing (p_ext s i))
     \<or> (\<exists>w < p_workers s. will_scan q (p_signal s) (p_worker s w))
     \<or> (\<exists>i. waking (p_ext s i)) \<and> (\<forall>w < p_workers s. stale (p_signal s) (p_worker s w))"

text \<open>Before it can fall asleep, a worker has found its own deque empty, and only itself adds to it.\<close>

fun empty_handed :: "worker_pc \<Rightarrow> bool" where
  "empty_handed (W_find (Check cs) st) = (st \<noteq> Own_deque \<and> st \<noteq> Own_again)"
| "empty_handed (W_wait cs) = True"
| "empty_handed (W_blocked cs) = True"
| "empty_handed _ = False"

text \<open>Well-formed notifications: the amount was cut down to the number of sleepers.\<close>

fun notify_ok :: "nat \<Rightarrow> notify_pc \<Rightarrow> bool" where
  "notify_ok n (N_add k) = (k \<noteq> 0 \<and> unat k \<le> n)"
| "notify_ok n (N_one k) = (k \<noteq> 0)"
| "notify_ok n _ = True"

fun resumes :: "ext_pc \<Rightarrow> bool" where
  "resumes X_idle = True"
| "resumes (X_claim kind queued qs) = True"
| "resumes _ = False"

fun ext_ok :: "nat \<Rightarrow> ext_pc \<Rightarrow> bool" where
  "ext_ok n (X_claim kind queued qs) = (unat queued + length qs < 2 ^ 32 \<and> qs \<noteq> [])"
| "ext_ok n (X_publish kind queued q qs) = (unat queued + 1 + length qs < 2 ^ 32)"
| "ext_ok n (X_notify np after) = (notify_ok n np \<and> ext_ok n after \<and> resumes after)"
| "ext_ok n _ = True"

fun attempt_ok :: "nat \<Rightarrow> worker_pc \<Rightarrow> bool" where
  "attempt_ok n (W_find r (Victim_batch start attempt)) = (unat attempt < n)"
| "attempt_ok n (W_find r (Victim_single start attempt)) = (unat attempt < n)"
| "attempt_ok n _ = True"

fun worker_ok :: "nat \<Rightarrow> u32 \<Rightarrow> bool \<Rightarrow> worker_pc \<Rightarrow> bool" where
  "worker_ok n sig stopped (W_notify np after) =
     (notify_ok n np \<and> worker_ok n sig stopped after \<and> \<not> counted after \<and> signal_read after = None)"
| "worker_ok n sig stopped pc = ((\<forall>cs. signal_read pc = Some cs \<longrightarrow> cs \<le> sig) \<and> (left_loop pc \<longrightarrow> stopped) \<and> attempt_ok n pc)"

text \<open>Once the signal of \<open>shutdown\<close> is out, no worker waits for the present value of the signal.\<close>

definition stop_seen :: "parking \<Rightarrow> bool" where
  "stop_seen s \<longleftrightarrow> ((\<exists>i. p_ext s i = X_stop_add) \<or>
     (\<forall>w < p_workers s. past_stop (p_worker s w) \<longrightarrow> signal_read (p_worker s w) \<noteq> Some (p_signal s))
     \<and> ((\<exists>i. p_ext s i = X_stop_all) \<or> (\<forall>w < p_workers s. \<not> is_blocked (p_worker s w))))"

definition park_inv :: "nat \<Rightarrow> parking \<Rightarrow> bool" where
  "park_inv m s \<longleftrightarrow> \<not> p_tso s \<and> p_workerCount s \<noteq> 0 \<and> unat (p_signal s) \<le> m
     \<and> unat (p_sleeping s) = card (counted_workers s)
     \<and> (\<forall>w < p_workers s. worker_ok (p_workers s) (p_signal s) (p_stopped s) (p_worker s w))
     \<and> (\<forall>i. ext_ok (p_workers s) (p_ext s i))
     \<and> (\<forall>q. \<forall>e \<in> set (p_queue s q). \<not> qd_ready e \<longrightarrow> publishing (p_ext s (qd_by e)))
     \<and> (\<forall>i. (p_ext s i = X_stop_add \<or> p_ext s i = X_stop_all) \<longrightarrow> p_stopped s)
     \<and> (p_stopped s \<longrightarrow> stop_seen s)
     \<and> (\<not> p_stopped s \<longrightarrow> (\<forall>q. p_queue s q \<noteq> [] \<longrightarrow> attended q s))
     \<and> (\<forall>w < p_workers s. empty_handed (p_worker s w) \<longrightarrow> p_local s w = 0)"

lemma park_invD:
  assumes "park_inv m s"
  shows "\<not> p_tso s" "p_workerCount s \<noteq> 0" "unat (p_signal s) \<le> m"
    "unat (p_sleeping s) = card (counted_workers s)"
    "w < p_workers s \<Longrightarrow> worker_ok (p_workers s) (p_signal s) (p_stopped s) (p_worker s w)"
    "ext_ok (p_workers s) (p_ext s i)"
    "e \<in> set (p_queue s q) \<Longrightarrow> qd_ready e \<or> publishing (p_ext s (qd_by e))"
    "p_ext s i = X_stop_add \<or> p_ext s i = X_stop_all \<Longrightarrow> p_stopped s"
    "p_stopped s \<Longrightarrow> stop_seen s"
    "\<not> p_stopped s \<Longrightarrow> p_queue s q \<noteq> [] \<Longrightarrow> attended q s"
    "w < p_workers s \<Longrightarrow> empty_handed (p_worker s w) \<Longrightarrow> p_local s w = 0"
  using assms by (auto simp: park_inv_def)

section \<open>Counting the sleepers\<close>

lemma counted_finite [simp]: "finite (counted_workers s)"
  by (simp add: counted_workers_def)

lemma counted_bound: "card (counted_workers s) \<le> p_workers s"
  using card_mono [of "{..<p_workers s}" "counted_workers s"] by (auto simp: counted_workers_def)

lemma counted_moves:
  assumes "w < p_workers s" and "p_worker s' = (p_worker s)(w := pc)" and "p_workerCount s' = p_workerCount s"
  shows "counted_workers s' = (if counted pc then insert w (counted_workers s) else counted_workers s - {w})"
    and "w \<in> counted_workers s \<longleftrightarrow> counted (p_worker s w)"
  using assms by (auto simp: counted_workers_def)

definition sleeping_after :: "worker_pc \<Rightarrow> worker_pc \<Rightarrow> u32 \<Rightarrow> u32" where
  "sleeping_after old new k =
     (if counted new \<and> \<not> counted old then k + 1 else if counted old \<and> \<not> counted new then k - 1 else k)"

lemma counted_step:
  assumes k: "unat (p_sleeping s) = card (counted_workers s)"
    and w: "w < p_workers s" "p_worker s' = (p_worker s)(w := pc)" "p_workerCount s' = p_workerCount s"
    and k': "p_sleeping s' = sleeping_after (p_worker s w) pc (p_sleeping s)"
  shows "unat (p_sleeping s') = card (counted_workers s')"
proof -
  note m = counted_moves [OF w]
  have "card (counted_workers s') \<le> p_workers s" using counted_bound [of s'] w(3) by simp
  also have "\<dots> < 2 ^ 32" using unsigned_less [of "p_workerCount s"] by simp
  finally have lt: "card (counted_workers s') < 2 ^ 32" .
  show ?thesis
  proof (cases "counted (p_worker s w) = counted pc")
    case True
    then have "counted_workers s' = counted_workers s" using m by (auto simp: insert_absorb)
    then show ?thesis using k k' True by (simp add: sleeping_after_def)
  next
    case False
    show ?thesis
    proof (cases "counted pc")
      case True
      then have "card (counted_workers s') = card (counted_workers s) + 1" using m False by simp
      then show ?thesis using lt k k' True False by (simp add: sleeping_after_def unat_word_ariths)
    next
      case no: False
      then have c: "card (counted_workers s') = card (counted_workers s) - 1" "0 < card (counted_workers s)"
        using m False by (auto simp: card_gt_0_iff)
      then have "p_sleeping s \<noteq> 0" using k by auto
      then have "unat (p_sleeping s - 1) = unat (p_sleeping s) - 1" by (simp add: unat_minus_one)
      then show ?thesis using c k k' False no by (simp add: sleeping_after_def)
    qed
  qed
qed

section \<open>Steps of one worker\<close>

text \<open>
  What a step of worker \<open>w\<close> to \<open>pc\<close> has to respect: the count, and the promise to look at a
  nonempty queue, unless somebody is about to announce its tasks.
\<close>

definition moves_well :: "nat \<Rightarrow> worker_pc \<Rightarrow> parking \<Rightarrow> parking \<Rightarrow> bool" where
  "moves_well w pc s s' \<longleftrightarrow>
     p_worker s' = (p_worker s)(w := pc) \<and> p_workerCount s' = p_workerCount s \<and> p_signal s' = p_signal s
     \<and> p_stopped s' = p_stopped s \<and> p_ext s' = p_ext s \<and> p_tso s' = p_tso s
     \<and> p_sleeping s' = sleeping_after (p_worker s w) pc (p_sleeping s)
     \<and> worker_ok (p_workers s) (p_signal s) (p_stopped s) pc
     \<and> (p_stopped s \<longrightarrow> past_stop pc \<and> signal_read pc = Some (p_signal s) \<or> is_blocked pc \<longrightarrow>
          past_stop (p_worker s w) \<and> signal_read (p_worker s w) = Some (p_signal s))
     \<and> (\<forall>q. set (p_queue s' q) \<subseteq> set (p_queue s q))
     \<and> (\<forall>q. p_queue s' q \<noteq> [] \<longrightarrow> will_scan q (p_signal s) (p_worker s w) \<longrightarrow>
          will_scan q (p_signal s) pc \<or> (\<exists>i. announcing (p_ext s i)))
     \<and> (\<forall>v. v \<noteq> w \<longrightarrow> p_local s' v \<le> p_local s v) \<and> (empty_handed pc \<longrightarrow> p_local s' w = 0)"

lemma moves_well_inv:
  assumes inv: "park_inv m s" and w: "w < p_workers s" and old: "\<not> is_blocked (p_worker s w)"
    and mv: "moves_well w pc s s'"
  shows "park_inv m s'"
proof -
  note eqs = mv [unfolded moves_well_def]
  have c: "unat (p_sleeping s') = card (counted_workers s')"
    using counted_step [OF park_invD(4) [OF inv] w] eqs by blast
  have stop: "stop_seen s'" if "p_stopped s"
    using park_invD(9) [OF inv that] that eqs w unfolding stop_seen_def by (auto split: if_splits)
  have att: "attended q s'" if "\<not> p_stopped s" "p_queue s' q \<noteq> []" for q
  proof -
    have "p_queue s q \<noteq> []" using that(2) eqs by (metis list.set_intros(1) neq_Nil_conv subset_empty set_empty)
    then have "attended q s" using park_invD(10) [OF inv that(1)] by blast
    moreover have "\<not> stale (p_signal s) (p_worker s w)" using old by (cases "p_worker s w") auto
    ultimately show ?thesis using that(2) eqs w unfolding attended_def by (metis fun_upd_apply)
  qed
  show ?thesis unfolding park_inv_def
  proof (intro conjI allI impI ballI)
    show "worker_ok (p_workers s') (p_signal s') (p_stopped s') (p_worker s' v)" if "v < p_workers s'" for v
      using park_invD(5) [OF inv, of v] eqs that by auto
    show "publishing (p_ext s' (qd_by e))" if "e \<in> set (p_queue s' q)" "\<not> qd_ready e" for q e
      using park_invD(7) [OF inv, of e q] eqs that by auto
    show "p_local s' v = 0" if "v < p_workers s'" "empty_handed (p_worker s' v)" for v
      using park_invD(11) [OF inv, of v] eqs that by (cases "v = w") (auto simp: le_0_eq dest: spec [of _ v])
    show "ext_ok (p_workers s') (p_ext s' i)" for i
      using park_invD(6) [OF inv] eqs by simp
    show "p_stopped s'" if "p_ext s' i = X_stop_add \<or> p_ext s' i = X_stop_all" for i
      using park_invD(8) [OF inv, of i] that eqs by simp
    show "stop_seen s'" if "p_stopped s'" using stop that eqs by simp
    show "attended q s'" if "\<not> p_stopped s'" "p_queue s' q \<noteq> []" for q using att that eqs by simp
    show "unat (p_sleeping s') = card (counted_workers s')" by (rule c)
  qed (use park_invD [OF inv] eqs in simp_all)
qed

lemma goes_proj [simp]:
  "p_worker (worker_goes w pc s) = (p_worker s)(w := pc)" "p_workerCount (worker_goes w pc s) = p_workerCount s"
  "p_signal (worker_goes w pc s) = p_signal s" "p_stopped (worker_goes w pc s) = p_stopped s"
  "p_ext (worker_goes w pc s) = p_ext s" "p_tso (worker_goes w pc s) = p_tso s"
  "p_sleeping (worker_goes w pc s) = p_sleeping s" "p_queue (worker_goes w pc s) = p_queue s"
  "p_local (worker_goes w pc s) = p_local s"
  by (simp_all add: worker_goes_def)

lemma ext_goes_proj [simp]:
  "p_worker (ext_goes i x s) = p_worker s" "p_workerCount (ext_goes i x s) = p_workerCount s"
  "p_signal (ext_goes i x s) = p_signal s" "p_stopped (ext_goes i x s) = p_stopped s"
  "p_ext (ext_goes i x s) = (p_ext s)(i := x)" "p_tso (ext_goes i x s) = p_tso s"
  "p_sleeping (ext_goes i x s) = p_sleeping s" "p_queue (ext_goes i x s) = p_queue s"
  "p_local (ext_goes i x s) = p_local s"
  by (simp_all add: ext_goes_def)

lemma working_facts:
  assumes "working pc"
  shows "\<not> counted pc" "signal_read pc = None" "\<not> is_blocked pc" "will_scan q sig pc" "\<not> empty_handed pc"
    "\<not> stale sig pc"
  using assms by (cases pc; simp)+

lemma found_facts [simp]:
  "counted (found r) = counted (W_find r st)" "signal_read (found r) = None" "\<not> is_blocked (found r)"
  "will_scan q sig (found r)" "\<not> empty_handed (found r)" "worker_ok n sig stopped (found r)"
  by (cases r; simp)+

lemma not_found_facts [simp]:
  "counted (not_found r) = counted (W_find r st)" "signal_read (not_found r) = signal_read (W_find r st)"
  "\<not> is_blocked (not_found r)" "past_stop (not_found r)"
  "will_scan q sig (not_found r) = will_scan q sig (W_find r (Victim_batch a b))"
  "empty_handed (not_found r) = empty_handed (W_find r (Victim_batch a b))"
  "worker_ok n sig stopped (not_found r) = worker_ok n sig stopped (W_find r Own_deque)"
  by (cases r; simp)+

lemma next_victim_facts [simp]:
  "counted (next_victim n r start k) = counted (W_find r st)"
  "signal_read (next_victim n r start k) = signal_read (W_find r st)"
  "\<not> is_blocked (next_victim n r start k)" "past_stop (next_victim n r start k)"
  "will_scan q sig (next_victim n r start k) = will_scan q sig (W_find r (Victim_batch a b))"
  "empty_handed (next_victim n r start k) = empty_handed (W_find r (Victim_batch a b))"
  by (cases r; simp add: next_victim_def)+

lemma sleeping_after_same: "counted new = counted old \<Longrightarrow> sleeping_after old new k = k"
  by (simp add: sleeping_after_def)

lemma take_head_SomeD: "take_head l = Some es \<Longrightarrow> set es \<subseteq> set l \<and> (\<exists>e. qd_ready e \<and> l = e # es)"
  by (cases l) (auto split: if_splits)

text \<open>A queue that gives nothing is empty or has a producer at its head.\<close>

lemma take_head_NoneD:
  assumes "park_inv m s" and "take_head (p_queue s q) = None"
  shows "p_queue s q = [] \<or> (\<exists>i. announcing (p_ext s i))"
proof (cases "p_queue s q")
  case (Cons e es)
  then have "publishing (p_ext s (qd_by e))" using assms park_invD(7) [OF assms(1), of e q] by (auto split: if_splits)
  then have "announcing (p_ext s (qd_by e))" by (cases "p_ext s (qd_by e)") auto
  then show ?thesis by blast
qed simp

lemma will_scan_next:
  assumes "will_scan q sig (W_find r st)" and "st = Queue_high \<and> st' = Queue_normal \<and> q = Global_normal \<or> st = Own_deque \<and> st' = Queue_high"
  shows "will_scan q sig (W_find r st')"
  using assms by (cases r) auto

lemma pop_own_moves:
  assumes inv: "park_inv m s" and w: "w < p_workers s"
    and pc: "p_worker s w = W_find r st" "st = Own_deque \<and> no = W_find r Queue_high \<or> st = Own_again \<and> no = not_found r"
  shows "\<exists>pc. moves_well w pc s (pop_own w (found r) no s)"
proof (cases "p_local s w = 0")
  case True
  have "moves_well w no s (worker_goes w no s)"
    using park_invD(5) [OF inv w] pc True
    by (cases r) (auto simp: moves_well_def sleeping_after_same split: if_splits)
  then show ?thesis using True by (auto simp: pop_own_def)
next
  case False
  then show ?thesis using pc
    by (intro exI [of _ "found r"]) (auto simp: pop_own_def moves_well_def sleeping_after_same)
qed

lemma scan_queue_moves:
  assumes inv: "park_inv m s" and w: "w < p_workers s"
    and pc: "p_worker s w = W_find r st"
    and st: "st = Queue_high \<and> q = Global_high \<and> no = W_find r Queue_normal
      \<or> st = Queue_normal \<and> q = Global_normal \<and> no = W_find r (Victim_batch a 0)"
  shows "\<exists>pc. moves_well w pc s (scan_queue w q (found r) no s)"
proof (cases "take_head (p_queue s q)")
  case None
  have normal: "p_queue s Global_high = [] \<Longrightarrow> p_queue s q' \<noteq> [] \<Longrightarrow> q' = Global_normal" for q'
    by (cases q') auto
  have "moves_well w no s (worker_goes w no s)"
    using park_invD(5) [OF inv w] park_invD(11) [OF inv w] w pc st take_head_NoneD [OF inv None]
    by (cases r) (auto intro: normal le_less_trans [OF le0 w] simp: moves_well_def sleeping_after_same)
  then show ?thesis using None by (auto simp: scan_queue_def)
next
  case (Some es)
  then show ?thesis using pc take_head_SomeD [OF Some]
    by (intro exI [of _ "found r"]) (auto simp: scan_queue_def moves_well_def sleeping_after_same split: if_splits)
qed

lemma find_access_moves:
  assumes inv: "park_inv m s" and w: "w < p_workers s" and pc: "p_worker s w = W_find r st"
  shows "\<exists>pc. moves_well w pc s (find_access w c r st s)"
proof (cases st)
  case Own_deque
  then show ?thesis using pop_own_moves [OF inv w pc] by simp
next
  case Queue_high
  then show ?thesis using scan_queue_moves [OF inv w pc] by simp
next
  case Queue_normal
  then show ?thesis using scan_queue_moves [OF inv w pc] by simp
next
  case Own_again
  then show ?thesis using pop_own_moves [OF inv w pc] by simp
next
  case (Victim_batch a b)
  let ?n = "p_workerCount s"
  have next_ok: "moves_well w (next_victim ?n r a b) s (worker_goes w (next_victim ?n r a b) s)"
    using park_invD(5) [OF inv w] park_invD(11) [OF inv w] pc Victim_batch
    by (cases r) (auto simp: moves_well_def sleeping_after_same next_victim_def word_less_nat_alt)
  have single_ok: "moves_well w (W_find r (Victim_single a b)) s (worker_goes w (W_find r (Victim_single a b)) s)"
    using park_invD(5) [OF inv w] park_invD(11) [OF inv w] pc Victim_batch
    by (cases r) (auto simp: moves_well_def sleeping_after_same)
  have again_ok: "moves_well w (W_find r Own_again) s (worker_goes w (W_find r Own_again)
      (s\<lparr>p_local := (p_local s)(v := p_local s v - k, w := p_local s w + k)\<rparr>))" for v k
    using park_invD(5) [OF inv w] pc Victim_batch
    by (cases r) (auto simp: moves_well_def sleeping_after_same)
  show ?thesis using next_ok single_ok again_ok Victim_batch by (auto simp: Let_def)
next
  case (Victim_single a b)
  let ?n = "p_workerCount s"
  have next_ok: "moves_well w (next_victim ?n r a b) s (worker_goes w (next_victim ?n r a b) s)"
    using park_invD(5) [OF inv w] park_invD(11) [OF inv w] pc Victim_single
    by (cases r) (auto simp: moves_well_def sleeping_after_same next_victim_def word_less_nat_alt)
  have found_ok: "moves_well w (found r) s (worker_goes w (found r) (s\<lparr>p_local := (p_local s)(v := p_local s v - 1)\<rparr>))" for v
    using pc by (auto simp: moves_well_def sleeping_after_same)
  show ?thesis using next_ok found_ok Victim_single by (auto simp: Let_def)
qed

section \<open>Waking and raising the signal\<close>

definition all_stale :: "parking \<Rightarrow> bool" where
  "all_stale s \<longleftrightarrow> (\<forall>w < p_workers s. stale (p_signal s) (p_worker s w))"

definition wakes :: "parking \<Rightarrow> parking \<Rightarrow> bool" where
  "wakes s s' \<longleftrightarrow> (\<exists>f. s' = s\<lparr>p_worker := f\<rparr>
     \<and> (\<forall>w. f w = p_worker s w \<or> f w = W_woken \<and> stale (p_signal s) (p_worker s w)))
     \<and> (all_stale s \<longrightarrow> (\<exists>w < p_workers s. p_worker s' w = W_woken))"

lemma wakesI:
  assumes "s' = s\<lparr>p_worker := f\<rparr>"
    and "\<forall>w. f w = p_worker s w \<or> f w = W_woken \<and> stale (p_signal s) (p_worker s w)"
    and "all_stale s \<Longrightarrow> \<exists>w < p_workers s. f w = W_woken"
  shows "wakes s s'"
  using assms unfolding wakes_def by auto

lemma stale_facts: "stale sig pc \<Longrightarrow> is_blocked pc \<and> counted pc"
  by (cases pc) auto

lemma wakes_inv:
  assumes inv: "park_inv m s" and wk: "wakes s s'"
  shows "park_inv m s'" and "\<not> all_stale s'"
proof -
  obtain f where s': "s' = s\<lparr>p_worker := f\<rparr>"
    and f: "\<And>w. f w = p_worker s w \<or> f w = W_woken \<and> stale (p_signal s) (p_worker s w)"
    and all: "all_stale s \<Longrightarrow> \<exists>w < p_workers s. f w = W_woken"
    using wk unfolding wakes_def by fastforce
  have woken: "will_scan q sig W_woken" for q sig by simp
  have cnt: "counted (f w) = counted (p_worker s w)" for w using f [of w] stale_facts [of "p_signal s"] by auto
  have read: "signal_read (f w) = Some k \<Longrightarrow> f w = p_worker s w" for w k using f [of w] by auto
  have bl: "is_blocked (f w) \<Longrightarrow> f w = p_worker s w" for w using f [of w] by auto
  have sc: "will_scan q sig (p_worker s w) \<Longrightarrow> will_scan q sig (f w)" for q sig w using f [of w] by auto
  show stale': "\<not> all_stale s'"
  proof
    assume a: "all_stale s'"
    then have "stale (p_signal s) (f w)" if "w < p_workers s" for w using that by (simp add: all_stale_def s')
    then have "f w = p_worker s w" if "w < p_workers s" for w using that f [of w] by fastforce
    then have "all_stale s" using a by (simp add: all_stale_def s')
    then show False using all a by (force simp: all_stale_def s')
  qed
  have "counted_workers s' = counted_workers s" by (simp add: counted_workers_def s' cnt)
  moreover have "worker_ok n sig st (f w)" if "worker_ok n sig st (p_worker s w)" for n sig st w
    using that f [of w] by auto
  moreover have "stop_seen s'" if "stop_seen s"
    using that read bl unfolding stop_seen_def s' by simp metis
  moreover have "attended q s'" if "attended q s" for q
    using that sc all unfolding attended_def s' all_stale_def by simp (metis woken)
  moreover have "empty_handed (f w) \<Longrightarrow> empty_handed (p_worker s w)" for w using f [of w] by auto
  ultimately show "park_inv m s'" using inv unfolding park_inv_def by (simp add: s')
qed

lemma wake_pc_cases: "wake_pc sig pc = pc \<or> wake_pc sig pc = W_woken \<and> stale sig pc"
  by (cases pc) auto

lemma stale_wake: "stale sig pc \<Longrightarrow> wake_pc sig pc = W_woken"
  by (cases pc) auto

lemma wake_all_wakes:
  assumes "p_workerCount s \<noteq> 0" shows "wakes s (wake_all s)"
proof -
  have "0 < p_workers s" using assms by (simp add: unat_gt_0)
  then show ?thesis
    using wake_pc_cases by (auto simp: wakes_def wake_all_def all_stale_def stale_wake)
qed

lemma waiter_SomeD: "waiter c s = Some w \<Longrightarrow> w < p_workers s \<and> is_blocked (p_worker s w)"
  by (auto simp: waiter_def find_Some_iff split: if_splits)

lemma waiter_NoneD: "waiter c s = None \<Longrightarrow> w < p_workers s \<Longrightarrow> \<not> is_blocked (p_worker s w)"
  by (auto simp: waiter_def find_None_iff split: if_splits)

lemma wake_one_wakes:
  assumes n: "p_workerCount s \<noteq> 0" shows "wakes s (wake_one c s)"
proof (cases "waiter c s")
  case None
  then have "\<not> all_stale s"
    using waiter_NoneD [OF None, of 0] stale_facts [of "p_signal s" "p_worker s 0"] n
    by (auto simp: all_stale_def unat_gt_0 intro!: exI [of _ 0])
  then show ?thesis using None
    by (auto simp: wakes_def wake_one_def intro: exI [of _ "p_worker s"])
next
  case (Some w)
  let ?pc = "wake_pc (p_signal s) (p_worker s w)"
  have "wake_one c s = s\<lparr>p_worker := (p_worker s)(w := ?pc)\<rparr>" using Some by (simp add: wake_one_def worker_goes_def)
  then show ?thesis
  proof (rule wakesI)
    show "\<forall>v. ((p_worker s)(w := ?pc)) v = p_worker s v
        \<or> ((p_worker s)(w := ?pc)) v = W_woken \<and> stale (p_signal s) (p_worker s v)"
      using wake_pc_cases [of "p_signal s" "p_worker s w"] by auto
    show "\<exists>v < p_workers s. ((p_worker s)(w := ?pc)) v = W_woken" if "all_stale s"
      using waiter_SomeD [OF Some] stale_wake that by (intro exI [of _ w]) (simp add: all_stale_def)
  qed
qed

lemma scan_or_stale: "signal_read pc \<noteq> Some sig \<Longrightarrow> will_scan q sig pc \<or> stale sig pc"
  by (cases "(q, sig, pc)" rule: will_scan.cases) auto

lemma stale_or_scan: "stale sig' pc \<Longrightarrow> \<not> will_scan q sig pc"
  by (cases pc) auto

text \<open>Raising the signal makes every value read so far old.\<close>

lemma raise_signal:
  assumes inv: "park_inv m s" and k: "k \<noteq> 0" and lt: "unat (p_signal s) + unat k < 2 ^ 32"
  defines "s' \<equiv> s\<lparr>p_signal := p_signal s + k\<rparr>"
  shows "park_inv (m + unat k) s'" and "all_stale s' \<or> (\<exists>w < p_workers s'. \<forall>q. will_scan q (p_signal s') (p_worker s' w))"
    and "\<forall>w < p_workers s'. past_stop (p_worker s' w) \<longrightarrow> signal_read (p_worker s' w) \<noteq> Some (p_signal s')"
proof -
  have sum: "unat (p_signal s + k) = unat (p_signal s) + unat k" using lt by (simp add: unat_word_ariths)
  then have less: "p_signal s < p_signal s + k" using k by (simp add: word_less_nat_alt unat_gt_0)
  have ok: "worker_ok n (p_signal s + k) st pc" if "worker_ok n (p_signal s) st pc" for n st pc
    using that less by (induction pc) (auto intro: order_trans less_imp_le)
  have old: "signal_read pc \<noteq> Some (p_signal s + k)" if "worker_ok n (p_signal s) st pc" for n st pc
    using that less by (cases pc) auto
  have later: "\<forall>w < p_workers s'. signal_read (p_worker s' w) \<noteq> Some (p_signal s')"
    using old park_invD(5) [OF inv] by (auto simp: s'_def)
  show aw: "all_stale s' \<or> (\<exists>w < p_workers s'. \<forall>q. will_scan q (p_signal s') (p_worker s' w))"
  proof (cases "all_stale s'")
    case False
    then obtain w where "w < p_workers s'" "\<not> stale (p_signal s') (p_worker s' w)" by (auto simp: all_stale_def)
    then show ?thesis using later scan_or_stale by blast
  qed simp
  have cnt: "counted_workers s' = counted_workers s" by (simp add: counted_workers_def s'_def)
  have att: "attended q s'" if "attended q s" for q
    using that later scan_or_stale stale_or_scan unfolding attended_def by (simp add: s'_def) metis
  have stop: "stop_seen s'" if "stop_seen s"
    using that later unfolding stop_seen_def by (auto simp: s'_def)
  show "park_inv (m + unat k) s'"
    using inv ok cnt att stop sum unfolding park_inv_def by (simp add: s'_def)
  show "\<forall>w < p_workers s'. past_stop (p_worker s' w) \<longrightarrow> signal_read (p_worker s' w) \<noteq> Some (p_signal s')"
    using later by blast
qed

section \<open>Notifications\<close>

lemma park_inv_mono: "park_inv m s \<Longrightarrow> m \<le> m' \<Longrightarrow> park_inv m' s"
  by (auto simp: park_inv_def)

lemma wakes_keep:
  assumes "wakes s s'"
  shows "\<not> is_blocked (p_worker s w) \<Longrightarrow> p_worker s' w = p_worker s w" "p_ext s' = p_ext s" "p_queue s' = p_queue s"
    "p_local s' = p_local s" "p_workerCount s' = p_workerCount s" "p_stopped s' = p_stopped s" "p_signal s' = p_signal s"
    "p_sleeping s' = p_sleeping s"
  using assms stale_facts by (fastforce simp: wakes_def)+

lemma uncounted_facts:
  assumes "\<not> counted pc"
  shows "will_scan q sig pc" "\<not> empty_handed pc" "\<not> is_blocked pc" "signal_read pc = Some cs \<Longrightarrow> \<not> past_stop pc"
  using assms by (cases "(q, sig, pc)" rule: will_scan.cases; simp)+

text \<open>Nobody is counted: every worker has its look at the queues before it.\<close>

lemma nobody_sleeps:
  assumes inv: "park_inv m s" and z: "p_sleeping s = 0"
  shows "\<exists>w < p_workers s. \<forall>q. will_scan q (p_signal s) (p_worker s w)"
proof -
  have "0 < p_workers s" using park_invD(2) [OF inv] by (simp add: unat_gt_0)
  moreover have "counted_workers s = {}" using park_invD(4) [OF inv] z by simp
  ultimately have "\<not> counted (p_worker s 0)" by (auto simp: counted_workers_def)
  then have "\<forall>q. will_scan q (p_signal s) (p_worker s 0)" by (simp add: uncounted_facts)
  then show ?thesis using \<open>0 < p_workers s\<close> by blast
qed

text \<open>
  What one access of \<open>notifyWorker\<close> does: the threads keep their counters, the sleepers apart, and an obligation to raise
  the signal is passed on, becomes one to wake, or some worker is up already.
\<close>

lemma notify_access_inv:
  assumes inv: "park_inv m s" and ok: "notify_ok (p_workers s) np" and lt: "m + p_workers s < 2 ^ 32"
    and acc: "notify_access c np s = (r, s')"
  shows "park_inv (m + p_workers s) s'" (is ?inv)
    and "\<forall>np'. r = Some np' \<longrightarrow> notify_ok (p_workers s) np'" (is ?ok)
    and "p_ext s' = p_ext s \<and> p_queue s' = p_queue s \<and> p_local s' = p_local s \<and> p_workerCount s' = p_workerCount s
      \<and> p_stopped s' = p_stopped s \<and> p_sleeping s' = p_sleeping s
      \<and> (\<forall>w. \<not> is_blocked (p_worker s w) \<longrightarrow> p_worker s' w = p_worker s w)" (is ?same)
    and "notify_pending np \<longrightarrow> (\<exists>np'. r = Some np' \<and> notify_pending np')
      \<or> (\<exists>w < p_workers s'. \<forall>q. will_scan q (p_signal s') (p_worker s' w)) \<or> all_stale s' \<and> (\<exists>np'. r = Some np' \<and> rings np')" (is ?duty)
    and "rings np \<longrightarrow> \<not> all_stale s'" (is ?rung)
proof -
  note up = park_inv_mono [OF inv, of "m + p_workers s"]
  have goal: "?inv \<and> ?ok \<and> ?same \<and> ?duty \<and> ?rung"
  proof (cases np)
    case (N_check k)
    then show ?thesis using acc up nobody_sleeps [OF inv] by (auto split: if_splits simp: word_gt_0)
  next
    case (N_load k)
    have "unat (min k (p_sleeping s)) \<le> p_workers s"
      using counted_bound [of s] park_invD(4) [OF inv] by (simp add: min_def word_le_nat_alt)
    moreover have "min k (p_sleeping s) \<noteq> 0" if "k \<noteq> 0" "p_sleeping s \<noteq> 0" using that by (simp add: min_def)
    ultimately show ?thesis using N_load acc up nobody_sleeps [OF inv] by (auto split: if_splits)
  next
    case (N_add k)
    then have k: "k \<noteq> 0" "unat k \<le> p_workers s" using ok by auto
    then have "unat (p_signal s) + unat k < 2 ^ 32" using lt park_invD(3) [OF inv] by simp
    note raised = raise_signal [OF inv k(1) this]
    have "park_inv (m + p_workers s) s'" using park_inv_mono [OF raised(1)] k acc N_add by auto
    then show ?thesis using acc N_add raised(2) k by (auto split: if_splits simp: all_stale_def)
  next
    case (N_one k)
    then have s': "s' = wake_one c s" using acc by simp
    note wk = wake_one_wakes [OF park_invD(2) [OF inv], of c]
    have r: "r = (if k = 1 then None else Some (N_one (k - 1)))" using acc N_one by simp
    have "k - 1 \<noteq> 0" if "k \<noteq> 1" using that by simp
    then have ?ok using r by simp
    moreover have ?inv using park_inv_mono [OF wakes_inv(1) [OF inv wk]] by (simp add: s')
    moreover have ?same ?rung using wakes_keep [OF wk] wakes_inv(2) [OF inv wk] by (simp_all add: s')
    ultimately show ?thesis using N_one by simp
  next
    case N_all
    then have s': "s' = wake_all s" using acc by simp
    note wk = wake_all_wakes [OF park_invD(2) [OF inv]]
    have ?inv using park_inv_mono [OF wakes_inv(1) [OF inv wk]] by (simp add: s')
    moreover have ?same ?rung using wakes_keep [OF wk] wakes_inv(2) [OF inv wk] by (simp_all add: s')
    ultimately show ?thesis using N_all acc by simp
  qed
  then show ?inv ?ok ?same ?duty ?rung by blast+
qed

section \<open>Every step of a worker\<close>

lemma notify_moves:
  assumes inv: "park_inv m s" and w: "w < p_workers s" and pc: "p_worker s w = W_notify np after"
    and next_pc: "pc = after \<or> (\<exists>np'. pc = W_notify np' after \<and> notify_ok (p_workers s) np')"
  shows "moves_well w pc s (worker_goes w pc s)"
proof -
  have "worker_ok (p_workers s) (p_signal s) (p_stopped s) pc" "\<not> counted pc" "signal_read pc = None"
    using park_invD(5) [OF inv w] pc next_pc by auto
  then show ?thesis using pc uncounted_facts [of pc] by (auto simp: moves_well_def sleeping_after_def)
qed

lemma worker_access_inv:
  assumes inv: "park_inv m s" and w: "w < p_workers s" and lt: "m + p_workers s < 2 ^ 32"
  shows "park_inv (m + p_workers s) (worker_access w c (p_worker s w) s)"
proof -
  note up = park_inv_mono [OF inv, of "m + p_workers s"]
  have step: ?thesis if "\<not> is_blocked (p_worker s w)" "\<exists>pc. moves_well w pc s (worker_access w c (p_worker s w) s)"
    using moves_well_inv [OF inv w that(1)] that(2) by (metis park_inv_mono le_add1)
  let ?s' = "worker_access w c (p_worker s w) s"
  have plain: ?thesis if "\<not> is_blocked (p_worker s w)" "moves_well w (p_worker ?s' w) s ?s'"
    using step that by blast
  note moves = moves_well_def sleeping_after_def
  note wok = park_invD(5) [OF inv w] and eh = park_invD(11) [OF inv w]
  show ?thesis
  proof (cases "p_worker s w")
    case (W_find r st)
    then show ?thesis using find_access_moves [OF inv w W_find] by (intro step) auto
  next
    case (W_notify np after)
    obtain r s' where acc: "notify_access c np s = (r, s')" by (cases "notify_access c np s")
    have ok: "notify_ok (p_workers s) np" using wok W_notify by simp
    note n = notify_access_inv [OF inv ok lt acc]
    have pc: "p_worker s' w = W_notify np after" and w': "w < p_workers s'" using n(3) W_notify w by auto
    let ?pc = "case r of None \<Rightarrow> after | Some np' \<Rightarrow> W_notify np' after"
    have "moves_well w ?pc s' (worker_goes w ?pc s')"
      using n(2,3) by (intro notify_moves [OF n(1) w' pc]) (auto split: option.splits)
    then have "park_inv (m + p_workers s) (worker_goes w ?pc s')"
      using pc by (intro moves_well_inv [OF n(1) w']) auto
    then show ?thesis using acc W_notify by (simp split: option.splits)
  next
    case (W_blocked cs)
    then show ?thesis using up by simp
  qed (rule plain; use wok eh in \<open>auto simp: moves Let_def pop_own_def\<close>)+
qed

section \<open>Every step of another thread\<close>

text \<open>Publishing makes more positions ready, and those of the thread itself need it no longer.\<close>

lemma publish_facts:
  "publish i l = [] \<longleftrightarrow> l = []"
  "e \<in> set (publish i l) \<Longrightarrow> qd_ready e \<or> qd_by e \<noteq> i \<and> e \<in> set l"
  by (auto simp: publish_def split: if_splits)

lemma drain_proj [simp]:
  "p_worker (drain_stores i s) = p_worker s" "p_workerCount (drain_stores i s) = p_workerCount s"
  "p_signal (drain_stores i s) = p_signal s" "p_stopped (drain_stores i s) = p_stopped s"
  "p_ext (drain_stores i s) = p_ext s" "p_tso (drain_stores i s) = p_tso s"
  "p_sleeping (drain_stores i s) = p_sleeping s" "p_local (drain_stores i s) = p_local s"
  "p_queue (drain_stores i s) = (\<lambda>q. publish i (p_queue s q))"
  by (simp_all add: drain_stores_def)

lemma attended_cong:
  "p_worker s' = p_worker s \<Longrightarrow> p_workerCount s' = p_workerCount s \<Longrightarrow> p_signal s' = p_signal s \<Longrightarrow> p_ext s' = p_ext s
    \<Longrightarrow> attended q s' = attended q s"
  "p_worker s' = p_worker s \<Longrightarrow> p_workerCount s' = p_workerCount s \<Longrightarrow> p_signal s' = p_signal s \<Longrightarrow> p_ext s' = p_ext s
    \<Longrightarrow> stop_seen s' = stop_seen s"
  "p_worker s' = p_worker s \<Longrightarrow> p_workerCount s' = p_workerCount s \<Longrightarrow> counted_workers s' = counted_workers s"
  by (simp_all add: attended_def stop_seen_def counted_workers_def)

lemma queues_change_inv:
  assumes "park_inv m s" and "s' = s\<lparr>p_queue := qs\<rparr>"
    and "\<And>q e. e \<in> set (qs q) \<Longrightarrow> qd_ready e \<or> e \<in> set (p_queue s q)" and "\<And>q. qs q \<noteq> [] \<Longrightarrow> p_queue s q \<noteq> []"
  shows "park_inv m s'"
  using assms attended_cong [of s' s] unfolding park_inv_def by simp metis

lemma drain_inv: "park_inv m s \<Longrightarrow> park_inv m (drain_stores i s)"
  by (rule queues_change_inv [where qs = "\<lambda>q. publish i (p_queue s q)"])
    (auto simp: drain_stores_def publish_facts(1) dest!: publish_facts(2))

text \<open>
  A thread moves from one counter to the next: it keeps its own obligations, or hands them to a
  worker that is up.
\<close>

lemma ext_goes_inv:
  assumes inv: "park_inv m s" and ok: "ext_ok (p_workers s) x"
    and pub: "publishing (p_ext s i) \<Longrightarrow> publishing x \<or> (\<forall>q. \<forall>e \<in> set (p_queue s q). qd_by e = i \<longrightarrow> qd_ready e)"
    and stop: "x \<noteq> X_stop_add" "x \<noteq> X_stop_all" "p_ext s i \<noteq> X_stop_add" "p_ext s i \<noteq> X_stop_all"
    and duty: "announcing (p_ext s i) \<Longrightarrow> announcing x
      \<or> (\<exists>w < p_workers s. \<forall>q. will_scan q (p_signal s) (p_worker s w)) \<or> all_stale s \<and> waking x"
    and rung: "waking (p_ext s i) \<Longrightarrow> waking x \<or> announcing x \<or> \<not> all_stale s"
  shows "park_inv m (ext_goes i x s)"
proof -
  have same: "p_ext (ext_goes i x s) j = X_stop_add \<longleftrightarrow> p_ext s j = X_stop_add"
    "p_ext (ext_goes i x s) j = X_stop_all \<longleftrightarrow> p_ext s j = X_stop_all" for j
    using stop by auto
  have "stop_seen (ext_goes i x s) = stop_seen s" unfolding stop_seen_def same by simp
  moreover have "attended q (ext_goes i x s)" if "attended q s" for q
    using that duty rung unfolding attended_def all_stale_def [symmetric] by (simp add: all_stale_def) metis
  moreover have "counted_workers (ext_goes i x s) = counted_workers s" by (simp add: counted_workers_def)
  moreover have "publishing (p_ext (ext_goes i x s) (qd_by e))" if "e \<in> set (p_queue s q)" "\<not> qd_ready e" for q e
    using park_invD(7) [OF inv that(1)] that pub by (cases "qd_by e = i") auto
  moreover have "\<forall>j. ext_ok (p_workers s) (((p_ext s)(i := x)) j)" using park_invD(6) [OF inv] ok by simp
  moreover have "\<forall>j. p_ext (ext_goes i x s) j = X_stop_add \<or> p_ext (ext_goes i x s) j = X_stop_all \<longrightarrow> p_stopped s"
    using same park_invD(8) [OF inv] by blast
  ultimately show ?thesis using inv unfolding park_inv_def by simp
qed

lemma worker_ok_stop: "worker_ok n sig st pc \<Longrightarrow> worker_ok n sig True pc"
  by (induction pc) auto

lemma shutdown_call_inv:
  assumes inv: "park_inv m s" and run: "\<not> p_stopped s"
  shows "park_inv m (ext_goes i X_stop_add (drain_stores i (s\<lparr>p_stopped := True\<rparr>)))" (is "park_inv m ?s")
proof -
  have inv1: "park_inv m (drain_stores i s)" by (rule drain_inv [OF inv])
  have "stop_seen ?s" by (auto simp: stop_seen_def)
  moreover have "counted_workers ?s = counted_workers (drain_stores i s)" by (simp add: counted_workers_def)
  moreover have "publishing (p_ext ?s (qd_by e))" if "e \<in> set (p_queue ?s q)" "\<not> qd_ready e" for q e
  proof -
    have "qd_by e \<noteq> i" using that publish_facts(2) [of e i "p_queue s q"] by auto
    then show ?thesis using park_invD(7) [OF inv1, of e q] that by auto
  qed
  moreover have "\<forall>w < p_workers s. worker_ok (p_workers s) (p_signal s) True (p_worker s w)"
    using park_invD(5) [OF inv] worker_ok_stop by blast
  moreover have "\<forall>j. ext_ok (p_workers s) (p_ext ?s j)" using park_invD(6) [OF inv] by simp
  ultimately show ?thesis using inv1 unfolding park_inv_def by simp
qed

lemma shutdown_raise_inv:
  assumes inv: "park_inv m s" and pc: "p_ext s i = X_stop_add" and lt: "m + p_workers s < 2 ^ 32"
  defines "s1 \<equiv> drain_stores i s"
  shows "park_inv (m + p_workers s) (ext_goes i X_stop_all (s1\<lparr>p_signal := p_signal s1 + 1\<rparr>))"
proof -
  let ?s2 = "s1\<lparr>p_signal := p_signal s1 + 1\<rparr>"
  have n: "0 < p_workers s" using park_invD(2) [OF inv] by (simp add: unat_gt_0)
  have inv1: "park_inv m s1" unfolding s1_def by (rule drain_inv [OF inv])
  have "unat (p_signal s1) + unat (1 :: u32) < 2 ^ 32" using park_invD(3) [OF inv1] lt n by simp
  note raised = raise_signal [OF inv1 _ this, simplified]
  have stopped: "p_stopped ?s2" using park_invD(8) [OF inv, of i] pc by (simp add: s1_def)
  have inv2: "park_inv (m + p_workers s) ?s2" using raised(1) by (rule park_inv_mono) (use n in simp)
  have "stop_seen (ext_goes i X_stop_all ?s2)" using raised(3) by (auto simp: stop_seen_def)
  moreover have "counted_workers (ext_goes i X_stop_all ?s2) = counted_workers ?s2" by (simp add: counted_workers_def)
  moreover have "publishing (p_ext (ext_goes i X_stop_all ?s2) (qd_by e))" if "e \<in> set (p_queue ?s2 q)" "\<not> qd_ready e" for q e
    using park_invD(7) [OF inv2 that(1)] that pc by (cases "qd_by e = i") (auto simp: s1_def)
  moreover have "\<forall>j. ext_ok (p_workers ?s2) (p_ext (ext_goes i X_stop_all ?s2) j)"
    using park_invD(6) [OF inv2] by simp
  ultimately show ?thesis using inv2 stopped unfolding park_inv_def by simp
qed

lemma shutdown_wake_inv:
  assumes inv: "park_inv m s" and pc: "p_ext s i = X_stop_all"
  shows "park_inv m (ext_goes i X_join (wake_all s))"
proof -
  note wk = wake_all_wakes [OF park_invD(2) [OF inv]]
  note inv' = wakes_inv(1) [OF inv wk] and keep = wakes_keep [OF wk]
  let ?s' = "ext_goes i X_join (wake_all s)"
  have stopped: "p_stopped s" using park_invD(8) [OF inv, of i] pc by simp
  have seen: "stop_seen (wake_all s)" using park_invD(9) [OF inv'] stopped keep by simp
  have "\<not> is_blocked (p_worker (wake_all s) w)"
    if "\<forall>w < p_workers s. past_stop (p_worker (wake_all s) w) \<longrightarrow> signal_read (p_worker (wake_all s) w) \<noteq> Some (p_signal s)"
      "w < p_workers s" for w
    using that by (cases "p_worker s w") (auto simp: wake_all_def split: if_splits)
  note awake = this
  have "stop_seen ?s'"
  proof (cases "\<exists>j. p_ext s j = X_stop_add")
    case True
    then obtain j where "p_ext s j = X_stop_add" by blast
    moreover from this have "j \<noteq> i" using pc by auto
    ultimately show ?thesis using keep by (auto simp: stop_seen_def intro!: exI [of _ j])
  next
    case False
    then have "\<forall>w < p_workers s. past_stop (p_worker (wake_all s) w) \<longrightarrow> signal_read (p_worker (wake_all s) w) \<noteq> Some (p_signal s)"
      using seen keep by (simp add: stop_seen_def)
    then show ?thesis using awake keep by (simp add: stop_seen_def)
  qed
  moreover have "counted_workers ?s' = counted_workers (wake_all s)" by (simp add: counted_workers_def)
  moreover have "publishing (p_ext ?s' (qd_by e))" if "e \<in> set (p_queue (wake_all s) q)" "\<not> qd_ready e" for q e
    using park_invD(7) [OF inv' that(1)] that pc keep by (cases "qd_by e = i") auto
  ultimately show ?thesis using inv' stopped keep unfolding park_inv_def by auto
qed

lemma after_publish_facts [simp]:
  "after_publish kind k qs \<noteq> X_stop_add" "after_publish kind k qs \<noteq> X_stop_all" "\<not> waking (after_publish kind k qs)"
  "k \<noteq> 0 \<Longrightarrow> announcing (after_publish kind k qs)"
  "ext_ok n (after_publish kind k qs) \<longleftrightarrow> qs = [] \<or> unat k + length qs < 2 ^ 32"
  by (auto simp: after_publish_def)

lemma ext_access_inv:
  assumes inv: "park_inv m s" and lt: "m + p_workers s < 2 ^ 32"
  shows "park_inv (m + p_workers s) (ext_access i c (p_ext s i) s)"
proof -
  note up = park_inv_mono [OF inv, of "m + p_workers s"]
  note ok = park_invD(6) [OF inv, of i]
  have n: "p_workerCount s \<noteq> 0" by (rule park_invD(2) [OF inv])
  show ?thesis
  proof (cases "p_ext s i")
    case (X_claim kind k todo)
    show ?thesis
    proof (cases todo)
      case (Cons q qs)
      have full: "park_inv m (ext_goes i (X_notify (N_load (p_workerCount s)) (X_claim kind k todo)) s)"
        using X_claim ok n by (intro ext_goes_inv [OF inv]) auto
      let ?x = "X_publish kind k q qs"
      have pub: "park_inv m (ext_goes i ?x s)" using X_claim ok Cons by (intro ext_goes_inv [OF inv]) auto
      let ?s1 = "drain_stores i s" and ?s = "ext_goes i ?x (drain_stores i s)"
      let ?s' = "ext_goes i ?x (?s1\<lparr>p_queue := (p_queue ?s1)(q := p_queue ?s1 q @ [\<lparr>qd_by = i, qd_ready = False\<rparr>])\<rparr>)"
      have s: "?s = drain_stores i (ext_goes i ?x s)" by (simp add: ext_goes_def drain_stores_def)
      have inv': "park_inv m ?s" unfolding s by (rule drain_inv [OF pub])
      have "attended q' ?s'" for q' by (auto simp: attended_def intro: exI [of _ i])
      then have "park_inv m ?s'"
        using inv' attended_cong(2,3) [of ?s' ?s] unfolding park_inv_def by (auto split: if_splits)
      then have claimed: "park_inv (m + p_workers s) ?s'" by (rule park_inv_mono) simp
      have "park_inv (m + p_workers s) (ext_goes i (X_notify (N_load (p_workerCount s)) (X_claim kind k todo)) s)"
        using full by (rule park_inv_mono) simp
      then show ?thesis using claimed up X_claim Cons
        by (simp add: Let_def)
    qed (use X_claim up in simp)
  next
    case (X_publish kind k q qs)
    have "unat (k + 1) = unat k + 1" using ok X_publish by (simp add: unat_word_ariths)
    then have k: "k + 1 \<noteq> 0" "unat (k + 1) + length qs < 2 ^ 32" using ok X_publish by auto
    have "park_inv m (ext_goes i (after_publish kind (k + 1) qs) (drain_stores i s))"
      using X_publish k
      by (intro ext_goes_inv [OF drain_inv [OF inv]]) (auto dest!: publish_facts(2))
    then show ?thesis using X_publish by (simp add: park_inv_mono)
  next
    case (X_notify np after)
    let ?s1 = "case np of N_add k \<Rightarrow> drain_stores i s | _ \<Rightarrow> s"
    obtain r s' where acc: "notify_access c np ?s1 = (r, s')" by (cases "notify_access c np ?s1")
    have inv1: "park_inv m ?s1" using inv drain_inv by (auto split: notify_pc.split)
    have same1: "p_workerCount ?s1 = p_workerCount s" "p_ext ?s1 = p_ext s" by (auto split: notify_pc.split)
    have nok: "notify_ok (p_workers ?s1) np" "m + p_workers ?s1 < 2 ^ 32" using ok X_notify lt same1 by auto
    note nt = notify_access_inv [OF inv1 nok acc]
    let ?x = "case r of None \<Rightarrow> after | Some np' \<Rightarrow> X_notify np' after"
    have "park_inv (m + p_workers ?s1) (ext_goes i ?x s')"
    proof (rule ext_goes_inv [OF nt(1)])
      have r: "resumes after" "ext_ok (p_workers s) after" using ok X_notify by auto
      have e: "p_ext s' i = X_notify np after" "p_workerCount s' = p_workerCount s" using nt(3) same1 X_notify by auto
      show "ext_ok (p_workers s') ?x" using r e nt(2) same1 by (auto split: option.split)
      show "?x \<noteq> X_stop_add" "?x \<noteq> X_stop_all" using r by (cases after; auto split: option.split)+
      show "p_ext s' i \<noteq> X_stop_add" "p_ext s' i \<noteq> X_stop_all" using e by auto
      show "publishing (p_ext s' i) \<Longrightarrow> publishing ?x \<or> (\<forall>q. \<forall>e \<in> set (p_queue s' q). qd_by e = i \<longrightarrow> qd_ready e)"
        using e by simp
      show "waking (p_ext s' i) \<Longrightarrow> waking ?x \<or> announcing ?x \<or> \<not> all_stale s'"
        using e nt(5) by simp
      have aft: "announcing after \<Longrightarrow> announcing ?x" by (auto split: option.split)
      have pend: "r = Some np' \<Longrightarrow> notify_pending np' \<Longrightarrow> announcing ?x"
        "r = Some np' \<Longrightarrow> rings np' \<Longrightarrow> waking ?x" for np' by auto
      show "announcing (p_ext s' i) \<Longrightarrow> announcing ?x
          \<or> (\<exists>w < p_workers s'. \<forall>q. will_scan q (p_signal s') (p_worker s' w)) \<or> all_stale s' \<and> waking ?x"
        using e nt(4) aft pend by (metis announcing.simps(3))
    qed
    then show ?thesis using X_notify acc same1 by (auto split: option.splits)
  next
    case X_stop_add
    then show ?thesis using shutdown_raise_inv [OF inv X_stop_add lt] by (simp add: Let_def)
  next
    case X_stop_all
    then show ?thesis using park_inv_mono [OF shutdown_wake_inv [OF inv X_stop_all]] by simp
  qed (use up in simp_all)
qed

section \<open>Every run\<close>

lemma local_change_inv:
  assumes "park_inv m s" and "\<And>w. w < p_workers s \<Longrightarrow> empty_handed (p_worker s w) \<Longrightarrow> f w = 0"
  shows "park_inv m (s\<lparr>p_local := f\<rparr>)"
  using assms attended_cong [of "s\<lparr>p_local := f\<rparr>" s] unfolding park_inv_def by simp

lemma wake_fixed [simp]: "p_workerCount (wake_one c s) = p_workerCount s" "p_workerCount (wake_all s) = p_workerCount s"
  by (auto simp: wake_one_def wake_all_def split: option.split)

lemma notify_fixed [simp]: "p_workerCount (snd (notify_access c np s)) = p_workerCount s"
  by (cases np) auto

lemma notify_fixed': "notify_access c np s = (r, s') \<Longrightarrow> p_workerCount s' = p_workerCount s"
  using notify_fixed [of c np s] by simp

lemma find_fixed: "p_workerCount (find_access w c r st s) = p_workerCount s"
  by (cases st) (auto simp: pop_own_def scan_queue_def Let_def split: option.split)

lemma worker_fixed: "p_workerCount (worker_access w c pc s) = p_workerCount s"
  by (cases pc) (auto simp: find_fixed pop_own_def Let_def notify_fixed' split: option.split prod.split)

lemma ext_fixed: "p_workerCount (ext_access i c x s) = p_workerCount s"
proof (cases x)
  case (X_claim kind k todo)
  then show ?thesis by (cases todo) (auto simp: Let_def)
next
  case (X_notify np after)
  then show ?thesis by (auto dest: notify_fixed' split: option.split prod.split notify_pc.split)
qed (auto simp: Let_def wake_all_def)

lemma workers_fixed: "p_workerCount (park_exec ev s) = p_workerCount s"
proof (cases ev)
  case (Ext_delay i)
  then show ?thesis by (cases "p_ext s i") auto
qed (auto simp: ext_fixed worker_fixed split: option.split)

lemma park_exec_inv:
  assumes inv: "park_inv m s" and lt: "m + p_workers s < 2 ^ 32"
  shows "park_inv (m + p_workers s) (park_exec ev s)" and "p_workerCount (park_exec ev s) = p_workerCount s"
proof -
  have step: "park_inv (m + p_workers s) s'" if "park_inv m s'" for s' using park_inv_mono [OF that] by simp
  show "park_inv (m + p_workers s) (park_exec ev s)"
  proof (cases ev)
    case (Call_schedule i kind qs)
    have "park_inv m (ext_goes i (X_claim kind 0 qs) s)"
      if "p_ext s i = X_idle" "qs \<noteq> []" "length qs < 2 ^ 32" using that by (intro ext_goes_inv [OF inv]) auto
    then show ?thesis using Call_schedule inv by (auto intro!: step)
  next
    case (Call_notify i k)
    have "park_inv m (ext_goes i (X_notify (N_load k) X_idle) s)" if "p_ext s i = X_idle"
      using that by (intro ext_goes_inv [OF inv]) auto
    then show ?thesis using Call_notify inv by (auto intro!: step)
  next
    case (Call_shutdown i)
    then show ?thesis using inv shutdown_call_inv [OF inv] by (auto intro!: step)
  next
    case (Ext_step i c)
    then show ?thesis using ext_access_inv [OF inv lt] by simp
  next
    case (Ext_delay i)
    then show ?thesis using inv park_invD(1) [OF inv] by (cases "p_ext s i") (auto intro!: step)
  next
    case (Ext_drain i)
    then show ?thesis using inv park_invD(1) [OF inv] by (auto intro!: step)
  next
    case (Help_take q)
    have "park_inv m (s\<lparr>p_queue := (p_queue s)(q := es)\<rparr>)" if "take_head (p_queue s q) = Some es" for es
      using take_head_SomeD [OF that] by (intro queues_change_inv [OF inv refl]) (auto split: if_splits)
    then show ?thesis using Help_take inv by (auto intro!: step split: option.split)
  next
    case (Help_steal v)
    then show ?thesis using park_invD(11) [OF inv] by (auto intro!: step local_change_inv [OF inv])
  next
    case (Work_step w c)
    then show ?thesis using inv worker_access_inv [OF inv _ lt] by (auto intro!: step)
  next
    case (Work_push w)
    then show ?thesis
      using inv park_invD(11) [OF inv] working_facts(5) by (auto intro!: step local_change_inv [OF inv])
  next
    case (Work_notify w b k)
    have "park_inv m (worker_goes w (W_notify np (p_worker s w)) s)"
      if w: "w < p_workers s" and busy: "working (p_worker s w)" and np: "notify_ok (p_workers s) np" for np
      using working_facts [OF busy] park_invD(5) [OF inv w] np
      by (intro moves_well_inv [OF inv w, of "W_notify np (p_worker s w)"]) (auto simp: moves_well_def sleeping_after_def)
    then show ?thesis using Work_notify inv by (auto intro!: step)
  qed
  show "p_workerCount (park_exec ev s) = p_workerCount s" by (rule workers_fixed)
qed

lemma park_run_inv:
  assumes "park_inv m s" and "m + length evs * p_workers s < 2 ^ 32"
  shows "park_inv (m + length evs * p_workers s) (park_run evs s) \<and> p_workerCount (park_run evs s) = p_workerCount s"
  using assms
proof (induction evs arbitrary: m s)
  case (Cons ev evs)
  have inv: "park_inv (m + p_workers s) (park_exec ev s)" by (rule park_exec_inv [OF Cons.prems(1)]) (use Cons.prems(2) in simp)
  show ?case using Cons.IH [OF inv] Cons.prems(2) by (simp add: park_run_def workers_fixed algebra_simps)
qed (simp add: park_run_def)

lemma parking_new_inv:
  assumes "n \<noteq> 0" shows "park_inv 0 (parking_new False n)"
  using assms by (auto simp: park_inv_def parking_new_def counted_workers_def)

lemma park_reachable:
  assumes "n \<noteq> 0" and "length evs * unat n < 2 ^ 32"
  shows "park_inv (length evs * unat n) (park_run evs (parking_new False n))"
    and "p_workerCount (park_run evs (parking_new False n)) = n"
  using park_run_inv [OF parking_new_inv [OF assms(1)], of evs] assms(2) by (auto simp: parking_new_def)

section \<open>A worker left alone takes a queued task\<close>

fun stage_steps :: "nat \<Rightarrow> park_queue \<Rightarrow> find_stage \<Rightarrow> nat" where
  "stage_steps n q Own_deque = 5"
| "stage_steps n q Queue_high = 4"
| "stage_steps n q Queue_normal = (if q = Global_normal then 3 else 2 * n + 12)"
| "stage_steps n q (Victim_batch start attempt) = 11 + 2 * (n - unat attempt)"
| "stage_steps n q (Victim_single start attempt) = 10 + 2 * (n - unat attempt)"
| "stage_steps n q Own_again = 10"

fun steps_left :: "nat \<Rightarrow> park_queue \<Rightarrow> worker_pc \<Rightarrow> nat" where
  "steps_left n q W_found = 1"
| "steps_left n q (W_find r st) = stage_steps n q st"
| "steps_left n q (W_poll timeouts) = (if timeouts then 6 else 7)"
| "steps_left n q W_top = 6"
| "steps_left n q W_sleep = 8"
| "steps_left n q W_signal = 7"
| "steps_left n q (W_stop cs) = 6"
| "steps_left n q (W_wait cs) = 8"
| "steps_left n q W_woken = 7"
| "steps_left n q _ = 0"

definition notifying :: "worker_pc \<Rightarrow> bool" where
  "notifying pc \<longleftrightarrow> (case pc of W_notify np after \<Rightarrow> True | _ \<Rightarrow> False)"

definition near :: "park_queue \<Rightarrow> nat \<Rightarrow> parking \<Rightarrow> bool" where
  "near q w s \<longleftrightarrow> w < p_workers s \<and> \<not> p_stopped s \<and>
     (p_worker s w = W_run False \<or> p_worker s w = W_found \<or>
      will_scan q (p_signal s) (p_worker s w) \<and> \<not> notifying (p_worker s w) \<and> \<not> left_loop (p_worker s w)
      \<and> take_head (p_queue s q) \<noteq> None \<and> attempt_ok (p_workers s) (p_worker s w))"

lemma steps_bound: "steps_left n q pc \<le> 2 * n + 12"
  by (cases "(n, q, pc)" rule: steps_left.cases; simp; case_tac st; simp)

lemma next_victim_near:
  assumes "unat k < unat n"
  shows "steps_left (unat n) q (next_victim n r start k) < 10 + 2 * (unat n - unat k)"
    and "attempt_ok (unat n) (next_victim n r start k)" and "\<not> notifying (next_victim n r start k)"
    and "\<not> left_loop (next_victim n r start k)"
proof -
  have "unat n < 2 ^ 32" using unsigned_less [of n] by simp
  then have k: "unat (k + 1) = unat k + 1" using assms by (simp add: unat_word_ariths)
  show "steps_left (unat n) q (next_victim n r start k) < 10 + 2 * (unat n - unat k)"
    using assms k by (cases r) (auto simp: next_victim_def word_less_nat_alt)
  show "attempt_ok (unat n) (next_victim n r start k)"
    by (cases r) (auto simp: next_victim_def word_less_nat_alt)
  show "\<not> notifying (next_victim n r start k)" "\<not> left_loop (next_victim n r start k)"
    by (cases r; simp add: next_victim_def notifying_def)+
qed

lemma found_near:
  assumes "w < p_workers s" and "\<not> p_stopped s"
  shows "near q w (worker_goes w (found r) s)"
  using assms by (cases r) (simp_all add: near_def)

lemma found_steps: "steps_left n q (found r) \<le> 1"
  by (cases r) simp_all

lemma not_found_near: "attempt_ok n (not_found r)" "\<not> notifying (not_found r)" "\<not> left_loop (not_found r)"
  "steps_left n q (not_found r) \<le> 8"
  by (cases r; simp add: notifying_def)+

lemma victim_scan:
  assumes "will_scan q sig (W_find r (Victim_batch a b)) \<or> will_scan q sig (W_find r (Victim_single a b))"
  shows "will_scan q sig (next_victim n r a' b')" "will_scan q sig (W_find r (Victim_single a' b'))"
  using assms by (cases r; simp add: next_victim_def)+

lemma near_step:
  assumes near: "near q w s" and n: "p_workerCount s \<noteq> 0" and run: "p_worker s w \<noteq> W_run False"
  defines "s' \<equiv> park_exec (Work_step w 0) s"
  shows "near q w s' \<and> steps_left (p_workers s) q (p_worker s' w) < steps_left (p_workers s) q (p_worker s w)"
proof (cases "p_worker s w")
  case (W_find r st)
  have f: "near q w (worker_goes w (found r) s')" if "p_workers s' = p_workers s" "p_stopped s' = p_stopped s" for s'
    using near that by (intro found_near) (simp_all add: near_def)
  note facts = near [unfolded near_def] found_steps [of "p_workers s" q r] not_found_near
  show ?thesis
  proof (cases st)
    case (Victim_batch a b)
    have b: "unat b < p_workers s" using near W_find Victim_batch by (simp add: near_def)
    have "will_scan q (p_signal s) (W_find r (Victim_batch a b))" using near W_find Victim_batch by (simp add: near_def)
    then show ?thesis
      using near W_find Victim_batch next_victim_near(1) [OF b, of q r a] next_victim_near(2-) [OF b] victim_scan [of q "p_signal s" r a b]
      by (auto simp: s'_def near_def Let_def) (auto simp: notifying_def)
  next
    case (Victim_single a b)
    have b: "unat b < p_workers s" using near W_find Victim_single by (simp add: near_def)
    have "will_scan q (p_signal s) (W_find r (Victim_single a b))" using near W_find Victim_single by (simp add: near_def)
    then show ?thesis
      using near W_find Victim_single next_victim_near(1) [OF b, of q r a] next_victim_near(2-) [OF b] victim_scan [of q "p_signal s" r a b]
      by (auto simp: s'_def near_def Let_def)
  next
    case Queue_high
    then show ?thesis using facts W_find f n
      by (cases q; cases r) (auto simp: s'_def near_def scan_queue_def notifying_def split: option.splits)
  next
    case Queue_normal
    then show ?thesis using facts W_find f n
      by (cases q; cases r) (auto simp: s'_def near_def scan_queue_def notifying_def unat_gt_0 split: option.splits)
  next
    case Own_deque
    then show ?thesis using facts W_find f by (cases r) (auto simp: s'_def near_def pop_own_def notifying_def)
  next
    case Own_again
    then show ?thesis using near W_find by (cases r) (auto simp: s'_def pop_own_def near_def notifying_def)
  qed
qed (use near n run in \<open>auto simp: near_def notifying_def s'_def Let_def\<close>)

lemma near_runs:
  assumes "near q w s" and "p_workerCount s \<noteq> 0"
  shows "\<exists>k \<le> steps_left (p_workers s) q (p_worker s w). p_worker (park_run (replicate k (Work_step w 0)) s) w = W_run False"
  using assms
proof (induction "steps_left (p_workers s) q (p_worker s w)" arbitrary: s rule: less_induct)
  case less
  show ?case
  proof (cases "p_worker s w = W_run False")
    case True
    then show ?thesis by (intro exI [of _ 0]) (simp add: park_run_def)
  next
    case False
    let ?s' = "park_exec (Work_step w 0) s"
    note st = near_step [OF less.prems False]
    have n: "p_workerCount ?s' = p_workerCount s" by (rule workers_fixed)
    obtain k where "k \<le> steps_left (p_workers s) q (p_worker ?s' w)"
      "p_worker (park_run (replicate k (Work_step w 0)) ?s') w = W_run False"
      using less.hyps [of ?s'] st less.prems(2) unfolding n by blast
    then show ?thesis using st by (intro exI [of _ "Suc k"]) (simp add: park_run_def)
  qed
qed

section \<open>Falling asleep\<close>

text \<open>A single worker finds nothing in 258 calls of \<open>findWork\<close> of four steps each, counts itself and parks.\<close>

definition to_sleep :: "park_event list" where
  "to_sleep = replicate (1 + 258 * 4 + 2) (Work_step 0 0)"

lemma park_run_append: "park_run (xs @ ys) s = park_run ys (park_run xs s)"
  by (simp add: park_run_def)

lemma spin_round:
  "park_run (replicate 4 (Work_step 0 0)) (worker_goes 0 (W_find (Loop k) Own_deque) (parking_new tso 1))
     = worker_goes 0 (not_found (Loop k)) (parking_new tso 1)"
  by (simp add: park_run_def numeral_eq_Suc parking_new_def worker_goes_def pop_own_def scan_queue_def next_victim_def)

lemma spin_rounds:
  "j \<le> SPIN_COUNT \<Longrightarrow> park_run (replicate (j * 4) (Work_step 0 0)) (worker_goes 0 (W_find (Loop 0) Own_deque) (parking_new tso 1))
     = worker_goes 0 (W_find (Loop j) Own_deque) (parking_new tso 1)"
proof (induction j)
  case (Suc j)
  have "replicate (Suc j * 4) (Work_step 0 0) = replicate (j * 4) (Work_step 0 0) @ replicate 4 (Work_step 0 0)"
    by (simp flip: replicate_add add: add.commute)
  then show ?case using Suc spin_round [of j tso] by (simp only: park_run_append) simp
qed (simp add: park_run_def)

lemma to_sleep_run: "park_run to_sleep (parking_new tso 1) = worker_goes 0 W_sleep (parking_new tso 1)"
proof -
  have ev: "to_sleep = replicate 1 (Work_step 0 0) @ replicate (SPIN_COUNT * 4) (Work_step 0 0) @ replicate 4 (Work_step 0 0)
      @ replicate 2 (Work_step 0 0) @ replicate 4 (Work_step 0 0)"
    unfolding to_sleep_def SPIN_COUNT_def replicate_add [symmetric] by simp
  have top: "park_run (replicate 1 (Work_step 0 0)) (parking_new tso 1) = worker_goes 0 (W_find (Loop 0) Own_deque) (parking_new tso 1)"
    by (simp add: park_run_def parking_new_def worker_goes_def)
  have poll: "park_run (replicate 2 (Work_step 0 0)) (worker_goes 0 (W_poll False) (parking_new tso 1))
      = worker_goes 0 (W_find (Loop (SPIN_COUNT + 1)) Own_deque) (parking_new tso 1)"
    by (simp add: park_run_def numeral_eq_Suc parking_new_def worker_goes_def)
  show ?thesis
    unfolding ev park_run_append top spin_rounds [OF order_refl] spin_round not_found.simps
    by (simp add: poll spin_round)
qed

definition asleep :: "park_event list" where
  "asleep = to_sleep @ replicate 8 (Work_step 0 0)"

lemma eight: "replicate 8 (x :: park_event) = [x, x, x, x, x, x, x, x]"
  by (simp add: numeral_eq_Suc)

lemma asleep_run: "park_run asleep (parking_new tso 1) = worker_goes 0 (W_blocked 0) ((parking_new tso 1)\<lparr>p_sleeping := 1\<rparr>)"
  unfolding asleep_def park_run_append to_sleep_run eight
  by (simp add: park_run_def parking_new_def worker_goes_def pop_own_def scan_queue_def next_victim_def)

definition woken_by_task :: "park_event list" where
  "woken_by_task = asleep @ [Call_schedule 7 Schedule [Global_high], Ext_step 7 1, Ext_step 7 0, Ext_step 7 0, Ext_step 7 0,
     Ext_step 7 0, Ext_step 7 0]"

lemma woken_length: "length woken_by_task = 1050"
  by (simp add: woken_by_task_def asleep_def to_sleep_def)

lemma woken_run:
  "park_run woken_by_task (parking_new False 1) = worker_goes 0 W_woken ((parking_new False 1)\<lparr>p_sleeping := 1, p_signal := 1,
     p_queue := (\<lambda>_. [])(Global_high := [\<lparr>qd_by = 7, qd_ready = True\<rparr>])\<rparr>)"
  unfolding woken_by_task_def park_run_append asleep_run
  by (rule parking.equality)
    (auto simp: park_run_def parking_new_def worker_goes_def after_publish_def publish_def Let_def drain_stores_def
      ext_goes_def wake_one_def waiter_def fun_eq_iff)

section \<open>No lost wake-up\<close>

lemma attended_somewhere:
  assumes "park_inv m s" and "\<not> p_stopped s" and "\<forall>i. p_ext s i = X_idle" and "p_queue s q \<noteq> []"
  shows "\<exists>w < p_workers s. notifying (p_worker s w) \<or> near q w s"
proof -
  have "attended q s" by (rule park_invD(10) [OF assms(1,2,4)])
  then obtain w where w: "w < p_workers s" "will_scan q (p_signal s) (p_worker s w)"
    using assms(3) by (auto simp: attended_def)
  have "take_head (p_queue s q) \<noteq> None" using take_head_NoneD [OF assms(1)] assms(3,4) by auto
  moreover have "\<not> left_loop (p_worker s w)" "attempt_ok (p_workers s) (p_worker s w)" if "\<not> notifying (p_worker s w)"
    using park_invD(5) [OF assms(1) w(1)] assms(2) that by (cases "p_worker s w"; auto simp: notifying_def)+
  ultimately have "notifying (p_worker s w) \<or> near q w s" using w assms(2) by (auto simp: near_def)
  then show ?thesis using w(1) by blast
qed



text \<open>
  C29: \<open>shutdown\<close> wakes everybody for good. Once its notification is out, no worker is
  asleep, and as this holds after every further interleaving, none falls asleep again, so the joins
  of \<open>shutdown\<close> wait only for workers that run.
\<close>

theorem shutdown_leaves_no_sleeper:
  assumes "n \<noteq> 0" and "length evs * unat n < 2 ^ 32" and "s = park_run evs (parking_new False n)" and "p_stopped s"
    and "\<forall>i. p_ext s i \<noteq> X_stop_add \<and> p_ext s i \<noteq> X_stop_all" and "w < unat n"
  shows "\<not> is_blocked (p_worker s w)"
  using park_invD(9) [OF park_reachable(1) [OF assms(1,2), folded assms(3)] assms(4)] assms(5,6)
    park_reachable(2) [OF assms(1,2), folded assms(3)] by (auto simp: stop_seen_def)

theorem shutdown_leaves_no_sleeper_witness:
  "p_worker (park_run asleep (parking_new False 1)) 0 = W_blocked 0
    \<and> \<not> is_blocked (p_worker (park_run (asleep @ [Call_shutdown 3, Ext_step 3 0, Ext_step 3 0]) (parking_new False 1)) 0)"
proof -
  let ?evs = "asleep @ [Call_shutdown 3, Ext_step 3 0, Ext_step 3 0]" and ?s0 = "parking_new False 1"
  have s: "p_stopped (park_run ?evs ?s0)" "p_ext (park_run ?evs ?s0) = (\<lambda>_. X_idle)(3 := X_join)"
    unfolding park_run_append asleep_run
    by (simp_all add: park_run_def parking_new_def worker_goes_def ext_goes_def drain_stores_def publish_def wake_all_def Let_def)
  have "length ?evs = 1046" by (simp add: asleep_def to_sleep_def)
  then have "\<not> is_blocked (p_worker (park_run ?evs ?s0) 0)"
    using s by (intro shutdown_leaves_no_sleeper [of 1 ?evs]) simp_all
  then show ?thesis by (simp add: asleep_run)
qed

section \<open>With store buffers\<close>

definition lost_wakeup :: "park_event list" where
  "lost_wakeup = to_sleep
     @ [Call_schedule 1 Schedule [Global_normal], Ext_step 1 1, Ext_delay 1, Ext_step 1 0]
     @ replicate 8 (Work_step 0 0) @ [Ext_drain 1]"

text \<open>
  C30: On a machine with store buffers, such as x86, a wake-up can be lost.
  \<open>tryEnqueue\<close> publishes with a release store and \<open>schedule\<close> goes on with
  a relaxed load of \<open>m_sleepingCount\<close>, which may be served first: the thread sees no
  sleeper, the worker then counts itself, finds the position unpublished and falls asleep on the
  current signal. The task is in the queue, the only worker sleeps, nobody is in a call.
\<close>

theorem buffered_publish_loses_wakeup:
  "let s = park_run lost_wakeup (parking_new True 1)
   in p_queue s Global_normal = [\<lparr>qd_by = 1, qd_ready = True\<rparr>] \<and> p_worker s 0 = W_blocked (p_signal s)
      \<and> p_sleeping s = 1 \<and> (\<forall>i. p_ext s i = X_idle) \<and> \<not> p_stopped s"
proof -
  let ?s1 = "(worker_goes 0 W_sleep (parking_new True 1))\<lparr>p_queue := (\<lambda>_. [])(Global_normal := [\<lparr>qd_by = 1, qd_ready = False\<rparr>])\<rparr>"
  have produce: "park_run [Call_schedule 1 Schedule [Global_normal], Ext_step 1 1, Ext_delay 1, Ext_step 1 0]
      (worker_goes 0 W_sleep (parking_new True 1)) = ?s1"
    by (rule parking.equality)
      (auto simp: park_run_def parking_new_def worker_goes_def after_publish_def publish_def Let_def drain_stores_def
        ext_goes_def fun_eq_iff)
  have park: "park_run (replicate 8 (Work_step 0 0)) ?s1 = worker_goes 0 (W_blocked 0) (?s1\<lparr>p_sleeping := 1\<rparr>)"
    unfolding eight
    by (simp add: park_run_def parking_new_def worker_goes_def pop_own_def scan_queue_def next_victim_def)
  show ?thesis
    unfolding lost_wakeup_def park_run_append to_sleep_run produce park
    by (simp add: park_run_def parking_new_def worker_goes_def publish_def)
qed

end
