(* ===== verification/Io_Parking.thy ===== *)
theory Io_Parking
  imports Worker_Parking
begin

text \<open>
  How the IO workers go to sleep and are woken (\<^verbatim>\<open>task_scheduler.cpp\<close>): \<open>ioWorkerLoop\<close>, the IO branch of \<open>schedule\<close>
  and the second half of \<open>shutdown\<close>, cut like \<open>Worker_Parking\<close> at the accesses to the wake signal, the stop flag and the
  queue. \<open>MpmcTaskQueue::empty\<close> is two accesses, one to each position. Here the thread that queues a task raises
  the signal in any case, by a read-modify-write, so the theorem holds with store buffers as well.
  A task that runs on an IO worker and schedules another one does so as one of the other threads.
\<close>

datatype io_pc =
    I_top
  | I_dequeue
  | I_load
  | I_stop u32
  | I_enq u32
  | I_deq u32 usize
  | I_wait u32
  | I_blocked u32
  | I_run bool
  | I_drain
  | I_exit

datatype io_call =
    P_idle
  | P_claim
  | P_publish
  | P_add
  | P_wake
  | P_stop_add
  | P_stop_all
  | P_join

record io_parking =
  io_workers :: nat
  io_signal :: u32
  io_stopped :: bool
  io_queue :: "queued list"
  io_enqueuePos :: usize
  io_dequeuePos :: usize
  io_worker :: "nat \<Rightarrow> io_pc"
  io_call :: "nat \<Rightarrow> io_call"
  io_tso :: bool

definition io_parking_new :: "bool \<Rightarrow> nat \<Rightarrow> io_parking" where
  "io_parking_new tso n = \<lparr>io_workers = n, io_signal = 0, io_stopped = False, io_queue = [], io_enqueuePos = 0,
     io_dequeuePos = 0, io_worker = (\<lambda>_. I_top), io_call = (\<lambda>_. P_idle), io_tso = tso\<rparr>"

definition io_goes :: "nat \<Rightarrow> io_pc \<Rightarrow> io_parking \<Rightarrow> io_parking" where
  "io_goes w pc s = s\<lparr>io_worker := (io_worker s)(w := pc)\<rparr>"

definition call_goes :: "nat \<Rightarrow> io_call \<Rightarrow> io_parking \<Rightarrow> io_parking" where
  "call_goes i x s = s\<lparr>io_call := (io_call s)(i := x)\<rparr>"

fun io_blocked :: "io_pc \<Rightarrow> bool" where
  "io_blocked (I_blocked cs) = True"
| "io_blocked _ = False"

fun io_wake_pc :: "u32 \<Rightarrow> io_pc \<Rightarrow> io_pc" where
  "io_wake_pc sig (I_blocked cs) = (if cs = sig then I_blocked cs else I_top)"
| "io_wake_pc sig pc = pc"

definition io_wake_one :: "nat \<Rightarrow> io_parking \<Rightarrow> io_parking" where
  "io_wake_one c s =
     (case (if c < io_workers s \<and> io_blocked (io_worker s c) then Some c
            else List.find (\<lambda>w. io_blocked (io_worker s w)) [0..<io_workers s]) of
        None \<Rightarrow> s
      | Some w \<Rightarrow> io_goes w (io_wake_pc (io_signal s) (io_worker s w)) s)"

definition io_wake_all :: "io_parking \<Rightarrow> io_parking" where
  "io_wake_all s = s\<lparr>io_worker := (\<lambda>w. io_wake_pc (io_signal s) (io_worker s w))\<rparr>"

definition io_take :: "nat \<Rightarrow> io_pc \<Rightarrow> io_pc \<Rightarrow> io_parking \<Rightarrow> io_parking" where
  "io_take w yes no s = (case take_head (io_queue s) of
       None \<Rightarrow> io_goes w no s
     | Some es \<Rightarrow> io_goes w yes (s\<lparr>io_queue := es, io_dequeuePos := io_dequeuePos s + 1\<rparr>))"

fun io_access :: "nat \<Rightarrow> io_pc \<Rightarrow> io_parking \<Rightarrow> io_parking" where
  "io_access w I_top s = io_goes w (if io_stopped s then I_drain else I_dequeue) s"
| "io_access w I_dequeue s = io_take w (I_run False) I_load s"
| "io_access w I_load s = io_goes w (I_stop (io_signal s)) s"
| "io_access w (I_stop cs) s = io_goes w (if io_stopped s then I_drain else I_enq cs) s"
| "io_access w (I_enq cs) s = io_goes w (I_deq cs (io_enqueuePos s)) s"
| "io_access w (I_deq cs enq) s = io_goes w (if enq \<le> io_dequeuePos s then I_wait cs else I_top) s"
| "io_access w (I_wait cs) s = io_goes w (if cs = io_signal s then I_blocked cs else I_top) s"
| "io_access w (I_blocked cs) s = s"
| "io_access w (I_run draining) s = io_goes w (if draining then I_drain else I_top) s"
| "io_access w I_drain s = io_take w (I_run True) I_exit s"
| "io_access w I_exit s = s"

definition io_drain_stores :: "nat \<Rightarrow> io_parking \<Rightarrow> io_parking" where
  "io_drain_stores i s = s\<lparr>io_queue := publish i (io_queue s)\<rparr>"

text \<open>A full queue makes \<open>schedule\<close> try again; \<open>c\<close> is the answer of the queue, or the sleeper that \<open>notify_one\<close> picks.\<close>

fun call_access :: "nat \<Rightarrow> nat \<Rightarrow> io_call \<Rightarrow> io_parking \<Rightarrow> io_parking" where
  "call_access i c P_idle s = s"
| "call_access i c P_claim s =
     (if c = 0 then s
      else let s' = io_drain_stores i s
           in call_goes i P_publish (s'\<lparr>io_queue := io_queue s' @ [\<lparr>qd_by = i, qd_ready = False\<rparr>],
                io_enqueuePos := io_enqueuePos s' + 1\<rparr>))"
| "call_access i c P_publish s = call_goes i P_add (io_drain_stores i s)"
| "call_access i c P_add s =
     (let s' = io_drain_stores i s in call_goes i P_wake (s'\<lparr>io_signal := io_signal s' + 1\<rparr>))"
| "call_access i c P_wake s = call_goes i P_idle (io_wake_one c s)"
| "call_access i c P_stop_add s =
     (let s' = io_drain_stores i s in call_goes i P_stop_all (s'\<lparr>io_signal := io_signal s' + 1\<rparr>))"
| "call_access i c P_stop_all s = call_goes i P_join (io_wake_all s)"
| "call_access i c P_join s = s"

datatype io_event =
    Io_schedule nat
  | Io_shutdown nat
  | Io_call nat nat
  | Io_delay nat
  | Io_drain nat
  | Io_step nat

fun io_exec :: "io_event \<Rightarrow> io_parking \<Rightarrow> io_parking" where
  "io_exec (Io_schedule i) s = (if io_call s i = P_idle then call_goes i P_claim s else s)"
| "io_exec (Io_shutdown i) s =
     (if io_call s i = P_idle \<and> \<not> io_stopped s
      then call_goes i P_stop_add (io_drain_stores i (s\<lparr>io_stopped := True\<rparr>)) else s)"
| "io_exec (Io_call i c) s = call_access i c (io_call s i) s"
| "io_exec (Io_delay i) s = (if io_tso s \<and> io_call s i = P_publish then call_goes i P_add s else s)"
| "io_exec (Io_drain i) s = (if io_tso s \<and> io_call s i \<noteq> P_publish then io_drain_stores i s else s)"
| "io_exec (Io_step w) s = (if w < io_workers s then io_access w (io_worker s w) s else s)"

definition io_run :: "io_event list \<Rightarrow> io_parking \<Rightarrow> io_parking" where
  "io_run evs s = fold io_exec evs s"

section \<open>The invariant\<close>

fun io_signal_read :: "io_pc \<Rightarrow> u32 option" where
  "io_signal_read (I_stop cs) = Some cs"
| "io_signal_read (I_enq cs) = Some cs"
| "io_signal_read (I_deq cs enq) = Some cs"
| "io_signal_read (I_wait cs) = Some cs"
| "io_signal_read (I_blocked cs) = Some cs"
| "io_signal_read _ = None"

text \<open>Will the worker look at the queue before it can fall asleep?\<close>

fun will_look :: "u32 \<Rightarrow> io_pc \<Rightarrow> bool" where
  "will_look sig (I_wait cs) = (cs \<noteq> sig)"
| "will_look sig (I_blocked cs) = False"
| "will_look sig _ = True"

fun io_left :: "io_pc \<Rightarrow> bool" where
  "io_left (I_run draining) = draining"
| "io_left I_drain = True"
| "io_left I_exit = True"
| "io_left _ = False"

definition io_announced :: "io_parking \<Rightarrow> bool" where
  "io_announced s \<longleftrightarrow> (\<exists>i. io_call s i = P_publish \<or> io_call s i = P_add)"

definition io_all_stale :: "io_parking \<Rightarrow> bool" where
  "io_all_stale s \<longleftrightarrow> (\<forall>w < io_workers s. \<exists>cs. io_worker s w = I_blocked cs \<and> cs \<noteq> io_signal s)"

definition io_attended :: "io_parking \<Rightarrow> bool" where
  "io_attended s \<longleftrightarrow> io_announced s \<or> (\<exists>w < io_workers s. will_look (io_signal s) (io_worker s w))
     \<or> (\<exists>i. io_call s i = P_wake) \<and> io_all_stale s"

text \<open>
  A worker in the middle of \<open>empty\<close> has read the present \<open>m_enqueuePos\<close>, unless somebody is going to raise
  the signal or has done so since.
\<close>

fun io_pc_ok :: "io_parking \<Rightarrow> io_pc \<Rightarrow> bool" where
  "io_pc_ok s (I_deq cs enq) = (cs \<le> io_signal s \<and> (cs = io_signal s \<longrightarrow> enq = io_enqueuePos s \<or> io_announced s))"
| "io_pc_ok s pc = ((\<forall>cs. io_signal_read pc = Some cs \<longrightarrow> cs \<le> io_signal s) \<and> (io_left pc \<longrightarrow> io_stopped s))"

fun past_io_stop :: "io_pc \<Rightarrow> bool" where
  "past_io_stop (I_stop cs) = False"
| "past_io_stop _ = True"

definition io_stop_seen :: "io_parking \<Rightarrow> bool" where
  "io_stop_seen s \<longleftrightarrow> (\<exists>i. io_call s i = P_stop_add) \<or>
     (\<forall>w < io_workers s. past_io_stop (io_worker s w) \<longrightarrow> io_signal_read (io_worker s w) \<noteq> Some (io_signal s))
     \<and> ((\<exists>i. io_call s i = P_stop_all) \<or> (\<forall>w < io_workers s. \<not> io_blocked (io_worker s w)))"

definition io_inv :: "nat \<Rightarrow> io_parking \<Rightarrow> bool" where
  "io_inv m s \<longleftrightarrow> 0 < io_workers s \<and> unat (io_signal s) \<le> m \<and> unat (io_enqueuePos s) \<le> m
     \<and> unat (io_dequeuePos s) + length (io_queue s) = unat (io_enqueuePos s)
     \<and> (\<forall>w < io_workers s. io_pc_ok s (io_worker s w))
     \<and> (\<forall>e \<in> set (io_queue s). \<not> qd_ready e \<longrightarrow> io_call s (qd_by e) = P_publish \<or> io_call s (qd_by e) = P_add)
     \<and> (\<forall>i. (io_call s i = P_stop_add \<or> io_call s i = P_stop_all) \<longrightarrow> io_stopped s)
     \<and> (io_stopped s \<longrightarrow> io_stop_seen s)
     \<and> (\<not> io_stopped s \<longrightarrow> io_queue s \<noteq> [] \<longrightarrow> io_attended s)"

lemma io_invD:
  assumes "io_inv m s"
  shows "0 < io_workers s" "unat (io_signal s) \<le> m" "unat (io_enqueuePos s) \<le> m"
    "unat (io_dequeuePos s) + length (io_queue s) = unat (io_enqueuePos s)"
    "w < io_workers s \<Longrightarrow> io_pc_ok s (io_worker s w)"
    "e \<in> set (io_queue s) \<Longrightarrow> qd_ready e \<or> io_call s (qd_by e) = P_publish \<or> io_call s (qd_by e) = P_add"
    "io_call s i = P_stop_add \<or> io_call s i = P_stop_all \<Longrightarrow> io_stopped s"
    "io_stopped s \<Longrightarrow> io_stop_seen s"
    "\<not> io_stopped s \<Longrightarrow> io_queue s \<noteq> [] \<Longrightarrow> io_attended s"
  using assms by (auto simp: io_inv_def)

lemma io_invI:
  assumes "0 < io_workers s" "unat (io_signal s) \<le> m" "unat (io_enqueuePos s) \<le> m"
    "unat (io_dequeuePos s) + length (io_queue s) = unat (io_enqueuePos s)"
    "\<And>w. w < io_workers s \<Longrightarrow> io_pc_ok s (io_worker s w)"
    "\<And>e. e \<in> set (io_queue s) \<Longrightarrow> qd_ready e \<or> io_call s (qd_by e) = P_publish \<or> io_call s (qd_by e) = P_add"
    "\<And>i. io_call s i = P_stop_add \<or> io_call s i = P_stop_all \<Longrightarrow> io_stopped s"
    "io_stopped s \<Longrightarrow> io_stop_seen s"
    "\<not> io_stopped s \<Longrightarrow> io_queue s \<noteq> [] \<Longrightarrow> io_attended s"
  shows "io_inv m s"
  using assms by (auto simp: io_inv_def)

lemma io_inv_mono: "io_inv m s \<Longrightarrow> m \<le> m' \<Longrightarrow> io_inv m' s"
  by (auto simp: io_inv_def)

section \<open>Workers\<close>

lemma io_pc_ok_cong:
  "io_signal s' = io_signal s \<Longrightarrow> io_stopped s' = io_stopped s \<Longrightarrow> io_enqueuePos s' = io_enqueuePos s
    \<Longrightarrow> (io_announced s \<longrightarrow> io_announced s') \<Longrightarrow> io_pc_ok s pc \<Longrightarrow> io_pc_ok s' pc"
  by (cases pc) auto

lemma io_moves_inv:
  assumes inv: "io_inv m s" and w: "w < io_workers s" and old: "\<not> io_blocked (io_worker s w)"
    and s': "s' = s\<lparr>io_queue := qs, io_dequeuePos := d, io_worker := (io_worker s)(w := pc)\<rparr>"
    and qs: "unat d + length qs = unat (io_enqueuePos s)" "set qs \<subseteq> set (io_queue s)"
    and ok: "io_pc_ok s pc"
    and stop: "io_stopped s \<Longrightarrow> past_io_stop pc \<and> io_signal_read pc = Some (io_signal s) \<or> io_blocked pc \<Longrightarrow>
      past_io_stop (io_worker s w) \<and> io_signal_read (io_worker s w) = Some (io_signal s)"
    and look: "qs \<noteq> [] \<Longrightarrow> will_look (io_signal s) (io_worker s w) \<Longrightarrow> will_look (io_signal s) pc \<or> io_announced s"
  shows "io_inv m s'"
proof -
  have ann: "io_announced s' = io_announced s" by (simp add: io_announced_def s')
  have cong: "io_pc_ok s x \<Longrightarrow> io_pc_ok s' x" for x by (rule io_pc_ok_cong [of s' s]) (simp_all add: s' ann [unfolded s'])
  have okay: "io_pc_ok s' (io_worker s' v)" if "v < io_workers s" for v
    using cong io_invD(5) [OF inv that] ok by (simp add: s')
  have seen: "io_stop_seen s'" if "io_stopped s"
    using io_invD(8) [OF inv that] stop [OF that] w unfolding io_stop_seen_def by (auto simp: s' split: if_splits)
  have att: "io_attended s'" if "\<not> io_stopped s" "qs \<noteq> []"
  proof -
    have "io_queue s \<noteq> []" using that(2) qs(2) by (cases qs) auto
    then have "io_attended s" using io_invD(9) [OF inv that(1)] by simp
    moreover have "\<not> io_all_stale s" using old w by (auto simp: io_all_stale_def)
    ultimately have "io_announced s \<or> (\<exists>v < io_workers s. will_look (io_signal s) (io_worker s v))"
      by (auto simp: io_attended_def)
    then show ?thesis using look that(2) w ann unfolding io_attended_def by (auto simp: s'; metis)
  qed
  show ?thesis using inv qs okay seen att unfolding io_inv_def by (auto simp: s')
qed

lemma io_take_queue:
  assumes "io_inv m s" and "take_head (io_queue s) = Some es"
  shows "unat (io_dequeuePos s + 1) + length es = unat (io_enqueuePos s)" "set es \<subseteq> set (io_queue s)"
proof -
  obtain e where e: "io_queue s = e # es" using take_head_SomeD [OF assms(2)] by auto
  then have "unat (io_dequeuePos s) + 1 \<le> unat (io_enqueuePos s)" using io_invD(4) [OF assms(1)] by simp
  moreover have "unat (io_enqueuePos s) < 2 ^ 64" using unsigned_less [of "io_enqueuePos s"] by simp
  ultimately have "unat (io_dequeuePos s + 1) = unat (io_dequeuePos s) + 1" by (simp add: unat_word_ariths)
  then show "unat (io_dequeuePos s + 1) + length es = unat (io_enqueuePos s)"
    using io_invD(4) [OF assms(1)] e by simp
  show "set es \<subseteq> set (io_queue s)" using e by auto
qed

lemma io_take_None: "io_inv m s \<Longrightarrow> take_head (io_queue s) = None \<Longrightarrow> io_queue s = [] \<or> io_announced s"
  using io_invD(6) [of m s "hd (io_queue s)"]
  by (cases "io_queue s") (auto simp: io_announced_def split: if_splits)

lemma io_access_inv:
  assumes inv: "io_inv m s" and w: "w < io_workers s"
  shows "io_inv m (io_access w (io_worker s w) s)"
proof -
  note ok = io_invD(5) [OF inv w]
  have goes: "io_inv m (io_goes w pc s)"
    if "\<not> io_blocked (io_worker s w)" "io_pc_ok s pc"
      "io_stopped s \<Longrightarrow> past_io_stop pc \<and> io_signal_read pc = Some (io_signal s) \<or> io_blocked pc \<Longrightarrow>
        past_io_stop (io_worker s w) \<and> io_signal_read (io_worker s w) = Some (io_signal s)"
      "io_queue s \<noteq> [] \<Longrightarrow> will_look (io_signal s) (io_worker s w) \<Longrightarrow> will_look (io_signal s) pc \<or> io_announced s" for pc
    using that io_invD(4) [OF inv]
    by (intro io_moves_inv [OF inv w, where qs = "io_queue s" and d = "io_dequeuePos s" and pc = pc]) (auto simp: io_goes_def)
  have takes: "io_inv m (io_take w yes no s)"
    if "\<not> io_blocked (io_worker s w)" "io_pc_ok s yes" "io_pc_ok s no" "io_signal_read yes = None" "io_signal_read no = None"
      "\<not> io_blocked no" "\<not> io_blocked yes" "will_look (io_signal s) no" "will_look (io_signal s) yes" for yes no
  proof (cases "take_head (io_queue s)")
    case None
    then show ?thesis using goes [of no] that by (simp add: io_take_def)
  next
    case (Some es)
    then show ?thesis using that io_take_queue [OF inv Some]
      by (intro io_moves_inv [OF inv w, where qs = es and d = "io_dequeuePos s + 1" and pc = yes]) (auto simp: io_goes_def io_take_def)
  qed
  show ?thesis
  proof (cases "io_worker s w")
    case (I_deq cs enq)
    have none: "io_queue s = [] \<or> io_announced s" if "enq = io_enqueuePos s" "enq \<le> io_dequeuePos s"
    proof -
      have "unat (io_enqueuePos s) \<le> unat (io_dequeuePos s)" using that by (simp add: word_le_nat_alt)
      then have "length (io_queue s) = 0" using io_invD(4) [OF inv] by linarith
      then show ?thesis by simp
    qed
    show ?thesis using ok none I_deq by (auto intro!: goes)
  qed (use ok takes inv in \<open>auto intro!: goes\<close>)
qed

section \<open>Other threads\<close>

lemma io_proj [simp]:
  "io_worker (call_goes i x s) = io_worker s" "io_signal (call_goes i x s) = io_signal s"
  "io_workers (call_goes i x s) = io_workers s" "io_stopped (call_goes i x s) = io_stopped s"
  "io_queue (call_goes i x s) = io_queue s" "io_enqueuePos (call_goes i x s) = io_enqueuePos s"
  "io_dequeuePos (call_goes i x s) = io_dequeuePos s" "io_call (call_goes i x s) = (io_call s)(i := x)"
  "io_tso (call_goes i x s) = io_tso s"
  "io_worker (io_drain_stores i s) = io_worker s" "io_signal (io_drain_stores i s) = io_signal s"
  "io_workers (io_drain_stores i s) = io_workers s" "io_stopped (io_drain_stores i s) = io_stopped s"
  "io_queue (io_drain_stores i s) = publish i (io_queue s)" "io_enqueuePos (io_drain_stores i s) = io_enqueuePos s"
  "io_dequeuePos (io_drain_stores i s) = io_dequeuePos s" "io_call (io_drain_stores i s) = io_call s"
  "io_tso (io_drain_stores i s) = io_tso s"
  by (simp_all add: call_goes_def io_drain_stores_def)

lemma publish_length [simp]: "length (publish i l) = length l"
  by (simp add: publish_def)

text \<open>A change of queue and calls that leaves the workers alone.\<close>

lemma io_call_inv:
  assumes inv: "io_inv m s" and s': "s' = s\<lparr>io_queue := qs, io_call := calls\<rparr>"
    and qs: "length qs = length (io_queue s)"
    and ready: "\<And>e. e \<in> set qs \<Longrightarrow> qd_ready e \<or> calls (qd_by e) = P_publish \<or> calls (qd_by e) = P_add"
    and stop: "\<And>j. calls j = P_stop_add \<longleftrightarrow> io_call s j = P_stop_add" "\<And>j. calls j = P_stop_all \<longleftrightarrow> io_call s j = P_stop_all"
    and ann: "io_announced s \<Longrightarrow> \<exists>j. calls j = P_publish \<or> calls j = P_add"
    and wake: "\<And>j. io_call s j = P_wake \<Longrightarrow> calls j = P_wake \<or> \<not> io_all_stale s"
  shows "io_inv m s'"
proof -
  have ann': "io_announced s \<longrightarrow> io_announced s'" using ann by (auto simp: io_announced_def s')
  have cong: "io_pc_ok s x \<Longrightarrow> io_pc_ok s' x" for x by (rule io_pc_ok_cong [of s' s]) (use ann' in \<open>simp_all add: s'\<close>)
  have seen: "io_stop_seen s' = io_stop_seen s" by (simp add: io_stop_seen_def s' stop)
  have stale: "io_all_stale s' = io_all_stale s" by (simp add: io_all_stale_def s')
  have att: "io_attended s'" if "io_attended s"
    using that ann' wake unfolding io_attended_def stale by (simp add: s') metis
  have ne: "qs \<noteq> [] \<longleftrightarrow> io_queue s \<noteq> []" using qs by (cases qs) auto
  have "\<forall>e \<in> set qs. \<not> qd_ready e \<longrightarrow> calls (qd_by e) = P_publish \<or> calls (qd_by e) = P_add" using ready by blast
  then show ?thesis using inv qs cong seen att stop ne unfolding io_inv_def by (simp add: s')
qed

lemma io_drain_inv:
  assumes "io_inv m s" shows "io_inv m (io_drain_stores i s)"
  by (rule io_call_inv [OF assms, where qs = "publish i (io_queue s)" and calls = "io_call s"])
    (use io_invD(6) [OF assms] in \<open>auto simp: io_drain_stores_def io_announced_def dest!: publish_facts(2)\<close>)

lemma io_goes_calls:
  assumes inv: "io_inv m s"
    and move: "io_call s i = P_idle \<and> x = P_claim \<or> io_call s i = P_publish \<and> x = P_add \<or> io_call s i = P_wake \<and> x = P_idle \<and> \<not> io_all_stale s"
  shows "io_inv m (call_goes i x s)"
proof (rule io_call_inv [OF inv, where qs = "io_queue s" and calls = "(io_call s)(i := x)"])
  show "\<exists>j. ((io_call s)(i := x)) j = P_publish \<or> ((io_call s)(i := x)) j = P_add" if ann: "io_announced s"
  proof -
    obtain j where j: "io_call s j = P_publish \<or> io_call s j = P_add" using ann by (auto simp: io_announced_def)
    then show ?thesis using move by (intro exI [of _ j]) auto
  qed
  show "qd_ready e \<or> ((io_call s)(i := x)) (qd_by e) = P_publish \<or> ((io_call s)(i := x)) (qd_by e) = P_add"
    if "e \<in> set (io_queue s)" for e
    using io_invD(6) [OF inv that] move by (cases "qd_by e = i") auto
qed (use move in \<open>auto simp: call_goes_def\<close>)

lemma io_claim_inv:
  assumes inv: "io_inv m s" and pc: "io_call s i = P_claim" and lt: "m + 1 < 2 ^ 32"
  defines "s1 \<equiv> io_drain_stores i s"
  shows "io_inv (m + 1) (call_goes i P_publish (s1\<lparr>io_queue := io_queue s1 @ [\<lparr>qd_by = i, qd_ready = False\<rparr>],
     io_enqueuePos := io_enqueuePos s1 + 1\<rparr>))" (is "io_inv _ ?s")
proof -
  have inv1: "io_inv m s1" unfolding s1_def by (rule io_drain_inv [OF inv])
  have enq: "unat (io_enqueuePos s1 + 1) = unat (io_enqueuePos s1) + 1"
    using io_invD(3) [OF inv1] lt by (simp add: unat_word_ariths)
  have ann: "io_announced ?s" by (auto simp: io_announced_def intro: exI [of _ i])
  have ok: "io_pc_ok ?s x" if "io_pc_ok s1 x" for x using that ann by (cases x) auto
  have seen: "io_stop_seen ?s = io_stop_seen s1"
  proof -
    have "(((io_call s)(i := P_publish)) j = P_stop_add) = (io_call s j = P_stop_add)"
      "(((io_call s)(i := P_publish)) j = P_stop_all) = (io_call s j = P_stop_all)" for j using pc by auto
    then show ?thesis unfolding io_stop_seen_def s1_def io_proj io_parking.simps by simp
  qed
  have ready: "qd_ready e \<or> io_call ?s (qd_by e) = P_publish \<or> io_call ?s (qd_by e) = P_add" if "e \<in> set (io_queue ?s)" for e
    using io_invD(6) [OF inv1, of e] that by (auto simp: s1_def)
  have stop: "io_stopped ?s" if "io_call ?s j = P_stop_add \<or> io_call ?s j = P_stop_all" for j
    using io_invD(7) [OF inv1, of j] that by (auto simp: s1_def split: if_splits)
  show ?thesis
    using inv1 enq ok seen ready stop io_attended_def [of ?s] ann unfolding io_inv_def by simp
qed

lemma io_look_or_stale:
  "io_signal_read pc \<noteq> Some sig \<Longrightarrow> will_look sig pc \<or> (\<exists>cs. pc = I_blocked cs \<and> cs \<noteq> sig)"
  by (cases pc) auto

text \<open>The signal goes up: by a thread that has queued a task, or by \<open>shutdown\<close>.\<close>

lemma io_raise_inv:
  assumes inv: "io_inv m s" and lt: "m + 1 < 2 ^ 32"
    and x: "io_call s i = P_add \<and> x = P_wake \<or> io_call s i = P_stop_add \<and> x = P_stop_all"
  defines "s1 \<equiv> io_drain_stores i s"
  shows "io_inv (m + 1) (call_goes i x (s1\<lparr>io_signal := io_signal s1 + 1\<rparr>))" (is "io_inv _ ?s")
proof -
  have inv1: "io_inv m s1" unfolding s1_def by (rule io_drain_inv [OF inv])
  have sum: "unat (io_signal s1 + 1) = unat (io_signal s1) + 1"
    using io_invD(2) [OF inv1] lt by (simp add: unat_word_ariths)
  then have less: "io_signal s1 < io_signal s1 + 1" by (simp add: word_less_nat_alt)
  have ok: "io_pc_ok ?s pc" if "io_pc_ok s1 pc" for pc
    using that less by (cases pc) (auto intro: order_trans less_imp_le)
  have "io_signal_read pc \<noteq> Some (io_signal s1 + 1)" if "io_pc_ok s1 pc" for pc
    using that less by (cases pc) auto
  then have later: "\<forall>w < io_workers ?s. io_signal_read (io_worker ?s w) \<noteq> Some (io_signal ?s)"
    using io_invD(5) [OF inv1] by simp
  have up: "(\<exists>w < io_workers ?s. will_look (io_signal ?s) (io_worker ?s w)) \<or> io_all_stale ?s"
    using later io_look_or_stale unfolding io_all_stale_def by blast
  have att: "io_attended ?s" if "x = P_wake"
    using up that unfolding io_attended_def by (auto intro: exI [of _ i])
  have stopped: "io_stopped s1" if "x = P_stop_all" using x that io_invD(7) [OF inv1, of i] by (auto simp: s1_def)
  have seen: "io_stop_seen ?s" if "io_stopped s1"
  proof (cases "x = P_stop_all")
    case True
    then show ?thesis using later by (auto simp: io_stop_seen_def intro: exI [of _ i])
  next
    case False
    then have x': "io_call s1 i = P_add" "x = P_wake" using x by (auto simp: s1_def)
    have same: "io_call ?s j = P_stop_add \<longleftrightarrow> io_call s1 j = P_stop_add" "io_call ?s j = P_stop_all \<longleftrightarrow> io_call s1 j = P_stop_all" for j
      using x' by auto
    show ?thesis using io_invD(8) [OF inv1 that] later unfolding io_stop_seen_def same by auto
  qed
  have ready: "qd_ready e \<or> io_call ?s (qd_by e) = P_publish \<or> io_call ?s (qd_by e) = P_add" if "e \<in> set (io_queue ?s)" for e
  proof (cases "qd_by e = i")
    case True
    then show ?thesis using that publish_facts(2) [of e i "io_queue s"] by (auto simp: s1_def)
  next
    case False
    then show ?thesis using io_invD(6) [OF inv1, of e] that by auto
  qed
  have stop: "io_stopped ?s" if "io_call ?s j = P_stop_add \<or> io_call ?s j = P_stop_all" for j
    using io_invD(7) [OF inv1, of j] that x stopped by (auto split: if_splits)
  have run: "x = P_wake" if "\<not> io_stopped s1" using x that stopped by blast
  show ?thesis
  proof (rule io_invI)
    show "io_pc_ok ?s (io_worker ?s w)" if "w < io_workers ?s" for w using ok io_invD(5) [OF inv1, of w] that by simp
    show "io_stop_seen ?s" if "io_stopped ?s" using seen that by simp
    show "io_attended ?s" if "\<not> io_stopped ?s" using att run that by simp
  qed (use io_invD(1-4) [OF inv1] sum ready stop in simp_all)
qed

text \<open>Woken workers go round the loop again.\<close>

lemma io_wake_inv:
  assumes inv: "io_inv m s" and s': "s' = s\<lparr>io_worker := f\<rparr>"
    and f: "\<And>w. f w = io_worker s w \<or> f w = I_top \<and> (\<exists>cs. io_worker s w = I_blocked cs \<and> cs \<noteq> io_signal s)"
    and all: "io_all_stale s \<Longrightarrow> \<exists>w < io_workers s. f w = I_top"
  shows "io_inv m s'" and "\<not> io_all_stale s'"
proof -
  have ann: "io_announced s' = io_announced s" by (simp add: io_announced_def s')
  have "io_pc_ok s' x" if "io_pc_ok s x" for x by (rule io_pc_ok_cong [of s' s]) (use ann that in \<open>simp_all add: s'\<close>)
  moreover have "io_pc_ok s I_top" by simp
  ultimately have ok: "io_pc_ok s' (f w)" if "w < io_workers s" for w using io_invD(5) [OF inv that] f [of w] by auto
  have read: "io_signal_read (f w) = Some k \<Longrightarrow> f w = io_worker s w" for w k using f [of w] by auto
  have bl: "io_blocked (f w) \<Longrightarrow> f w = io_worker s w" for w using f [of w] by auto
  have look: "will_look sig (io_worker s w) \<Longrightarrow> will_look sig (f w)" for sig w using f [of w] by auto
  have up: "\<exists>w < io_workers s. will_look (io_signal s) (f w)" if "io_all_stale s" using all [OF that] by fastforce
  have seen: "io_stop_seen s'" if "io_stop_seen s"
    using that read bl unfolding io_stop_seen_def by (simp add: s') metis
  have att: "io_attended s'" if "io_attended s"
    using that look up unfolding io_attended_def ann by (simp add: s') metis
  show "io_inv m s'" using inv ok seen att unfolding io_inv_def by (simp add: s')
  show "\<not> io_all_stale s'"
  proof
    assume a: "io_all_stale s'"
    then have "f w = io_worker s w" if "w < io_workers s" for w using f [of w] that by (auto simp: io_all_stale_def s')
    then have "io_all_stale s" using a by (simp add: io_all_stale_def s')
    then show False using all a by (force simp: io_all_stale_def s')
  qed
qed

lemma io_wake_pc_cases: "io_wake_pc sig pc = pc \<or> io_wake_pc sig pc = I_top \<and> (\<exists>cs. pc = I_blocked cs \<and> cs \<noteq> sig)"
  by (cases pc) auto

lemma io_wake_all_inv:
  assumes "io_inv m s" shows "io_inv m (io_wake_all s)"
proof (rule io_wake_inv(1) [OF assms])
  show "io_wake_all s = s\<lparr>io_worker := (\<lambda>w. io_wake_pc (io_signal s) (io_worker s w))\<rparr>" by (simp add: io_wake_all_def)
  show "\<exists>w < io_workers s. io_wake_pc (io_signal s) (io_worker s w) = I_top" if "io_all_stale s"
    using that io_invD(1) [OF assms] by (force simp: io_all_stale_def)
qed (rule io_wake_pc_cases)

lemma io_wake_one_inv:
  assumes inv: "io_inv m s" shows "io_inv m (io_wake_one c s)" "\<not> io_all_stale (io_wake_one c s)"
    "io_call (io_wake_one c s) = io_call s" "io_stopped (io_wake_one c s) = io_stopped s"
proof -
  let ?pick = "if c < io_workers s \<and> io_blocked (io_worker s c) then Some c
    else List.find (\<lambda>w. io_blocked (io_worker s w)) [0..<io_workers s]"
  show "io_call (io_wake_one c s) = io_call s" "io_stopped (io_wake_one c s) = io_stopped s"
    by (auto simp: io_wake_one_def io_goes_def split: option.split)
  have "io_inv m (io_wake_one c s) \<and> \<not> io_all_stale (io_wake_one c s)"
  proof (cases ?pick)
    case None
    then have "\<not> io_blocked (io_worker s 0)"
      using io_invD(1) [OF inv] by (auto simp: find_None_iff split: if_splits)
    then have "\<not> io_all_stale s" using io_invD(1) [OF inv] by (auto simp: io_all_stale_def)
    moreover have "io_wake_one c s = s" using None by (simp add: io_wake_one_def)
    ultimately show ?thesis using inv by simp
  next
    case (Some w)
    then have w: "w < io_workers s" by (auto simp: find_Some_iff split: if_splits)
    let ?f = "(io_worker s)(w := io_wake_pc (io_signal s) (io_worker s w))"
    have s': "io_wake_one c s = s\<lparr>io_worker := ?f\<rparr>" using Some by (simp add: io_wake_one_def io_goes_def)
    have f: "?f v = io_worker s v \<or> ?f v = I_top \<and> (\<exists>cs. io_worker s v = I_blocked cs \<and> cs \<noteq> io_signal s)" for v
      using io_wake_pc_cases [of "io_signal s" "io_worker s w"] by auto
    have all: "\<exists>v < io_workers s. ?f v = I_top" if "io_all_stale s"
      using that w by (intro exI [of _ w]) (force simp: io_all_stale_def)
    show ?thesis using io_wake_inv [OF inv s' f all] by simp
  qed
  then show "io_inv m (io_wake_one c s)" "\<not> io_all_stale (io_wake_one c s)" by simp_all
qed

lemma io_stop_call_inv:
  assumes inv: "io_inv m s" and idle: "io_call s i = P_idle"
  shows "io_inv m (call_goes i P_stop_add (io_drain_stores i (s\<lparr>io_stopped := True\<rparr>)))" (is "io_inv m ?s")
proof -
  have inv1: "io_inv m (io_drain_stores i s)" by (rule io_drain_inv [OF inv])
  have ann: "io_announced s \<longrightarrow> io_announced ?s"
  proof
    assume "io_announced s"
    then obtain j where j: "io_call s j = P_publish \<or> io_call s j = P_add" by (auto simp: io_announced_def)
    then have "j \<noteq> i" using idle by auto
    then show "io_announced ?s" using j by (auto simp: io_announced_def intro: exI [of _ j])
  qed
  have ok: "io_pc_ok ?s pc" if "io_pc_ok s pc" for pc using that ann by (cases pc) auto
  have ready: "qd_ready e \<or> io_call ?s (qd_by e) = P_publish \<or> io_call ?s (qd_by e) = P_add" if "e \<in> set (io_queue ?s)" for e
    using io_invD(6) [OF inv1, of e] publish_facts(2) [of e i "io_queue s"] that by (cases "qd_by e = i") auto
  have "io_stop_seen ?s" by (auto simp: io_stop_seen_def)
  moreover have "io_pc_ok ?s (io_worker ?s w)" if "w < io_workers s" for w using ok io_invD(5) [OF inv that] by simp
  ultimately show ?thesis using io_invD(1-4) [OF inv] ready by (intro io_invI) simp_all
qed

lemma io_stop_all_inv:
  assumes inv: "io_inv m s" and pc: "io_call s i = P_stop_all"
  shows "io_inv m (call_goes i P_join (io_wake_all s))" (is "io_inv m ?s")
proof -
  have inv1: "io_inv m (io_wake_all s)" by (rule io_wake_all_inv [OF inv])
  have stopped: "io_stopped s" using io_invD(7) [OF inv, of i] pc by simp
  have ann: "io_announced (io_wake_all s) \<longrightarrow> io_announced ?s"
  proof
    assume "io_announced (io_wake_all s)"
    then obtain j where j: "io_call s j = P_publish \<or> io_call s j = P_add" by (auto simp: io_announced_def io_wake_all_def)
    then have "j \<noteq> i" using pc by auto
    then show "io_announced ?s" using j by (auto simp: io_announced_def io_wake_all_def intro: exI [of _ j])
  qed
  have ok: "io_pc_ok ?s x" if "io_pc_ok (io_wake_all s) x" for x using that ann by (cases x) auto
  have ready: "qd_ready e \<or> io_call ?s (qd_by e) = P_publish \<or> io_call ?s (qd_by e) = P_add" if "e \<in> set (io_queue s)" for e
    using io_invD(6) [OF inv that] pc by (cases "qd_by e = i") (auto simp: io_wake_all_def)
  have none: "\<not> io_blocked (io_wake_pc (io_signal s) x)"
    if "past_io_stop (io_wake_pc (io_signal s) x) \<longrightarrow> io_signal_read (io_wake_pc (io_signal s) x) \<noteq> Some (io_signal s)" for x
    using that by (cases x) (auto split: if_splits)
  have "io_stop_seen ?s"
  proof (cases "\<exists>j. io_call s j = P_stop_add")
    case True
    then obtain j where "io_call s j = P_stop_add" by blast
    moreover from this have "j \<noteq> i" using pc by auto
    ultimately show ?thesis by (auto simp: io_stop_seen_def io_wake_all_def intro!: exI [of _ j])
  next
    case False
    then have "\<forall>w < io_workers s. past_io_stop (io_worker (io_wake_all s) w) \<longrightarrow>
        io_signal_read (io_worker (io_wake_all s) w) \<noteq> Some (io_signal s)"
      using io_invD(8) [OF inv1] stopped unfolding io_stop_seen_def by (simp add: io_wake_all_def)
    then show ?thesis using none unfolding io_stop_seen_def by (simp add: io_wake_all_def)
  qed
  moreover have "io_pc_ok ?s (io_worker ?s w)" if "w < io_workers s" for w
    using ok io_invD(5) [OF inv1, of w] that by (simp add: io_wake_all_def)
  ultimately show ?thesis using io_invD(1-4) [OF inv1] ready stopped by (intro io_invI) (simp_all add: io_wake_all_def)
qed

section \<open>Every run\<close>

lemma call_access_inv:
  assumes inv: "io_inv m s" and lt: "m + 1 < 2 ^ 32"
  shows "io_inv (m + 1) (call_access i c (io_call s i) s)"
proof -
  have up: "io_inv (m + 1) s'" if "io_inv m s'" for s' using io_inv_mono [OF that] by simp
  show ?thesis
  proof (cases "io_call s i")
    case P_claim
    then show ?thesis using up [OF inv] io_claim_inv [OF inv P_claim lt] by (simp add: Let_def)
  next
    case P_publish
    have "io_inv m (io_drain_stores i (call_goes i P_add s))"
      using P_publish by (intro io_drain_inv io_goes_calls [OF inv]) simp
    moreover have "io_drain_stores i (call_goes i P_add s) = call_goes i P_add (io_drain_stores i s)"
      by (simp add: io_drain_stores_def call_goes_def)
    ultimately show ?thesis using up P_publish by simp
  next
    case P_add
    then show ?thesis using io_raise_inv [OF inv lt, of i P_wake] by (simp add: Let_def)
  next
    case P_wake
    note wk = io_wake_one_inv [OF inv, of c]
    have "io_inv m (call_goes i P_idle (io_wake_one c s))" using wk P_wake by (intro io_goes_calls) auto
    then show ?thesis using up P_wake by simp
  next
    case P_stop_add
    then show ?thesis using io_raise_inv [OF inv lt, of i P_stop_all] by (simp add: Let_def)
  next
    case P_stop_all
    then show ?thesis using up [OF io_stop_all_inv [OF inv]] by simp
  qed (use up [OF inv] in simp_all)
qed

lemma io_workers_fixed: "io_workers (io_exec ev s) = io_workers s"
proof (cases ev)
  case (Io_call i c)
  then show ?thesis
    by (cases "io_call s i") (auto simp: Let_def io_wake_one_def io_wake_all_def io_goes_def split: option.split)
next
  case (Io_step w)
  then show ?thesis by (cases "io_worker s w") (auto simp: io_goes_def io_take_def split: option.split)
qed (auto simp: io_drain_stores_def)

lemma io_exec_inv:
  assumes inv: "io_inv m s" and lt: "m + 1 < 2 ^ 32"
  shows "io_inv (m + 1) (io_exec ev s)"
proof -
  have up: "io_inv (Suc m) s'" if "io_inv m s'" for s' using io_inv_mono [OF that] by simp
  show ?thesis
  proof (cases ev)
    case (Io_schedule i)
    then show ?thesis using inv by (auto intro!: up io_goes_calls [OF inv])
  next
    case (Io_shutdown i)
    then show ?thesis using inv io_stop_call_inv [OF inv] by (auto intro!: up)
  next
    case (Io_call i c)
    then show ?thesis using call_access_inv [OF inv lt] by simp
  next
    case (Io_delay i)
    then show ?thesis using inv by (auto intro!: up io_goes_calls [OF inv])
  next
    case (Io_drain i)
    then show ?thesis using inv io_drain_inv [OF inv] by (auto intro!: up)
  next
    case (Io_step w)
    then show ?thesis using inv io_access_inv [OF inv] by (auto intro!: up)
  qed
qed

lemma io_run_inv:
  assumes "io_inv m s" and "m + length evs < 2 ^ 32"
  shows "io_inv (m + length evs) (io_run evs s) \<and> io_workers (io_run evs s) = io_workers s"
  using assms
proof (induction evs arbitrary: m s)
  case (Cons ev evs)
  have inv: "io_inv (m + 1) (io_exec ev s)" by (rule io_exec_inv [OF Cons.prems(1)]) (use Cons.prems(2) in simp)
  show ?case using Cons.IH [OF inv] Cons.prems(2) by (simp add: io_run_def io_workers_fixed)
qed (simp add: io_run_def)

lemma io_new_inv: "0 < n \<Longrightarrow> io_inv 0 (io_parking_new tso n)"
  by (auto simp: io_inv_def io_parking_new_def)

text \<open>A worker that will look at the queue, left alone, takes a task in at most seven steps.\<close>

fun io_steps_left :: "io_pc \<Rightarrow> nat" where
  "io_steps_left I_top = 2"
| "io_steps_left I_dequeue = 1"
| "io_steps_left I_load = 7"
| "io_steps_left (I_stop cs) = 6"
| "io_steps_left (I_enq cs) = 5"
| "io_steps_left (I_deq cs enq) = 4"
| "io_steps_left (I_wait cs) = 3"
| "io_steps_left _ = 0"

definition io_near :: "nat \<Rightarrow> nat \<Rightarrow> io_parking \<Rightarrow> bool" where
  "io_near m w s \<longleftrightarrow> io_inv m s \<and> w < io_workers s \<and> \<not> io_stopped s \<and> \<not> io_announced s
     \<and> (io_worker s w = I_run False \<or> io_queue s \<noteq> [] \<and> will_look (io_signal s) (io_worker s w))"

lemma io_near_step:
  assumes near: "io_near m w s" and run: "io_worker s w \<noteq> I_run False"
  defines "s' \<equiv> io_exec (Io_step w) s"
  shows "io_near m w s' \<and> io_steps_left (io_worker s' w) < io_steps_left (io_worker s w)"
proof -
  have inv: "io_inv m s" and w: "w < io_workers s" and go: "\<not> io_stopped s" "\<not> io_announced s"
    and q: "io_queue s \<noteq> []" "will_look (io_signal s) (io_worker s w)"
    using near run by (auto simp: io_near_def)
  have s': "s' = io_access w (io_worker s w) s" using w by (simp add: s'_def)
  have inv': "io_inv m s'" unfolding s' by (rule io_access_inv [OF inv w])
  have same: "io_workers s' = io_workers s" unfolding s'_def by (rule io_workers_fixed)
  obtain es where es: "take_head (io_queue s) = Some es" using io_take_None [OF inv] q(1) go(2) by (cases "take_head (io_queue s)") auto
  have more: "io_dequeuePos s < io_enqueuePos s"
    using io_invD(4) [OF inv] q(1) by (cases "io_queue s") (auto simp: word_less_nat_alt)
  have ann: "io_announced s' = io_announced s \<and> io_stopped s' = io_stopped s"
    unfolding s' by (cases "io_worker s w") (auto simp: io_announced_def io_goes_def io_take_def split: option.split)
  have "(io_worker s' w = I_run False \<or> io_queue s' \<noteq> [] \<and> will_look (io_signal s') (io_worker s' w))
      \<and> io_steps_left (io_worker s' w) < io_steps_left (io_worker s w)"
    using q go run es more io_invD(5) [OF inv w] unfolding s'
    by (cases "io_worker s w") (auto simp: io_goes_def io_take_def)
  then show ?thesis using inv' same ann go w by (simp add: io_near_def)
qed

lemma io_near_runs:
  assumes "io_near m w s"
  shows "\<exists>k \<le> io_steps_left (io_worker s w). io_worker (io_run (replicate k (Io_step w)) s) w = I_run False"
  using assms
proof (induction "io_steps_left (io_worker s w)" arbitrary: s rule: less_induct)
  case less
  show ?case
  proof (cases "io_worker s w = I_run False")
    case True
    then show ?thesis by (intro exI [of _ 0]) (simp add: io_run_def)
  next
    case False
    let ?s' = "io_exec (Io_step w) s"
    note st = io_near_step [OF less.prems False]
    obtain k where "k \<le> io_steps_left (io_worker ?s' w)" "io_worker (io_run (replicate k (Io_step w)) ?s') w = I_run False"
      using less.hyps [of ?s'] st by blast
    then show ?thesis using st by (intro exI [of _ "Suc k"]) (simp add: io_run_def)
  qed
qed

lemma io_steps_bound: "io_steps_left pc \<le> 7"
  by (cases pc) auto

section \<open>No lost wake-up\<close>

text \<open>
  C31: No IO wake-up is lost, with store buffers or without. After any interleaving of IO workers
  and of threads that schedule IO tasks or shut down: when nobody is in the middle of a call and a
  task is queued, and the scheduler is not shut down, some IO worker executes a task after at most
  seven steps of its own; and once \<open>shutdown\<close> has notified, no IO worker is asleep. The
  bound on the events keeps the 32-bit signal from wrapping round.
\<close>

theorem io_no_lost_wakeup:
  assumes "0 < n" and "length evs < 2 ^ 32" and "s = io_run evs (io_parking_new tso n)"
  shows "(\<not> io_stopped s \<and> io_queue s \<noteq> [] \<and> (\<forall>i. io_call s i = P_idle) \<longrightarrow>
        (\<exists>w < n. \<exists>k \<le> 7. io_worker (io_run (replicate k (Io_step w)) s) w = I_run False))
    \<and> (io_stopped s \<and> (\<forall>i. io_call s i \<noteq> P_stop_add \<and> io_call s i \<noteq> P_stop_all) \<and> w < n \<longrightarrow>
        \<not> io_blocked (io_worker s w))"
proof (intro conjI impI; elim conjE)
  have r: "io_inv (length evs) s" "io_workers s = n"
    using io_run_inv [OF io_new_inv [OF assms(1)], of evs tso] assms(2,3) by (auto simp: io_parking_new_def)
  show "\<exists>w < n. \<exists>k \<le> 7. io_worker (io_run (replicate k (Io_step w)) s) w = I_run False"
    if c: "\<not> io_stopped s" "io_queue s \<noteq> []" "\<forall>i. io_call s i = P_idle"
  proof -
    have ann: "\<not> io_announced s" using c(3) by (simp add: io_announced_def)
    then obtain w where w: "w < n" "will_look (io_signal s) (io_worker s w)"
      using io_invD(9) [OF r(1) c(1,2)] c(3) r(2) by (auto simp: io_attended_def)
    then have "io_near (length evs) w s" using r c ann by (simp add: io_near_def)
    then obtain k where "k \<le> io_steps_left (io_worker s w)" "io_worker (io_run (replicate k (Io_step w)) s) w = I_run False"
      using io_near_runs by blast
    then show ?thesis using io_steps_bound [of "io_worker s w"] w(1) by (auto intro: order_trans)
  qed
  show "\<not> io_blocked (io_worker s w)"
    if "io_stopped s" "\<forall>i. io_call s i \<noteq> P_stop_add \<and> io_call s i \<noteq> P_stop_all" "w < n"
    using io_invD(8) [OF r(1) that(1)] that(2,3) r(2) by (auto simp: io_stop_seen_def)
qed

definition io_story :: "io_event list" where
  "io_story = replicate 7 (Io_step 0) @ [Io_schedule 4, Io_call 4 1, Io_delay 4, Io_drain 4, Io_call 4 0, Io_call 4 0]"

lemma io_story_run:
  "io_worker (io_run (replicate 7 (Io_step 0)) (io_parking_new True 1)) 0 = I_blocked 0"
  "io_queue (io_run io_story (io_parking_new True 1)) = [\<lparr>qd_by = 4, qd_ready = True\<rparr>]"
  "io_call (io_run io_story (io_parking_new True 1)) = (\<lambda>_. P_idle)"
  "\<not> io_stopped (io_run io_story (io_parking_new True 1))"
  by (simp_all add: io_story_def io_run_def io_parking_new_def numeral_eq_Suc io_goes_def io_take_def call_goes_def
      io_drain_stores_def publish_def Let_def io_wake_one_def fun_eq_iff)

theorem io_no_lost_wakeup_witness:
  "io_worker (io_run (replicate 7 (Io_step 0)) (io_parking_new True 1)) 0 = I_blocked 0 \<and>
   (\<exists>k. k \<le> 7 \<and> io_worker (io_run (replicate k (Io_step 0)) (io_run io_story (io_parking_new True 1))) 0 = I_run False)"
  using io_no_lost_wakeup [of 1 io_story "io_run io_story (io_parking_new True 1)" True 0] io_story_run
  by (simp add: io_story_def)
end
