(* ===== verification/Classic_Baseline.thy ===== *)
theory Classic_Baseline
  imports LF_Base
begin

text \<open>
  The baseline of the benchmark, \<^verbatim>\<open>ClassicThreadPool\<close> and \<^verbatim>\<open>ClassicTaskGraph\<close>
  (\<^verbatim>\<open>tools/lf_sweep_benchmark.cpp\<close>): a queue behind a mutex, and a graph whose nodes are closures with an
  atomic in-degree. The mutex makes each queue operation one step; the workers of the pool interleave
  at every queue operation, every call and every atomic decrement. Waiting for a condition variable is
  having no step.
\<close>

section \<open>The thread pool\<close>

record 'a classic_pool =
  p_tasks :: "'a list"
  p_stop :: bool

definition ClassicThreadPool :: "'a classic_pool" where
  "ClassicThreadPool = \<lparr>p_tasks = [], p_stop = False\<rparr>"

definition enqueue :: "'a \<Rightarrow> 'a classic_pool \<Rightarrow> 'a classic_pool" where
  "enqueue t p = p\<lparr>p_tasks := p_tasks p @ [t]\<rparr>"

text \<open>The part of \<open>workerLoop\<close> under the mutex: wait, return from the loop, or take a task.\<close>

datatype 'a fetched = Waits | Returns | Takes 'a

definition worker_fetch :: "'a classic_pool \<Rightarrow> 'a fetched \<times> 'a classic_pool" where
  "worker_fetch p =
     (if \<not> (p_stop p \<or> p_tasks p \<noteq> []) then (Waits, p)
      else if p_stop p \<and> p_tasks p = [] then (Returns, p)
      else (Takes (hd (p_tasks p)), p\<lparr>p_tasks := tl (p_tasks p)\<rparr>))"

text \<open>The destructor sets the flag; the workers then run what is queued and return, and are joined.\<close>

definition pool_stop :: "'a classic_pool \<Rightarrow> 'a classic_pool" where
  "pool_stop p = p\<lparr>p_stop := True\<rparr>"

text \<open>One worker draining a stopped pool: \<open>run\<close> calls a task.\<close>

fun worker_drain :: "nat \<Rightarrow> ('a \<Rightarrow> 'u \<Rightarrow> 'u) \<Rightarrow> 'a classic_pool \<Rightarrow> 'u \<Rightarrow> ('a classic_pool \<times> 'u) option" where
  "worker_drain 0 run p u = None"
| "worker_drain (Suc k) run p u =
     (case worker_fetch p of
        (Waits, p) \<Rightarrow> None
      | (Returns, p) \<Rightarrow> Some (p, u)
      | (Takes t, p) \<Rightarrow> worker_drain k run p (run t u))"

lemma worker_drain_all:
  assumes "p_stop p"
  shows "worker_drain (Suc (length (p_tasks p))) run p u = Some (p\<lparr>p_tasks := []\<rparr>, fold run (p_tasks p) u)"
proof -
  have "worker_drain (Suc (length ts)) run \<lparr>p_tasks = ts, p_stop = True\<rparr> u = Some (\<lparr>p_tasks = [], p_stop = True\<rparr>, fold run ts u)" for ts
    by (induction ts arbitrary: u) (simp_all add: worker_fetch_def)
  then show ?thesis using assms by (cases p) simp
qed

section \<open>The task graph\<close>

record 'u classic_node =
  c_work :: "'u \<Rightarrow> 'u"
  c_successors :: "node_id list"
  c_inDegree :: u32
  c_initialInDegree :: u32

type_synonym 'u classic_graph = "'u classic_node list"

definition classic_emplace :: "('u \<Rightarrow> 'u) \<Rightarrow> 'u classic_graph \<Rightarrow> node_id \<times> 'u classic_graph" where
  "classic_emplace f g = (length g, g @ [\<lparr>c_work = f, c_successors = [], c_inDegree = 0, c_initialInDegree = 0\<rparr>])"

definition classic_addEdge :: "node_id \<Rightarrow> node_id \<Rightarrow> 'u classic_graph \<Rightarrow> 'u classic_graph" where
  "classic_addEdge from to g =
     (let g = g[from := (g ! from)\<lparr>c_successors := c_successors (g ! from) @ [to]\<rparr>]
      in g[to := (g ! to)\<lparr>c_initialInDegree := c_initialInDegree (g ! to) + 1\<rparr>])"

definition classic_reset :: "'u classic_graph \<Rightarrow> 'u classic_graph" where
  "classic_reset g = map (\<lambda>x. x\<lparr>c_inDegree := c_initialInDegree x\<rparr>) g"

definition classic_clear :: "'u classic_graph \<Rightarrow> 'u classic_graph" where
  "classic_clear g = []"

definition classic_nodeCount :: "'u classic_graph \<Rightarrow> u64" where
  "classic_nodeCount g = of_nat (length g)"

section \<open>Executing the graph\<close>

text \<open>
  A worker that took a node's closure is before \<open>n->work()\<close>, or in the loop over the successors with the
  ones left; after the loop it decrements \<open>remainingTasks\<close>.
\<close>

datatype classic_phase = CWork | CNotify "node_id list"

text \<open>
  \<open>x_roots\<close> are the nodes the caller has yet to enqueue, \<open>x_pool\<close> holds the closures of nodes,
  \<open>x_remaining\<close> and \<open>x_completed\<close> are the members of the execution context, \<open>x_user\<close> the state the
  closures act on and \<open>x_log\<close> the nodes whose closures were called.
\<close>

record 'u classic_exec =
  x_graph :: "'u classic_graph"
  x_roots :: "node_id list"
  x_pool :: "node_id classic_pool"
  x_remaining :: u64
  x_completed :: bool
  x_workers :: "(node_id \<times> classic_phase) option list"
  x_user :: 'u
  x_log :: "node_id list"

text \<open>
  The caller stores the number of nodes and then enqueues the roots one by one, while the workers
  already run; an empty graph returns at once.
\<close>

definition classic_roots :: "'u classic_graph \<Rightarrow> node_id list" where
  "classic_roots g = filter (\<lambda>n. c_initialInDegree (g ! n) = 0) [0..<length g]"

definition classic_start :: "nat \<Rightarrow> 'u classic_graph \<Rightarrow> 'u \<Rightarrow> 'u classic_exec" where
  "classic_start k g u =
     \<lparr>x_graph = g, x_roots = classic_roots g, x_pool = ClassicThreadPool, x_remaining = of_nat (length g),
      x_completed = False, x_workers = replicate k None, x_user = u, x_log = []\<rparr>"

definition classic_submit :: "'u classic_exec \<Rightarrow> 'u classic_exec" where
  "classic_submit s = s\<lparr>x_roots := tl (x_roots s), x_pool := enqueue (hd (x_roots s)) (x_pool s)\<rparr>"

text \<open>\<open>executeAndWait\<close> returns without waiting, or when the flag is set.\<close>

definition classic_returns :: "'u classic_exec \<Rightarrow> bool" where
  "classic_returns s \<longleftrightarrow> x_graph s = [] \<or> x_completed s"

text \<open>The steps of worker \<open>i\<close>: taking a closure from the pool, and \<open>executeNode\<close>.\<close>

definition classic_take :: "nat \<Rightarrow> 'u classic_exec \<Rightarrow> 'u classic_exec option" where
  "classic_take i s =
     (case worker_fetch (x_pool s) of
        (Takes n, p) \<Rightarrow> Some (s\<lparr>x_pool := p, x_workers := (x_workers s)[i := Some (n, CWork)]\<rparr>)
      | _ \<Rightarrow> None)"

fun executeNode :: "nat \<Rightarrow> node_id \<Rightarrow> classic_phase \<Rightarrow> 'u classic_exec \<Rightarrow> 'u classic_exec" where
  "executeNode i n CWork s =
     s\<lparr>x_user := c_work (x_graph s ! n) (x_user s), x_log := x_log s @ [n],
       x_workers := (x_workers s)[i := Some (n, CNotify (c_successors (x_graph s ! n)))]\<rparr>"
| "executeNode i n (CNotify (t # ts)) s =
     (let prev = c_inDegree (x_graph s ! t)
      in s\<lparr>x_graph := (x_graph s)[t := (x_graph s ! t)\<lparr>c_inDegree := prev - 1\<rparr>],
           x_pool := (if prev = 1 then enqueue t (x_pool s) else x_pool s),
           x_workers := (x_workers s)[i := Some (n, CNotify ts)]\<rparr>)"
| "executeNode i n (CNotify []) s =
     (let prev = x_remaining s
      in s\<lparr>x_remaining := prev - 1, x_completed := (x_completed s \<or> prev = 1), x_workers := (x_workers s)[i := None]\<rparr>)"

inductive classic_step :: "'u classic_exec \<Rightarrow> 'u classic_exec \<Rightarrow> bool" where
  c_submit: "x_roots s \<noteq> [] \<Longrightarrow> classic_step s (classic_submit s)"
| c_take: "i < length (x_workers s) \<Longrightarrow> x_workers s ! i = None \<Longrightarrow> classic_take i s = Some s' \<Longrightarrow> classic_step s s'"
| c_exec: "i < length (x_workers s) \<Longrightarrow> x_workers s ! i = Some (n, ph) \<Longrightarrow> classic_step s (executeNode i n ph s)"

inductive classic_steps :: "'u classic_exec \<Rightarrow> nat \<Rightarrow> 'u classic_exec \<Rightarrow> bool" where
  classic_refl: "classic_steps s 0 s"
| classic_next: "classic_steps s k s1 \<Longrightarrow> classic_step s1 s2 \<Longrightarrow> classic_steps s (Suc k) s2"

section \<open>Well-formed graphs\<close>

text \<open>The edges out of a set of nodes; the in-degree stored by \<open>addEdge\<close> counts them, modulo the width.\<close>

definition out_edges :: "'u classic_graph \<Rightarrow> node_id set \<Rightarrow> node_id multiset" where
  "out_edges g V = (\<Sum>v \<in> V. mset (c_successors (g ! v)))"

definition classic_wf :: "'u classic_graph \<Rightarrow> bool" where
  "classic_wf g \<longleftrightarrow>
     (\<forall>v < length g. set (c_successors (g ! v)) \<subseteq> {..<length g})
     \<and> (\<forall>t < length g. c_initialInDegree (g ! t) = of_nat (count (out_edges g {..<length g}) t))"

text \<open>What \<open>executeAndWait\<close> relies on besides: acyclicity, and counters that hold the counts.\<close>

definition classic_ok :: "'u classic_graph \<Rightarrow> bool" where
  "classic_ok g \<longleftrightarrow>
     classic_wf g \<and> size (out_edges g {..<length g}) < 2 ^ 32 \<and> length g < 2 ^ 64
     \<and> (\<exists>rank :: node_id \<Rightarrow> nat. \<forall>v < length g. \<forall>t \<in> set (c_successors (g ! v)). rank v < rank t)"

lemma out_edges_cong:
  "(\<And>v. v \<in> V \<Longrightarrow> c_successors (g ! v) = c_successors (h ! v)) \<Longrightarrow> out_edges g V = out_edges h V"
  by (simp add: out_edges_def)

lemma out_edges_remove: "finite V \<Longrightarrow> v \<in> V \<Longrightarrow> out_edges g V = mset (c_successors (g ! v)) + out_edges g (V - {v})"
  by (simp add: out_edges_def sum.remove)

lemma out_edges_mono: "finite W \<Longrightarrow> V \<subseteq> W \<Longrightarrow> out_edges g V \<subseteq># out_edges g W"
  by (simp add: out_edges_def sum.subset_diff [of V W])

lemma out_edges_mem: "finite V \<Longrightarrow> t \<in># out_edges g V \<longleftrightarrow> (\<exists>v \<in> V. t \<in> set (c_successors (g ! v)))"
  by (induction V rule: finite_induct) (auto simp: out_edges_def)

lemma classic_wf_empty: "classic_wf []"
  by (simp add: classic_wf_def)

lemma classic_wf_clear: "classic_wf (classic_clear g)"
  by (simp add: classic_clear_def classic_wf_empty)

lemma classic_emplace_nth:
  "length (snd (classic_emplace f g)) = Suc (length g)"
  "v < length g \<Longrightarrow> snd (classic_emplace f g) ! v = g ! v"
  "snd (classic_emplace f g) ! length g = \<lparr>c_work = f, c_successors = [], c_inDegree = 0, c_initialInDegree = 0\<rparr>"
  by (simp_all add: classic_emplace_def nth_append)

lemma out_edges_emplace:
  "out_edges (snd (classic_emplace f g)) {..<Suc (length g)} = out_edges g {..<length g}"
proof -
  have "out_edges (snd (classic_emplace f g)) {..<Suc (length g)} = out_edges (snd (classic_emplace f g)) {..<length g}"
    by (simp add: out_edges_def lessThan_Suc classic_emplace_nth(3))
  also have "\<dots> = out_edges g {..<length g}" by (rule out_edges_cong) (simp add: classic_emplace_nth(2))
  finally show ?thesis .
qed

lemma classic_wf_emplace:
  assumes "classic_wf g"
  shows "classic_wf (snd (classic_emplace f g))"
proof -
  have "length g \<notin># out_edges g {..<length g}" using assms by (force simp: out_edges_mem classic_wf_def)
  then have "count (out_edges g {..<length g}) (length g) = 0" by (simp add: not_in_iff)
  then show ?thesis using assms classic_emplace_nth [where f = f and g = g]
    unfolding classic_wf_def classic_emplace_nth(1) out_edges_emplace by (fastforce simp: less_Suc_eq)
qed

lemma classic_addEdge_nth:
  assumes "from < length g" and "to < length g"
  shows "length (classic_addEdge from to g) = length g"
    and "v < length g \<Longrightarrow> c_successors (classic_addEdge from to g ! v) = c_successors (g ! v) @ (if v = from then [to] else [])"
    and "v < length g \<Longrightarrow> c_initialInDegree (classic_addEdge from to g ! v) = c_initialInDegree (g ! v) + (if v = to then 1 else 0)"
    and "v < length g \<Longrightarrow> c_work (classic_addEdge from to g ! v) = c_work (g ! v)"
  using assms by (simp_all add: classic_addEdge_def Let_def nth_list_update)

lemma out_edges_addEdge:
  assumes "from < length g" and "to < length g"
  shows "out_edges (classic_addEdge from to g) {..<length g} = add_mset to (out_edges g {..<length g})"
proof -
  note nth = classic_addEdge_nth [OF assms]
  have "out_edges (classic_addEdge from to g) ({..<length g} - {from}) = out_edges g ({..<length g} - {from})"
    by (rule out_edges_cong) (simp add: nth(2))
  then show ?thesis using assms(1) by (simp add: out_edges_remove [of _ "from"] nth(2))
qed

lemma classic_wf_addEdge:
  assumes "classic_wf g" and "from < length g" and "to < length g"
  shows "classic_wf (classic_addEdge from to g)"
  using assms(1,3) out_edges_addEdge [OF assms(2,3)] classic_addEdge_nth [OF assms(2,3)] by (auto simp: classic_wf_def)

lemma classic_wf_reset: "classic_wf g \<Longrightarrow> classic_wf (classic_reset g)"
proof -
  assume "classic_wf g"
  moreover have "out_edges (classic_reset g) {..<length g} = out_edges g {..<length g}"
    by (rule out_edges_cong) (simp add: classic_reset_def)
  ultimately show ?thesis by (simp add: classic_wf_def classic_reset_def)
qed

section \<open>The invariant of an execution\<close>

fun working :: "(node_id \<times> classic_phase) option \<Rightarrow> node_id list" where
  "working (Some (n, CWork)) = [n]" | "working _ = []"

fun notifying :: "(node_id \<times> classic_phase) option \<Rightarrow> node_id list" where
  "notifying (Some (n, CNotify ts)) = [n]" | "notifying _ = []"

fun to_notify :: "(node_id \<times> classic_phase) option \<Rightarrow> node_id list" where
  "to_notify (Some (n, CNotify ts)) = ts" | "to_notify _ = []"

text \<open>
  The reports a node still waits for; the nodes that are ready; and how many nodes have not yet
  decremented \<open>remainingTasks\<close>.
\<close>

definition owed :: "'u classic_graph \<Rightarrow> 'u classic_exec \<Rightarrow> node_id multiset" where
  "owed g s = out_edges g ({..<length g} - set (x_log s)) + gather to_notify (x_workers s)"

definition ready :: "'u classic_exec \<Rightarrow> node_id multiset" where
  "ready s = mset (x_roots s) + mset (p_tasks (x_pool s)) + gather working (x_workers s)"

definition unfinished :: "'u classic_graph \<Rightarrow> 'u classic_exec \<Rightarrow> nat" where
  "unfinished g s = card ({..<length g} - set (x_log s)) + size (gather notifying (x_workers s))"

definition same_shape :: "'u classic_graph \<Rightarrow> 'u classic_graph \<Rightarrow> bool" where
  "same_shape g h \<longleftrightarrow> length h = length g \<and> (\<forall>v < length g. c_successors (h ! v) = c_successors (g ! v) \<and> c_work (h ! v) = c_work (g ! v))"

definition counted :: "'u classic_graph \<Rightarrow> 'u classic_exec \<Rightarrow> bool" where
  "counted g s \<longleftrightarrow>
     same_shape g (x_graph s) \<and> \<not> p_stop (x_pool s) \<and> set (x_log s) \<subseteq> {..<length g}
     \<and> set_mset (owed g s) \<subseteq> {..<length g}
     \<and> (\<forall>t < length g. unat (c_inDegree (x_graph s ! t)) = count (owed g s) t)
     \<and> (\<forall>n. count (ready s) n = (if n < length g \<and> n \<notin> set (x_log s) \<and> n \<notin># owed g s then 1 else 0))
     \<and> (\<forall>n \<in> set (x_log s). n \<notin># owed g s)
     \<and> unfinished g s \<le> length g \<and> x_remaining s = of_nat (unfinished g s)
     \<and> (x_completed s \<longleftrightarrow> unfinished g s = 0 \<and> g \<noteq> [])"

definition logged :: "'u classic_graph \<Rightarrow> 'u \<Rightarrow> 'u classic_exec \<Rightarrow> bool" where
  "logged g u s \<longleftrightarrow>
     distinct (x_log s) \<and> x_user s = fold (\<lambda>n. c_work (g ! n)) (x_log s) u
     \<and> log_ordered (\<lambda>v. c_successors (g ! v)) {..<length g} (x_log s)"

text \<open>The steps taken and the steps left.\<close>

definition budget :: "nat \<Rightarrow> 'u classic_graph \<Rightarrow> 'u classic_exec \<Rightarrow> bool" where
  "budget m g s \<longleftrightarrow>
     m + length (x_roots s) + 2 * card ({..<length g} - set (x_log s)) + unfinished g s + size (owed g s)
       \<le> 4 * length g + size (out_edges g {..<length g}) + size (gather working (x_workers s))"

definition classic_inv :: "nat \<Rightarrow> 'u classic_graph \<Rightarrow> 'u \<Rightarrow> 'u classic_exec \<Rightarrow> bool" where
  "classic_inv m g u s \<longleftrightarrow> counted g s \<and> logged g u s \<and> budget m g s"

lemma ready_count:
  "counted g s \<Longrightarrow> count (ready s) n = (if n < length g \<and> n \<notin> set (x_log s) \<and> n \<notin># owed g s then 1 else 0)"
  unfolding counted_def by blast

lemma countedD:
  assumes "counted g s"
  shows "length (x_graph s) = length g" and "v < length g \<Longrightarrow> c_successors (x_graph s ! v) = c_successors (g ! v)"
    and "v < length g \<Longrightarrow> c_work (x_graph s ! v) = c_work (g ! v)"
    and "t < length g \<Longrightarrow> unat (c_inDegree (x_graph s ! t)) = count (owed g s) t"
    and "n \<in># ready s \<Longrightarrow> n < length g \<and> n \<notin> set (x_log s) \<and> n \<notin># owed g s"
    and "n < length g \<Longrightarrow> n \<notin> set (x_log s) \<Longrightarrow> n \<notin># ready s \<Longrightarrow> n \<in># owed g s"
    and "n \<in># owed g s \<Longrightarrow> n < length g \<and> n \<notin> set (x_log s)"
proof -
  show "length (x_graph s) = length g" "v < length g \<Longrightarrow> c_successors (x_graph s ! v) = c_successors (g ! v)"
      "v < length g \<Longrightarrow> c_work (x_graph s ! v) = c_work (g ! v)" "t < length g \<Longrightarrow> unat (c_inDegree (x_graph s ! t)) = count (owed g s) t"
    using assms by (simp_all add: counted_def same_shape_def)
  note r = ready_count [OF assms, of n]
  from r show "n \<in># ready s \<Longrightarrow> n < length g \<and> n \<notin> set (x_log s) \<and> n \<notin># owed g s"
    by (metis count_eq_zero_iff)
  show "n < length g \<Longrightarrow> n \<notin> set (x_log s) \<Longrightarrow> n \<notin># ready s \<Longrightarrow> n \<in># owed g s"
    using r by (metis count_eq_zero_iff zero_neq_one)
  show "n \<in># owed g s \<Longrightarrow> n < length g \<and> n \<notin> set (x_log s)"
    using assms unfolding counted_def by blast
qed

lemma rest_of_update [simp]: "rest_of i (ws[i := a]) = rest_of i ws"
  by (simp add: rest_of_def)

lemma worker_fetch_open:
  "\<not> p_stop p \<Longrightarrow> worker_fetch p = (case p_tasks p of [] \<Rightarrow> (Waits, p) | t # ts \<Rightarrow> (Takes t, p\<lparr>p_tasks := ts\<rparr>))"
  by (auto simp: worker_fetch_def split: list.split)

text \<open>Submitting and taking move a node between the places where it is ready.\<close>

lemma submit_inv:
  assumes "classic_inv m g u s" and "x_roots s \<noteq> []"
  shows "classic_inv (Suc m) g u (classic_submit s)"
proof -
  obtain n ns where r: "x_roots s = n # ns" using assms(2) by (cases "x_roots s") auto
  have "ready (classic_submit s) = ready s" "owed g (classic_submit s) = owed g s" "unfinished g (classic_submit s) = unfinished g s"
    by (simp_all add: ready_def owed_def unfinished_def classic_submit_def enqueue_def r)
  then show ?thesis using assms(1)
    by (simp add: classic_inv_def counted_def logged_def budget_def classic_submit_def enqueue_def r)
qed

lemma take_inv:
  assumes inv: "classic_inv m g u s" and i: "i < length (x_workers s)" "x_workers s ! i = None" and tk: "classic_take i s = Some s'"
  shows "classic_inv (Suc m) g u s'"
proof -
  have "\<not> p_stop (x_pool s)" using inv by (simp add: classic_inv_def counted_def)
  then obtain n ts where q: "p_tasks (x_pool s) = n # ts"
      and s': "s' = s\<lparr>x_pool := (x_pool s)\<lparr>p_tasks := ts\<rparr>, x_workers := (x_workers s)[i := Some (n, CWork)]\<rparr>"
    using tk by (auto simp: classic_take_def worker_fetch_open split: list.splits)
  have "gather working (x_workers s') = add_mset n (gather working (x_workers s))"
      "gather notifying (x_workers s') = gather notifying (x_workers s)" "gather to_notify (x_workers s') = gather to_notify (x_workers s)"
    using i by (simp_all add: s' gather_update gather_split [of i])
  moreover from this have "ready s' = ready s" "owed g s' = owed g s" "unfinished g s' = unfinished g s"
    by (simp_all add: ready_def owed_def unfinished_def) (simp_all add: s' q)
  ultimately show ?thesis using inv
    by (simp add: classic_inv_def counted_def logged_def budget_def) (simp add: s')
qed

text \<open>Calling the closure of a ready node moves its edges to the worker.\<close>

lemma call_inv:
  assumes inv: "classic_inv m g u s" and i: "i < length (x_workers s)" "x_workers s ! i = Some (n, CWork)"
  shows "classic_inv (Suc m) g u (executeNode i n CWork s)"
proof -
  define s' where "s' = executeNode i n CWork s"
  have s': "x_graph s' = x_graph s" "x_roots s' = x_roots s" "x_pool s' = x_pool s" "x_remaining s' = x_remaining s"
      "x_completed s' = x_completed s" "x_user s' = c_work (x_graph s ! n) (x_user s)" "x_log s' = x_log s @ [n]"
      "x_workers s' = (x_workers s)[i := Some (n, CNotify (c_successors (x_graph s ! n)))]"
    by (simp_all add: s'_def)
  have c: "counted g s" and l: "logged g u s" and b: "budget m g s" using inv by (simp_all add: classic_inv_def)
  note d = countedD [OF c]
  have w: "gather working (x_workers s) = add_mset n (gather working (x_workers s'))"
      "gather notifying (x_workers s') = add_mset n (gather notifying (x_workers s))"
      "gather to_notify (x_workers s') = mset (c_successors (x_graph s ! n)) + gather to_notify (x_workers s)"
    using i by (simp_all add: s' gather_update gather_split [of i])
  then have r: "ready s = add_mset n (ready s')" by (simp add: ready_def s'(2,3))
  then have n: "n < length g" "n \<notin> set (x_log s)" "n \<notin># owed g s" using d(5) [of n] by simp_all
  have split: "{..<length g} - set (x_log s') = {..<length g} - set (x_log s) - {n}" by (auto simp: s')
  have "out_edges g ({..<length g} - set (x_log s)) = mset (c_successors (g ! n)) + out_edges g ({..<length g} - set (x_log s'))"
    unfolding split using n by (simp add: out_edges_remove)
  then have o: "owed g s' = owed g s" unfolding owed_def w(3) using d(2) n(1) by simp
  have cd: "card ({..<length g} - set (x_log s)) = Suc (card ({..<length g} - set (x_log s')))"
    unfolding split using n by (intro card.remove) auto
  then have uf: "unfinished g s' = unfinished g s" unfolding unfinished_def w(2) cd by simp
  have "count (ready s') v = (if v < length g \<and> v \<notin> set (x_log s') \<and> v \<notin># owed g s' then 1 else 0)" for v
    using ready_count [OF c, of v] n unfolding r o s'(7) by (cases "v = n") (auto split: if_splits)
  then have "counted g s'" using c n unfolding counted_def o uf s' by simp
  moreover have "logged g u s'"
  proof -
    have "v \<in> set (x_log s)" if "t \<in> set (x_log s @ [n])" "v \<in> {..<length g}" "t \<in> set (c_successors (g ! v))" for t v
    proof (rule ccontr)
      assume "v \<notin> set (x_log s)"
      then have "t \<in># owed g s" using that(2,3) by (auto simp: owed_def out_edges_mem)
      then show False using d(7) [of t] n(3) that(1) by auto
    qed
    then have "log_ordered (\<lambda>v. c_successors (g ! v)) {..<length g} (x_log s @ [n])"
      using l by (intro log_ordered_snoc [of _ _ _ n "set (x_log s)"] n(2)) (simp_all add: logged_def)
    then show ?thesis using l n d(3) by (simp add: logged_def s')
  qed
  moreover have "budget (Suc m) g s'" using b cd unfolding budget_def o uf w(1) s'(2) by simp
  ultimately show ?thesis by (simp add: classic_inv_def s'_def)
qed

lemma unat_eq_one: "w = 1 \<longleftrightarrow> unat w = 1"
  by (metis unat_1 word_unat_eq_iff)

text \<open>Notifying a successor takes one report from what it waits for; the last one makes it ready.\<close>

lemma notify_inv:
  assumes inv: "classic_inv m g u s" and i: "i < length (x_workers s)" "x_workers s ! i = Some (n, CNotify (t # ts))"
  shows "classic_inv (Suc m) g u (executeNode i n (CNotify (t # ts)) s)"
proof -
  define s' where "s' = executeNode i n (CNotify (t # ts)) s"
  define prev where "prev = c_inDegree (x_graph s ! t)"
  have s': "x_graph s' = (x_graph s)[t := (x_graph s ! t)\<lparr>c_inDegree := prev - 1\<rparr>]" "x_roots s' = x_roots s"
      "x_pool s' = (if prev = 1 then enqueue t (x_pool s) else x_pool s)" "x_remaining s' = x_remaining s"
      "x_completed s' = x_completed s" "x_user s' = x_user s" "x_log s' = x_log s" "x_workers s' = (x_workers s)[i := Some (n, CNotify ts)]"
    by (simp_all add: s'_def prev_def Let_def)
  have c: "counted g s" and l: "logged g u s" and b: "budget m g s" using inv by (simp_all add: classic_inv_def)
  note d = countedD [OF c]
  have w: "gather working (x_workers s') = gather working (x_workers s)" "gather notifying (x_workers s') = gather notifying (x_workers s)"
      "gather to_notify (x_workers s) = add_mset t (gather to_notify (x_workers s'))"
    using i by (simp_all add: s' gather_update gather_split [of i])
  have o: "owed g s = add_mset t (owed g s')" unfolding owed_def w(3) s'(7) by simp
  then have t: "t < length g" "t \<notin> set (x_log s)" using d(7) [of t] by simp_all
  have deg: "unat prev = Suc (count (owed g s') t)" using d(4) [OF t(1)] by (simp add: o prev_def)
  then have dec: "unat (prev - 1) = count (owed g s') t" using unat_minus_one [of prev] by (metis diff_Suc_1 nat.distinct(1) unat_0)
  have last: "prev = 1 \<longleftrightarrow> t \<notin># owed g s'" unfolding unat_eq_one deg by (simp add: not_in_iff)
  have r: "ready s' = (if t \<in># owed g s' then ready s else add_mset t (ready s))"
    unfolding ready_def w(1) s'(2,3) last by (simp add: enqueue_def)
  have uf: "unfinished g s' = unfinished g s" unfolding unfinished_def w(2) s'(7) by simp
  have "count (ready s') v = (if v < length g \<and> v \<notin> set (x_log s') \<and> v \<notin># owed g s' then 1 else 0)" for v
    using ready_count [OF c, of v] t unfolding r o s'(7) by (cases "v = t") (auto simp: not_in_iff)
  moreover have "unat (c_inDegree (x_graph s' ! v)) = count (owed g s') v" if "v < length g" for v
    using d(1) d(4) [OF that] dec t(1) unfolding o s'(1) by (cases "v = t") simp_all
  moreover have "same_shape g (x_graph s')" "\<not> p_stop (x_pool s')"
    using c t(1) by (auto simp: counted_def same_shape_def s' nth_list_update enqueue_def)
  moreover have "set_mset (owed g s') \<subseteq> {..<length g}" "\<forall>v \<in> set (x_log s'). v \<notin># owed g s'"
    using d(7) unfolding o s'(7) by auto
  ultimately have "counted g s'" using c unfolding counted_def uf s'(4,5,7) by simp
  moreover have "logged g u s'" using l by (simp add: logged_def s')
  moreover have "budget (Suc m) g s'" using b unfolding budget_def uf w(1) o s'(2,7) by simp
  ultimately show ?thesis by (simp add: classic_inv_def s'_def)
qed

lemma unat_of_nat_u64: "k \<le> n \<Longrightarrow> n < 2 ^ 64 \<Longrightarrow> unat (of_nat k :: u64) = k"
  by (simp add: unat_of_nat take_bit_nat_eq_self)

text \<open>The last decrement of \<open>remainingTasks\<close> sets the flag.\<close>

lemma finish_inv:
  assumes inv: "classic_inv m g u s" and n: "length g < 2 ^ 64" and i: "i < length (x_workers s)" "x_workers s ! i = Some (n, CNotify [])"
  shows "classic_inv (Suc m) g u (executeNode i n (CNotify []) s)"
proof -
  define s' where "s' = executeNode i n (CNotify []) s"
  have s': "x_graph s' = x_graph s" "x_roots s' = x_roots s" "x_pool s' = x_pool s" "x_remaining s' = x_remaining s - 1"
      "x_completed s' = (x_completed s \<or> x_remaining s = 1)" "x_user s' = x_user s" "x_log s' = x_log s" "x_workers s' = (x_workers s)[i := None]"
    by (simp_all add: s'_def Let_def)
  have c: "counted g s" and l: "logged g u s" and b: "budget m g s" using inv by (simp_all add: classic_inv_def)
  have w: "gather working (x_workers s') = gather working (x_workers s)" "gather notifying (x_workers s) = add_mset n (gather notifying (x_workers s'))"
      "gather to_notify (x_workers s') = gather to_notify (x_workers s)"
    using i by (simp_all add: s' gather_update gather_split [of i])
  have o: "owed g s' = owed g s" unfolding owed_def w(3) s'(7) ..
  have r: "ready s' = ready s" unfolding ready_def w(1) s'(2,3) ..
  have uf: "unfinished g s = Suc (unfinished g s')" unfolding unfinished_def w(2) s'(7) by simp
  have rem: "x_remaining s = of_nat (unfinished g s)" "unfinished g s \<le> length g" using c by (simp_all add: counted_def)
  have "unat (x_remaining s) = unfinished g s" unfolding rem(1) by (rule unat_of_nat_u64 [OF rem(2) n])
  then have last: "x_remaining s = 1 \<longleftrightarrow> unfinished g s' = 0" unfolding unat_eq_one uf by simp
  have "g \<noteq> []" using rem(2) uf by auto
  then have "counted g s'" using c last uf unfolding counted_def o r s'(1,3,4,5,7) by simp
  moreover have "logged g u s'" using l by (simp add: logged_def s')
  moreover have "budget (Suc m) g s'" using b unfolding budget_def o uf w(1) s'(2,7) by simp
  ultimately show ?thesis by (simp add: classic_inv_def s'_def)
qed

lemma classic_step_inv:
  assumes "classic_step s s'" and "classic_inv m g u s" and "length g < 2 ^ 64"
  shows "classic_inv (Suc m) g u s'"
  using assms(1)
proof cases
  case (c_exec i n ph)
  then show ?thesis
    using call_inv [OF assms(2), of i n] notify_inv [OF assms(2), of i n] finish_inv [OF assms(2,3), of i n]
    by (cases ph; cases "case ph of CWork \<Rightarrow> [] | CNotify ts \<Rightarrow> ts") auto
next
  case c_submit
  then show ?thesis using submit_inv [OF assms(2)] by simp
next
  case (c_take i)
  then show ?thesis using take_inv [OF assms(2)] by simp
qed

lemma classic_steps_inv:
  "classic_steps s m s' \<Longrightarrow> classic_inv 0 g u s \<Longrightarrow> length g < 2 ^ 64 \<Longrightarrow> classic_inv m g u s'"
  by (induction rule: classic_steps.induct) (auto intro: classic_step_inv)

section \<open>Starting and stopping\<close>

lemma classic_resetD:
  shows "length (classic_reset g) = length g"
    and "v < length g \<Longrightarrow> c_successors (classic_reset g ! v) = c_successors (g ! v)"
    and "v < length g \<Longrightarrow> c_work (classic_reset g ! v) = c_work (g ! v)"
    and "v < length g \<Longrightarrow> c_initialInDegree (classic_reset g ! v) = c_initialInDegree (g ! v)"
    and "v < length g \<Longrightarrow> c_inDegree (classic_reset g ! v) = c_initialInDegree (g ! v)"
  by (simp_all add: classic_reset_def)

lemma gather_none: "gather f (replicate k a) = {#}" if "f a = []"
  using that by (induction k) (simp_all add: gather_def)

lemma classic_degree:
  assumes "classic_ok g" and "t < length g"
  shows "unat (c_initialInDegree (g ! t)) = count (out_edges g {..<length g}) t"
proof -
  have "count (out_edges g {..<length g}) t \<le> size (out_edges g {..<length g})" by (rule count_le_size)
  then have "count (out_edges g {..<length g}) t < 2 ^ 32" using assms(1) by (simp add: classic_ok_def)
  then show ?thesis using assms by (simp add: classic_ok_def classic_wf_def unat_of_nat take_bit_nat_eq_self)
qed

lemma classic_start_inv:
  assumes ok: "classic_ok g"
  shows "classic_inv 0 g u (classic_start k (classic_reset g) u)"
proof -
  let ?s = "classic_start k (classic_reset g) u" and ?V = "{..<length g}"
  have nw: "x_workers ?s = replicate k None" "x_log ?s = []" "x_pool ?s = ClassicThreadPool" by (simp_all add: classic_start_def)
  have o: "owed g ?s = out_edges g ?V" by (simp add: owed_def nw gather_none)
  have uf: "unfinished g ?s = length g" by (simp add: unfinished_def nw gather_none)
  have mem: "set_mset (out_edges g ?V) \<subseteq> ?V"
    using ok by (fastforce simp: out_edges_mem classic_ok_def classic_wf_def)
  have rd: "ready ?s = mset (filter (\<lambda>n. c_initialInDegree (classic_reset g ! n) = 0) [0..<length g])"
    by (simp add: ready_def nw gather_none ClassicThreadPool_def) (simp add: classic_start_def classic_roots_def classic_resetD)
  have "count (ready ?s) n = (if n < length g \<and> n \<notin># out_edges g ?V then 1 else 0)" for n
    unfolding rd using classic_degree [OF ok, of n] classic_resetD(4) [of n g]
    by (simp add: distinct_count_atmost_1 [THEN iffD1, rule_format] not_in_iff unat_eq_zero [symmetric])
  then have "counted g ?s"
    unfolding counted_def o uf using mem classic_degree [OF ok] nw
    by (simp add: same_shape_def classic_resetD) (simp add: classic_start_def classic_resetD ClassicThreadPool_def)
  moreover have "logged g u ?s" by (simp add: logged_def classic_start_def log_ordered_def)
  moreover have "length (classic_roots (classic_reset g)) \<le> length g"
    using length_filter_le [of _ "[0..<length g]"] by (simp add: classic_roots_def classic_resetD)
  then have "budget 0 g ?s" unfolding budget_def o uf by (simp add: nw) (simp add: classic_start_def)
  ultimately show ?thesis by (simp add: classic_inv_def)
qed

lemma classic_stuck:
  assumes "\<nexists>s'. classic_step s s'" and "0 < length (x_workers s)" and "\<not> p_stop (x_pool s)"
  shows "x_roots s = []" and "p_tasks (x_pool s) = []" and "\<forall>a \<in> set (x_workers s). a = None"
proof -
  show "x_roots s = []" using assms(1) c_submit by blast
  have none: "x_workers s ! i = None" if "i < length (x_workers s)" for i
    using assms(1) c_exec [OF that] by (metis not_None_eq surj_pair)
  then show "\<forall>a \<in> set (x_workers s). a = None" by (metis in_set_conv_nth)
  show "p_tasks (x_pool s) = []"
  proof (rule ccontr)
    assume "p_tasks (x_pool s) \<noteq> []"
    then have "\<exists>s'. classic_take 0 s = Some s'"
      using assms(3) by (cases "p_tasks (x_pool s)") (simp_all add: classic_take_def worker_fetch_open)
    then show False using assms(1) c_take [OF assms(2) none [OF assms(2)]] by blast
  qed
qed

lemma gather_all_none: "\<forall>a \<in> set ws. a = None \<Longrightarrow> f None = [] \<Longrightarrow> gather f ws = {#}"
  by (induction ws) (simp_all add: gather_def)

lemma classic_quiet:
  assumes ok: "classic_ok g" and c: "counted g s" and r: "ready s = {#}" and w: "gather to_notify (x_workers s) = {#}"
  shows "set (x_log s) = {..<length g}"
proof (rule ccontr)
  let ?L = "{..<length g} - set (x_log s)"
  assume "set (x_log s) \<noteq> {..<length g}"
  then have "?L \<noteq> {}" using c by (auto simp: counted_def)
  moreover obtain rank :: "node_id \<Rightarrow> nat" where rank: "\<forall>v < length g. \<forall>t \<in> set (c_successors (g ! v)). rank v < rank t"
    using ok by (auto simp: classic_ok_def)
  ultimately obtain n where n: "n \<in> ?L" and least: "\<And>v. v \<in> ?L \<Longrightarrow> rank n \<le> rank v"
    using arg_min_if_finite [of ?L rank] arg_min_least [of ?L _ rank] by (metis finite_Diff finite_lessThan)
  have "n \<in># owed g s" using countedD(6) [OF c, of n] n r by simp
  then obtain v where "v \<in> ?L" "n \<in> set (c_successors (g ! v))" using w by (auto simp: owed_def out_edges_mem)
  then show False using rank least [of v] by fastforce
qed

lemma classic_workers:
  "classic_steps s m s' \<Longrightarrow> length (x_workers s') = length (x_workers s)"
proof (induction rule: classic_steps.induct)
  case (classic_next s k s1 s2)
  have "length (x_workers (executeNode i n ph t)) = length (x_workers t)" for i n ph and t :: "'a classic_exec"
    by (cases "(i, n, ph, t)" rule: executeNode.cases) (simp_all add: Let_def)
  with classic_next show ?case
    by (auto simp: classic_submit_def classic_take_def elim!: classic_step.cases split: prod.splits fetched.splits)
qed simp

lemma classic_done:
  assumes ok: "classic_ok g" and c: "counted g s" and k: "0 < length (x_workers s)"
  shows "classic_returns s \<longleftrightarrow> \<not> (\<exists>s'. classic_step s s')" and "classic_returns s \<Longrightarrow> set (x_log s) = {..<length g}"
proof -
  have up: "\<not> p_stop (x_pool s)" and sub: "set (x_log s) \<subseteq> {..<length g}"
    and flag: "x_completed s \<longleftrightarrow> unfinished g s = 0 \<and> g \<noteq> []"
    and empty: "x_graph s = [] \<longleftrightarrow> g = []"
    and le: "unfinished g s \<le> length g"
    using c by (auto simp: counted_def same_shape_def)
  then have ret: "classic_returns s \<longleftrightarrow> unfinished g s = 0" by (auto simp: classic_returns_def)
  have all: "set (x_log s) = {..<length g}" if "unfinished g s = 0"
    using that sub by (auto simp: unfinished_def)
  show "set (x_log s) = {..<length g}" if "classic_returns s" using that all by (simp add: ret)
  have "unfinished g s = 0" if "\<nexists>s'. classic_step s s'"
  proof -
    note q = classic_stuck [OF that k up]
    have "ready s = {#}" by (simp add: ready_def q(1,2) gather_all_none [OF q(3)])
    then have "set (x_log s) = {..<length g}"
      by (rule classic_quiet [OF ok c]) (simp add: gather_all_none [OF q(3)])
    then show ?thesis by (simp add: unfinished_def gather_all_none [OF q(3)])
  qed
  moreover have "\<not> classic_step s s'" if z: "unfinished g s = 0" for s'
  proof
    assume "classic_step s s'"
    have "n \<notin># ready s" for n using countedD(5) [OF c, of n] all [OF z] by auto
    then have "ready s = {#}" by (metis multiset_nonemptyE)
    then have q: "x_roots s = []" "p_tasks (x_pool s) = []" "gather working (x_workers s) = {#}" by (simp_all add: ready_def)
    have "False" if "Some (n, ph) \<in> set (x_workers s)" for n ph
      using gather_mem [OF that, of n working] gather_mem [OF that, of n notifying] q(3) z
      by (cases ph) (simp_all add: unfinished_def)
    with \<open>classic_step s s'\<close> up q show False
      by (cases rule: classic_step.cases) (auto simp: classic_take_def worker_fetch_open, metis nth_mem)
  qed
  ultimately show "classic_returns s \<longleftrightarrow> \<not> (\<exists>s'. classic_step s s')" using ret by blast
qed

lemma classic_run:
  assumes ok: "classic_ok g" and k: "0 < k" and st: "classic_steps (classic_start k (classic_reset g) u) m s"
  shows "classic_inv m g u s" and "counted g s" and "0 < length (x_workers s)"
    and "m \<le> 4 * length g + size (out_edges g {..<length g})"
proof -
  show inv: "classic_inv m g u s"
    using classic_steps_inv [OF st classic_start_inv [OF ok]] ok by (simp add: classic_ok_def)
  then show c: "counted g s" by (simp add: classic_inv_def)
  show "0 < length (x_workers s)" using classic_workers [OF st] k by (simp add: classic_start_def)
  have "gather working (x_workers s) \<subseteq># mset_set ({..<length g} - set (x_log s))"
  proof (rule subset_mset.trans)
    show "gather working (x_workers s) \<subseteq># ready s" by (simp add: ready_def)
    show "ready s \<subseteq># mset_set ({..<length g} - set (x_log s))"
      using c by (simp add: subseteq_mset_def counted_def count_mset_set')
  qed
  from size_mset_mono [OF this] show "m \<le> 4 * length g + size (out_edges g {..<length g})"
    using inv by (simp add: classic_inv_def budget_def)
qed

text \<open>So some run, of a bounded length, brings \<open>executeAndWait\<close> to its return.\<close>

lemma classic_run_exists:
  assumes ok: "classic_ok g" and k: "0 < k"
  shows "\<exists>m s. classic_steps (classic_start k (classic_reset g) u) m s \<and> classic_returns s"
proof (rule ccontr)
  let ?s0 = "classic_start k (classic_reset g) u"
  assume no: "\<nexists>m s. classic_steps ?s0 m s \<and> classic_returns s"
  have "\<exists>s. classic_steps ?s0 m s" for m
  proof (induction m)
    case 0
    then show ?case using classic_refl by blast
  next
    case (Suc m)
    then obtain s where s: "classic_steps ?s0 m s" by blast
    then show ?case using no classic_done(1) [OF ok classic_run(2,3) [OF ok k s]] classic_next [OF s] by blast
  qed
  then show False using classic_run(4) [OF ok k] by (metis not_less_eq_eq)
qed

text \<open>A pool of no threads never gets an execution done: \<open>executeAndWait\<close> waits for ever.\<close>

lemma classic_no_workers:
  assumes "classic_steps (classic_start 0 h u) m s" and "h \<noteq> []"
  shows "\<not> classic_returns s"
proof -
  have "x_workers s = [] \<and> \<not> x_completed s \<and> x_graph s = h"
    using assms(1)
  proof (induction "classic_start 0 h u" m s rule: classic_steps.induct)
    case classic_refl
    then show ?case by (simp add: classic_start_def)
  next
    case (classic_next k s1 s2)
    then show ?case by (auto simp: classic_submit_def elim: classic_step.cases)
  qed
  then show ?thesis using assms(2) by (simp add: classic_returns_def)
qed

section \<open>The property\<close>

text \<open>
  C38: with any number of workers, every interleaving of \<open>executeAndWait\<close> on a reset acyclic graph ends
  within four steps per node and one per edge; it stops exactly when the call returns; no closure is
  called twice or before those it depends on, the program state is that of the calls in their order,
  and at the return every closure has been called.
\<close>

theorem classic_executeAndWait:
  assumes "classic_ok g" and "0 < k" and "classic_steps (classic_start k (classic_reset g) u) m s"
  shows "m \<le> 4 * length g + size (out_edges g {..<length g})
    \<and> (classic_returns s \<longleftrightarrow> \<not> (\<exists>s'. classic_step s s'))
    \<and> distinct (x_log s) \<and> x_user s = fold (\<lambda>n. c_work (g ! n)) (x_log s) u
    \<and> log_ordered (\<lambda>v. c_successors (g ! v)) {..<length g} (x_log s)
    \<and> (classic_returns s \<longrightarrow> set (x_log s) = {..<length g})"
  using classic_run(1,4) [OF assms] classic_done [OF assms(1) classic_run(2,3) [OF assms]]
  by (simp add: classic_inv_def logged_def)

text \<open>A graph of two closures, the second after the first, on a state that tells their order.\<close>

definition demo_classic :: "nat classic_graph" where
  "demo_classic = classic_addEdge 0 1 (snd (classic_emplace (\<lambda>u. 2 * u) (snd (classic_emplace Suc []))))"

lemma demo_classic_eq:
  "demo_classic = [\<lparr>c_work = Suc, c_successors = [1], c_inDegree = 0, c_initialInDegree = 0\<rparr>,
     \<lparr>c_work = \<lambda>u. 2 * u, c_successors = [], c_inDegree = 0, c_initialInDegree = 1\<rparr>]"
  by (simp add: demo_classic_def classic_addEdge_def classic_emplace_def)

lemma demo_classic_ok: "classic_ok demo_classic"
proof -
  have wf: "classic_wf demo_classic"
    unfolding demo_classic_def
    by (intro classic_wf_addEdge classic_wf_emplace classic_wf_empty) (simp_all add: classic_emplace_def)
  moreover have two: "{..<length demo_classic} = {0, 1}" by (auto simp: demo_classic_eq)
  moreover have "out_edges demo_classic {0, 1} = {#1#}" by (simp add: out_edges_def demo_classic_eq)
  moreover have "\<forall>v < length demo_classic. \<forall>t \<in> set (c_successors (demo_classic ! v)). id v < id t"
    by (auto simp: demo_classic_eq less_Suc_eq)
  ultimately show ?thesis unfolding classic_ok_def by (simp add: demo_classic_eq) blast
qed

lemma log_orderedD: "log_ordered tg V (l1 @ m # l2) \<Longrightarrow> v \<in> V \<Longrightarrow> m \<in> set (tg v) \<Longrightarrow> v \<notin> set (m # l2)"
  unfolding log_ordered_def by blast

lemma two_logs: "distinct l \<Longrightarrow> set l = {a, b} \<Longrightarrow> a \<noteq> b \<Longrightarrow> l = [a, b] \<or> l = [b, a]"
proof -
  assume d: "distinct l" "set l = {a, b}" "a \<noteq> b"
  then have "length l = 2" using distinct_card [of l] by simp
  then obtain x y where "l = [x, y]" by (auto simp: numeral_2_eq_2 length_Suc_conv)
  then show ?thesis using d by (auto simp: doubleton_eq_iff)
qed

theorem classic_executeAndWait_witness:
  "\<exists>m s. classic_steps (classic_start 2 (classic_reset demo_classic) 3) m s \<and> classic_returns s \<and> x_user s = 8"
proof -
  obtain m s where s: "classic_steps (classic_start 2 (classic_reset demo_classic) 3) m s" "classic_returns s"
    using classic_run_exists [OF demo_classic_ok zero_less_numeral] by blast
  note p = classic_executeAndWait [OF demo_classic_ok _ s(1)]
  have "set (x_log s) = {0, 1}" using p s(2) by (auto simp: demo_classic_eq)
  then have "x_log s = [0, 1] \<or> x_log s = [1, 0]" using p by (intro two_logs) simp_all
  moreover have "x_log s \<noteq> [1, 0]"
  proof
    assume "x_log s = [1, 0]"
    then have "log_ordered (\<lambda>v. c_successors (demo_classic ! v)) {..<length demo_classic} ([] @ 1 # [0])" using p by simp
    from log_orderedD [OF this, of 0] show False by (simp add: demo_classic_eq)
  qed
  ultimately have "x_log s = [0, 1]" by blast
  then have "x_user s = 8" using p by (simp add: demo_classic_eq)
  then show ?thesis using s by blast
qed

end
