(* ===== verification/Bench_Workloads.thy ===== *)
theory Bench_Workloads
  imports Classic_Baseline Concurrent_Run Graph_Build Parallel_For
begin

text \<open>
  The workloads of the benchmarks (\<^verbatim>\<open>tools/lf_sweep_benchmark.cpp\<close>, \<^verbatim>\<open>tools/lf_comparison_benchmark.cpp\<close>).
  Each is built twice, through \<^verbatim>\<open>lf::TaskGraph\<close> and through the classic baseline, and both runs count
  in a result sink. The theorems say that the two engines compute the same: whatever the interleavings
  of their workers, both runs end with the same sink. The visibility test \<^verbatim>\<open>runClusterCull\<close> is floating
  point and a parameter here.
\<close>

section \<open>One construction, two engines\<close>

text \<open>The calls of a workload: emplacing a callable, and an edge between the nodes emplaced before.\<close>

datatype 'u shape_op = Node "'u \<Rightarrow> 'u" | Edge node_id node_id

text \<open>\<open>emplace\<close> with its default arguments, and \<open>precede\<close>, whose branch is \<open>-1\<close>.\<close>

fun lf_op :: "'u shape_op \<Rightarrow> 'u build_op" where
  "lf_op (Node f) = Emplace '''' Worker Normal f"
| "lf_op (Edge a b) = AddEdge a b (- 1)"

fun classic_op :: "'u shape_op \<Rightarrow> 'u classic_graph \<Rightarrow> 'u classic_graph" where
  "classic_op (Node f) g = snd (classic_emplace f g)"
| "classic_op (Edge a b) g = classic_addEdge a b g"

definition lf_build :: "'u \<Rightarrow> 'u shape_op list \<Rightarrow> 'u engine" where
  "lf_build u ops = build u (map lf_op ops)"

definition classic_build :: "'u shape_op list \<Rightarrow> 'u classic_graph" where
  "classic_build ops = fold classic_op ops []"

fun works :: "'u shape_op list \<Rightarrow> ('u \<Rightarrow> 'u) list" where
  "works [] = []"
| "works (Node f # ops) = f # works ops"
| "works (Edge a b # ops) = works ops"

fun edges :: "'u shape_op list \<Rightarrow> (node_id \<times> node_id) list" where
  "edges [] = []"
| "edges (Node f # ops) = edges ops"
| "edges (Edge a b # ops) = (a, b) # edges ops"

text \<open>Edges join nodes emplaced before and increase a rank; \<open>k\<close> counts the nodes.\<close>

fun shape_from :: "(node_id \<Rightarrow> nat) \<Rightarrow> nat \<Rightarrow> 'u shape_op list \<Rightarrow> bool" where
  "shape_from rank k [] \<longleftrightarrow> True"
| "shape_from rank k (Node f # ops) \<longleftrightarrow> shape_from rank (Suc k) ops"
| "shape_from rank k (Edge a b # ops) \<longleftrightarrow> a < k \<and> b < k \<and> rank a < rank b \<and> shape_from rank k ops"

definition shape_ok :: "(node_id \<Rightarrow> nat) \<Rightarrow> 'u shape_op list \<Rightarrow> bool" where
  "shape_ok rank ops \<longleftrightarrow>
     shape_from rank 0 ops \<and> length (works ops) < 2 ^ 32 \<and> length (edges ops) < 2 ^ 32
     \<and> (\<forall>t. count_list (map snd (edges ops)) t \<le> 65535)"

lemma shape_append [simp]:
  "works (xs @ ys) = works xs @ works ys" "edges (xs @ ys) = edges xs @ edges ys"
  "shape_from rank k (xs @ ys) \<longleftrightarrow> shape_from rank k xs \<and> shape_from rank (k + length (works xs)) ys"
  by (induction xs arbitrary: k rule: works.induct) auto

section \<open>Both graphs are what the shape says\<close>

lemma lf_ops:
  "ops_ok rank k (map lf_op ops) = shape_from rank k ops" "node_ops (map lf_op ops) = length (works ops)"
  "edge_targets (map lf_op ops) = map snd (edges ops)" "node_specs (map lf_op ops) = map (\<lambda>f. (Static, RunFn f)) (works ops)"
  by (induction ops arbitrary: k rule: works.induct) auto

lemma build_user: "user (build u ops) = u"
proof -
  have "user (fold build_step ops g) = user g" for g :: "'a engine"
  proof (induction ops arbitrary: g)
    case (Cons op ops)
    then show ?case by (cases op) (simp_all add: emplace_eq)
  qed simp
  then show ?thesis by (simp add: build_def TaskGraph_new_def)
qed

lemma lf_build_ok:
  assumes "shape_ok rank ops"
  shows "dag_ok (lf_build u ops)" and "graph_nodes (lf_build u ops) = {..<length (works ops)}" and "user (lf_build u ops) = u"
    and "v < length (works ops) \<Longrightarrow> node_type (nodes (lf_build u ops) v) = Static \<and> executeFn (nodes (lf_build u ops) v) = RunFn (works ops ! v)"
proof -
  have "ops_ok rank 0 (map lf_op ops)" "node_ops (map lf_op ops) < 2 ^ 32" "\<forall>t. count_list (edge_targets (map lf_op ops)) t \<le> 65535"
    using assms by (simp_all add: shape_ok_def lf_ops)
  note b = build_ok [OF this, where u = u]
  show "dag_ok (lf_build u ops)" "graph_nodes (lf_build u ops) = {..<length (works ops)}" "user (lf_build u ops) = u"
    using b(1,2) by (simp_all add: lf_build_def build_user lf_ops)
  show "v < length (works ops) \<Longrightarrow> node_type (nodes (lf_build u ops) v) = Static \<and> executeFn (nodes (lf_build u ops) v) = RunFn (works ops ! v)"
    using b(5) by (simp add: lf_build_def spec_of_def lf_ops)
qed

lemma classic_fold:
  assumes "classic_wf g" and "shape_from rank (length g) ops"
    and "\<forall>v < length g. \<forall>t \<in> set (c_successors (g ! v)). rank v < rank t"
  shows "classic_wf (fold classic_op ops g) \<and> map c_work (fold classic_op ops g) = map c_work g @ works ops
    \<and> out_edges (fold classic_op ops g) {..<length g + length (works ops)} = out_edges g {..<length g} + mset (map snd (edges ops))
    \<and> (\<forall>v < length g + length (works ops). \<forall>t \<in> set (c_successors (fold classic_op ops g ! v)). rank v < rank t)"
  using assms
proof (induction ops arbitrary: g rule: works.induct)
  case (2 f ops)
  let ?h = "snd (classic_emplace f g)"
  note nth = classic_emplace_nth [where f = f and g = g]
  have "map c_work ?h = map c_work g @ [f]" by (simp add: classic_emplace_def)
  moreover have "\<forall>v < length ?h. \<forall>t \<in> set (c_successors (?h ! v)). rank v < rank t"
    using 2(4) nth by (auto simp: less_Suc_eq)
  ultimately show ?case using 2(1) [of ?h] 2(3) classic_wf_emplace [OF 2(2), of f]
    by (simp add: nth(1) out_edges_emplace)
next
  case (3 a b ops)
  let ?h = "classic_addEdge a b g"
  have ab: "a < length g" "b < length g" "rank a < rank b" using 3(3) by simp_all
  note nth = classic_addEdge_nth [OF ab(1,2)]
  have "map c_work ?h = map c_work g" by (rule nth_equalityI) (simp_all add: nth)
  moreover have "\<forall>v < length ?h. \<forall>t \<in> set (c_successors (?h ! v)). rank v < rank t"
    using 3(4) nth(1,2) ab(3) by auto
  ultimately show ?case using 3(1) [of ?h] 3(3) classic_wf_addEdge [OF 3(2) ab(1,2)]
    by (simp add: nth(1) out_edges_addEdge [OF ab(1,2)])
qed simp

lemma classic_build_ok:
  assumes "shape_ok rank ops"
  shows "classic_ok (classic_build ops)" and "length (classic_build ops) = length (works ops)"
    and "v < length (works ops) \<Longrightarrow> c_work (classic_build ops ! v) = works ops ! v"
    and "size (out_edges (classic_build ops) {..<length (works ops)}) = length (edges ops)"
proof -
  have "shape_from rank (length []) ops" using assms by (simp add: shape_ok_def)
  from classic_fold [OF classic_wf_empty this]
  have b: "classic_wf (classic_build ops)" "map c_work (classic_build ops) = works ops"
    "out_edges (classic_build ops) {..<length (works ops)} = mset (map snd (edges ops))"
    "\<forall>v < length (works ops). \<forall>t \<in> set (c_successors (classic_build ops ! v)). rank v < rank t"
    by (simp_all add: classic_build_def out_edges_def)
  show len: "length (classic_build ops) = length (works ops)" using b(2) by (metis length_map)
  show "v < length (works ops) \<Longrightarrow> c_work (classic_build ops ! v) = works ops ! v" using b(2) len by (metis nth_map)
  show e: "size (out_edges (classic_build ops) {..<length (works ops)}) = length (edges ops)" using b(3) by simp
  show "classic_ok (classic_build ops)"
    using assms b(1,4) len e by (auto simp: classic_ok_def shape_ok_def)
qed

section \<open>Both engines compute the same\<close>

definition commuting :: "('u \<Rightarrow> 'u) list \<Rightarrow> bool" where
  "commuting fs \<longleftrightarrow> (\<forall>f \<in> set fs. \<forall>h \<in> set fs. f \<circ> h = h \<circ> f)"

lemma fold_works:
  assumes "commuting fs" and "distinct l" and "set l = {..<length fs}"
  shows "fold (\<lambda>v. fs ! v) l u = fold (\<lambda>f. f) fs u"
proof -
  have l: "mset l = mset [0..<length fs]"
    using assms(2,3) set_eq_iff_mset_eq_distinct [of l "[0..<length fs]"] by (simp add: atLeast0LessThan)
  have "fold (\<lambda>v. fs ! v) l = fold (\<lambda>v. fs ! v) [0..<length fs]"
  proof (rule fold_multiset_equiv [OF _ l])
    fix x y assume "x \<in> set l" "y \<in> set l"
    then show "fs ! x \<circ> fs ! y = fs ! y \<circ> fs ! x" using assms(1,3) by (simp add: commuting_def)
  qed
  also have "\<dots> = fold (\<lambda>f. f) (map (\<lambda>v. fs ! v) [0..<length fs])" by (simp add: fold_map comp_def)
  finally show ?thesis by (simp add: map_nth)
qed

lemma lf_result:
  assumes ok: "shape_ok rank ops" and com: "commuting (works ops)"
    and st: "par_steps (par_start k now (lf_build u ops)) m s" and fin: "isCompleted (p_engine s)"
  shows "user (p_engine s) = fold (\<lambda>f. f) (works ops) u"
proof -
  let ?g = "lf_build u ops" and ?n = "length (works ops)"
  note b = lf_build_ok [OF ok, where u = u]
  note r = par_run_serial [OF b(1) st]
  have log: "distinct (p_log s)" "set (p_log s) = {..<?n}" using r fin b(2,4) by auto
  have "user (p_engine s) = fold (\<lambda>n. run_fn (executeFn (nodes ?g n))) (p_log s) u" using r b(3) by simp
  also have "\<dots> = fold (\<lambda>v. works ops ! v) (p_log s) u"
    using log(2) b(4) by (intro fold_cong) (auto simp: run_fn_def)
  finally show ?thesis using fold_works [OF com log] by simp
qed

lemma classic_result:
  assumes ok: "shape_ok rank ops" and com: "commuting (works ops)" and k: "0 < k"
    and st: "classic_steps (classic_start k (classic_reset (classic_build ops)) u) m s" and fin: "classic_returns s"
  shows "x_user s = fold (\<lambda>f. f) (works ops) u"
proof -
  let ?g = "classic_build ops"
  note b = classic_build_ok [OF ok]
  note r = classic_run [OF b(1) k st]
  have log: "distinct (x_log s)" "set (x_log s) = {..<length (works ops)}"
    using r(1) classic_done(2) [OF b(1) r(2,3) fin] b(2) by (simp_all add: classic_inv_def logged_def)
  have "x_user s = fold (\<lambda>n. c_work (?g ! n)) (x_log s) u" using r(1) by (simp add: classic_inv_def logged_def)
  also have "\<dots> = fold (\<lambda>v. works ops ! v) (x_log s) u" using log(2) b(3) by (intro fold_cong) auto
  finally show ?thesis using fold_works [OF com log] by simp
qed

section \<open>Fanning out and in\<close>

text \<open>
  The loops of the sweep's builders: from \<open>src\<close> fan out to \<open>t\<close> tasks and in to \<open>dst\<close>, through \<open>nb\<close> collectors
  when there is more than one batch. \<open>base\<close> is the number of nodes emplaced before.
\<close>

definition collectors :: "nat \<Rightarrow> nat" where
  "collectors nb = (if 1 < nb then nb else 0)"

definition fan_target :: "node_id \<Rightarrow> node_id \<Rightarrow> nat \<Rightarrow> nat \<Rightarrow> nat \<Rightarrow> node_id" where
  "fan_target dst base nb d i = (if 1 < nb then base + min (i div d) (nb - 1) else dst)"

definition fan :: "node_id \<Rightarrow> node_id \<Rightarrow> node_id \<Rightarrow> nat \<Rightarrow> nat \<Rightarrow> nat \<Rightarrow> (nat \<Rightarrow> 'u \<Rightarrow> 'u) \<Rightarrow> 'u shape_op list" where
  "fan src dst base nb d t f =
     concat (map (\<lambda>b. [Node id, Edge (base + b) dst]) [0..<collectors nb])
     @ concat (map (\<lambda>i. [Node (f i), Edge src (base + collectors nb + i), Edge (base + collectors nb + i) (fan_target dst base nb d i)]) [0..<t])"

definition fan_fits :: "nat \<Rightarrow> nat \<Rightarrow> nat \<Rightarrow> bool" where
  "fan_fits nb d t \<longleftrightarrow> (if 1 < nb then 0 < d \<and> nb \<le> 65535 \<and> d \<le> 65535 \<and> t - (nb - 1) * d \<le> 65535 else t \<le> 65535)"

lemma fan_works: "works (fan src dst base nb d t f) = replicate (collectors nb) id @ map f [0..<t]"
proof -
  have "works (concat (map (\<lambda>b. [Node (id :: 'a \<Rightarrow> 'a), Edge (h b) dst]) bs)) = replicate (length bs) id" for h and bs :: "nat list"
    by (induction bs) simp_all
  moreover have "works (concat (map (\<lambda>i. [Node (f i), Edge src (p i), Edge (p i) (q i)]) is)) = map f is" for p q and "is" :: "nat list"
    by (induction "is") simp_all
  ultimately show ?thesis by (simp add: fan_def)
qed

lemma fan_edges:
  "edges (fan src dst base nb d t f) = map (\<lambda>b. (base + b, dst)) [0..<collectors nb]
    @ concat (map (\<lambda>i. [(src, base + collectors nb + i), (base + collectors nb + i, fan_target dst base nb d i)]) [0..<t])"
proof -
  have "edges (concat (map (\<lambda>b. [Node (id :: 'a \<Rightarrow> 'a), Edge (h b) dst]) bs)) = map (\<lambda>b. (h b, dst)) bs" for h and bs :: "nat list"
    by (induction bs) simp_all
  moreover have "edges (concat (map (\<lambda>i. [Node (f i), Edge src (p i), Edge (p i) (q i)]) is)) = concat (map (\<lambda>i. [(src, p i), (p i, q i)]) is)"
    for p q and "is" :: "nat list" by (induction "is") simp_all
  ultimately show ?thesis by (simp add: fan_def)
qed

lemma shape_from_blocks:
  assumes "\<And>i. i < n \<Longrightarrow> length (works (h i)) = l" and "\<And>i. i < n \<Longrightarrow> shape_from rank (k + i * l) (h i)"
  shows "shape_from rank k (concat (map h [0..<n])) \<and> length (works (concat (map h [0..<n]))) = n * l"
  using assms by (induction n) (simp_all add: add.commute)

lemma fan_shape:
  assumes "src < base" and "dst < base" and "rank src < rank dst"
    and "\<And>i. i < t \<Longrightarrow> rank src < rank (base + collectors nb + i) \<and> rank (base + collectors nb + i) < rank (fan_target dst base nb d i)"
    and "\<And>b. b < collectors nb \<Longrightarrow> rank (base + b) < rank dst"
  shows "shape_from rank base (fan src dst base nb d t f)"
proof -
  let ?c = "collectors nb"
  have dest: "fan_target dst base nb d i < Suc (base + ?c + i)" for i
    using assms(2) by (auto simp: fan_target_def collectors_def min_def)
  have "shape_from rank base (concat (map (\<lambda>b. [Node (id :: 'a \<Rightarrow> 'a), Edge (base + b) dst]) [0..<?c]))
      \<and> length (works (concat (map (\<lambda>b. [Node (id :: 'a \<Rightarrow> 'a), Edge (base + b) dst]) [0..<?c]))) = ?c * 1"
    using assms(2,5) by (intro shape_from_blocks) auto
  moreover have "shape_from rank (base + ?c) (concat (map (\<lambda>i. [Node (f i), Edge src (base + ?c + i),
      Edge (base + ?c + i) (fan_target dst base nb d i)]) [0..<t]))
      \<and> length (works (concat (map (\<lambda>i. [Node (f i), Edge src (base + ?c + i), Edge (base + ?c + i) (fan_target dst base nb d i)]) [0..<t]))) = t * 1"
    using assms(1,4) dest by (intro shape_from_blocks) (auto simp: less_Suc_eq_le trans_le_add1)
  ultimately show ?thesis by (simp add: fan_def)
qed

text \<open>How often a node is the target of an edge of a fan.\<close>

lemma count_list_map_upt: "count_list (map h [0..<n]) v = card {i. i < n \<and> h i = v}" for h :: "nat \<Rightarrow> nat"
proof -
  have "count_list (map h [0..<n]) v = length (filter ((=) v) (map h [0..<n]))" by (rule count_list_eq_length_filter)
  also have "\<dots> = card {i. i < n \<and> h i = v}"
    unfolding length_filter_conv_card by (rule arg_cong [of _ _ card]) auto
  finally show ?thesis .
qed

lemma fan_targets:
  "count_list (map snd (edges (fan src dst base nb d t f))) v =
     (if v = dst then collectors nb else 0) + card {i. i < t \<and> base + collectors nb + i = v} + card {i. i < t \<and> fan_target dst base nb d i = v}"
proof -
  have "count_list (map snd (concat (map (\<lambda>i. [(src, p i), (p i, q i)]) is))) v = count_list (map p is) v + count_list (map q is) v"
    for p q :: "nat \<Rightarrow> nat" and "is" by (induction "is") auto
  moreover have "count_list (map snd (map (\<lambda>b. (base + b, dst)) bs)) v = (if v = dst then length bs else 0)" for bs :: "nat list"
    by (induction bs) auto
  ultimately show ?thesis by (simp add: fan_edges count_list_map_upt)
qed

lemma batch_card:
  fixes d :: nat
  assumes "0 < d" and "1 < nb"
  shows "card {i. i < t \<and> min (i div d) (nb - 1) = b} \<le> max d (t - (nb - 1) * d)"
proof (cases "b < nb - 1")
  case True
  then have "{i. i < t \<and> min (i div d) (nb - 1) = b} \<subseteq> {b * d..<b * d + d}"
    using assms(1) by (auto simp: min_def dividend_less_div_times div_times_less_eq_dividend split: if_splits)
      (metis add.commute dividend_less_div_times)
  then have "card {i. i < t \<and> min (i div d) (nb - 1) = b} \<le> card {b * d..<b * d + d}" by (intro card_mono) simp_all
  then show ?thesis by simp
next
  case False
  have "{i. i < t \<and> min (i div d) (nb - 1) = b} \<subseteq> {(nb - 1) * d..<t}"
  proof
    fix i assume "i \<in> {i. i < t \<and> min (i div d) (nb - 1) = b}"
    then have "i < t" "nb - 1 \<le> i div d" using False by auto
    moreover from this have "(nb - 1) * d \<le> i" using div_times_less_eq_dividend le_trans mult_le_mono1 by blast
    ultimately show "i \<in> {(nb - 1) * d..<t}" by simp
  qed
  then have "card {i. i < t \<and> min (i div d) (nb - 1) = b} \<le> card {(nb - 1) * d..<t}" by (intro card_mono) simp_all
  then show ?thesis by simp
qed

lemma fan_targets_bound:
  assumes fits: "fan_fits nb d t" and "dst < base"
  shows "count_list (map snd (edges (fan src dst base nb d t f))) v \<le> 65535"
    and "v \<noteq> dst \<Longrightarrow> v < base \<or> base + collectors nb + t \<le> v \<Longrightarrow> count_list (map snd (edges (fan src dst base nb d t f))) v = 0"
proof -
  let ?c = "collectors nb"
  have one: "card {i. i < t \<and> base + ?c + i = v} \<le> (if base + ?c \<le> v \<and> v < base + ?c + t then 1 else 0)"
  proof (cases "base + ?c \<le> v \<and> v < base + ?c + t")
    case True
    moreover have "card {i. i < t \<and> base + ?c + i = v} \<le> 1" by (simp add: card_le_Suc0_iff_eq)
    ultimately show ?thesis by simp
  next
    case False
    then have none: "{i. i < t \<and> base + ?c + i = v} = {}" by auto
    show ?thesis unfolding none by simp
  qed
  have into: "card {i. i < t \<and> fan_target dst base nb d i = v}
      \<le> (if 1 < nb then (if base \<le> v \<and> v < base + ?c then 65535 else 0) else if v = dst then t else 0)"
  proof (cases "1 < nb")
    case True
    show ?thesis
    proof (cases "base \<le> v \<and> v < base + ?c")
      case in_range: True
      then have eq: "{i. i < t \<and> fan_target dst base nb d i = v} = {i. i < t \<and> min (i div d) (nb - 1) = v - base}"
        using True by (auto simp: fan_target_def)
      have "0 < d" "max d (t - (nb - 1) * d) \<le> 65535" using fits True by (simp_all add: fan_fits_def)
      from le_trans [OF batch_card [OF this(1) True] this(2)] show ?thesis unfolding eq using True in_range by simp
    next
      case False
      then have none: "{i. i < t \<and> fan_target dst base nb d i = v} = {}" using True by (auto simp: fan_target_def collectors_def)
      show ?thesis unfolding none by simp
    qed
  next
    case False
    then have all: "{i. i < t \<and> fan_target dst base nb d i = v} = (if v = dst then {..<t} else {})" by (auto simp: fan_target_def)
    show ?thesis unfolding all using False by simp
  qed
  have c: "1 < nb \<Longrightarrow> ?c \<le> 65535" "\<not> 1 < nb \<Longrightarrow> ?c = 0 \<and> t \<le> 65535" using fits by (simp_all add: collectors_def fan_fits_def)
  define A where "A = card {i. i < t \<and> base + ?c + i = v}"
  define B where "B = card {i. i < t \<and> fan_target dst base nb d i = v}"
  note AB = A_def [symmetric] B_def [symmetric]
  show "count_list (map snd (edges (fan src dst base nb d t f))) v \<le> 65535"
    unfolding fan_targets using one into c assms(2) unfolding AB by (auto split: if_splits)
  show "count_list (map snd (edges (fan src dst base nb d t f))) v = 0" if "v \<noteq> dst" "v < base \<or> base + ?c + t \<le> v"
    unfolding fan_targets using one into that unfolding AB by (auto split: if_splits)
qed

section \<open>The sweep\<close>

text \<open>A leaf's callable: \<open>fetch_add\<close> on the sink when the test allows it. Barriers leave the sink alone.\<close>

definition tick :: "bool \<Rightarrow> u64 \<Rightarrow> u64" where
  "tick b sink = (if b then sink + 1 else sink)"

definition leaf :: "bool \<Rightarrow> (nat \<Rightarrow> bool) \<Rightarrow> nat \<Rightarrow> u64 \<Rightarrow> u64" where
  "leaf isCull runClusterCull i = (if isCull then tick (runClusterCull i) else tick True)"

definition wave_batches :: "nat \<Rightarrow> nat" where
  "wave_batches taskCount = (if 100000 \<le> taskCount then max 10 (taskCount div 10000) else 1)"

definition batch_div :: "nat \<Rightarrow> nat \<Rightarrow> nat" where
  "batch_div tasks numBatches = (if 1 < numBatches then tasks div numBatches else 1)"

text \<open>Node 0 is the root and node 1 the join.\<close>

definition wavefront_ops :: "bool \<Rightarrow> (nat \<Rightarrow> bool) \<Rightarrow> nat \<Rightarrow> u64 shape_op list" where
  "wavefront_ops isCull vis taskCount =
     (let numBatches = wave_batches taskCount
      in [Node id, Node id] @ fan 0 1 2 numBatches (batch_div taskCount numBatches) taskCount (leaf isCull vis))"

definition sweep_wavefront_lf :: "bool \<Rightarrow> (nat \<Rightarrow> bool) \<Rightarrow> nat \<Rightarrow> u64 engine" where
  "sweep_wavefront_lf isCull vis taskCount = lf_build 0 (wavefront_ops isCull vis taskCount)"

definition sweep_wavefront_classic :: "bool \<Rightarrow> (nat \<Rightarrow> bool) \<Rightarrow> nat \<Rightarrow> u64 classic_graph" where
  "sweep_wavefront_classic isCull vis taskCount = classic_build (wavefront_ops isCull vis taskCount)"

definition NUM_STAGES :: nat where
  "NUM_STAGES = 10"

definition stage_tasks :: "nat \<Rightarrow> nat" where
  "stage_tasks taskCount = max 1 (taskCount div NUM_STAGES)"

definition stage_batches :: "nat \<Rightarrow> nat" where
  "stage_batches tasksPerStage = (if 30000 \<le> tasksPerStage then max 4 (tasksPerStage div 10000) else 1)"

text \<open>The barriers are the nodes \<open>0 ... NUM_STAGES\<close>; \<open>currentIdx\<close> counts the tasks of all stages.\<close>

definition pipeline_ops :: "bool \<Rightarrow> (nat \<Rightarrow> bool) \<Rightarrow> nat \<Rightarrow> u64 shape_op list" where
  "pipeline_ops isCull vis taskCount =
     (let tasksPerStage = stage_tasks taskCount; numBatches = stage_batches tasksPerStage;
          stageNodes = collectors numBatches + tasksPerStage
      in replicate (NUM_STAGES + 1) (Node id)
         @ concat (map (\<lambda>s. fan s (s + 1) (NUM_STAGES + 1 + s * stageNodes) numBatches (batch_div tasksPerStage numBatches) tasksPerStage
             (\<lambda>i. leaf isCull vis (s * tasksPerStage + i))) [0..<NUM_STAGES]))"

definition sweep_pipeline_lf :: "bool \<Rightarrow> (nat \<Rightarrow> bool) \<Rightarrow> nat \<Rightarrow> u64 engine" where
  "sweep_pipeline_lf isCull vis taskCount = lf_build 0 (pipeline_ops isCull vis taskCount)"

definition sweep_pipeline_classic :: "bool \<Rightarrow> (nat \<Rightarrow> bool) \<Rightarrow> nat \<Rightarrow> u64 classic_graph" where
  "sweep_pipeline_classic isCull vis taskCount = classic_build (pipeline_ops isCull vis taskCount)"

section \<open>What the sinks count\<close>

lemma tick_id: "id = tick False"
  by (simp add: tick_def fun_eq_iff)

lemma leaf_tick: "leaf isCull vis i = tick (isCull \<longrightarrow> vis i)"
  by (simp add: leaf_def)

lemma ticks_commute: "commuting (map tick bs)"
  by (auto simp: commuting_def tick_def fun_eq_iff)

lemma fold_ticks: "fold (\<lambda>f. f) (map tick bs) u = u + of_nat (count_list bs True)"
  by (induction bs arbitrary: u) (simp_all add: tick_def)

lemma count_list_map_bool: "count_list (map p [0..<n]) True = card {i. i < n \<and> p i}"
proof -
  have "count_list (map p [0..<n]) True = length (filter ((=) True) (map p [0..<n]))" by (rule count_list_eq_length_filter)
  also have "\<dots> = card {i. i < n \<and> p i}"
    unfolding length_filter_conv_card by (rule arg_cong [of _ _ card]) auto
  finally show ?thesis .
qed

lemma concat_upt: "concat (map (\<lambda>s. map (\<lambda>i. h (s * t + i)) [0..<t]) [0..<n]) = map h [0..<n * t]"
proof (induction n)
  case (Suc n)
  have "map (\<lambda>i. h (n * t + i)) [0..<t] = map h [n * t..<n * t + t]"
    by (rule nth_equalityI) simp_all
  moreover have "[0..<n * t] @ [n * t..<n * t + t] = [0..<Suc n * t]"
    using upt_add_eq_append [of 0 "n * t" t] by (simp add: add.commute)
  ultimately have "map h [0..<n * t] @ map (\<lambda>i. h (n * t + i)) [0..<t] = map h [0..<Suc n * t]" by (metis map_append)
  then show ?case using Suc by simp
qed simp

lemma wavefront_works:
  "works (wavefront_ops isCull vis n) = map tick (replicate (2 + collectors (wave_batches n)) False @ map (\<lambda>i. isCull \<longrightarrow> vis i) [0..<n])"
  by (simp add: wavefront_ops_def Let_def fan_works tick_id leaf_tick comp_def del: id_apply)

lemma works_concat: "works (concat (map h ss)) = concat (map (\<lambda>s. works (h s)) ss)"
  by (induction ss) simp_all

lemma edges_concat: "edges (concat (map h ss)) = concat (map (\<lambda>s. edges (h s)) ss)"
  by (induction ss) simp_all

lemma edges_nodes [simp]: "edges (replicate k (Node f)) = []" "works (replicate k (Node f)) = replicate k f" "shape_from rank m (replicate k (Node f))"
  by (induction k arbitrary: m) simp_all

text \<open>The tasks of the pipeline see the indices \<open>0 ..< 10 * tasksPerStage\<close>; the rest leave the sink alone.\<close>

lemma pipeline_works:
  "\<exists>bs. works (pipeline_ops isCull vis n) = map tick bs
    \<and> count_list bs True = card {i. i < NUM_STAGES * stage_tasks n \<and> (isCull \<longrightarrow> vis i)}"
proof -
  let ?t = "stage_tasks n" and ?p = "\<lambda>i. isCull \<longrightarrow> vis i"
  let ?c = "collectors (stage_batches ?t)"
  let ?bs = "replicate (NUM_STAGES + 1) False @ concat (map (\<lambda>s. replicate ?c False @ map (\<lambda>i. ?p (s * ?t + i)) [0..<?t]) [0..<NUM_STAGES])"
  have none: "count_list (replicate k False) True = 0" for k by (induction k) simp_all
  have "count_list (concat (map (\<lambda>s. replicate ?c False @ h s) ss)) True = count_list (concat (map h ss)) True" for h and ss :: "nat list"
    by (induction ss) (simp_all add: none)
  then have "count_list ?bs True = count_list (map ?p [0..<NUM_STAGES * ?t]) True"
    using concat_upt [of ?p ?t NUM_STAGES] by (simp add: none)
  moreover have "works (pipeline_ops isCull vis n) = map tick ?bs"
    by (simp add: pipeline_ops_def Let_def fan_works works_concat tick_id leaf_tick comp_def map_concat del: id_apply)
  ultimately show ?thesis unfolding count_list_map_bool by blast
qed

text \<open>The root first, then the tasks, the collectors and the join.\<close>

definition wave_rank :: "nat \<Rightarrow> node_id \<Rightarrow> nat" where
  "wave_rank c v = (if v = 0 then 0 else if v = 1 then 3 else if v < 2 + c then 2 else 1)"

lemma wavefront_fits:
  assumes "n \<le> 65535 \<or> 100000 \<le> n \<and> n \<le> 500000000"
  shows "fan_fits (wave_batches n) (batch_div n (wave_batches n)) n" and "collectors (wave_batches n) \<le> 65535"
proof -
  show "collectors (wave_batches n) \<le> 65535" using assms by (auto simp: wave_batches_def collectors_def)
  show "fan_fits (wave_batches n) (batch_div n (wave_batches n)) n"
  proof (cases "100000 \<le> n")
    case True
    define nb where "nb = wave_batches n"
    have nb: "nb = n div 10000" "10 \<le> nb" "nb \<le> 50000" using True assms by (auto simp: nb_def wave_batches_def)
    have "n < 10000 * (nb + 1)" using nb(1) by simp
    also have "\<dots> \<le> 11000 * nb" using nb(2) by simp
    finally have d: "n div nb \<le> 11000" using less_mult_imp_div_less [of n 11000 nb] by simp
    have "n = nb * (n div nb) + n mod nb" by simp
    moreover have "(nb - 1) * (n div nb) = nb * (n div nb) - n div nb" by (simp add: diff_mult_distrib)
    moreover have "n mod nb < nb" using nb(2) by simp
    ultimately have "n - (nb - 1) * (n div nb) \<le> n div nb + nb" by linarith
    moreover have "0 < n div nb" using True nb by (simp add: div_greater_zero_iff)
    ultimately show ?thesis using nb d by (simp add: fan_fits_def batch_div_def nb_def [symmetric])
  next
    case False
    then show ?thesis using assms by (simp add: fan_fits_def wave_batches_def)
  qed
qed

lemma wavefront_shape:
  assumes "n \<le> 65535 \<or> 100000 \<le> n \<and> n \<le> 500000000"
  shows "shape_ok (wave_rank (collectors (wave_batches n))) (wavefront_ops isCull vis n)"
proof -
  let ?nb = "wave_batches n"
  let ?c = "collectors ?nb" and ?d = "batch_div n ?nb"
  note fits = wavefront_fits [OF assms]
  have dest: "fan_target 1 2 ?nb ?d i = 1 \<or> 2 \<le> fan_target 1 2 ?nb ?d i \<and> fan_target 1 2 ?nb ?d i < 2 + ?c" for i
    by (auto simp: fan_target_def collectors_def)
  have "wave_rank ?c (2 + ?c + i) < wave_rank ?c (fan_target 1 2 ?nb ?d i)" for i
    using dest [of i] by (auto simp: wave_rank_def)
  then have "shape_from (wave_rank ?c) 2 (fan 0 1 2 ?nb ?d n (leaf isCull vis))"
    by (intro fan_shape) (simp_all add: wave_rank_def)
  moreover have "count_list (map snd (edges (fan 0 1 2 ?nb ?d n (leaf isCull vis)))) t \<le> 65535" for t
    by (rule fan_targets_bound(1) [OF fits(1)]) simp
  moreover have "length (edges (fan 0 1 2 ?nb ?d n (leaf isCull vis))) = ?c + 2 * n" 
    by (simp add: fan_edges length_concat comp_def sum_list_triv)
  moreover have "length (works (wavefront_ops isCull vis n)) = 2 + ?c + n" by (simp add: wavefront_works)
  ultimately show ?thesis using fits(2) assms
    by (auto simp: shape_ok_def) (simp_all add: wavefront_ops_def Let_def numeral_2_eq_2)
qed

text \<open>The barrier of a stage, its tasks, its collectors, the next barrier.\<close>

definition stage_rank :: "nat \<Rightarrow> nat \<Rightarrow> node_id \<Rightarrow> nat" where
  "stage_rank c t v =
     (if v \<le> NUM_STAGES then 3 * v
      else let x = v - (NUM_STAGES + 1) in 3 * (x div (c + t)) + (if x mod (c + t) < c then 2 else 1))"

lemma block_div: "x < w \<Longrightarrow> (s * w + x) div w = s" "x < w \<Longrightarrow> (s * w + x) mod w = x" for s w x :: nat
  by simp_all

lemma stage_rank_node:
  assumes "x < c + t"
  shows "stage_rank c t (NUM_STAGES + 1 + s * (c + t) + x) = 3 * s + (if x < c then 2 else 1)"
proof -
  show ?thesis using block_div [OF assms, of s] by (simp add: stage_rank_def Let_def)
qed

lemma stage_fits:
  assumes "1 \<le> t" and "t \<le> 100000000"
  shows "fan_fits (stage_batches t) (batch_div t (stage_batches t)) t" and "collectors (stage_batches t) \<le> 10000"
proof -
  show "collectors (stage_batches t) \<le> 10000" using assms by (auto simp: stage_batches_def collectors_def)
  show "fan_fits (stage_batches t) (batch_div t (stage_batches t)) t"
  proof (cases "30000 \<le> t")
    case True
    define nb where "nb = stage_batches t"
    have nb: "4 \<le> nb" "nb \<le> 10000" "t div 10000 \<le> nb" "nb \<le> t" using True assms by (auto simp: nb_def stage_batches_def)
    have "t < 10000 * (nb + 1)" using nb(3) by simp
    also have "\<dots> \<le> 12500 * nb" using nb(1) by simp
    finally have d: "t div nb \<le> 12500" using less_mult_imp_div_less [of t 12500 nb] by simp
    have "t = nb * (t div nb) + t mod nb" by simp
    moreover have "(nb - 1) * (t div nb) = nb * (t div nb) - t div nb" by (simp add: diff_mult_distrib)
    moreover have "t mod nb < nb" using nb(1) by simp
    ultimately have "t - (nb - 1) * (t div nb) \<le> t div nb + nb" by linarith
    moreover have "0 < t div nb" using nb by (simp add: div_greater_zero_iff)
    ultimately show ?thesis using nb d by (simp add: fan_fits_def batch_div_def nb_def [symmetric])
  next
    case False
    then show ?thesis by (simp add: fan_fits_def stage_batches_def)
  qed
qed

lemma sum_list_one:
  assumes "\<And>s. s < n \<Longrightarrow> s \<noteq> z \<Longrightarrow> h s = (0 :: nat)" and "z < n \<Longrightarrow> h z \<le> b"
  shows "sum_list (map h [0..<n]) \<le> b"
proof -
  have "sum_list (map h [0..<n]) = (\<Sum>s < n. h s)" by (simp add: interv_sum_list_conv_sum_set_nat lessThan_atLeast0)
  also have "\<dots> = (\<Sum>s \<in> {..<n} \<inter> {z}. h s)" using assms(1) by (intro sum.mono_neutral_right) auto
  also have "\<dots> \<le> b" using assms(2) by (cases "z < n") simp_all
  finally show ?thesis .
qed

lemma pipeline_shape:
  assumes "n \<le> 1000000000"
  shows "shape_ok (stage_rank (collectors (stage_batches (stage_tasks n))) (stage_tasks n)) (pipeline_ops isCull vis n)"
proof -
  define t where "t = stage_tasks n"
  define nb where "nb = stage_batches t"
  define c where "c = collectors nb"
  define stage where "stage = (\<lambda>s. fan s (s + 1) (NUM_STAGES + 1 + s * (c + t)) nb (batch_div t nb) t (\<lambda>i. leaf isCull vis (s * t + i)))"
  have ops: "pipeline_ops isCull vis n = replicate (NUM_STAGES + 1) (Node id) @ concat (map stage [0..<NUM_STAGES])"
    by (simp add: pipeline_ops_def Let_def stage_def t_def nb_def c_def)
  have t: "1 \<le> t" "t \<le> 100000000" using assms by (auto simp: t_def stage_tasks_def NUM_STAGES_def)
  have fits: "fan_fits nb (batch_div t nb) t" "c \<le> 10000" unfolding c_def nb_def by (rule stage_fits [OF t])+
  have len: "length (works (stage s)) = c + t" for s by (simp add: stage_def fan_works c_def)
  have el: "length (edges (stage s)) = c + 2 * t" for s
    by (simp add: stage_def fan_edges c_def length_concat comp_def sum_list_triv)
  have sh: "shape_from (stage_rank c t) (NUM_STAGES + 1 + s * (c + t)) (stage s)" if s: "s < NUM_STAGES" for s
    unfolding stage_def
  proof (rule fan_shape)
    have r: "stage_rank c t s = 3 * s" "stage_rank c t (s + 1) = 3 * s + 3" using s by (simp_all add: stage_rank_def)
    then show "stage_rank c t s < stage_rank c t (s + 1)" by simp
    show "s < NUM_STAGES + 1 + s * (c + t)" "s + 1 < NUM_STAGES + 1 + s * (c + t)" using s by simp_all
    have coll: "stage_rank c t (NUM_STAGES + 1 + s * (c + t) + b) = 3 * s + 2" if "b < c" for b
      using stage_rank_node [of b c t s] that by simp
    then show "stage_rank c t (NUM_STAGES + 1 + s * (c + t) + b) < stage_rank c t (s + 1)" if "b < collectors nb" for b
      using that r(2) by (simp add: c_def)
    fix i assume i: "i < t"
    have "stage_rank c t (NUM_STAGES + 1 + s * (c + t) + (c + i)) = 3 * s + 1"
      using stage_rank_node [of "c + i" c t s] i by simp
    moreover have "3 * s + 1 < stage_rank c t (fan_target (s + 1) (NUM_STAGES + 1 + s * (c + t)) nb (batch_div t nb) i)"
    proof (cases "1 < nb")
      case True
      then have "min (i div batch_div t nb) (nb - 1) < c" by (simp add: c_def collectors_def)
      from coll [OF this] show ?thesis using True by (simp add: fan_target_def)
    next
      case False
      then show ?thesis using r(2) by (simp add: fan_target_def)
    qed
    ultimately show "stage_rank c t s < stage_rank c t (NUM_STAGES + 1 + s * (c + t) + collectors nb + i)
        \<and> stage_rank c t (NUM_STAGES + 1 + s * (c + t) + collectors nb + i)
          < stage_rank c t (fan_target (s + 1) (NUM_STAGES + 1 + s * (c + t)) nb (batch_div t nb) i)"
      using r(1) by (simp add: c_def [symmetric] add.assoc)
  qed
  have "shape_from (stage_rank c t) (NUM_STAGES + 1) (concat (map stage [0..<NUM_STAGES]))
      \<and> length (works (concat (map stage [0..<NUM_STAGES]))) = NUM_STAGES * (c + t)"
    by (intro shape_from_blocks len sh)
  moreover have "length (edges (concat (map stage [0..<NUM_STAGES]))) = NUM_STAGES * (c + 2 * t)"
    by (simp add: edges_concat length_concat comp_def el sum_list_triv)
  moreover have "count_list (map snd (edges (concat (map stage [0..<NUM_STAGES])))) v \<le> 65535" for v
  proof -
    define z where "z = (if v \<le> NUM_STAGES then v - 1 else (v - (NUM_STAGES + 1)) div (c + t))"
    have cat: "count_list (map snd (edges (concat (map stage ss)))) v = sum_list (map (\<lambda>s. count_list (map snd (edges (stage s))) v) ss)" for ss
      by (induction ss) simp_all
    have "count_list (map snd (edges (stage s))) v = 0" if s: "s < NUM_STAGES" "s \<noteq> z" for s
      unfolding stage_def
    proof (rule fan_targets_bound(2) [OF fits(1)])
      show "s + 1 < NUM_STAGES + 1 + s * (c + t)" using s by simp
      show "v \<noteq> s + 1" using s by (auto simp: z_def)
      show "v < NUM_STAGES + 1 + s * (c + t) \<or> NUM_STAGES + 1 + s * (c + t) + collectors nb + t \<le> v"
      proof (rule ccontr)
        assume a: "\<not> ?thesis"
        then obtain x where x: "v = NUM_STAGES + 1 + s * (c + t) + x" "x < c + t"
          using le_Suc_ex [of "NUM_STAGES + 1 + s * (c + t)" v] by (auto simp: c_def)
        then have "(v - (NUM_STAGES + 1)) div (c + t) = s" using block_div(1) [OF x(2), of s] by simp
        then show False using s x(1) by (simp add: z_def)
      qed
    qed
    moreover have "count_list (map snd (edges (stage z))) v \<le> 65535" if "z < NUM_STAGES"
      unfolding stage_def using that by (intro fan_targets_bound(1) [OF fits(1)]) simp
    ultimately show ?thesis unfolding cat
      by (intro sum_list_one [of _ z])
  qed
  ultimately have "shape_ok (stage_rank c t) (pipeline_ops isCull vis n)"
    unfolding shape_ok_def ops using t(2) fits(2) by (simp add: NUM_STAGES_def)
  then show ?thesis by (simp add: c_def nb_def t_def)
qed

section \<open>The comparison tool\<close>

text \<open>
  The wavefront and the frame loop: a root, \<open>TASK_COUNT - 2\<close> leaves, a join; each counts. The edges into the
  join come after all nodes.
\<close>

definition fan_in_out_ops :: "nat \<Rightarrow> u64 shape_op list" where
  "fan_in_out_ops TASK_COUNT =
     Node (tick True) # concat (map (\<lambda>i. [Node (tick True), Edge 0 (1 + i)]) [0..<TASK_COUNT - 2])
     @ Node (tick True) # map (\<lambda>i. Edge (1 + i) (TASK_COUNT - 2 + 1)) [0..<TASK_COUNT - 2]"

text \<open>The pipeline: all tasks, then one barrier between any two stages.\<close>

definition stage_barrier_ops :: "nat \<Rightarrow> nat \<Rightarrow> u64 shape_op list" where
  "stage_barrier_ops STAGES TASKS_PER_STAGE =
     concat (map (\<lambda>s. map (\<lambda>t. Node (tick True)) [0..<TASKS_PER_STAGE]) [0..<STAGES])
     @ concat (map (\<lambda>s. let barrier = STAGES * TASKS_PER_STAGE + s in
         Node id # map (\<lambda>t. Edge (s * TASKS_PER_STAGE + t) barrier) [0..<TASKS_PER_STAGE]
           @ map (\<lambda>t. Edge barrier (Suc s * TASKS_PER_STAGE + t)) [0..<TASKS_PER_STAGE]) [0..<STAGES - 1])"

lemma map_edges [simp]:
  "edges (map (\<lambda>i. Edge (p i) (q i)) is) = map (\<lambda>i. (p i, q i)) is" "works (map (\<lambda>i. Edge (p i) (q i)) is) = []"
  "shape_from rank k (map (\<lambda>i. Edge (p i) (q i)) is) \<longleftrightarrow> (\<forall>i \<in> set is. p i < k \<and> q i < k \<and> rank (p i) < rank (q i))"
  "edges (map (\<lambda>i. Node (f i)) is) = []" "works (map (\<lambda>i. Node (f i)) is) = map f is" "shape_from rank k (map (\<lambda>i. Node (f i)) is)"
  by (induction "is" arbitrary: k) auto

lemma fan_in_out_parts:
  "works (fan_in_out_ops N) = map tick (replicate (N - 2 + 2) True)"
  "edges (fan_in_out_ops N) = map (\<lambda>i. (0, 1 + i)) [0..<N - 2] @ map (\<lambda>i. (1 + i, N - 2 + 1)) [0..<N - 2]"
proof -
  have w: "works (concat (map (\<lambda>i. [Node (tick True), Edge 0 (1 + i)]) is)) = replicate (length is) (tick True)"
    and e: "edges (concat (map (\<lambda>i. [Node (tick True), Edge 0 (1 + i)]) is)) = map (\<lambda>i. (0, 1 + i)) is" for "is"
    by (induction "is") simp_all
  show "works (fan_in_out_ops N) = map tick (replicate (N - 2 + 2) True)"
    by (simp add: fan_in_out_ops_def w [simplified] replicate_append_same [symmetric])
  show "edges (fan_in_out_ops N) = map (\<lambda>i. (0, 1 + i)) [0..<N - 2] @ map (\<lambda>i. (1 + i, N - 2 + 1)) [0..<N - 2]"
    by (simp add: fan_in_out_ops_def e [simplified])
qed

lemma count_list_inj: "inj q \<Longrightarrow> count_list (map q [0..<n]) v \<le> 1" for q :: "nat \<Rightarrow> nat"
  unfolding count_list_map_upt by (auto simp: card_le_Suc0_iff_eq inj_def)

lemma count_list_const: "count_list (map (\<lambda>i. q) is) v = (if v = q then length is else 0)"
  by (induction "is") auto

lemma fan_in_out_shape:
  assumes "N \<le> 65535"
  shows "shape_ok (\<lambda>v. if v = 0 then 0 else if v < N - 2 + 1 then 1 else 2) (fan_in_out_ops N)"
proof -
  let ?n = "N - 2" let ?rank = "\<lambda>v. if v = 0 then 0 else if v < ?n + 1 then 1 else 2 :: nat"
  have leaves: "shape_from ?rank 1 (concat (map (\<lambda>i. [Node (tick True), Edge 0 (1 + i)]) [0..<?n]))
      \<and> length (works (concat (map (\<lambda>i. [Node (tick True), Edge 0 (1 + i)]) [0..<?n]))) = ?n * 1"
    by (intro shape_from_blocks) simp_all
  have "shape_from ?rank 0 (fan_in_out_ops N)"
    unfolding fan_in_out_ops_def using leaves by simp
  moreover have "count_list (map snd (edges (fan_in_out_ops N))) v \<le> 65535" for v
  proof -
    have "count_list (map (\<lambda>i. 1 + i) [0..<?n]) v \<le> (if v < ?n + 1 then 1 else 0)"
      using count_list_inj [of "\<lambda>i. 1 + i" ?n v] by (auto simp: inj_def count_list_0_iff)
    moreover have "?n \<le> 65535" using assms by simp
    ultimately show ?thesis by (simp add: fan_in_out_parts comp_def count_list_const split: if_splits)
  qed
  moreover have n: "?n \<le> 65535" using assms by simp
  moreover have "?n + ?n < 2 ^ 32" "?n + 2 < 2 ^ 32" using n by simp_all
  ultimately show ?thesis by (simp add: shape_ok_def fan_in_out_parts)
qed

lemma stage_barrier_parts:
  "works (stage_barrier_ops S T) = map tick (replicate (S * T) True @ replicate (S - 1) False)"
  "edges (stage_barrier_ops S T) = concat (map (\<lambda>s. map (\<lambda>t. (s * T + t, S * T + s)) [0..<T] @ map (\<lambda>t. (S * T + s, Suc s * T + t)) [0..<T]) [0..<S - 1])"
proof -
  have "concat (replicate S (replicate T x)) = replicate (S * T) x" for x :: "u64 shape_op"
    by (induction S) (simp_all add: replicate_add)
  then show "works (stage_barrier_ops S T) = map tick (replicate (S * T) True @ replicate (S - 1) False)"
    by (simp add: stage_barrier_ops_def works_concat Let_def map_replicate_const tick_id del: id_apply)
  show "edges (stage_barrier_ops S T) = concat (map (\<lambda>s. map (\<lambda>t. (s * T + t, S * T + s)) [0..<T] @ map (\<lambda>t. (S * T + s, Suc s * T + t)) [0..<T]) [0..<S - 1])"
    by (simp add: stage_barrier_ops_def edges_concat Let_def)
qed

definition barrier_rank :: "nat \<Rightarrow> nat \<Rightarrow> node_id \<Rightarrow> nat" where
  "barrier_rank S T v = (if v < S * T then 2 * (v div T) else 2 * (v - S * T) + 1)"

lemma stage_barrier_shape:
  assumes "T \<le> 65535" and "S \<le> 1000"
  shows "shape_ok (barrier_rank S T) (stage_barrier_ops S T)"
proof -
  let ?r = "barrier_rank S T"
  define bar where "bar = (\<lambda>s. Node (id :: u64 \<Rightarrow> u64) # map (\<lambda>t. Edge (s * T + t) (S * T + s)) [0..<T]
      @ map (\<lambda>t. Edge (S * T + s) (Suc s * T + t)) [0..<T])"
  have le: "s * T + t < S * T" if "s < S" "t < T" for s t
  proof -
    have "Suc s * T \<le> S * T" using that(1) by (intro mult_le_mono1) simp
    then show ?thesis using that(2) by simp
  qed
  have task: "?r (s * T + t) = 2 * s" if "s < S" "t < T" for s t
    using le [OF that] block_div(1) [OF that(2), of s] by (simp add: barrier_rank_def)
  have sh: "shape_from ?r (S * T + s * 1) (bar s)" if "s < S - 1" for s
  proof -
    have s: "s < S" "Suc s < S" using that by simp_all
    have "?r (S * T + s) = 2 * s + 1" by (simp add: barrier_rank_def)
    moreover have "?r (s * T + t) = 2 * s" "s * T + t < S * T + s + 1" if "t < T" for t
      using task [OF s(1) that] le [OF s(1) that] by simp_all
    moreover have "?r (Suc s * T + t) = 2 * Suc s" "Suc s * T + t < S * T + s + 1" if "t < T" for t
      using task [OF s(2) that] le [OF s(2) that] by simp_all
    ultimately show ?thesis by (simp add: bar_def del: mult_Suc)
  qed
  have ops: "stage_barrier_ops S T = concat (map (\<lambda>s. map (\<lambda>t. Node (tick True)) [0..<T]) [0..<S]) @ concat (map bar [0..<S - 1])"
    by (simp add: stage_barrier_ops_def bar_def Let_def)
  have "shape_from ?r 0 (concat (map (\<lambda>s. map (\<lambda>t. Node (tick True)) [0..<T]) [0..<S]))
      \<and> length (works (concat (map (\<lambda>s. map (\<lambda>t. Node (tick True)) [0..<T]) [0..<S]))) = S * T"
    by (intro shape_from_blocks) simp_all
  moreover have "shape_from ?r (S * T) (concat (map bar [0..<S - 1])) \<and> length (works (concat (map bar [0..<S - 1]))) = (S - 1) * 1"
    by (intro shape_from_blocks sh) (simp add: bar_def)
  ultimately have shape: "shape_from ?r 0 (stage_barrier_ops S T)" unfolding ops by simp
  have count: "count_list (map snd (edges (stage_barrier_ops S T))) v \<le> 65535" for v
  proof -
    define into where "into = (\<lambda>s. count_list (map snd (map (\<lambda>t. (s * T + t, S * T + s)) [0..<T] @ map (\<lambda>t. (S * T + s, Suc s * T + t)) [0..<T])) v)"
    have "count_list (map snd (concat (map h ss))) v = sum_list (map (\<lambda>s. count_list (map snd (h s)) v) ss)" for h :: "nat \<Rightarrow> (nat \<times> nat) list" and ss
      by (induction ss) simp_all
    then have cat: "count_list (map snd (edges (stage_barrier_ops S T))) v = sum_list (map into [0..<S - 1])"
      by (simp add: stage_barrier_parts(2) into_def del: mult_Suc)
    have into: "into s = (if v = S * T + s then T else 0) + count_list (map (\<lambda>t. Suc s * T + t) [0..<T]) v" for s
      by (simp add: into_def comp_def count_list_const del: mult_Suc)
    have one: "count_list (map (\<lambda>t. Suc s * T + t) [0..<T]) v \<le> 1" for s by (rule count_list_inj) (simp add: inj_def)
    have none: "count_list (map (\<lambda>t. Suc s * T + t) [0..<T]) v = 0" if "s < S - 1" "v \<ge> S * T \<or> s \<noteq> v div T - 1" for s
    proof -
      have s: "Suc s < S" using that(1) by simp
      have "v \<noteq> Suc s * T + t" if "t < T" for t
        using le [of "Suc s" t] block_div(1) [OF that, of "Suc s"] s \<open>v \<ge> S * T \<or> s \<noteq> v div T - 1\<close> that by auto
      then have "v \<notin> set (map (\<lambda>t. Suc s * T + t) [0..<T])" by (metis atLeastLessThan_iff image_iff set_map set_upt)
      then show ?thesis by (rule count_list_0_iff [THEN iffD2])
    qed
    show ?thesis unfolding cat
    proof (rule sum_list_one [of _ "if v < S * T then v div T - 1 else v - S * T"])
      fix s assume s: "s < S - 1" "s \<noteq> (if v < S * T then v div T - 1 else v - S * T)"
      then show "into s = 0" unfolding into using none [of s] by (auto split: if_splits)
    next
      assume z: "(if v < S * T then v div T - 1 else v - S * T) < S - 1"
      show "into (if v < S * T then v div T - 1 else v - S * T) \<le> 65535"
        unfolding into using assms(1) one [of "v div T - 1"] none [of "v - S * T"] z by (auto split: if_splits simp del: mult_Suc)
    qed
  qed
  have "length (edges (stage_barrier_ops S T)) = (S - 1) * (2 * T)"
    by (simp add: stage_barrier_parts(2) length_concat comp_def sum_list_triv)
  moreover have "(S - 1) * (2 * T) \<le> 1000 * (2 * 65535)" "S * T \<le> 1000 * 65535" using assms by (intro mult_le_mono; simp)+
  ultimately show ?thesis using shape count assms(2) by (simp add: shape_ok_def stage_barrier_parts(1))
qed

section \<open>Parallel loops\<close>

text \<open>
  \<open>classicParallelFor\<close> enqueues one closure per chunk: the chunk function, then the decrement that sets
  \<open>done\<close> at the last chunk. That is \<open>executeNode\<close> for a node without successors.
\<close>

definition classic_chunk :: "usize \<Rightarrow> usize \<Rightarrow> (usize \<Rightarrow> usize \<Rightarrow> 'u \<Rightarrow> 'u) \<Rightarrow> usize \<Rightarrow> 'u \<Rightarrow> 'u" where
  "classic_chunk cnt batchSize chunkFn chunkIdx =
     (let start = chunkIdx * batchSize; end = min (start + batchSize) cnt in chunkFn start end)"

definition classicParallelFor :: "nat \<Rightarrow> usize \<Rightarrow> usize \<Rightarrow> (usize \<Rightarrow> usize \<Rightarrow> 'u \<Rightarrow> 'u) \<Rightarrow> 'u \<Rightarrow> 'u classic_exec" where
  "classicParallelFor k cnt batchSize chunkFn u =
     (if cnt = 0 then classic_start k [] u
      else let batchSize = max 1 batchSize; numChunks = (cnt + batchSize - 1) div batchSize
           in classic_start k (classic_build (map (\<lambda>c. Node (classic_chunk cnt batchSize chunkFn (of_nat c))) [0..<unat numChunks])) u)"

text \<open>The sweep: a chunk counts what it sees in a local variable and adds it to the sink.\<close>

definition sweep_batch :: "nat \<Rightarrow> nat \<Rightarrow> nat" where
  "sweep_batch taskCount threadCount = max 64 (min 4096 (taskCount div (threadCount * 8)))"

definition localVisible :: "bool \<Rightarrow> (nat \<Rightarrow> bool) \<Rightarrow> usize \<Rightarrow> usize \<Rightarrow> u64" where
  "localVisible isCull runClusterCull start end =
     (if isCull then item_loop (\<lambda>i n. if runClusterCull (unat i) then n + 1 else n) start end 0 else end - start)"

definition sweep_chunk :: "bool \<Rightarrow> (nat \<Rightarrow> bool) \<Rightarrow> usize \<Rightarrow> usize \<Rightarrow> u64 \<Rightarrow> u64" where
  "sweep_chunk isCull vis start end sink = sink + localVisible isCull vis start end"

definition sweep_loop_lf :: "bool \<Rightarrow> (nat \<Rightarrow> bool) \<Rightarrow> usize \<Rightarrow> usize \<Rightarrow> u64 engine" where
  "sweep_loop_lf isCull vis taskCount batchSize =
     snd (parallelFor ''PFChunk'' taskCount batchSize (RangeFn (sweep_chunk isCull vis)) Worker Normal (TaskGraph_new 0))"

definition sweep_loop_classic :: "nat \<Rightarrow> bool \<Rightarrow> (nat \<Rightarrow> bool) \<Rightarrow> usize \<Rightarrow> usize \<Rightarrow> u64 classic_exec" where
  "sweep_loop_classic k isCull vis taskCount batchSize = classicParallelFor k taskCount batchSize (sweep_chunk isCull vis) 0"

text \<open>The comparison tool writes an array.\<close>

definition store_item :: "usize \<Rightarrow> u32 list \<Rightarrow> u32 list" where
  "store_item idx data = data[unat idx := ucast (idx * 3 + 1)]"

definition array_loop_lf :: "usize \<Rightarrow> usize \<Rightarrow> u32 list engine" where
  "array_loop_lf ITEM_COUNT BATCH_SIZE =
     snd (parallelFor '''' ITEM_COUNT BATCH_SIZE (ItemFn store_item) Worker Normal (TaskGraph_new (replicate (unat ITEM_COUNT) 0)))"

definition array_loop_classic :: "nat \<Rightarrow> usize \<Rightarrow> usize \<Rightarrow> u32 list classic_exec" where
  "array_loop_classic k ITEM_COUNT BATCH_SIZE =
     classicParallelFor k ITEM_COUNT BATCH_SIZE (item_loop store_item) (replicate (unat ITEM_COUNT) 0)"

section \<open>The loops compute the same\<close>

text \<open>Item functions that may be called in any order.\<close>

definition items_commute :: "usize \<Rightarrow> (usize \<Rightarrow> 'u \<Rightarrow> 'u) \<Rightarrow> bool" where
  "items_commute cnt f \<longleftrightarrow> (\<forall>i < unat cnt. \<forall>j < unat cnt. f (of_nat i) \<circ> f (of_nat j) = f (of_nat j) \<circ> f (of_nat i))"

lemma item_fold_perm:
  assumes "items_commute cnt f" and "mset is = mset [0..<unat cnt]"
  shows "item_fold f is u = item_fold f [0..<unat cnt] u"
proof -
  have s: "set is = {..<unat cnt}" using mset_eq_setD [OF assms(2)] by (simp add: atLeast0LessThan)
  have "fold (\<lambda>i. f (of_nat i)) is = fold (\<lambda>i. f (of_nat i)) [0..<unat cnt]"
    using assms(1) s by (intro fold_multiset_equiv [OF _ assms(2)]) (simp add: items_commute_def)
  then show ?thesis by (simp add: item_fold_def)
qed

lemma item_fold_concat: "fold (\<lambda>f. f) (map (\<lambda>c. item_fold f (h c)) cs) u = item_fold f (concat (map h cs)) u"
  by (induction cs arbitrary: u) (simp_all add: item_fold_def)

lemma lf_loop_result:
  assumes fits: "loop_fits cnt b" "unat (chunk_count_of cnt (batch_of b)) \<le> 65535" and com: "items_commute cnt f"
    and st: "par_steps (par_start k now (item_graph name cnt b f d p u)) m s" and fin: "isCompleted (p_engine s)"
  shows "user (p_engine s) = item_fold f [0..<unat cnt] u"
proof -
  let ?g = "item_graph name cnt b f d p u"
  note dag = item_graph_dag [OF fits, of name f d p u]
  note r = par_run_serial [OF dag(1) st]
  have fns: "executeFn (nodes ?g v) = RunFn (item_fold f (loop_items cnt b v)) \<and> node_type (nodes ?g v) \<noteq> Condition"
    if "v < loop_nodes cnt b" for v using dag(3) that by (simp add: runs_def)
  have log: "distinct (p_log s)" "set (p_log s) = {..<loop_nodes cnt b}" using r fin fns dag(2) by auto
  then have "mset (p_log s) = mset [0..<loop_nodes cnt b]"
    using set_eq_iff_mset_eq_distinct [of "p_log s" "[0..<loop_nodes cnt b]"] by (simp add: atLeast0LessThan)
  then have perm: "mset (concat (map (loop_items cnt b) (p_log s))) = mset [0..<unat cnt]"
    using mset_concat_perm [of "p_log s" "[0..<loop_nodes cnt b]" "loop_items cnt b"] loop_items_all [OF fits(1)] by simp
  have "\<forall>v \<in> set (p_log s). run_fn (executeFn (nodes ?g v)) = item_fold f (loop_items cnt b v)" using fns log(2) by (auto simp: run_fn_def)
  from fold_items [OF this, of u] show ?thesis using r item_fold_perm [OF com perm] by (simp add: item_graph_user)
qed

lemma classic_nodes: "classic_build (map (\<lambda>i. Node (h i)) is) = map (\<lambda>i. \<lparr>c_work = h i, c_successors = [], c_inDegree = 0, c_initialInDegree = 0\<rparr>) is"
proof -
  have "fold classic_op (map (\<lambda>i. Node (h i)) is) g = g @ map (\<lambda>i. \<lparr>c_work = h i, c_successors = [], c_inDegree = 0, c_initialInDegree = 0\<rparr>) is" for g
    by (induction "is" arbitrary: g) (simp_all add: classic_emplace_def)
  then show ?thesis by (simp add: classic_build_def)
qed

lemma max_batch: "max 1 b = batch_of b" for b :: usize
  by (simp add: batch_of_def max_def word_le_nat_alt unat_gt_0 Suc_le_eq)

lemma classic_loop_result:
  assumes fits: "loop_fits cnt b" "unat (chunk_count_of cnt (batch_of b)) \<le> 65535" and com: "items_commute cnt f" and k: "0 < k"
    and body: "\<And>i j. i \<le> j \<Longrightarrow> chunkFn i j = item_fold f [unat i..<unat j]"
    and st: "classic_steps (classicParallelFor k cnt b chunkFn u) m s" and fin: "classic_returns s"
  shows "x_user s = item_fold f [0..<unat cnt] u"
proof (cases "cnt = 0")
  case True
  then have "classic_steps (classic_start k (classic_reset []) u) m s" using st by (simp add: classicParallelFor_def classic_reset_def)
  then show ?thesis using classic_run(1) [of "[]" k u m s] k True
    by (simp add: classic_ok_def classic_wf_empty out_edges_def classic_inv_def logged_def counted_def item_fold_def)
next
  case False
  let ?m = "unat (chunk_count_of cnt (batch_of b))"
  let ?h = "\<lambda>c. classic_chunk cnt (batch_of b) chunkFn (of_nat c)" and ?items = "\<lambda>c. range_items (chunk_range_of cnt (batch_of b) 0 (of_nat c))"
  let ?ops = "map (\<lambda>c. Node (?h c)) [0..<?m]"
  have h: "?h c = item_fold f (?items c)" if c: "c < ?m" for c
  proof -
    let ?r = "chunk_range_of cnt (batch_of b) 0 (of_nat c)"
    note n = chunk_range_nat [OF fits(1) c, of 0]
    have "c * unat (batch_of b) < unat cnt" using c chunk_count_nat [OF fits(1)] chunk_start_lt batch_pos by metis
    then have "range_start ?r \<le> range_end ?r" using n by (simp add: word_le_nat_alt)
    from body [OF this] show ?thesis by (simp add: range_items_def classic_chunk_def chunk_range_of_def Let_def min.commute)
  qed
  have w: "works ?ops = map (\<lambda>c. item_fold f (?items c)) [0..<?m]" using h by simp
  have sub: "set (?items c) \<subseteq> {..<unat cnt}" if "c < ?m" for c
    using chunk_range_nat [OF fits(1) that, of 0] by (auto simp: range_items_def)
  have comm: "item_fold f xs \<circ> item_fold f ys = item_fold f ys \<circ> item_fold f xs" if "set xs \<subseteq> {..<unat cnt}" "set ys \<subseteq> {..<unat cnt}" for xs ys
  proof -
    have "fold (\<lambda>i. f (of_nat i)) (ys @ xs) = fold (\<lambda>i. f (of_nat i)) (xs @ ys)"
      using com that by (intro fold_multiset_equiv) (auto simp: items_commute_def)
    then show ?thesis by (simp add: item_fold_def fun_eq_iff)
  qed
  have "commuting (works ?ops)" unfolding w commuting_def using comm sub by auto
  moreover have "shape_ok (\<lambda>_. 0) ?ops" using fits(2) by (simp add: shape_ok_def)
  moreover have "classic_steps (classic_start k (classic_reset (classic_build ?ops)) u) m s"
    using st False by (simp add: classicParallelFor_def Let_def max_batch chunk_count_of_def classic_nodes classic_reset_def comp_def)
  ultimately have "x_user s = fold (\<lambda>f. f) (works ?ops) u" using classic_result [OF _ _ k _ fin] by blast
  then show ?thesis unfolding w item_fold_concat chunk_items_concat [OF fits(1)] .
qed

text \<open>The sweep's chunk function is the loop over the items of the chunk.\<close>

definition sweep_item :: "bool \<Rightarrow> (nat \<Rightarrow> bool) \<Rightarrow> usize \<Rightarrow> u64 \<Rightarrow> u64" where
  "sweep_item isCull vis i = tick (isCull \<longrightarrow> vis (unat i))"

lemma sweep_items_commute: "items_commute cnt (sweep_item isCull vis)"
  by (auto simp: items_commute_def sweep_item_def tick_def fun_eq_iff)

lemma sweep_fold: "item_fold (sweep_item isCull vis) is u = u + of_nat (length (filter (\<lambda>i. isCull \<longrightarrow> vis (unat (of_nat i :: usize))) is))"
  by (induction "is" arbitrary: u) (simp_all add: item_fold_def sweep_item_def tick_def)

lemma sweep_chunk_items:
  assumes "i \<le> j"
  shows "sweep_chunk isCull vis i j = item_fold (sweep_item isCull vis) [unat i..<unat j]"
proof
  fix u
  show "sweep_chunk isCull vis i j u = item_fold (sweep_item isCull vis) [unat i..<unat j] u"
  proof (cases isCull)
    case True
    have "(\<lambda>i n. if vis (unat i) then n + 1 else n) = sweep_item True vis" by (simp add: sweep_item_def tick_def fun_eq_iff)
    then have "item_loop (\<lambda>i n. if vis (unat i) then n + 1 else n) i j 0 = item_fold (sweep_item True vis) [unat i..<unat j] 0"
      by (simp add: item_loop_fold item_fold_def)
    then show ?thesis using True by (simp add: sweep_chunk_def localVisible_def sweep_fold)
  next
    case False
    have "j - i = of_nat (unat j - unat i)" using assms by (simp add: word_le_nat_alt of_nat_diff)
    then show ?thesis using False by (simp add: sweep_chunk_def localVisible_def sweep_fold)
  qed
qed

lemma build_loop_cong:
  assumes "cnt \<noteq> 0 \<Longrightarrow> m = 1 \<Longrightarrow> single = single'" and "\<And>c. c < unat m \<Longrightarrow> body (of_nat c) = body' (of_nat c)"
  shows "build_loop name cnt m single body d p g = build_loop name cnt m single' body' d p g"
proof -
  have "fold (add_chunk name d p a j body) [0..<unat m] s = fold (add_chunk name d p a j body') [0..<unat m] s" for a j s
    using assms(2) by (intro fold_cong) (simp_all add: add_chunk_def)
  then show ?thesis using assms(1) by (simp add: build_loop_def Let_def case_prod_unfold)
qed

lemma sweep_loop_items:
  assumes "loop_fits n b"
  shows "sweep_loop_lf isCull vis n b = item_graph ''PFChunk'' n b (sweep_item isCull vis) Worker Normal 0"
proof -
  let ?m = "chunk_count_of n (batch_of b)"
  have "chunk_body (RangeFn (sweep_chunk isCull vis)) (chunk_range_of n (batch_of b) ?m (of_nat c))
      = chunk_body (ItemFn (sweep_item isCull vis)) (chunk_range_of n (batch_of b) ?m (of_nat c))" if c: "c < unat ?m" for c
  proof -
    note r = chunk_range_nat [OF assms c, of ?m]
    have "c * unat (batch_of b) < unat n" using c chunk_count_nat [OF assms] chunk_start_lt batch_pos by metis
    then have "range_start (chunk_range_of n (batch_of b) ?m (of_nat c)) \<le> range_end (chunk_range_of n (batch_of b) ?m (of_nat c))"
      using r by (simp add: word_le_nat_alt)
    from sweep_chunk_items [OF this] show ?thesis by (simp add: chunk_body_item) (simp add: chunk_body_def range_items_def)
  qed
  moreover have "chunk_body (RangeFn (sweep_chunk isCull vis)) \<lparr>range_start = 0, range_end = n, chunkIndex = 0, totalChunks = 1\<rparr>
      = chunk_body (ItemFn (sweep_item isCull vis)) \<lparr>range_start = 0, range_end = n, chunkIndex = 0, totalChunks = 1\<rparr>"
    using sweep_chunk_items [of 0 n] by (simp add: chunk_body_item) (simp add: chunk_body_def range_items_def)
  ultimately show ?thesis unfolding sweep_loop_lf_def item_graph_def parallelFor_batch
    by (intro arg_cong [of _ _ snd] build_loop_cong)
qed

text \<open>The array the comparison tool writes.\<close>

lemma store_items_commute: "items_commute cnt store_item"
proof -
  have "store_item (of_nat i) (store_item (of_nat j) d) = store_item (of_nat j) (store_item (of_nat i) d)" for i j d
  proof (cases "unat (of_nat i :: usize) = unat (of_nat j :: usize)")
    case True
    then have "of_nat i = (of_nat j :: usize)" by (simp only: word_unat_eq_iff)
    then show ?thesis by (simp only:)
  next
    case False
    then show ?thesis by (simp add: store_item_def list_update_swap)
  qed
  then show ?thesis by (simp add: items_commute_def fun_eq_iff)
qed

lemma store_all: "n \<le> 2 ^ 64 \<Longrightarrow> n \<le> length d \<Longrightarrow> item_fold store_item [0..<n] d = map (\<lambda>i. ucast (of_nat i * 3 + 1 :: usize)) [0..<n] @ drop n d"
proof (induction n)
  case (Suc n)
  then have n: "unat (of_nat n :: usize) = n" by (simp add: unat_of_nat)
  have "item_fold store_item [0..<Suc n] d = store_item (of_nat n) (map (\<lambda>i. ucast (of_nat i * 3 + 1 :: usize)) [0..<n] @ drop n d)"
    using Suc by (simp add: item_fold_def)
  also have "drop n d = d ! n # drop (Suc n) d" using Suc by (simp add: Cons_nth_drop_Suc)
  finally show ?case by (simp add: store_item_def n list_update_append)
qed (simp add: item_fold_def)

section \<open>Properties\<close>

text \<open>
  C39: a workload whose callables commute gives the same final state on both engines: whatever the
  interleaving of the LightFlow workers inside \<open>execute\<close> and of the threads of the classic pool, once
  \<open>isCompleted\<close> holds here and \<open>executeAndWait\<close> returns there.
\<close>

theorem engines_agree:
  assumes "shape_ok rank ops" and "commuting (works ops)" and "0 < k"
    and "par_steps (par_start j now (lf_build u ops)) m s" and "isCompleted (p_engine s)"
    and "classic_steps (classic_start k (classic_reset (classic_build ops)) u) m' s'" and "classic_returns s'"
  shows "user (p_engine s) = x_user s'"
  using lf_result [OF assms(1,2,4,5)] classic_result [OF assms(1-3,6,7)] by simp

theorem engines_agree_witness:
  "\<exists>m s. classic_steps (classic_start 2 (classic_reset (classic_build [Node (tick True), Node (tick True), Edge 0 1])) 0) m s
    \<and> classic_returns s \<and> x_user s = 2"
proof -
  let ?ops = "[Node (tick True), Node (tick True), Edge 0 1]"
  have ok: "shape_ok id ?ops" by (simp add: shape_ok_def)
  have com: "commuting (works ?ops)" using ticks_commute [of "[True, True]"] by simp
  obtain n t where lf: "par_steps (par_start 1 0 (lf_build 0 ?ops)) n t" "isCompleted (p_engine t)"
    using par_run_exists [OF lf_build_ok(1) [OF ok] zero_less_one] by blast
  obtain m s where cl: "classic_steps (classic_start 2 (classic_reset (classic_build ?ops)) 0) m s" "classic_returns s"
    using classic_run_exists [OF classic_build_ok(1) [OF ok] zero_less_numeral] by blast
  have "user (p_engine t) = 2" using lf_result [OF ok com lf] by (simp add: tick_def)
  then have "x_user s = 2" using engines_agree [OF ok com _ lf cl] by simp
  then show ?thesis using cl by blast
qed

section \<open>The four graph workloads\<close>

text \<open>
  A graph workload of the tools, with the sizes for which no counter overflows: the sweep's sizes between 65535
  and 100000, which it does not run, would give its single join more than 65535 predecessors.
\<close>

datatype workload =
    SweepWavefront bool "nat \<Rightarrow> bool" nat
  | SweepPipeline bool "nat \<Rightarrow> bool" nat
  | FanInOut nat
  | StageBarriers nat nat

fun workload_ops :: "workload \<Rightarrow> u64 shape_op list" where
  "workload_ops (SweepWavefront isCull vis n) = wavefront_ops isCull vis n"
| "workload_ops (SweepPipeline isCull vis n) = pipeline_ops isCull vis n"
| "workload_ops (FanInOut n) = fan_in_out_ops n"
| "workload_ops (StageBarriers s t) = stage_barrier_ops s t"

fun workload_fits :: "workload \<Rightarrow> bool" where
  "workload_fits (SweepWavefront isCull vis n) \<longleftrightarrow> n \<le> 65535 \<or> 100000 \<le> n \<and> n \<le> 500000000"
| "workload_fits (SweepPipeline isCull vis n) \<longleftrightarrow> n \<le> 1000000000"
| "workload_fits (FanInOut n) \<longleftrightarrow> 2 \<le> n \<and> n \<le> 65535"
| "workload_fits (StageBarriers s t) \<longleftrightarrow> s \<le> 1000 \<and> t \<le> 65535"

text \<open>What the sink should hold at the end.\<close>

fun workload_count :: "workload \<Rightarrow> nat" where
  "workload_count (SweepWavefront isCull vis n) = card {i. i < n \<and> (isCull \<longrightarrow> vis i)}"
| "workload_count (SweepPipeline isCull vis n) = card {i. i < 10 * max 1 (n div 10) \<and> (isCull \<longrightarrow> vis i)}"
| "workload_count (FanInOut n) = n"
| "workload_count (StageBarriers s t) = s * t"

lemma count_list_replicate_bool: "count_list (replicate n b) True = (if b then n else 0)"
  by (cases b; induction n) simp_all

lemma workload_ok:
  assumes "workload_fits w"
  shows "\<exists>rank bs. shape_ok rank (workload_ops w) \<and> works (workload_ops w) = map tick bs \<and> count_list bs True = workload_count w"
proof (cases w)
  case (SweepWavefront isCull vis n)
  have "count_list (replicate (2 + collectors (wave_batches n)) False @ map (\<lambda>i. isCull \<longrightarrow> vis i) [0..<n]) True
      = card {i. i < n \<and> (isCull \<longrightarrow> vis i)}"
    by (simp only: count_list_append count_list_map_bool count_list_replicate_bool) simp
  then show ?thesis using assms wavefront_shape [of n isCull vis] wavefront_works [of isCull vis n]
    unfolding SweepWavefront workload_ops.simps workload_fits.simps workload_count.simps by blast
next
  case (SweepPipeline isCull vis n)
  then show ?thesis using assms pipeline_shape [of n isCull vis] pipeline_works [of isCull vis n]
    unfolding SweepPipeline workload_ops.simps workload_fits.simps workload_count.simps stage_tasks_def NUM_STAGES_def by blast
next
  case (FanInOut n)
  then have "2 \<le> n" using assms by simp
  then have "n - 2 + 2 = n" by arith
  then have "count_list (replicate (n - 2 + 2) True) True = n" by (simp only: count_list_replicate_bool if_True)
  then show ?thesis using assms fan_in_out_shape [of n] fan_in_out_parts(1) [of n]
    unfolding FanInOut workload_ops.simps workload_fits.simps workload_count.simps by blast
next
  case (StageBarriers s t)
  have "count_list (replicate (s * t) True @ replicate (s - 1) False) True = s * t"
    by (simp only: count_list_append count_list_replicate_bool) simp
  then show ?thesis using assms stage_barrier_shape [of t s] stage_barrier_parts(1) [of s t]
    unfolding StageBarriers workload_ops.simps workload_fits.simps workload_count.simps by blast
qed

lemma workload_sink:
  assumes "workload_fits w"
  shows "par_steps (par_start j now (lf_build 0 (workload_ops w))) m s \<Longrightarrow> isCompleted (p_engine s) \<Longrightarrow> user (p_engine s) = of_nat (workload_count w)"
    and "0 < k \<Longrightarrow> classic_steps (classic_start k (classic_reset (classic_build (workload_ops w))) 0) m t \<Longrightarrow> classic_returns t
      \<Longrightarrow> x_user t = of_nat (workload_count w)"
proof -
  obtain rank bs where w: "shape_ok rank (workload_ops w)" "works (workload_ops w) = map tick bs" "count_list bs True = workload_count w"
    using workload_ok [OF assms] by blast
  have com: "commuting (works (workload_ops w))" unfolding w(2) by (rule ticks_commute)
  show "par_steps (par_start j now (lf_build 0 (workload_ops w))) m s \<Longrightarrow> isCompleted (p_engine s) \<Longrightarrow> user (p_engine s) = of_nat (workload_count w)"
    using lf_result [OF w(1) com] by (simp add: w(2,3) fold_ticks)
  show "0 < k \<Longrightarrow> classic_steps (classic_start k (classic_reset (classic_build (workload_ops w))) 0) m t \<Longrightarrow> classic_returns t
      \<Longrightarrow> x_user t = of_nat (workload_count w)"
    using classic_result [OF w(1) com] by (simp add: w(2,3) fold_ticks)
qed

lemmas lf_sink = workload_sink(1)
lemmas classic_sink = workload_sink(2)

text \<open>
  each graph workload of the two tools leaves the same number in the sink of both engines, under
  every interleaving of their workers: the visible indices (or all, without culling) for the sweep's
  wavefront and pipeline, all tasks for the comparison's. The sink is a 64-bit word.
\<close>

theorem workload_sinks:
  assumes "workload_fits w" and "0 < k"
    and "par_steps (par_start j now (lf_build 0 (workload_ops w))) m s" and "isCompleted (p_engine s)"
    and "classic_steps (classic_start k (classic_reset (classic_build (workload_ops w))) 0) m' s'" and "classic_returns s'"
  shows "user (p_engine s) = of_nat (workload_count w) \<and> x_user s' = of_nat (workload_count w)"
  using workload_sink(1) [OF assms(1,3,4)] workload_sink(2) [OF assms(1,2,5,6)] by simp

theorem workload_sinks_witness:
  "\<exists>m s. par_steps (par_start 4 0 (lf_build 0 (workload_ops (FanInOut 50000)))) m s \<and> isCompleted (p_engine s) \<and> user (p_engine s) = 50000"
proof -
  let ?w = "FanInOut 50000"
  have fits: "workload_fits ?w" by simp
  obtain rank where ok: "shape_ok rank (workload_ops ?w)" using workload_ok [OF fits] by blast
  obtain n t where lf: "par_steps (par_start 4 0 (lf_build 0 (workload_ops ?w))) n t" "isCompleted (p_engine t)"
    using par_run_exists [OF lf_build_ok(1) [OF ok] zero_less_numeral] by blast
  obtain m s where cl: "classic_steps (classic_start 2 (classic_reset (classic_build (workload_ops ?w))) 0) m s" "classic_returns s"
    using classic_run_exists [OF classic_build_ok(1) [OF ok] zero_less_numeral] by blast
  from workload_sinks [OF fits _ lf cl] have "user (p_engine t) = 50000" by simp
  then show ?thesis using lf by blast
qed

text \<open>
  C40: a parallel loop over items that may be done in any order gives on both engines the result of the
  sequential loop, under every interleaving of the workers, for up to 65535 chunks and a rounding-up
  sum that fits in 64 bits.
\<close>

theorem loop_engines_agree:
  assumes "loop_fits cnt b" and "unat (chunk_count_of cnt (batch_of b)) \<le> 65535" and "items_commute cnt f" and "0 < k"
    and "par_steps (par_start j now (item_graph name cnt b f d p u)) m s" and "isCompleted (p_engine s)"
    and "classic_steps (classicParallelFor k cnt b (item_loop f) u) m' s'" and "classic_returns s'"
  shows "user (p_engine s) = item_fold f [0..<unat cnt] u \<and> x_user s' = item_fold f [0..<unat cnt] u"
proof -
  have "item_loop f i l = item_fold f [unat i..<unat l]" for i l by (simp add: fun_eq_iff item_loop_fold item_fold_def)
  then show ?thesis using lf_loop_result [OF assms(1-3,5,6)] classic_loop_result [OF assms(1-4) _ assms(7,8)] by simp
qed

theorem loop_engines_agree_witness:
  "\<exists>m s. par_steps (par_start 2 0 (array_loop_lf 5 2)) m s \<and> isCompleted (p_engine s) \<and> user (p_engine s) = [1, 4, 7, 10, 13]"
proof -
  have fits: "loop_fits 5 2" "unat (chunk_count_of 5 (batch_of 2)) \<le> 65535" by (simp_all add: loop_fits_def batch_of_def chunk_count_of_def)
  have graph: "array_loop_lf 5 2 = item_graph '''' 5 2 store_item Worker Normal (replicate 5 0)"
    by (simp add: array_loop_lf_def item_graph_def)
  note dag = item_graph_dag(1) [OF fits, of "''''" store_item Worker Normal "replicate 5 0"]
  obtain m s where lf: "par_steps (par_start 2 0 (item_graph '''' 5 2 store_item Worker Normal (replicate 5 0))) m s" "isCompleted (p_engine s)"
    using par_run_exists [OF dag zero_less_numeral] by blast
  let ?ops = "map (\<lambda>c. Node (classic_chunk 5 2 (item_loop store_item) (of_nat c))) [0..<3]"
  have ok: "classic_ok (classic_build ?ops)" by (rule classic_build_ok(1) [of "\<lambda>_. 0"]) (simp add: shape_ok_def)
  have "classic_reset (classic_build ?ops) = classic_build ?ops" by (simp only: classic_nodes) (simp add: classic_reset_def)
  then have start: "classicParallelFor 2 5 2 (item_loop store_item) (replicate 5 0) = classic_start 2 (classic_reset (classic_build ?ops)) (replicate 5 0)"
    by (simp add: classicParallelFor_def Let_def max_def)
  obtain m' s' where cl: "classic_steps (classicParallelFor 2 5 2 (item_loop store_item) (replicate 5 0)) m' s'" "classic_returns s'"
    unfolding start using classic_run_exists [OF ok zero_less_numeral] by blast
  have "item_fold store_item [0..<unat (5 :: usize)] (replicate 5 0) = [1, 4, 7, 10, 13]"
    using store_all [of 5 "replicate 5 0"] by (simp add: upt_rec)
  then show ?thesis using loop_engines_agree [OF fits store_items_commute _ lf cl] lf graph by auto
qed

text \<open>The sweep's loop counts every visible index once; the comparison's leaves \<open>3 * i + 1\<close> at every index.\<close>

lemma sweep_loop_sinks:
  assumes fits: "loop_fits n b" "unat (chunk_count_of n (batch_of b)) \<le> 65535" and k: "0 < k"
  shows "par_steps (par_start j now (sweep_loop_lf isCull vis n b)) m s \<Longrightarrow> isCompleted (p_engine s)
      \<Longrightarrow> user (p_engine s) = of_nat (length (filter (\<lambda>i. isCull \<longrightarrow> vis (unat (of_nat i :: usize))) [0..<unat n]))"
    and "classic_steps (sweep_loop_classic k isCull vis n b) m s' \<Longrightarrow> classic_returns s'
      \<Longrightarrow> x_user s' = of_nat (length (filter (\<lambda>i. isCull \<longrightarrow> vis (unat (of_nat i :: usize))) [0..<unat n]))"
  using lf_loop_result [OF fits sweep_items_commute] classic_loop_result [OF fits sweep_items_commute k sweep_chunk_items]
  by (simp_all add: sweep_loop_items [OF fits(1)] sweep_loop_classic_def sweep_fold)

lemma array_loop_contents:
  assumes fits: "loop_fits n b" "unat (chunk_count_of n (batch_of b)) \<le> 65535" and k: "0 < k"
  shows "par_steps (par_start j now (array_loop_lf n b)) m s \<Longrightarrow> isCompleted (p_engine s)
      \<Longrightarrow> user (p_engine s) = map (\<lambda>i. ucast (of_nat i * 3 + 1 :: usize)) [0..<unat n]"
    and "classic_steps (array_loop_classic k n b) m s' \<Longrightarrow> classic_returns s'
      \<Longrightarrow> x_user s' = map (\<lambda>i. ucast (of_nat i * 3 + 1 :: usize)) [0..<unat n]"
proof -
  have "unat n < 2 ^ 64" using unsigned_less [of n] by simp
  then have le: "unat n \<le> 2 ^ 64" by (rule less_imp_le)
  have all: "item_fold store_item [0..<unat n] (replicate (unat n) 0) = map (\<lambda>i. ucast (of_nat i * 3 + 1 :: usize)) [0..<unat n]"
    using store_all [of "unat n" "replicate (unat n) 0"] le by simp
  have body: "item_loop store_item i l = item_fold store_item [unat i..<unat l]" for i l by (simp add: fun_eq_iff item_loop_fold item_fold_def)
  show "classic_steps (array_loop_classic k n b) m s' \<Longrightarrow> classic_returns s'
      \<Longrightarrow> x_user s' = map (\<lambda>i. ucast (of_nat i * 3 + 1 :: usize)) [0..<unat n]"
    using classic_loop_result [OF fits store_items_commute k body] by (simp add: array_loop_classic_def all)
  show "par_steps (par_start j now (array_loop_lf n b)) m s \<Longrightarrow> isCompleted (p_engine s)
      \<Longrightarrow> user (p_engine s) = map (\<lambda>i. ucast (of_nat i * 3 + 1 :: usize)) [0..<unat n]"
    using lf_loop_result [OF fits store_items_commute]
    by (simp add: array_loop_lf_def item_graph_def [symmetric] all)
qed

section \<open>The sizes of the comparison\<close>

definition comparison_wavefront_lf :: "u64 engine" where
  "comparison_wavefront_lf = (let TASK_COUNT = 50000 in lf_build 0 (fan_in_out_ops TASK_COUNT))"

definition comparison_wavefront_classic :: "u64 classic_graph" where
  "comparison_wavefront_classic = (let TASK_COUNT = 50000 in classic_build (fan_in_out_ops TASK_COUNT))"

definition comparison_pipeline_lf :: "u64 engine" where
  "comparison_pipeline_lf = (let STAGES = 10; TASKS_PER_STAGE = 5000 in lf_build 0 (stage_barrier_ops STAGES TASKS_PER_STAGE))"

definition comparison_pipeline_classic :: "u64 classic_graph" where
  "comparison_pipeline_classic = (let STAGES = 10; TASKS_PER_STAGE = 5000 in classic_build (stage_barrier_ops STAGES TASKS_PER_STAGE))"

definition comparison_frame_lf :: "u64 engine" where
  "comparison_frame_lf = (let TASKS_PER_FRAME = 10000 in lf_build 0 (fan_in_out_ops TASKS_PER_FRAME))"

definition comparison_frame_classic :: "u64 classic_graph" where
  "comparison_frame_classic = (let TASKS_PER_FRAME = 10000 in classic_build (fan_in_out_ops TASKS_PER_FRAME))"

definition ITEM_COUNT :: usize where
  "ITEM_COUNT = 5000000"

definition BATCH_SIZE :: usize where
  "BATCH_SIZE = 2048"

lemma comparison_fits:
  "workload_fits (FanInOut 50000)" "workload_fits (FanInOut 10000)" "workload_fits (StageBarriers 10 5000)"
  "loop_fits ITEM_COUNT BATCH_SIZE" "unat (chunk_count_of ITEM_COUNT (batch_of BATCH_SIZE)) \<le> 65535"
  by (simp_all add: loop_fits_def batch_of_def chunk_count_of_def ITEM_COUNT_def BATCH_SIZE_def)

text \<open>So every run of the comparison counts as many tasks as it has, and writes the whole array.\<close>

lemma comparison_counts:
  assumes "0 < k"
  shows "par_steps (par_start k now comparison_wavefront_lf) m s \<Longrightarrow> isCompleted (p_engine s) \<Longrightarrow> user (p_engine s) = 50000"
    and "par_steps (par_start k now comparison_pipeline_lf) m s \<Longrightarrow> isCompleted (p_engine s) \<Longrightarrow> user (p_engine s) = 50000"
    and "par_steps (par_start k now comparison_frame_lf) m s \<Longrightarrow> isCompleted (p_engine s) \<Longrightarrow> user (p_engine s) = 10000"
    and "classic_steps (classic_start k (classic_reset comparison_wavefront_classic) 0) m t \<Longrightarrow> classic_returns t \<Longrightarrow> x_user t = 50000"
    and "classic_steps (classic_start k (classic_reset comparison_pipeline_classic) 0) m t \<Longrightarrow> classic_returns t \<Longrightarrow> x_user t = 50000"
    and "classic_steps (classic_start k (classic_reset comparison_frame_classic) 0) m t \<Longrightarrow> classic_returns t \<Longrightarrow> x_user t = 10000"
  using lf_sink [OF comparison_fits(1), of k now] lf_sink [OF comparison_fits(2), of k now] lf_sink [OF comparison_fits(3), of k now]
    classic_sink [OF comparison_fits(1) assms] classic_sink [OF comparison_fits(2) assms] classic_sink [OF comparison_fits(3) assms]
  by (simp_all add: comparison_wavefront_lf_def comparison_wavefront_classic_def comparison_pipeline_lf_def comparison_pipeline_classic_def
      comparison_frame_lf_def comparison_frame_classic_def Let_def)

end
