(* ===== verification/Bench_Support.thy ===== *)
theory Bench_Support
  imports LF_Base Complex_Main
begin

text \<open>
  What the benchmark tools use besides the engine (\<^verbatim>\<open>tools/lf_sweep_benchmark.cpp\<close>,
  \<^verbatim>\<open>tools/lf_comparison_benchmark.cpp\<close>): the allocator they install for \<^verbatim>\<open>BlockPool\<close>, the counting
  \<^verbatim>\<open>operator new\<close>, the latency statistics and the command lines. Durations are \<open>double\<close> in the tools
  and exact rationals here. \<^verbatim>\<open>mmap\<close>, \<^verbatim>\<open>malloc\<close> and \<^verbatim>\<open>sysconf\<close> are parameters.
\<close>

section \<open>The allocator\<close>

text \<open>
  The address space is the set of mapped bytes. The system works in pages: a mapping of \<open>len\<close> bytes takes
  whole pages, and \<^verbatim>\<open>munmap\<close> removes whole pages and refuses an address that is not on a page boundary or
  a length of zero.
\<close>

definition pages_at :: "nat \<Rightarrow> u64 \<Rightarrow> usize \<Rightarrow> nat set" where
  "pages_at page a len = {unat a..<unat a + (unat len + page - 1) div page * page}"

definition munmap :: "nat \<Rightarrow> u64 \<Rightarrow> usize \<Rightarrow> nat set \<Rightarrow> nat set" where
  "munmap page a len os = (if page dvd unat a \<and> len \<noteq> 0 then os - pages_at page a len else os)"

definition mmap_call :: "nat \<Rightarrow> (usize \<Rightarrow> nat set \<Rightarrow> u64 option) \<Rightarrow> usize \<Rightarrow> nat set \<Rightarrow> u64 option \<times> nat set" where
  "mmap_call page mmap len os = (case mmap len os of None \<Rightarrow> (None, os) | Some a \<Rightarrow> (Some a, os \<union> pages_at page a len))"

definition page_size_of :: "int \<Rightarrow> usize" where
  "page_size_of sys_page = (if 0 < sys_page then of_int sys_page else 4096)"

definition bench_alloc ::
  "int \<Rightarrow> (usize \<Rightarrow> nat set \<Rightarrow> u64 option) \<Rightarrow> usize \<Rightarrow> usize \<Rightarrow> nat set \<Rightarrow> u64 option \<times> nat set" where
  "bench_alloc sys_page mmap bytes alignment os =
     (let page_size = page_size_of sys_page; page = unat page_size
      in if alignment \<le> page_size then mmap_call page mmap bytes os
         else
           let total_reserve = bytes + alignment
           in case mmap_call page mmap total_reserve os of
                (None, os) \<Rightarrow> (None, os)
              | (Some raw_addr, os) \<Rightarrow>
                  let aligned_addr = (raw_addr + alignment - 1) AND NOT (alignment - 1);
                      prefix = aligned_addr - raw_addr;
                      suffix = total_reserve - prefix - bytes;
                      os = (if 0 < prefix then munmap page raw_addr prefix os else os);
                      os = (if 0 < suffix then munmap page (aligned_addr + bytes) suffix os else os)
                  in (Some aligned_addr, os))"

text \<open>Null is the address 0, which \<^verbatim>\<open>mmap\<close> never returns.\<close>

definition bench_free :: "int \<Rightarrow> u64 \<Rightarrow> usize \<Rightarrow> nat set \<Rightarrow> nat set" where
  "bench_free sys_page ptr bytes os = (if ptr = 0 then os else munmap (unat (page_size_of sys_page)) ptr bytes os)"

text \<open>What \<^verbatim>\<open>mmap\<close> without a hint promises: a page-aligned range below the end that was not mapped.\<close>

definition mmap_ok :: "nat \<Rightarrow> (usize \<Rightarrow> nat set \<Rightarrow> u64 option) \<Rightarrow> bool" where
  "mmap_ok page mmap \<longleftrightarrow>
     (\<forall>len os a. mmap len os = Some a \<longrightarrow>
        a \<noteq> 0 \<and> page dvd unat a \<and> unat a + (unat len + page - 1) div page * page < 2 ^ 64 \<and> os \<inter> pages_at page a len = {})"

lemma pages_exact: "0 < page \<Longrightarrow> page dvd unat len \<Longrightarrow> pages_at page a len = {unat a..<unat a + unat len}"
proof -
  assume p: "0 < page" "page dvd unat len"
  then obtain m where m: "unat len = m * page" by (auto elim: dvdE simp: mult.commute)
  have "(m * page + page - 1) div page = m"
    using p(1) by (metis Nat.add_diff_assoc One_nat_def Suc_leI add.commute add_0_right diff_less div_less div_mult_self3 less_numeral_extra(3) zero_less_one)
  then show ?thesis using m by (simp add: pages_at_def)
qed

lemma unat_power2: "k < 64 \<Longrightarrow> unat (2 ^ k :: u64) = 2 ^ k"
proof -
  assume "k < 64"
  then have "(2 :: nat) ^ k < 2 ^ 64" by (rule power_strict_increasing) simp
  then have "unat (of_nat (2 ^ k) :: u64) = 2 ^ k" by (simp only: unat_of_nat take_bit_nat_eq_self len_of_numeral_defs) simp
  then show ?thesis by simp
qed

text \<open>The aligned part of a reservation.\<close>

lemma aligned_part:
  fixes raw bytes :: u64
  assumes "p \<le> k" and "k < 64" and "2 ^ p dvd unat raw" and "unat raw + unat bytes + 2 ^ k < 2 ^ 64"
  defines "a \<equiv> (raw + 2 ^ k - 1) AND NOT (2 ^ k - 1)"
  shows "2 ^ k dvd unat a" and "unat raw \<le> unat a" and "unat a < unat raw + 2 ^ k" and "2 ^ p dvd unat a - unat raw"
    and "unat (a - raw) = unat a - unat raw" and "unat (bytes + 2 ^ k - (a - raw) - bytes) = unat raw + 2 ^ k - unat a"
    and "unat (a + bytes) = unat a + unat bytes" and "unat (bytes + 2 ^ k) = unat bytes + 2 ^ k"
proof -
  have a: "a = align_up raw (2 ^ k)" unfolding a_def align_up_def add_diff_eq ..
  have le: "unat raw + 2 ^ k \<le> 2 ^ 64" using assms(4) by simp
  note b = align_up_bounds [OF assms(2) le, folded a]
  show d: "2 ^ k dvd unat a" and lo: "unat raw \<le> unat a" and hi: "unat a < unat raw + 2 ^ k" by (rule b(3) b(1) b(2))+
  have "2 ^ p dvd unat a" using d le_imp_power_dvd [OF assms(1), of 2] dvd_trans by blast
  then show "2 ^ p dvd unat a - unat raw" using assms(3) by (rule dvd_diff_nat)
  show s: "unat (a - raw) = unat a - unat raw" using lo by (simp add: unat_sub word_le_nat_alt)
  show "unat (a + bytes) = unat a + unat bytes" using hi assms(4) by (intro unat_add_lt) simp
  have two: "unat (2 ^ k :: u64) = 2 ^ k" using assms(2) by (simp add: unat_power2)
  show "unat (bytes + 2 ^ k) = unat bytes + 2 ^ k" using two assms(4) by (subst unat_add_lt) simp_all
  have eq: "bytes + 2 ^ k - (a - raw) - bytes = 2 ^ k - (a - raw)" by simp
  have len: "unat (2 ^ k - (a - raw)) = 2 ^ k - (unat a - unat raw)"
    using s two hi lo by (subst unat_sub) (simp_all add: word_le_nat_alt)
  show "unat (bytes + 2 ^ k - (a - raw) - bytes) = unat raw + 2 ^ k - unat a" unfolding eq len using lo hi by simp
qed

lemma mmap_call_ok:
  assumes "mmap_ok page mmap" and "0 < page" and "page dvd unat len" and "mmap_call page mmap len os = (Some a, os')"
  shows "a \<noteq> 0" and "page dvd unat a" and "unat a + unat len < 2 ^ 64" and "os \<inter> {unat a..<unat a + unat len} = {}"
    and "os' = os \<union> {unat a..<unat a + unat len}"
proof -
  have m: "mmap len os = Some a" "os' = os \<union> pages_at page a len" using assms(4) by (auto simp: mmap_call_def split: option.splits)
  note e = pages_exact [OF assms(2,3), of a]
  have "(unat len + page - 1) div page * page = unat len"
  proof -
    have "{unat a..<unat a + (unat len + page - 1) div page * page} = {unat a..<unat a + unat len}" using e by (simp add: pages_at_def)
    then have "card {unat a..<unat a + (unat len + page - 1) div page * page} = card {unat a..<unat a + unat len}" by (simp only:)
    then show ?thesis by simp
  qed
  moreover have "a \<noteq> 0 \<and> page dvd unat a \<and> unat a + (unat len + page - 1) div page * page < 2 ^ 64 \<and> os \<inter> pages_at page a len = {}"
    using assms(1) m(1) unfolding mmap_ok_def by blast
  ultimately show "a \<noteq> 0" "page dvd unat a" "unat a + unat len < 2 ^ 64" "os \<inter> {unat a..<unat a + unat len} = {}"
      "os' = os \<union> {unat a..<unat a + unat len}"
    using m(2) e by (simp_all only: simp_thms)
qed

lemma munmap_exact:
  assumes "0 < page" and "page dvd unat a" and "page dvd unat len"
  shows "munmap page a len os = os - {unat a..<unat a + unat len}"
  using assms pages_exact [OF assms(1,3), of a] by (auto simp: munmap_def)

lemma munmap_guarded:
  assumes "0 < page" and "page dvd unat a" and "page dvd unat len"
  shows "(if 0 < len then munmap page a len os else os) = os - {unat a..<unat a + unat len}"
proof (cases "len = 0")
  case False
  then show ?thesis using munmap_exact [OF assms] by (simp add: word_gt_0)
qed simp

text \<open>Cutting a reservation down to its aligned part.\<close>

lemma cut_range:
  fixes lo a b hi :: nat
  assumes "os \<inter> {lo..<hi} = {}" and "lo \<le> a" and "a \<le> b" and "b \<le> hi"
  shows "os \<union> {lo..<hi} - {lo..<a} - {b..<hi} = os \<union> {a..<b}"
  using assms by (auto simp: disjoint_iff)

text \<open>
  for a power-of-two alignment and a size in whole pages, the tools' allocator returns an aligned
  range that was not mapped before; exactly that range is mapped afterwards, whatever it had to reserve
  to align it; and freeing it restores the address space.
\<close>

theorem bench_alloc_free:
  assumes "page_size_of sys_page = 2 ^ p" and "p < 64" and "mmap_ok (2 ^ p) mmap"
    and "k < 64" and "2 ^ p dvd unat bytes" and "unat bytes + 2 ^ k < 2 ^ 64"
    and "bench_alloc sys_page mmap bytes (2 ^ k) os = (Some a, os')"
  shows "2 ^ k dvd unat a \<and> os \<inter> {unat a..<unat a + unat bytes} = {} \<and> os' = os \<union> {unat a..<unat a + unat bytes}
    \<and> bench_free sys_page a bytes os' = os"
proof -
  have page: "unat (page_size_of sys_page) = 2 ^ p" using unat_power2 [OF assms(2)] by (simp only: assms(1))
  have pos: "0 < (2 :: nat) ^ p" by simp
  have two: "unat (2 ^ k :: u64) = 2 ^ k" using assms(4) by (simp add: unat_power2)
  have small: "(2 :: u64) ^ k \<le> page_size_of sys_page \<longleftrightarrow> k \<le> p"
    using page two by (simp add: word_le_nat_alt)
  have free: "bench_free sys_page a bytes os' = os"
    if "a \<noteq> 0" "2 ^ p dvd unat a" "os' = os \<union> {unat a..<unat a + unat bytes}" "os \<inter> {unat a..<unat a + unat bytes} = {}"
    using munmap_exact [OF _ that(2) assms(5)] that(1,3,4) page by (auto simp: bench_free_def)
  show ?thesis
  proof (cases "k \<le> p")
    case True
    then have call: "mmap_call (2 ^ p) mmap bytes os = (Some a, os')"
      using assms(7) small page by (simp add: bench_alloc_def Let_def)
    note m = mmap_call_ok [OF assms(3) pos assms(5) call]
    have "(2 :: nat) ^ k dvd unat a" by (rule dvd_trans [OF le_imp_power_dvd [OF True] m(2)])
    then show ?thesis using m free by simp
  next
    case False
    then have pk: "p \<le> k" by simp
    let ?total = "bytes + 2 ^ k" and ?cut = "\<lambda>raw. (raw + 2 ^ k - 1) AND NOT (2 ^ k - 1 :: u64)"
    obtain raw os1 where call: "mmap_call (2 ^ p) mmap ?total os = (Some raw, os1)"
      and a: "a = ?cut raw"
      and os': "os' = (let prefix = a - raw; suffix = ?total - prefix - bytes; os2 = (if 0 < prefix then munmap (2 ^ p) raw prefix os1 else os1)
        in if 0 < suffix then munmap (2 ^ p) (a + bytes) suffix os2 else os2)"
      using assms(7) False small page by (auto simp: bench_alloc_def Let_def split: prod.splits option.splits)
    have total: "unat ?total = unat bytes + 2 ^ k" using two assms(6) by (subst unat_add_lt) simp_all
    have dk: "(2 :: nat) ^ p dvd 2 ^ k" by (rule le_imp_power_dvd [OF pk])
    have "2 ^ p dvd unat ?total" unfolding total using assms(5) dk by (rule dvd_add)
    note m = mmap_call_ok [OF assms(3) pos this call]
    have fit: "unat raw + unat bytes + 2 ^ k < 2 ^ 64" using m(3) total by simp
    note c = aligned_part [OF pk assms(4) m(2) fit, folded a]
    have prefix: "(if 0 < a - raw then munmap (2 ^ p) raw (a - raw) os1 else os1) = os1 - {unat raw..<unat a}"
    proof -
      have "2 ^ p dvd unat (a - raw)" using c(4) unfolding c(5) .
      moreover have "unat raw + unat (a - raw) = unat a" unfolding c(5) using c(2) by simp
      ultimately show ?thesis using munmap_guarded [OF _ m(2), of "a - raw" os1] by (simp only: zero_less_power zero_less_numeral)
    qed
    have pa: "2 ^ p dvd unat a" using c(1) dk dvd_trans by blast
    have suffix: "(if 0 < ?total - (a - raw) - bytes then munmap (2 ^ p) (a + bytes) (?total - (a - raw) - bytes) os2 else os2)
        = os2 - {unat a + unat bytes..<unat raw + unat ?total}" for os2
    proof -
      have "2 ^ p dvd unat (a + bytes)" unfolding c(7) using pa assms(5) by (rule dvd_add)
      moreover have "2 ^ p dvd unat (?total - (a - raw) - bytes)"
        unfolding c(6) using dvd_add [OF m(2) dk] pa by (rule dvd_diff_nat)
      moreover have "unat (a + bytes) + unat (?total - (a - raw) - bytes) = unat raw + unat ?total"
        unfolding c(6,7) total using c(2,3) by simp
      ultimately show ?thesis using munmap_guarded [of "2 ^ p" "a + bytes" "?total - (a - raw) - bytes" os2] unfolding c(7)
        by (simp only: zero_less_power zero_less_numeral)
    qed
    have "os' = os1 - {unat raw..<unat a} - {unat a + unat bytes..<unat raw + unat ?total}"
      unfolding os' Let_def prefix suffix ..
    also have "\<dots> = os \<union> {unat a..<unat a + unat bytes}"
      unfolding m(5) using m(4) c(2,3) total by (intro cut_range) simp_all
    finally have res: "os' = os \<union> {unat a..<unat a + unat bytes}" .
    have "{unat a..<unat a + unat bytes} \<subseteq> {unat raw..<unat raw + unat ?total}" using c(2,3) total by auto
    then have dis: "os \<inter> {unat a..<unat a + unat bytes} = {}" using m(4) by blast
    have "unat raw \<noteq> 0" using m(1) by (simp add: unat_eq_zero)
    then have "a \<noteq> 0" using c(2) by (metis le_zero_eq unat_0)
    then show ?thesis using c(1) dis res free [OF _ pa res dis] by blast
  qed
qed

text \<open>A system that maps from the address 0x10000 on, with pages of 4096 bytes; one of 64 KiB is asked for.\<close>

definition demo_mmap :: "usize \<Rightarrow> nat set \<Rightarrow> u64 option" where
  "demo_mmap len os = (if os = {} \<and> unat len < 2 ^ 40 then Some 0x11000 else None)"

theorem bench_alloc_free_witness:
  "2 ^ 16 dvd unat (0x20000 :: u64) \<and> bench_alloc 4096 demo_mmap 0x10000 0x10000 {} = (Some 0x20000, {0x20000..<0x30000})"
proof -
  have ok: "mmap_ok (2 ^ 12) demo_mmap"
  proof -
    have "(unat len + 4095) div 4096 * 4096 \<le> unat len + 4095" for len :: u64 by (simp add: div_times_less_eq_dividend)
    then show ?thesis by (auto simp: mmap_ok_def demo_mmap_def intro: le_less_trans)
  qed
  have "\<exists>os'. bench_alloc 4096 demo_mmap 0x10000 (2 ^ 16) {} = (Some 0x20000, os')"
    by (simp add: bench_alloc_def page_size_of_def Let_def mmap_call_def demo_mmap_def)
  then obtain os' where a: "bench_alloc 4096 demo_mmap 0x10000 (2 ^ 16) {} = (Some 0x20000, os')" by blast
  have "page_size_of 4096 = 2 ^ 12" by (simp add: page_size_of_def)
  from bench_alloc_free [OF this _ ok _ _ _ a] show ?thesis using a by simp
qed

section \<open>Counting allocations\<close>

record tracker =
  s_active :: bool
  s_allocationCount :: u64
  s_deallocationCount :: u64
  s_allocatedBytes :: u64

definition AllocationTracker :: tracker where
  "AllocationTracker = \<lparr>s_active = False, s_allocationCount = 0, s_deallocationCount = 0, s_allocatedBytes = 0\<rparr>"

definition tracker_reset :: "tracker \<Rightarrow> tracker" where
  "tracker_reset t = t\<lparr>s_allocationCount := 0, s_deallocationCount := 0, s_allocatedBytes := 0\<rparr>"

definition tracker_enable :: "tracker \<Rightarrow> tracker" where
  "tracker_enable t = t\<lparr>s_active := True\<rparr>"

definition tracker_disable :: "tracker \<Rightarrow> tracker" where
  "tracker_disable t = t\<lparr>s_active := False\<rparr>"

definition allocations :: "tracker \<Rightarrow> u64" where
  "allocations t = s_allocationCount t"

definition deallocations :: "tracker \<Rightarrow> u64" where
  "deallocations t = s_deallocationCount t"

definition allocated_bytes :: "tracker \<Rightarrow> u64" where
  "allocated_bytes t = s_allocatedBytes t"

definition count_new :: "usize \<Rightarrow> tracker \<Rightarrow> tracker" where
  "count_new sz t =
     (if s_active t
      then t\<lparr>s_allocationCount := s_allocationCount t + 1, s_allocatedBytes := s_allocatedBytes t + sz\<rparr>
      else t)"

text \<open>The throwing forms abort where \<^verbatim>\<open>malloc\<close> returns null; the others return the null.\<close>

datatype new_result = Aborts | Returns_ptr "u64 option"

definition operator_new :: "(usize \<Rightarrow> u64 option) \<Rightarrow> usize \<Rightarrow> tracker \<Rightarrow> new_result \<times> tracker" where
  "operator_new malloc sz t =
     (let t = count_new sz t
      in case malloc sz of None \<Rightarrow> (Aborts, t) | Some p \<Rightarrow> (Returns_ptr (Some p), t))"

definition operator_new_nothrow :: "(usize \<Rightarrow> u64 option) \<Rightarrow> usize \<Rightarrow> tracker \<Rightarrow> new_result \<times> tracker" where
  "operator_new_nothrow malloc sz t = (Returns_ptr (malloc sz), count_new sz t)"

definition operator_delete :: "tracker \<Rightarrow> tracker" where
  "operator_delete t = (if s_active t then t\<lparr>s_deallocationCount := s_deallocationCount t + 1\<rparr> else t)"

text \<open>A program as the sequence of its calls; the sizes of \<open>New\<close> are those asked for.\<close>

datatype heap_call = New usize | NewNothrow usize | Delete

fun heap_step :: "(usize \<Rightarrow> u64 option) \<Rightarrow> heap_call \<Rightarrow> tracker \<Rightarrow> tracker" where
  "heap_step malloc (New n) t = snd (operator_new malloc n t)"
| "heap_step malloc (NewNothrow n) t = snd (operator_new_nothrow malloc n t)"
| "heap_step malloc Delete t = operator_delete t"

fun new_sizes :: "heap_call list \<Rightarrow> usize list" where
  "new_sizes [] = []"
| "new_sizes (New n # cs) = n # new_sizes cs"
| "new_sizes (NewNothrow n # cs) = n # new_sizes cs"
| "new_sizes (Delete # cs) = new_sizes cs"

lemma snd_operator_new [simp]:
  "snd (operator_new malloc n t) = count_new n t" "snd (operator_new_nothrow malloc n t) = count_new n t"
  by (simp_all add: operator_new_def operator_new_nothrow_def Let_def split: option.split)

lemma heap_steps_active:
  "s_active t \<Longrightarrow> let t' = fold (heap_step malloc) cs t in s_active t'
     \<and> s_allocationCount t' = s_allocationCount t + of_nat (length (new_sizes cs))
     \<and> s_allocatedBytes t' = s_allocatedBytes t + sum_list (new_sizes cs)"
proof (induction cs arbitrary: t)
  case (Cons c cs)
  show ?case
  proof (cases c)
    case (New n)
    then show ?thesis using Cons.IH [of "count_new n t"] Cons.prems by (simp add: count_new_def Let_def add.assoc)
  next
    case (NewNothrow n)
    then show ?thesis using Cons.IH [of "count_new n t"] Cons.prems by (simp add: count_new_def Let_def add.assoc)
  next
    case Delete
    then show ?thesis using Cons.IH [of "operator_delete t"] Cons.prems by (simp add: operator_delete_def Let_def)
  qed
qed simp

lemma heap_steps_inactive: "\<not> s_active t \<Longrightarrow> fold (heap_step malloc) cs t = t"
proof (induction cs)
  case (Cons c cs)
  then have "heap_step malloc c t = t" by (cases c) (simp_all add: count_new_def operator_delete_def)
  then show ?case using Cons by simp
qed simp

text \<open>
  The tools measure between \<open>reset; enable\<close> and \<open>disable\<close>: what they read afterwards is what was
  allocated in between, and nothing else, modulo the width of the counters.
\<close>

definition measured :: "(usize \<Rightarrow> u64 option) \<Rightarrow> heap_call list \<Rightarrow> heap_call list \<Rightarrow> heap_call list \<Rightarrow> tracker \<Rightarrow> tracker" where
  "measured malloc before during after t =
     fold (heap_step malloc) after (tracker_disable (fold (heap_step malloc) during
       (tracker_enable (tracker_reset (fold (heap_step malloc) before t)))))"

lemma tracker_measures:
  "allocations (measured malloc b d a t) = of_nat (length (new_sizes d))"
  "allocated_bytes (measured malloc b d a t) = sum_list (new_sizes d)"
proof -
  let ?t = "tracker_enable (tracker_reset (fold (heap_step malloc) b t))"
  have "s_active ?t" "s_allocationCount ?t = 0" "s_allocatedBytes ?t = 0" by (simp_all add: tracker_enable_def tracker_reset_def)
  note d = heap_steps_active [OF this(1), of malloc d, unfolded Let_def this(2,3)]
  have "\<not> s_active (tracker_disable t)" for t by (simp add: tracker_disable_def)
  then show "allocations (measured malloc b d a t) = of_nat (length (new_sizes d))"
      "allocated_bytes (measured malloc b d a t) = sum_list (new_sizes d)"
    using d by (simp_all add: measured_def heap_steps_inactive allocations_def allocated_bytes_def) (simp_all add: tracker_disable_def)
qed

section \<open>Latency statistics\<close>

record latency_stats =
  minUs :: rat
  maxUs :: rat
  meanUs :: rat
  p50Us :: rat
  p95Us :: rat
  p99Us :: rat
  throughputMTasksSec :: rat
  steadyStateAllocs :: usize
  steadyStateBytes :: usize

definition LatencyStats :: latency_stats where
  "LatencyStats = \<lparr>minUs = 0, maxUs = 0, meanUs = 0, p50Us = 0, p95Us = 0, p99Us = 0, throughputMTasksSec = 0,
     steadyStateAllocs = 0, steadyStateBytes = 0\<rparr>"

text \<open>Interpolation at position \<open>x\<close> between the samples.\<close>

definition interpolate :: "rat list \<Rightarrow> rat \<Rightarrow> rat" where
  "interpolate samples x =
     (let i = nat \<lfloor>x\<rfloor>; frac = x - of_nat i
      in if i + 1 < length samples then samples ! i * (1 - frac) + samples ! (i + 1) * frac else samples ! i)"

definition percentile :: "rat list \<Rightarrow> rat \<Rightarrow> rat" where
  "percentile samples p = interpolate samples (p * of_nat (length samples - 1))"

definition latency_compute :: "rat list \<Rightarrow> usize \<Rightarrow> usize \<Rightarrow> usize \<Rightarrow> latency_stats" where
  "latency_compute samples taskCount allocs bytes =
     (if samples = [] then LatencyStats
      else
        let samples = sort samples;
            sum = sum_list samples;
            mean = sum / of_nat (length samples);
            throughput = (if 0 < mean then (of_nat (unat taskCount) / (mean / 1000000)) / 1000000 else 0)
        in \<lparr>minUs = hd samples, maxUs = last samples, meanUs = mean, p50Us = percentile samples (1 / 2),
             p95Us = percentile samples (95 / 100), p99Us = percentile samples (99 / 100),
             throughputMTasksSec = throughput, steadyStateAllocs = allocs, steadyStateBytes = bytes\<rparr>)"

text \<open>Between two neighbours of a sorted list.\<close>

lemma mix_bounds:
  fixes a b f :: rat
  assumes "a \<le> b" and "0 \<le> f" and "f \<le> 1"
  shows "a \<le> a * (1 - f) + b * f" and "a * (1 - f) + b * f \<le> b"
proof -
  have "a * f \<le> b * f" "a * (1 - f) \<le> b * (1 - f)" using assms by (simp_all add: mult_right_mono)
  then show "a \<le> a * (1 - f) + b * f" "a * (1 - f) + b * f \<le> b" by (simp_all add: algebra_simps)
qed

lemma floor_index:
  fixes x :: rat
  assumes "0 \<le> x" and "x \<le> of_nat (length s - 1)" and "s \<noteq> []"
  shows "nat \<lfloor>x\<rfloor> < length s" and "0 \<le> x - of_nat (nat \<lfloor>x\<rfloor>)" and "x - of_nat (nat \<lfloor>x\<rfloor>) < 1"
proof -
  have i: "of_nat (nat \<lfloor>x\<rfloor>) = (of_int \<lfloor>x\<rfloor> :: rat)" using assms(1) by simp
  show "0 \<le> x - of_nat (nat \<lfloor>x\<rfloor>)" "x - of_nat (nat \<lfloor>x\<rfloor>) < 1" unfolding i by linarith+
  have "nat \<lfloor>x\<rfloor> \<le> length s - 1" using assms(2) floor_mono [of x "of_nat (length s - 1)"] by (simp add: nat_le_iff)
  then show "nat \<lfloor>x\<rfloor> < length s" using assms(3) by (cases s) simp_all
qed

lemma interpolate_between:
  assumes s: "sorted s" "s \<noteq> []" and x: "0 \<le> x" "x \<le> of_nat (length s - 1)"
  shows "s ! nat \<lfloor>x\<rfloor> \<le> interpolate s x" and "interpolate s x \<le> s ! min (nat \<lfloor>x\<rfloor> + 1) (length s - 1)"
proof -
  define i where "i = nat \<lfloor>x\<rfloor>"
  note f = floor_index [OF x s(2), folded i_def]
  have "s ! i \<le> interpolate s x \<and> interpolate s x \<le> s ! min (i + 1) (length s - 1)"
  proof (cases "i + 1 < length s")
    case True
    then have "s ! i \<le> s ! (i + 1)" using s(1) by (simp add: sorted_iff_nth_mono)
    from mix_bounds [OF this f(2) less_imp_le [OF f(3)]] show ?thesis using True by (simp add: interpolate_def Let_def i_def [symmetric])
  next
    case False
    then have "i = length s - 1" using f(1) by simp
    then show ?thesis using False by (simp add: interpolate_def Let_def i_def [symmetric])
  qed
  then show "s ! nat \<lfloor>x\<rfloor> \<le> interpolate s x" "interpolate s x \<le> s ! min (nat \<lfloor>x\<rfloor> + 1) (length s - 1)" by (simp_all add: i_def)
qed

lemma interpolate_mono:
  assumes s: "sorted s" "s \<noteq> []" and x: "0 \<le> x" "x \<le> y" "y \<le> of_nat (length s - 1)"
  shows "interpolate s x \<le> interpolate s y"
proof -
  have x1: "x \<le> of_nat (length s - 1)" and y0: "0 \<le> y" using x by simp_all
  note bx = interpolate_between [OF s x(1) x1] and byy = interpolate_between [OF s y0 x(3)]
  note fy = floor_index(1) [OF y0 x(3) s(2)]
  have le: "nat \<lfloor>x\<rfloor> \<le> nat \<lfloor>y\<rfloor>" using x(2) by (simp add: floor_mono nat_mono)
  show ?thesis
  proof (cases "nat \<lfloor>x\<rfloor> = nat \<lfloor>y\<rfloor>")
    case True
    define i where "i = nat \<lfloor>y\<rfloor>"
    show ?thesis
    proof (cases "i + 1 < length s")
      case i: True
      then have "s ! i \<le> s ! (i + 1)" using s(1) by (simp add: sorted_iff_nth_mono)
      then have "(s ! (i + 1) - s ! i) * (x - of_nat i) \<le> (s ! (i + 1) - s ! i) * (y - of_nat i)"
        using x(2) by (intro mult_left_mono) simp_all
      then have "s ! i * (1 - (x - of_nat i)) + s ! (i + 1) * (x - of_nat i) \<le> s ! i * (1 - (y - of_nat i)) + s ! (i + 1) * (y - of_nat i)"
        by (simp add: algebra_simps)
      then show ?thesis using i by (simp add: interpolate_def Let_def True i_def [symmetric])
    next
      case False
      then show ?thesis by (simp add: interpolate_def Let_def True i_def [symmetric])
    qed
  next
    case False
    then have "min (nat \<lfloor>x\<rfloor> + 1) (length s - 1) \<le> nat \<lfloor>y\<rfloor>" using le by simp
    then have "s ! min (nat \<lfloor>x\<rfloor> + 1) (length s - 1) \<le> s ! nat \<lfloor>y\<rfloor>" using s(1) fy by (simp add: sorted_iff_nth_mono)
    then show ?thesis using bx(2) byy(1) by simp
  qed
qed

lemma percentile_facts:
  assumes s: "sorted s" "s \<noteq> []" and p: "0 \<le> p" "p \<le> q" "q \<le> 1"
  shows "percentile s p \<le> percentile s q" and "hd s \<le> percentile s p" and "percentile s q \<le> last s"
proof -
  let ?n = "of_nat (length s - 1) :: rat"
  have x: "0 \<le> p * ?n" "p * ?n \<le> q * ?n" "q * ?n \<le> ?n" "p * ?n \<le> ?n" "0 \<le> q * ?n"
    using p by (simp_all add: mult_right_mono mult_left_le_one_le)
  show "percentile s p \<le> percentile s q" unfolding percentile_def by (rule interpolate_mono [OF s x(1-3)])
  have "s ! 0 \<le> s ! nat \<lfloor>p * ?n\<rfloor>" by (rule sorted_nth_mono [OF s(1) _ floor_index(1) [OF x(1,4) s(2)]]) simp
  then show "hd s \<le> percentile s p"
    unfolding percentile_def using interpolate_between(1) [OF s x(1,4)] s(2) by (simp add: hd_conv_nth)
  have "s ! min (nat \<lfloor>q * ?n\<rfloor> + 1) (length s - 1) \<le> s ! (length s - 1)" using s by (simp add: sorted_iff_nth_mono)
  then show "percentile s q \<le> last s"
    unfolding percentile_def using interpolate_between(2) [OF s x(5,3)] s(2) by (simp add: last_conv_nth)
qed

lemma mean_bounds:
  fixes s :: "rat list"
  assumes "sorted s" and "s \<noteq> []"
  shows "hd s \<le> sum_list s / of_nat (length s)" and "sum_list s / of_nat (length s) \<le> last s"
proof -
  have "(\<forall>y \<in> set s. a \<le> y) \<Longrightarrow> of_nat (length s) * a \<le> sum_list s" "(\<forall>y \<in> set s. y \<le> b) \<Longrightarrow> sum_list s \<le> of_nat (length s) * b"
    for a b :: rat and s by (induction s) (auto simp: distrib_right)
  moreover have "\<forall>y \<in> set s. hd s \<le> y" "\<forall>y \<in> set s. y \<le> last s"
    using assms by (auto simp: hd_conv_nth last_conv_nth in_set_conv_nth sorted_iff_nth_mono)
  ultimately show "hd s \<le> sum_list s / of_nat (length s)" "sum_list s / of_nat (length s) \<le> last s"
    using assms(2) by (simp_all add: le_divide_eq divide_le_eq mult.commute)
qed

text \<open>
  whatever the order in which the durations were recorded, the statistics are ordered: the minimum
  and the maximum bound every sample, the mean and the percentiles, and the percentiles increase. The
  interpolation never reads past the samples.
\<close>

theorem latency_stats_ordered:
  assumes "samples \<noteq> []"
  shows "(let s = latency_compute samples n a b
      in (\<forall>x \<in> set samples. minUs s \<le> x \<and> x \<le> maxUs s) \<and> minUs s \<in> set samples \<and> maxUs s \<in> set samples
       \<and> minUs s \<le> meanUs s \<and> meanUs s \<le> maxUs s
       \<and> minUs s \<le> p50Us s \<and> p50Us s \<le> p95Us s \<and> p95Us s \<le> p99Us s \<and> p99Us s \<le> maxUs s)
    \<and> (\<forall>samples'. mset samples' = mset samples \<longrightarrow> latency_compute samples' n a b = latency_compute samples n a b)
    \<and> (\<forall>p. 0 \<le> p \<and> p \<le> 1 \<longrightarrow> nat \<lfloor>p * of_nat (length samples - 1) :: rat\<rfloor> < length samples)"
proof -
  let ?s = "sort samples"
  have s: "sorted ?s" "?s \<noteq> []" using assms by (simp_all add: set_empty [symmetric] del: set_empty)
  have all: "\<forall>y \<in> set samples. hd ?s \<le> y" "\<forall>y \<in> set samples. y \<le> last ?s"
  proof -
    have "y \<in> set ?s \<Longrightarrow> hd ?s \<le> y \<and> y \<le> last ?s" for y
      using s by (auto simp: hd_conv_nth last_conv_nth in_set_conv_nth sorted_iff_nth_mono simp del: set_sort)
    then show "\<forall>y \<in> set samples. hd ?s \<le> y" "\<forall>y \<in> set samples. y \<le> last ?s" by simp_all
  qed
  have mem: "hd ?s \<in> set samples" "last ?s \<in> set samples" using hd_in_set [OF s(2)] last_in_set [OF s(2)] by simp_all
  have perm: "latency_compute samples' n a b = latency_compute samples n a b" if "mset samples' = mset samples" for samples'
  proof -
    have "sort samples' = ?s" using that by (metis mset_sort properties_for_sort sorted_sort)
    moreover have "samples' = [] \<longleftrightarrow> samples = []" using that by (metis mset_zero_iff)
    moreover have "length samples' = length samples" using that by (metis size_mset)
    ultimately show ?thesis by (simp add: latency_compute_def)
  qed
  have idx: "nat \<lfloor>p * of_nat (length samples - 1) :: rat\<rfloor> < length samples" if "0 \<le> p" "p \<le> 1" for p :: rat
    using that assms by (intro floor_index(1)) (simp_all add: mult_left_le_one_le)
  note p1 = percentile_facts [OF s, of "1 / 2" "95 / 100"] and p2 = percentile_facts [OF s, of "95 / 100" "99 / 100"]
  show ?thesis using all mem mean_bounds [OF s] p1 p2 perm idx assms by (simp add: latency_compute_def Let_def)
qed

theorem latency_stats_ordered_witness:
  "let s = latency_compute [4, 1, 2] 100 0 0 in minUs s = 1 \<and> p50Us s = 2 \<and> maxUs s = 4 \<and> p50Us s \<le> p95Us s"
proof -
  have "[4, 1, 2 :: rat] \<noteq> []" by simp
  from latency_stats_ordered [OF this, of 100 0 0, unfolded Let_def]
  have "p50Us (latency_compute [4, 1, 2] 100 0 0) \<le> p95Us (latency_compute [4, 1, 2] 100 0 0)" by blast
  moreover have "sort [4, 1, 2 :: rat] = [1, 2, 4]" by simp
  ultimately show ?thesis by (simp add: latency_compute_def percentile_def interpolate_def Let_def)
qed

section \<open>Speedups\<close>

text \<open>The sweep divides means and medians where the divisor is positive.\<close>

definition speedup_of :: "rat \<Rightarrow> rat \<Rightarrow> rat" where
  "speedup_of lf classic = (if 0 < lf then classic / lf else 1)"

text \<open>The comparison fills in the speedups against the last entry; the reference keeps its own.\<close>

record framework_metric =
  frameworkName :: string
  stats :: latency_stats
  fm_speedup :: rat
  isReference :: bool

definition fill_speedups :: "framework_metric list \<Rightarrow> framework_metric list" where
  "fill_speedups metrics =
     (let classicMean = meanUs (stats (last metrics))
      in map (\<lambda>m. if \<not> isReference m \<and> 0 < meanUs (stats m) \<and> 0 < classicMean
                  then m\<lparr>fm_speedup := classicMean / meanUs (stats m)\<rparr> else m) metrics)"

text \<open>The table's summary line: the last reference and the last entry named after LightFlow.\<close>

fun contains :: "string \<Rightarrow> string \<Rightarrow> bool" where
  "contains pat [] = (pat = [])"
| "contains pat (c # cs) = (take (length pat) (c # cs) = pat \<or> contains pat cs)"

definition last_such :: "('a \<Rightarrow> bool) \<Rightarrow> 'a list \<Rightarrow> 'a option" where
  "last_such P xs = fold (\<lambda>x r. if P x then Some x else r) xs None"

definition summary_speedups :: "framework_metric list \<Rightarrow> rat \<times> rat" where
  "summary_speedups metrics =
     (case (last_such isReference metrics, last_such (\<lambda>m. contains ''LightFlow'' (frameworkName m)) metrics) of
        (Some refMetric, Some lfMetric) \<Rightarrow>
          if 0 < meanUs (stats lfMetric) \<and> 0 < meanUs (stats refMetric)
          then (meanUs (stats refMetric) / meanUs (stats lfMetric), p50Us (stats refMetric) / p50Us (stats lfMetric))
          else (1, 1)
      | _ \<Rightarrow> (1, 1))"

lemma speedup_pos: "0 \<le> lf \<Longrightarrow> 0 < classic \<Longrightarrow> 0 < speedup_of lf classic"
  by (simp add: speedup_of_def)

lemma fill_speedups_reference:
  "m \<in> set metrics \<Longrightarrow> isReference m \<Longrightarrow> m \<in> set (fill_speedups metrics)"
  by (force simp: fill_speedups_def Let_def)

lemma fill_speedups_times:
  assumes "m \<in> set (fill_speedups metrics)" and "\<not> isReference m" and "0 < meanUs (stats m)" and "0 < meanUs (stats (last metrics))"
  shows "fm_speedup m * meanUs (stats m) = meanUs (stats (last metrics))"
  using assms by (auto simp: fill_speedups_def Let_def split: if_splits)

section \<open>Command lines\<close>

text \<open>\<^verbatim>\<open>std::stoull\<close>: blanks, a sign, digits; it throws without a digit and beyond the width, and negates.\<close>

definition is_space :: "char \<Rightarrow> bool" where
  "is_space c \<longleftrightarrow> c = CHR '' '' \<or> 9 \<le> (of_char c :: nat) \<and> (of_char c :: nat) \<le> 13"

definition is_digit :: "char \<Rightarrow> bool" where
  "is_digit c \<longleftrightarrow> 48 \<le> (of_char c :: nat) \<and> (of_char c :: nat) \<le> 57"

definition digits_value :: "string \<Rightarrow> nat" where
  "digits_value ds = foldl (\<lambda>v c. 10 * v + (of_char c - 48)) 0 ds"

definition stoull :: "string \<Rightarrow> u64 option" where
  "stoull s =
     (let s = dropWhile is_space s;
          neg = (s \<noteq> [] \<and> hd s = CHR ''-'');
          s = (if s \<noteq> [] \<and> (hd s = CHR ''-'' \<or> hd s = CHR ''+'') then tl s else s);
          ds = takeWhile is_digit s;
          v = digits_value ds
      in if ds = [] \<or> 2 ^ 64 \<le> v then None else Some (if neg then - of_nat v else of_nat v))"

text \<open>A program goes on, exits with a status, or ends with the uncaught exception of \<^verbatim>\<open>stoull\<close>.\<close>

datatype 'c cli = Continue 'c | Exits int | Throws

record sweep_options =
  outputPath :: string
  quick :: bool
  maxTasks :: u64
  filterTopology :: string
  filterMode :: string

definition sweep_defaults :: sweep_options where
  "sweep_defaults = \<lparr>outputPath = ''docs/benchmarks/results.json'', quick = False, maxTasks = 10000000,
     filterTopology = ''all'', filterMode = ''both''\<rparr>"

text \<open>An argument that needs a value and has none, or is not known, is passed over.\<close>

fun sweep_args :: "string list \<Rightarrow> sweep_options \<Rightarrow> sweep_options cli" where
  "sweep_args [] c = Continue c"
| "sweep_args [arg] c =
     (if arg = ''--quick'' then Continue (c\<lparr>quick := True\<rparr>)
      else if arg = ''--help'' \<or> arg = ''-h'' then Exits 0
      else Continue c)"
| "sweep_args (arg # v # args) c =
     (if arg = ''--output'' then sweep_args args (c\<lparr>outputPath := v\<rparr>)
      else if arg = ''--quick'' then sweep_args (v # args) (c\<lparr>quick := True\<rparr>)
      else if arg = ''--max-tasks'' then
        (case stoull v of None \<Rightarrow> Throws | Some n \<Rightarrow> sweep_args args (c\<lparr>maxTasks := n\<rparr>))
      else if arg = ''--topology'' then sweep_args args (c\<lparr>filterTopology := v\<rparr>)
      else if arg = ''--mode'' then sweep_args args (c\<lparr>filterMode := v\<rparr>)
      else if arg = ''--help'' \<or> arg = ''-h'' then Exits 0
      else sweep_args (v # args) c)"

definition allTaskCounts :: "u64 list" where
  "allTaskCounts = [100, 1000, 10000, 50000, 100000, 500000, 1000000, 5000000, 10000000]"

definition taskCounts :: "u64 \<Rightarrow> u64 list" where
  "taskCounts n = filter (\<lambda>t. t \<le> n) allTaskCounts"

definition getIterations :: "bool \<Rightarrow> u64 \<Rightarrow> usize" where
  "getIterations is_quick tasks =
     (if is_quick then
        if tasks \<le> 1000 then 5 else if tasks \<le> 100000 then 3 else if tasks \<le> 1000000 then 2 else 1
      else
        if tasks \<le> 1000 then 20 else if tasks \<le> 50000 then 10 else if tasks \<le> 100000 then 8
        else if tasks \<le> 1000000 then 5 else if tasks \<le> 5000000 then 3 else 2)"

definition sweep_workloads :: "string \<Rightarrow> string list" where
  "sweep_workloads mode =
     (if mode = ''both'' \<or> mode = ''cluster_cull'' then [''cluster_cull''] else [])
     @ (if mode = ''both'' \<or> mode = ''orchestration'' then [''orchestration''] else [])"

text \<open>The runs of the three sweeps: topology, workload, tasks and iterations.\<close>

definition sweep_runs :: "sweep_options \<Rightarrow> (string \<times> string \<times> u64 \<times> usize) list" where
  "sweep_runs c =
     (let runs = (\<lambda>topology counts.
            if filterTopology c = ''all'' \<or> filterTopology c = topology
            then concat (map (\<lambda>wl. map (\<lambda>n. (topology, wl, n, getIterations (quick c) n)) counts) (sweep_workloads (filterMode c)))
            else [])
      in runs ''parallel_for'' (taskCounts (maxTasks c)) @ runs ''wavefront'' (taskCounts (maxTasks c))
         @ runs ''pipeline'' (filter (\<lambda>n. n \<le> 1000000) (taskCounts (maxTasks c))))"

record comparison_options =
  workloadFilter :: string
  threadCount :: u64
  iterations :: u64
  customIterations :: bool
  jsonOutputPath :: string

definition comparison_defaults :: "u64 \<Rightarrow> comparison_options" where
  "comparison_defaults hardware_concurrency = \<lparr>workloadFilter = ''all'', threadCount = max 2 hardware_concurrency,
     iterations = 10, customIterations = False, jsonOutputPath = ''''\<rparr>"

fun comparison_args :: "string list \<Rightarrow> comparison_options \<Rightarrow> comparison_options cli" where
  "comparison_args [] c = Continue c"
| "comparison_args [arg] c = (if arg = ''--help'' \<or> arg = ''-h'' then Exits 0 else Exits 1)"
| "comparison_args (arg # v # args) c =
     (if arg = ''--workload'' then comparison_args args (c\<lparr>workloadFilter := v\<rparr>)
      else if arg = ''--threads'' then
        (case stoull v of None \<Rightarrow> Throws | Some n \<Rightarrow> comparison_args args (c\<lparr>threadCount := n\<rparr>))
      else if arg = ''--iterations'' then
        (case stoull v of None \<Rightarrow> Throws | Some n \<Rightarrow> comparison_args args (c\<lparr>iterations := n, customIterations := True\<rparr>))
      else if arg = ''--json'' then comparison_args args (c\<lparr>jsonOutputPath := v\<rparr>)
      else if arg = ''--help'' \<or> arg = ''-h'' then Exits 0
      else Exits 1)"

definition comparison_main :: "u64 \<Rightarrow> string list \<Rightarrow> comparison_options cli" where
  "comparison_main hw args =
     (case comparison_args args (comparison_defaults hw) of
        Continue c \<Rightarrow>
          if workloadFilter c \<noteq> ''all'' \<and> workloadFilter c \<noteq> ''wavefront'' \<and> workloadFilter c \<noteq> ''pipeline''
             \<and> workloadFilter c \<noteq> ''parallel_for'' \<and> workloadFilter c \<noteq> ''frame_loop''
          then Exits 1 else Continue c
      | r \<Rightarrow> r)"

text \<open>The workloads it then runs, with their iterations or frames.\<close>

definition comparison_runs :: "comparison_options \<Rightarrow> (string \<times> u64) list" where
  "comparison_runs c =
     (let wanted = (\<lambda>w. workloadFilter c = ''all'' \<or> workloadFilter c = w)
      in map (\<lambda>w. (w, iterations c)) (filter wanted [''wavefront'', ''pipeline'', ''parallel_for''])
         @ (if wanted ''frame_loop'' then [(''frame_loop'', if customIterations c then iterations c else 100)] else []))"

text \<open>
  Whatever the arguments, the sweep's sizes are among those listed, so its graphs stay within the counters;
  and it runs each at least once.
\<close>

lemma sweep_runs_sizes:
  assumes "(t, wl, n, it) \<in> set (sweep_runs c)"
  shows "n \<in> set allTaskCounts" and "n \<le> maxTasks c" and "0 < it" and "t = ''pipeline'' \<longrightarrow> n \<le> 1000000"
  using assms by (auto simp: sweep_runs_def Let_def taskCounts_def getIterations_def split: if_splits)

lemma sweep_sizes_fit: "n \<in> set allTaskCounts \<Longrightarrow> unat n \<le> 65535 \<or> 100000 \<le> unat n \<and> unat n \<le> 500000000"
  by (auto simp: allTaskCounts_def)

text \<open>A missing value is passed over by the sweep and an error in the comparison.\<close>

lemma dangling_option:
  "sweep_args [''--max-tasks''] sweep_defaults = Continue sweep_defaults"
  "comparison_main hw [''--threads''] = Exits 1"
  by (simp_all add: comparison_main_def)

lemma stoull_examples:
  "stoull ''  42x'' = Some 42" "stoull ''-1'' = Some (- 1)" "stoull ''x'' = None" "stoull ''18446744073709551616'' = None"
  by (simp_all add: stoull_def is_space_def is_digit_def digits_value_def Let_def of_char_def)

text \<open>The comparison takes any number of threads, none included.\<close>

lemma comparison_no_threads: "\<exists>c. comparison_main hw [''--threads'', ''0''] = Continue c \<and> threadCount c = 0"
proof -
  have "stoull ''0'' = Some 0" by (simp add: stoull_def is_space_def is_digit_def digits_value_def Let_def of_char_def)
  then show ?thesis by (simp add: comparison_main_def comparison_defaults_def)
qed

section \<open>Formatting\<close>

fun decimal :: "nat \<Rightarrow> string" where
  "decimal n = (if n < 10 then [char_of (48 + n)] else decimal (n div 10) @ [char_of (48 + n mod 10)])"

declare decimal.simps [simp del]

text \<open>\<^verbatim>\<open>%.1f\<close> of \<open>n / d\<close>: rounded to the nearest tenth, a tie to the even one. The division by a power of two is exact.\<close>

definition tenths :: "nat \<Rightarrow> nat \<Rightarrow> nat" where
  "tenths n d = (let q = 10 * n div d; r = 10 * n mod d in if d < 2 * r \<or> d = 2 * r \<and> odd q then q + 1 else q)"

definition fixed1 :: "nat \<Rightarrow> nat \<Rightarrow> string" where
  "fixed1 n d = (let t = tenths n d in decimal (t div 10) @ ''.'' @ decimal (t mod 10))"

definition formatBytes :: "usize \<Rightarrow> string" where
  "formatBytes bytes =
     (if bytes = 0 then ''0 B''
      else if 1024 * 1024 \<le> bytes then fixed1 (unat bytes) (1024 * 1024) @ '' MB''
      else if 1024 \<le> bytes then fixed1 (unat bytes) 1024 @ '' KB''
      else decimal (unat bytes) @ '' B'')"

definition formatAllocations :: "usize \<Rightarrow> usize \<Rightarrow> string" where
  "formatAllocations allocCount allocBytes =
     (if allocCount = 0 then ''0 allocs (0 B)''
      else decimal (unat allocCount) @ '' allocs ('' @ formatBytes allocBytes @ '')'')"

text \<open>What \<open>%zu\<close> prints, \<open>stoull\<close> reads back.\<close>

lemma decimal_digits: "decimal n \<noteq> [] \<and> (\<forall>c \<in> set (decimal n). is_digit c) \<and> digits_value (decimal n) = n"
proof (induction n rule: decimal.induct)
  case (1 n)
  have d: "is_digit (char_of (48 + m) :: char)" "(of_char (char_of (48 + m) :: char) :: nat) = 48 + m" if "m < 10" for m :: nat
    using that by (simp_all add: is_digit_def)
  show ?case
  proof (cases "n < 10")
    case True
    then show ?thesis using d [of n] by (simp add: decimal.simps [of n] digits_value_def)
  next
    case False
    have "n = 10 * (n div 10) + n mod 10" by simp
    then show ?thesis using 1 [OF False] False d [of "n mod 10"] by (auto simp: decimal.simps [of n] digits_value_def)
  qed
qed

lemma stoull_decimal: "stoull (decimal (unat w)) = Some w"
proof -
  note d = decimal_digits [of "unat w"]
  obtain c cs where cs: "decimal (unat w) = c # cs" using d by (cases "decimal (unat w)") auto
  have "is_digit c" using d cs by simp
  then have c: "\<not> is_space c" "c \<noteq> CHR ''-''" "c \<noteq> CHR ''+''" by (auto simp: is_digit_def is_space_def)
  have digits: "takeWhile is_digit cs = cs" using d cs by (simp add: takeWhile_eq_all_conv)
  have "unat w < 2 ^ 64" using unsigned_less [of w] by simp
  then show ?thesis using c d cs by (simp add: stoull_def Let_def digits)
qed

lemma formatBytes_examples:
  "formatBytes 0 = ''0 B''" "formatBytes 1023 = ''1023 B''" "formatBytes 1536 = ''1.5 KB''" "formatBytes 1310720 = ''1.2 MB''"
  by (simp_all add: formatBytes_def fixed1_def tenths_def decimal.simps Let_def char_of_def bit_0)

end
