(* ===== verification/Spec2Isabelle.thy ===== *)
theory Spec2Isabelle
  imports LF_Base Task_Types Chase_Lev Mpmc_Queue Dual_Queue Block_Pool Slab_Arena Task_Graph Graph_Run Graph_Build Parallel_For
    Timeline_Reactor Scheduler Scheduler_Run Scheduler_Help Worker_Run Vulkan_Sync Task_Handle Subflow Subflow_Run Move_Only_Task
    Node_Storage Concurrent_Run Concurrent_Deque Deque_Runs Concurrent_Queue Worker_Parking Io_Parking Classic_Baseline Bench_Workloads Bench_Support
begin

text \<open>
  A verification of LightFlow, a C++23 task-graph engine with a work-stealing scheduler, a pool of
  memory slabs, GPU timeline waits and a Vulkan translation layer.

  \<^bold>\<open>How the program is put together.\<close> A client emplaces tasks in a \<open>TaskGraph\<close>, connects them
  with \<open>addEdge\<close> or the chaining operators of the handles, and calls \<open>TaskScheduler::runAndWait\<close>.
  The graph resets each node's packed in-degree word and hands the roots to the scheduler; a worker
  that finds a node executes its callable and decrements its successors' words, and the report that
  brings a word to zero schedules or skips the successor. The scheduler keeps a dual-priority
  Chase-Lev deque per worker and bounded injection queues for other threads; idle workers steal.
  A node with GPU waits is parked in the \<open>TimelineReactor\<close> until a notification, a poll or the
  watchdog claims its waits. Nodes live in a \<open>SlabArena\<close>, which takes 64 KiB slabs from a
  \<open>BlockPool\<close>. Parallel loops, subflows, loop-back edges and condition tasks are built from nodes
  and edges. The tools under \<^verbatim>\<open>src/tools\<close> compare the engine with a mutex-based pool and graph.

  \<^bold>\<open>Theories and the code they model\<close> (headers under \<^verbatim>\<open>include/lightflow\<close>, sources under
  \<^verbatim>\<open>src\<close>; functions keep the names of the code, records its field names).
  \<^item> \<open>LF_Base\<close>: integer widths and constants of \<^verbatim>\<open>core/types.hpp\<close>, \<open>std::bit_ceil\<close>, linked chains,
    lemmas on words, slots and lists that the components share.
  \<^item> \<open>Task_Types\<close>: the enumerations of \<^verbatim>\<open>task/task_domain.hpp\<close> and the two decrements of the packed
    in-degree word (\<^verbatim>\<open>task_graph.cpp\<close>); locale \<open>dependency_counter\<close>.
  \<^item> \<open>Chase_Lev\<close>, \<open>Concurrent_Deque\<close>, \<open>Deque_Runs\<close>: \<^verbatim>\<open>scheduler/chase_lev_deque.hpp\<close> and its source.
    The first has each operation as a function and refines it to a double-ended list (locale
    \<open>work_deque\<close>); the second cuts the operations at every atomic access and lets one owner and any
    number of thieves interleave; the third relates the two and states what interleavings can do.
  \<^item> \<open>Dual_Queue\<close>: \<open>DualPriorityQueue\<close>. \<open>Mpmc_Queue\<close>: the injection queue \<open>MpmcTaskQueue\<close> of
    \<^verbatim>\<open>task_scheduler.cpp\<close> (locale \<open>bounded_fifo\<close>); \<open>Concurrent_Queue\<close>: its producers and consumers,
    interleaved at their accesses to positions and cells.
  \<^item> \<open>Block_Pool\<close>: \<^verbatim>\<open>core/memory_pool.hpp\<close> and its source, with the global pool (locale \<open>slab_source\<close>);
    \<open>Slab_Arena\<close>: \<^verbatim>\<open>core/slab_arena.hpp\<close> and its source, a client of that locale.
  \<^item> \<open>Task_Graph\<close>: the node and graph of \<^verbatim>\<open>task/task_node.hpp\<close>, \<^verbatim>\<open>task/task_graph.hpp\<close>,
    \<^verbatim>\<open>task_graph.cpp\<close>, as a store of nodes; \<open>Graph_Build\<close>: what building leaves; \<open>Graph_Run\<close>: sequential
    runs; \<open>Concurrent_Run\<close>: the same code cut at its shared accesses, with several workers.
  \<^item> \<open>Node_Storage\<close>: the untyped callable storage of a node; \<open>Move_Only_Task\<close>: \<^verbatim>\<open>task/move_only_task.hpp\<close>.
  \<^item> \<open>Parallel_For\<close>: \<^verbatim>\<open>task/parallel_for.hpp\<close> and the loops of \<^verbatim>\<open>task_graph.hpp\<close>; \<open>Task_Handle\<close>:
    \<^verbatim>\<open>task/task_handle.hpp\<close>; \<open>Subflow\<close>, \<open>Subflow_Run\<close>: \<^verbatim>\<open>task/subflow.hpp\<close>.
  \<^item> \<open>Timeline_Reactor\<close>: \<^verbatim>\<open>gpu/timeline_reactor.hpp\<close> and its source; \<open>Vulkan_Sync\<close>:
    \<^verbatim>\<open>gpu/gpu_submission.hpp\<close>, \<^verbatim>\<open>vulkan/vulkan_sync.hpp\<close>, \<^verbatim>\<open>vulkan/vulkan_mock.hpp\<close>.
  \<^item> \<open>Scheduler\<close>: \<^verbatim>\<open>scheduler/task_scheduler.hpp\<close> and its source; \<open>Scheduler_Run\<close>: its queues as one
    pool of tasks; \<open>Scheduler_Help\<close>: a thread that executes work until a graph is complete (locale
    \<open>helping_thread\<close>, interpreted here for a thread outside the pool); \<open>Worker_Run\<close>: the worker
    loop, and the interpretation of that locale for a worker. \<open>Worker_Parking\<close>, \<open>Io_Parking\<close>: how
    workers and IO workers park and are woken, with \<open>workerLoop\<close>, \<open>ioWorkerLoop\<close>, \<open>findWork\<close>, \<open>schedule\<close>,
    \<open>scheduleBatch\<close>, \<open>notifyWorker\<close> and \<open>shutdown\<close> cut at their shared accesses.
  \<^item> \<open>Classic_Baseline\<close>, \<open>Bench_Workloads\<close>, \<open>Bench_Support\<close>: \<^verbatim>\<open>src/tools\<close>.

  \<^bold>\<open>What the lemmas show.\<close>
  \<^item> Containers: each deque and queue refines a list, keeps its invariant and reports exactly when it
    is empty or full. Under every interleaving with single steals no task is lost or handed out
    twice, and every deque operation is wait-free; with batch steals both can go wrong, and the
    executions are given. The injection queue stays first-in first-out and free of data races under
    every interleaving, and it reports full or empty only with reason.
  \<^item> Memory: a slab is never held twice, growth and destruction account for every block, arena
    allocations are aligned, inside their slab and pairwise apart, \<open>reset\<close> returns everything; a
    node's storage is type sound and every callable is destroyed exactly once.
  \<^item> Graphs: the builders produce graphs ready to run; a run executes a node at most once and after
    its predecessors, cannot get stuck, and ends with every node settled; interleaving the workers
    inside \<open>execute\<close> changes neither the order guarantees nor the result, and every interleaving
    ends. Loops call their body once per index, subflows finish before what follows them.
  \<^item> Scheduler: finding work loses nothing and finds work when there is some, \<open>runAndWait\<close> returns with
    the graph complete. In every interleaving of workers and other threads no wake-up is lost: a task in
    an injection queue has an announcement under way or a worker that takes it in a bounded number
    of steps, and \<open>shutdown\<close> leaves nobody asleep. This needs sequential consistency for the workers:
    with the store buffers of x86 an execution loses a wake-up; the IO side is correct with them too.
  \<^item> GPU: notification, polling and timeouts claim exactly the waits they should; the Vulkan
    translation is exact and reversible.
  \<^item> Tools: LightFlow and the baseline compute the same on every workload of the benchmarks, the
    allocator restores the address space, the statistics are ordered.

  \<^bold>\<open>Bounds and fuel.\<close> Machine integers keep their width. Theorems on runs assume at most 65535
  predecessors per node (the low half of the in-degree word), those on deques fewer than \<open>2 ^ 31\<close>
  pushes or room for the next push (32-bit indices, doubling capacity), those on the injection
  queue positions below \<open>2 ^ 63\<close> (interleaved, fewer than \<open>2 ^ 62\<close> events), those on parking fewer steps than
  bring the 32-bit wake signal round; what goes wrong beyond the first two is proved as well. The
  traversal of \<open>decrementSkipped\<close> takes fuel, one unit per node taken from the stack; each such node is
  reached over an edge whose report is still outstanding, so \<open>edge_count\<close> units are enough, and the
  run theorems derive a result from that bound. A loop that spins until another thread acts is
  \<open>None\<close> when the caller runs alone.

  \<^bold>\<open>Deviations.\<close> Atomic accesses interleave in one total order; weaker memory orders are not
  distinguished, except for the publishing store of the injection queues in the two parking theories, which
  may wait in a store buffer there. Durations are rationals or milliseconds as integers. Callables are state
  transformers or identities, called in one step. \<^verbatim>\<open>mmap\<close>, \<^verbatim>\<open>malloc\<close>, the allocation callbacks, the
  GPU device, clocks and \<^verbatim>\<open>hardware_concurrency\<close> are parameters.

  \<^bold>\<open>Not modelled.\<close> Thread creation, naming and pinning (system calls); the profiling macros of
  \<^verbatim>\<open>core/tracy.hpp\<close>, which expand to nothing; umbrella headers and the one-query interface
  \<^verbatim>\<open>gpu/timeline_device.hpp\<close>; of the tools, the timing loops, the printing of tables and JSON, the peak-memory
  query, the floating-point visibility test (a parameter) and the competitors that need a
  third-party library; the test programs.
\<close>

end
